(* ===== verification/Asn_Prelude.thy ===== *)
theory Asn_Prelude
  imports Main "HOL-Library.Word"
begin

section \<open>Types, results and byte arithmetic shared by the run-time library\<close>

text \<open>
  The C types of \<open>src/c-lib\<close> and the arithmetic every codec uses.  The widths are the
  ones the build pins (\<open>src/CMakeLists.txt\<close> defines \<open>SIZEOF_INT=4\<close> and
  \<open>SIZEOF_LONG=4\<close>): \<open>AsnLen\<close> (\<open>unsigned long\<close>), \<open>AsnTag\<close>,
  \<open>AsnInt\<close> and \<open>UAsnInt\<close> are 32-bit words; \<open>size_t\<close> byte counts of
  objects in memory are naturals.  The theory holds the result type of the decoders
  (\<open>longjmp\<close> as a value), the big-endian reading and writing of byte lists and the
  lemmas on words that the components share.
\<close>

unbundle bit_operations_syntax

named_theorems enc_simps "the bytes an encoder emits, unfolded"
named_theorems dec_simps "how a decoder runs on a well-formed buffer"

type_synonym byte = "8 word"
type_synonym AsnLen = "32 word"
type_synonym AsnTag = "32 word"
type_synonym AsnInt = "32 word"
type_synonym UAsnInt = "32 word"

definition sizeof_long :: nat where "sizeof_long = 4"

definition INDEFINITE_LEN :: AsnLen where "INDEFINITE_LEN = NOT 0"

subsection \<open>Results of a decoder\<close>

text \<open>
  A decoder returns its value with the new \<open>bytesDecoded\<close> counter and buffer, or
  leaves through \<open>longjmp\<close> with a code.  After a \<open>longjmp\<close> the counter and the
  partly filled result are locals of the frames that were left, so only the code is kept.
  \<open>OutOfFuel\<close> is the value of the fuelled recursions when their fuel is used up; each of
  them has a lemma that says which fuel is enough.
\<close>

datatype ('b, 'a) dres = Ret 'a AsnLen 'b | Jmp int | OutOfFuel

fun dbind :: "('b, 'a) dres \<Rightarrow> ('a \<Rightarrow> AsnLen \<Rightarrow> 'b \<Rightarrow> ('b, 'c) dres) \<Rightarrow> ('b, 'c) dres" where
  "dbind (Ret x n b) f = f x n b"
| "dbind (Jmp e) f = Jmp e"
| "dbind OutOfFuel f = OutOfFuel"

lemma dbind_assoc [simp]: "dbind (dbind m f) h = dbind m (\<lambda>x n b. dbind (f x n b) h)"
  by (cases m) auto

lemma dbind_eq_Ret:
  "dbind m f = Ret y k c \<longleftrightarrow> (\<exists>x n b. m = Ret x n b \<and> f x n b = Ret y k c)"
  by (cases m) auto

lemma dbind_eq_OutOfFuel:
  "dbind m f = OutOfFuel \<longleftrightarrow> m = OutOfFuel \<or> (\<exists>x n b. m = Ret x n b \<and> f x n b = OutOfFuel)"
  by (cases m) auto

text \<open>\<open>(int)len\<close> for a \<open>size_t len\<close>, converted back to \<open>size_t\<close> by a comparison.\<close>

definition int_of_size :: "nat \<Rightarrow> nat" where
  "int_of_size n = (let r = n mod 2 ^ 32 in if r < 2 ^ 31 then r else r + (2 ^ 64 - 2 ^ 32))"

lemma int_of_size_small [simp]: "n < 2 ^ 31 \<Longrightarrow> int_of_size n = n"
  by (simp add: int_of_size_def)

lemma int_of_size_large: "2 ^ 31 \<le> n \<Longrightarrow> n < 2 ^ 32 \<Longrightarrow> 2 ^ 32 \<le> int_of_size n"
  by (simp add: int_of_size_def)

subsection \<open>Bytes, most significant first\<close>

text \<open>\<open>be_val\<close> reads a byte list as a number, \<open>to_be n w\<close> writes the low \<open>n\<close> bytes.\<close>

fun be_val :: "byte list \<Rightarrow> nat" where
  "be_val [] = 0"
| "be_val (x # xs) = unat x * 256 ^ length xs + be_val xs"

fun to_be :: "nat \<Rightarrow> 'a::len word \<Rightarrow> byte list" where
  "to_be 0 w = []"
| "to_be (Suc n) w = to_be n (drop_bit 8 w) @ [ucast w]"

lemma length_to_be [simp]: "length (to_be n w) = n"
  by (induction n arbitrary: w) auto

lemma be_val_append: "be_val (xs @ ys) = be_val xs * 256 ^ length ys + be_val ys"
  by (induction xs) (auto simp: power_add algebra_simps)

lemma be_val_snoc [simp]: "be_val (xs @ [x]) = be_val xs * 256 + unat x"
  by (simp add: be_val_append)

lemma be_val_bound: "be_val xs < 256 ^ length xs"
proof (induction xs)
  case (Cons x xs)
  have "unat x < 256" using unsigned_less [of x, where ?'a = nat] by simp
  then have "(unat x + 1) * 256 ^ length xs \<le> 256 * 256 ^ length xs"
    by (intro mult_le_mono1) simp
  moreover have "be_val (x # xs) < (unat x + 1) * 256 ^ length xs"
    using Cons by (simp only: be_val.simps add_mult_distrib)
  ultimately show ?case by (simp only: length_Cons power_Suc)
qed simp

lemma unat_ucast_byte: "unat (ucast (w :: 'a::len word) :: byte) = unat w mod 256"
  by (simp add: unsigned_ucast_eq take_bit_eq_mod)

lemma unat_drop_bit_8: "unat (drop_bit 8 (w :: 'a::len word)) = unat w div 256"
  unfolding unat_drop_bit_eq by (simp add: drop_bit_eq_div)

lemma be_val_to_be: "be_val (to_be n w) = unat w mod 256 ^ n"
proof (induction n arbitrary: w)
  case (Suc n)
  have "unat w mod (256 * 256 ^ n) = 256 * (unat w div 256 mod 256 ^ n) + unat w mod 256"
    by (rule mod_mult2_eq)
  then show ?case
    by (simp add: Suc unat_drop_bit_8 unat_ucast_byte del: mod_mult2_eq)
qed simp

text \<open>The shift-and-or loop of the decoders computes \<open>be_val\<close>.\<close>

definition shl8 :: "AsnLen \<Rightarrow> byte \<Rightarrow> AsnLen" where
  "shl8 w x = push_bit 8 w OR ucast x"

lemma shl8_eq: "shl8 w x = w * 256 + ucast x"
proof -
  have d: "push_bit 8 w AND (ucast x :: 32 word) = 0"
    by (rule bit_word_eqI) (auto simp: bit_simps dest: bit_imp_le_length)
  have e: "push_bit 8 w = w * 256"
    by (simp add: push_bit_eq_mult)
  show ?thesis
    using disjunctive_add_eq_or [OF d] by (simp only: shl8_def e)
qed

lemma ucast_byte_of_nat: "(ucast (x :: byte) :: 'a::len word) = of_nat (unat x)"
  by simp

lemma foldl_shl8: "foldl shl8 (of_nat k) xs = of_nat (k * 256 ^ length xs + be_val xs)"
proof (induction xs arbitrary: k)
  case (Cons x xs)
  have "shl8 (of_nat k) x = of_nat (k * 256 + unat x)"
    by (simp add: shl8_eq)
  then show ?case
    using Cons [of "k * 256 + unat x"] by (simp add: algebra_simps)
qed simp

lemma foldl_shl8_0: "foldl shl8 0 xs = of_nat (be_val xs)"
  using foldl_shl8 [of 0 xs] by simp

subsection \<open>Masks and signed readings\<close>

lemma unat_and_mask: "unat ((x :: 'a::len word) AND mask n) = unat x mod 2 ^ n"
  by (simp flip: take_bit_eq_mask take_bit_eq_mod add: unsigned_take_bit_eq)

lemma byte_bound: "unat (x :: byte) < 256"
  using unsigned_less [of x, where ?'a = nat] by simp

lemma unat_bound32: "unat (w :: 32 word) < 2 ^ 32"
  using unsigned_less [of w, where ?'a = nat] by simp

lemma uint_bound32: "uint (w :: 32 word) < 2 ^ 32"
  using unsigned_less [of w, where ?'a = int] by simp

lemma sint_unat: "sint (w :: 32 word) = int (unat w) - (if bit w 31 then 2 ^ 32 else 0)"
proof -
  have "take_bit 32 (uint w) = uint w"
    by (rule take_bit_int_eq_self) (use uint_bound32 [of w] in simp_all)
  then show ?thesis by (simp add: sint_uint signed_take_bit_eq_take_bit_minus bit_simps)
qed

lemma sint_nonneg: "0 \<le> sint (w :: 32 word) \<Longrightarrow> sint w = int (unat w)"
  using uint_bound32 [of w] by (simp add: sint_unat split: if_splits)

lemma sint_bound32: "sint (w :: 32 word) < 2 ^ 31"
  using sint_lt [of w] by simp

lemma sint_nonneg_bound:
  assumes "0 \<le> sint (w :: 32 word)"
  shows "unat w < 2 ^ 31"
proof -
  have "int (unat w) < 2 ^ 31"
    using sint_nonneg [OF assms] sint_bound32 [of w] by (simp only:)
  then show ?thesis by (simp only: nat_int_comparison of_nat_power of_nat_numeral)
qed

lemma unat_ucast32 [simp]: "unat (ucast (x :: byte) :: 32 word) = unat x"
  using byte_bound [of x] by (simp add: unsigned_ucast_eq take_bit_nat_eq_self_iff)

lemma byte_bit7: "bit (x :: byte) 7 \<longleftrightarrow> 128 \<le> x"
proof -
  have "bit x 7 \<longleftrightarrow> odd (unat x div 2 ^ 7)"
    using bit_unsigned_iff [of x 7, where ?'a = nat] by (simp add: bit_iff_odd [of "unat x"])
  also have "\<dots> \<longleftrightarrow> 128 \<le> unat x"
  proof (cases "128 \<le> unat x")
    case True
    then have "unat x div 128 = 1" using byte_bound [of x] by (intro div_nat_eqI) simp_all
    then show ?thesis using True by simp
  qed simp
  finally show ?thesis by (simp add: word_le_nat_alt)
qed

lemma sint_neg_iff: "sint (w :: 32 word) < 0 \<longleftrightarrow> 2 ^ 31 \<le> unat w"
proof
  assume n: "sint w < 0"
  show "2 ^ 31 \<le> unat w"
  proof (rule ccontr)
    assume "\<not> 2 ^ 31 \<le> unat w"
    then have "unat w div 2 ^ 31 = 0" by simp
    then have "\<not> bit (unat w) 31" by (simp add: bit_iff_odd)
    then have "\<not> bit w 31" using bit_unsigned_iff [of w 31, where ?'a = nat] by simp
    then show False using n unfolding sint_unat by simp
  qed
next
  assume "2 ^ 31 \<le> unat w"
  then show "sint w < 0" using sint_nonneg_bound [of w] by (meson not_le)
qed

end
