(* ===== verification/Gen_Buf.thy ===== *)
theory Gen_Buf
  imports Asn_Prelude
begin

section \<open>The buffer interface (\<open>c-lib/include/gen-buf.h\<close>)\<close>

text \<open>
  Every codec of the library reaches its buffer through a \<open>GenBuf\<close>: a structure of
  function pointers applied to an opaque buffer.  The record \<open>GenBuf\<close> below is that
  structure over a buffer type \<open>'b\<close>; a codec takes the record and the buffer and returns
  the new buffer.  A segment pointer with its length is the list of the bytes it refers to,
  \<open>NULL\<close> is \<open>None\<close>.

  The two locales are the contract between the buffers and the codecs.  \<open>rvs_buffer\<close>
  is what an encoder relies on (bytes are put in front of those already written);
  \<open>fwd_buffer\<close> is what a decoder relies on (bytes are consumed from the front of those
  that remain, and running out raises the error flag).
\<close>

record 'b GenBuf =
  getByte :: "'b \<Rightarrow> byte \<times> 'b"
  getSeg :: "'b \<Rightarrow> nat \<Rightarrow> byte list option \<times> 'b"
  copy :: "'b \<Rightarrow> nat \<Rightarrow> byte list \<times> 'b"
  skip :: "'b \<Rightarrow> nat \<Rightarrow> 'b"
  peekByte :: "'b \<Rightarrow> byte \<times> 'b"
  peekSeg :: "'b \<Rightarrow> nat \<Rightarrow> byte list option"
  peekCopy :: "'b \<Rightarrow> nat \<Rightarrow> byte list \<times> 'b"
  putByteRvs :: "'b \<Rightarrow> byte \<Rightarrow> 'b"
  putSegRvs :: "'b \<Rightarrow> byte list \<Rightarrow> 'b"
  readError :: "'b \<Rightarrow> bool"
  writeError :: "'b \<Rightarrow> bool"
  resetInReadMode :: "'b \<Rightarrow> 'b"

subsection \<open>Writing backwards\<close>

text \<open>
  \<open>emits g data ok room b b' bs\<close>: going from \<open>b\<close> to \<open>b'\<close> puts exactly
  \<open>bs\<close> in front of the data, unless the write error flag is up afterwards; and the flag
  stays down when there is room for \<open>bs\<close>.
\<close>

definition emits ::
  "('b, 'z) GenBuf_scheme \<Rightarrow> ('b \<Rightarrow> byte list) \<Rightarrow> ('b \<Rightarrow> bool) \<Rightarrow> ('b \<Rightarrow> nat) \<Rightarrow> 'b \<Rightarrow> 'b \<Rightarrow> byte list \<Rightarrow> bool"
where
  "emits g data ok room b b' bs \<longleftrightarrow>
     (ok b \<longrightarrow> ok b' \<and>
        (\<not> writeError g b' \<longrightarrow> \<not> writeError g b \<and> data b' = bs @ data b) \<and>
        (\<not> writeError g b \<and> length bs \<le> room b \<longrightarrow>
           \<not> writeError g b' \<and> room b' = room b - length bs))"

lemma emits_comp:
  assumes "emits g data ok room b b1 xs" and "emits g data ok room b1 b2 ys"
    and "zs = ys @ xs"
  shows "emits g data ok room b b2 zs"
  unfolding emits_def
proof (intro impI conjI)
  assume b: "ok b"
  have 1: "ok b1" and w1: "\<not> writeError g b1 \<Longrightarrow> \<not> writeError g b \<and> data b1 = xs @ data b"
    and r1: "\<not> writeError g b \<Longrightarrow> length xs \<le> room b \<Longrightarrow> \<not> writeError g b1 \<and> room b1 = room b - length xs"
    using assms(1) b unfolding emits_def by blast+
  have 2: "ok b2" and w2: "\<not> writeError g b2 \<Longrightarrow> \<not> writeError g b1 \<and> data b2 = ys @ data b1"
    and r2: "\<not> writeError g b1 \<Longrightarrow> length ys \<le> room b1 \<Longrightarrow> \<not> writeError g b2 \<and> room b2 = room b1 - length ys"
    using assms(2) 1 unfolding emits_def by blast+
  show "ok b2" by (rule 2)
  show "\<not> writeError g b" and "data b2 = zs @ data b" if "\<not> writeError g b2"
    using w2 [OF that] w1 assms(3) by auto
  show "\<not> writeError g b2" and "room b2 = room b - length zs"
    if "\<not> writeError g b \<and> length zs \<le> room b"
  proof -
    have n: "length xs \<le> room b" "length ys \<le> room b - length xs"
      using that assms(3) by auto
    with that r1 have "\<not> writeError g b1" "room b1 = room b - length xs" by auto
    with n r2 assms(3) show "\<not> writeError g b2" "room b2 = room b - length zs" by auto
  qed
qed

lemma emits_conj:
  assumes "emits g data ok room b b' bs" and "ok b \<Longrightarrow> P b \<Longrightarrow> P b'"
  shows "emits g data (\<lambda>z. ok z \<and> P z) room b b' bs"
  using assms unfolding emits_def by blast

locale rvs_buffer =
  fixes g :: "('b, 'z) GenBuf_scheme"
    and data :: "'b \<Rightarrow> byte list"
    and ok :: "'b \<Rightarrow> bool"
    and room :: "'b \<Rightarrow> nat"
  assumes put_byte: "emits g data ok room b (putByteRvs g b x) [x]"
    and put_seg: "length xs < 2 ^ 31 \<Longrightarrow> emits g data ok room b (putSegRvs g b xs) xs"
begin

lemma emits_refl [simp]: "emits g data ok room b b []"
  by (simp add: emits_def)

lemma emits_trans:
  "emits g data ok room b b1 xs \<Longrightarrow> emits g data ok room b1 b2 ys \<Longrightarrow> zs = ys @ xs \<Longrightarrow>
   emits g data ok room b b2 zs"
  by (rule emits_comp)

lemma emits_byte_after:
  assumes "emits g data ok room b b1 xs"
  shows "emits g data ok room b (putByteRvs g b1 y) (y # xs)"
  by (rule emits_trans [OF assms put_byte]) simp

lemma emits_written:
  assumes "emits g data ok room b b' bs" "ok b" "\<not> writeError g b" "length bs \<le> room b"
  shows "ok b' \<and> \<not> writeError g b' \<and> data b' = bs @ data b \<and> room b' = room b - length bs"
  using assms by (auto simp: emits_def)

end

text \<open>The loop \<open>for (i = 0; i < n; i++) { BufPutByteRvs(b, x); x >>= 8; }\<close> of the encoders.\<close>

fun putBytesRvs :: "('b, 'z) GenBuf_scheme \<Rightarrow> nat \<Rightarrow> 'w::len word \<Rightarrow> 'b \<Rightarrow> 'b" where
  "putBytesRvs g 0 w b = b"
| "putBytesRvs g (Suc n) w b = putBytesRvs g n (drop_bit 8 w) (putByteRvs g b (ucast w))"

context rvs_buffer
begin

lemma emits_putBytes: "emits g data ok room b (putBytesRvs g n w b) (to_be n w)"
proof (induction n arbitrary: w b)
  case (Suc n)
  show ?case
    unfolding putBytesRvs.simps to_be.simps by (rule emits_trans [OF put_byte Suc refl])
qed simp

end

subsection \<open>Reading forwards\<close>

text \<open>
  \<open>readable g rem ok b xs\<close>: the bytes \<open>xs\<close> remain to be read and no read has
  failed; \<open>exhausted\<close>: a read has gone past the end.
\<close>

definition readable ::
  "('b, 'z) GenBuf_scheme \<Rightarrow> ('b \<Rightarrow> byte list) \<Rightarrow> ('b \<Rightarrow> bool) \<Rightarrow> 'b \<Rightarrow> byte list \<Rightarrow> bool" where
  "readable g rem ok b xs \<longleftrightarrow> ok b \<and> \<not> readError g b \<and> rem b = xs"

definition exhausted ::
  "('b, 'z) GenBuf_scheme \<Rightarrow> ('b \<Rightarrow> byte list) \<Rightarrow> ('b \<Rightarrow> bool) \<Rightarrow> 'b \<Rightarrow> bool" where
  "exhausted g rem ok b \<longleftrightarrow> ok b \<and> readError g b \<and> rem b = []"

locale fwd_buffer =
  fixes g :: "('b, 'z) GenBuf_scheme"
    and rem :: "'b \<Rightarrow> byte list"
    and ok :: "'b \<Rightarrow> bool"
  assumes get_cons: "readable g rem ok b (x # xs) \<Longrightarrow>
      fst (getByte g b) = x \<and> readable g rem ok (snd (getByte g b)) xs"
    and get_nil: "readable g rem ok b [] \<or> exhausted g rem ok b \<Longrightarrow>
      fst (getByte g b) = 0 \<and> exhausted g rem ok (snd (getByte g b))"
    and copy_ok: "readable g rem ok b xs \<Longrightarrow> n \<le> length xs \<Longrightarrow> n < 2 ^ 31 \<Longrightarrow>
      fst (copy g b n) = take n xs \<and> readable g rem ok (snd (copy g b n)) (drop n xs)"
    and copy_short: "readable g rem ok b xs \<Longrightarrow> n < 2 ^ 32 \<Longrightarrow> length xs < n \<or> 2 ^ 31 \<le> n \<Longrightarrow>
      readError g (snd (copy g b n))"
    and copy_exhausted: "exhausted g rem ok b \<Longrightarrow> readError g (snd (copy g b n))"
    and seg_nil: "readable g rem ok b [] \<or> exhausted g rem ok b \<Longrightarrow> getSeg g b n = (None, b)"
    and seg_cons: "readable g rem ok b (x # xs) \<Longrightarrow> n < 2 ^ 32 \<Longrightarrow>
      \<exists>k b'. getSeg g b n = (Some (take k (x # xs)), b') \<and> readable g rem ok b' (drop k (x # xs))
        \<and> k \<le> n \<and> k \<le> Suc (length xs) \<and> (0 < n \<longrightarrow> 0 < k)"
begin

lemma readable_noerr [simp]: "readable g rem ok b xs \<Longrightarrow> \<not> readError g b"
  by (simp add: readable_def)

lemma exhausted_err [simp]: "exhausted g rem ok b \<Longrightarrow> readError g b"
  by (simp add: exhausted_def)

lemma readable_unique: "readable g rem ok b xs \<Longrightarrow> readable g rem ok b ys \<Longrightarrow> xs = ys"
  by (simp add: readable_def)

lemma get_consE:
  assumes "readable g rem ok b (x # xs)"
  obtains b' where "getByte g b = (x, b')" "readable g rem ok b' xs"
  using get_cons [OF assms] by (cases "getByte g b") auto

lemma get_nilE:
  assumes "readable g rem ok b []"
  obtains b' where "getByte g b = (0, b')" "exhausted g rem ok b'"
  using get_nil [OF disjI1, OF assms] by (cases "getByte g b") auto

lemma get_exhaustedE:
  assumes "exhausted g rem ok b"
  obtains b' where "getByte g b = (0, b')" "exhausted g rem ok b'"
  using get_nil [OF disjI2, OF assms] by (cases "getByte g b") auto

lemma copyE:
  assumes "readable g rem ok b xs" "n \<le> length xs" "n < 2 ^ 31"
  obtains b' where "copy g b n = (take n xs, b')" "readable g rem ok b' (drop n xs)"
  using copy_ok [OF assms] by (cases "copy g b n") auto

end

text \<open>
  The loop \<open>for (...) acc = (acc << 8) | BufGetByte(b)\<close> of the decoders.
\<close>

fun getShl8 :: "('b, 'z) GenBuf_scheme \<Rightarrow> nat \<Rightarrow> AsnLen \<Rightarrow> 'b \<Rightarrow> AsnLen \<times> 'b" where
  "getShl8 g 0 acc b = (acc, b)"
| "getShl8 g (Suc k) acc b = (let (x, b') = getByte g b in getShl8 g k (shl8 acc x) b')"

context fwd_buffer
begin

lemma getShl8_ok:
  assumes "readable g rem ok b (xs @ ys)"
  shows "\<exists>b'. getShl8 g (length xs) acc b = (foldl shl8 acc xs, b') \<and> readable g rem ok b' ys"
  using assms
proof (induction xs arbitrary: acc b)
  case (Cons x xs)
  then obtain b1 where "getByte g b = (x, b1)" "readable g rem ok b1 (xs @ ys)"
    by (auto elim: get_consE)
  then show ?case using Cons.IH [of b1] by simp
qed simp

lemma getShl8_exhausted:
  assumes "exhausted g rem ok b"
  shows "exhausted g rem ok (snd (getShl8 g k acc b))"
  using assms
proof (induction k arbitrary: acc b)
  case (Suc k)
  obtain b1 where "getByte g b = (0, b1)" "exhausted g rem ok b1"
    using Suc.prems by (rule get_exhaustedE)
  then show ?case using Suc.IH by simp
qed simp

lemma getShl8_short:
  assumes "readable g rem ok b xs" "length xs < k"
  shows "exhausted g rem ok (snd (getShl8 g k acc b))"
  using assms
proof (induction k arbitrary: acc b xs)
  case (Suc k)
  show ?case
  proof (cases xs)
    case Nil
    then obtain b1 where "getByte g b = (0, b1)" "exhausted g rem ok b1"
      using Suc.prems by (auto elim: get_nilE)
    then show ?thesis by (simp add: getShl8_exhausted)
  next
    case (Cons x zs)
    then obtain b1 where "getByte g b = (x, b1)" "readable g rem ok b1 zs"
      using Suc.prems by (auto elim: get_consE)
    then show ?thesis using Suc Cons by simp
  qed
qed simp

end

subsection \<open>Decoders against reference parsers\<close>

text \<open>
  A reference parser reads a byte list and gives the value with the number of bytes it
  took, or the error code.  \<open>outcome g rem ok r n xs res\<close>: the decoder's result \<open>r\<close>,
  started on \<open>xs\<close> with \<open>*bytesDecoded = n\<close>, is the one the parser result
  \<open>res\<close> asks for: the same error, or the same value with the counter and the buffer
  moved by exactly the bytes taken.
\<close>

type_synonym 'a parser = "byte list \<Rightarrow> int + 'a \<times> nat"

fun outcome ::
  "('b, 'z) GenBuf_scheme \<Rightarrow> ('b \<Rightarrow> byte list) \<Rightarrow> ('b \<Rightarrow> bool) \<Rightarrow> ('b, 'a) dres \<Rightarrow> AsnLen \<Rightarrow>
    byte list \<Rightarrow> int + 'a \<times> nat \<Rightarrow> bool"
where
  "outcome g rem ok r n xs (Inl e) = (r = Jmp e)"
| "outcome g rem ok r n xs (Inr (v, k)) =
     (k \<le> length xs \<and> (\<exists>b'. r = Ret v (n + of_nat k) b' \<and> readable g rem ok b' (drop k xs)))"

fun pbind :: "'a parser \<Rightarrow> ('a \<Rightarrow> 'c parser) \<Rightarrow> 'c parser" where
  "pbind p f xs = (case p xs of
     Inl e \<Rightarrow> Inl e
   | Inr (v, k) \<Rightarrow> (case f v (drop k xs) of Inl e \<Rightarrow> Inl e | Inr (w, j) \<Rightarrow> Inr (w, k + j)))"

lemma outcome_dbind:
  assumes "outcome g rem ok r n xs (p xs)"
    and "\<And>v k b'. p xs = Inr (v, k) \<Longrightarrow> readable g rem ok b' (drop k xs) \<Longrightarrow>
      outcome g rem ok (f v (n + of_nat k) b') (n + of_nat k) (drop k xs) (h v (drop k xs))"
  shows "outcome g rem ok (dbind r f) n xs (pbind p h xs)"
proof (cases "p xs")
  case (Inl e)
  with assms(1) show ?thesis by simp
next
  case (Inr vk)
  obtain v k where vk: "vk = (v, k)" by (cases vk)
  with Inr assms(1) obtain b' where
    b': "k \<le> length xs" "r = Ret v (n + of_nat k) b'" "readable g rem ok b' (drop k xs)" by auto
  note o = assms(2) [OF Inr [unfolded vk] b'(3)]
  show ?thesis
  proof (cases "h v (drop k xs)")
    case (Inl e)
    then show ?thesis using o Inr vk b' by simp
  next
    case (Inr wj)
    obtain w j where "wj = (w, j)" by (cases wj)
    then show ?thesis
      using o Inr \<open>p xs = Inr vk\<close> vk b' by (auto simp: add.assoc add.commute [of j])
  qed
qed

lemma outcome_Jmp [simp]: "outcome g rem ok (Jmp e) n xs (Inl e') \<longleftrightarrow> e = e'"
  by simp

lemma outcome_Ret:
  "readable g rem ok b' (drop k xs) \<Longrightarrow> k \<le> length xs \<Longrightarrow> m = n + of_nat k \<Longrightarrow>
   outcome g rem ok (Ret v m b') n xs (Inr (v, k))"
  by simp

lemma outcomeE:
  assumes "outcome g rem ok r n xs res"
  obtains e where "res = Inl e" "r = Jmp e"
  | v k b' where "res = Inr (v, k)" "r = Ret v (n + of_nat k) b'" "k \<le> length xs"
      "readable g rem ok b' (drop k xs)"
proof (cases res)
  case (Inl e)
  then show thesis using assms that(1) by simp
next
  case (Inr vk)
  then show thesis using assms that(2) by (cases vk) auto
qed

end
