(* ===== verification/Exp_Buf.thy ===== *)
theory Exp_Buf
  imports Gen_Buf
begin

section \<open>Expandable buffers (\<open>c-lib/src/exp-buf.c\<close>)\<close>

text \<open>
  An \<open>ExpBuf\<close> owns a data block and three pointers into it; blocks are linked both ways,
  and a codec holds a handle to the current one.  The record \<open>ExpBuf\<close> is one block with
  its pointers as offsets from \<open>blkStart\<close> (so \<open>blkEnd\<close> is the length of \<open>blk\<close>).
  The record \<open>ExpBufs\<close> is the handle: the current block, the chain behind \<open>next\<close> and
  the chain behind \<open>prev\<close> (nearest first), the global \<open>expBufDataBlkSizeG\<close>, and the
  number of \<open>malloc\<close> calls that still succeed.  \<open>next == NULL\<close> is \<open>nexts = []\<close>,
  following a link is \<open>goNext\<close> or \<open>goPrev\<close>.

  The theory interprets both buffer contracts on these operations: \<open>ebw\<close> for writing,
  \<open>ebr\<close> for reading.
\<close>

record ExpBuf =
  blk :: "byte list"
  dataStart :: nat
  dataEnd :: nat
  curr :: nat
  readErr :: bool
  writeErr :: bool

record ExpBufs =
  prevs :: "ExpBuf list"
  cur :: ExpBuf
  nexts :: "ExpBuf list"
  mallocs :: nat
  expBufDataBlkSizeG :: nat

subsection \<open>Allocation, links and modes\<close>

definition ExpBufInit :: "ExpBufs \<Rightarrow> nat \<Rightarrow> ExpBufs" where
  "ExpBufInit z dataBlkSize = z\<lparr>expBufDataBlkSizeG := dataBlkSize\<rparr>"

text \<open>\<open>malloc\<close> for the structure, then for the data; a failed second call frees the first.\<close>

definition ExpBufAllocBufAndData :: "nat \<Rightarrow> nat \<Rightarrow> ExpBuf option \<times> nat" where
  "ExpBufAllocBufAndData m sz =
     (if m = 0 then (None, m)
      else if m = 1 then (None, 0)
      else (Some \<lparr>blk = replicate sz 0, dataStart = sz, dataEnd = sz, curr = sz,
                  readErr = False, writeErr = False\<rparr>, m - 2))"

definition goNext :: "ExpBufs \<Rightarrow> ExpBufs" where
  "goNext z = (case nexts z of [] \<Rightarrow> z
     | e # es \<Rightarrow> z\<lparr>prevs := cur z # prevs z, cur := e, nexts := es\<rparr>)"

definition goPrev :: "ExpBufs \<Rightarrow> ExpBufs" where
  "goPrev z = (case prevs z of [] \<Rightarrow> z
     | e # es \<Rightarrow> z\<lparr>prevs := es, cur := e, nexts := cur z # nexts z\<rparr>)"

lemma length_nexts_goNext: "nexts z \<noteq> [] \<Longrightarrow> length (nexts (goNext z)) < length (nexts z)"
  by (auto simp: goNext_def split: list.splits)

lemma length_prevs_goPrev: "prevs z \<noteq> [] \<Longrightarrow> length (prevs (goPrev z)) < length (prevs z)"
  by (auto simp: goPrev_def split: list.splits)

definition ExpBufReadError :: "ExpBufs \<Rightarrow> bool" where
  "ExpBufReadError z = readErr (cur z)"

definition ExpBufWriteError :: "ExpBufs \<Rightarrow> bool" where
  "ExpBufWriteError z = writeErr (cur z)"

fun ExpBufSetWriteError :: "ExpBuf option \<Rightarrow> bool \<Rightarrow> int \<times> ExpBuf option" where
  "ExpBufSetWriteError None v = (-1, None)"
| "ExpBufSetWriteError (Some e) v = (0, Some (e\<lparr>writeErr := v\<rparr>))"

definition resetRead :: "ExpBuf \<Rightarrow> ExpBuf" where
  "resetRead e = e\<lparr>curr := dataStart e, readErr := False, writeErr := True\<rparr>"

text \<open>
  The handle, and every block after it, is reset; the handle ends on the last block it
  visited (\<open>retVal\<close> of the code).
\<close>

function ExpBufResetInReadMode :: "ExpBufs \<Rightarrow> ExpBufs" where
  "ExpBufResetInReadMode z =
     (let z' = z\<lparr>cur := resetRead (cur z)\<rparr>
      in if nexts z = [] then z' else ExpBufResetInReadMode (goNext z'))"
  by pat_completeness auto
termination
  by (relation "measure (length \<circ> nexts)") (auto simp: goNext_def split: list.splits)

declare ExpBufResetInReadMode.simps [simp del]

definition ExpBufResetInWriteRvsMode :: "ExpBuf \<Rightarrow> ExpBuf" where
  "ExpBufResetInWriteRvsMode e =
     e\<lparr>dataEnd := length (blk e), dataStart := length (blk e), writeErr := False, readErr := True\<rparr>"

definition ExpBufAtEod :: "ExpBuf \<Rightarrow> bool" where
  "ExpBufAtEod e = (curr e = dataEnd e)"

definition ExpBufFull :: "ExpBuf \<Rightarrow> bool" where
  "ExpBufFull e = (dataStart e = 0)"

definition ExpBufHasNoData :: "ExpBuf \<Rightarrow> bool" where
  "ExpBufHasNoData e = (dataStart e = dataEnd e)"

definition ExpBufDataSize :: "ExpBuf \<Rightarrow> nat" where
  "ExpBufDataSize e = dataEnd e - dataStart e"

definition ExpBufDataBlkSize :: "ExpBuf \<Rightarrow> nat" where
  "ExpBufDataBlkSize e = length (blk e)"

definition ExpBufDataPtr :: "ExpBuf \<Rightarrow> nat option" where
  "ExpBufDataPtr e = (if ExpBufHasNoData e then None else Some (dataStart e))"

function ExpBufListLastBuf :: "ExpBufs \<Rightarrow> ExpBufs" where
  "ExpBufListLastBuf z = (if nexts z \<noteq> [] then ExpBufListLastBuf (goNext z) else z)"
  by pat_completeness auto
termination
  by (relation "measure (length \<circ> nexts)") (auto simp: length_nexts_goNext)

function ExpBufListFirstBuf :: "ExpBufs \<Rightarrow> ExpBufs" where
  "ExpBufListFirstBuf z = (if prevs z \<noteq> [] then ExpBufListFirstBuf (goPrev z) else z)"
  by pat_completeness auto
termination
  by (relation "measure (length \<circ> prevs)") (auto simp: length_prevs_goPrev)

declare ExpBufListLastBuf.simps [simp del] ExpBufListFirstBuf.simps [simp del]

text \<open>A buffer over given data: one full block with no neighbours.\<close>

definition ExpBufInstallDataInBuf :: "ExpBufs \<Rightarrow> byte list \<Rightarrow> ExpBufs" where
  "ExpBufInstallDataInBuf z xs =
     z\<lparr>prevs := [], nexts := [],
       cur := \<lparr>blk = xs, dataStart = 0, dataEnd = length xs, curr = 0,
               readErr = False, writeErr = False\<rparr>\<rparr>"

subsection \<open>Reading\<close>

definition bytesAt :: "ExpBuf \<Rightarrow> nat \<Rightarrow> byte list" where
  "bytesAt e len = take len (drop (curr e) (blk e))"

function skipEmpty :: "ExpBufs \<Rightarrow> ExpBufs" where
  "skipEmpty z = (if nexts z \<noteq> [] \<and> ExpBufHasNoData (cur z) then skipEmpty (goNext z) else z)"
  by pat_completeness auto
termination
  by (relation "measure (length \<circ> nexts)") (auto simp: length_nexts_goNext)

declare skipEmpty.simps [simp del]

text \<open>The move to the next buffer with data that the reading routines share.\<close>

definition nextWithData :: "ExpBufs \<Rightarrow> ExpBufs" where
  "nextWithData z =
     (let z1 = skipEmpty (goNext z) in z1\<lparr>cur := (cur z1)\<lparr>curr := dataStart (cur z1)\<rparr>\<rparr>)"

definition ExpBufPeekByte :: "ExpBufs \<Rightarrow> byte \<times> ExpBufs" where
  "ExpBufPeekByte z =
     (let z' = (if ExpBufAtEod (cur z) then z\<lparr>cur := (cur z)\<lparr>readErr := True\<rparr>\<rparr> else z)
      in (case bytesAt (cur z) 1 of x # _ \<Rightarrow> x | [] \<Rightarrow> 0, z'))"

definition ExpBufPeekSeg :: "ExpBufs \<Rightarrow> nat \<Rightarrow> byte list option" where
  "ExpBufPeekSeg z len =
     (if ExpBufAtEod (cur z) then None
      else if dataEnd (cur z) - curr (cur z) \<le> len then Some []
      else Some (bytesAt (cur z) len))"

definition ExpBufGetSeg :: "ExpBufs \<Rightarrow> nat \<Rightarrow> byte list option \<times> ExpBufs" where
  "ExpBufGetSeg z len =
     (if ExpBufAtEod (cur z) then (None, z)
      else
        let bytesLeft = dataEnd (cur z) - curr (cur z) in
        if bytesLeft \<le> int_of_size len then
          (Some (bytesAt (cur z) bytesLeft),
           if nexts z \<noteq> [] then nextWithData z
           else z\<lparr>cur := (cur z)\<lparr>curr := curr (cur z) + bytesLeft\<rparr>\<rparr>)
        else
          (Some (bytesAt (cur z) len), z\<lparr>cur := (cur z)\<lparr>curr := curr (cur z) + len\<rparr>\<rparr>))"

definition ExpBufGetByte :: "ExpBufs \<Rightarrow> byte \<times> ExpBufs" where
  "ExpBufGetByte z =
     (if ExpBufAtEod (cur z) then (0, z\<lparr>cur := (cur z)\<lparr>readErr := True\<rparr>\<rparr>)
      else
        let retVal = blk (cur z) ! curr (cur z);
            z1 = z\<lparr>cur := (cur z)\<lparr>curr := Suc (curr (cur z))\<rparr>\<rparr>
        in (retVal, if ExpBufAtEod (cur z1) \<and> nexts z1 \<noteq> [] then nextWithData z1 else z1))"

lemma length_nexts_skipEmpty: "length (nexts (skipEmpty z)) \<le> length (nexts z)"
proof (induction z rule: skipEmpty.induct)
  case (1 z)
  show ?case
  proof (cases "nexts z \<noteq> [] \<and> ExpBufHasNoData (cur z)")
    case True
    then have "length (nexts (skipEmpty (goNext z))) \<le> length (nexts (goNext z))"
      by (rule 1)
    also have "\<dots> < length (nexts z)" using True by (simp add: length_nexts_goNext)
    finally show ?thesis using True by (simp add: skipEmpty.simps [of z])
  next
    case False
    then show ?thesis by (subst skipEmpty.simps) auto
  qed
qed

lemma length_nexts_nextWithData:
  "nexts z \<noteq> [] \<Longrightarrow> length (nexts (nextWithData z)) < length (nexts z)"
  using length_nexts_skipEmpty [of "goNext z"] length_nexts_goNext [of z]
  by (simp add: nextWithData_def Let_def)

text \<open>
  A segment that is not empty brings the reader closer to the end: fewer blocks behind the
  handle, or fewer bytes left in its block.
\<close>

lemma ExpBufGetSeg_decreases:
  assumes "ExpBufGetSeg z len = (Some (x # xs), z')"
  shows "length (nexts z') < length (nexts z) \<or>
         (length (nexts z') = length (nexts z) \<and>
          dataEnd (cur z') - curr (cur z') < dataEnd (cur z) - curr (cur z))"
proof -
  let ?left = "dataEnd (cur z) - curr (cur z)"
  have pos: "0 < ?left \<and> len \<noteq> 0 \<or> ?left \<le> int_of_size len \<and> 0 < ?left"
    using assms
    by (cases "len = 0"; cases "?left = 0")
      (auto simp: ExpBufGetSeg_def bytesAt_def Let_def split: if_splits)
  then show ?thesis
    using assms
    by (auto simp: ExpBufGetSeg_def Let_def length_nexts_nextWithData split: if_splits)
qed

text \<open>
  \<open>ExpBufCopy\<close> and \<open>ExpBufSkip\<close> run \<open>ExpBufGetSeg\<close> until they have enough or
  the data ends.  \<open>acc\<close> is what has been copied so far (\<open>totalGotLen\<close> its length).
\<close>

function copyLoop :: "nat \<Rightarrow> byte list \<Rightarrow> nat \<Rightarrow> ExpBufs \<Rightarrow> byte list \<times> ExpBufs" where
  "copyLoop len acc gotLen z =
     (case ExpBufGetSeg z gotLen of (seg, z') \<Rightarrow>
        let acc' = acc @ (case seg of None \<Rightarrow> [] | Some s \<Rightarrow> s) in
        if int_of_size len \<le> length acc' then (acc', z')
        else case seg of
               Some (x # xs) \<Rightarrow> copyLoop len acc' (len - length acc') z'
             | _ \<Rightarrow> (acc', z'\<lparr>cur := (cur z')\<lparr>readErr := True\<rparr>\<rparr>))"
  by pat_completeness auto
termination
  by (relation "measures [\<lambda>(_, _, _, z). length (nexts z),
                           \<lambda>(_, _, _, z). dataEnd (cur z) - curr (cur z)]")
     (auto dest!: ExpBufGetSeg_decreases [OF sym])

declare copyLoop.simps [simp del]

definition ExpBufCopy :: "ExpBufs \<Rightarrow> nat \<Rightarrow> byte list \<times> ExpBufs" where
  "ExpBufCopy z len = copyLoop len [] len z"

function ExpBufSkip :: "ExpBufs \<Rightarrow> nat \<Rightarrow> ExpBufs" where
  "ExpBufSkip z len =
     (if len = 0 then z
      else case ExpBufGetSeg z len of
             (None, z') \<Rightarrow> z'
           | (Some [], z') \<Rightarrow> z'\<lparr>cur := (cur z')\<lparr>readErr := True\<rparr>\<rparr>
           | (Some (x # xs), z') \<Rightarrow> ExpBufSkip z' (len - length (x # xs)))"
  by pat_completeness auto
termination
  by (relation "measures [\<lambda>(z, _). length (nexts z), \<lambda>(z, _). dataEnd (cur z) - curr (cur z)]")
     (auto dest!: ExpBufGetSeg_decreases [OF sym])

declare ExpBufSkip.simps [simp del]

text \<open>
  \<open>ExpBufPeekCopy\<close> walks along the chain without moving the handle; the \<open>curr\<close>
  pointers of the blocks it passes are reset.  Its position is \<open>z\<close> here and the caller
  walks back with \<open>goPrev\<close>.
\<close>

function peekCopyLoop :: "nat \<Rightarrow> byte list \<Rightarrow> nat \<Rightarrow> ExpBufs \<Rightarrow> byte list \<times> ExpBufs" where
  "peekCopyLoop len acc gotLen z =
     (let seg = (case ExpBufPeekSeg z gotLen of None \<Rightarrow> [] | Some s \<Rightarrow> s);
          acc' = acc @ seg
      in if len \<le> length acc' \<or> nexts z = [] then (acc', z)
         else if seg = [] then (acc', z\<lparr>cur := (cur z)\<lparr>readErr := True\<rparr>\<rparr>)
         else peekCopyLoop len acc' (len - length acc') (nextWithData z))"
  by pat_completeness auto
termination
  by (relation "measure (\<lambda>(_, _, _, z). length (nexts z))")
     (auto simp: length_nexts_nextWithData)

declare peekCopyLoop.simps [simp del]

fun goPrevTo :: "nat \<Rightarrow> ExpBufs \<Rightarrow> ExpBufs" where
  "goPrevTo 0 z = z"
| "goPrevTo (Suc k) z = goPrevTo k (goPrev z)"

definition ExpBufPeekCopy :: "ExpBufs \<Rightarrow> nat \<Rightarrow> byte list \<times> ExpBufs" where
  "ExpBufPeekCopy z len =
     (let (xs, z') = peekCopyLoop len [] len z
      in (xs, goPrevTo (length (prevs z') - length (prevs z)) z'))"

subsection \<open>Writing\<close>

text \<open>\<open>dataStart -= len; memcpy (dataStart, data, len)\<close> inside one block.\<close>

definition putBlk :: "ExpBuf \<Rightarrow> byte list \<Rightarrow> ExpBuf" where
  "putBlk e xs =
     e\<lparr>blk := take (dataStart e - length xs) (blk e) @ xs @ drop (dataStart e) (blk e),
       dataStart := dataStart e - length xs\<rparr>"

text \<open>A new block at the head of the list; \<open>None\<close> when \<open>malloc\<close> fails.\<close>

definition allocPrev :: "ExpBufs \<Rightarrow> ExpBufs option" where
  "allocPrev z =
     (case ExpBufAllocBufAndData (mallocs z) (expBufDataBlkSizeG z) of
        (None, m) \<Rightarrow> None
      | (Some e, m) \<Rightarrow> Some (z\<lparr>prevs := [], cur := e, nexts := cur z # nexts z, mallocs := m\<rparr>))"

definition writeFailed :: "ExpBufs \<Rightarrow> ExpBufs" where
  "writeFailed z = z\<lparr>cur := (cur z)\<lparr>writeErr := True\<rparr>, mallocs := 0\<rparr>"

definition ExpBufPutByteRvs :: "ExpBufs \<Rightarrow> byte \<Rightarrow> ExpBufs" where
  "ExpBufPutByteRvs z x =
     (if writeErr (cur z) then z
      else
        let z1 = z\<lparr>cur := putBlk (cur z) [x]\<rparr> in
        if ExpBufFull (cur z1) then
          (case prevs z1 of
             [] \<Rightarrow> (case allocPrev z1 of None \<Rightarrow> writeFailed z1 | Some z2 \<Rightarrow> z2)
           | _ \<Rightarrow> (let z2 = goPrev z1 in z2\<lparr>cur := ExpBufResetInWriteRvsMode (cur z2)\<rparr>))
        else z1)"

function putSegLoop :: "ExpBufs \<Rightarrow> byte list \<Rightarrow> ExpBufs" where
  "putSegLoop z xs =
     (let bytesLeft = dataStart (cur z) in
      if int_of_size (length xs) < bytesLeft then z\<lparr>cur := putBlk (cur z) xs\<rparr>
      else
        let n = length xs - bytesLeft;
            z1 = z\<lparr>cur := putBlk (cur z) (drop n xs)\<rparr>
        in (case prevs z1 of
              [] \<Rightarrow> (case allocPrev z1 of
                       None \<Rightarrow> writeFailed z1
                     | Some z2 \<Rightarrow> putSegLoop z2 (take n xs))
            | _ \<Rightarrow> putSegLoop (goPrev z1) (take n xs)))"
  by pat_completeness auto
termination
  by (relation "measure (\<lambda>(z, _). mallocs z + length (prevs z))")
     (auto simp: allocPrev_def ExpBufAllocBufAndData_def goPrev_def split: if_splits)

declare putSegLoop.simps [simp del]

definition ExpBufPutSegRvs :: "ExpBufs \<Rightarrow> byte list \<Rightarrow> ExpBufs" where
  "ExpBufPutSegRvs z xs = (if writeErr (cur z) then z else putSegLoop z xs)"

text \<open>What \<open>ExpBufCopyToFile\<close> writes: the data of every block from the first on.\<close>

definition data_of :: "ExpBuf \<Rightarrow> byte list" where
  "data_of e = take (dataEnd e - dataStart e) (drop (dataStart e) (blk e))"

definition ExpBufCopyToFile :: "ExpBufs \<Rightarrow> byte list" where
  "ExpBufCopyToFile z =
     (let z' = ExpBufListFirstBuf z in data_of (cur z') @ concat (map data_of (nexts z')))"

definition expBufOpsG :: "ExpBufs GenBuf" where
  "expBufOpsG = \<lparr>getByte = ExpBufGetByte, getSeg = ExpBufGetSeg, copy = ExpBufCopy,
     skip = ExpBufSkip, peekByte = ExpBufPeekByte, peekSeg = ExpBufPeekSeg,
     peekCopy = ExpBufPeekCopy, putByteRvs = ExpBufPutByteRvs, putSegRvs = ExpBufPutSegRvs,
     readError = ExpBufReadError, writeError = ExpBufWriteError,
     resetInReadMode = ExpBufResetInReadMode\<rparr>"

subsection \<open>The write contract\<close>

text \<open>
  \<open>written\<close> is the data from the handle on; \<open>wroom\<close> the bytes that can still be put
  before an allocation fails.  \<open>winv\<close> is what writing keeps: the pointers are in order,
  a buffer that accepts data has room for a byte, and the blocks before the handle are empty.
\<close>

definition wf_blk :: "ExpBuf \<Rightarrow> bool" where
  "wf_blk e \<longleftrightarrow> dataStart e \<le> dataEnd e \<and> dataEnd e \<le> length (blk e) \<and> length (blk e) < 2 ^ 31"

definition reset_blk :: "ExpBuf \<Rightarrow> bool" where
  "reset_blk e \<longleftrightarrow> dataStart e = length (blk e) \<and> dataEnd e = length (blk e) \<and>
     0 < length (blk e) \<and> length (blk e) < 2 ^ 31 \<and> \<not> writeErr e"

definition written :: "ExpBufs \<Rightarrow> byte list" where
  "written z = data_of (cur z) @ concat (map data_of (nexts z))"

definition winv :: "ExpBufs \<Rightarrow> bool" where
  "winv z \<longleftrightarrow> wf_blk (cur z) \<and> (\<not> writeErr (cur z) \<longrightarrow> 0 < dataStart (cur z)) \<and>
     (\<forall>e \<in> set (prevs z). reset_blk e) \<and> (\<forall>e \<in> set (nexts z). wf_blk e) \<and>
     0 < expBufDataBlkSizeG z \<and> expBufDataBlkSizeG z < 2 ^ 31"

definition moreRoom :: "ExpBufs \<Rightarrow> nat" where
  "moreRoom z = sum_list (map (length \<circ> blk) (prevs z)) + (mallocs z div 2) * expBufDataBlkSizeG z"

lemma moreRoom_cur [simp]: "moreRoom (z\<lparr>cur := e\<rparr>) = moreRoom z"
  by (simp add: moreRoom_def)

definition wroom :: "ExpBufs \<Rightarrow> nat" where
  "wroom z = (dataStart (cur z) - 1) + moreRoom z"

lemma length_put:
  assumes "wf_blk e" "length xs \<le> dataStart e"
  shows "length (blk (putBlk e xs)) = length (blk e)"
proof -
  have "length xs \<le> dataStart e" "dataStart e \<le> length (blk e)"
    using assms by (auto simp: wf_blk_def)
  then show ?thesis by (simp add: putBlk_def)
qed

lemma wf_putBlk:
  assumes "wf_blk e" "length xs \<le> dataStart e"
  shows "wf_blk (putBlk e xs) \<and> dataStart (putBlk e xs) = dataStart e - length xs \<and>
    writeErr (putBlk e xs) = writeErr e \<and> data_of (putBlk e xs) = xs @ data_of e"
proof -
  let ?s = "dataStart e" and ?k = "dataStart e - length xs"
  note l = length_put [OF assms]
  have "min (length (blk e)) ?k = ?k" using assms by (auto simp: wf_blk_def)
  then have "drop ?k (blk (putBlk e xs)) = xs @ drop ?s (blk e)"
    by (simp add: putBlk_def)
  moreover have "dataEnd e - ?k = length xs + (dataEnd e - ?s)"
    using assms by (simp add: wf_blk_def)
  ultimately have "data_of (putBlk e xs) = xs @ data_of e"
    by (simp add: data_of_def putBlk_def)
  with l assms show ?thesis by (auto simp: wf_blk_def putBlk_def)
qed

lemma reset_blk_props:
  assumes "reset_blk e"
  shows "wf_blk e \<and> data_of e = [] \<and> 0 < dataStart e \<and> \<not> writeErr e \<and>
    dataStart e = length (blk e) \<and> ExpBufResetInWriteRvsMode e = e\<lparr>readErr := True\<rparr>"
  using assms by (auto simp: reset_blk_def wf_blk_def data_of_def ExpBufResetInWriteRvsMode_def)

text \<open>Leaving a full block: into the one before it, a new one, or with the error flag up.\<close>

lemma allocPrev_None: "allocPrev z = None \<longleftrightarrow> mallocs z < 2"
  by (auto simp: allocPrev_def ExpBufAllocBufAndData_def)

lemma allocPrev_SomeD:
  assumes "allocPrev z = Some z'"
  shows "2 \<le> mallocs z \<and> mallocs z' = mallocs z - 2 \<and> prevs z' = [] \<and> nexts z' = cur z # nexts z \<and>
    expBufDataBlkSizeG z' = expBufDataBlkSizeG z \<and>
    dataStart (cur z') = expBufDataBlkSizeG z \<and> dataEnd (cur z') = expBufDataBlkSizeG z \<and>
    length (blk (cur z')) = expBufDataBlkSizeG z \<and> \<not> writeErr (cur z')"
  using assms by (auto simp: allocPrev_def ExpBufAllocBufAndData_def split: if_splits)

definition full :: "ExpBufs \<Rightarrow> bool" where
  "full z \<longleftrightarrow> wf_blk (cur z) \<and> dataStart (cur z) = 0 \<and> (\<forall>e \<in> set (prevs z). reset_blk e) \<and>
     (\<forall>e \<in> set (nexts z). wf_blk e) \<and> 0 < expBufDataBlkSizeG z \<and> expBufDataBlkSizeG z < 2 ^ 31"

lemma full_goPrev:
  assumes "full z" "prevs z = e # es" "f = (\<lambda>x. x) \<or> f = ExpBufResetInWriteRvsMode"
    "z' = (goPrev z)\<lparr>cur := f (cur (goPrev z))\<rparr>"
  shows "winv z' \<and> written z' = written z \<and> \<not> writeErr (cur z') \<and> Suc (wroom z') = moreRoom z"
proof -
  have e: "reset_blk e" using assms by (simp add: full_def)
  have f: "wf_blk (f e) \<and> data_of (f e) = [] \<and> 0 < dataStart (f e) \<and> \<not> writeErr (f e) \<and>
      dataStart (f e) = length (blk e)"
    using assms(3) reset_blk_props [OF e] by (auto simp: wf_blk_def data_of_def)
  show ?thesis
    using assms(1,2,4) f
    by (auto simp: full_def winv_def written_def goPrev_def wroom_def moreRoom_def)
qed

lemma full_alloc:
  assumes "full z" "prevs z = []" "allocPrev z = Some z'"
  shows "winv z' \<and> written z' = written z \<and> \<not> writeErr (cur z') \<and> Suc (wroom z') = moreRoom z"
proof -
  note a = allocPrev_SomeD [OF assms(3)]
  then have "mallocs z div 2 = Suc (mallocs z' div 2)"
    by (cases "mallocs z" rule: nat.exhaust; cases "mallocs z - 1") auto
  then have "Suc (wroom z') = moreRoom z"
    using a assms by (simp add: wroom_def moreRoom_def full_def)
  moreover have "wf_blk (cur z')" "data_of (cur z') = []"
    using a assms(1) by (auto simp: wf_blk_def full_def data_of_def)
  ultimately show ?thesis
    using a assms by (auto simp: winv_def written_def full_def)
qed

lemma full_fail:
  assumes "full z" "prevs z = []" "allocPrev z = None"
  shows "winv (writeFailed z) \<and> writeErr (cur (writeFailed z)) \<and> moreRoom z = 0"
  using assms by (auto simp: allocPrev_None writeFailed_def winv_def full_def wf_blk_def moreRoom_def)

lemma written_putBlk:
  assumes "winv z" "length xs \<le> dataStart (cur z)"
  shows "written (z\<lparr>cur := putBlk (cur z) xs\<rparr>) = xs @ written z"
  using assms wf_putBlk [of "cur z" xs] by (simp add: winv_def written_def)

lemma full_putBlk:
  assumes "winv z" "length xs = dataStart (cur z)"
  shows "full (z\<lparr>cur := putBlk (cur z) xs\<rparr>)"
  using assms wf_putBlk [of "cur z" xs] by (simp add: winv_def full_def)

lemma winv_putBlk:
  assumes "winv z" "length xs < dataStart (cur z)"
  shows "winv (z\<lparr>cur := putBlk (cur z) xs\<rparr>) \<and>
    wroom (z\<lparr>cur := putBlk (cur z) xs\<rparr>) = wroom z - length xs"
  using assms wf_putBlk [of "cur z" xs] by (simp add: winv_def wroom_def moreRoom_def)

abbreviation wemits :: "ExpBufs \<Rightarrow> ExpBufs \<Rightarrow> byte list \<Rightarrow> bool" where
  "wemits \<equiv> emits expBufOpsG written winv wroom"

lemma writeError_expBufOpsG [simp]: "writeError expBufOpsG z = writeErr (cur z)"
  by (simp add: expBufOpsG_def ExpBufWriteError_def)

lemma wemits_error: "writeErr (cur z) \<Longrightarrow> wemits z z bs"
  by (simp add: emits_def)

lemma wemits_intro:
  assumes "winv z'" "written z' = bs @ written z" "\<not> writeErr (cur z')"
    and "wroom z' + length bs = wroom z" and "\<not> writeErr (cur z)"
  shows "wemits z z' bs"
  using assms unfolding emits_def by auto

lemma wemits_putByte: "wemits z (ExpBufPutByteRvs z x) [x]"
proof (cases "winv z \<and> \<not> writeErr (cur z)")
  case False
  then show ?thesis by (auto simp: emits_def ExpBufPutByteRvs_def)
next
  case True
  let ?z1 = "z\<lparr>cur := putBlk (cur z) [x]\<rparr>"
  have s: "0 < dataStart (cur z)" using True by (simp add: winv_def)
  have w: "written ?z1 = x # written z"
    using True s written_putBlk [of z "[x]"] by simp
  have wf: "wf_blk (cur z)" using True by (simp add: winv_def)
  have d: "dataStart (putBlk (cur z) [x]) = dataStart (cur z) - 1"
    by (simp add: putBlk_def)
  have e: "writeErr (putBlk (cur z) [x]) = writeErr (cur z)"
    by (simp add: putBlk_def)
  show ?thesis
  proof (cases "dataStart (cur z) = 1")
    case False
    then show ?thesis
      using True s w d e winv_putBlk [of z "[x]"]
      by (simp add: emits_def ExpBufPutByteRvs_def ExpBufFull_def Let_def)
  next
    case one: True
    have f: "full ?z1" using True one full_putBlk [of z "[x]"] by simp
    have r: "wroom z = moreRoom ?z1" using one by (simp add: wroom_def moreRoom_def)
    show ?thesis
    proof (cases "prevs z")
      case (Cons p ps)
      let ?z2 = "(goPrev ?z1)\<lparr>cur := ExpBufResetInWriteRvsMode (cur (goPrev ?z1))\<rparr>"
      have "prevs ?z1 = p # ps" using Cons by simp
      from full_goPrev [OF f this disjI2 refl, OF refl] have "wemits z ?z2 [x]"
        using True w r by (intro wemits_intro) auto
      then show ?thesis
        using True one d Cons by (simp add: ExpBufPutByteRvs_def ExpBufFull_def Let_def)
    next
      case Nil
      then have p: "prevs ?z1 = []" by simp
      show ?thesis
      proof (cases "allocPrev ?z1")
        case None
        then show ?thesis
          using True one d Nil r full_fail [OF f p]
          by (simp add: emits_def ExpBufPutByteRvs_def ExpBufFull_def Let_def)
      next
        case (Some z2)
        from full_alloc [OF f p this] have "wemits z z2 [x]"
          using True w r by (intro wemits_intro) auto
        then show ?thesis
          using True one d Nil Some by (simp add: ExpBufPutByteRvs_def ExpBufFull_def Let_def)
      qed
    qed
  qed
qed

lemma wemits_putSegLoop:
  assumes "length xs < 2 ^ 31" "winv z" "\<not> writeErr (cur z)"
  shows "wemits z (putSegLoop z xs) xs"
  using assms
proof (induction z xs rule: putSegLoop.induct)
  case (1 z xs)
  let ?left = "dataStart (cur z)"
  have err: "writeErr (putBlk (cur z) ys) = writeErr (cur z)" for ys
    by (simp add: putBlk_def)
  show ?case
  proof (cases "length xs < ?left")
    case True
    then show ?thesis
      using 1 err written_putBlk [of z xs] winv_putBlk [of z xs]
      by (subst putSegLoop.simps) (simp add: emits_def Let_def)
  next
    case False
    let ?n = "length xs - ?left"
    let ?z1 = "z\<lparr>cur := putBlk (cur z) (drop ?n xs)\<rparr>"
    have f: "full ?z1" and w: "written ?z1 = drop ?n xs @ written z"
      using False 1 full_putBlk [of z "drop ?n xs"] written_putBlk [of z "drop ?n xs"] by simp_all
    have r: "wroom z = moreRoom ?z1 + (?left - 1)" and s: "0 < ?left"
      using 1 by (simp_all add: wroom_def moreRoom_def winv_def)
    have step: "wemits z (putSegLoop z2 (take ?n xs)) xs"
      if z2: "winv z2 \<and> written z2 = written ?z1 \<and> \<not> writeErr (cur z2) \<and> Suc (wroom z2) = moreRoom ?z1"
        and rec: "wemits z2 (putSegLoop z2 (take ?n xs)) (take ?n xs)" for z2
    proof (rule emits_comp [OF _ rec])
      show "wemits z z2 (drop ?n xs)"
        using z2 w r s 1(3-) False by (intro wemits_intro) auto
    qed simp
    show ?thesis
    proof (cases "prevs z")
      case (Cons p ps)
      have z2: "winv (goPrev ?z1) \<and> written (goPrev ?z1) = written ?z1 \<and>
          \<not> writeErr (cur (goPrev ?z1)) \<and> Suc (wroom (goPrev ?z1)) = moreRoom ?z1"
        using full_goPrev [OF f _ disjI1 refl, OF _ refl] Cons by simp
      have "wemits (goPrev ?z1) (putSegLoop (goPrev ?z1) (take ?n xs)) (take ?n xs)"
        using 1(2) [OF refl _ refl refl, of p ps] False 1(3-) Cons z2 by simp
      from step [OF z2 this] show ?thesis
        using False Cons 1(3-) by (subst putSegLoop.simps) (simp add: Let_def)
    next
      case Nil
      show ?thesis
      proof (cases "allocPrev ?z1")
        case None
        have "\<not> length xs \<le> wroom z" using None Nil r s full_fail [OF f] False by auto
        then show ?thesis
          using None False Nil 1(3-) full_fail [OF f]
          by (subst putSegLoop.simps) (simp add: Let_def emits_def)
      next
        case (Some z2)
        note z2 = full_alloc [OF f _ Some]
        have "wemits z2 (putSegLoop z2 (take ?n xs)) (take ?n xs)"
          using 1(1) [OF refl _ refl refl, of z2] False 1(3-) Nil Some z2 by simp
        from step [OF z2 this] Nil show ?thesis
          using False 1(3-) Some by (subst putSegLoop.simps) (simp add: Let_def)
      qed
    qed
  qed
qed

lemma wemits_putSeg:
  assumes "length xs < 2 ^ 31"
  shows "wemits z (ExpBufPutSegRvs z xs) xs"
proof (cases "winv z")
  case True
  then show ?thesis
    using wemits_putSegLoop [OF assms True] by (simp add: ExpBufPutSegRvs_def wemits_error)
qed (simp add: emits_def)

interpretation ebw: rvs_buffer expBufOpsG written winv wroom
proof
  show "wemits b (putByteRvs expBufOpsG b x) [x]" for b x
    using wemits_putByte by (simp add: expBufOpsG_def)
  show "wemits b (putSegRvs expBufOpsG b xs) xs" if "length xs < 2 ^ 31" for b xs
    using wemits_putSeg [OF that] by (simp add: expBufOpsG_def)
qed

subsection \<open>The read contract\<close>

text \<open>
  \<open>remaining\<close> is what is still to be read, \<open>rinv\<close> what reading keeps: an exhausted
  block has only empty blocks behind it, and the error flag is only up at the end.
\<close>

definition remaining :: "ExpBufs \<Rightarrow> byte list" where
  "remaining z = take (dataEnd (cur z) - curr (cur z)) (drop (curr (cur z)) (blk (cur z))) @
     concat (map data_of (nexts z))"

definition rinv :: "ExpBufs \<Rightarrow> bool" where
  "rinv z \<longleftrightarrow> curr (cur z) \<le> dataEnd (cur z) \<and> dataEnd (cur z) \<le> length (blk (cur z)) \<and>
     length (blk (cur z)) < 2 ^ 31 \<and>
     (curr (cur z) = dataEnd (cur z) \<longrightarrow> concat (map data_of (nexts z)) = []) \<and>
     (readErr (cur z) \<longrightarrow> curr (cur z) = dataEnd (cur z)) \<and>
     (\<forall>e \<in> set (nexts z). wf_blk e \<and> \<not> readErr e)"

abbreviation rd :: "ExpBufs \<Rightarrow> byte list \<Rightarrow> bool" where
  "rd \<equiv> readable expBufOpsG remaining rinv"

abbreviation exh :: "ExpBufs \<Rightarrow> bool" where
  "exh \<equiv> exhausted expBufOpsG remaining rinv"

lemma readError_expBufOpsG [simp]: "readError expBufOpsG z = readErr (cur z)"
  by (simp add: expBufOpsG_def ExpBufReadError_def)

lemma length_data_of: "wf_blk e \<Longrightarrow> length (data_of e) = dataEnd e - dataStart e"
  by (auto simp: wf_blk_def data_of_def)

lemma skipEmpty_props:
  assumes "wf_blk (cur z) \<and> \<not> readErr (cur z)" "\<forall>e \<in> set (nexts z). wf_blk e \<and> \<not> readErr e"
  shows "written (skipEmpty z) = written z \<and>
    wf_blk (cur (skipEmpty z)) \<and> \<not> readErr (cur (skipEmpty z)) \<and>
    (\<forall>e \<in> set (nexts (skipEmpty z)). wf_blk e \<and> \<not> readErr e) \<and>
    (dataStart (cur (skipEmpty z)) = dataEnd (cur (skipEmpty z)) \<longrightarrow> nexts (skipEmpty z) = [])"
  using assms
proof (induction z rule: skipEmpty.induct)
  case (1 z)
  show ?case
  proof (cases "nexts z \<noteq> [] \<and> ExpBufHasNoData (cur z)")
    case True
    then obtain e es where n: "nexts z = e # es" by (cases "nexts z") auto
    have d: "data_of (cur z) = []" using True by (simp add: ExpBufHasNoData_def data_of_def)
    have g: "nexts (goNext z) = es" "cur (goNext z) = e" using n by (simp_all add: goNext_def)
    have "written (goNext z) = written z" using n d g by (simp add: written_def)
    with 1(1) [OF True] 1(2-) n g show ?thesis
      using True by (simp add: skipEmpty.simps [of z])
  next
    case False
    then show ?thesis using 1(2-) by (subst (1 2 3 4 5 6 7) skipEmpty.simps) (auto simp: ExpBufHasNoData_def)
  qed
qed

lemma nextWithData_props:
  assumes "nexts z \<noteq> []" "\<forall>e \<in> set (nexts z). wf_blk e \<and> \<not> readErr e"
  shows "rd (nextWithData z) (concat (map data_of (nexts z)))"
proof -
  obtain e es where n: "nexts z = e # es" using assms by (cases "nexts z") auto
  let ?g = "goNext z" and ?s = "skipEmpty (goNext z)"
  have g: "cur ?g = e" "nexts ?g = es" using n by (simp_all add: goNext_def)
  note p = skipEmpty_props [of ?g]
  have w: "written ?s = concat (map data_of (nexts z))"
    using p assms g n by (simp add: written_def)
  have q: "wf_blk (cur ?s)" "\<not> readErr (cur ?s)" "\<forall>e \<in> set (nexts ?s). wf_blk e \<and> \<not> readErr e"
    "dataStart (cur ?s) = dataEnd (cur ?s) \<longrightarrow> nexts ?s = []"
    using p assms g n by simp_all
  from q have "rinv (nextWithData z)"
    by (auto simp: rinv_def nextWithData_def Let_def wf_blk_def)
  moreover have "remaining (nextWithData z) = written ?s"
    by (simp add: remaining_def written_def nextWithData_def Let_def data_of_def)
  ultimately show ?thesis
    using w q by (simp add: readable_def nextWithData_def Let_def)
qed

lemma rinvD:
  assumes "rinv z"
  shows "curr (cur z) \<le> dataEnd (cur z)" "dataEnd (cur z) \<le> length (blk (cur z))"
    "length (blk (cur z)) < 2 ^ 31"
    "length (take (dataEnd (cur z) - curr (cur z)) (drop (curr (cur z)) (blk (cur z)))) =
      dataEnd (cur z) - curr (cur z)"
    "\<forall>e \<in> set (nexts z). wf_blk e \<and> \<not> readErr e"
  using assms by (auto simp: rinv_def)

lemma remaining_drop:
  assumes "rinv z" "k \<le> dataEnd (cur z) - curr (cur z)"
  shows "drop k (remaining z) =
    take (dataEnd (cur z) - curr (cur z) - k) (drop (curr (cur z) + k) (blk (cur z))) @
    concat (map data_of (nexts z))"
  unfolding remaining_def drop_append rinvD(4) [OF assms(1)] using assms(2)
  by (simp add: drop_take add.commute)

lemma rd_nil: "rd z [] \<longleftrightarrow> rinv z \<and> \<not> readErr (cur z) \<and> curr (cur z) = dataEnd (cur z)"
  by (auto simp: readable_def remaining_def rinv_def)

lemma rd_cons:
  assumes "rd z (x # xs)"
  shows "curr (cur z) < dataEnd (cur z) \<and> blk (cur z) ! curr (cur z) = x"
proof -
  have lt: "curr (cur z) < dataEnd (cur z)"
    using assms
    by (cases "curr (cur z) = dataEnd (cur z)")
      (auto simp: readable_def remaining_def rinv_def simp del: concat_eq_Nil_conv)
  then have l: "curr (cur z) < length (blk (cur z))"
    using assms by (auto simp: readable_def rinv_def)
  have "remaining z = x # xs" using assms by (simp add: readable_def)
  moreover have "dataEnd (cur z) - curr (cur z) = Suc (dataEnd (cur z) - Suc (curr (cur z)))"
    using lt by simp
  moreover have "drop (curr (cur z)) (blk (cur z)) =
      blk (cur z) ! curr (cur z) # drop (Suc (curr (cur z))) (blk (cur z))"
    using l by (simp add: Cons_nth_drop_Suc)
  ultimately show ?thesis using lt by (simp add: remaining_def)
qed

text \<open>One step of \<open>curr\<close>; at the end of the block the reader moves on.\<close>

lemma rd_advance:
  assumes "rd z xs" "k \<le> dataEnd (cur z) - curr (cur z)"
    and "k = dataEnd (cur z) - curr (cur z) \<Longrightarrow> nexts z = []"
  shows "rd (z\<lparr>cur := (cur z)\<lparr>curr := curr (cur z) + k\<rparr>\<rparr>) (drop k xs)"
proof -
  let ?l = "dataEnd (cur z) - curr (cur z)"
  have i: "rinv z" "\<not> readErr (cur z)" "xs = remaining z"
    using assms(1) by (simp_all add: readable_def)
  have d: "drop k xs = remaining (z\<lparr>cur := (cur z)\<lparr>curr := curr (cur z) + k\<rparr>\<rparr>)"
    using remaining_drop [OF i(1) assms(2)] i(3) by (simp add: remaining_def)
  have "curr (cur z) + k = dataEnd (cur z) \<Longrightarrow> nexts z = []"
    using i(1) assms(3) by (auto simp: rinv_def)
  moreover have "readErr (cur z) = False" using i(2) by simp
  ultimately show ?thesis
    unfolding d readable_def using i(1) assms(2) by (auto simp: rinv_def)
qed

lemma rd_next:
  assumes "rd z xs" "nexts z \<noteq> []" "k = dataEnd (cur z) - curr (cur z)" "nexts z' = nexts z"
  shows "rd (nextWithData z') (drop k xs)"
proof -
  have "rinv z" "xs = remaining z" using assms(1) by (simp_all add: readable_def)
  then have "drop k xs = concat (map data_of (nexts z'))"
    using assms(3,4) remaining_drop [of z k] by simp
  with nextWithData_props [of z'] assms(2,4) \<open>rinv z\<close> show ?thesis
    by (simp add: rinv_def)
qed

lemma GetByte_nil:
  assumes "rd z [] \<or> exh z"
  shows "ExpBufGetByte z = (0, z\<lparr>cur := (cur z)\<lparr>readErr := True\<rparr>\<rparr>) \<and>
    exh (z\<lparr>cur := (cur z)\<lparr>readErr := True\<rparr>\<rparr>)"
  using assms
  by (auto simp: ExpBufGetByte_def ExpBufAtEod_def exhausted_def readable_def rinv_def remaining_def)

lemma GetByte_cons:
  assumes "rd z (x # xs)"
  shows "fst (ExpBufGetByte z) = x \<and> rd (snd (ExpBufGetByte z)) xs"
proof -
  let ?z1 = "z\<lparr>cur := (cur z)\<lparr>curr := Suc (curr (cur z))\<rparr>\<rparr>"
  note c = rd_cons [OF assms]
  show ?thesis
  proof (cases "Suc (curr (cur z)) = dataEnd (cur z) \<and> nexts z \<noteq> []")
    case True
    with c have "1 = dataEnd (cur z) - curr (cur z)" by auto
    from rd_next [OF assms _ this, of ?z1] True have "rd (nextWithData ?z1) xs" by simp
    then show ?thesis using c True by (simp add: ExpBufGetByte_def ExpBufAtEod_def Let_def)
  next
    case False
    with rd_advance [OF assms, of 1] c have "rd ?z1 xs" by auto
    then show ?thesis using c False by (auto simp: ExpBufGetByte_def ExpBufAtEod_def Let_def)
  qed
qed

lemma GetSeg_nil: "rd z [] \<Longrightarrow> ExpBufGetSeg z n = (None, z)"
  by (simp add: rd_nil ExpBufGetSeg_def ExpBufAtEod_def)

lemma GetSeg_exh: "exh z \<Longrightarrow> ExpBufGetSeg z n = (None, z)"
  by (simp add: exhausted_def rinv_def ExpBufGetSeg_def ExpBufAtEod_def)

lemma rd_take:
  assumes "rd z xs" "k \<le> dataEnd (cur z) - curr (cur z)"
  shows "bytesAt (cur z) k = take k xs \<and> k \<le> length xs"
proof -
  have i: "rinv z" "xs = remaining z" using assms(1) by (simp_all add: readable_def)
  show ?thesis
    using rinvD(4) [OF i(1)] assms(2)
    by (auto simp: i(2) remaining_def bytesAt_def take_append min_def)
qed

lemma GetSeg_cons:
  assumes "rd z (x # xs)" "n < 2 ^ 32"
  shows "\<exists>k z'. ExpBufGetSeg z n = (Some (take k (x # xs)), z') \<and> rd z' (drop k (x # xs)) \<and>
    k \<le> n \<and> k \<le> Suc (length xs) \<and> (0 < n \<longrightarrow> 0 < k)"
proof -
  let ?l = "dataEnd (cur z) - curr (cur z)"
  have pos: "0 < ?l" using rd_cons [OF assms(1)] by auto
  have lt: "?l < 2 ^ 31" using assms(1) by (auto simp: readable_def rinv_def)
  have neod: "\<not> ExpBufAtEod (cur z)" using pos by (simp add: ExpBufAtEod_def)
  note t = rd_take [OF assms(1)]
  show ?thesis
  proof (cases "?l \<le> int_of_size n")
    case False
    then have "n < 2 ^ 31" using lt int_of_size_large [of n] assms(2) by (cases "n < 2 ^ 31") auto
    then have n: "n < ?l" using False by simp
    with rd_advance [OF assms(1), of n] t [of n] neod False show ?thesis
      by (intro exI [of _ n] exI) (auto simp: ExpBufGetSeg_def Let_def)
  next
    case True
    have n: "?l \<le> n" using True lt by (cases "n < 2 ^ 31") auto
    show ?thesis
    proof (cases "nexts z = []")
      case True': True
      with rd_advance [OF assms(1), of ?l] t [of ?l] neod True n pos show ?thesis
        by (intro exI [of _ ?l] exI) (auto simp: ExpBufGetSeg_def Let_def)
    next
      case False
      with rd_next [OF assms(1) False refl refl] t [of ?l] neod True n pos show ?thesis
        by (intro exI [of _ ?l] exI) (auto simp: ExpBufGetSeg_def Let_def)
    qed
  qed
qed

lemma copyLoop_rd:
  assumes "rd z xs" "length acc \<le> len" "gotLen = len - length acc" "len < 2 ^ 32"
  shows "if gotLen \<le> length xs \<and> len < 2 ^ 31
         then fst (copyLoop len acc gotLen z) = acc @ take gotLen xs \<and>
              rd (snd (copyLoop len acc gotLen z)) (drop gotLen xs)
         else readErr (cur (snd (copyLoop len acc gotLen z)))"
  using assms
proof (induction len acc gotLen z arbitrary: xs rule: copyLoop.induct)
  case (1 len acc gotLen z)
  have stop: "int_of_size len \<le> n \<longleftrightarrow> n = len \<and> len < 2 ^ 31" if "n \<le> len" for n
    using that 1(5) int_of_size_large [of len] by (cases "len < 2 ^ 31") auto
  show ?case
  proof (cases xs)
    case Nil
    then show ?thesis
      using 1(2-) stop [of "length acc"]
      by (subst (1 2 3) copyLoop.simps) (auto simp: GetSeg_nil)
  next
    case (Cons y ys)
    have "gotLen < 2 ^ 32" using 1 by simp
    from GetSeg_cons [OF 1(2) [unfolded Cons] this] obtain k z' where
      k: "ExpBufGetSeg z gotLen = (Some (take k xs), z')" "rd z' (drop k xs)"
        "k \<le> gotLen" "k \<le> length xs" "0 < gotLen \<longrightarrow> 0 < k"
      unfolding Cons by auto
    let ?acc = "acc @ take k xs"
    have l: "length ?acc = length acc + k" "length ?acc \<le> len" using k 1 by simp_all
    show ?thesis
    proof (cases "length acc + k = len \<and> len < 2 ^ 31")
      case True
      then have "k = gotLen" using 1(4) by auto
      then show ?thesis
        using k l True stop [of "length ?acc"] by (subst (1 2 3) copyLoop.simps) simp
    next
      case False
      then have ns: "\<not> int_of_size len \<le> length ?acc" using stop l by simp
      show ?thesis
      proof (cases "k = 0")
        case True
        then show ?thesis using k l ns False 1(2-)
          by (subst (1 2 3) copyLoop.simps) simp
      next
        case pos: False
        then obtain w ws where w: "take k xs = w # ws" using Cons by (cases k) auto
        have unf: "copyLoop len acc gotLen z = copyLoop len ?acc (len - length ?acc) z'"
          using k l ns w by (subst copyLoop.simps) simp
        have g: "len - length ?acc = gotLen - k" using l 1 by simp
        have "if len - length ?acc \<le> length (drop k xs) \<and> len < 2 ^ 31
         then fst (copyLoop len ?acc (len - length ?acc) z') = ?acc @ take (len - length ?acc) (drop k xs) \<and>
              rd (snd (copyLoop len ?acc (len - length ?acc) z')) (drop (len - length ?acc) (drop k xs))
         else readErr (cur (snd (copyLoop len ?acc (len - length ?acc) z')))"
          by (rule 1(1) [OF k(1) [symmetric], of ?acc]) (use k l ns w 1(5) in simp_all)
        moreover have "len - length ?acc \<le> length (drop k xs) \<longleftrightarrow> gotLen \<le> length xs"
          using g k by auto
        moreover have "?acc @ take (gotLen - k) (drop k xs) = acc @ take gotLen xs"
          using k(3) by (simp add: take_add [symmetric])
        moreover have "drop (gotLen - k) (drop k xs) = drop gotLen xs"
          using k(3) by simp
        ultimately show ?thesis unfolding unf g by (auto split: if_splits simp del: drop_drop)
      qed
    qed
  qed
qed

interpretation ebr: fwd_buffer expBufOpsG remaining rinv
proof
  fix b x xs n
  show "fst (getByte expBufOpsG b) = x \<and> rd (snd (getByte expBufOpsG b)) xs" if "rd b (x # xs)"
    using GetByte_cons [OF that] by (simp add: expBufOpsG_def)
  show "fst (getByte expBufOpsG b) = 0 \<and> exh (snd (getByte expBufOpsG b))" if "rd b [] \<or> exh b"
    using GetByte_nil [OF that] by (simp add: expBufOpsG_def)
  show "fst (copy expBufOpsG b n) = take n xs \<and> rd (snd (copy expBufOpsG b n)) (drop n xs)"
    if "rd b xs" "n \<le> length xs" "n < 2 ^ 31"
    using copyLoop_rd [OF that(1), of "[]" n n] that by (simp add: expBufOpsG_def ExpBufCopy_def)
  show "readError expBufOpsG (snd (copy expBufOpsG b n))"
    if "rd b xs" "n < 2 ^ 32" "length xs < n \<or> 2 ^ 31 \<le> n"
    using copyLoop_rd [OF that(1), of "[]" n n] that
    by (auto simp: expBufOpsG_def ExpBufCopy_def ExpBufReadError_def split: if_splits)
  show "readError expBufOpsG (snd (copy expBufOpsG b n))" if "exh b"
    using GetSeg_exh [OF that, of n] that
    by (simp add: expBufOpsG_def ExpBufCopy_def ExpBufReadError_def exhausted_def copyLoop.simps [of n])
  show "getSeg expBufOpsG b n = (None, b)" if "rd b [] \<or> exh b"
    using GetSeg_nil [of b n] GetSeg_exh [of b n] that by (auto simp: expBufOpsG_def)
  show "\<exists>k b'. getSeg expBufOpsG b n = (Some (take k (x # xs)), b') \<and> rd b' (drop k (x # xs))
        \<and> k \<le> n \<and> k \<le> Suc (length xs) \<and> (0 < n \<longrightarrow> 0 < k)"
    if "rd b (x # xs)" "n < 2 ^ 32"
    using GetSeg_cons [OF that] by (simp add: expBufOpsG_def)
qed

subsection \<open>From writing to reading\<close>

text \<open>
  The reset keeps the handle on the last block, so what is readable afterwards is that
  block's data: everything that was written when one block was enough.
\<close>

lemma reset_last:
  "cur (ExpBufResetInReadMode z) = resetRead (last (cur z # nexts z)) \<and>
   nexts (ExpBufResetInReadMode z) = []"
proof (induction z rule: ExpBufResetInReadMode.induct)
  case (1 z)
  show ?case
  proof (cases "nexts z")
    case (Cons e es)
    then show ?thesis
      using 1 [OF refl] by (subst (1 2) ExpBufResetInReadMode.simps) (simp add: goNext_def Let_def)
  qed (simp add: ExpBufResetInReadMode.simps)
qed

lemma reset_readable:
  assumes "winv z"
  shows "rd (ExpBufResetInReadMode z) (data_of (last (cur z # nexts z)))"
proof -
  have "wf_blk (last (cur z # nexts z))"
    using assms last_in_set [of "cur z # nexts z"] by (auto simp: winv_def)
  then show ?thesis
    using reset_last [of z]
    by (auto simp: readable_def rinv_def remaining_def resetRead_def wf_blk_def data_of_def)
qed

text \<open>
  \<open>cap N\<close>: the handle is still on its first block, with \<open>N\<close> bytes of capacity, or
  at least \<open>N\<close> bytes have been written.
\<close>

definition cap :: "nat \<Rightarrow> ExpBufs \<Rightarrow> bool" where
  "cap N z \<longleftrightarrow> (nexts z = [] \<and> dataEnd (cur z) = N) \<or> N \<le> length (written z)"

lemma cap_putBlk:
  assumes "cap N z" "winv z" "length xs \<le> dataStart (cur z)"
  shows "cap N (z\<lparr>cur := putBlk (cur z) xs\<rparr>)"
  using assms written_putBlk [OF assms(2,3)] by (auto simp: cap_def putBlk_def)

lemma cap_full: "cap N z \<Longrightarrow> full z \<Longrightarrow> N \<le> length (written z)"
  by (auto simp: cap_def full_def written_def length_data_of)

lemma cap_prev: "cap N z \<Longrightarrow> full z \<Longrightarrow> written z' = written z \<Longrightarrow> cap N z'"
  using cap_full [of N z] by (simp add: cap_def [of N z'])

lemma cap_failed: "cap N z \<Longrightarrow> cap N (writeFailed z)"
  by (simp add: cap_def writeFailed_def written_def data_of_def)

lemma cap_putByte:
  assumes "winv z" "cap N z"
  shows "cap N (ExpBufPutByteRvs z x)"
proof (cases "writeErr (cur z)")
  case True
  then show ?thesis using assms by (simp add: ExpBufPutByteRvs_def)
next
  case False
  let ?z1 = "z\<lparr>cur := putBlk (cur z) [x]\<rparr>"
  have s: "length [x] \<le> dataStart (cur z)" using assms False by (auto simp: winv_def)
  note c = cap_putBlk [OF assms(2,1) s]
  show ?thesis
  proof (cases "ExpBufFull (cur ?z1)")
    case True
    have "length [x] = dataStart (cur z)" using True s by (simp add: ExpBufFull_def putBlk_def)
    note f = full_putBlk [OF assms(1) this]
    show ?thesis
    proof (cases "prevs z")
      case (Cons p ps)
      have "prevs ?z1 = p # ps" using Cons by simp
      from full_goPrev [OF f this disjI2 refl, OF refl] cap_prev [OF c f] show ?thesis
        using False True Cons by (simp add: ExpBufPutByteRvs_def Let_def)
    next
      case Nil
      then have p: "prevs ?z1 = []" by simp
      show ?thesis
        using False True Nil full_alloc [OF f p] cap_prev [OF c f] cap_failed [OF c]
        by (cases "allocPrev ?z1") (simp_all add: ExpBufPutByteRvs_def Let_def)
    qed
  qed (use False c in \<open>simp add: ExpBufPutByteRvs_def Let_def\<close>)
qed

lemma cap_putSegLoop:
  assumes "length xs < 2 ^ 31" "winv z" "\<not> writeErr (cur z)" "cap N z"
  shows "cap N (putSegLoop z xs)"
  using assms
proof (induction z xs rule: putSegLoop.induct)
  case (1 z xs)
  let ?left = "dataStart (cur z)"
  show ?case
  proof (cases "length xs < ?left")
    case True
    then show ?thesis
      using 1 cap_putBlk [of N z xs] by (subst putSegLoop.simps) (simp add: Let_def)
  next
    case False
    let ?n = "length xs - ?left"
    let ?z1 = "z\<lparr>cur := putBlk (cur z) (drop ?n xs)\<rparr>"
    have f: "full ?z1" using False 1 full_putBlk [of z "drop ?n xs"] by simp
    have c: "cap N ?z1" using False 1 cap_putBlk [of N z "drop ?n xs"] by simp
    show ?thesis
    proof (cases "prevs z")
      case (Cons p ps)
      have z2: "winv (goPrev ?z1) \<and> written (goPrev ?z1) = written ?z1 \<and>
          \<not> writeErr (cur (goPrev ?z1)) \<and> Suc (wroom (goPrev ?z1)) = moreRoom ?z1"
        using full_goPrev [OF f _ disjI1 refl, OF _ refl] Cons by simp
      have "cap N (putSegLoop (goPrev ?z1) (take ?n xs))"
        using 1(2) [OF refl _ refl refl, of p ps] False 1(3-) Cons z2 cap_prev [OF c f] by simp
      then show ?thesis
        using False Cons 1(3-) by (subst putSegLoop.simps) (simp add: Let_def)
    next
      case Nil
      show ?thesis
      proof (cases "allocPrev ?z1")
        case None
        then show ?thesis
          using False Nil 1(3-) cap_failed [OF c] by (subst putSegLoop.simps) (simp add: Let_def)
      next
        case (Some z2)
        note z2 = full_alloc [OF f _ Some]
        have "cap N (putSegLoop z2 (take ?n xs))"
          using 1(1) [OF refl _ refl refl, of z2] False 1(3-) Nil Some z2 cap_prev [OF c f] by simp
        then show ?thesis
          using False 1(3-) Some Nil by (subst putSegLoop.simps) (simp add: Let_def)
      qed
    qed
  qed
qed

interpretation ebc: rvs_buffer expBufOpsG written "\<lambda>z. winv z \<and> cap N z" wroom for N
proof
  fix b x xs
  show "emits expBufOpsG written (\<lambda>z. winv z \<and> cap N z) wroom b (putByteRvs expBufOpsG b x) [x]"
    using cap_putByte by (intro emits_conj ebw.put_byte) (simp add: expBufOpsG_def)
  show "emits expBufOpsG written (\<lambda>z. winv z \<and> cap N z) wroom b (putSegRvs expBufOpsG b xs) xs"
    if "length xs < 2 ^ 31"
    using cap_putSegLoop [OF that] that
    by (intro emits_conj ebw.put_seg) (simp_all add: expBufOpsG_def ExpBufPutSegRvs_def)
qed

text \<open>
  A fresh buffer, an encoder that emits \<open>bs\<close> into it, and the reset: the decoder finds
  exactly \<open>bs\<close>.
\<close>

definition freshBuf :: "nat \<Rightarrow> nat \<Rightarrow> ExpBufs" where
  "freshBuf sz m = \<lparr>prevs = [],
     cur = \<lparr>blk = replicate sz 0, dataStart = sz, dataEnd = sz, curr = sz,
            readErr = False, writeErr = False\<rparr>,
     nexts = [], mallocs = m, expBufDataBlkSizeG = sz\<rparr>"

text \<open>Data installed in a buffer is what there is to read.\<close>

lemma rd_install:
  "length xs < 2 ^ 31 \<Longrightarrow> rd (ExpBufInstallDataInBuf z xs) xs"
  by (simp add: readable_def rinv_def remaining_def ExpBufInstallDataInBuf_def)

lemma freshBuf_props:
  assumes "0 < sz" "sz < 2 ^ 31"
  shows "winv (freshBuf sz m) \<and> cap sz (freshBuf sz m) \<and> written (freshBuf sz m) = [] \<and>
    \<not> writeErr (cur (freshBuf sz m)) \<and> sz - 1 \<le> wroom (freshBuf sz m)"
  using assms
  by (simp add: freshBuf_def winv_def cap_def written_def wf_blk_def data_of_def wroom_def)

lemma fresh_then_read:
  assumes "emits expBufOpsG written (\<lambda>z. winv z \<and> cap sz z) wroom (freshBuf sz m) z bs"
    and "length bs < sz" "sz < 2 ^ 31"
  shows "\<not> writeErr (cur z) \<and> rd (ExpBufResetInReadMode z) bs"
proof -
  have sz: "0 < sz" using assms(2) by simp
  note f = freshBuf_props [OF sz assms(3), of m]
  have r: "length bs \<le> wroom (freshBuf sz m)" using f assms(2) by linarith
  have z: "winv z" "cap sz z" "\<not> writeErr (cur z)" "written z = bs"
    using assms(1) f r by (auto simp: emits_def)
  then have "nexts z = []" using assms(2) by (auto simp: cap_def)
  with reset_readable [OF z(1)] z show ?thesis by (simp add: written_def)
qed

end
