(* ===== verification/Asn_Len.thy ===== *)
theory Asn_Len
  imports Exp_Buf
begin

section \<open>BER lengths (\<open>c-lib/src/asn-len.c\<close>, \<open>asn-len.h\<close>)\<close>

text \<open>
  The length octets: the unrolled and the looping encoder, the BER and the DER decoder, and
  the end-of-contents octets.  \<open>def_len_bytes\<close> is what \<open>BEncDefLen\<close> writes,
  \<open>min_len_bytes\<close> the shortest form of X.690, \<open>parse_len\<close> and \<open>parse_der_len\<close>
  the reference parsers of the decoders.
\<close>

subsection \<open>Encoders\<close>

definition BEncDefLen :: "('b, 'z) GenBuf_scheme \<Rightarrow> 'b \<Rightarrow> AsnLen \<Rightarrow> AsnLen \<times> 'b" where
  "BEncDefLen g b len =
     (if len < 128 then (1, putByteRvs g b (ucast len))
      else if len < 256 then
        (let b = putByteRvs g b (ucast len) in (2, putByteRvs g b 0x81))
      else if len < 65536 then
        (let b = putByteRvs g b (ucast len);
             b = putByteRvs g b (ucast (drop_bit 8 len))
         in (3, putByteRvs g b 0x82))
      else if len < 16777126 then
        (let b = putByteRvs g b (ucast len);
             b = putByteRvs g b (ucast (drop_bit 8 len));
             b = putByteRvs g b (ucast (drop_bit 16 len))
         in (4, putByteRvs g b 0x83))
      else
        (let b = putByteRvs g b (ucast len);
             b = putByteRvs g b (ucast (drop_bit 8 len));
             b = putByteRvs g b (ucast (drop_bit 16 len));
             b = putByteRvs g b (ucast (drop_bit 24 len))
         in (5, putByteRvs g b 0x84)))"

lemma unat_shift_less: "0 < (j :: 'a::len word) \<Longrightarrow> unat (drop_bit 8 j) < unat j"
  using unat_gt_0 [of j] by (auto simp: unat_drop_bit_8 word_neq_0_conv)

function lenLoop :: "('b, 'z) GenBuf_scheme \<Rightarrow> 'b \<Rightarrow> nat \<Rightarrow> AsnLen \<Rightarrow> nat \<times> 'b" where
  "lenLoop g b i j =
     (if 0 < j then lenLoop g (putByteRvs g b (ucast j)) (Suc i) (drop_bit 8 j) else (i, b))"
  by pat_completeness auto

termination
  by (relation "measure (\<lambda>(_, _, _, j). unat j)") (use unat_shift_less in auto)

declare lenLoop.simps [simp del]

text \<open>The argument of \<open>BEncDefLen2\<close> is a signed \<open>long\<close>.\<close>

definition BEncDefLen2 :: "('b, 'z) GenBuf_scheme \<Rightarrow> 'b \<Rightarrow> 32 word \<Rightarrow> AsnLen \<times> 'b" where
  "BEncDefLen2 g b len =
     (if sint len < 128 then (1, putByteRvs g b (ucast len))
      else let (i, b) = lenLoop g b 0 len in (of_nat (i + 1), putByteRvs g b (0x80 OR of_nat i)))"

definition BEncIndefLen :: "('b, 'z) GenBuf_scheme \<Rightarrow> 'b \<Rightarrow> AsnLen \<times> 'b" where
  "BEncIndefLen g b = (1, putByteRvs g b 0x80)"

definition BEncEoc :: "('b, 'z) GenBuf_scheme \<Rightarrow> 'b \<Rightarrow> AsnLen \<times> 'b" where
  "BEncEoc g b = (2, putByteRvs g (putByteRvs g b 0) 0)"

definition BEncDefLenTo127 :: "('b, 'z) GenBuf_scheme \<Rightarrow> 'b \<Rightarrow> AsnLen \<Rightarrow> 'b" where
  "BEncDefLenTo127 g b len = putByteRvs g b (ucast len)"

text \<open>
  \<open>useIndef\<close> is the compile-time choice \<open>USE_INDEF_LEN\<close>.  The indefinite form counts
  the two octets of the EOC that \<open>BEncEocIfNec\<close> has already written.
\<close>

definition BEncConsLen :: "bool \<Rightarrow> ('b, 'z) GenBuf_scheme \<Rightarrow> 'b \<Rightarrow> AsnLen \<Rightarrow> AsnLen \<times> 'b" where
  "BEncConsLen useIndef g b len =
     (if useIndef then (let (l, b) = BEncIndefLen g b in (2 + l, b)) else BEncDefLen g b len)"

definition BEncEocIfNec :: "bool \<Rightarrow> ('b, 'z) GenBuf_scheme \<Rightarrow> 'b \<Rightarrow> 'b" where
  "BEncEocIfNec useIndef g b = (if useIndef then snd (BEncEoc g b) else b)"

subsection \<open>Decoders\<close>

definition BDecLen :: "('b, 'z) GenBuf_scheme \<Rightarrow> 'b \<Rightarrow> AsnLen \<Rightarrow> ('b, AsnLen) dres" where
  "BDecLen g b n =
     (let (byte, b) = getByte g b in
      if readError g b then Jmp (-13)
      else let n = n + 1 in
        if byte < 128 then Ret (ucast byte) n b
        else if byte = 0x80 then Ret INDEFINITE_LEN n b
        else
          let lenBytes = unat (byte AND 0x7f) in
          if sizeof_long < lenBytes then Jmp (-14)
          else
            let n = n + of_nat lenBytes; (len, b) = getShl8 g lenBytes 0 b in
            if readError g b then Jmp (-15) else Ret len n b)"

definition DDecLen :: "('b, 'z) GenBuf_scheme \<Rightarrow> 'b \<Rightarrow> AsnLen \<Rightarrow> ('b, AsnLen) dres" where
  "DDecLen g b n =
     (let (byte, b) = getByte g b in
      if readError g b then Jmp (-13)
      else let n = n + 1 in
        if byte < 128 then Ret (ucast byte) n b
        else if byte = 0x80 then Jmp (-666)
        else
          let lenBytes = unat (byte AND 0x7f) in
          if sizeof_long < lenBytes then Jmp (-14)
          else
            let n = n + of_nat lenBytes; (len, b) = getShl8 g lenBytes 0 b in
            if readError g b then Jmp (-15) else Ret len n b)"

text \<open>The short-circuit \<open>||\<close> of the code: the second octet is read only after a zero.\<close>

definition BDecEoc :: "('b, 'z) GenBuf_scheme \<Rightarrow> 'b \<Rightarrow> AsnLen \<Rightarrow> ('b, unit) dres" where
  "BDecEoc g b n =
     (let (x, b) = getByte g b in
      if x \<noteq> 0 then Jmp (-16)
      else let (y, b) = getByte g b in
        if y \<noteq> 0 \<or> readError g b then Jmp (-16) else Ret () (n + 2) b)"

definition BDEC_2ND_EOC_OCTET :: "('b, 'z) GenBuf_scheme \<Rightarrow> 'b \<Rightarrow> AsnLen \<Rightarrow> ('b, unit) dres" where
  "BDEC_2ND_EOC_OCTET g b n =
     (let (x, b) = getByte g b in
      if x \<noteq> 0 \<or> readError g b then Jmp (-28) else Ret () (n + 1) b)"

definition PeekEoc :: "('b, 'z) GenBuf_scheme \<Rightarrow> 'b \<Rightarrow> bool \<times> 'b" where
  "PeekEoc g b = (let (x, b) = peekByte g b in (x = 0, b))"

subsection \<open>The octets and the reference parsers\<close>

definition def_len_bytes :: "AsnLen \<Rightarrow> byte list" where
  "def_len_bytes len =
     (if len < 128 then [ucast len]
      else if len < 256 then 0x81 # to_be 1 len
      else if len < 65536 then 0x82 # to_be 2 len
      else if len < 16777126 then 0x83 # to_be 3 len
      else 0x84 # to_be 4 len)"

definition min_len_bytes :: "AsnLen \<Rightarrow> byte list" where
  "min_len_bytes len =
     (if len < 128 then [ucast len]
      else if len < 2 ^ 8 then 0x81 # to_be 1 len
      else if len < 2 ^ 16 then 0x82 # to_be 2 len
      else if len < 2 ^ 24 then 0x83 # to_be 3 len
      else 0x84 # to_be 4 len)"

definition parse_long_len :: "byte \<Rightarrow> AsnLen parser" where
  "parse_long_len x xs =
     (let k = unat x - 128 in
      if 4 < k then Inl (-14)
      else if length xs < k then Inl (-15)
      else Inr (of_nat (be_val (take k xs)), Suc k))"

fun parse_len :: "AsnLen parser" where
  "parse_len [] = Inl (-13)"
| "parse_len (x # xs) =
     (if x < 128 then Inr (of_nat (unat x), 1)
      else if x = 128 then Inr (INDEFINITE_LEN, 1)
      else parse_long_len x xs)"

fun parse_der_len :: "AsnLen parser" where
  "parse_der_len [] = Inl (-13)"
| "parse_der_len (x # xs) =
     (if x < 128 then Inr (of_nat (unat x), 1)
      else if x = 128 then Inl (-666)
      else parse_long_len x xs)"

fun parse_eoc :: "unit parser" where
  "parse_eoc (x # y # xs) = (if x = 0 \<and> y = 0 then Inr ((), 2) else Inl (-16))"
| "parse_eoc xs = Inl (-16)"

subsection \<open>Encoding\<close>

lemma to_be_unroll:
  "to_be 1 w = [ucast w]"
  "to_be 2 w = [ucast (drop_bit 8 w), ucast w]"
  "to_be 3 w = [ucast (drop_bit 16 w), ucast (drop_bit 8 w), ucast w]"
  "to_be 4 w = [ucast (drop_bit 24 w), ucast (drop_bit 16 w), ucast (drop_bit 8 w), ucast w]"
  by (simp_all add: eval_nat_numeral)

lemma fst_BEncDefLen: "fst (BEncDefLen g b len) = of_nat (length (def_len_bytes len))"
  by (simp add: BEncDefLen_def def_len_bytes_def Let_def)

context rvs_buffer
begin

lemma emits_BEncDefLen: "emits g data ok room b (snd (BEncDefLen g b len)) (def_len_bytes len)"
  unfolding BEncDefLen_def def_len_bytes_def to_be_unroll Let_def
  by (auto intro!: emits_byte_after put_byte)

lemma emits_BEncEoc: "emits g data ok room b (snd (BEncEoc g b)) [0, 0]"
  unfolding BEncEoc_def by (auto intro!: emits_byte_after put_byte)

lemma emits_BEncIndefLen: "emits g data ok room b (snd (BEncIndefLen g b)) [0x80]"
  unfolding BEncIndefLen_def by (auto intro!: put_byte)

end

text \<open>The looping encoder writes the bytes of the number without leading zeros.\<close>

function (sequential) min_be :: "AsnLen \<Rightarrow> byte list" where
  "min_be j = (if 0 < j then min_be (drop_bit 8 j) @ [ucast j] else [])"
  by pat_completeness auto
termination by (relation "measure unat") (use unat_shift_less in auto)

declare min_be.simps [simp del]

lemma min_be_0 [simp]: "min_be 0 = []"
  by (simp add: min_be.simps)

lemma lenLoop_count: "fst (lenLoop g b i j) = i + length (min_be j)"
proof (induction g b i j rule: lenLoop.induct)
  case (1 g b i j)
  then show ?case by (subst lenLoop.simps, subst min_be.simps) auto
qed

context rvs_buffer
begin

lemma emits_lenLoop: "emits g data ok room b (snd (lenLoop g b i j)) (min_be j)"
proof (induction j arbitrary: b i rule: min_be.induct)
  case (1 j)
  show ?case
  proof (cases "0 < j")
    case True
    then show ?thesis
      by (subst lenLoop.simps, subst min_be.simps) (auto intro: emits_trans [OF put_byte 1])
  next
    case False
    then show ?thesis by (simp add: lenLoop.simps min_be.simps)
  qed
qed

end

lemma min_be_eq:
  assumes "unat j < 256 ^ k" "k = 0 \<or> 256 ^ (k - 1) \<le> unat j"
  shows "min_be j = to_be k j"
  using assms
proof (induction k arbitrary: j)
  case 0
  then have "j = 0" by (simp add: unat_eq_0)
  then show ?case by simp
next
  case (Suc k)
  have pos: "0 < j" using Suc.prems by (auto simp: word_gt_0 intro!: gr0I)
  have "min_be (drop_bit 8 j) = to_be k (drop_bit 8 j)"
  proof (rule Suc.IH)
    show "unat (drop_bit 8 j) < 256 ^ k"
      using Suc.prems(1) by (simp add: unat_drop_bit_8 less_mult_imp_div_less ac_simps)
    show "k = 0 \<or> 256 ^ (k - 1) \<le> unat (drop_bit 8 j)"
      using Suc.prems(2) by (cases k) (auto simp: unat_drop_bit_8 less_eq_div_iff_mult_less_eq ac_simps)
  qed
  then show ?case using pos by (subst min_be.simps) simp
qed

definition def_len_bytes2 :: "AsnLen \<Rightarrow> byte list" where
  "def_len_bytes2 len =
     (if sint len < 128 then [ucast len] else (0x80 OR of_nat (length (min_be len))) # min_be len)"

lemma fst_BEncDefLen2: "fst (BEncDefLen2 g b len) = of_nat (length (def_len_bytes2 len))"
  using lenLoop_count [of g b 0 len]
  by (cases "lenLoop g b 0 len") (simp add: BEncDefLen2_def def_len_bytes2_def)

lemma def_len_bytes2_min:
  assumes "0 \<le> sint len"
  shows "def_len_bytes2 len = min_len_bytes len"
proof -
  have u: "sint len = int (unat len)"
    using assms by (rule sint_nonneg)
  have lt: "unat len < 2 ^ 31" using assms by (rule sint_nonneg_bound)
  have lo: "sint len < 128 \<longleftrightarrow> unat len < 128"
    using u by (simp only: nat_int_comparison of_nat_numeral)
  consider "unat len < 128" | "128 \<le> unat len" "unat len < 2 ^ 8" | "2 ^ 8 \<le> unat len" "unat len < 2 ^ 16"
    | "2 ^ 16 \<le> unat len" "unat len < 2 ^ 24" | "2 ^ 24 \<le> unat len"
    by linarith
  then show ?thesis
  proof cases
    case 1
    then show ?thesis using lo by (simp add: def_len_bytes2_def min_len_bytes_def word_less_nat_alt)
  next
    case 2
    then show ?thesis using lo min_be_eq [of len 1]
      by (simp add: def_len_bytes2_def min_len_bytes_def word_less_nat_alt)
  next
    case 3
    then show ?thesis using lo min_be_eq [of len 2]
      by (simp add: def_len_bytes2_def min_len_bytes_def word_less_nat_alt)
  next
    case 4
    then show ?thesis using lo min_be_eq [of len 3]
      by (simp add: def_len_bytes2_def min_len_bytes_def word_less_nat_alt)
  next
    case 5
    then show ?thesis using lo lt min_be_eq [of len 4]
      by (simp add: def_len_bytes2_def min_len_bytes_def word_less_nat_alt)
  qed
qed

lemma def_len_bytes_min:
  "def_len_bytes len = min_len_bytes len \<longleftrightarrow> \<not> (16777126 \<le> len \<and> len < 2 ^ 24)"
proof (cases "16777126 \<le> len \<and> len < 2 ^ 24")
  case True
  then show ?thesis by (auto simp: def_len_bytes_def min_len_bytes_def word_less_nat_alt word_le_nat_alt)
next
  case False
  then show ?thesis by (auto simp: def_len_bytes_def min_len_bytes_def word_less_nat_alt word_le_nat_alt)
qed

context rvs_buffer
begin

lemma emits_BEncDefLen2: "emits g data ok room b (snd (BEncDefLen2 g b len)) (def_len_bytes2 len)"
  using emits_lenLoop [of b 0 len] lenLoop_count [of g b 0 len]
  by (cases "lenLoop g b 0 len")
    (auto simp: BEncDefLen2_def def_len_bytes2_def intro: put_byte emits_byte_after)

end

subsection \<open>Decoding\<close>

lemma byte_and_7f:
  fixes x :: byte
  assumes "128 \<le> x"
  shows "unat (x AND 0x7f) = unat x - 128"
proof -
  have "unat (x AND 0x7f) = unat x mod 128"
    using unat_and_mask [of x 7] by (simp add: mask_eq_exp_minus_1)
  moreover have "128 \<le> unat x" "unat x < 256"
    using assms unsigned_less [of x, where ?'a = nat] by (simp_all add: word_le_nat_alt)
  ultimately show ?thesis by (simp add: mod_if)
qed

context fwd_buffer
begin

lemma outcome_long_len:
  assumes "readable g rem ok b xs" "128 < x"
  shows "outcome g rem ok
     (let lenBytes = unat (x AND 0x7f) in
      if sizeof_long < lenBytes then Jmp (-14)
      else
        let n = n + 1 + of_nat lenBytes; (len, b) = getShl8 g lenBytes 0 b in
        if readError g b then Jmp (-15) else Ret len n b) n (x # xs) (parse_long_len x xs)"
proof -
  let ?k = "unat x - 128"
  have k: "unat (x AND 0x7f) = ?k" using assms(2) by (intro byte_and_7f) simp
  consider "4 < ?k" | "?k \<le> 4" "length xs < ?k" | "?k \<le> 4" "?k \<le> length xs" by linarith
  then show ?thesis
  proof cases
    case 1
    then show ?thesis by (simp add: k parse_long_len_def sizeof_long_def)
  next
    case 2
    have "readError g (snd (getShl8 g ?k 0 b))"
      using getShl8_short [OF assms(1) 2(2)] by simp
    then show ?thesis using 2 by (simp add: k parse_long_len_def sizeof_long_def split_beta)
  next
    case 3
    have "readable g rem ok b (take ?k xs @ drop ?k xs)" using assms(1) by simp
    from getShl8_ok [OF this, of 0] 3 obtain b' where
      "getShl8 g ?k 0 b = (foldl shl8 0 (take ?k xs), b')" "readable g rem ok b' (drop ?k xs)"
      by (auto simp: min_absorb2)
    then show ?thesis
      using 3 by (simp add: k parse_long_len_def sizeof_long_def foldl_shl8_0 Let_def)
  qed
qed

lemma outcome_BDecLen:
  assumes "readable g rem ok b xs"
  shows "outcome g rem ok (BDecLen g b n) n xs (parse_len xs)"
proof (cases xs)
  case Nil
  with assms obtain b' where "getByte g b = (0, b')" "exhausted g rem ok b'"
    by (auto elim: get_nilE)
  then show ?thesis using Nil by (simp add: BDecLen_def)
next
  case (Cons x ys)
  with assms obtain b' where b': "getByte g b = (x, b')" "readable g rem ok b' ys"
    by (auto elim: get_consE)
  have "x = 128 \<or> x < 128 \<or> 128 < x" by auto
  then show ?thesis
    using Cons b' outcome_long_len [OF b'(2), of x n]
    by (elim disjE) (simp_all add: BDecLen_def Let_def)
qed

lemma outcome_DDecLen:
  assumes "readable g rem ok b xs"
  shows "outcome g rem ok (DDecLen g b n) n xs (parse_der_len xs)"
proof (cases xs)
  case Nil
  with assms obtain b' where "getByte g b = (0, b')" "exhausted g rem ok b'"
    by (auto elim: get_nilE)
  then show ?thesis using Nil by (simp add: DDecLen_def)
next
  case (Cons x ys)
  with assms obtain b' where b': "getByte g b = (x, b')" "readable g rem ok b' ys"
    by (auto elim: get_consE)
  have "x = 128 \<or> x < 128 \<or> 128 < x" by auto
  then show ?thesis
    using Cons b' outcome_long_len [OF b'(2), of x n]
    by (elim disjE) (simp_all add: DDecLen_def Let_def)
qed

lemma outcome_BDecEoc:
  assumes "readable g rem ok b xs"
  shows "outcome g rem ok (BDecEoc g b n) n xs (parse_eoc xs)"
proof (cases xs)
  case Nil
  with assms obtain b1 where 1: "getByte g b = (0, b1)" "exhausted g rem ok b1"
    by (auto elim: get_nilE)
  from 1(2) obtain b2 where "getByte g b1 = (0, b2)" "exhausted g rem ok b2"
    by (rule get_exhaustedE)
  with 1 Nil show ?thesis by (simp add: BDecEoc_def)
next
  case (Cons x zs)
  with assms obtain b1 where 1: "getByte g b = (x, b1)" "readable g rem ok b1 zs"
    by (auto elim: get_consE)
  show ?thesis
  proof (cases zs)
    case Nil
    with 1(2) obtain b2 where "getByte g b1 = (0, b2)" "exhausted g rem ok b2"
      by (auto elim: get_nilE)
    with 1 Cons Nil show ?thesis by (simp add: BDecEoc_def)
  next
    case ys: (Cons y ys)
    with 1(2) obtain b2 where "getByte g b1 = (y, b2)" "readable g rem ok b2 ys"
      by (auto elim: get_consE)
    with 1 Cons ys show ?thesis by (simp add: BDecEoc_def)
  qed
qed

end

text \<open>Parsing what was encoded.\<close>

lemma parse_long_to_be:
  assumes "x = 128 + of_nat k" "0 < k" "k \<le> 4" "unat len < 256 ^ k"
  shows "parse_len (x # to_be k len @ ys) = Inr (len, Suc k)"
proof -
  have u: "unat x = 128 + k" using assms(1-3) by (simp add: unat_word_ariths unat_of_nat)
  then have "\<not> x < 128" "x \<noteq> 128" using assms(2) by (auto simp: word_less_nat_alt)
  then show ?thesis
    using u assms by (simp add: parse_long_len_def be_val_to_be)
qed

lemma parse_def_len_bytes: "parse_len (def_len_bytes len @ ys) = Inr (len, length (def_len_bytes len))"
proof -
  have b: "unat len < 256 ^ 4" using unat_bound32 [of len] by simp
  show ?thesis
    using parse_long_to_be [of "0x81" 1 len ys] parse_long_to_be [of "0x82" 2 len ys]
      parse_long_to_be [of "0x83" 3 len ys] parse_long_to_be [of "0x84" 4 len ys] b
    by (auto simp: def_len_bytes_def word_less_nat_alt unat_ucast_byte)
qed

end
