(* ===== verification/Asn_Tag.thy ===== *)
theory Asn_Tag
  imports Asn_Len
begin

section \<open>BER tags (\<open>c-lib/src/asn-tag.c\<close>, \<open>asn-tag.h\<close>)\<close>

text \<open>
  An \<open>AsnTag\<close> is the encoded tag shifted up to fill 32 bits.  The theory has the
  \<open>MAKE_TAG_ID\<close> macros that compute it from class, form and code, the \<open>BEncTag\<close> macros
  that write the octets, \<open>BDecTag\<close> and \<open>PeekTag\<close> that read them, and
  \<open>parse_tag\<close>, the reference parser.
\<close>

subsection \<open>Classes, forms and tag identifiers\<close>

datatype BER_CLASS = ANY_CLASS | NULL_CLASS | UNIV_CLASS | APPL | CNTX | PRIV

datatype BER_FORM = ANY_FORM | NULL_FORM | PRIM | CONS

fun class_bits :: "BER_CLASS \<Rightarrow> 32 word" where
  "class_bits ANY_CLASS = -2"
| "class_bits NULL_CLASS = -1"
| "class_bits UNIV_CLASS = 0"
| "class_bits APPL = push_bit 6 1"
| "class_bits CNTX = push_bit 6 2"
| "class_bits PRIV = push_bit 6 3"

fun form_bits :: "BER_FORM \<Rightarrow> 32 word" where
  "form_bits ANY_FORM = -2"
| "form_bits NULL_FORM = -1"
| "form_bits PRIM = 0"
| "form_bits CONS = push_bit 5 1"

text \<open>The classes and forms of real tags; the others are wild cards of the compiler.\<close>

definition real_class :: "BER_CLASS \<Rightarrow> bool" where
  "real_class cl \<longleftrightarrow> cl \<notin> {ANY_CLASS, NULL_CLASS}"

definition real_form :: "BER_FORM \<Rightarrow> bool" where
  "real_form fm \<longleftrightarrow> fm \<notin> {ANY_FORM, NULL_FORM}"

definition BOOLEAN_TAG_CODE :: "32 word" where "BOOLEAN_TAG_CODE = 1"
definition INTEGER_TAG_CODE :: "32 word" where "INTEGER_TAG_CODE = 2"
definition BITSTRING_TAG_CODE :: "32 word" where "BITSTRING_TAG_CODE = 3"
definition OCTETSTRING_TAG_CODE :: "32 word" where "OCTETSTRING_TAG_CODE = 4"
definition NULLTYPE_TAG_CODE :: "32 word" where "NULLTYPE_TAG_CODE = 5"
definition OID_TAG_CODE :: "32 word" where "OID_TAG_CODE = 6"
definition OD_TAG_CODE :: "32 word" where "OD_TAG_CODE = 7"
definition EXTERNAL_TAG_CODE :: "32 word" where "EXTERNAL_TAG_CODE = 8"
definition REAL_TAG_CODE :: "32 word" where "REAL_TAG_CODE = 9"
definition ENUM_TAG_CODE :: "32 word" where "ENUM_TAG_CODE = 10"
definition UTF8STRING_TAG_CODE :: "32 word" where "UTF8STRING_TAG_CODE = 12"
definition RELATIVE_OID_TAG_CODE :: "32 word" where "RELATIVE_OID_TAG_CODE = 13"
definition NUMERICSTRING_TAG_CODE :: "32 word" where "NUMERICSTRING_TAG_CODE = 18"
definition PRINTABLESTRING_TAG_CODE :: "32 word" where "PRINTABLESTRING_TAG_CODE = 19"
definition TELETEXSTRING_TAG_CODE :: "32 word" where "TELETEXSTRING_TAG_CODE = 20"
definition VIDEOTEXSTRING_TAG_CODE :: "32 word" where "VIDEOTEXSTRING_TAG_CODE = 21"
definition IA5STRING_TAG_CODE :: "32 word" where "IA5STRING_TAG_CODE = 22"
definition UTCTIME_TAG_CODE :: "32 word" where "UTCTIME_TAG_CODE = 23"
definition GENERALIZEDTIME_TAG_CODE :: "32 word" where "GENERALIZEDTIME_TAG_CODE = 24"
definition GRAPHICSTRING_TAG_CODE :: "32 word" where "GRAPHICSTRING_TAG_CODE = 25"
definition VISIBLESTRING_TAG_CODE :: "32 word" where "VISIBLESTRING_TAG_CODE = 26"
definition GENERALSTRING_TAG_CODE :: "32 word" where "GENERALSTRING_TAG_CODE = 27"
definition UNIVERSALSTRING_TAG_CODE :: "32 word" where "UNIVERSALSTRING_TAG_CODE = 28"
definition BMPSTRING_TAG_CODE :: "32 word" where "BMPSTRING_TAG_CODE = 30"

lemmas tag_code_defs =
  BOOLEAN_TAG_CODE_def INTEGER_TAG_CODE_def BITSTRING_TAG_CODE_def OCTETSTRING_TAG_CODE_def
  NULLTYPE_TAG_CODE_def OID_TAG_CODE_def OD_TAG_CODE_def EXTERNAL_TAG_CODE_def REAL_TAG_CODE_def
  ENUM_TAG_CODE_def UTF8STRING_TAG_CODE_def RELATIVE_OID_TAG_CODE_def NUMERICSTRING_TAG_CODE_def
  PRINTABLESTRING_TAG_CODE_def TELETEXSTRING_TAG_CODE_def VIDEOTEXSTRING_TAG_CODE_def
  IA5STRING_TAG_CODE_def UTCTIME_TAG_CODE_def GENERALIZEDTIME_TAG_CODE_def
  GRAPHICSTRING_TAG_CODE_def VISIBLESTRING_TAG_CODE_def GENERALSTRING_TAG_CODE_def
  UNIVERSALSTRING_TAG_CODE_def BMPSTRING_TAG_CODE_def

definition MAKE_TAG_ID_CODE1 :: "32 word \<Rightarrow> AsnTag" where
  "MAKE_TAG_ID_CODE1 cd = push_bit 24 cd"

definition MAKE_TAG_ID_CODE2 :: "32 word \<Rightarrow> AsnTag" where
  "MAKE_TAG_ID_CODE2 cd = push_bit 24 31 OR push_bit 16 cd"

definition MAKE_TAG_ID_CODE3 :: "32 word \<Rightarrow> AsnTag" where
  "MAKE_TAG_ID_CODE3 cd =
     push_bit 24 31 OR push_bit 9 (cd AND 0x3f80) OR push_bit 16 0x80 OR push_bit 8 (cd AND 0x7F)"

definition MAKE_TAG_ID_CODE4 :: "32 word \<Rightarrow> AsnTag" where
  "MAKE_TAG_ID_CODE4 cd =
     push_bit 24 31 OR push_bit 2 (cd AND 0x1fc000) OR push_bit 16 0x80 OR
     push_bit 1 (cd AND 0x3f80) OR push_bit 8 0x80 OR (cd AND 0x7F)"

definition MAKE_TAG_ID_CODE :: "32 word \<Rightarrow> AsnTag" where
  "MAKE_TAG_ID_CODE cd =
     (if cd < 31 then MAKE_TAG_ID_CODE1 cd
      else if cd < 128 then MAKE_TAG_ID_CODE2 cd
      else if cd < 16384 then MAKE_TAG_ID_CODE3 cd
      else MAKE_TAG_ID_CODE4 cd)"

definition MAKE_TAG_ID :: "BER_CLASS \<Rightarrow> BER_FORM \<Rightarrow> 32 word \<Rightarrow> AsnTag" where
  "MAKE_TAG_ID cl fm cd =
     push_bit 24 (class_bits cl) OR push_bit 24 (form_bits fm) OR MAKE_TAG_ID_CODE cd"

definition TAG_ID_CLASS :: "AsnTag \<Rightarrow> 32 word" where
  "TAG_ID_CLASS tid = drop_bit 24 (tid AND push_bit 24 0xC0)"

definition TAG_ID_FORM :: "AsnTag \<Rightarrow> 32 word" where
  "TAG_ID_FORM tid = drop_bit 24 (tid AND push_bit 24 0x20)"

definition TAG_IS_CONS :: "AsnTag \<Rightarrow> bool" where
  "TAG_IS_CONS tag \<longleftrightarrow> tag AND push_bit 24 (form_bits CONS) \<noteq> 0"

definition CONSIFY :: "AsnTag \<Rightarrow> AsnTag" where
  "CONSIFY tag = tag OR push_bit 24 (form_bits CONS)"

definition DECONSIFY :: "AsnTag \<Rightarrow> AsnTag" where
  "DECONSIFY tag = tag AND NOT (push_bit 24 (form_bits CONS))"

definition EOC_TAG_ID :: AsnTag where "EOC_TAG_ID = 0"

subsection \<open>Encoders\<close>

definition tag_byte :: "BER_CLASS \<Rightarrow> BER_FORM \<Rightarrow> 32 word \<Rightarrow> byte" where
  "tag_byte cl fm cd = ucast (class_bits cl OR form_bits fm OR cd)"

definition BEncTag1 where
  "BEncTag1 g b cl fm (code :: 32 word) = (1 :: AsnLen, putByteRvs g b (tag_byte cl fm code))"

definition BEncTag2 where
  "BEncTag2 g b cl fm (code :: 32 word) =
     (2 :: AsnLen, let b = putByteRvs g b (ucast code) in putByteRvs g b (tag_byte cl fm 31))"

definition BEncTag3 where
  "BEncTag3 g b cl fm (code :: 32 word) =
     (3 :: AsnLen,
      let b = putByteRvs g b (ucast (code AND 0x7F));
          b = putByteRvs g b (ucast (0x80 OR drop_bit 7 code))
      in putByteRvs g b (tag_byte cl fm 31))"

definition BEncTag4 where
  "BEncTag4 g b cl fm (code :: 32 word) =
     (4 :: AsnLen,
      let b = putByteRvs g b (ucast (code AND 0x7F));
          b = putByteRvs g b (ucast (0x80 OR drop_bit 7 code));
          b = putByteRvs g b (ucast (0x80 OR drop_bit 14 code))
      in putByteRvs g b (tag_byte cl fm 31))"

definition BEncTag5 where
  "BEncTag5 g b cl fm (code :: 32 word) =
     (5 :: AsnLen,
      let b = putByteRvs g b (ucast (code AND 0x7F));
          b = putByteRvs g b (ucast (0x80 OR drop_bit 7 code));
          b = putByteRvs g b (ucast (0x80 OR drop_bit 14 code));
          b = putByteRvs g b (ucast (0x80 OR drop_bit 21 code))
      in putByteRvs g b (tag_byte cl fm 31))"

subsection \<open>Decoders\<close>

text \<open>The \<open>do ... while\<close> loop; \<open>i\<close> is the C variable, starting at 2.\<close>

function tagLoop ::
  "('b, 'z) GenBuf_scheme \<Rightarrow> 'b \<Rightarrow> AsnLen \<Rightarrow> AsnTag \<Rightarrow> nat \<Rightarrow> AsnTag \<times> nat \<times> AsnLen \<times> 'b" where
  "tagLoop g b n tagId i =
     (let (x, b) = getByte g b;
          tmpTagId = (ucast x :: AsnTag);
          tagId = tagId OR push_bit ((4 - i) * 8) tmpTagId;
          n = n + 1
      in if tmpTagId AND 0x80 \<noteq> 0 \<and> Suc i \<le> 4 then tagLoop g b n tagId (Suc i)
         else (tagId, Suc i, n, b))"
  by pat_completeness auto
termination by (relation "measure (\<lambda>(_, _, _, _, i). 5 - i)") auto

declare tagLoop.simps [simp del]

definition BDecTag :: "('b, 'z) GenBuf_scheme \<Rightarrow> 'b \<Rightarrow> AsnLen \<Rightarrow> ('b, AsnTag) dres" where
  "BDecTag g b n =
     (let (x, b) = getByte g b;
          tagId = push_bit 24 (ucast x :: AsnTag);
          n = n + 1;
          (tagId, i, n, b) =
            (if tagId AND push_bit 24 0x1f = push_bit 24 0x1f then tagLoop g b n tagId 2
             else (tagId, 0, n, b))
      in if 4 + 1 < i then Jmp (-25)
         else if readError g b then Jmp (-26)
         else Ret tagId n b)"

text \<open>
  \<open>PeekTag\<close> copies the first \<open>i\<close> octets again in every round and looks at the last
  of them; octets beyond the data keep what the local array \<open>buf\<close> held.
\<close>

function peekTagLoop ::
  "('b, 'z) GenBuf_scheme \<Rightarrow> 'b \<Rightarrow> byte list \<Rightarrow> AsnTag \<Rightarrow> nat \<Rightarrow> AsnTag \<times> nat \<times> 'b" where
  "peekTagLoop g b buf tagId i =
     (let (xs, b) = peekCopy g b i;
          buf = xs @ drop (length xs) buf;
          tmpTagId = (ucast (buf ! (i - 1)) :: AsnTag);
          tagId = tagId OR push_bit ((4 - i) * 8) tmpTagId
      in if tmpTagId AND 0x80 \<noteq> 0 \<and> Suc i \<le> 4 then peekTagLoop g b buf tagId (Suc i)
         else (tagId, Suc i, b))"
  by pat_completeness auto
termination by (relation "measure (\<lambda>(_, _, _, _, i). 5 - i)") auto

declare peekTagLoop.simps [simp del]

definition PeekTag ::
  "('b, 'z) GenBuf_scheme \<Rightarrow> byte list \<Rightarrow> 'b \<Rightarrow> AsnLen \<Rightarrow> ('b, AsnTag) dres" where
  "PeekTag g buf b n =
     (let (xs, b) = peekCopy g b 1;
          buf = xs @ drop (length xs) buf;
          tagId = push_bit 24 (ucast (buf ! 0) :: AsnTag);
          (tagId, i, b) =
            (if tagId AND push_bit 24 0x1f = push_bit 24 0x1f then peekTagLoop g b buf tagId 2
             else (tagId, 0, b))
      in if 4 + 1 < i then Jmp (-1004) else Ret tagId n b)"

text \<open>
  The compiler prints the call \<open>BEncTag<n>\<close> with \<open>n\<close> from \<open>TagByteLen\<close>
  (\<open>compiler/back-ends/tag-util.c\<close>).
\<close>

definition TagByteLen :: "32 word \<Rightarrow> nat" where
  "TagByteLen tagCode =
     (if tagCode < 31 then 1
      else if tagCode < 128 then 2
      else if tagCode < 16384 then 3
      else if tagCode < 2097152 then 4
      else 5)"

definition BEncTag ::
  "('b, 'z) GenBuf_scheme \<Rightarrow> 'b \<Rightarrow> BER_CLASS \<Rightarrow> BER_FORM \<Rightarrow> 32 word \<Rightarrow> AsnLen \<times> 'b" where
  "BEncTag g b cl fm code =
     (let k = TagByteLen code in
      if k = 1 then BEncTag1 g b cl fm code
      else if k = 2 then BEncTag2 g b cl fm code
      else if k = 3 then BEncTag3 g b cl fm code
      else if k = 4 then BEncTag4 g b cl fm code
      else BEncTag5 g b cl fm code)"

subsection \<open>The octets and the reference parser\<close>

definition tag_bytes :: "BER_CLASS \<Rightarrow> BER_FORM \<Rightarrow> 32 word \<Rightarrow> byte list" where
  "tag_bytes cl fm code =
     (if code < 31 then [tag_byte cl fm code]
      else tag_byte cl fm 31 #
        (if code < 128 then []
         else if code < 16384 then [ucast (0x80 OR drop_bit 7 code)]
         else if code < 2097152 then
           [ucast (0x80 OR drop_bit 14 code), ucast (0x80 OR drop_bit 7 code)]
         else [ucast (0x80 OR drop_bit 21 code), ucast (0x80 OR drop_bit 14 code),
               ucast (0x80 OR drop_bit 7 code)]) @
        [ucast (code AND 0x7F)])"

text \<open>The octets that follow a long-form identifier octet: up to the first below 128, at most \<open>k\<close>.\<close>

fun tag_octets :: "nat \<Rightarrow> byte list \<Rightarrow> byte list option" where
  "tag_octets 0 xs = Some []"
| "tag_octets (Suc k) [] = None"
| "tag_octets (Suc k) (x # xs) =
     (if x < 128 then Some [x] else map_option ((#) x) (tag_octets k xs))"

definition tag_val :: "byte list \<Rightarrow> AsnTag" where
  "tag_val xs = of_nat (be_val xs * 256 ^ (4 - length xs))"

fun parse_tag :: "AsnTag parser" where
  "parse_tag [] = Inl (-26)"
| "parse_tag (x # xs) =
     (if x AND 31 = 31 then
        (case tag_octets 3 xs of
           None \<Rightarrow> Inl (-26)
         | Some ys \<Rightarrow> Inr (tag_val (x # ys), Suc (length ys)))
      else Inr (tag_val [x], 1))"

lemma ucast_and_7f: "code < 128 \<Longrightarrow> (code :: 32 word) AND 0x7F = code"
  using unat_and_mask [of code 7]
  by (intro word_eq_iff_unsigned [THEN iffD2]) (simp add: mask_eq_exp_minus_1 word_less_nat_alt)

lemma fst_BEncTag: "fst (BEncTag g b cl fm code) = of_nat (length (tag_bytes cl fm code))"
  by (simp add: BEncTag_def TagByteLen_def BEncTag1_def BEncTag2_def BEncTag3_def BEncTag4_def
      BEncTag5_def tag_bytes_def Let_def)

context rvs_buffer
begin

lemma emits_BEncTag: "emits g data ok room b (snd (BEncTag g b cl fm code)) (tag_bytes cl fm code)"
  unfolding BEncTag_def TagByteLen_def BEncTag1_def BEncTag2_def BEncTag3_def BEncTag4_def
    BEncTag5_def tag_bytes_def Let_def
  by (auto intro!: emits_byte_after put_byte simp: ucast_and_7f)

end

lemma push_bit_byte: "push_bit (k * 8) (w :: 32 word) = w * 256 ^ k"
  by (simp add: push_bit_eq_mult mult.commute [of k] power_mult)

lemma tag_val_or:
  assumes "length xs < 4"
  shows "tag_val xs OR push_bit ((3 - length xs) * 8) (ucast x) = tag_val (xs @ [x])"
proof -
  define k where "k = 3 - length xs"
  have k: "4 - length xs = Suc k" "4 - length (xs @ [x]) = k" using assms by (simp_all add: k_def)
  have d: "push_bit (Suc k * 8) w AND push_bit (k * 8) (ucast x) = 0" for w :: "32 word"
    by (rule bit_word_eqI) (auto simp: bit_simps dest: bit_imp_le_length)
  have v: "tag_val xs = push_bit (Suc k * 8) (of_nat (be_val xs))"
    unfolding push_bit_byte by (simp add: tag_val_def k)
  have w: "tag_val (xs @ [x]) = push_bit (Suc k * 8) (of_nat (be_val xs)) + push_bit (k * 8) (ucast x)"
    unfolding push_bit_byte tag_val_def k by (simp add: algebra_simps)
  show ?thesis
    unfolding v w k_def [symmetric] by (simp only: disjunctive_add_eq_or [OF d])
qed

lemma tag_val_1: "push_bit 24 (ucast x) = tag_val [x]"
  using push_bit_byte [of 3 "ucast x"] by (simp add: tag_val_def)

lemma top_byte_inj: "push_bit 24 (ucast x :: AsnTag) = push_bit 24 (ucast y) \<longleftrightarrow> (x :: byte) = y"
proof
  assume "push_bit 24 (ucast x :: AsnTag) = push_bit 24 (ucast y)"
  then have "drop_bit 24 (push_bit 24 (ucast x :: AsnTag)) = drop_bit 24 (push_bit 24 (ucast y))" by simp
  moreover have "drop_bit 24 (push_bit 24 (ucast z :: AsnTag)) = ucast z" for z :: byte
    by (rule bit_word_eqI) (auto simp: bit_simps dest: bit_imp_le_length)
  ultimately have "unat (ucast x :: AsnTag) = unat (ucast y :: AsnTag)" by simp
  then show "x = y" unfolding unat_ucast32 by (rule word_eq_iff_unsigned [THEN iffD2])
qed simp

lemma long_form_iff:
  "push_bit 24 (ucast x :: AsnTag) AND push_bit 24 0x1f = push_bit 24 0x1f \<longleftrightarrow> (x :: byte) AND 31 = 31"
proof -
  have "push_bit 24 (ucast x :: AsnTag) AND push_bit 24 (ucast (31 :: byte)) = push_bit 24 (ucast (x AND 31))"
    by (simp only: push_bit_and unsigned_and_eq)
  then show ?thesis using top_byte_inj [of "x AND 31" 31] by simp
qed

lemma cont_bit_iff: "(ucast x :: AsnTag) AND 0x80 \<noteq> 0 \<longleftrightarrow> 128 \<le> (x :: byte)"
proof -
  have "(ucast x :: AsnTag) AND 0x80 \<noteq> 0 \<longleftrightarrow> bit x 7"
    using and_exp_eq_0_iff_not_bit [of "ucast x :: AsnTag" 7] by (simp add: bit_simps)
  also have "\<dots> \<longleftrightarrow> 128 \<le> x" by (rule byte_bit7)
  finally show ?thesis .
qed

context fwd_buffer
begin

lemma tagLoop_ok:
  assumes "readable g rem ok b ys" "length xs + Suc k = 4" "0 < length xs"
  shows "case tag_octets (Suc k) ys of
      None \<Rightarrow> \<exists>t i m b'. tagLoop g b n (tag_val xs) (Suc (length xs)) = (t, i, m, b') \<and> i \<le> 5 \<and> exhausted g rem ok b'
    | Some zs \<Rightarrow> length zs \<le> length ys \<and>
        (\<exists>i b'. tagLoop g b n (tag_val xs) (Suc (length xs)) =
          (tag_val (xs @ zs), i, n + of_nat (length zs), b') \<and> i \<le> 5 \<and>
          readable g rem ok b' (drop (length zs) ys))"
  using assms
proof (induction k arbitrary: xs ys b n)
  case (0 xs ys b n)
  show ?case
  proof (cases ys)
    case Nil
    with 0 obtain b' where "getByte g b = (0, b')" "exhausted g rem ok b'"
      by (auto elim: get_nilE)
    with 0 Nil show ?thesis by (subst tagLoop.simps) simp
  next
    case (Cons y zs)
    with 0 obtain b' where "getByte g b = (y, b')" "readable g rem ok b' zs"
      by (auto elim: get_consE)
    with 0 Cons tag_val_or [of xs y] show ?thesis by (subst (2) tagLoop.simps) simp
  qed
next
  case (Suc k xs ys b n)
  show ?case
  proof (cases ys)
    case Nil
    with Suc.prems obtain b' where "getByte g b = (0, b')" "exhausted g rem ok b'"
      by (auto elim: get_nilE)
    with Nil Suc.prems(2) show ?thesis by (subst tagLoop.simps) simp
  next
    case (Cons y zs)
    with Suc.prems obtain b' where b': "getByte g b = (y, b')" "readable g rem ok b' zs"
      by (auto elim: get_consE)
    have l: "length (xs @ [y]) + Suc k = 4" "0 < length (xs @ [y])" and lt: "length xs < 4"
      using Suc.prems by simp_all
    have v: "tag_val xs OR push_bit ((4 - Suc (length xs)) * 8) (ucast y) = tag_val (xs @ [y])"
      using tag_val_or [OF lt] by simp
    show ?thesis
    proof (cases "128 \<le> y")
      case False
      then have "(ucast y :: AsnTag) AND 128 = 0" "y < 128" using cont_bit_iff [of y] by simp_all
      with b' v Cons False Suc.prems show ?thesis by (subst (2) tagLoop.simps) simp
    next
      case True
      then have c: "(ucast y :: AsnTag) AND 128 \<noteq> 0" using cont_bit_iff [of y] by simp
      have unf: "tagLoop g b n (tag_val xs) (Suc (length xs)) =
          tagLoop g b' (n + 1) (tag_val (xs @ [y])) (Suc (length (xs @ [y])))"
        using b' v c lt Suc.prems by (subst tagLoop.simps) simp
      show ?thesis
        using Suc.IH [OF b'(2) l, of "n + 1"] True Cons unfolding unf
        by (auto split: option.splits simp: ac_simps)
    qed
  qed
qed

lemma outcome_BDecTag:
  assumes "readable g rem ok b xs"
  shows "outcome g rem ok (BDecTag g b n) n xs (parse_tag xs)"
proof (cases xs)
  case Nil
  with assms obtain b' where "getByte g b = (0, b')" "exhausted g rem ok b'"
    by (auto elim: get_nilE)
  then show ?thesis using Nil by (simp add: BDecTag_def)
next
  case (Cons x ys)
  with assms obtain b1 where b1: "getByte g b = (x, b1)" "readable g rem ok b1 ys"
    by (auto elim: get_consE)
  note lf = long_form_iff [of x]
  show ?thesis
  proof (cases "x AND 31 = 31")
    case False
    with b1 Cons lf show ?thesis by (simp add: BDecTag_def tag_val_1 Let_def)
  next
    case True
    have t: "BDecTag g b n =
        (case tagLoop g b1 (n + 1) (tag_val [x]) 2 of (tagId, i, n, b) \<Rightarrow>
           if 4 + 1 < i then Jmp (-25) else if readError g b then Jmp (-26) else Ret tagId n b)"
      using b1 lf True by (simp add: BDecTag_def tag_val_1 Let_def)
    have s: "Suc 2 = 3" "Suc (length [x]) = 2" "[x] @ zs = x # zs" for zs by simp_all
    have "length [x] + Suc 2 = 4" "0 < length [x]" by simp_all
    note l = tagLoop_ok [OF b1(2) this, of "n + 1", unfolded s]
    show ?thesis
      using l True Cons by (cases "tag_octets 3 ys") (auto simp: t ac_simps)
  qed
qed

end

subsection \<open>Round trip and the tag that is too long\<close>

lemma tag_octets_append:
  assumes "\<forall>x \<in> set xs. 128 \<le> x" "y < 128" "length xs < k"
  shows "tag_octets k (xs @ y # zs) = Some (xs @ [y])"
  using assms
proof (induction xs arbitrary: k)
  case Nil
  then show ?case by (cases k) auto
next
  case (Cons x xs)
  then show ?case by (cases k) (auto simp: not_less)
qed

text \<open>
  A run of more than three continued octets is cut after the third: \<open>parse_tag\<close> succeeds
  there, because the test for \<open>-25\<close> compares \<open>i\<close> with a value the loop cannot reach.
\<close>

lemma tag_octets_cut:
  "\<forall>x \<in> set xs. 128 \<le> x \<Longrightarrow> length xs = k \<Longrightarrow> tag_octets k (xs @ ys) = Some xs"
proof (induction xs arbitrary: k)
  case (Cons x xs)
  then show ?case by (cases k) (auto simp: not_less)
qed simp

lemma byte_or_80: "128 \<le> (ucast (0x80 OR w :: 32 word) :: byte)"
  using byte_bit7 [of "ucast (0x80 OR w)"] by (simp add: bit_simps)

lemma byte_and_7f_less: "(ucast (w AND 0x7F :: 32 word) :: byte) < 128"
  using byte_bit7 [of "ucast (w AND 0x7F)"] by (simp add: bit_simps)

text \<open>The identifier is the encoded tag shifted to the top, octet by octet.\<close>

lemma bit_push_mask7: "bit (push_bit k (mask 7 :: 32 word)) n \<longleftrightarrow> k \<le> n \<and> n < k + 7 \<and> n < 32"
  by (subst bit_push_bit_iff, subst bit_mask_iff) auto

lemma tag_masks:
  "(0x80 :: 32 word) = push_bit 7 1" "(0x7F :: 32 word) = push_bit 0 (mask 7)"
  "(0x3f80 :: 32 word) = push_bit 7 (mask 7)" "(0x1fc000 :: 32 word) = push_bit 14 (mask 7)"
  by (simp_all add: mask_eq_exp_minus_1)

lemma bit_80: "bit (0x80 :: 32 word) n \<longleftrightarrow> n = 7"
  unfolding tag_masks(1) by (subst bit_push_bit_iff) (auto simp: bit_1_iff)

lemma bit_7f: "bit (0x7F :: 32 word) n \<longleftrightarrow> n < 7"
  unfolding tag_masks(2) bit_push_mask7 by linarith

lemma bit_3f80: "bit (0x3f80 :: 32 word) n \<longleftrightarrow> 7 \<le> n \<and> n < 7 + 7"
  unfolding tag_masks(3) bit_push_mask7 by linarith

lemma bit_1fc000: "bit (0x1fc000 :: 32 word) n \<longleftrightarrow> 14 \<le> n \<and> n < 14 + 7"
  unfolding tag_masks(4) bit_push_mask7 by linarith

lemma cont_octet:
  fixes c m code :: "32 word"
  assumes c: "\<And>n. bit c n \<longleftrightarrow> n = 7" and m: "\<And>n. bit m n \<longleftrightarrow> k \<le> n \<and> n < k + 7"
    and j: "j = i + k" "j + 7 < 32"
  shows "push_bit j (ucast (ucast (c OR drop_bit k code) :: byte) :: AsnTag) =
    push_bit i (code AND m) OR push_bit j c"
proof (rule bit_word_eqI)
  fix n assume "n < LENGTH(32)"
  then have n: "n < 32" by simp
  have "bit (push_bit j (ucast (ucast (c OR drop_bit k code) :: byte) :: AsnTag)) n \<longleftrightarrow>
      j \<le> n \<and> n - j < 8 \<and> (n - j = 7 \<or> bit code (k + (n - j)))"
    using n by (auto simp: bit_simps c)
  moreover have "bit (push_bit i (code AND m) OR push_bit j c) n \<longleftrightarrow>
      (i \<le> n \<and> bit code (n - i) \<and> k \<le> n - i \<and> n - i < k + 7) \<or> (j \<le> n \<and> n - j = 7)"
    using n by (auto simp: bit_simps c m)
  moreover have "k + (n - j) = n - i" if "j \<le> n" using that j by simp
  ultimately show "bit (push_bit j (ucast (ucast (c OR drop_bit k code) :: byte) :: AsnTag)) n \<longleftrightarrow>
      bit (push_bit i (code AND m) OR push_bit j c) n"
    using j by auto
qed

lemma last_octet: "(ucast (ucast (code AND 0x7F :: 32 word) :: byte) :: AsnTag) = code AND 0x7F"
proof (rule bit_word_eqI)
  fix n assume "n < LENGTH(32)"
  have "bit (code AND 0x7F) n \<Longrightarrow> n < 8"
    unfolding bit_and_iff bit_7f by simp
  then show "bit (ucast (ucast (code AND 0x7F) :: byte) :: AsnTag) n = bit (code AND 0x7F) n"
    using \<open>n < LENGTH(32)\<close> by (auto simp: bit_unsigned_iff)
qed

lemma first_octet:
  assumes "unat (code :: 32 word) < 32" "real_class cl" "real_form fm"
  shows "push_bit 24 (ucast (tag_byte cl fm code) :: AsnTag) =
    push_bit 24 (class_bits cl) OR push_bit 24 (form_bits fm) OR push_bit 24 code"
proof -
  have "push_bit 24 (ucast (ucast w :: byte) :: AsnTag) = push_bit 24 w" for w :: "32 word"
    by (rule bit_word_eqI) (auto simp: bit_simps)
  then show ?thesis by (simp add: tag_byte_def push_bit_or)
qed

lemma tag_val_octets:
  "tag_val [a] = push_bit 24 (ucast a)"
  "tag_val [a, b] = push_bit 24 (ucast a) OR push_bit 16 (ucast b)"
  "tag_val [a, b, c] = push_bit 24 (ucast a) OR push_bit 16 (ucast b) OR push_bit 8 (ucast c)"
  "tag_val [a, b, c, d] =
     push_bit 24 (ucast a) OR push_bit 16 (ucast b) OR push_bit 8 (ucast c) OR ucast d"
  using tag_val_or [of "[a]" b, symmetric] tag_val_or [of "[a, b]" c, symmetric]
    tag_val_or [of "[a, b, c]" d, symmetric] tag_val_1 [of a]
  by (simp_all add: or.assoc)

lemma tag_val_bytes:
  assumes "code < 2097152" "real_class cl" "real_form fm"
  shows "tag_val (tag_bytes cl fm code) = MAKE_TAG_ID cl fm code"
proof -
  have small: "unat code < 31" if "code < 31" using that by (simp add: word_less_nat_alt)
  have f: "push_bit 24 (ucast (tag_byte cl fm 31) :: AsnTag) =
      push_bit 24 (class_bits cl) OR push_bit 24 (form_bits fm) OR push_bit 24 31"
    using assms(2,3) by (intro first_octet) simp_all
  have c1: "push_bit 16 (ucast (ucast (0x80 OR drop_bit 7 code) :: byte) :: AsnTag) =
      push_bit 9 (code AND 0x3f80) OR push_bit 16 0x80"
    by (rule cont_octet [OF bit_80 bit_3f80]) simp_all
  have c2: "push_bit 8 (ucast (ucast (0x80 OR drop_bit 7 code) :: byte) :: AsnTag) =
      push_bit 1 (code AND 0x3f80) OR push_bit 8 0x80"
    by (rule cont_octet [OF bit_80 bit_3f80]) simp_all
  have c3: "push_bit 16 (ucast (ucast (0x80 OR drop_bit 14 code) :: byte) :: AsnTag) =
      push_bit 2 (code AND 0x1fc000) OR push_bit 16 0x80"
    by (rule cont_octet [OF bit_80 bit_1fc000]) simp_all
  consider "code < 31" | "31 \<le> code" "code < 128" | "128 \<le> code" "code < 16384" | "16384 \<le> code"
    using not_le by blast
  then show ?thesis
  proof cases
    case 1
    then show ?thesis using first_octet [of code, OF _ assms(2,3)] small
      by (simp add: tag_bytes_def tag_val_1 [symmetric] MAKE_TAG_ID_def MAKE_TAG_ID_CODE_def MAKE_TAG_ID_CODE1_def)
  next
    case 2
    then have "\<not> code < 31" by simp
    moreover have "(ucast (ucast (code AND 0x7F) :: byte) :: AsnTag) = code"
      using last_octet [of code] ucast_and_7f [OF 2(2)] by simp
    ultimately show ?thesis using 2
      by (simp only: tag_bytes_def tag_val_octets MAKE_TAG_ID_def MAKE_TAG_ID_CODE_def MAKE_TAG_ID_CODE2_def
          if_True if_False append_Nil or.assoc f)
  next
    case 3
    then have "\<not> code < 31" "\<not> code < 128" by (simp_all add: word_less_nat_alt word_le_nat_alt)
    then show ?thesis using 3
      by (simp only: tag_bytes_def tag_val_octets MAKE_TAG_ID_def MAKE_TAG_ID_CODE_def MAKE_TAG_ID_CODE3_def
          if_True if_False append_Cons append_Nil or.assoc f c1 last_octet)
  next
    case 4
    then have "\<not> code < 31" "\<not> code < 128" "\<not> code < 16384"
      by (simp_all add: word_less_nat_alt word_le_nat_alt)
    then show ?thesis using assms(1)
      by (simp only: tag_bytes_def tag_val_octets MAKE_TAG_ID_def MAKE_TAG_ID_CODE_def MAKE_TAG_ID_CODE4_def
          if_True if_False append_Cons append_Nil or.assoc f c2 c3 last_octet)
  qed
qed

lemma tag_byte_31: "real_class cl \<Longrightarrow> real_form fm \<Longrightarrow> tag_byte cl fm 31 AND 31 = 31"
  by (cases cl; cases fm) (simp_all add: tag_byte_def real_class_def real_form_def)

lemma class_form_low: "real_class cl \<Longrightarrow> class_bits cl AND 31 = 0" "real_form fm \<Longrightarrow> form_bits fm AND 31 = 0"
  by (cases cl; simp add: real_class_def) (cases fm; simp add: real_form_def)

lemma tag_byte_short:
  assumes "code < 31" "real_class cl" "real_form fm"
  shows "tag_byte cl fm code AND 31 \<noteq> 31"
proof -
  let ?w = "class_bits cl OR form_bits fm OR code"
  have 31: "(31 :: 32 word) = mask 5" "(31 :: byte) = mask 5" by (simp_all add: mask_eq_exp_minus_1)
  have "?w AND 31 = code AND 31"
    using class_form_low assms(2,3) by (simp add: bit.conj_disj_distrib2)
  then have "unat ?w mod 32 = unat code mod 32"
    using unat_and_mask [of ?w 5] unat_and_mask [of code 5] by (simp flip: 31)
  moreover have "unat (tag_byte cl fm code AND 31) = unat ?w mod 256 mod 32"
    unfolding 31 unat_and_mask by (simp add: tag_byte_def unat_ucast_byte)
  moreover have "\<dots> = unat ?w mod 32" by (rule mod_mod_cancel) simp
  moreover have "unat code < 31" using assms(1) by (simp add: word_less_nat_alt)
  ultimately have "unat (tag_byte cl fm code AND 31) \<noteq> 31" by simp
  then show ?thesis by auto
qed

lemma parse_tag_bytes:
  assumes "code < 2097152" "real_class cl" "real_form fm"
  shows "parse_tag (tag_bytes cl fm code @ ys) =
    Inr (MAKE_TAG_ID cl fm code, length (tag_bytes cl fm code))"
proof (cases "code < 31")
  case True
  then show ?thesis
    using tag_byte_short [OF True assms(2,3)] tag_val_bytes [OF assms]
    by (simp add: tag_bytes_def)
next
  case False
  define zs where "zs = butlast (tl (tag_bytes cl fm code))"
  have z: "tag_bytes cl fm code = tag_byte cl fm 31 # zs @ [ucast (code AND 0x7F)]"
    "length zs < 3" "\<forall>x \<in> set zs. 128 \<le> x"
    using False assms(1) byte_or_80 by (auto simp: zs_def tag_bytes_def)
  have "tag_octets 3 (zs @ ucast (code AND 0x7F) # ys) = Some (zs @ [ucast (code AND 0x7F)])"
    by (rule tag_octets_append [OF z(3) byte_and_7f_less z(2)])
  then show ?thesis
    using tag_byte_31 [OF assms(2,3)] tag_val_bytes [OF assms] by (simp add: z(1))
qed

end
