(* ===== verification/Asn_Tlv.thy ===== *)
theory Asn_Tlv
  imports Asn_Tag
begin

section \<open>Tag, length and content of the universal types\<close>

text \<open>
  Every \<open>BEncAsn<Type>\<close> of the library ends with \<open>len += BEncDefLen (b, len); len +=
  BEncTag1 (b, UNIV, PRIM, code)\<close> and every \<open>BDecAsn<Type>\<close> starts with a tag that is
  compared, then a length.  Both are written once here, with the octets of the whole element
  and its header parser.
\<close>

definition univ_tag :: "32 word \<Rightarrow> AsnTag" where
  "univ_tag code = MAKE_TAG_ID UNIV_CLASS PRIM code"

definition univ_cons_tag :: "32 word \<Rightarrow> AsnTag" where
  "univ_cons_tag code = MAKE_TAG_ID UNIV_CLASS CONS code"

definition BEncUniv :: "('b, 'z) GenBuf_scheme \<Rightarrow> 32 word \<Rightarrow> AsnLen \<times> 'b \<Rightarrow> AsnLen \<times> 'b" where
  "BEncUniv g code = (\<lambda>(len, b).
     let (k, b) = BEncDefLen g b len; len = len + k;
         (k, b) = BEncTag1 g b UNIV_CLASS PRIM code; len = len + k
     in (len, b))"

definition BDecUniv ::
  "('b, 'z) GenBuf_scheme \<Rightarrow> int \<Rightarrow> AsnTag list \<Rightarrow> 'b \<Rightarrow> AsnLen \<Rightarrow> ('b, AsnTag \<times> AsnLen) dres" where
  "BDecUniv g err tags b n =
     dbind (BDecTag g b n) (\<lambda>tag n b.
       if tag \<notin> set tags then Jmp err
       else dbind (BDecLen g b n) (\<lambda>len n b. Ret (tag, len) n b))"

definition tlv :: "32 word \<Rightarrow> byte list \<Rightarrow> byte list" where
  "tlv code bs = ucast code # def_len_bytes (of_nat (length bs)) @ bs"

definition parse_head :: "int \<Rightarrow> AsnTag list \<Rightarrow> (AsnTag \<times> AsnLen) parser" where
  "parse_head err tags =
     pbind parse_tag (\<lambda>tag. if tag \<notin> set tags then (\<lambda>_. Inl err)
       else pbind parse_len (\<lambda>len _. Inr ((tag, len), 0)))"

context rvs_buffer
begin

text \<open>An encoder that reports the number of bytes it wrote, and its whole element.\<close>

lemma BEncUniv_tlv:
  assumes "emits g data ok room b (snd c) bs" "fst c = of_nat (length bs)"
  shows "emits g data ok room b (snd (BEncUniv g code c)) (tlv code bs) \<and>
    fst (BEncUniv g code c) = of_nat (length (tlv code bs))"
proof -
  obtain l b1 where c: "c = (l, b1)" by (cases c)
  obtain k b2 where k: "BEncDefLen g b1 l = (k, b2)" by (cases "BEncDefLen g b1 l")
  have "emits g data ok room b1 b2 (def_len_bytes l)"
    using emits_BEncDefLen [of b1 l] k by simp
  with assms c have e: "emits g data ok room b b2 (def_len_bytes l @ bs)"
    by (auto intro: emits_trans)
  have u: "BEncUniv g code c = (l + k + 1, putByteRvs g b2 (tag_byte UNIV_CLASS PRIM code))"
    unfolding c by (simp add: BEncUniv_def k BEncTag1_def)
  have "emits g data ok room b (snd (BEncUniv g code c)) (tlv code bs)"
    using emits_byte_after [OF e, of "ucast code"] assms(2) unfolding u snd_conv
    by (simp add: c tlv_def tag_byte_def)
  moreover have "k = of_nat (length (def_len_bytes l))"
    using fst_BEncDefLen [of g b1 l] k by simp
  ultimately show ?thesis
    using assms(2) unfolding u by (simp add: c tlv_def ac_simps)
qed

end

context fwd_buffer
begin

lemma outcome_BDecUniv:
  assumes "readable g rem ok b xs"
  shows "outcome g rem ok (BDecUniv g err tags b n) n xs (parse_head err tags xs)"
  unfolding BDecUniv_def parse_head_def
proof (rule outcome_dbind [where p = parse_tag, OF outcome_BDecTag [OF assms]])
  fix tag k b'
  assume b': "readable g rem ok b' (drop k xs)"
  show "outcome g rem ok (if tag \<notin> set tags then Jmp err
      else dbind (BDecLen g b' (n + of_nat k)) (\<lambda>len n b. Ret (tag, len) n b)) (n + of_nat k) (drop k xs)
      ((if tag \<notin> set tags then (\<lambda>_. Inl err)
       else pbind parse_len (\<lambda>len _. Inr ((tag, len), 0))) (drop k xs))"
  proof (cases "tag \<in> set tags")
    case True
    have "outcome g rem ok (dbind (BDecLen g b' (n + of_nat k)) (\<lambda>len n b. Ret (tag, len) n b))
        (n + of_nat k) (drop k xs) (pbind parse_len (\<lambda>len _. Inr ((tag, len), 0)) (drop k xs))"
      by (rule outcome_dbind [where p = parse_len, OF outcome_BDecLen [OF b']]) simp
    with True show ?thesis by simp
  qed simp
qed

text \<open>A whole element: the header, then a content decoder.\<close>

lemma outcome_univ:
  assumes "readable g rem ok b xs"
    and "\<And>tag len k b'. parse_head err tags xs = Inr ((tag, len), k) \<Longrightarrow>
      readable g rem ok b' (drop k xs) \<Longrightarrow>
      outcome g rem ok (D tag len (n + of_nat k) b') (n + of_nat k) (drop k xs) (P (tag, len) (drop k xs))"
  shows "outcome g rem ok (dbind (BDecUniv g err tags b n) (\<lambda>(tag, len). D tag len)) n xs
    (pbind (parse_head err tags) P xs)"
proof (rule outcome_dbind [where p = "parse_head err tags", OF outcome_BDecUniv [OF assms(1)]])
  fix v k b'
  assume "parse_head err tags xs = Inr (v, k)" "readable g rem ok b' (drop k xs)"
  then show "outcome g rem ok ((case v of (tag, len) \<Rightarrow> D tag len) (n + of_nat k) b')
      (n + of_nat k) (drop k xs) (P v (drop k xs))"
    using assms(2) by (cases v) simp
qed

end

lemma length_tlv: "length (tlv code bs) = 1 + length (def_len_bytes (of_nat (length bs))) + length bs"
  by (simp add: tlv_def)

lemma length_def_len_bytes: "0 < length (def_len_bytes l) \<and> length (def_len_bytes l) \<le> 5"
  by (simp add: def_len_bytes_def)

lemma length_tlv_le: "length (tlv code bs) \<le> 6 + length bs"
  using length_def_len_bytes [of "of_nat (length bs)"] by (simp add: length_tlv)

lemma parse_tag_univ:
  assumes "code < 31"
  shows "parse_tag (ucast code # ys) = Inr (univ_tag code, 1)"
proof -
  have "tag_bytes UNIV_CLASS PRIM code = [ucast code]"
    using assms by (simp add: tag_bytes_def tag_byte_def)
  moreover have "code < 2097152" using assms by (simp add: word_less_nat_alt)
  ultimately show ?thesis
    using parse_tag_bytes [of code UNIV_CLASS PRIM ys]
    by (simp add: univ_tag_def real_class_def real_form_def)
qed

lemma parse_head_tlv:
  assumes "code < 31" "univ_tag code \<in> set tags"
  shows "parse_head err tags (tlv code bs @ ys) =
    Inr ((univ_tag code, of_nat (length bs)), 1 + length (def_len_bytes (of_nat (length bs))))"
proof -
  let ?l = "def_len_bytes (of_nat (length bs))"
  have "parse_tag (ucast code # ?l @ bs @ ys) = Inr (univ_tag code, 1)"
    using assms(1) by (rule parse_tag_univ)
  then show ?thesis
    using assms(2) parse_def_len_bytes [of "of_nat (length bs)" "bs @ ys"]
    by (simp add: parse_head_def tlv_def)
qed

lemma drop_tlv: "drop (1 + length (def_len_bytes (of_nat (length bs)))) (tlv code bs @ ys) = bs @ ys"
  by (simp add: tlv_def)

text \<open>Parsing an encoded element comes down to parsing its content.\<close>

lemma parse_univ_tlv:
  assumes "code < 31" "univ_tag code \<in> set tags"
    and "P (univ_tag code, of_nat (length bs)) (bs @ ys) = Inr (v, length bs)"
  shows "pbind (parse_head err tags) P (tlv code bs @ ys) = Inr (v, length (tlv code bs))"
proof -
  note h = parse_head_tlv [OF assms(1,2), of err bs ys]
  show ?thesis
    using assms(3) unfolding pbind.simps h sum.case prod.case drop_tlv by (simp add: length_tlv)
qed

end
