(* ===== verification/Asn_Octs.thy ===== *)
theory Asn_Octs
  imports Asn_Tlv
begin

section \<open>OCTET STRING (\<open>c-lib/src/asn-octs.c\<close>, \<open>str-stk.h\<close>)\<close>

text \<open>
  The primitive and the constructed form.  A constructed string is decoded by pushing a
  reference to every piece on a stack (\<open>strStkG\<close>) and copying the pieces at the end.  A
  reference is the list of the bytes it points to.  \<open>parse_parts\<close> is the reference
  parser of the pieces, a total function; the recursion of the code runs on fuel, and
  fuel greater than the number of remaining bytes is enough.

  \<open>alloc\<close> says for which sizes \<open>Asn1Alloc\<close> does not return \<open>NULL\<close>.
\<close>

record AsnOcts =
  octetLen :: nat
  octs :: "byte list"

subsection \<open>The string stack\<close>

text \<open>
  \<open>stk\<close> holds the used elements (\<open>nextFreeElmt\<close> is their number), \<open>numElmts\<close> the
  size of the array behind them.
\<close>

record StrStk =
  stk :: "byte list list"
  initialNumElmts :: nat
  numElmts :: nat
  growElmts :: nat
  totalByteLen :: "32 word"

definition strStkG :: StrStk where
  "strStkG = \<lparr>stk = [], initialNumElmts = 128, numElmts = 0, growElmts = 64, totalByteLen = 0\<rparr>"

definition RESET_STR_STK :: "StrStk \<Rightarrow> StrStk" where
  "RESET_STR_STK s = s\<lparr>stk := [], totalByteLen := 0,
     numElmts := (if numElmts s = 0 then initialNumElmts s else numElmts s)\<rparr>"

definition PUSH_STR :: "byte list \<Rightarrow> StrStk \<Rightarrow> StrStk" where
  "PUSH_STR str s =
     (let s = (if numElmts s \<le> length (stk s) then s\<lparr>numElmts := numElmts s + growElmts s\<rparr> else s)
      in s\<lparr>totalByteLen := totalByteLen s + of_nat (length str), stk := stk s @ [str]\<rparr>)"

subsection \<open>Operations\<close>

definition BEncAsnOctsContent :: "('b, 'z) GenBuf_scheme \<Rightarrow> 'b \<Rightarrow> AsnOcts \<Rightarrow> AsnLen \<times> 'b" where
  "BEncAsnOctsContent g b x = (of_nat (octetLen x), putSegRvs g b (take (octetLen x) (octs x)))"

definition BEncAsnOcts :: "('b, 'z) GenBuf_scheme \<Rightarrow> 'b \<Rightarrow> AsnOcts \<Rightarrow> AsnLen \<times> 'b" where
  "BEncAsnOcts g b x = BEncUniv g OCTETSTRING_TAG_CODE (BEncAsnOctsContent g b x)"

text \<open>
  The inner \<open>while (1)\<close> over the segments of a primitive piece.  Its fuel is started at
  \<open>elmtLen1 + 1\<close>: every round but the last moves on by at least one byte.
\<close>

fun segLoop ::
  "nat \<Rightarrow> ('b, 'z) GenBuf_scheme \<Rightarrow> int \<Rightarrow> 32 word \<Rightarrow> 32 word \<Rightarrow> 32 word \<Rightarrow> StrStk \<Rightarrow> AsnLen \<Rightarrow> 'b \<Rightarrow>
    ('b, StrStk) dres" where
  "segLoop 0 g err elmtLen1 refdLen totalRefdLen s n b = OutOfFuel"
| "segLoop (Suc fuel) g err elmtLen1 refdLen totalRefdLen s n b =
     (let (strPtr, b) = getSeg g b (unat refdLen);
          str = (case strPtr of None \<Rightarrow> [] | Some xs \<Rightarrow> xs);
          refdLen = of_nat (length str);
          s = PUSH_STR str s;
          totalRefdLen = totalRefdLen + refdLen
      in if totalRefdLen = elmtLen1 then Ret s (n + elmtLen1) b
         else if refdLen = 0 then Jmp err
         else segLoop fuel g err elmtLen1 (elmtLen1 - totalRefdLen) totalRefdLen s n b)"

text \<open>
  \<open>n\<close> is the local \<open>totalElmtsLen1\<close>; the recursive call starts its own at 0, and its
  caller adds it.
\<close>

fun FillOctetStringStk ::
  "nat \<Rightarrow> ('b, 'z) GenBuf_scheme \<Rightarrow> AsnLen \<Rightarrow> StrStk \<Rightarrow> AsnLen \<Rightarrow> 'b \<Rightarrow> ('b, StrStk) dres" where
  "FillOctetStringStk 0 g elmtLen0 s n b = OutOfFuel"
| "FillOctetStringStk (Suc fuel) g elmtLen0 s n b =
     (if \<not> (n < elmtLen0 \<or> elmtLen0 = INDEFINITE_LEN) then Ret s n b
      else
        dbind (BDecTag g b n) (\<lambda>tagId1 n b.
          if tagId1 = EOC_TAG_ID \<and> elmtLen0 = INDEFINITE_LEN then
            dbind (BDEC_2ND_EOC_OCTET g b n) (\<lambda>_ n b. Ret s n b)
          else
            dbind (BDecLen g b n) (\<lambda>elmtLen1 n b.
              if tagId1 = univ_tag OCTETSTRING_TAG_CODE then
                dbind (segLoop (Suc (unat elmtLen1)) g (-18) elmtLen1 elmtLen1 0 s n b)
                  (\<lambda>s n b. FillOctetStringStk fuel g elmtLen0 s n b)
              else if tagId1 = univ_cons_tag OCTETSTRING_TAG_CODE then
                dbind (FillOctetStringStk fuel g elmtLen1 s 0 b)
                  (\<lambda>s m b. FillOctetStringStk fuel g elmtLen0 s (n + m) b)
              else Jmp (-19))))"

definition BDecConsAsnOcts ::
  "nat \<Rightarrow> (nat \<Rightarrow> bool) \<Rightarrow> ('b, 'z) GenBuf_scheme \<Rightarrow> AsnLen \<Rightarrow> AsnLen \<Rightarrow> 'b \<Rightarrow> ('b, AsnOcts) dres" where
  "BDecConsAsnOcts fuel alloc g len n b =
     dbind (FillOctetStringStk fuel g len (RESET_STR_STK strStkG) 0 b) (\<lambda>s m b.
       let octetLen = unat (totalByteLen s) in
       if \<not> alloc (octetLen + 1) then Jmp (-27)
       else Ret \<lparr>octetLen = octetLen, octs = concat (stk s) @ [0]\<rparr> (n + m) b)"

definition BDecAsnOctsContent ::
  "nat \<Rightarrow> (nat \<Rightarrow> bool) \<Rightarrow> ('b, 'z) GenBuf_scheme \<Rightarrow> AsnTag \<Rightarrow> AsnLen \<Rightarrow> AsnLen \<Rightarrow> 'b \<Rightarrow>
    ('b, AsnOcts) dres" where
  "BDecAsnOctsContent fuel alloc g tagId len n b =
     (if TAG_IS_CONS tagId then BDecConsAsnOcts fuel alloc g len n b
      else if len = INDEFINITE_LEN then Jmp (-67)
      else if \<not> alloc (unat len + 1) then Jmp (-27)
      else
        let (xs, b) = copy g b (unat len) in
        if readError g b then Jmp (-20)
        else Ret \<lparr>octetLen = unat len, octs = xs @ [0]\<rparr> (n + len) b)"

definition BDecAsnOcts ::
  "nat \<Rightarrow> (nat \<Rightarrow> bool) \<Rightarrow> ('b, 'z) GenBuf_scheme \<Rightarrow> 'b \<Rightarrow> AsnLen \<Rightarrow> ('b, AsnOcts) dres" where
  "BDecAsnOcts fuel alloc g b n =
     dbind (BDecUniv g (-40) [univ_tag OCTETSTRING_TAG_CODE, univ_cons_tag OCTETSTRING_TAG_CODE] b n)
       (\<lambda>(tag, elmtLen). BDecAsnOctsContent fuel alloc g tag elmtLen)"

definition AsnOctsEquiv :: "AsnOcts \<Rightarrow> AsnOcts \<Rightarrow> bool" where
  "AsnOctsEquiv o1 o2 \<longleftrightarrow> octetLen o1 = octetLen o2 \<and>
     take (octetLen o1) (octs o1) = take (octetLen o1) (octs o2)"

subsection \<open>The reference parser\<close>

lemma parse_tag_pos: "parse_tag xs = Inr (t, k) \<Longrightarrow> 0 < k \<and> xs \<noteq> []"
  by (cases xs) (auto split: if_splits option.splits)

lemma parse_len_pos: "parse_len xs = Inr (t, k) \<Longrightarrow> 0 < k \<and> xs \<noteq> []"
  by (cases xs) (auto simp: parse_long_len_def Let_def split: if_splits)

function parse_parts :: "AsnLen \<Rightarrow> nat \<Rightarrow> byte list parser" where
  "parse_parts len0 m xs =
     (if \<not> (of_nat m < len0 \<or> len0 = INDEFINITE_LEN) then Inr ([], 0)
      else case parse_tag xs of
        Inl e \<Rightarrow> Inl e
      | Inr (tag, k) \<Rightarrow>
          (let ys = drop k xs in
           if tag = EOC_TAG_ID \<and> len0 = INDEFINITE_LEN then
             (if ys \<noteq> [] \<and> hd ys = 0 then Inr ([], Suc k) else Inl (-28))
           else case parse_len ys of
             Inl e \<Rightarrow> Inl e
           | Inr (len1, j) \<Rightarrow>
               (let zs = drop j ys; l = unat len1 in
                if tag = univ_tag OCTETSTRING_TAG_CODE then
                  (if length zs < l then Inl (-18)
                   else case parse_parts len0 (m + k + j + l) (drop l zs) of
                     Inl e \<Rightarrow> Inl e
                   | Inr (bs, i) \<Rightarrow> Inr (take l zs @ bs, k + j + l + i))
                else if tag = univ_cons_tag OCTETSTRING_TAG_CODE then
                  (case parse_parts len1 0 zs of
                     Inl e \<Rightarrow> Inl e
                   | Inr (bs, l) \<Rightarrow>
                       (case parse_parts len0 (m + k + j + l) (drop l zs) of
                          Inl e \<Rightarrow> Inl e
                        | Inr (cs, i) \<Rightarrow> Inr (bs @ cs, k + j + l + i)))
                else Inl (-19))))"
  by pat_completeness auto
termination
  by (relation "measure (\<lambda>(_, _, xs). length xs)") (auto dest: parse_tag_pos intro: diff_less)

declare parse_parts.simps [simp del]

text \<open>The branches of the parser, one rule each.\<close>

lemma parse_parts_stop:
  "\<not> (of_nat m < len0 \<or> len0 = INDEFINITE_LEN) \<Longrightarrow> parse_parts len0 m xs = Inr ([], 0)"
  by (subst parse_parts.simps) simp

lemma parse_parts_tag_err:
  "of_nat m < len0 \<or> len0 = INDEFINITE_LEN \<Longrightarrow> parse_tag xs = Inl e \<Longrightarrow>
   parse_parts len0 m xs = Inl e"
  by (subst parse_parts.simps) simp

lemma parse_parts_eoc:
  "parse_tag xs = Inr (EOC_TAG_ID, k) \<Longrightarrow>
   parse_parts INDEFINITE_LEN m xs =
     (if drop k xs \<noteq> [] \<and> hd (drop k xs) = 0 then Inr ([], Suc k) else Inl (-28))"
  by (subst parse_parts.simps) (simp add: Let_def)

lemma parse_parts_len_err:
  "of_nat m < len0 \<or> len0 = INDEFINITE_LEN \<Longrightarrow> parse_tag xs = Inr (tag, k) \<Longrightarrow>
   \<not> (tag = EOC_TAG_ID \<and> len0 = INDEFINITE_LEN) \<Longrightarrow> parse_len (drop k xs) = Inl e \<Longrightarrow>
   parse_parts len0 m xs = Inl e"
  by (subst parse_parts.simps) (auto simp: Let_def)

lemma parse_parts_piece:
  assumes "of_nat m < len0 \<or> len0 = INDEFINITE_LEN" "parse_tag xs = Inr (tag, k)"
    and "\<not> (tag = EOC_TAG_ID \<and> len0 = INDEFINITE_LEN)" "parse_len (drop k xs) = Inr (len1, j)"
    and "zs = drop j (drop k xs)" "l = unat len1"
  shows "parse_parts len0 m xs =
     (if tag = univ_tag OCTETSTRING_TAG_CODE then
        (if length zs < l then Inl (-18)
         else case parse_parts len0 (m + k + j + l) (drop l zs) of
           Inl e \<Rightarrow> Inl e
         | Inr (bs, i) \<Rightarrow> Inr (take l zs @ bs, k + j + l + i))
      else if tag = univ_cons_tag OCTETSTRING_TAG_CODE then
        (case parse_parts len1 0 zs of
           Inl e \<Rightarrow> Inl e
         | Inr (bs, l) \<Rightarrow>
             (case parse_parts len0 (m + k + j + l) (drop l zs) of
                Inl e \<Rightarrow> Inl e
              | Inr (cs, i) \<Rightarrow> Inr (bs @ cs, k + j + l + i)))
      else Inl (-19))"
proof -
  have A: "(of_nat m < len0 \<or> len0 = INDEFINITE_LEN) = True" using assms(1) by simp
  have B: "(tag = EOC_TAG_ID \<and> len0 = INDEFINITE_LEN) = False" using assms(3) by simp
  show ?thesis
    by (subst parse_parts.simps)
      (simp only: A B assms(2,4,5,6) Let_def sum.case prod.case if_True if_False not_True_eq_False)
qed

definition pushed :: "StrStk \<Rightarrow> StrStk \<Rightarrow> byte list \<Rightarrow> bool" where
  "pushed s s' bs \<longleftrightarrow> (\<exists>strs. stk s' = stk s @ strs \<and> concat strs = bs) \<and>
     totalByteLen s' = totalByteLen s + of_nat (length bs)"

lemma pushed_refl [simp]: "pushed s s []"
  by (simp add: pushed_def)

lemma pushed_trans: "pushed s s1 xs \<Longrightarrow> pushed s1 s2 ys \<Longrightarrow> pushed s s2 (xs @ ys)"
  unfolding pushed_def
  by (elim conjE exE, intro conjI exI [of _ "_ @ _"]) auto

lemma pushed_PUSH_STR: "pushed s (PUSH_STR str s) str"
  by (auto simp: pushed_def PUSH_STR_def Let_def)

context fwd_buffer
begin

lemma segLoop_ok:
  assumes "readable g rem ok b xs" "unat r < fuel" "tot + r = len1"
  shows "if unat r \<le> length xs then
      \<exists>s' b'. segLoop fuel g err len1 r tot s n b = Ret s' (n + len1) b' \<and>
        pushed s s' (take (unat r) xs) \<and> readable g rem ok b' (drop (unat r) xs)
    else segLoop fuel g err len1 r tot s n b = Jmp err"
  using assms
proof (induction fuel arbitrary: b xs r tot s)
  case (Suc fuel)
  have r: "r = len1 - tot" using Suc.prems(3) by (simp add: algebra_simps)
  show ?case
  proof (cases xs)
    case Nil
    have "tot = len1 \<longleftrightarrow> r = 0" using r by auto
    then show ?thesis
      using Nil Suc.prems seg_nil [OF disjI1, of b "unat r"] pushed_PUSH_STR [of s "[]"]
      by (auto simp: unat_eq_0)
  next
    case (Cons x ys)
    have "unat r < 2 ^ 32" by (rule unat_bound32)
    from seg_cons [OF Suc.prems(1) [unfolded Cons] this] obtain k b' where
      k: "getSeg g b (unat r) = (Some (take k xs), b')" "readable g rem ok b' (drop k xs)"
        "k \<le> unat r" "k \<le> length xs" "0 < unat r \<longrightarrow> 0 < k"
      unfolding Cons by auto
    have kw: "unat (of_nat k :: 32 word) = k"
      using k(3) unat_bound32 [of r] by (simp add: unat_of_nat)
    have l: "length (take k xs) = k" using k(4) by simp
    have stop: "tot + of_nat k = len1 \<longleftrightarrow> k = unat r"
      using kw by (auto simp: r algebra_simps)
    note p = pushed_PUSH_STR [of s "take k xs"]
    show ?thesis
    proof (cases "k = unat r")
      case True
      then show ?thesis using k l stop p by (auto simp: Let_def)
    next
      case False
      then have pos: "0 < k" "unat r \<noteq> 0" using k by auto
      have u: "unat (r - of_nat k) = unat r - k"
        using k(3) kw by (simp add: unat_sub word_le_nat_alt)
      have eq: "len1 - (tot + of_nat k) = r - of_nat k" by (simp add: r algebra_simps)
      have nz: "(of_nat k :: 32 word) \<noteq> 0" using pos kw by auto
      have unf: "segLoop (Suc fuel) g err len1 r tot s n b =
          segLoop fuel g err len1 (r - of_nat k) (tot + of_nat k) (PUSH_STR (take k xs) s) n b'"
        using k(1) l stop False nz by (simp add: Let_def eq)
      have "unat (r - of_nat k) < fuel" "tot + of_nat k + (r - of_nat k) = len1"
        using Suc.prems(2,3) pos u by (auto simp: algebra_simps)
      note IH = Suc.IH [OF k(2) this, of "PUSH_STR (take k xs) s", unfolded u]
      have c: "unat r - k \<le> length (drop k xs) \<longleftrightarrow> unat r \<le> length xs"
        using k by auto
      have d: "drop (unat r - k) (drop k xs) = drop (unat r) xs" using k(3) by simp
      have t: "take k xs @ take (unat r - k) (drop k xs) = take (unat r) xs"
        using k(3) by (simp flip: take_add)
      show ?thesis
        using IH unfolding unf c d t [symmetric]
        by (cases "unat r \<le> length xs") (simp, blast intro: pushed_trans [OF p], simp)
    qed
  qed
qed simp

lemma BDEC_2ND_EOC_OCTET_ok:
  assumes "readable g rem ok b ys"
  shows "if ys \<noteq> [] \<and> hd ys = 0
    then \<exists>b'. BDEC_2ND_EOC_OCTET g b n = Ret () (n + 1) b' \<and> readable g rem ok b' (tl ys)
    else BDEC_2ND_EOC_OCTET g b n = Jmp (-28)"
proof (cases ys)
  case Nil
  with assms obtain b' where "getByte g b = (0, b')" "exhausted g rem ok b'"
    by (auto elim: get_nilE)
  with Nil show ?thesis by (simp add: BDEC_2ND_EOC_OCTET_def)
next
  case (Cons y zs)
  with assms obtain b' where "getByte g b = (y, b')" "readable g rem ok b' zs"
    by (auto elim: get_consE)
  with Cons show ?thesis by (auto simp: BDEC_2ND_EOC_OCTET_def)
qed

text \<open>
  \<open>parts_ok\<close> is what the code's recursion has to give for a result of the parser.
\<close>

definition parts_ok where
  "parts_ok r s m xs res \<longleftrightarrow>
     (case res of
        Inl e \<Rightarrow> r = Jmp e
      | Inr (bs, i) \<Rightarrow> i \<le> length xs \<and>
          (\<exists>s' b'. r = Ret s' (of_nat (m + i)) b' \<and> pushed s s' bs \<and> readable g rem ok b' (drop i xs)))"

lemma parts_ok_prepend:
  assumes "parts_ok r s1 (m + d) (drop d xs) res" "d \<le> length xs" "pushed s s1 as"
  shows "parts_ok r s m xs
    (case res of Inl e \<Rightarrow> Inl e | Inr (bs, i) \<Rightarrow> Inr (as @ bs, d + i))"
  using assms
  by (auto simp: parts_ok_def add.assoc [symmetric] add.commute [of d] split: sum.splits
      intro: pushed_trans [OF assms(3)])

lemma parts_ok_piece:
  assumes IH: "\<And>len0 m xs s b. readable g rem ok b xs \<Longrightarrow> length xs < fuel \<Longrightarrow>
      parts_ok (FillOctetStringStk fuel g len0 s (of_nat m) b) s m xs (parse_parts len0 m xs)"
    and b: "readable g rem ok b (drop d xs)" and d: "0 < d" "d \<le> length xs" and f: "length xs < Suc fuel"
    and D: "D = (if tag = univ_tag OCTETSTRING_TAG_CODE then
                dbind (segLoop (Suc (unat len1)) g (-18) len1 len1 0 s (of_nat (m + d)) b)
                  (\<lambda>s n b. FillOctetStringStk fuel g len0 s n b)
              else if tag = univ_cons_tag OCTETSTRING_TAG_CODE then
                dbind (FillOctetStringStk fuel g len1 s 0 b)
                  (\<lambda>s i b. FillOctetStringStk fuel g len0 s (of_nat (m + d) + i) b)
              else Jmp (-19))"
    and P: "P = (if tag = univ_tag OCTETSTRING_TAG_CODE then
        (if length (drop d xs) < unat len1 then Inl (-18)
         else case parse_parts len0 (m + d + unat len1) (drop (unat len1) (drop d xs)) of
           Inl e \<Rightarrow> Inl e
         | Inr (bs, i) \<Rightarrow> Inr (take (unat len1) (drop d xs) @ bs, d + unat len1 + i))
      else if tag = univ_cons_tag OCTETSTRING_TAG_CODE then
        (case parse_parts len1 0 (drop d xs) of
           Inl e \<Rightarrow> Inl e
         | Inr (bs, l) \<Rightarrow>
             (case parse_parts len0 (m + d + l) (drop l (drop d xs)) of
                Inl e \<Rightarrow> Inl e
              | Inr (cs, i) \<Rightarrow> Inr (bs @ cs, d + l + i)))
      else Inl (-19))"
  shows "parts_ok D s m xs P"
proof (cases "tag = univ_tag OCTETSTRING_TAG_CODE")
  case True
  note sg = segLoop_ok [OF b, of len1 "Suc (unat len1)" 0 len1 "-18" s "of_nat (m + d)"]
  show ?thesis
  proof (cases "unat len1 \<le> length (drop d xs)")
    case le: True
    from sg le obtain s1 b1 where 1:
      "segLoop (Suc (unat len1)) g (-18) len1 len1 0 s (of_nat (m + d)) b = Ret s1 (of_nat (m + d) + len1) b1"
      "pushed s s1 (take (unat len1) (drop d xs))" "readable g rem ok b1 (drop (unat len1) (drop d xs))"
      by auto
    have n: "of_nat (m + d) + len1 = (of_nat (m + (d + unat len1)) :: 32 word)" by simp
    have "parts_ok (FillOctetStringStk fuel g len0 s1 (of_nat (m + (d + unat len1))) b1) s1
        (m + (d + unat len1)) (drop (d + unat len1) xs) (parse_parts len0 (m + (d + unat len1)) (drop (d + unat len1) xs))"
      using 1(3) d f by (intro IH) (auto simp: add.commute)
    from parts_ok_prepend [OF this _ 1(2)] show ?thesis
      using True le d 1 unfolding D P n by (simp add: n add.assoc add.commute [of "unat len1"])
  next
    case False
    then show ?thesis using True sg by (simp add: D P parts_ok_def)
  qed
next
  case no_prim: False
  show ?thesis
  proof (cases "tag = univ_cons_tag OCTETSTRING_TAG_CODE")
    case True
    let ?R = "FillOctetStringStk fuel g len1 s 0 b"
    have i: "parts_ok ?R s 0 (drop d xs) (parse_parts len1 0 (drop d xs))"
      using IH [of b "drop d xs" len1 s 0] b d f by simp
    show ?thesis
    proof (cases "parse_parts len1 0 (drop d xs)")
      case (Inl e)
      then show ?thesis using no_prim True i by (simp add: D P parts_ok_def)
    next
      case (Inr r)
      obtain bs l where r: "r = (bs, l)" by (cases r)
      from i Inr r obtain s1 b1 where 1: "?R = Ret s1 (of_nat l) b1" "l \<le> length xs - d"
        "pushed s s1 bs" "readable g rem ok b1 (drop l (drop d xs))"
        by (auto simp: parts_ok_def)
      have n: "of_nat (m + d) + of_nat l = (of_nat (m + (d + l)) :: 32 word)" by simp
      have "parts_ok (FillOctetStringStk fuel g len0 s1 (of_nat (m + (d + l))) b1) s1
          (m + (d + l)) (drop (d + l) xs) (parse_parts len0 (m + (d + l)) (drop (d + l) xs))"
        using 1(4) d f by (intro IH) (auto simp: add.commute)
      from parts_ok_prepend [OF this _ 1(3)] show ?thesis
        using no_prim True d 1 Inr r unfolding D P
        by (simp add: n add.assoc add.commute [of l] del: of_nat_add)
    qed
  next
    case False
    then show ?thesis using no_prim by (simp add: D P parts_ok_def)
  qed
qed

lemma FillOctetStringStk_ok:
  assumes "readable g rem ok b xs" "length xs < fuel"
  shows "parts_ok (FillOctetStringStk fuel g len0 s (of_nat m) b) s m xs (parse_parts len0 m xs)"
  using assms
proof (induction fuel arbitrary: len0 m xs s b)
  case (Suc fuel)
  show ?case
  proof (cases "of_nat m < len0 \<or> len0 = INDEFINITE_LEN")
    case False
    then show ?thesis using Suc.prems by (simp add: parse_parts_stop parts_ok_def)
  next
    case go: True
    show ?thesis
    proof (rule outcomeE [OF outcome_BDecTag [OF Suc.prems(1), of "of_nat m"]])
      fix e assume "parse_tag xs = Inl e" "BDecTag g b (of_nat m) = Jmp e"
      then show ?thesis using go by (simp add: parse_parts_tag_err parts_ok_def)
    next
      fix tag k b1
      assume t: "parse_tag xs = Inr (tag, k)" "BDecTag g b (of_nat m) = Ret tag (of_nat m + of_nat k) b1"
        "k \<le> length xs" "readable g rem ok b1 (drop k xs)"
      have k: "0 < k" using parse_tag_pos [OF t(1)] by simp
      show ?thesis
      proof (cases "tag = EOC_TAG_ID \<and> len0 = INDEFINITE_LEN")
        case True
        then show ?thesis
          using t BDEC_2ND_EOC_OCTET_ok [OF t(4), of "of_nat m + of_nat k"] parse_parts_eoc [of xs k m]
          by (auto simp: parts_ok_def drop_Suc tl_drop ac_simps split: if_splits)
      next
        case noeoc: False
        show ?thesis
        proof (rule outcomeE [OF outcome_BDecLen [OF t(4), of "of_nat m + of_nat k"]])
          fix e assume "parse_len (drop k xs) = Inl e" "BDecLen g b1 (of_nat m + of_nat k) = Jmp e"
          then show ?thesis
            using go noeoc t parse_parts_len_err [OF go t(1) noeoc] by (auto simp: parts_ok_def)
        next
          fix len1 j b2
          assume l: "parse_len (drop k xs) = Inr (len1, j)"
            "BDecLen g b1 (of_nat m + of_nat k) = Ret len1 (of_nat m + of_nat k + of_nat j) b2"
            "j \<le> length (drop k xs)" "readable g rem ok b2 (drop j (drop k xs))"
          have d: "readable g rem ok b2 (drop (k + j) xs)" "0 < k + j" "k + j \<le> length xs"
            using l k t by (auto simp: add.commute)
          have n: "of_nat m + of_nat k + of_nat j = (of_nat (m + (k + j)) :: 32 word)" by simp
          have z: "drop (k + j) xs = drop j (drop k xs)" by (simp add: add.commute)
          have a: "m + k + j = m + (k + j)" by simp
          note P = parse_parts_piece [OF go t(1) noeoc l(1) z refl, unfolded a]
          show ?thesis
          proof (rule parts_ok_piece [OF Suc.IH d Suc.prems(2) _ P])
            show "FillOctetStringStk (Suc fuel) g len0 s (of_nat m) b =
              (if tag = univ_tag OCTETSTRING_TAG_CODE then
                dbind (segLoop (Suc (unat len1)) g (-18) len1 len1 0 s (of_nat (m + (k + j))) b2)
                  (\<lambda>s n b. FillOctetStringStk fuel g len0 s n b)
              else if tag = univ_cons_tag OCTETSTRING_TAG_CODE then
                dbind (FillOctetStringStk fuel g len1 s 0 b2)
                  (\<lambda>s i b. FillOctetStringStk fuel g len0 s (of_nat (m + (k + j)) + i) b)
              else Jmp (-19))"
              using go noeoc t(2) l(2) by (simp only: FillOctetStringStk.simps dbind.simps n) auto
          qed
        qed
      qed
    qed
  qed
qed simp

end

definition parse_octs_content :: "(nat \<Rightarrow> bool) \<Rightarrow> AsnTag \<Rightarrow> AsnLen \<Rightarrow> AsnOcts parser" where
  "parse_octs_content alloc tag len xs =
     (if TAG_IS_CONS tag then
        (case parse_parts len 0 xs of
           Inl e \<Rightarrow> Inl e
         | Inr (bs, i) \<Rightarrow>
             (let l = unat (of_nat (length bs) :: 32 word) in
              if alloc (l + 1) then Inr (\<lparr>octetLen = l, octs = bs @ [0]\<rparr>, i) else Inl (-27)))
      else if len = INDEFINITE_LEN then Inl (-67)
      else if \<not> alloc (unat len + 1) then Inl (-27)
      else if length xs < unat len \<or> 2 ^ 31 \<le> unat len then Inl (-20)
      else Inr (\<lparr>octetLen = unat len, octs = take (unat len) xs @ [0]\<rparr>, unat len))"

definition octs_tags :: "AsnTag list" where
  "octs_tags = [univ_tag OCTETSTRING_TAG_CODE, univ_cons_tag OCTETSTRING_TAG_CODE]"

definition parse_octs :: "(nat \<Rightarrow> bool) \<Rightarrow> AsnOcts parser" where
  "parse_octs alloc = pbind (parse_head (-40) octs_tags) (\<lambda>(tag, len). parse_octs_content alloc tag len)"

context fwd_buffer
begin

lemma outcome_octs_content:
  assumes "readable g rem ok b xs" "length xs < fuel"
  shows "outcome g rem ok (BDecAsnOctsContent fuel alloc g tag len n b) n xs
    (parse_octs_content alloc tag len xs)"
proof (cases "TAG_IS_CONS tag")
  case True
  let ?s = "RESET_STR_STK strStkG"
  have ok: "parts_ok (FillOctetStringStk fuel g len ?s 0 b) ?s 0 xs (parse_parts len 0 xs)"
    using FillOctetStringStk_ok [OF assms, of len ?s 0] by simp
  have s: "stk ?s = []" "totalByteLen ?s = 0" by (simp_all add: RESET_STR_STK_def strStkG_def)
  show ?thesis
  proof (cases "parse_parts len 0 xs")
    case (Inl e)
    then show ?thesis using ok True
      by (simp add: parts_ok_def BDecAsnOctsContent_def BDecConsAsnOcts_def parse_octs_content_def)
  next
    case (Inr r)
    obtain bs i where r: "r = (bs, i)" by (cases r)
    from ok Inr r obtain s' b' where
      "FillOctetStringStk fuel g len ?s 0 b = Ret s' (of_nat i) b'" "i \<le> length xs"
      "concat (stk s') = bs" "totalByteLen s' = of_nat (length bs)" "readable g rem ok b' (drop i xs)"
      by (auto simp: parts_ok_def pushed_def s)
    then show ?thesis using True Inr r
      by (simp add: BDecAsnOctsContent_def BDecConsAsnOcts_def parse_octs_content_def Let_def)
  qed
next
  case False
  note len = unat_bound32 [of len]
  show ?thesis
  proof (cases "length xs < unat len \<or> 2 ^ 31 \<le> unat len")
    case True
    then show ?thesis
      using False copy_short [OF assms(1) len]
      by (auto simp: BDecAsnOctsContent_def parse_octs_content_def split_beta)
  next
    case enough: False
    then obtain b' where "copy g b (unat len) = (take (unat len) xs, b')"
      "readable g rem ok b' (drop (unat len) xs)"
      using copyE [OF assms(1), of "unat len"] by auto
    with False enough show ?thesis
      by (simp add: BDecAsnOctsContent_def parse_octs_content_def)
  qed
qed

lemma outcome_BDecAsnOcts:
  assumes "readable g rem ok b xs" "length xs < fuel"
  shows "outcome g rem ok (BDecAsnOcts fuel alloc g b n) n xs (parse_octs alloc xs)"
  unfolding BDecAsnOcts_def parse_octs_def octs_tags_def
  by (rule outcome_univ [OF assms(1)]) (use assms(2) in \<open>simp add: outcome_octs_content\<close>)

end

context rvs_buffer
begin

lemma BEncAsnOcts_tlv:
  assumes "octetLen x < 2 ^ 31" "octetLen x \<le> length (octs x)"
  shows "emits g data ok room b (snd (BEncAsnOcts g b x)) (tlv OCTETSTRING_TAG_CODE (take (octetLen x) (octs x))) \<and>
    fst (BEncAsnOcts g b x) = of_nat (length (tlv OCTETSTRING_TAG_CODE (take (octetLen x) (octs x))))"
  unfolding BEncAsnOcts_def
  by (rule BEncUniv_tlv) (use assms in \<open>auto simp: BEncAsnOctsContent_def intro: put_seg\<close>)

end

subsection \<open>Round trips\<close>

lemma octs_tag_form:
  "\<not> TAG_IS_CONS (univ_tag OCTETSTRING_TAG_CODE)" "TAG_IS_CONS (univ_cons_tag OCTETSTRING_TAG_CODE)"
  "univ_tag OCTETSTRING_TAG_CODE \<noteq> EOC_TAG_ID" "univ_cons_tag OCTETSTRING_TAG_CODE \<noteq> EOC_TAG_ID"
  by (simp_all add: TAG_IS_CONS_def univ_tag_def univ_cons_tag_def MAKE_TAG_ID_def MAKE_TAG_ID_CODE_def
      MAKE_TAG_ID_CODE1_def OCTETSTRING_TAG_CODE_def EOC_TAG_ID_def)

lemma of_nat_not_INDEFINITE:
  assumes "n < 2 ^ 31"
  shows "(of_nat n :: 32 word) \<noteq> INDEFINITE_LEN"
proof
  assume "(of_nat n :: 32 word) = INDEFINITE_LEN"
  then have "unat (of_nat n :: 32 word) = unat INDEFINITE_LEN" by simp
  moreover have "unat INDEFINITE_LEN = 2 ^ 32 - 1"
    by (simp add: INDEFINITE_LEN_def unsigned_minus_1_eq_mask mask_eq_exp_minus_1)
  moreover have "unat (of_nat n :: 32 word) = n" using assms by (simp add: unat_of_nat)
  ultimately show False using assms by simp
qed

lemma parse_octs_tlv:
  assumes "length bs < 2 ^ 31" "alloc (length bs + 1)"
  shows "parse_octs alloc (tlv OCTETSTRING_TAG_CODE bs @ ys) =
    Inr (\<lparr>octetLen = length bs, octs = bs @ [0]\<rparr>, length (tlv OCTETSTRING_TAG_CODE bs))"
  unfolding parse_octs_def
proof (rule parse_univ_tlv)
  have u: "unat (of_nat (length bs) :: 32 word) = length bs"
    using assms(1) by (simp add: unat_of_nat)
  have "(of_nat (length bs) :: 32 word) \<noteq> INDEFINITE_LEN"
    using assms(1) by (rule of_nat_not_INDEFINITE)
  then show "(case (univ_tag OCTETSTRING_TAG_CODE, of_nat (length bs)) of (tag, len) \<Rightarrow>
      parse_octs_content alloc tag len) (bs @ ys) =
    Inr (\<lparr>octetLen = length bs, octs = bs @ [0]\<rparr>, length bs)"
    using assms u octs_tag_form by (simp add: parse_octs_content_def)
qed (simp_all add: octs_tags_def OCTETSTRING_TAG_CODE_def)

text \<open>A constructed string of indefinite length is the concatenation of its pieces.\<close>

lemma parse_parts_pieces:
  assumes "\<forall>p \<in> set ps. length p < 2 ^ 31"
  shows "parse_parts INDEFINITE_LEN m (concat (map (tlv OCTETSTRING_TAG_CODE) ps) @ 0 # 0 # ys) =
    Inr (concat ps, length (concat (map (tlv OCTETSTRING_TAG_CODE) ps)) + 2)"
  using assms
proof (induction ps arbitrary: m)
  case Nil
  have "parse_tag (0 # 0 # ys) = Inr (EOC_TAG_ID, 1)"
    by (simp add: tag_val_def EOC_TAG_ID_def)
  then show ?case by (simp add: parse_parts_eoc)
next
  case (Cons p ps)
  let ?rest = "concat (map (tlv OCTETSTRING_TAG_CODE) ps) @ 0 # 0 # ys"
  let ?l = "def_len_bytes (of_nat (length p))"
  let ?xs = "tlv OCTETSTRING_TAG_CODE p @ ?rest"
  have u: "unat (of_nat (length p) :: 32 word) = length p"
    using Cons.prems by (simp add: unat_of_nat)
  have t: "parse_tag ?xs = Inr (univ_tag OCTETSTRING_TAG_CODE, 1)"
    unfolding tlv_def append_Cons by (rule parse_tag_univ) (simp add: OCTETSTRING_TAG_CODE_def)
  have l: "parse_len (drop 1 ?xs) = Inr (of_nat (length p), length ?l)"
    using parse_def_len_bytes [of "of_nat (length p)" "p @ ?rest"] by (simp add: tlv_def)
  have d: "p @ ?rest = drop (length ?l) (drop 1 ?xs)" by (simp add: tlv_def)
  note P = parse_parts_piece [OF disjI2 [OF refl] t _ l d u [symmetric], of m]
  show ?case
    using Cons P octs_tag_form by (simp add: length_tlv)
qed

end
