(* ===== verification/Asn_Strings.thy ===== *)
theory Asn_Strings
  imports Asn_Octs
begin

section \<open>The restricted character strings (\<open>c-lib/src/asn-*String.c\<close>)\<close>

text \<open>
  IA5String, NumericString, PrintableString, VisibleString, TeletexString, BMPString and
  UniversalString are octet strings with a tag of their own and a check of their octets.
  \<open>chk\<dots>\<close> are the checks, \<open>True\<close> for a string that passes (the code's 0).

  An encoder that finds a bad string calls \<open>GenBufSetWriteError (b, TRUE)\<close> and goes on.
  The macro hands the \<open>GenBuf\<close> itself, not its \<open>bufInfo\<close>, to
  \<open>ExpBufSetWriteError\<close>, which stores into it as if it were an \<open>ExpBuf\<close>: with 8-byte
  pointers the store falls into the upper half of the field \<open>peekCopy\<close>, which no codec
  calls.  The buffer is not reached, which is what \<open>GenBufSetWriteError\<close> says.
\<close>

definition GenBufSetWriteError :: "('b, 'z) GenBuf_scheme \<Rightarrow> 'b \<Rightarrow> bool \<Rightarrow> 'b" where
  "GenBufSetWriteError g b v = b"

subsection \<open>The checks\<close>

definition str_octets :: "AsnOcts \<Rightarrow> byte list" where
  "str_octets x = take (octetLen x) (octs x)"

definition checkIA5String :: "AsnOcts \<Rightarrow> bool" where
  "checkIA5String x = list_all (\<lambda>c. \<not> c > 0x7F) (str_octets x)"

text \<open>\<open>char\<close> is signed: the comparisons are those of \<open>sint\<close>.\<close>

definition chkNumericString :: "AsnOcts \<Rightarrow> bool" where
  "chkNumericString x = list_all (\<lambda>c. \<not> (sint c \<noteq> 32 \<and> (sint c < 48 \<or> sint c > 57))) (str_octets x)"

definition printable_char :: "byte \<Rightarrow> bool" where
  "printable_char temp =
     (let t = sint temp in
      if t < 65 \<or> t > 90 then
        if t < 97 \<or> t > 122 then
          if t < 48 \<or> t > 57 then t \<in> {32, 39, 40, 41, 43, 44, 45, 46, 47, 58, 61, 63}
          else True
        else True
      else True)"

definition chkPrintableString :: "AsnOcts \<Rightarrow> bool" where
  "chkPrintableString x = list_all printable_char (str_octets x)"

definition chkVisibleString :: "AsnOcts \<Rightarrow> bool" where
  "chkVisibleString x = list_all (\<lambda>temp. \<not> (scast temp :: 32 word) > 128) (str_octets x)"

subsection \<open>Content\<close>

definition checkedEnc ::
  "('b, 'z) GenBuf_scheme \<Rightarrow> (AsnOcts \<Rightarrow> bool) \<Rightarrow> 'b \<Rightarrow> AsnOcts \<Rightarrow> AsnLen \<times> 'b" where
  "checkedEnc g chk b x =
     (let b = (if \<not> chk x then GenBufSetWriteError g b True else b) in BEncAsnOctsContent g b x)"

definition checkedDec ::
  "(AsnOcts \<Rightarrow> bool) \<Rightarrow> ('b, AsnOcts) dres \<Rightarrow> ('b, AsnOcts) dres" where
  "checkedDec chk r = dbind r (\<lambda>x n b. if \<not> chk x then Jmp (-40) else Ret x n b)"

definition BEncIA5StringContent :: "('b, 'z) GenBuf_scheme \<Rightarrow> 'b \<Rightarrow> AsnOcts \<Rightarrow> AsnLen \<times> 'b" where
  "BEncIA5StringContent g = checkedEnc g checkIA5String"

definition BEncNumericStringContent :: "('b, 'z) GenBuf_scheme \<Rightarrow> 'b \<Rightarrow> AsnOcts \<Rightarrow> AsnLen \<times> 'b" where
  "BEncNumericStringContent g = checkedEnc g chkNumericString"

definition BEncPrintableStringContent :: "('b, 'z) GenBuf_scheme \<Rightarrow> 'b \<Rightarrow> AsnOcts \<Rightarrow> AsnLen \<times> 'b" where
  "BEncPrintableStringContent g = checkedEnc g chkPrintableString"

definition BEncVisibleStringContent :: "('b, 'z) GenBuf_scheme \<Rightarrow> 'b \<Rightarrow> AsnOcts \<Rightarrow> AsnLen \<times> 'b" where
  "BEncVisibleStringContent g = checkedEnc g chkVisibleString"

definition BEncBMPStringContent :: "('b, 'z) GenBuf_scheme \<Rightarrow> 'b \<Rightarrow> AsnOcts \<Rightarrow> AsnLen \<times> 'b" where
  "BEncBMPStringContent g = checkedEnc g (\<lambda>x. octetLen x mod 2 = 0)"

definition BEncUniversalStringContent :: "('b, 'z) GenBuf_scheme \<Rightarrow> 'b \<Rightarrow> AsnOcts \<Rightarrow> AsnLen \<times> 'b" where
  "BEncUniversalStringContent g = checkedEnc g (\<lambda>x. octetLen x mod 4 = 0)"

definition BEncTeletexStringContent :: "('b, 'z) GenBuf_scheme \<Rightarrow> 'b \<Rightarrow> AsnOcts \<Rightarrow> AsnLen \<times> 'b" where
  "BEncTeletexStringContent g = BEncAsnOctsContent g"

text \<open>The type of the content decoders.\<close>

type_synonym ('b, 'z) decContent =
  "nat \<Rightarrow> (nat \<Rightarrow> bool) \<Rightarrow> ('b, 'z) GenBuf_scheme \<Rightarrow> AsnTag \<Rightarrow> AsnLen \<Rightarrow> AsnLen \<Rightarrow> 'b \<Rightarrow> ('b, AsnOcts) dres"

definition BDecIA5StringContent :: "('b, 'z) decContent" where
  "BDecIA5StringContent fuel alloc g tagId len n b =
     checkedDec checkIA5String (BDecAsnOctsContent fuel alloc g tagId len n b)"

definition BDecNumericStringContent :: "('b, 'z) decContent" where
  "BDecNumericStringContent fuel alloc g tagId len n b =
     checkedDec chkNumericString (BDecAsnOctsContent fuel alloc g tagId len n b)"

definition BDecPrintableStringContent :: "('b, 'z) decContent" where
  "BDecPrintableStringContent fuel alloc g tagId len n b =
     checkedDec chkPrintableString (BDecAsnOctsContent fuel alloc g tagId len n b)"

definition BDecVisibleStringContent :: "('b, 'z) decContent" where
  "BDecVisibleStringContent fuel alloc g tagId len n b =
     checkedDec chkVisibleString (BDecAsnOctsContent fuel alloc g tagId len n b)"

definition BDecBMPStringContent :: "('b, 'z) decContent" where
  "BDecBMPStringContent fuel alloc g tagId len n b =
     checkedDec (\<lambda>x. octetLen x mod 2 = 0) (BDecAsnOctsContent fuel alloc g tagId len n b)"

definition BDecUniversalStringContent :: "('b, 'z) decContent" where
  "BDecUniversalStringContent fuel alloc g tagId len n b =
     checkedDec (\<lambda>x. octetLen x mod 4 = 0) (BDecAsnOctsContent fuel alloc g tagId len n b)"

definition BDecTeletexStringContent :: "('b, 'z) decContent" where
  "BDecTeletexStringContent fuel alloc g tagId len n b = BDecAsnOctsContent fuel alloc g tagId len n b"

subsection \<open>Whole elements\<close>

type_synonym ('b, 'z) strDec =
  "nat \<Rightarrow> (nat \<Rightarrow> bool) \<Rightarrow> ('b, 'z) GenBuf_scheme \<Rightarrow> 'b \<Rightarrow> AsnLen \<Rightarrow> ('b, AsnOcts) dres"

definition BDecString :: "('b, 'z) decContent \<Rightarrow> int \<Rightarrow> 32 word \<Rightarrow> ('b, 'z) strDec" where
  "BDecString content err code fuel alloc g b n =
     dbind (BDecUniv g err [univ_tag code, univ_cons_tag code] b n)
       (\<lambda>(tag, elmtLen1). content fuel alloc g tag elmtLen1)"

definition BEncIA5String :: "('b, 'z) GenBuf_scheme \<Rightarrow> 'b \<Rightarrow> AsnOcts \<Rightarrow> AsnLen \<times> 'b" where
  "BEncIA5String g b v = BEncUniv g IA5STRING_TAG_CODE (BEncIA5StringContent g b v)"

definition BDecIA5String :: "('b, 'z) strDec" where
  "BDecIA5String = BDecString BDecIA5StringContent (-105) IA5STRING_TAG_CODE"

definition BEncNumericString :: "('b, 'z) GenBuf_scheme \<Rightarrow> 'b \<Rightarrow> AsnOcts \<Rightarrow> AsnLen \<times> 'b" where
  "BEncNumericString g b v = BEncUniv g NUMERICSTRING_TAG_CODE (BEncNumericStringContent g b v)"

definition BDecNumericString :: "('b, 'z) strDec" where
  "BDecNumericString = BDecString BDecNumericStringContent (-100) NUMERICSTRING_TAG_CODE"

definition BEncPrintableString :: "('b, 'z) GenBuf_scheme \<Rightarrow> 'b \<Rightarrow> AsnOcts \<Rightarrow> AsnLen \<times> 'b" where
  "BEncPrintableString g b v = BEncUniv g PRINTABLESTRING_TAG_CODE (BEncPrintableStringContent g b v)"

definition BDecPrintableString :: "('b, 'z) strDec" where
  "BDecPrintableString = BDecString BDecPrintableStringContent (-101) PRINTABLESTRING_TAG_CODE"

definition BEncVisibleString :: "('b, 'z) GenBuf_scheme \<Rightarrow> 'b \<Rightarrow> AsnOcts \<Rightarrow> AsnLen \<times> 'b" where
  "BEncVisibleString g b v = BEncUniv g VISIBLESTRING_TAG_CODE (BEncVisibleStringContent g b v)"

definition BDecVisibleString :: "('b, 'z) strDec" where
  "BDecVisibleString = BDecString BDecVisibleStringContent (-101) VISIBLESTRING_TAG_CODE"

definition BEncTeletexString :: "('b, 'z) GenBuf_scheme \<Rightarrow> 'b \<Rightarrow> AsnOcts \<Rightarrow> AsnLen \<times> 'b" where
  "BEncTeletexString g b v = BEncUniv g TELETEXSTRING_TAG_CODE (BEncTeletexStringContent g b v)"

definition BDecTeletexString :: "('b, 'z) strDec" where
  "BDecTeletexString = BDecString BDecTeletexStringContent (-102) TELETEXSTRING_TAG_CODE"

definition BEncBMPString :: "('b, 'z) GenBuf_scheme \<Rightarrow> 'b \<Rightarrow> AsnOcts \<Rightarrow> AsnLen \<times> 'b" where
  "BEncBMPString g b v = BEncUniv g BMPSTRING_TAG_CODE (BEncBMPStringContent g b v)"

definition BDecBMPString :: "('b, 'z) strDec" where
  "BDecBMPString = BDecString BDecBMPStringContent (-113) BMPSTRING_TAG_CODE"

definition BEncUniversalString :: "('b, 'z) GenBuf_scheme \<Rightarrow> 'b \<Rightarrow> AsnOcts \<Rightarrow> AsnLen \<times> 'b" where
  "BEncUniversalString g b v = BEncUniv g UNIVERSALSTRING_TAG_CODE (BEncUniversalStringContent g b v)"

definition BDecUniversalString :: "('b, 'z) strDec" where
  "BDecUniversalString = BDecString BDecUniversalStringContent (-112) UNIVERSALSTRING_TAG_CODE"

subsection \<open>What the string types share\<close>

definition parse_string :: "(AsnOcts \<Rightarrow> bool) \<Rightarrow> int \<Rightarrow> 32 word \<Rightarrow> (nat \<Rightarrow> bool) \<Rightarrow> AsnOcts parser" where
  "parse_string chk err code alloc =
     pbind (parse_head err [univ_tag code, univ_cons_tag code])
       (\<lambda>(tag, len) xs. case parse_octs_content alloc tag len xs of
          Inl e \<Rightarrow> Inl e
        | Inr (x, k) \<Rightarrow> if chk x then Inr (x, k) else Inl (-40))"

lemma outcome_checkedDec:
  assumes "outcome g rem ok r n xs p"
  shows "outcome g rem ok (checkedDec chk r) n xs
    (case p of Inl e \<Rightarrow> Inl e | Inr (x, k) \<Rightarrow> if chk x then Inr (x, k) else Inl (-40))"
  using assms by (rule outcomeE) (auto simp: checkedDec_def)

text \<open>
  A string type: its content encoder and decoder are those of the octet strings with one check.
  The locale is what the element codecs below and those of the time types rest on.
\<close>

locale string_codec =
  fixes encC :: "('b, 'z) GenBuf_scheme \<Rightarrow> 'b \<Rightarrow> AsnOcts \<Rightarrow> AsnLen \<times> 'b"
    and decC :: "('b, 'z) decContent"
    and chk :: "AsnOcts \<Rightarrow> bool"
    and err :: int
    and code :: "32 word"
  assumes enc: "encC g b x = BEncAsnOctsContent g b x"
    and dec: "decC fuel alloc g tag len n b = checkedDec chk (BDecAsnOctsContent fuel alloc g tag len n b)"
    and code: "code < 31" "\<not> TAG_IS_CONS (univ_tag code)"
begin

lemma encode:
  assumes "rvs_buffer g data ok room" "octetLen x < 2 ^ 31" "octetLen x \<le> length (octs x)"
  shows "emits g data ok room b (snd (BEncUniv g code (encC g b x))) (tlv code (str_octets x)) \<and>
    fst (BEncUniv g code (encC g b x)) = of_nat (length (tlv code (str_octets x)))"
  unfolding enc
  by (rule rvs_buffer.BEncUniv_tlv [OF assms(1)])
    (use assms in \<open>auto simp: BEncAsnOctsContent_def str_octets_def intro: rvs_buffer.put_seg\<close>)

lemma decode:
  assumes "fwd_buffer g rem ok" "readable g rem ok b xs" "length xs < fuel"
  shows "outcome g rem ok (BDecString decC err code fuel alloc g b n) n xs (parse_string chk err code alloc xs)"
  unfolding BDecString_def parse_string_def
proof (rule fwd_buffer.outcome_univ [OF assms(1,2)])
  fix tag len k b'
  assume r: "readable g rem ok b' (drop k xs)"
  show "outcome g rem ok (decC fuel alloc g tag len (n + of_nat k) b') (n + of_nat k) (drop k xs)
      ((case (tag, len) of (tag, len) \<Rightarrow> \<lambda>xs. case parse_octs_content alloc tag len xs of
          Inl e \<Rightarrow> Inl e
        | Inr (x, k) \<Rightarrow> if chk x then Inr (x, k) else Inl (-40)) (drop k xs))"
    unfolding dec prod.case
    by (rule outcome_checkedDec, rule fwd_buffer.outcome_octs_content [OF assms(1) r]) (use assms(3) in simp)
qed

lemma parse_tlv:
  assumes "length bs < 2 ^ 31" "alloc (length bs + 1)" "chk \<lparr>octetLen = length bs, octs = bs @ [0]\<rparr>"
  shows "parse_string chk err code alloc (tlv code bs @ ys) =
    Inr (\<lparr>octetLen = length bs, octs = bs @ [0]\<rparr>, length (tlv code bs))"
  unfolding parse_string_def
proof (rule parse_univ_tlv)
  have u: "unat (of_nat (length bs) :: 32 word) = length bs"
    using assms(1) by (simp add: unat_of_nat)
  then show "(case (univ_tag code, of_nat (length bs)) of (tag, len) \<Rightarrow> \<lambda>xs.
      case parse_octs_content alloc tag len xs of
        Inl e \<Rightarrow> Inl e
      | Inr (x, k) \<Rightarrow> if chk x then Inr (x, k) else Inl (-40)) (bs @ ys) =
    Inr (\<lparr>octetLen = length bs, octs = bs @ [0]\<rparr>, length bs)"
    using assms of_nat_not_INDEFINITE [OF assms(1)] code(2) by (simp add: parse_octs_content_def)
qed (use code in simp_all)

text \<open>The decoder gives only strings that pass the check.\<close>

lemma decoded_ok:
  assumes "BDecString decC err code fuel alloc g b n = Ret x m b'"
  shows "chk x"
  using assms unfolding BDecString_def dec checkedDec_def
  by (auto simp: dbind_eq_Ret split: if_splits)

end

lemma string_tag_form:
  "\<not> TAG_IS_CONS (univ_tag IA5STRING_TAG_CODE)" "\<not> TAG_IS_CONS (univ_tag NUMERICSTRING_TAG_CODE)"
  "\<not> TAG_IS_CONS (univ_tag PRINTABLESTRING_TAG_CODE)" "\<not> TAG_IS_CONS (univ_tag VISIBLESTRING_TAG_CODE)"
  "\<not> TAG_IS_CONS (univ_tag TELETEXSTRING_TAG_CODE)" "\<not> TAG_IS_CONS (univ_tag BMPSTRING_TAG_CODE)"
  "\<not> TAG_IS_CONS (univ_tag UNIVERSALSTRING_TAG_CODE)" "\<not> TAG_IS_CONS (univ_tag UTF8STRING_TAG_CODE)"
  "\<not> TAG_IS_CONS (univ_tag VIDEOTEXSTRING_TAG_CODE)" "\<not> TAG_IS_CONS (univ_tag GRAPHICSTRING_TAG_CODE)"
  "\<not> TAG_IS_CONS (univ_tag GENERALSTRING_TAG_CODE)" "\<not> TAG_IS_CONS (univ_tag UTCTIME_TAG_CODE)"
  "\<not> TAG_IS_CONS (univ_tag GENERALIZEDTIME_TAG_CODE)"
  by (simp_all add: TAG_IS_CONS_def univ_tag_def MAKE_TAG_ID_def MAKE_TAG_ID_CODE_def
      MAKE_TAG_ID_CODE1_def tag_code_defs)

lemma string_code_small:
  "IA5STRING_TAG_CODE < 31" "NUMERICSTRING_TAG_CODE < 31" "PRINTABLESTRING_TAG_CODE < 31"
  "VISIBLESTRING_TAG_CODE < 31" "TELETEXSTRING_TAG_CODE < 31" "BMPSTRING_TAG_CODE < 31"
  "UNIVERSALSTRING_TAG_CODE < 31" "UTF8STRING_TAG_CODE < 31" "VIDEOTEXSTRING_TAG_CODE < 31"
  "GRAPHICSTRING_TAG_CODE < 31" "GENERALSTRING_TAG_CODE < 31" "UTCTIME_TAG_CODE < 31"
  "GENERALIZEDTIME_TAG_CODE < 31"
  by (simp_all add: tag_code_defs)

lemma checkedDec_True [simp]: "checkedDec (\<lambda>x. True) r = r"
  by (cases r) (simp_all add: checkedDec_def)

lemmas string_codec_laws = checkedEnc_def GenBufSetWriteError_def string_tag_form string_code_small

interpretation ia5: string_codec BEncIA5StringContent BDecIA5StringContent checkIA5String
    "-105" IA5STRING_TAG_CODE
  by unfold_locales (simp_all add: string_codec_laws BEncIA5StringContent_def BDecIA5StringContent_def)

interpretation numeric: string_codec BEncNumericStringContent BDecNumericStringContent chkNumericString
    "-100" NUMERICSTRING_TAG_CODE
  by unfold_locales (simp_all add: string_codec_laws BEncNumericStringContent_def BDecNumericStringContent_def)

interpretation printable: string_codec BEncPrintableStringContent BDecPrintableStringContent
    chkPrintableString "-101" PRINTABLESTRING_TAG_CODE
  by unfold_locales (simp_all add: string_codec_laws BEncPrintableStringContent_def BDecPrintableStringContent_def)

interpretation visible: string_codec BEncVisibleStringContent BDecVisibleStringContent chkVisibleString
    "-101" VISIBLESTRING_TAG_CODE
  by unfold_locales (simp_all add: string_codec_laws BEncVisibleStringContent_def BDecVisibleStringContent_def)

interpretation teletex: string_codec BEncTeletexStringContent BDecTeletexStringContent "\<lambda>x. True"
    "-102" TELETEXSTRING_TAG_CODE
  by unfold_locales (simp_all add: string_codec_laws BEncTeletexStringContent_def BDecTeletexStringContent_def)

interpretation bmp: string_codec BEncBMPStringContent BDecBMPStringContent "\<lambda>x. octetLen x mod 2 = 0"
    "-113" BMPSTRING_TAG_CODE
  by unfold_locales (simp_all add: string_codec_laws BEncBMPStringContent_def BDecBMPStringContent_def)

interpretation universal: string_codec BEncUniversalStringContent BDecUniversalStringContent
    "\<lambda>x. octetLen x mod 4 = 0" "-112" UNIVERSALSTRING_TAG_CODE
  by unfold_locales (simp_all add: string_codec_laws BEncUniversalStringContent_def BDecUniversalStringContent_def)

subsection \<open>Conversion to wide characters\<close>

text \<open>
  \<open>'w\<close> is the width of \<open>wchar_t\<close>.  The octets are \<open>char\<close>s, which are signed: they
  are promoted to \<open>int\<close> with their sign.  The result is an error code or the characters
  before the terminating 0; \<open>None\<close> as argument is \<open>NULL\<close>, as result a read outside the
  block.  \<open>alloc n\<close>: \<open>calloc\<close> of \<open>n\<close> characters succeeds.
\<close>

fun bmpChars :: "byte list \<Rightarrow> 'w::len word list" where
  "bmpChars (x # y # xs) = ucast (push_bit 8 (scast x :: 32 word) OR scast y) # bmpChars xs"
| "bmpChars _ = []"

definition CvtBMPString2wchar ::
  "(nat \<Rightarrow> bool) \<Rightarrow> AsnOcts option \<Rightarrow> (int + 'w::len word list) option" where
  "CvtBMPString2wchar alloc inOcts =
     (case inOcts of
        None \<Rightarrow> Some (Inl (-1))
      | Some o1 \<Rightarrow>
          (if octetLen o1 mod 2 \<noteq> 0 then Some (Inl (-2))
           else if \<not> alloc (octetLen o1 div 2 + 1) then Some (Inl (-1))
           else if length (octs o1) < octetLen o1 then None
           else Some (Inr (bmpChars (str_octets o1)))))"

fun universalChars :: "byte list \<Rightarrow> int + 'w::len word list" where
  "universalChars (a # b # c # d # xs) =
     (let lo = push_bit 8 (scast c :: 32 word) OR scast d;
          hi = push_bit 24 (scast a :: 32 word) OR push_bit 16 (scast b)
      in if LENGTH('w) div 8 = 2 then
           (if a \<noteq> 0 \<or> b \<noteq> 0 then Inl (-5)
            else case universalChars xs of Inl e \<Rightarrow> Inl e | Inr ws \<Rightarrow> Inr (ucast lo # ws))
         else case universalChars xs of Inl e \<Rightarrow> Inl e | Inr ws \<Rightarrow> Inr ((ucast hi OR ucast lo) # ws))"
| "universalChars _ = Inr []"

definition CvtUniversalString2wchar ::
  "(nat \<Rightarrow> bool) \<Rightarrow> AsnOcts option \<Rightarrow> (int + 'w::len word list) option" where
  "CvtUniversalString2wchar alloc inOcts =
     (case inOcts of
        None \<Rightarrow> Some (Inl (-1))
      | Some o1 \<Rightarrow>
          (if octetLen o1 mod 4 \<noteq> 0 then Some (Inl (-2))
           else if LENGTH('w) div 8 \<noteq> 2 \<and> LENGTH('w) div 8 < 4 then Some (Inl (-3))
           else if \<not> alloc (octetLen o1 div 4 + 1) then Some (Inl (-4))
           else if length (octs o1) < octetLen o1 then None
           else Some (universalChars (str_octets o1))))"

text \<open>The reading that the standard means.\<close>

fun ucs2 :: "byte list \<Rightarrow> nat list" where
  "ucs2 (x # y # xs) = (unat x * 256 + unat y) # ucs2 xs"
| "ucs2 _ = []"

lemma pair16: "unat (push_bit 8 (ucast (x :: byte)) OR ucast (y :: byte) :: 16 word) = unat x * 256 + unat y"
proof -
  have d: "push_bit 8 (ucast x) AND (ucast y :: 16 word) = 0"
    by (rule bit_word_eqI) (auto simp: bit_simps dest: bit_imp_le_length)
  have "push_bit 8 (ucast x) OR ucast y = (of_nat (unat x * 256 + unat y) :: 16 word)"
    using disjunctive_add_eq_or [OF d] by (simp add: push_bit_eq_mult)
  moreover have "unat x * 256 + unat y < 2 ^ 16" using byte_bound [of x] byte_bound [of y] by simp
  ultimately show ?thesis by (simp only: unat_of_nat) simp
qed

lemma bmp_pair:
  fixes x y :: byte
  shows "ucast (push_bit 8 (scast x :: 32 word) OR scast y) =
   (push_bit 8 (ucast (if y < 128 then x else 0xFF)) OR ucast y :: 16 word)"
proof (rule bit_word_eqI)
  fix n assume n: "n < LENGTH(16)"
  have y7: "bit y 7 \<longleftrightarrow> \<not> y < 128" using byte_bit7 [of y] by (simp add: linorder_not_less)
  have ff: "bit (0xFF :: byte) k \<longleftrightarrow> k < 8" for k
  proof -
    have "(0xFF :: byte) = mask 8" by (simp add: mask_eq_exp_minus_1)
    then show ?thesis by (simp only: bit_mask_iff) auto
  qed
  define h where "h = (if y < 128 then x else 0xFF)"
  have h: "bit h k \<longleftrightarrow> (if bit y 7 then k < 8 else bit x k)" for k
    unfolding h_def using y7 ff by simp
  consider "n < 8" | "8 \<le> n" "n < 16" using n by fastforce
  then show "bit (ucast (push_bit 8 (scast x :: 32 word) OR scast y) :: 16 word) n =
      bit (push_bit 8 (ucast (if y < 128 then x else 0xFF)) OR ucast y :: 16 word) n"
  proof cases
    case 1
    then have "min n 7 = n" by (simp add: min_def)
    with 1 show ?thesis
      by (simp add: bit_unsigned_iff bit_or_iff bit_push_bit_iff bit_signed_iff)
  next
    case 2
    then have "\<not> bit y n" "min (n - 8) 7 = n - 8" "min n 7 = 7" by (auto dest: bit_imp_le_length)
    with 2 y7 h show ?thesis unfolding h_def [symmetric]
      by (auto simp: bit_unsigned_iff bit_or_iff bit_push_bit_iff bit_signed_iff)
  qed
qed

text \<open>A character is converted right exactly if its low octet is ASCII or its high octet is 255.\<close>

lemma bmp_char:
  fixes x y :: byte
  shows "unat (ucast (push_bit 8 (scast x :: 32 word) OR scast y) :: 16 word) =
   (if y < 128 then unat x else 255) * 256 + unat y"
  unfolding bmp_pair pair16 by simp

lemma bmpChars_eq:
  "map unat (bmpChars xs :: 16 word list) = ucs2 xs \<longleftrightarrow>
    (\<forall>i. 2 * i + 1 < length xs \<longrightarrow> xs ! (2 * i + 1) < 128 \<or> xs ! (2 * i) = 255)"
proof (induction xs rule: ucs2.induct)
  case (1 x y xs)
  have x: "unat x = 255 \<longleftrightarrow> x = 255" by (simp add: word_unat_eq_iff)
  have "(\<forall>i. 2 * i + 1 < length (x # y # xs) \<longrightarrow> (x # y # xs) ! (2 * i + 1) < 128 \<or> (x # y # xs) ! (2 * i) = 255) \<longleftrightarrow>
      (y < 128 \<or> x = 255) \<and> (\<forall>i. 2 * i + 1 < length xs \<longrightarrow> xs ! (2 * i + 1) < 128 \<or> xs ! (2 * i) = 255)"
    (is "(\<forall>i. ?P i) \<longleftrightarrow> _")
  proof -
    have "(\<forall>i. ?P i) \<longleftrightarrow> ?P 0 \<and> (\<forall>i. ?P (Suc i))" by (metis not0_implies_Suc)
    then show ?thesis by simp
  qed
  then show ?case using 1 x by (auto simp: bmp_char)
qed simp_all

end
