(* ===== verification/Asn_UTF8.thy ===== *)
theory Asn_UTF8
  imports Asn_Strings
begin

section \<open>UTF8String (\<open>c-lib/src/asn-UTF8String.c\<close>)\<close>

text \<open>
  The validity check and the two conversions between UTF-8 and wide characters, over the
  table \<open>gUTF8Masks\<close>.  A C string is the list of its octets before the terminating 0.
  \<open>'w\<close> is the width of \<open>wchar_t\<close>; \<open>alloc n\<close> says that the allocation of \<open>n\<close>
  elements succeeds.  The code under \<open>OLD_CODE_\<close> is not compiled and not modelled.
\<close>

record MaskValue =
  mask_of :: byte
  value_of :: byte
  maxCharValue :: "32 word"

definition gUTF8Masks :: "MaskValue list" where
  "gUTF8Masks =
    [\<lparr>mask_of = 0x80, value_of = 0x00, maxCharValue = 0x0000007F\<rparr>,
     \<lparr>mask_of = 0xE0, value_of = 0xC0, maxCharValue = 0x000007FF\<rparr>,
     \<lparr>mask_of = 0xF0, value_of = 0xE0, maxCharValue = 0x0000FFFF\<rparr>,
     \<lparr>mask_of = 0xF8, value_of = 0xF0, maxCharValue = 0x0001FFFF\<rparr>,
     \<lparr>mask_of = 0xFC, value_of = 0xF8, maxCharValue = 0x03FFFFFF\<rparr>,
     \<lparr>mask_of = 0xFE, value_of = 0xFC, maxCharValue = 0x07FFFFFF\<rparr>]"

definition MAX_UTF8_OCTS_PER_CHAR :: nat where
  "MAX_UTF8_OCTS_PER_CHAR = 6"

text \<open>The search for the number of octets that follow the first one.\<close>

definition followers :: "byte \<Rightarrow> nat" where
  "followers x = length (takeWhile (\<lambda>m. mask_of m AND x \<noteq> value_of m) gUTF8Masks)"

function validUTF8 :: "byte list \<Rightarrow> bool" where
  "validUTF8 xs =
     (case xs of
        [] \<Rightarrow> True
      | x # ys \<Rightarrow>
          (let j = followers x in
           if j = MAX_UTF8_OCTS_PER_CHAR \<or> length xs \<le> j then False
           else if list_all (\<lambda>y. y AND 0xC0 = 0x80) (take j ys) then validUTF8 (drop j ys)
           else False))"
  by pat_completeness auto
termination by (relation "measure length") auto

declare validUTF8.simps [simp del]

definition IsValidUTF8String :: "AsnOcts \<Rightarrow> bool" where
  "IsValidUTF8String x = validUTF8 (str_octets x)"

definition BEncUTF8StringContent :: "('b, 'z) GenBuf_scheme \<Rightarrow> 'b \<Rightarrow> AsnOcts \<Rightarrow> AsnLen \<times> 'b" where
  "BEncUTF8StringContent g = checkedEnc g IsValidUTF8String"

definition BEncUTF8String :: "('b, 'z) GenBuf_scheme \<Rightarrow> 'b \<Rightarrow> AsnOcts \<Rightarrow> AsnLen \<times> 'b" where
  "BEncUTF8String g b v = BEncUniv g UTF8STRING_TAG_CODE (BEncUTF8StringContent g b v)"

definition BDecUTF8StringContent :: "('b, 'z) decContent" where
  "BDecUTF8StringContent fuel alloc g tagId len n b =
     checkedDec IsValidUTF8String (BDecAsnOctsContent fuel alloc g tagId len n b)"

definition BDecUTF8String :: "('b, 'z) strDec" where
  "BDecUTF8String = BDecString BDecUTF8StringContent (-113) UTF8STRING_TAG_CODE"

interpretation utf8: string_codec BEncUTF8StringContent BDecUTF8StringContent IsValidUTF8String
    "-113" UTF8STRING_TAG_CODE
  by unfold_locales (simp_all add: string_codec_laws BEncUTF8StringContent_def BDecUTF8StringContent_def)

subsection \<open>Conversions\<close>

text \<open>The octets after the first: \<open>(*outStr)[x] <<= 6; (*outStr)[x] |= utf8Str[i++] & 0x3F\<close>.\<close>

fun addFollowers :: "nat \<Rightarrow> 'w::len word \<Rightarrow> byte list \<Rightarrow> 'w word option" where
  "addFollowers 0 w ys = Some w"
| "addFollowers (Suc j) w [] = None"
| "addFollowers (Suc j) w (y # ys) =
     (if y AND 0xC0 \<noteq> 0x80 then None
      else addFollowers j (push_bit 6 w OR ucast (y AND 0x3F)) ys)"

function fromUTF8 :: "byte list \<Rightarrow> int + 'w::len word list" where
  "fromUTF8 xs =
     (case xs of
        [] \<Rightarrow> Inr []
      | x # ys \<Rightarrow>
          (let j = followers x in
           if j = MAX_UTF8_OCTS_PER_CHAR \<or> length xs \<le> j then Inl (-3)
           else if j > 2 \<and> LENGTH('w) div 8 < 4 then Inl (-4)
           else
             (let w = scast (NOT (mask_of (gUTF8Masks ! j)) AND x) in
              case addFollowers j w ys of
                None \<Rightarrow> Inl (-3)
              | Some w \<Rightarrow> (case fromUTF8 (drop j ys) of Inl e \<Rightarrow> Inl e | Inr ws \<Rightarrow> Inr (w # ws)))))"
  by pat_completeness auto
termination by (relation "measure length") auto

declare fromUTF8.simps [simp del]

definition CvtUTF8towchar :: "(nat \<Rightarrow> bool) \<Rightarrow> byte list option \<Rightarrow> int + 'w::len word list" where
  "CvtUTF8towchar alloc utf8Str =
     (case utf8Str of
        None \<Rightarrow> Inl (-1)
      | Some s \<Rightarrow>
          (if \<not> alloc (length s + 1) then Inl (-2)
           else case fromUTF8 s of
             Inl e \<Rightarrow> Inl e
           | Inr ws \<Rightarrow>
               (if length ws < length s \<and> \<not> alloc (length ws + 1) then Inl (-2) else Inr ws)))"

text \<open>
  \<open>CvtUTF8String2wchar\<close> takes the octets of the string for a C string: it ends at the
  first 0 of the block, wherever \<open>octetLen\<close> is; \<open>None\<close> when there is none.
\<close>

definition c_string :: "byte list \<Rightarrow> byte list option" where
  "c_string xs = (if 0 \<in> set xs then Some (takeWhile (\<lambda>x. x \<noteq> 0) xs) else None)"

definition CvtUTF8String2wchar ::
  "(nat \<Rightarrow> bool) \<Rightarrow> AsnOcts option \<Rightarrow> (int + 'w::len word list) option" where
  "CvtUTF8String2wchar alloc inOcts =
     (case inOcts of
        None \<Rightarrow> Some (Inl (-1))
      | Some o1 \<Rightarrow>
          (if octetLen o1 = 0 then Some (if alloc 1 then Inr [] else Inl (-2))
           else map_option (\<lambda>s. CvtUTF8towchar alloc (Some s)) (c_string (octs o1))))"

text \<open>
  \<open>unsgn\<close> says that \<open>wchar_t\<close> is unsigned.  A character is compared with
  \<open>maxCharValue\<close>, an \<open>unsigned long\<close>.
\<close>

fun putFollowers :: "nat \<Rightarrow> 'w::len word \<Rightarrow> byte list \<Rightarrow> 'w word \<times> byte list" where
  "putFollowers 0 w acc = (w, acc)"
| "putFollowers (Suc y) w acc = putFollowers y (drop_bit 6 w) (ucast (0x80 OR (w AND 0x3F)) # acc)"

definition wcharOctets :: "'w::len word \<Rightarrow> byte list option" where
  "wcharOctets w =
     (let j = length (takeWhile (\<lambda>m. (ucast w :: 32 word) > maxCharValue m) gUTF8Masks) in
      if j = MAX_UTF8_OCTS_PER_CHAR then None
      else let (w, ys) = putFollowers j w [] in
        Some ((value_of (gUTF8Masks ! j) OR ucast (NOT (ucast (mask_of (gUTF8Masks ! j))) AND w)) # ys))"

fun toUTF8 :: "bool \<Rightarrow> 'w::len word list \<Rightarrow> int + byte list" where
  "toUTF8 unsgn [] = Inr []"
| "toUTF8 unsgn (w # ws) =
     (if \<not> unsgn \<and> sint w < 0 then Inl (-3)
      else case wcharOctets w of
        None \<Rightarrow> Inl (-3)
      | Some bs \<Rightarrow> (case toUTF8 unsgn ws of Inl e \<Rightarrow> Inl e | Inr cs \<Rightarrow> Inr (bs @ cs)))"

definition CvtWchar2UTF8 :: "(nat \<Rightarrow> bool) \<Rightarrow> bool \<Rightarrow> 'w::len word list option \<Rightarrow> int + byte list" where
  "CvtWchar2UTF8 alloc unsgn inStr =
     (case inStr of
        None \<Rightarrow> Inl (-1)
      | Some ws \<Rightarrow>
          (if \<not> alloc (length ws * (LENGTH('w) div 8 div 2 * 3) + 1) then Inl (-2) else toUTF8 unsgn ws))"

subsection \<open>The conversions are inverse\<close>

text \<open>The bits that the first octet of a character has for the value.\<close>

definition headBits :: "nat \<Rightarrow> nat" where
  "headBits j = [7, 5, 4, 3, 2, 1] ! j"

definition head_ok :: "nat \<Rightarrow> byte \<Rightarrow> bool" where
  "head_ok j c \<longleftrightarrow>
     followers (value_of (gUTF8Masks ! j) OR c) = j \<and>
     NOT (mask_of (gUTF8Masks ! j)) AND (value_of (gUTF8Masks ! j) OR c) = c \<and>
     NOT (mask_of (gUTF8Masks ! j)) AND c = c"

lemma head_ok_table: "list_all (\<lambda>j. list_all (\<lambda>m. head_ok j (of_nat m)) [0..<2 ^ headBits j]) [0..<6]"
  by code_simp

lemma head_ok_less:
  assumes "j < 6" "unat c < 2 ^ headBits j"
  shows "head_ok j c"
proof -
  have "\<forall>m < 2 ^ headBits j. head_ok j (of_nat m)"
    using head_ok_table assms(1) by (auto simp: list_all_iff)
  then have "head_ok j (of_nat (unat c))" using assms(2) by blast
  then show ?thesis by simp
qed

definition follower :: "'w::len word \<Rightarrow> byte" where
  "follower w = ucast (0x80 OR (w AND 0x3F))"

lemma follower_aux:
  fixes w c m :: "'w::len word" and s k :: byte
  assumes c: "\<And>n. bit c n \<longleftrightarrow> n = 7 \<and> n < LENGTH('w)" and m: "\<And>n. bit m n \<longleftrightarrow> n < 6 \<and> n < LENGTH('w)"
    and s: "\<And>n. bit s n \<longleftrightarrow> n < 6" and k: "\<And>n. bit k n \<longleftrightarrow> n = 6 \<or> n = 7"
    and l: "8 \<le> LENGTH('w)"
  shows "push_bit 6 (drop_bit 6 w) OR ucast (ucast (c OR (w AND m)) AND s) = w"
    and "bit (ucast (c OR (w AND m)) AND k) n \<longleftrightarrow> n = 7"
proof -
  show "push_bit 6 (drop_bit 6 w) OR ucast (ucast (c OR (w AND m)) AND s) = w"
  proof (rule bit_word_eqI)
    fix n assume n: "n < LENGTH('w)"
    show "bit (push_bit 6 (drop_bit 6 w) OR ucast (ucast (c OR (w AND m)) AND s)) n = bit w n"
      by (cases "n < 6") (use n l in \<open>auto simp: bit_simps c m s\<close>)
  qed
  show "bit (ucast (c OR (w AND m)) AND k) n \<longleftrightarrow> n = 7"
    using l by (auto simp: bit_simps c m k)
qed

lemma bit_numerals:
  "bit (0x80 :: 'w::len word) n \<longleftrightarrow> n = 7 \<and> n < LENGTH('w)"
  "bit (0x3F :: 'w word) n \<longleftrightarrow> n < 6 \<and> n < LENGTH('w)"
proof -
  have "(0x80 :: 'w word) = push_bit 7 1" by (simp add: push_bit_eq_mult)
  then show "bit (0x80 :: 'w word) n \<longleftrightarrow> n = 7 \<and> n < LENGTH('w)"
    by (simp only: bit_push_bit_iff bit_1_iff possible_bit_word) auto
  have "(0x3F :: 'w word) = mask 6" by (simp add: mask_eq_exp_minus_1)
  then show "bit (0x3F :: 'w word) n \<longleftrightarrow> n < 6 \<and> n < LENGTH('w)"
    by (simp only: bit_mask_iff possible_bit_word) auto
qed

lemma bit_C0: "bit (0xC0 :: byte) n \<longleftrightarrow> n = 6 \<or> n = 7"
proof -
  have "(0xC0 :: byte) = push_bit 6 (mask 2)" by (simp add: push_bit_eq_mult mask_eq_exp_minus_1)
  then show ?thesis by (simp only: bit_push_bit_iff bit_mask_iff possible_bit_word) auto
qed

lemma follower:
  assumes "8 \<le> LENGTH('w)"
  shows "push_bit 6 (drop_bit 6 w) OR ucast (follower w AND 0x3F) = (w :: 'w::len word)"
    and "follower w AND 0xC0 = 0x80"
proof -
  note s = bit_numerals(2) [where 'w = 8]
  have s': "bit (0x3F :: byte) n \<longleftrightarrow> n < 6" for n by (subst s) auto
  note f = follower_aux [OF bit_numerals s' bit_C0 assms, where w = w]
  show "push_bit 6 (drop_bit 6 w) OR ucast (follower w AND 0x3F) = w"
    using f(1) unfolding follower_def .
  show "follower w AND 0xC0 = 0x80"
    by (rule bit_word_eqI) (simp only: follower_def f(2) bit_numerals(1), simp)
qed

lemma addFollowers_snoc:
  assumes "addFollowers (length ys) t (ys @ zs) = Some v" "z AND 0xC0 = 0x80"
  shows "addFollowers (Suc (length ys)) t (ys @ z # zs) = Some (push_bit 6 v OR ucast (z AND 0x3F))"
  using assms by (induction ys arbitrary: t) (auto split: if_splits)

lemma putFollowers_add:
  fixes w :: "'w::len word"
  assumes "8 \<le> LENGTH('w)"
  shows "\<exists>ys. putFollowers j w acc = (drop_bit (6 * j) w, ys @ acc) \<and> length ys = j \<and>
    (\<forall>y \<in> set ys. y AND 0xC0 = 0x80) \<and> (\<forall>zs. addFollowers j (drop_bit (6 * j) w) (ys @ zs) = Some w)"
proof (induction j arbitrary: w acc)
  case (Suc j)
  obtain ys where ys: "putFollowers j (drop_bit 6 w) (follower w # acc) =
      (drop_bit (6 * j) (drop_bit 6 w), ys @ follower w # acc)" "length ys = j"
    "\<forall>y \<in> set ys. y AND 0xC0 = 0x80"
    "\<forall>zs. addFollowers j (drop_bit (6 * j) (drop_bit 6 w)) (ys @ zs) = Some (drop_bit 6 w)"
    using Suc by blast
  have d: "drop_bit (6 * j) (drop_bit 6 w) = drop_bit (6 * Suc j) w"
    by (simp add: drop_bit_drop_bit add.commute)
  have "addFollowers (Suc j) (drop_bit (6 * Suc j) w) (ys @ follower w # zs) = Some w" for zs
    using addFollowers_snoc [of ys "drop_bit (6 * Suc j) w" zs "drop_bit 6 w" "follower w"]
      ys(2,4) follower [OF assms, of w] unfolding d by simp
  then show ?case
    using ys follower(2) [OF assms, of w] unfolding d
    by (intro exI [of _ "ys @ [follower w]"]) (simp add: follower_def)
qed simp

definition utf8Class :: "32 word \<Rightarrow> nat" where
  "utf8Class w = length (takeWhile (\<lambda>m. w > maxCharValue m) gUTF8Masks)"

lemma utf8Class_bounds:
  assumes "unat w \<le> 0x07FFFFFF"
  shows "utf8Class w < 6" "unat w < 2 ^ headBits (utf8Class w) * 2 ^ (6 * utf8Class w)"
    "2 < utf8Class w \<Longrightarrow> 2 ^ 16 \<le> unat w"
  using assms by (auto simp: utf8Class_def gUTF8Masks_def headBits_def word_less_nat_alt split: if_splits)

lemma head_octet:
  fixes t :: "'w::len word"
  assumes "8 \<le> LENGTH('w)" "unat t < 128"
  shows "ucast (NOT (ucast m) AND t) = NOT m AND (ucast t :: byte)" "scast (ucast t :: byte) = t"
    "unat (ucast t :: byte) = unat t"
proof -
  show "ucast (NOT (ucast m) AND t) = NOT m AND (ucast t :: byte)"
    by (rule bit_word_eqI) (use assms(1) in \<open>auto simp: bit_simps\<close>)
  show u: "unat (ucast t :: byte) = unat t" using assms(2) by (simp add: unat_ucast_byte)
  have "\<not> bit (ucast t :: byte) 7" using byte_bit7 [of "ucast t"] assms(2) u by (simp add: word_le_nat_alt)
  then have "\<not> bit t 7" using assms(1) by (simp add: bit_simps)
  have h: "\<not> bit t n" if "7 \<le> n" for n
  proof -
    have "(2 :: nat) ^ 7 \<le> 2 ^ n" using that by (rule power_increasing) simp
    then have "unat t < 2 ^ n" using assms(2) by simp
    then have "unat t div 2 ^ n = 0" by simp
    then show ?thesis using bit_unsigned_iff [of t n, where ?'a = nat] by (simp add: bit_iff_odd [of "unat t"])
  qed
  show "scast (ucast t :: byte) = t"
  proof (rule bit_word_eqI)
    fix n assume n: "n < LENGTH('w)"
    show "bit (scast (ucast t :: byte) :: 'w word) n = bit t n"
      using n h assms(1) by (cases "n < 7") (auto simp: bit_signed_iff bit_unsigned_iff min_def)
  qed
qed

lemma wcharOctets_ok:
  fixes w :: "'w::len word"
  assumes "LENGTH('w) = 16 \<or> LENGTH('w) = 32" "unat w \<le> 0x07FFFFFF"
  obtains x ys where "wcharOctets w = Some (x # ys)" "followers x = length ys" "length ys < 6"
    "\<forall>y \<in> set ys. y AND 0xC0 = 0x80" "2 < length ys \<longrightarrow> LENGTH('w) = 32"
    "\<forall>zs. addFollowers (length ys) (scast (NOT (mask_of (gUTF8Masks ! length ys)) AND x)) (ys @ zs) = Some w"
    "length ys = utf8Class (ucast w)"
proof -
  have l8: "8 \<le> LENGTH('w)" using assms(1) by auto
  have u: "unat (ucast w :: 32 word) = unat w"
    using assms(1) by (auto simp: unsigned_ucast_eq take_bit_nat_eq_self_iff intro: less_le_trans [OF unsigned_less])
  define j where "j = utf8Class (ucast w)"
  have j: "j < 6" "unat w < 2 ^ headBits j * 2 ^ (6 * j)" "2 < j \<Longrightarrow> 2 ^ 16 \<le> unat w"
    using utf8Class_bounds [of "ucast w :: 32 word"] assms(2) unfolding j_def u by auto
  define t where "t = drop_bit (6 * j) w"
  have t: "unat t < 2 ^ headBits j"
    unfolding t_def unat_drop_bit_eq using j(2) by (simp add: drop_bit_eq_div div_less_iff_less_mult)
  have "headBits j \<le> 7" using j(1) by (auto simp: headBits_def less_Suc_eq numeral_eq_Suc)
  then have "unat t < 128" using t power_increasing [of "headBits j" 7 "2 :: nat"] by simp
  note hd = head_octet [OF l8 this]
  let ?c = "ucast t :: byte" and ?x = "value_of (gUTF8Masks ! j) OR (ucast t :: byte)"
  have ok: "head_ok j ?c" using head_ok_less [OF j(1), of ?c] t unfolding hd(3) .
  obtain ys where ys: "putFollowers j w [] = (t, ys)" "length ys = j" "\<forall>y \<in> set ys. y AND 0xC0 = 0x80"
    "\<forall>zs. addFollowers j t (ys @ zs) = Some w"
    using putFollowers_add [OF l8, of j w "[]"] unfolding t_def by auto
  have "wcharOctets w = Some (?x # ys)"
    using j(1) ok unfolding wcharOctets_def utf8Class_def [symmetric] j_def [symmetric] Let_def ys(1) prod.case
    by (simp add: MAX_UTF8_OCTS_PER_CHAR_def hd(1) head_ok_def)
  moreover have "2 < j \<longrightarrow> LENGTH('w) = 32"
  proof
    assume "2 < j"
    then have "2 ^ 16 \<le> unat w" by (rule j(3))
    moreover have "unat w < 2 ^ 16" if "LENGTH('w) = 16" using that by (metis unsigned_less)
    ultimately have "LENGTH('w) \<noteq> 16" by linarith
    then show "LENGTH('w) = 32" using assms(1) by simp
  qed
  ultimately show thesis
    using that [of ?x ys] ok ys j(1) hd(2) by (simp add: head_ok_def j_def)
qed

lemma fromUTF8_step:
  assumes "followers x = length ys" "length ys < 6" "2 < length ys \<longrightarrow> LENGTH('w) = 32"
    "\<forall>zs. addFollowers (length ys) (scast (NOT (mask_of (gUTF8Masks ! length ys)) AND x)) (ys @ zs) = Some (w :: 'w::len word)"
  shows "fromUTF8 ((x # ys) @ zs) = (case fromUTF8 zs of Inl e \<Rightarrow> Inl e | Inr ws \<Rightarrow> Inr (w # ws))"
  using assms by (subst fromUTF8.simps) (auto simp: Let_def MAX_UTF8_OCTS_PER_CHAR_def)

lemma validUTF8_step:
  assumes "followers x = length ys" "length ys < 6" "\<forall>y \<in> set ys. y AND 0xC0 = 0x80"
  shows "validUTF8 ((x # ys) @ zs) = validUTF8 zs"
  using assms by (subst validUTF8.simps) (simp add: Let_def MAX_UTF8_OCTS_PER_CHAR_def list_all_iff)

lemma toUTF8_ok:
  fixes ws :: "'w::len word list"
  assumes "LENGTH('w) = 16 \<or> LENGTH('w) = 32" "\<forall>w \<in> set ws. unat w \<le> 0x07FFFFFF" "LENGTH('w) = 16 \<longrightarrow> unsgn"
  shows "\<exists>bs. toUTF8 unsgn ws = Inr bs \<and> fromUTF8 bs = Inr ws \<and> validUTF8 bs"
  using assms(2)
proof (induction ws)
  case Nil
  show ?case by (simp add: fromUTF8.simps [of "[]"] validUTF8.simps [of "[]"])
next
  case (Cons w ws)
  obtain x ys where x: "wcharOctets w = Some (x # ys)" "followers x = length ys" "length ys < 6"
    "\<forall>y \<in> set ys. y AND 0xC0 = 0x80" "2 < length ys \<longrightarrow> LENGTH('w) = 32"
    "\<forall>zs. addFollowers (length ys) (scast (NOT (mask_of (gUTF8Masks ! length ys)) AND x)) (ys @ zs) = Some w"
    by (rule wcharOctets_ok [OF assms(1), of w]) (use Cons.prems in auto)
  obtain bs where bs: "toUTF8 unsgn ws = Inr bs" "fromUTF8 bs = Inr ws" "validUTF8 bs"
    using Cons by auto
  have pos: "unsgn \<or> \<not> sint w < 0"
  proof (cases "LENGTH('w) = 32")
    case True
    have "unat w < 2 ^ 31" using Cons.prems by auto
    then have "int (unat w) < 2 ^ 31" by (metis of_nat_less_iff of_nat_numeral of_nat_power)
    then have "uint w < 2 ^ (LENGTH('w) - 1)" unfolding True by simp
    then have "sint w = uint w" unfolding sint_uint by (intro signed_take_bit_int_eq_self) (auto intro: order_trans [of _ 0])
    then show ?thesis by simp
  qed (use assms in auto)
  show ?case
    using x(1) bs pos fromUTF8_step [OF x(2,3,5,6), of bs] validUTF8_step [OF x(2,3,4), of bs] by auto
qed

end
