(* ===== verification/Asn_Oid.thy ===== *)
theory Asn_Oid
  imports Asn_Octs
begin

section \<open>OBJECT IDENTIFIER and RELATIVE-OID (\<open>c-lib/src/asn-oid.c\<close>, \<open>asn-relative-oid.c\<close>)\<close>

text \<open>
  An \<open>AsnOid\<close> holds the encoded content, like an octet string.  The linked list \<open>OID\<close>
  of arc numbers is the list of its \<open>arcNum\<close> fields.  A read outside the memory block of
  the octets has no value in the model: the functions that can do so return \<open>None\<close>.
\<close>

type_synonym AsnOid = AsnOcts
type_synonym AsnRelativeOid = AsnOcts

subsection \<open>Encoding and decoding\<close>

definition BEncAsnOid :: "('b, 'z) GenBuf_scheme \<Rightarrow> 'b \<Rightarrow> AsnOid \<Rightarrow> AsnLen \<times> 'b" where
  "BEncAsnOid g b x = BEncUniv g OID_TAG_CODE (BEncAsnOctsContent g b x)"

definition BDecAsnOidContent ::
  "(nat \<Rightarrow> bool) \<Rightarrow> ('b, 'z) GenBuf_scheme \<Rightarrow> AsnTag \<Rightarrow> AsnLen \<Rightarrow> AsnLen \<Rightarrow> 'b \<Rightarrow> ('b, AsnOid) dres" where
  "BDecAsnOidContent alloc g tagId len n b =
     (if len = INDEFINITE_LEN then Jmp (-66)
      else if \<not> alloc (unat len) then Jmp (-27)
      else
        let (xs, b) = copy g b (unat len) in
        if readError g b then Jmp (-21)
        else Ret \<lparr>octetLen = unat len, octs = xs\<rparr> (n + len) b)"

definition BDecAsnOid ::
  "(nat \<Rightarrow> bool) \<Rightarrow> ('b, 'z) GenBuf_scheme \<Rightarrow> 'b \<Rightarrow> AsnLen \<Rightarrow> ('b, AsnOid) dres" where
  "BDecAsnOid alloc g b n =
     dbind (BDecUniv g (-40) [univ_tag OID_TAG_CODE] b n)
       (\<lambda>(tag, elmtLen). BDecAsnOidContent alloc g tag elmtLen)"

definition BEncAsnRelativeOid :: "('b, 'z) GenBuf_scheme \<Rightarrow> 'b \<Rightarrow> AsnRelativeOid \<Rightarrow> AsnLen \<times> 'b" where
  "BEncAsnRelativeOid g b x = BEncUniv g RELATIVE_OID_TAG_CODE (BEncAsnOctsContent g b x)"

definition BDecAsnRelativeOidContent ::
  "(nat \<Rightarrow> bool) \<Rightarrow> ('b, 'z) GenBuf_scheme \<Rightarrow> AsnTag \<Rightarrow> AsnLen \<Rightarrow> AsnLen \<Rightarrow> 'b \<Rightarrow>
    ('b, AsnRelativeOid) dres" where
  "BDecAsnRelativeOidContent alloc g tagId len n b =
     (if len = INDEFINITE_LEN then Jmp (-66)
      else if \<not> alloc (unat len) then Jmp (-27)
      else
        let (xs, b) = copy g b (unat len) in
        if readError g b then Jmp (-21)
        else Ret \<lparr>octetLen = unat len, octs = xs\<rparr> (n + len) b)"

definition BDecAsnRelativeOid ::
  "(nat \<Rightarrow> bool) \<Rightarrow> ('b, 'z) GenBuf_scheme \<Rightarrow> 'b \<Rightarrow> AsnLen \<Rightarrow> ('b, AsnRelativeOid) dres" where
  "BDecAsnRelativeOid alloc g b n =
     dbind (BDecUniv g (-40) [univ_tag RELATIVE_OID_TAG_CODE] b n)
       (\<lambda>(tag, elmtLen). BDecAsnRelativeOidContent alloc g tag elmtLen)"

subsection \<open>From arcs to octets\<close>

text \<open>\<open>for (len = 0; (tmpArcNum >>= 7) != 0; len++)\<close>\<close>

lemma unat_shift7: "unat (drop_bit 7 (w :: 32 word)) = unat w div 128"
  unfolding unat_drop_bit_eq by (simp add: drop_bit_eq_div)

lemma shift7_less: "drop_bit 7 (w :: 32 word) \<noteq> 0 \<Longrightarrow> unat (drop_bit 7 w) < unat w"
  using unat_eq_0 [of "drop_bit 7 w"] by (cases "unat w") (auto simp: unat_shift7)

function arcLen :: "32 word \<Rightarrow> nat" where
  "arcLen tmpArcNum =
     (let tmpArcNum = drop_bit 7 tmpArcNum in if tmpArcNum \<noteq> 0 then Suc (arcLen tmpArcNum) else 0)"
  by pat_completeness auto
termination by (relation "measure unat") (auto simp: shift7_less)

declare arcLen.simps [simp del]

text \<open>The head arc number is an \<open>unsigned long\<close>, the others are \<open>long\<close>: their \<open>>>\<close> keeps the sign.\<close>

definition headArcBytes :: "32 word \<Rightarrow> byte list" where
  "headArcBytes arc =
     (let len = arcLen arc in
      map (\<lambda>i. ucast (0x80 OR drop_bit ((len - i) * 7) arc)) [0..<len] @ [ucast (0x7f AND arc)])"

definition arcBytes :: "32 word \<Rightarrow> byte list" where
  "arcBytes arc =
     (let len = arcLen arc in
      map (\<lambda>i. ucast (0x80 OR signed_drop_bit ((len - i) * 7) arc)) [0..<len] @ [ucast (0x7f AND arc)])"

fun EncodedOidLen :: "32 word list \<Rightarrow> AsnLen" where
  "EncodedOidLen (a1 # a2 # arcs) =
     (let headArcNum = a1 * 40 + a2 in
      foldl (\<lambda>totalLen arcNum. totalLen + 1 + of_nat (arcLen arcNum))
        (1 + of_nat (arcLen headArcNum)) arcs)"
| "EncodedOidLen arcs = 0"

text \<open>Writing \<open>xs\<close> from the start of the block the caller allocated.\<close>

definition writeOcts :: "byte list \<Rightarrow> AsnOcts \<Rightarrow> AsnOcts" where
  "writeOcts xs r = r\<lparr>octetLen := length xs, octs := xs @ drop (length xs) (octs r)\<rparr>"

fun BuildEncodedOid :: "32 word list \<Rightarrow> AsnOid \<Rightarrow> AsnOid" where
  "BuildEncodedOid (a1 # a2 # arcs) result =
     (let headArcNum = a1 * 40 + a2
      in writeOcts (headArcBytes headArcNum @ concat (map arcBytes arcs)) result)"
| "BuildEncodedOid arcs result = result"

definition EncodedRelativeOidLen :: "32 word list \<Rightarrow> AsnLen" where
  "EncodedRelativeOidLen arcs = foldl (\<lambda>totalLen arcNum. totalLen + 1 + of_nat (arcLen arcNum)) 0 arcs"

fun BuildEncodedRelativeOid :: "32 word list \<Rightarrow> AsnRelativeOid \<Rightarrow> AsnRelativeOid" where
  "BuildEncodedRelativeOid (a1 # a2 # arcs) result =
     writeOcts (concat (map arcBytes (a1 # a2 # arcs))) result"
| "BuildEncodedRelativeOid arcs result = result"

subsection \<open>From octets to arcs\<close>

text \<open>
  The loop that collects one arc, with the read of the octet after it:
  \<open>for (; i < octetLen && (octs[i] & 0x80); i++) ...; arcNum = (arcNum << 7) + (octs[i] & 0x7f); i++\<close>.
\<close>

function readArc :: "AsnOcts \<Rightarrow> 32 word \<Rightarrow> nat \<Rightarrow> (32 word \<times> nat) option" where
  "readArc v arcNum i =
     (if i \<ge> length (octs v) then None
      else
        let arcNum = push_bit 7 arcNum + ucast (octs v ! i AND 0x7f) in
        if i < octetLen v \<and> octs v ! i AND 0x80 \<noteq> 0 then readArc v arcNum (Suc i)
        else Some (arcNum, Suc i))"
  by pat_completeness auto
termination by (relation "measure (\<lambda>(v, _, i). length (octs v) - i)") auto

declare readArc.simps [simp del]

lemma readArc_Suc: "readArc v a i = Some (w, j) \<Longrightarrow> i < j"
proof (induction v a i rule: readArc.induct)
  case (1 v a i)
  then show ?case
    by (subst (asm) (2) readArc.simps) (fastforce simp: Let_def split: if_splits)
qed

text \<open>The remaining arcs, up to \<open>octetLen\<close>.\<close>

function readArcs :: "AsnOcts \<Rightarrow> nat \<Rightarrow> 32 word list option" where
  "readArcs v i =
     (if i < octetLen v then
        (case readArc v 0 i of
           None \<Rightarrow> None
         | Some (arcNum, j) \<Rightarrow> map_option ((#) arcNum) (readArcs v j))
      else Some [])"
  by pat_completeness auto
termination
  by (relation "measure (\<lambda>(v, i). octetLen v - i)") (auto dest: readArc_Suc)

declare readArcs.simps [simp del]

text \<open>\<open>%u\<close> of \<open>fprintf\<close>.\<close>

fun dec :: "nat \<Rightarrow> string" where
  "dec n = (if n < 10 then [char_of (48 + n)] else dec (n div 10) @ [char_of (48 + n mod 10)])"

declare dec.simps [simp del]

definition PrintAsnOid :: "AsnOid \<Rightarrow> string option" where
  "PrintAsnOid v =
     (case readArc v 0 0 of
        None \<Rightarrow> None
      | Some (arcNum, i) \<Rightarrow>
          (let firstArcNum = unat (ucast (arcNum div 40) :: 16 word);
               firstArcNum = (if 2 < firstArcNum then 2 else firstArcNum)
           in case readArcs v i of
                None \<Rightarrow> None
              | Some arcs \<Rightarrow>
                  Some (''{'' @ dec firstArcNum @ '' '' @ dec (unat (arcNum - of_nat firstArcNum * 40)) @
                    concat (map (\<lambda>arcNum. '' '' @ dec (unat arcNum)) arcs) @ ''}'')))"

definition PrintAsnRelativeOid :: "AsnRelativeOid \<Rightarrow> string option" where
  "PrintAsnRelativeOid v =
     (case readArcs v 0 of
        None \<Rightarrow> None
      | Some arcs \<Rightarrow> Some (''{'' @ concat (map (\<lambda>arcNum. '' '' @ dec (unat arcNum)) arcs) @ ''}''))"

text \<open>
  \<open>UnbuildEncodedOid\<close> ends the program on every list it would have to extend; what it can
  return is the list of the two head arcs, whose last \<open>next\<close> field it does not set.
\<close>

datatype Unbuilt = NoValue | Exit string | ArcsNoEnd "int list"

definition exit_on_purpose :: string where
  "exit_on_purpose = ''The existing code here leads to a null pointer dereferenciation which needs to get fixed. Needs test code to solve it so we just exit here on purpose.''"

definition cdiv :: "int \<Rightarrow> int \<Rightarrow> int" where
  "cdiv a b = (if 0 \<le> a then a div b else - ((- a) div b))"

definition UnbuildEncodedOid :: "nat \<Rightarrow> AsnOid \<Rightarrow> Unbuilt" where
  "UnbuildEncodedOid m eoid =
     (case readArc eoid 0 0 of
        None \<Rightarrow> NoValue
      | Some (w, i) \<Rightarrow>
          (let arcNum = sint w;
               firstArcNum = cdiv arcNum 40;
               firstArcNum = (if firstArcNum > 2 then 2 else firstArcNum);
               secondArcNum = arcNum - firstArcNum * 40
           in if m < 1 then Exit ''Out of memory 1''
              else if m < 2 then Exit ''Out of memory 2''
              else if i < octetLen eoid then
                (case readArc eoid 0 i of
                   None \<Rightarrow> NoValue
                 | Some _ \<Rightarrow> Exit (if m < 3 then ''Out of memory'' else exit_on_purpose))
              else ArcsNoEnd [firstArcNum, secondArcNum]))"

definition UnbuildEncodedRelativeOid :: "nat \<Rightarrow> AsnRelativeOid \<Rightarrow> Unbuilt" where
  "UnbuildEncodedRelativeOid m eoid =
     (case readArc eoid 0 0 of
        None \<Rightarrow> NoValue
      | Some (w, i) \<Rightarrow>
          (if m < 1 then Exit ''Out of memory 1''
           else if 1 < octetLen eoid then
             (case readArc eoid 0 1 of
                None \<Rightarrow> NoValue
              | Some _ \<Rightarrow> Exit (if m < 3 then ''Out of memory 2'' else exit_on_purpose))
           else ArcsNoEnd [sint w]))"

subsection \<open>Lengths\<close>

lemma length_arcBytes: "length (arcBytes w) = Suc (arcLen w)" "length (headArcBytes w) = Suc (arcLen w)"
  by (simp_all add: arcBytes_def headArcBytes_def Let_def)

lemma foldl_arcLen:
  "foldl (\<lambda>totalLen arcNum. totalLen + 1 + of_nat (arcLen arcNum)) n arcs =
   n + of_nat (length (concat (map arcBytes arcs)))"
  by (induction arcs arbitrary: n) (auto simp: length_arcBytes algebra_simps)

lemma EncodedOidLen_eq:
  "2 \<le> length arcs \<Longrightarrow> EncodedOidLen arcs = of_nat (octetLen (BuildEncodedOid arcs r))"
  by (cases arcs rule: EncodedOidLen.cases)
    (auto simp: foldl_arcLen length_arcBytes writeOcts_def Let_def)

lemma EncodedRelativeOidLen_eq:
  "2 \<le> length arcs \<Longrightarrow> EncodedRelativeOidLen arcs = of_nat (octetLen (BuildEncodedRelativeOid arcs r))"
  by (cases "(arcs, r)" rule: BuildEncodedRelativeOid.cases)
    (auto simp: EncodedRelativeOidLen_def foldl_arcLen length_arcBytes writeOcts_def Let_def)

subsection \<open>Reading an arc back\<close>

abbreviation arcStep :: "32 word \<Rightarrow> byte \<Rightarrow> 32 word" where
  "arcStep a x \<equiv> push_bit 7 a + ucast (x AND 0x7f)"

text \<open>Octets that form one arc: all but the last have the continuation bit.\<close>

definition arc_form :: "byte list \<Rightarrow> bool" where
  "arc_form bs \<longleftrightarrow> bs \<noteq> [] \<and> (\<forall>x \<in> set (butlast bs). x AND 0x80 \<noteq> 0) \<and> last bs AND 0x80 = 0"

lemma readArc_form:
  assumes "arc_form bs" "drop i (octs v) = bs @ rest" "i + length bs \<le> octetLen v"
  shows "readArc v a i = Some (foldl arcStep a bs, i + length bs)"
  using assms
proof (induction bs arbitrary: a i)
  case (Cons x xs)
  have l: "i < length (octs v)" using Cons.prems(2) by (metis append_Cons drop_eq_Nil list.distinct(1) not_le)
  have x: "octs v ! i = x" using Cons.prems(2) l by (metis append_Cons hd_drop_conv_nth list.sel(1))
  have d: "drop (Suc i) (octs v) = xs @ rest" using Cons.prems(2) by (metis append_Cons drop_Suc list.sel(3) tl_drop)
  show ?case
  proof (cases "xs = []")
    case True
    then have "x AND 0x80 = 0" using Cons.prems(1) by (simp add: arc_form_def)
    then show ?thesis using True l x by (subst readArc.simps) (simp add: Let_def)
  next
    case False
    then have "arc_form xs" "x AND 0x80 \<noteq> 0" using Cons.prems(1) by (auto simp: arc_form_def)
    moreover have "readArc v (arcStep a x) (Suc i) = Some (foldl arcStep (arcStep a x) xs, Suc i + length xs)"
      using Cons.IH [OF \<open>arc_form xs\<close> d] Cons.prems(3) by simp
    ultimately show ?thesis
      using l x Cons.prems(3) by (subst readArc.simps) (simp add: Let_def)
  qed
qed (simp add: arc_form_def)

definition digits :: "nat \<Rightarrow> 32 word \<Rightarrow> 32 word list" where
  "digits n w = map (\<lambda>i. drop_bit ((n - i) * 7) w AND 0x7f) [0..<Suc n]"

lemma digits_Suc: "digits (Suc n) w = (drop_bit (Suc n * 7) w AND 0x7f) # digits n w"
  by (simp add: digits_def upt_conv_Cons map_Suc_upt [symmetric] del: upt_Suc)

lemma shift_digit: "push_bit 7 (drop_bit 7 w) + (w AND 0x7f) = (w :: 32 word)"
proof -
  have "(0x7f :: 32 word) = mask 7" by (simp add: mask_eq_exp_minus_1)
  then have e: "w AND 0x7f = take_bit 7 w" by (simp add: take_bit_eq_mask)
  have "push_bit 7 (drop_bit 7 w) + take_bit 7 w = w" by (rule bits_ident)
  then show ?thesis by (simp only: e)
qed

lemma foldl_digits: "foldl (\<lambda>a d. push_bit 7 a + d) (drop_bit (Suc n * 7) w) (digits n w) = w"
proof (induction n)
  case 0
  show ?case using shift_digit [of w] by (simp add: digits_def)
next
  case (Suc n)
  have "push_bit 7 (drop_bit (Suc (Suc n) * 7) w) + (drop_bit (Suc n * 7) w AND 0x7f) = drop_bit (Suc n * 7) w"
    using shift_digit [of "drop_bit (Suc n * 7) w"] by (simp add: drop_bit_drop_bit)
  with Suc show ?case unfolding digits_Suc by simp
qed

lemma arcLen_bound: "unat w < 128 ^ Suc (arcLen w)"
proof (induction w rule: arcLen.induct)
  case (1 w)
  show ?case
  proof (cases "drop_bit 7 w = 0")
    case True
    then have "unat w div 128 = 0" using unat_shift7 [of w] by simp
    then show ?thesis using True by (subst arcLen.simps) simp
  next
    case False
    have "unat w div 128 < 128 ^ Suc (arcLen (drop_bit 7 w))"
      using 1 [OF refl False] by (simp only: unat_shift7)
    then have "unat w < 128 * 128 ^ Suc (arcLen (drop_bit 7 w))" by (simp add: div_less_iff_less_mult ac_simps)
    then show ?thesis using False by (subst arcLen.simps) simp
  qed
qed

lemma bit_7f_byte: "bit (0x7F :: byte) n \<longleftrightarrow> n < 7"
proof -
  have "(0x7F :: byte) = mask 7" by (simp add: mask_eq_exp_minus_1)
  then show ?thesis by (simp only:) (subst bit_mask_iff, auto)
qed

lemma octet_digit_aux:
  fixes c u m :: "32 word" and s :: byte
  assumes c: "\<And>n. bit c n \<longleftrightarrow> n = 7" and s: "\<And>n. bit s n \<longleftrightarrow> n < 7" and m: "\<And>n. bit m n \<longleftrightarrow> n < 7"
  shows "ucast (ucast (c OR u) AND s) = u AND m" "ucast (ucast (m AND u) AND s) = u AND m"
  by (rule bit_word_eqI; use c s m in \<open>auto simp: bit_simps\<close>)+

lemma octet_digit:
  "ucast (ucast (0x80 OR u :: 32 word) AND 0x7f :: byte) = u AND 0x7f"
  "ucast (ucast (0x7f AND u :: 32 word) AND 0x7f :: byte) = u AND 0x7f"
  by (rule octet_digit_aux [OF bit_80 bit_7f_byte bit_7f])+

lemma byte_80_iff: "(x :: byte) AND 0x80 \<noteq> 0 \<longleftrightarrow> 128 \<le> x"
  using and_exp_eq_0_iff_not_bit [of x 7] byte_bit7 [of x] by simp

lemma arc_form_octets:
  "arc_form (map (\<lambda>i. ucast (0x80 OR f i :: 32 word)) [0..<n] @ [ucast (0x7f AND w :: 32 word)])"
proof -
  have "\<not> 128 \<le> (ucast (0x7f AND w) :: byte)"
    using byte_and_7f_less [of w] by (simp add: and.commute not_le)
  then have "(ucast (0x7f AND w) :: byte) AND 0x80 = 0" using byte_80_iff by blast
  moreover have "(ucast (0x80 OR u :: 32 word) :: byte) AND 0x80 \<noteq> 0" for u
    using byte_or_80 byte_80_iff by blast
  ultimately show ?thesis by (auto simp: arc_form_def)
qed

lemma arc_value_octets:
  assumes "\<And>i. i < arcLen w \<Longrightarrow> f i AND 0x7f = drop_bit ((arcLen w - i) * 7) w AND 0x7f"
  shows "foldl arcStep 0 (map (\<lambda>i. ucast (0x80 OR f i)) [0..<arcLen w] @ [ucast (0x7f AND w)]) = w"
proof -
  let ?n = "arcLen w"
  have z: "drop_bit (Suc ?n * 7) w = 0"
  proof -
    have "unat w < 2 ^ (Suc ?n * 7)"
      using arcLen_bound [of w] by (subst mult.commute, subst power_mult) simp
    then have "unat (drop_bit (Suc ?n * 7) w) = 0"
      unfolding unat_drop_bit_eq by (simp add: drop_bit_eq_div)
    then show ?thesis by (simp only: unat_eq_0)
  qed
  have "map (\<lambda>x. ucast (x AND 0x7f)) (map (\<lambda>i. ucast (0x80 OR f i) :: byte) [0..<?n] @ [ucast (0x7f AND w)]) =
      digits ?n w"
    using assms by (simp add: digits_def octet_digit)
  then have "foldl arcStep 0 (map (\<lambda>i. ucast (0x80 OR f i)) [0..<?n] @ [ucast (0x7f AND w)]) =
      foldl (\<lambda>a d. push_bit 7 a + d) 0 (digits ?n w)"
    by (metis foldl_map)
  also have "\<dots> = w" using foldl_digits [of ?n w] unfolding z .
  finally show ?thesis .
qed

lemma headArc_ok: "arc_form (headArcBytes w) \<and> foldl arcStep 0 (headArcBytes w) = w"
  unfolding headArcBytes_def Let_def by (rule conjI [OF arc_form_octets arc_value_octets [OF refl]])

lemma arc_ok:
  assumes "unat w < 2 ^ 31"
  shows "arc_form (arcBytes w) \<and> foldl arcStep 0 (arcBytes w) = w"
proof -
  have "\<not> bit w 31"
  proof -
    have "\<not> bit (unat w) 31" using assms by (simp add: bit_iff_odd)
    then show ?thesis using bit_unsigned_iff [of w 31, where ?'a = nat] by simp
  qed
  then have "bit (signed_drop_bit k w) n = bit (drop_bit k w) n" if "n < 32" for k n
    using that by (cases "k + n < 31") (auto simp: bit_simps min_def not_less le_less dest: bit_imp_le_length)
  then have "signed_drop_bit k w = drop_bit k w" for k
    by (intro bit_word_eqI) simp
  then show ?thesis
    unfolding arcBytes_def Let_def
    by (intro conjI arc_form_octets arc_value_octets) simp
qed

lemma readArcs_ok:
  assumes "drop i (octs v) = concat (map arcBytes arcs) @ rest"
    and "octetLen v = i + length (concat (map arcBytes arcs))" "\<forall>w \<in> set arcs. unat w < 2 ^ 31"
  shows "readArcs v i = Some arcs"
  using assms
proof (induction arcs arbitrary: i)
  case Nil
  then show ?case by (subst readArcs.simps) simp
next
  case (Cons w arcs)
  note w = arc_ok [of w]
  have r: "readArc v 0 i = Some (w, i + length (arcBytes w))"
    using readArc_form [of "arcBytes w" i v "concat (map arcBytes arcs) @ rest" 0] Cons.prems w by simp
  have d: "drop (i + length (arcBytes w)) (octs v) = concat (map arcBytes arcs) @ rest"
    using Cons.prems(1) by (simp add: add.commute [of i] flip: drop_drop)
  have "readArcs v (i + length (arcBytes w)) = Some arcs"
    using Cons.IH [OF d] Cons.prems by simp
  moreover have "i < octetLen v" using Cons.prems(2) by (simp add: length_arcBytes)
  ultimately show ?case using r by (subst readArcs.simps) simp
qed

lemma Build_read:
  assumes "\<forall>w \<in> set arcs. unat w < 2 ^ 31"
    and v_def: "v = BuildEncodedOid (a1 # a2 # arcs) r"
  shows "\<exists>i. readArc v 0 0 = Some (a1 * 40 + a2, i) \<and> readArcs v i = Some arcs \<and> i \<le> octetLen v \<and>
    (i = octetLen v \<longleftrightarrow> arcs = [])"
proof -
  let ?h = "headArcBytes (a1 * 40 + a2)" and ?t = "concat (map arcBytes arcs)"
  have o: "octs v = ?h @ ?t @ drop (length ?h + length ?t) (octs r)" "octetLen v = length ?h + length ?t"
    by (simp_all add: v_def writeOcts_def Let_def)
  have "readArc v 0 0 = Some (a1 * 40 + a2, length ?h)"
    using readArc_form [of ?h 0 v "?t @ drop (length ?h + length ?t) (octs r)" 0]
      headArc_ok [of "a1 * 40 + a2"] o by simp
  moreover have "readArcs v (length ?h) = Some arcs"
    using assms(1) o by (intro readArcs_ok [where rest = "drop (length ?h + length ?t) (octs r)"]) simp_all
  moreover have "?t = [] \<longleftrightarrow> arcs = []" by (cases arcs) (auto simp: length_arcBytes simp flip: length_0_conv)
  ultimately show ?thesis using o by (intro exI [of _ "length ?h"]) auto
qed

text \<open>Arcs that the two head arcs can be recovered from.\<close>

definition head_arcs_ok :: "32 word \<Rightarrow> 32 word \<Rightarrow> bool" where
  "head_arcs_ok a1 a2 \<longleftrightarrow> a1 \<le> 2 \<and> (a1 < 2 \<longrightarrow> a2 < 40) \<and> unat a2 < 2 ^ 31 - 80"

lemma head_arcs_split:
  assumes "head_arcs_ok a1 a2"
  shows "unat (a1 * 40 + a2) = unat a1 * 40 + unat a2"
    and "(if 2 < unat (a1 * 40 + a2) div 40 then 2 else unat (a1 * 40 + a2) div 40) = unat a1"
proof -
  have b: "unat a1 \<le> 2" "unat a1 < 2 \<Longrightarrow> unat a2 < 40" "unat a2 < 2 ^ 31 - 80"
    using assms by (auto simp: head_arcs_ok_def word_le_nat_alt word_less_nat_alt)
  show 1: "unat (a1 * 40 + a2) = unat a1 * 40 + unat a2"
    using b(1,3) by (simp add: unat_word_ariths)
  have "unat a1 = 0 \<or> unat a1 = 1 \<or> unat a1 = 2" using b(1) by linarith
  then show "(if 2 < unat (a1 * 40 + a2) div 40 then 2 else unat (a1 * 40 + a2) div 40) = unat a1"
    unfolding 1 using b(2) by auto
qed

definition arcs_text :: "32 word list \<Rightarrow> string" where
  "arcs_text arcs = concat (map (\<lambda>arcNum. '' '' @ dec (unat arcNum)) arcs)"

lemma PrintAsnOid_Build:
  assumes "head_arcs_ok a1 a2" "unat a1 * 40 + unat a2 < 40 * 2 ^ 16" "\<forall>w \<in> set arcs. unat w < 2 ^ 31"
  shows "PrintAsnOid (BuildEncodedOid (a1 # a2 # arcs) r) = Some (''{'' @ tl (arcs_text (a1 # a2 # arcs)) @ ''}'')"
proof -
  let ?v = "BuildEncodedOid (a1 # a2 # arcs) r" and ?h = "a1 * 40 + a2"
  obtain i where i: "readArc ?v 0 0 = Some (?h, i)" "readArcs ?v i = Some arcs"
    using Build_read [OF assms(3) refl] by blast
  have u: "unat (ucast (?h div 40) :: 16 word) = unat ?h div 40"
    using assms(2) head_arcs_split(1) [OF assms(1)]
    by (simp add: unsigned_ucast_eq unat_div take_bit_eq_mod div_less_iff_less_mult)
  have w: "of_nat (unat a1) = a1" "?h - a1 * 40 = a2" by simp_all
  show ?thesis
    unfolding PrintAsnOid_def
    unfolding i option.case prod.case Let_def u head_arcs_split(2) [OF assms(1)] w arcs_text_def
    by simp
qed

lemma PrintAsnRelativeOid_Build:
  assumes "2 \<le> length arcs" "\<forall>w \<in> set arcs. unat w < 2 ^ 31"
  shows "PrintAsnRelativeOid (BuildEncodedRelativeOid arcs r) = Some (''{'' @ arcs_text arcs @ ''}'')"
proof -
  obtain a1 a2 as where a: "arcs = a1 # a2 # as" using assms(1) by (cases arcs rule: EncodedOidLen.cases) auto
  let ?v = "BuildEncodedRelativeOid arcs r" and ?t = "concat (map arcBytes arcs)"
  have "octs ?v = ?t @ drop (length ?t) (octs r)" "octetLen ?v = length ?t"
    unfolding a by (simp_all add: writeOcts_def)
  then have "readArcs ?v 0 = Some arcs"
    using assms(2) by (intro readArcs_ok [where rest = "drop (length ?t) (octs r)"]) simp_all
  then show ?thesis by (simp add: PrintAsnRelativeOid_def arcs_text_def)
qed

subsection \<open>What \<open>UnbuildEncodedOid\<close> gives back\<close>

lemma UnbuildEncodedOid_Build:
  assumes "head_arcs_ok a1 a2" "\<forall>w \<in> set arcs. unat w < 2 ^ 31" "2 < m"
  shows "UnbuildEncodedOid m (BuildEncodedOid (a1 # a2 # arcs) r) =
    (if arcs = [] then ArcsNoEnd [int (unat a1), int (unat a2)] else Exit exit_on_purpose)"
proof -
  let ?v = "BuildEncodedOid (a1 # a2 # arcs) r" and ?h = "a1 * 40 + a2"
  obtain i where i: "readArc ?v 0 0 = Some (?h, i)" "readArcs ?v i = Some arcs" "i \<le> octetLen ?v"
    "i = octetLen ?v \<longleftrightarrow> arcs = []"
    using Build_read [OF assms(2) refl] by blast
  note u = head_arcs_split [OF assms(1)]
  have b: "unat a1 \<le> 2" "unat a2 < 2 ^ 31 - 80"
    using assms(1) by (auto simp: head_arcs_ok_def word_le_nat_alt)
  have "unat ?h < 2 ^ 31" using b unfolding u(1) by simp
  then have "0 \<le> sint ?h" using sint_neg_iff [of ?h] by linarith
  then have s: "sint ?h = int (unat ?h)" by (rule sint_nonneg)
  have c: "cdiv (int n) 40 = int (n div 40)" for n by (simp add: cdiv_def zdiv_int)
  have f: "(if int n > 2 then 2 else int n) = int (if 2 < n then 2 else n)" for n by simp
  have h: "int (unat ?h) - int (unat a1) * 40 = int (unat a2)" unfolding u(1) by simp
  show ?thesis
  proof (cases "arcs = []")
    case True
    have "\<not> i < octetLen ?v" using i(4) True by simp
    then show ?thesis
      using assms(3) True
      unfolding UnbuildEncodedOid_def i(1) option.case prod.case Let_def s c f u(2) h by simp
  next
    case False
    then have less: "i < octetLen ?v" using i(3,4) by simp
    then obtain w j where "readArc ?v 0 i = Some (w, j)"
      using i(2) by (subst (asm) readArcs.simps) (auto split: option.splits)
    then show ?thesis
      using assms(3) False less unfolding UnbuildEncodedOid_def i(1) option.case prod.case Let_def by simp
  qed
qed

subsection \<open>Encoder and decoder\<close>

definition parse_oid_content :: "(nat \<Rightarrow> bool) \<Rightarrow> AsnLen \<Rightarrow> AsnOid parser" where
  "parse_oid_content alloc len xs =
     (if len = INDEFINITE_LEN then Inl (-66)
      else if \<not> alloc (unat len) then Inl (-27)
      else if length xs < unat len \<or> 2 ^ 31 \<le> unat len then Inl (-21)
      else Inr (\<lparr>octetLen = unat len, octs = take (unat len) xs\<rparr>, unat len))"

definition parse_oid :: "32 word \<Rightarrow> (nat \<Rightarrow> bool) \<Rightarrow> AsnOid parser" where
  "parse_oid code alloc = pbind (parse_head (-40) [univ_tag code]) (\<lambda>(tag, len). parse_oid_content alloc len)"

lemma BDecAsnRelativeOidContent_eq: "BDecAsnRelativeOidContent = BDecAsnOidContent"
  unfolding BDecAsnOidContent_def [abs_def] BDecAsnRelativeOidContent_def [abs_def] by (rule refl)

context fwd_buffer
begin

lemma outcome_oid_content:
  assumes "readable g rem ok b xs"
  shows "outcome g rem ok (BDecAsnOidContent alloc g tag len n b) n xs (parse_oid_content alloc len xs)"
proof (cases "length xs < unat len \<or> 2 ^ 31 \<le> unat len")
  case True
  then show ?thesis
    using copy_short [OF assms unat_bound32 [of len]]
    by (auto simp: BDecAsnOidContent_def parse_oid_content_def split_beta)
next
  case enough: False
  then obtain b' where "copy g b (unat len) = (take (unat len) xs, b')" "readable g rem ok b' (drop (unat len) xs)"
    using copyE [OF assms, of "unat len"] by auto
  with enough show ?thesis by (simp add: BDecAsnOidContent_def parse_oid_content_def)
qed

lemma outcome_BDecAsnOid:
  assumes "readable g rem ok b xs"
  shows "outcome g rem ok (BDecAsnOid alloc g b n) n xs (parse_oid OID_TAG_CODE alloc xs)"
  unfolding BDecAsnOid_def parse_oid_def
  by (rule outcome_univ [OF assms]) (simp add: outcome_oid_content)

lemma outcome_BDecAsnRelativeOid:
  assumes "readable g rem ok b xs"
  shows "outcome g rem ok (BDecAsnRelativeOid alloc g b n) n xs (parse_oid RELATIVE_OID_TAG_CODE alloc xs)"
  unfolding BDecAsnRelativeOid_def parse_oid_def BDecAsnRelativeOidContent_eq
  by (rule outcome_univ [OF assms]) (simp add: outcome_oid_content)

end

context rvs_buffer
begin

lemma BEncAsnOid_tlv:
  assumes "octetLen x < 2 ^ 31" "octetLen x \<le> length (octs x)"
  shows "emits g data ok room b (snd (BEncAsnOid g b x)) (tlv OID_TAG_CODE (take (octetLen x) (octs x))) \<and>
    fst (BEncAsnOid g b x) = of_nat (length (tlv OID_TAG_CODE (take (octetLen x) (octs x))))"
  unfolding BEncAsnOid_def
  by (rule BEncUniv_tlv) (use assms in \<open>auto simp: BEncAsnOctsContent_def intro: put_seg\<close>)

lemma BEncAsnRelativeOid_tlv:
  assumes "octetLen x < 2 ^ 31" "octetLen x \<le> length (octs x)"
  shows "emits g data ok room b (snd (BEncAsnRelativeOid g b x))
      (tlv RELATIVE_OID_TAG_CODE (take (octetLen x) (octs x))) \<and>
    fst (BEncAsnRelativeOid g b x) = of_nat (length (tlv RELATIVE_OID_TAG_CODE (take (octetLen x) (octs x))))"
  unfolding BEncAsnRelativeOid_def
  by (rule BEncUniv_tlv) (use assms in \<open>auto simp: BEncAsnOctsContent_def intro: put_seg\<close>)

end

lemma parse_oid_tlv:
  assumes "length bs < 2 ^ 31" "alloc (length bs)" "code < 31"
  shows "parse_oid code alloc (tlv code bs @ ys) =
    Inr (\<lparr>octetLen = length bs, octs = bs\<rparr>, length (tlv code bs))"
  unfolding parse_oid_def
proof (rule parse_univ_tlv)
  have u: "unat (of_nat (length bs) :: 32 word) = length bs"
    using assms(1) by (simp add: unat_of_nat)
  then show "(case (univ_tag code, of_nat (length bs)) of (tag, len) \<Rightarrow>
      parse_oid_content alloc len) (bs @ ys) =
    Inr (\<lparr>octetLen = length bs, octs = bs\<rparr>, length bs)"
    using assms of_nat_not_INDEFINITE [OF assms(1)] by (simp add: parse_oid_content_def)
qed (simp_all add: assms)

end
