(* ===== verification/Asn_Bits.thy ===== *)
theory Asn_Bits
  imports Asn_Octs
begin

section \<open>BIT STRING (\<open>c-lib/src/asn-bits.c\<close>)\<close>

text \<open>
  The primitive and the constructed form, the comparison and the access to single bits.
  \<open>bitLen\<close> is the signed field of the structure; \<open>bits\<close> is the memory block behind the
  pointer.  An access outside the block has no value: the functions that can make one
  return \<open>None\<close>.

  The file-level variable \<open>unusedBitsG\<close> is passed in and returned by the functions that
  use it.  Its value after a \<open>longjmp\<close> is not kept.
\<close>

record AsnBits =
  bitLen :: int
  bits :: "byte list"

text \<open>Division and remainder of C.\<close>

definition cquot :: "int \<Rightarrow> int \<Rightarrow> int" where
  "cquot a b = (if 0 \<le> a then a div b else - ((- a) div b))"

definition crem :: "int \<Rightarrow> int \<Rightarrow> int" where
  "crem a b = a - cquot a b * b"

lemma cquot_nonneg [simp]: "0 \<le> a \<Longrightarrow> cquot a b = a div b"
  by (simp add: cquot_def)

lemma crem_nonneg [simp]: "0 \<le> a \<Longrightarrow> crem a b = a mod b"
  by (simp add: crem_def minus_div_mult_eq_mod)

subsection \<open>Encoding\<close>

text \<open>The loop that looks for a byte other than 0 among the first \<open>n\<close>.\<close>

fun allZero :: "byte list \<Rightarrow> nat \<Rightarrow> bool option" where
  "allZero xs 0 = Some True"
| "allZero [] (Suc n) = None"
| "allZero (x # xs) (Suc n) = (if x \<noteq> 0 then Some False else allZero xs n)"

text \<open>
  The encoder writes to its argument: \<open>bitLen\<close> of a string of zeros, the padding of a
  string of one octet.  It gives the new argument.
\<close>

definition BEncAsnBitsContent ::
  "('b, 'z) GenBuf_scheme \<Rightarrow> 'b \<Rightarrow> AsnBits \<Rightarrow> ((AsnLen \<times> 'b) \<times> AsnBits) option" where
  "BEncAsnBitsContent g b x =
     (let k = cquot (bitLen x) 8 + 1 in
      case (if k < 0 then Some False else allZero (bits x) (nat k)) of
        None \<Rightarrow> None
      | Some z \<Rightarrow>
          (let x = (if z then x\<lparr>bitLen := 1\<rparr> else x);
               unusedBits = (word_of_int (crem (bitLen x) 8) :: 32 word);
               unusedBits = (if unusedBits \<noteq> 0 then 8 - unusedBits else unusedBits);
               byteLen = (if bitLen x = 0 then 0 else word_of_int (cquot (bitLen x - 1) 8 + 1) :: 32 word)
           in if bits x = [] \<or> length (bits x) < unat byteLen then None
              else
                let x = (if bitLen x \<noteq> 0 \<and> unusedBits \<noteq> 0 \<and> byteLen = 1 \<and> bits x ! 0 \<noteq> 0
                         then x\<lparr>bits := (bits x)[0 := bits x ! 0 AND ucast (push_bit (unat unusedBits) (0xff :: 32 word))]\<rparr>
                         else x);
                    b = putSegRvs g b (take (unat byteLen) (bits x))
                in if (bits x ! 0 \<noteq> 0 \<or> byteLen > 1) \<and> unusedBits \<noteq> 7
                   then Some ((byteLen + 1, putByteRvs g b (ucast unusedBits)), x)
                   else Some ((byteLen, b), x)))"

definition BEncAsnBits ::
  "('b, 'z) GenBuf_scheme \<Rightarrow> 'b \<Rightarrow> AsnBits \<Rightarrow> ((AsnLen \<times> 'b) \<times> AsnBits) option" where
  "BEncAsnBits g b x =
     map_option (\<lambda>(c, x). (BEncUniv g BITSTRING_TAG_CODE c, x)) (BEncAsnBitsContent g b x)"

subsection \<open>Decoding\<close>

text \<open>
  \<open>unusedBitsG\<close> and the string stack go through the pieces.  The inner loop over the
  segments is the one of the octet strings, over \<open>lenToRef\<close> bytes.
\<close>

fun FillBitStringStk ::
  "nat \<Rightarrow> ('b, 'z) GenBuf_scheme \<Rightarrow> AsnLen \<Rightarrow> StrStk \<times> 16 word \<Rightarrow> AsnLen \<Rightarrow> 'b \<Rightarrow>
    ('b, StrStk \<times> 16 word) dres" where
  "FillBitStringStk 0 g elmtLen0 su n b = OutOfFuel"
| "FillBitStringStk (Suc fuel) g elmtLen0 su n b =
     (if \<not> (n < elmtLen0 \<or> elmtLen0 = INDEFINITE_LEN) then Ret su n b
      else
        dbind (BDecTag g b n) (\<lambda>tagId1 n b.
          if tagId1 = EOC_TAG_ID \<and> elmtLen0 = INDEFINITE_LEN then
            dbind (BDEC_2ND_EOC_OCTET g b n) (\<lambda>_ n b. Ret su n b)
          else
            dbind (BDecLen g b n) (\<lambda>elmtLen1 n b.
              if tagId1 = univ_tag BITSTRING_TAG_CODE then
                (let (s, unusedBitsG) = su in
                 if unusedBitsG \<noteq> 0 then Jmp (-1)
                 else
                   let (x, b) = (if elmtLen1 \<noteq> 0 then getByte g b else (0, b));
                       unusedBitsG = ucast x;
                       lenToRef = elmtLen1 - 1
                   in dbind (segLoop (Suc (unat lenToRef)) g (-2) lenToRef lenToRef 0 s (n + 1) b)
                        (\<lambda>s n b. FillBitStringStk fuel g elmtLen0 (s, unusedBitsG) n b))
              else if tagId1 = univ_cons_tag BITSTRING_TAG_CODE then
                dbind (FillBitStringStk fuel g elmtLen1 su 0 b)
                  (\<lambda>su m b. FillBitStringStk fuel g elmtLen0 su (n + m) b)
              else Jmp (-3))))"

definition BDecConsAsnBits ::
  "nat \<Rightarrow> (nat \<Rightarrow> bool) \<Rightarrow> ('b, 'z) GenBuf_scheme \<Rightarrow> AsnLen \<Rightarrow> 16 word \<Rightarrow> AsnLen \<Rightarrow> 'b \<Rightarrow>
    ('b, AsnBits \<times> 16 word) dres" where
  "BDecConsAsnBits fuel alloc g len unusedBitsG n b =
     dbind (FillBitStringStk fuel g len (RESET_STR_STK strStkG, unusedBitsG) 0 b) (\<lambda>(s, unusedBitsG) m b.
       if \<not> alloc (unat (totalByteLen s)) then Jmp (-27)
       else Ret (\<lparr>bitLen = sint (totalByteLen s * 8 - ucast unusedBitsG), bits = concat (stk s)\<rparr>, unusedBitsG)
         (n + m) b)"

definition BDecAsnBitsContent ::
  "nat \<Rightarrow> (nat \<Rightarrow> bool) \<Rightarrow> ('b, 'z) GenBuf_scheme \<Rightarrow> AsnTag \<Rightarrow> AsnLen \<Rightarrow> 16 word \<Rightarrow> AsnLen \<Rightarrow> 'b \<Rightarrow>
    ('b, AsnBits \<times> 16 word) dres" where
  "BDecAsnBitsContent fuel alloc g tagId len unusedBitsG n b =
     (if TAG_IS_CONS tagId then BDecConsAsnBits fuel alloc g len unusedBitsG n b
      else if len = INDEFINITE_LEN then Jmp (-65)
      else
        let n = n + len; len = len - 1;
            (x, b) = getByte g b;
            bitLen = sint (len * 8 - ucast x)
        in if \<not> alloc (unat len) then Jmp (-27)
           else
             let (xs, b) = copy g b (unat len) in
             if readError g b then Jmp (-4)
             else Ret (\<lparr>bitLen = bitLen, bits = xs\<rparr>, unusedBitsG) n b)"

definition BDecAsnBits ::
  "nat \<Rightarrow> (nat \<Rightarrow> bool) \<Rightarrow> ('b, 'z) GenBuf_scheme \<Rightarrow> 16 word \<Rightarrow> 'b \<Rightarrow> AsnLen \<Rightarrow>
    ('b, AsnBits \<times> 16 word) dres" where
  "BDecAsnBits fuel alloc g unusedBitsG b n =
     dbind (BDecUniv g (-40) [univ_tag BITSTRING_TAG_CODE, univ_cons_tag BITSTRING_TAG_CODE] b n)
       (\<lambda>(tag, elmtLen). BDecAsnBitsContent fuel alloc g tag elmtLen unusedBitsG)"

subsection \<open>Comparison and single bits\<close>

text \<open>\<open>(size_t)b1->bitLen\<close>.\<close>

definition bitLen_size :: "AsnBits \<Rightarrow> nat" where
  "bitLen_size x = nat (bitLen x mod 2 ^ 64)"

definition AsnBitsEquiv :: "AsnBits \<Rightarrow> AsnBits \<Rightarrow> bool option" where
  "AsnBitsEquiv b1 b2 =
     (if bitLen b1 = 0 \<and> bitLen b2 = 0 then Some True
      else
        let octetsLessOne = cquot (bitLen b1 - 1) 8;
            unusedBits = crem (bitLen b1) 8;
            unusedBits = (if unusedBits \<noteq> 0 then 8 - unusedBits else unusedBits);
            m = (push_bit (nat unusedBits) 0xFF :: 32 word)
        in if bitLen b1 \<noteq> bitLen b2 then Some False
           else if octetsLessOne < 0 then None
           else
             let o1 = nat octetsLessOne in
             if length (bits b1) \<le> o1 \<or> length (bits b2) \<le> o1 then None
             else Some (take o1 (bits b1) = take o1 (bits b2) \<and>
               scast (bits b1 ! o1) AND m = scast (bits b2 ! o1) AND m))"

definition SetAsnBit :: "AsnBits \<Rightarrow> nat \<Rightarrow> AsnBits option" where
  "SetAsnBit b1 n =
     (if n < bitLen_size b1 then
        let octet = n div 8; octetsBit = 7 - n mod 8 in
        if length (bits b1) \<le> octet then None
        else Some (b1\<lparr>bits := (bits b1)[octet := bits b1 ! octet OR push_bit octetsBit 1]\<rparr>)
      else Some b1)"

definition ClrAsnBit :: "AsnBits \<Rightarrow> nat \<Rightarrow> AsnBits option" where
  "ClrAsnBit b1 n =
     (if n < bitLen_size b1 then
        let octet = n div 8; octetsBit = 7 - n mod 8 in
        if length (bits b1) \<le> octet then None
        else Some (b1\<lparr>bits := (bits b1)[octet := bits b1 ! octet AND NOT (push_bit octetsBit 1)]\<rparr>)
      else Some b1)"

definition GetAsnBit :: "AsnBits \<Rightarrow> nat \<Rightarrow> int option" where
  "GetAsnBit b1 n =
     (if n < bitLen_size b1 then
        let octet = n div 8; octetsBit = 7 - n mod 8 in
        if length (bits b1) \<le> octet then None
        else Some (sint (scast (bits b1 ! octet) AND push_bit octetsBit 1 :: 32 word))
      else Some 0)"

definition numToHexCharTblG :: string where
  "numToHexCharTblG = ''0123456789abcdef''"

definition TO_HEX :: "byte \<Rightarrow> char" where
  "TO_HEX fourBits = numToHexCharTblG ! unat (fourBits AND 0x0f)"

definition PrintAsnBits :: "AsnBits \<Rightarrow> string option" where
  "PrintAsnBits v =
     (let octetLen = (if bitLen v = 0 then 0 else word_of_int (cquot (bitLen v - 1) 8 + 1) :: 32 word);
          k = nat (sint octetLen)
      in if length (bits v) < k then None
         else Some ([CHR 0x27] @ concat (map (\<lambda>x. [TO_HEX (signed_drop_bit 4 x), TO_HEX x]) (take k (bits v))) @ [CHR 0x27, CHR ''H'']))"

subsection \<open>The primitive form\<close>

lemma allZero_False:
  assumes "i < n" "i < length xs" "xs ! i \<noteq> 0"
  shows "allZero xs n = Some False"
  using assms
proof (induction xs n arbitrary: i rule: allZero.induct)
  case (3 x xs n)
  then show ?case by (cases i) auto
qed simp_all

lemma allZero_True:
  assumes "n \<le> length xs" "\<forall>i < n. xs ! i = 0"
  shows "allZero xs n = Some True"
  using assms
proof (induction xs n rule: allZero.induct)
  case (3 x xs n)
  then have "x = 0" "\<forall>i < n. xs ! i = 0" by (metis nth_Cons_0 zero_less_Suc, metis Suc_less_eq nth_Cons_Suc)
  then show ?case using 3 by simp
qed simp_all

text \<open>The octets that hold \<open>N\<close> bits, the bits they leave unused, and the padding of one octet.\<close>

definition bit_octets :: "nat \<Rightarrow> nat" where
  "bit_octets N = (N + 7) div 8"

definition bit_unused :: "nat \<Rightarrow> nat" where
  "bit_unused N = (if N mod 8 = 0 then 0 else 8 - N mod 8)"

definition padded :: "AsnBits \<Rightarrow> byte list" where
  "padded x =
     (let N = nat (bitLen x) in
      if N < 8 \<and> bits x ! 0 \<noteq> 0
      then (bits x)[0 := bits x ! 0 AND ucast (push_bit (bit_unused N) (0xff :: 32 word))] else bits x)"

lemma bit_octets_unused: "bit_octets N * 8 - bit_unused N = N \<and> bit_unused N \<le> bit_octets N * 8 \<and> bit_unused N < 8"
proof -
  obtain q r where N: "N = q * 8 + r" "r < 8" by (metis div_mult_mod_eq mod_less_divisor zero_less_numeral)
  have m: "N mod 8 = r" using N by simp
  have "(N + 7) div 8 = (if r = 0 then q else q + 1)"
    using N by (intro div_nat_eqI) auto
  then show ?thesis using N unfolding bit_octets_def bit_unused_def m by auto
qed

lemma bits_words:
  fixes N :: nat
  assumes "0 < N" "N < 2 ^ 31"
  defines "u \<equiv> word_of_int (int N mod 8) :: 32 word"
  shows "(word_of_int ((int N - 1) div 8 + 1) :: 32 word) = of_nat (bit_octets N)"
    and "unat (of_nat (bit_octets N) :: 32 word) = bit_octets N"
    and "(if u \<noteq> 0 then 8 - u else u) = of_nat (bit_unused N)"
    and "unat (of_nat (bit_unused N) :: 32 word) = bit_unused N"
proof -
  have "(int N - 1) div 8 + 1 = int (bit_octets N)"
    unfolding bit_octets_def using assms(1) by (simp add: zdiv_int)
  then show "(word_of_int ((int N - 1) div 8 + 1) :: 32 word) = of_nat (bit_octets N)"
    by (simp only: of_int_of_nat_eq)
  have "bit_octets N < 2 ^ 32" using assms(2) unfolding bit_octets_def by simp
  then show "unat (of_nat (bit_octets N) :: 32 word) = bit_octets N" by (simp add: unat_of_nat)
  have "int N mod 8 = int (N mod 8)" by (rule zmod_int [of N 8, simplified, symmetric])
  then have u: "u = of_nat (N mod 8)" unfolding u_def by (simp only: of_int_of_nat_eq)
  have "N mod 8 < 2 ^ 32" by (rule less_trans [of _ 8]) simp_all
  then have un: "unat u = N mod 8" unfolding u unat_of_nat by simp
  have "of_nat (8 - N mod 8) = (8 - u :: 32 word)"
    unfolding u by (simp add: of_nat_diff less_imp_le)
  moreover have "u = 0 \<longleftrightarrow> N mod 8 = 0" using un by (metis unat_eq_0)
  ultimately show "(if u \<noteq> 0 then 8 - u else u) = of_nat (bit_unused N)"
    by (auto simp: bit_unused_def)
  show "unat (of_nat (bit_unused N) :: 32 word) = bit_unused N"
    using bit_octets_unused [of N] by (simp add: unat_of_nat)
qed

lemma padded_nonzero: "padded x ! i \<noteq> 0 \<Longrightarrow> bits x \<noteq> [] \<Longrightarrow> bits x ! i \<noteq> 0"
  by (cases "i = 0") (auto simp: padded_def Let_def split: if_splits)

lemma length_padded [simp]: "length (padded x) = length (bits x)"
  by (simp add: padded_def Let_def)

lemma bit_octets_1: "0 < N \<Longrightarrow> bit_octets N = 1 \<and> bit_unused N \<noteq> 0 \<longleftrightarrow> N < 8"
  using bit_octets_unused [of N] by (auto simp: bit_octets_def bit_unused_def split: if_splits)

lemma bit_unused_7: "bit_unused N = 7 \<longleftrightarrow> N mod 8 = 1"
  by (auto simp: bit_unused_def)

lemma of_nat_word32_eq:
  assumes "a < 2 ^ 32" "b < 2 ^ 32"
  shows "(of_nat a = (of_nat b :: 32 word)) = (a = b)"
proof
  assume "of_nat a = (of_nat b :: 32 word)"
  then have "unat (of_nat a :: 32 word) = unat (of_nat b :: 32 word)" by simp
  then show "a = b" using assms by (simp add: unat_of_nat)
qed simp

lemma BEncAsnBitsContent_eq:
  fixes x :: AsnBits
  assumes "0 < bitLen x" "bitLen x < 2 ^ 31" and N: "N = nat (bitLen x)"
    and "bit_octets N \<le> length (bits x)" "i < bit_octets N" "padded x ! i \<noteq> 0"
  shows "BEncAsnBitsContent g b x =
    Some (let b = putSegRvs g b (take (bit_octets N) (padded x)) in
      if N mod 8 = 1 then (of_nat (bit_octets N), b)
      else (of_nat (bit_octets N) + 1, putByteRvs g b (of_nat (bit_unused N))), x\<lparr>bits := padded x\<rparr>)"
proof -
  have n: "bitLen x = int N" "0 < N" "N < 2 ^ 31" using assms by auto
  note w = bits_words [OF n(2,3)]
  have ne: "bits x \<noteq> []" using assms(4,5) by auto
  have i: "i < N div 8 + 1" "i < length (bits x)" "bits x ! i \<noteq> 0"
    using assms(4-6) padded_nonzero [OF _ ne] n(2) by (auto simp: bit_octets_def)
  have k: "cquot (bitLen x) 8 + 1 = int (N div 8 + 1)" by (simp add: n zdiv_int)
  have z: "allZero (bits x) (nat (int (N div 8 + 1))) = Some False"
    using allZero_False [OF i] by (simp only: nat_int)
  have c: "cquot (int N - 1) 8 = (int N - 1) div 8" "crem (int N) 8 = int N mod 8" "(int N = 0) = False"
    using n(2) by simp_all
  have b: "bit_unused N < 2 ^ 32" "bit_octets N < 2 ^ 32"
    using bit_octets_unused [of N] n(3) by (auto simp: bit_octets_def)
  have e: "(of_nat (bit_unused N) = (0 :: 32 word)) = (bit_unused N = 0)"
    "(of_nat (bit_unused N) = (7 :: 32 word)) = (N mod 8 = 1)"
    "(of_nat (bit_octets N) = (1 :: 32 word)) = (bit_octets N = 1)"
    "((1 :: 32 word) < of_nat (bit_octets N)) = (1 < bit_octets N)"
    using of_nat_word32_eq [OF b(1), of 0] of_nat_word32_eq [OF b(1), of 7] of_nat_word32_eq [OF b(2), of 1]
      bit_unused_7 [of N] w(2) by (simp_all add: word_less_nat_alt)
  have p: "padded x = (if bit_unused N \<noteq> 0 \<and> bit_octets N = 1 \<and> bits x ! 0 \<noteq> 0
      then (bits x)[0 := bits x ! 0 AND ucast (push_bit (bit_unused N) (0xff :: 32 word))] else bits x)"
    using bit_octets_1 [OF n(2)] unfolding padded_def Let_def N [symmetric] by auto
  have r: "(if bit_unused N \<noteq> 0 \<and> bit_octets N = 1 \<and> bits x ! 0 \<noteq> 0
      then x\<lparr>bits := (bits x)[0 := bits x ! 0 AND ucast (push_bit (bit_unused N) (0xff :: 32 word))]\<rparr>
      else x) = x\<lparr>bits := padded x\<rparr>"
    unfolding p by simp
  have q: "padded x ! 0 \<noteq> 0 \<or> 1 < bit_octets N"
    using assms(5,6) by (cases i) auto
  have "unat (ucast (of_nat (bit_unused N) :: 32 word) :: byte) = unat (of_nat (bit_unused N) :: byte)"
    unfolding unat_ucast_byte w(4) by (simp add: unat_of_nat)
  then have v: "(ucast (of_nat (bit_unused N) :: 32 word) :: byte) = of_nat (bit_unused N)"
    by (simp only: word_unat_eq_iff)
  show ?thesis
    unfolding BEncAsnBitsContent_def k Let_def z if_cancel option.case
    unfolding n if_False c w(1,2,3,4) e not_False_eq_True simp_thms r
    using ne assms(4) q v by simp
qed

lemma BEncAsnBitsContent_zero:
  assumes "0 \<le> bitLen x" "nat (bitLen x) div 8 < length (bits x)" "\<forall>i \<le> nat (bitLen x) div 8. bits x ! i = 0"
  shows "BEncAsnBitsContent g b x = Some ((1, putSegRvs g b [0]), x\<lparr>bitLen := 1\<rparr>)"
proof -
  define N where "N = nat (bitLen x)"
  have n: "bitLen x = int N" using assms(1) by (simp add: N_def)
  have k: "cquot (int N) 8 + 1 = int (N div 8 + 1)" by (simp add: zdiv_int)
  have z: "allZero (bits x) (nat (int (N div 8 + 1))) = Some True"
    unfolding nat_int using assms(2,3) by (intro allZero_True) (auto simp: N_def)
  obtain y ys where "bits x = y # ys" using assms(2) by (cases "bits x") auto
  moreover from this have "y = 0" using assms(3) by force
  ultimately show ?thesis
    unfolding BEncAsnBitsContent_def n k Let_def z by simp
qed

definition bits_tags :: "AsnTag list" where
  "bits_tags = [univ_tag BITSTRING_TAG_CODE, univ_cons_tag BITSTRING_TAG_CODE]"

definition parse_prim_bits :: "(nat \<Rightarrow> bool) \<Rightarrow> AsnLen \<Rightarrow> AsnBits parser" where
  "parse_prim_bits alloc len xs =
     (if len = INDEFINITE_LEN then Inl (-65)
      else let k = unat (len - 1) in
        if \<not> alloc k then Inl (-27)
        else case xs of
          [] \<Rightarrow> Inl (-4)
        | x # ys \<Rightarrow>
            if length ys < k \<or> 2 ^ 31 \<le> k then Inl (-4)
            else Inr (\<lparr>bitLen = sint ((len - 1) * 8 - ucast x), bits = take k ys\<rparr>, Suc k))"

context fwd_buffer
begin

lemma outcome_prim_bits:
  assumes "readable g rem ok b xs" "\<not> TAG_IS_CONS tag"
  shows "outcome g rem ok (BDecAsnBitsContent fuel alloc g tag len u n b) n xs
    (case parse_prim_bits alloc len xs of Inl e \<Rightarrow> Inl e | Inr (v, k) \<Rightarrow> Inr ((v, u), k))"
proof (cases xs)
  case Nil
  with assms obtain b' where "getByte g b = (0, b')" "exhausted g rem ok b'"
    by (auto elim: get_nilE)
  with Nil assms(2) copy_exhausted [of b'] show ?thesis
    by (auto simp: BDecAsnBitsContent_def parse_prim_bits_def split_beta Let_def)
next
  case (Cons x ys)
  with assms obtain b' where b': "getByte g b = (x, b')" "readable g rem ok b' ys"
    by (auto elim: get_consE)
  let ?k = "unat (len - 1)"
  show ?thesis
  proof (cases "length ys < ?k \<or> 2 ^ 31 \<le> ?k")
    case True
    then show ?thesis
      using Cons assms(2) b' copy_short [OF b'(2) unat_bound32 [of "len - 1"]]
      by (auto simp: BDecAsnBitsContent_def parse_prim_bits_def split_beta Let_def)
  next
    case False
    then obtain b2 where c: "copy g b' ?k = (take ?k ys, b2)" "readable g rem ok b2 (drop ?k ys)"
      using copyE [OF b'(2), of ?k] by auto
    have "len = of_nat (Suc ?k)" by simp
    then have "n + len = n + of_nat (Suc ?k)" by simp
    then show ?thesis
      using Cons assms(2) b' c False
      by (simp add: BDecAsnBitsContent_def parse_prim_bits_def Let_def del: of_nat_Suc)
  qed
qed

end

text \<open>What \<open>BEncAsnBitsContent\<close> writes is read back, unless \<open>bitLen mod 8 = 1\<close>.\<close>

lemma parse_prim_bits_ok:
  assumes "length bs < 2 ^ 28" "0 < N" "N = length bs * 8 - k" "k < 8" "alloc (length bs)"
  shows "parse_prim_bits alloc (of_nat (Suc (length bs))) ((of_nat k # bs) @ ys) =
    Inr (\<lparr>bitLen = int N, bits = bs\<rparr>, Suc (length bs))"
proof -
  have l: "(of_nat (Suc (length bs)) :: 32 word) - 1 = of_nat (length bs)" by simp
  have u: "unat (of_nat (length bs) :: 32 word) = length bs" using assms(1) by (simp add: unat_of_nat)
  have i: "(of_nat (Suc (length bs)) :: 32 word) \<noteq> INDEFINITE_LEN"
    by (rule of_nat_not_INDEFINITE) (use assms(1) in simp)
  have "unat (of_nat k :: byte) = k" using assms(4) by (simp add: unat_of_nat)
  then have "(ucast (of_nat k :: byte) :: 32 word) = of_nat k" by (metis ucast_byte_of_nat)
  then have w: "of_nat (length bs) * 8 - ucast (of_nat k :: byte) = (of_nat N :: 32 word)"
    using assms(2,3) by (simp add: of_nat_diff)
  have "unat (of_nat N :: 32 word) = N" using assms(1,3) by (simp add: unat_of_nat)
  moreover have "N < 2 ^ 31" using assms(1,3) by simp
  ultimately have "sint (of_nat N :: 32 word) = int N"
    using sint_neg_iff [of "of_nat N"] sint_nonneg [of "of_nat N"] by (metis not_le)
  then show ?thesis
    using assms(1,5) i unfolding parse_prim_bits_def l u Let_def append_Cons by (simp add: w)
qed

lemma sint_of_int32: "- (2 ^ 31) \<le> i \<Longrightarrow> i < 2 ^ 31 \<Longrightarrow> sint (word_of_int i :: 32 word) = i"
  by (simp add: sint_sbintrunc' signed_take_bit_int_eq_self)

text \<open>Without the unused-bits octet the first data octet is taken for it.\<close>

lemma parse_prim_bits_lost:
  assumes "length bs < 2 ^ 28" "alloc (length bs)"
  shows "parse_prim_bits alloc (of_nat (length (x # bs))) ((x # bs) @ ys) =
    Inr (\<lparr>bitLen = int (length bs) * 8 - int (unat x), bits = bs\<rparr>, length (x # bs))"
proof -
  have l: "(of_nat (Suc (length bs)) :: 32 word) - 1 = of_nat (length bs)" by simp
  have u: "unat (of_nat (length bs) :: 32 word) = length bs" using assms(1) by (simp add: unat_of_nat)
  have i: "(of_nat (Suc (length bs)) :: 32 word) \<noteq> INDEFINITE_LEN"
    by (rule of_nat_not_INDEFINITE) (use assms(1) in simp)
  have w: "of_nat (length bs) * 8 - ucast x = (word_of_int (int (length bs) * 8 - int (unat x)) :: 32 word)"
    unfolding ucast_byte_of_nat by simp
  have "sint (word_of_int (int (length bs) * 8 - int (unat x)) :: 32 word) = int (length bs) * 8 - int (unat x)"
  proof (rule sint_of_int32)
    define X where "X = int (unat x)"
    have "0 \<le> X" "X < 256" using byte_bound [of x] unfolding X_def by linarith+
    then show "- (2 ^ 31) \<le> int (length bs) * 8 - int (unat x)" "int (length bs) * 8 - int (unat x) < 2 ^ 31"
      unfolding X_def [symmetric] using assms(1) by simp_all
  qed
  then show ?thesis
    using assms i unfolding parse_prim_bits_def length_Cons l u Let_def append_Cons list.case w by simp
qed

subsection \<open>The constructed form\<close>

abbreviation bit_piece :: "byte \<times> byte list \<Rightarrow> byte list" where
  "bit_piece \<equiv> \<lambda>(k, p). tlv BITSTRING_TAG_CODE (k # p)"

lemma bits_tag_form:
  "\<not> TAG_IS_CONS (univ_tag BITSTRING_TAG_CODE)" "TAG_IS_CONS (univ_cons_tag BITSTRING_TAG_CODE)"
  "univ_tag BITSTRING_TAG_CODE \<noteq> EOC_TAG_ID" "univ_cons_tag BITSTRING_TAG_CODE \<noteq> EOC_TAG_ID"
  by (simp_all add: TAG_IS_CONS_def univ_tag_def univ_cons_tag_def MAKE_TAG_ID_def MAKE_TAG_ID_CODE_def
      MAKE_TAG_ID_CODE1_def BITSTRING_TAG_CODE_def EOC_TAG_ID_def)

context fwd_buffer
begin

text \<open>The header of a piece.\<close>

lemma piece_head:
  assumes "readable g rem ok b (bit_piece (k, p) @ ys)"
  obtains b2 where "\<And>F. dbind (BDecTag g b n) (\<lambda>t n b. if t = EOC_TAG_ID \<and> Q then E t n b
      else dbind (BDecLen g b n) (F t)) =
    F (univ_tag BITSTRING_TAG_CODE) (of_nat (Suc (length p)))
      (n + of_nat (1 + length (def_len_bytes (of_nat (Suc (length p)))))) b2"
    "readable g rem ok b2 (k # p @ ys)"
proof -
  let ?l = "of_nat (Suc (length p)) :: 32 word"
  let ?xs = "bit_piece (k, p) @ ys"
  have t: "parse_tag ?xs = Inr (univ_tag BITSTRING_TAG_CODE, 1)"
    unfolding tlv_def prod.case append_Cons by (rule parse_tag_univ) (simp add: BITSTRING_TAG_CODE_def)
  have l: "parse_len (drop 1 ?xs) = Inr (?l, length (def_len_bytes ?l))"
    using parse_def_len_bytes [of ?l "(k # p) @ ys"] by (simp add: tlv_def)
  obtain b1 where 1: "BDecTag g b n = Ret (univ_tag BITSTRING_TAG_CODE) (n + 1) b1"
    "readable g rem ok b1 (drop 1 ?xs)"
    using outcome_BDecTag [OF assms, of n] unfolding t by auto
  obtain b2 where 2: "BDecLen g b1 (n + 1) = Ret ?l (n + 1 + of_nat (length (def_len_bytes ?l))) b2"
    "readable g rem ok b2 (drop (length (def_len_bytes ?l)) (drop 1 ?xs))"
    using outcome_BDecLen [OF 1(2), of "n + 1"] unfolding l by auto
  show ?thesis
  proof (rule that)
    show "readable g rem ok b2 (k # p @ ys)"
      using 2(2) by (simp add: tlv_def)
    show "dbind (BDecTag g b n) (\<lambda>t n b. if t = EOC_TAG_ID \<and> Q then E t n b
        else dbind (BDecLen g b n) (F t)) =
      F (univ_tag BITSTRING_TAG_CODE) ?l (n + of_nat (1 + length (def_len_bytes ?l))) b2" for F
      using 1(1) 2(1) bits_tag_form by (simp add: add.assoc)
  qed
qed

lemma FillBitStringStk_stale:
  assumes "readable g rem ok b (bit_piece (k, p) @ ys)" "u \<noteq> 0" "n < len \<or> len = INDEFINITE_LEN"
  shows "FillBitStringStk (Suc fuel) g len (s, u) n b = Jmp (-1)"
proof -
  obtain b2 where h: "\<And>F. dbind (BDecTag g b n) (\<lambda>t n b. if t = EOC_TAG_ID \<and> len = INDEFINITE_LEN
      then dbind (BDEC_2ND_EOC_OCTET g b n) (\<lambda>_ n b. Ret (s, u) n b)
      else dbind (BDecLen g b n) (F t)) =
    F (univ_tag BITSTRING_TAG_CODE) (of_nat (Suc (length p)))
      (n + of_nat (1 + length (def_len_bytes (of_nat (Suc (length p)))))) b2"
    using piece_head [OF assms(1), of n "len = INDEFINITE_LEN"
        "\<lambda>t n b. dbind (BDEC_2ND_EOC_OCTET g b n) (\<lambda>_ n b. Ret (s, u) n b)"] by blast
  show ?thesis
    unfolding FillBitStringStk.simps using assms(2,3) by (subst h) auto
qed

lemma FillBitStringStk_pieces:
  assumes "readable g rem ok b (concat (map bit_piece ps) @ 0 # 0 # ys)"
    and "\<forall>q \<in> set (butlast ps). fst q = 0" "\<forall>q \<in> set ps. length (snd q) < 2 ^ 31"
    and "ps \<noteq> [] \<longrightarrow> u = 0" "length ps < fuel"
  shows "\<exists>s' b'. FillBitStringStk fuel g INDEFINITE_LEN (s, u) n b =
      Ret (s', if ps = [] then u else ucast (fst (last ps)))
        (n + of_nat (length (concat (map bit_piece ps)) + 2)) b' \<and>
    pushed s s' (concat (map snd ps)) \<and> readable g rem ok b' ys"
  using assms
proof (induction ps arbitrary: b s u n fuel)
  case Nil
  then obtain f where f: "fuel = Suc f" by (cases fuel) auto
  have t: "parse_tag (0 # 0 # ys) = Inr (EOC_TAG_ID, 1)" by (simp add: tag_val_def EOC_TAG_ID_def)
  have "readable g rem ok b (0 # 0 # ys)" using Nil(1) by simp
  then obtain b1 where 1: "BDecTag g b n = Ret EOC_TAG_ID (n + 1) b1" "readable g rem ok b1 (0 # ys)"
    using outcome_BDecTag [of b "0 # 0 # ys" n] unfolding t by auto
  obtain b2 where "BDEC_2ND_EOC_OCTET g b1 (n + 1) = Ret () (n + 1 + 1) b2" "readable g rem ok b2 ys"
    using BDEC_2ND_EOC_OCTET_ok [OF 1(2), of "n + 1"] by auto
  then show ?case using 1 f by simp
next
  case (Cons q ps)
  obtain k p where q: "q = (k, p)" by (cases q)
  obtain f where f: "fuel = Suc f" "length ps < f" using Cons.prems(5) by (cases fuel) auto
  let ?ys = "concat (map bit_piece ps) @ 0 # 0 # ys"
  let ?L = "of_nat (Suc (length p)) :: 32 word"
  let ?m = "n + of_nat (1 + length (def_len_bytes ?L))"
  have "readable g rem ok b (bit_piece (k, p) @ ?ys)" using Cons.prems(1) q by simp
  then obtain b2 where h: "\<And>F. dbind (BDecTag g b n) (\<lambda>t n b. if t = EOC_TAG_ID \<and> INDEFINITE_LEN = INDEFINITE_LEN
      then dbind (BDEC_2ND_EOC_OCTET g b n) (\<lambda>_ n b. Ret (s, u) n b)
      else dbind (BDecLen g b n) (F t)) =
    F (univ_tag BITSTRING_TAG_CODE) ?L ?m b2" "readable g rem ok b2 (k # p @ ?ys)"
    using piece_head [of b k p ?ys n "INDEFINITE_LEN = INDEFINITE_LEN"
        "\<lambda>t n b. dbind (BDEC_2ND_EOC_OCTET g b n) (\<lambda>_ n b. Ret (s, u) n b)"] by blast
  obtain b3 where 3: "getByte g b2 = (k, b3)" "readable g rem ok b3 (p @ ?ys)"
    using h(2) by (auto elim: get_consE)
  have len: "length p < 2 ^ 31" using Cons.prems(3) q by simp
  have w: "?L - 1 = of_nat (length p)" "unat (of_nat (length p) :: 32 word) = length p" "?L \<noteq> 0"
  proof -
    show "?L - 1 = of_nat (length p)" by simp
    show "unat (of_nat (length p) :: 32 word) = length p" using len by (simp add: unat_of_nat)
    have "unat ?L = Suc (length p)" using len by (simp add: unat_of_nat del: of_nat_Suc)
    then show "?L \<noteq> 0" by (metis nat.simps(3) unat_0)
  qed
  obtain s4 b4 where 4: "segLoop (Suc (unat (?L - 1))) g (-2) (?L - 1) (?L - 1) 0 s (?m + 1) b3 =
      Ret s4 (?m + 1 + (?L - 1)) b4" "pushed s s4 p" "readable g rem ok b4 ?ys"
    using segLoop_ok [OF 3(2), of "?L - 1" "Suc (unat (?L - 1))" 0 "?L - 1" "-2" s "?m + 1"] w
    by auto
  have u: "ps \<noteq> [] \<longrightarrow> (ucast k :: 16 word) = 0" using Cons.prems(2) q by (auto split: if_splits)
  obtain s5 b5 where 5: "FillBitStringStk f g INDEFINITE_LEN (s4, ucast k) (?m + 1 + (?L - 1)) b4 =
      Ret (s5, if ps = [] then ucast k else ucast (fst (last ps)))
        (?m + 1 + (?L - 1) + of_nat (length (concat (map bit_piece ps)) + 2)) b5"
    "pushed s4 s5 (concat (map snd ps))" "readable g rem ok b5 ys"
    using Cons.IH [OF 4(3) _ _ u f(2), of s4 "?m + 1 + (?L - 1)"] Cons.prems(2,3) by (auto split: if_splits)
  have "u = 0" using Cons.prems(4) by simp
  have "FillBitStringStk fuel g INDEFINITE_LEN (s, u) n b =
      dbind (segLoop (Suc (unat (?L - 1))) g (-2) (?L - 1) (?L - 1) 0 s (?m + 1) b3)
        (\<lambda>s n b. FillBitStringStk f g INDEFINITE_LEN (s, ucast k) n b)"
    unfolding f FillBitStringStk.simps using w(3) bits_tag_form(3) \<open>u = 0\<close> 3(1) by (subst h(1)) (simp add: Let_def del: of_nat_Suc segLoop.simps)
  moreover have "?m + 1 + (?L - 1) + of_nat (length (concat (map bit_piece ps)) + 2) =
      n + of_nat (length (concat (map bit_piece (q # ps))) + 2)"
    by (simp add: q length_tlv algebra_simps)
  ultimately show ?case
    using 4 5 pushed_trans [OF 4(2) 5(2)] q by simp
qed

end

subsection \<open>Single bits\<close>

definition wf_bits :: "AsnBits \<Rightarrow> bool" where
  "wf_bits x \<longleftrightarrow> 0 \<le> bitLen x \<and> bitLen x < 2 ^ 31 \<and> bit_octets (nat (bitLen x)) \<le> length (bits x)"

definition bit_at :: "AsnBits \<Rightarrow> nat \<Rightarrow> bool" where
  "bit_at x n \<longleftrightarrow> bit (bits x ! (n div 8)) (7 - n mod 8)"

lemma wf_bits_index:
  assumes "wf_bits x" "n < nat (bitLen x)"
  shows "n < bitLen_size x" "n div 8 < length (bits x)"
proof -
  show "n < bitLen_size x" using assms by (simp add: wf_bits_def bitLen_size_def)
  have "n div 8 < bit_octets (nat (bitLen x))" using assms(2) by (simp add: bit_octets_def)
  then show "n div 8 < length (bits x)" using assms(1) by (simp add: wf_bits_def)
qed

lemma same_bit:
  assumes "n div 8 = m div 8"
  shows "(7 - n mod 8 = 7 - m mod 8) = (n = (m :: nat))"
proof -
  have "n mod 8 < 8" "m mod 8 < 8" by simp_all
  then have "(7 - n mod 8 = 7 - m mod 8) = (n mod 8 = m mod 8)" by linarith
  also have "\<dots> = (n = m)" using assms by (metis div_mult_mod_eq)
  finally show ?thesis .
qed

lemma SetAsnBit_bits:
  assumes "wf_bits x" "n < nat (bitLen x)"
  shows "\<exists>y. SetAsnBit x n = Some y \<and> wf_bits y \<and> bitLen y = bitLen x \<and>
    (\<forall>m. m < nat (bitLen x) \<longrightarrow> bit_at y m = (m = n \<or> bit_at x m))"
  using wf_bits_index [OF assms] wf_bits_index [OF assms(1)] assms(1) same_bit
  by (auto simp: SetAsnBit_def Let_def wf_bits_def bit_at_def nth_list_update bit_or_iff bit_exp_iff)

lemma ClrAsnBit_bits:
  assumes "wf_bits x" "n < nat (bitLen x)"
  shows "\<exists>y. ClrAsnBit x n = Some y \<and> wf_bits y \<and> bitLen y = bitLen x \<and>
    (\<forall>m. m < nat (bitLen x) \<longrightarrow> bit_at y m = (m \<noteq> n \<and> bit_at x m))"
  using wf_bits_index [OF assms] wf_bits_index [OF assms(1)] assms(1) same_bit
  by (auto simp: ClrAsnBit_def Let_def wf_bits_def bit_at_def nth_list_update bit_and_iff bit_not_iff
      bit_exp_iff)

lemma GetAsnBit_bit:
  assumes "wf_bits x" "n < nat (bitLen x)"
  shows "\<exists>v. GetAsnBit x n = Some v \<and> (v \<noteq> 0 \<longleftrightarrow> bit_at x n)"
proof -
  let ?o = "bits x ! (n div 8)" and ?k = "7 - n mod 8"
  have "scast ?o AND push_bit ?k (1 :: 32 word) = (if bit ?o ?k then push_bit ?k 1 else 0)"
    by (rule bit_word_eqI) (auto simp: bit_simps)
  moreover have "push_bit ?k (1 :: 32 word) \<noteq> 0"
  proof
    assume "push_bit ?k (1 :: 32 word) = 0"
    then have "bit (push_bit ?k (1 :: 32 word)) ?k = False" by simp
    then show False by (simp add: bit_simps)
  qed
  moreover have "sint w \<noteq> 0" if "w \<noteq> 0" for w :: "32 word"
    using that by (simp add: signed_eq_0_iff)
  ultimately show ?thesis
    using wf_bits_index [OF assms]
    by (simp add: GetAsnBit_def Let_def bit_at_def del: push_bit_of_1)
qed

lemma byte_mask_eq:
  fixes x y :: byte
  assumes "u < 8"
  shows "scast x AND (push_bit u 0xFF :: 32 word) = scast y AND push_bit u 0xFF \<longleftrightarrow>
    (\<forall>k. u \<le> k \<and> k < 8 \<longrightarrow> bit x k = bit y k)" (is "?l \<longleftrightarrow> ?r")
proof
  have m: "bit (push_bit u (0xFF :: 32 word)) k \<longleftrightarrow> u \<le> k \<and> k < u + 8" for k
  proof -
    have "(0xFF :: 32 word) = mask 8" by (simp add: mask_eq_exp_minus_1)
    then show ?thesis using assms by (simp only: bit_push_bit_iff bit_mask_iff) auto
  qed
  show ?r if ?l
  proof (intro allI impI)
    fix k assume k: "u \<le> k \<and> k < 8"
    have "bit (scast x AND (push_bit u 0xFF :: 32 word)) k = bit (scast y AND (push_bit u 0xFF :: 32 word)) k"
      using that by simp
    then have "bit (scast x :: 32 word) k = bit (scast y :: 32 word) k" using k by (simp only: bit_and_iff m) auto
    then show "bit x k = bit y k" using k by (cases "k = 7") (simp_all add: bit_signed_iff min_def split: if_splits)
  qed
  show ?l if ?r
  proof (rule bit_word_eqI)
    fix k
    have "bit (scast x :: 32 word) k = bit (scast y :: 32 word) k" if "u \<le> k" "k < 32"
      using \<open>?r\<close> that assms by (simp add: bit_signed_iff min_def)
    moreover assume "k < LENGTH(32)"
    ultimately show "bit (scast x AND (push_bit u 0xFF :: 32 word)) k = bit (scast y AND (push_bit u 0xFF :: 32 word)) k"
      by (simp only: bit_and_iff m) auto
  qed
qed

lemma octet_index: "k < 8 \<Longrightarrow> (i * 8 + (7 - k)) div 8 = i \<and> 7 - (i * 8 + (7 - k)) mod 8 = (k :: nat)"
proof -
  assume "k < 8"
  then obtain j where j: "j < 8" "7 - k = j" "7 - j = k" by fastforce
  then show ?thesis by simp
qed

lemma bit_at_octets:
  fixes xs ys :: "byte list"
  assumes "length xs = length ys"
  shows "xs = ys \<longleftrightarrow> (\<forall>n < 8 * length xs. bit (xs ! (n div 8)) (7 - n mod 8) = bit (ys ! (n div 8)) (7 - n mod 8))"
    (is "_ \<longleftrightarrow> ?r")
proof
  assume r: ?r
  show "xs = ys"
  proof (rule nth_equalityI [OF assms], rule bit_word_eqI)
    fix i k assume i: "i < length xs" and k: "k < LENGTH(8)"
    have "i * 8 + (7 - k) < 8 * length xs" using i by simp
    then show "bit (xs ! i) k = bit (ys ! i) k" using r octet_index [of k i] k by auto
  qed
qed simp

lemma AsnBitsEquiv_bits:
  assumes "wf_bits x" "wf_bits y"
  shows "AsnBitsEquiv x y = Some (bitLen x = bitLen y \<and> (\<forall>n < nat (bitLen x). bit_at x n = bit_at y n))"
proof (cases "bitLen x = bitLen y \<and> 0 < bitLen x")
  case False
  then show ?thesis using assms by (auto simp: AsnBitsEquiv_def wf_bits_def Let_def)
next
  case True
  define N where "N = nat (bitLen x)"
  define o1 where "o1 = (N - 1) div 8"
  have n: "bitLen x = int N" "bitLen y = int N" "0 < N" "N = nat (bitLen x)" using True by (auto simp: N_def)
  have q: "cquot (int N - 1) 8 = int o1"
    using n(3) by (simp add: o1_def zdiv_int of_nat_diff)
  have r: "crem (int N) 8 = int (N mod 8)" by (simp add: zmod_int)
  have u: "(if int (N mod 8) \<noteq> 0 then 8 - int (N mod 8) else int (N mod 8)) = int (bit_unused N)"
    by (simp add: bit_unused_def of_nat_diff less_imp_le)
  have oc: "bit_octets N = Suc o1" using n(3) by (cases N) (simp_all add: bit_octets_def o1_def)
  have le: "o1 < length (bits x)" "o1 < length (bits y)"
    using assms oc unfolding wf_bits_def n(1,2) nat_int by auto
  have u8: "bit_unused N < 8" and N8: "N = 8 * o1 + (8 - bit_unused N)"
    using bit_octets_unused [of N] oc by auto
  have "take o1 (bits x) = take o1 (bits y) \<longleftrightarrow> (\<forall>n < 8 * o1. bit_at x n = bit_at y n)"
    using le by (subst bit_at_octets) (auto simp: bit_at_def)
  moreover have "(\<forall>k. bit_unused N \<le> k \<and> k < 8 \<longrightarrow> bit (bits x ! o1) k = bit (bits y ! o1) k) \<longleftrightarrow>
      (\<forall>n. 8 * o1 \<le> n \<and> n < N \<longrightarrow> bit_at x n = bit_at y n)" (is "?a \<longleftrightarrow> ?b")
  proof
    show ?b if ?a
    proof (intro allI impI)
      fix n assume h: "8 * o1 \<le> n \<and> n < N"
      then have "n div 8 = o1" using N8 by (intro div_nat_eqI) auto
      moreover have "n mod 8 = n - 8 * o1" using \<open>n div 8 = o1\<close> by (simp flip: minus_mult_div_eq_mod)
      moreover have "bit_unused N \<le> 7 - (n - 8 * o1) \<and> 7 - (n - 8 * o1) < 8" using h N8 u8 by linarith
      ultimately show "bit_at x n = bit_at y n" using that unfolding bit_at_def by metis
    qed
    show ?a if ?b
    proof (intro allI impI)
      fix k assume k: "bit_unused N \<le> k \<and> k < 8"
      have "8 * o1 \<le> o1 * 8 + (7 - k) \<and> o1 * 8 + (7 - k) < N" using N8 k u8 by auto
      with octet_index [of k o1] k that show "bit (bits x ! o1) k = bit (bits y ! o1) k"
        unfolding bit_at_def by metis
    qed
  qed
  moreover have "(\<forall>n < 8 * o1. P n) \<and> (\<forall>n. 8 * o1 \<le> n \<and> n < N \<longrightarrow> P n) \<longleftrightarrow> (\<forall>n < N. P n)" for P
    using N8 u8 by (metis le_add1 less_le_trans not_le)
  ultimately have "(take o1 (bits x) = take o1 (bits y) \<and>
      (\<forall>k. bit_unused N \<le> k \<and> k < 8 \<longrightarrow> bit (bits x ! o1) k = bit (bits y ! o1) k)) =
      (\<forall>n < N. bit_at x n = bit_at y n)"
    by simp
  then show ?thesis
    using le n(3) unfolding AsnBitsEquiv_def n(1,2) Let_def
    by (simp only: q r u nat_int byte_mask_eq [OF u8]) simp
qed

subsection \<open>Whole elements\<close>

context rvs_buffer
begin

lemma BEncAsnBits_tlv:
  fixes x :: AsnBits
  assumes "0 < bitLen x" "bitLen x < 2 ^ 31" and N: "N = nat (bitLen x)"
    and "bit_octets N \<le> length (bits x)" "i < bit_octets N" "padded x ! i \<noteq> 0"
  shows "\<exists>c. BEncAsnBits g b x = Some (c, x\<lparr>bits := padded x\<rparr>) \<and>
    emits g data ok room b (snd c) (tlv BITSTRING_TAG_CODE
      ((if N mod 8 = 1 then [] else [of_nat (bit_unused N)]) @ take (bit_octets N) (padded x))) \<and>
    fst c = of_nat (length (tlv BITSTRING_TAG_CODE
      ((if N mod 8 = 1 then [] else [of_nat (bit_unused N)]) @ take (bit_octets N) (padded x))))"
proof -
  let ?bs = "take (bit_octets N) (padded x)"
  have "bit_octets N < 2 ^ 31" using assms(2) N by (simp add: bit_octets_def nat_less_iff)
  then have p: "emits g data ok room b (putSegRvs g b ?bs) ?bs" by (intro put_seg) simp
  have l: "length ?bs = bit_octets N" using assms(4) by simp
  show ?thesis
    unfolding BEncAsnBits_def BEncAsnBitsContent_eq [OF assms, of g b] Let_def
  proof (cases "N mod 8 = 1")
    case True
    then show "\<exists>c. map_option (\<lambda>(c, x). (BEncUniv g BITSTRING_TAG_CODE c, x)) (Some (if N mod 8 = 1
        then (of_nat (bit_octets N), putSegRvs g b ?bs)
        else (of_nat (bit_octets N) + 1, putByteRvs g (putSegRvs g b ?bs) (of_nat (bit_unused N))),
        x\<lparr>bits := padded x\<rparr>)) = Some (c, x\<lparr>bits := padded x\<rparr>) \<and>
      emits g data ok room b (snd c) (tlv BITSTRING_TAG_CODE
        ((if N mod 8 = 1 then [] else [of_nat (bit_unused N)]) @ ?bs)) \<and>
      fst c = of_nat (length (tlv BITSTRING_TAG_CODE
        ((if N mod 8 = 1 then [] else [of_nat (bit_unused N)]) @ ?bs)))"
      using BEncUniv_tlv [of b "(of_nat (bit_octets N), putSegRvs g b ?bs)" ?bs] p l by simp
  next
    case False
    then show "\<exists>c. map_option (\<lambda>(c, x). (BEncUniv g BITSTRING_TAG_CODE c, x)) (Some (if N mod 8 = 1
        then (of_nat (bit_octets N), putSegRvs g b ?bs)
        else (of_nat (bit_octets N) + 1, putByteRvs g (putSegRvs g b ?bs) (of_nat (bit_unused N))),
        x\<lparr>bits := padded x\<rparr>)) = Some (c, x\<lparr>bits := padded x\<rparr>) \<and>
      emits g data ok room b (snd c) (tlv BITSTRING_TAG_CODE
        ((if N mod 8 = 1 then [] else [of_nat (bit_unused N)]) @ ?bs)) \<and>
      fst c = of_nat (length (tlv BITSTRING_TAG_CODE
        ((if N mod 8 = 1 then [] else [of_nat (bit_unused N)]) @ ?bs)))"
      using BEncUniv_tlv [of b "(of_nat (bit_octets N) + 1, putByteRvs g (putSegRvs g b ?bs) (of_nat (bit_unused N)))"
          "of_nat (bit_unused N) # ?bs"] emits_byte_after [OF p] l by simp
  qed
qed

end

context fwd_buffer
begin

lemma outcome_BDecAsnBits_prim:
  assumes "readable g rem ok b (tlv BITSTRING_TAG_CODE bs @ ys)"
    and "parse_prim_bits alloc (of_nat (length bs)) (bs @ ys) = Inr (v, length bs)"
  shows "\<exists>b'. BDecAsnBits fuel alloc g u b n = Ret (v, u) (n + of_nat (length (tlv BITSTRING_TAG_CODE bs))) b' \<and>
    readable g rem ok b' ys"
proof -
  let ?P = "\<lambda>(tag, len) xs. if TAG_IS_CONS tag then Inl 0
    else case parse_prim_bits alloc len xs of Inl e \<Rightarrow> Inl e | Inr (v, k) \<Rightarrow> Inr ((v, u), k)"
  let ?xs = "tlv BITSTRING_TAG_CODE bs @ ys"
  note h = parse_head_tlv [of BITSTRING_TAG_CODE bits_tags "-40" bs ys]
  have t: "parse_head (-40) bits_tags ?xs = Inr ((univ_tag BITSTRING_TAG_CODE, of_nat (length bs)),
      1 + length (def_len_bytes (of_nat (length bs))))"
    by (rule h) (simp_all add: bits_tags_def BITSTRING_TAG_CODE_def)
  have "outcome g rem ok (BDecAsnBits fuel alloc g u b n) n ?xs (pbind (parse_head (-40) bits_tags) ?P ?xs)"
    unfolding BDecAsnBits_def bits_tags_def [symmetric]
    by (rule outcome_univ [OF assms(1)]) (use t bits_tag_form(1) in \<open>auto simp: outcome_prim_bits\<close>)
  moreover have "pbind (parse_head (-40) bits_tags) ?P ?xs = Inr ((v, u), length (tlv BITSTRING_TAG_CODE bs))"
    by (rule parse_univ_tlv) (use assms(2) bits_tag_form(1) in \<open>simp_all add: bits_tags_def BITSTRING_TAG_CODE_def\<close>)
  ultimately show ?thesis by auto
qed

lemma BDecConsAsnBits_pieces:
  assumes "readable g rem ok b (concat (map bit_piece ps) @ 0 # 0 # ys)" "ps \<noteq> []"
    and "\<forall>q \<in> set (butlast ps). fst q = 0" "\<forall>q \<in> set ps. length (snd q) < 2 ^ 31"
    and "length ps < fuel" "length (concat (map snd ps)) < 2 ^ 28" "alloc (length (concat (map snd ps)))"
  shows "\<exists>b'. BDecConsAsnBits fuel alloc g INDEFINITE_LEN 0 n b =
      Ret (\<lparr>bitLen = int (length (concat (map snd ps))) * 8 - int (unat (fst (last ps))),
            bits = concat (map snd ps)\<rparr>, ucast (fst (last ps)))
        (n + of_nat (length (concat (map bit_piece ps)) + 2)) b' \<and> readable g rem ok b' ys"
proof -
  let ?s = "RESET_STR_STK strStkG" and ?bs = "concat (map snd ps)" and ?k = "fst (last ps)"
  obtain s' b' where 1: "FillBitStringStk fuel g INDEFINITE_LEN (?s, 0) 0 b =
      Ret (s', ucast ?k) (of_nat (length (concat (map bit_piece ps)) + 2)) b'"
    "pushed ?s s' ?bs" "readable g rem ok b' ys"
    using FillBitStringStk_pieces [OF assms(1,3,4) _ assms(5), of 0 ?s 0] assms(2) by auto
  have s: "concat (stk s') = ?bs" "totalByteLen s' = of_nat (length ?bs)"
    using 1(2) by (auto simp: pushed_def RESET_STR_STK_def strStkG_def)
  have u: "unat (of_nat (length ?bs) :: 32 word) = length ?bs" using assms(6) by (simp add: unat_of_nat)
  have e: "unat (ucast ?k :: 16 word) = unat ?k"
    using byte_bound [of ?k] by (simp add: unsigned_ucast_eq take_bit_nat_eq_self_iff)
  have "(ucast (ucast ?k :: 16 word) :: 32 word) = of_nat (unat (ucast ?k :: 16 word))" by simp
  then have "(ucast (ucast ?k :: 16 word) :: 32 word) = of_nat (unat ?k)" unfolding e .
  then have w: "of_nat (length ?bs) * 8 - ucast (ucast ?k :: 16 word) =
      (word_of_int (int (length ?bs) * 8 - int (unat ?k)) :: 32 word)" by simp
  have "sint (word_of_int (int (length ?bs) * 8 - int (unat ?k)) :: 32 word) = int (length ?bs) * 8 - int (unat ?k)"
  proof (rule sint_of_int32)
    define X where "X = int (unat ?k)"
    have "0 \<le> X" "X < 256" using byte_bound [of ?k] unfolding X_def by linarith+
    then show "- (2 ^ 31) \<le> int (length ?bs) * 8 - int (unat ?k)" "int (length ?bs) * 8 - int (unat ?k) < 2 ^ 31"
      unfolding X_def [symmetric] using assms(6) by simp_all
  qed
  then show ?thesis
    using 1 assms(7) unfolding BDecConsAsnBits_def 1(1) dbind.simps prod.case s u w by simp
qed

end

end
