(* ===== verification/Asn_Int.thy ===== *)
theory Asn_Int
  imports Asn_Tlv
begin

section \<open>INTEGER and ENUMERATED (\<open>c-lib/src/asn-int.c\<close>, \<open>asn-enum.c\<close>)\<close>

text \<open>
  Signed and unsigned integers of 32 bits.  \<open>int_bytes\<close> and \<open>uint_bytes\<close> are the
  content octets the encoders write, \<open>twos\<close> is the number that content octets stand for
  in X.690, and \<open>parse_int_content\<close> is what the decoder makes of them.
\<close>

subsection \<open>Encoders\<close>

definition INT_MASK :: "32 word" where
  "INT_MASK = push_bit ((4 - 2) * 8) 0x7f80"

text \<open>The loop that finds the length; \<open>neg\<close> selects the loop of the negative branch.\<close>

fun intLen :: "bool \<Rightarrow> 32 word \<Rightarrow> 32 word \<Rightarrow> nat \<Rightarrow> nat" where
  "intLen neg d msk (Suc (Suc len)) =
     (if d AND msk = (if neg then msk else 0) then intLen neg d (drop_bit 8 msk) (Suc len)
      else Suc (Suc len))"
| "intLen neg d msk len = len"

text \<open>The writing loop on a signed \<open>long\<close>: \<open>>>=\<close> keeps the sign.\<close>

fun putBytesSRvs :: "('b, 'z) GenBuf_scheme \<Rightarrow> nat \<Rightarrow> 32 word \<Rightarrow> 'b \<Rightarrow> 'b" where
  "putBytesSRvs g 0 w b = b"
| "putBytesSRvs g (Suc n) w b = putBytesSRvs g n (signed_drop_bit 8 w) (putByteRvs g b (ucast w))"

definition BEncAsnIntContent :: "('b, 'z) GenBuf_scheme \<Rightarrow> 'b \<Rightarrow> AsnInt \<Rightarrow> AsnLen \<times> 'b" where
  "BEncAsnIntContent g b data =
     (let len = (if sint data < 0 then intLen True data INT_MASK 4 else intLen False data INT_MASK 4)
      in (of_nat len, putBytesSRvs g len data b))"

definition BEncAsnInt :: "('b, 'z) GenBuf_scheme \<Rightarrow> 'b \<Rightarrow> AsnInt \<Rightarrow> AsnLen \<times> 'b" where
  "BEncAsnInt g b data = BEncUniv g INTEGER_TAG_CODE (BEncAsnIntContent g b data)"

definition BEncUAsnIntContent :: "('b, 'z) GenBuf_scheme \<Rightarrow> 'b \<Rightarrow> UAsnInt \<Rightarrow> AsnLen \<times> 'b" where
  "BEncUAsnIntContent g b data =
     (if sint data < 0 then
        (let b = putBytesRvs g 4 data b; b = putByteRvs g b 0 in (4 + 1, b))
      else
        (let len = intLen False data INT_MASK 4 in (of_nat len, putBytesRvs g len data b)))"

definition BEncUAsnInt :: "('b, 'z) GenBuf_scheme \<Rightarrow> 'b \<Rightarrow> UAsnInt \<Rightarrow> AsnLen \<times> 'b" where
  "BEncUAsnInt g b data = BEncUniv g INTEGER_TAG_CODE (BEncUAsnIntContent g b data)"

definition BEncAsnEnum :: "('b, 'z) GenBuf_scheme \<Rightarrow> 'b \<Rightarrow> AsnInt \<Rightarrow> AsnLen \<times> 'b" where
  "BEncAsnEnum g b data = BEncUniv g ENUM_TAG_CODE (BEncAsnIntContent g b data)"

subsection \<open>Decoders\<close>

definition BDecAsnIntContent ::
  "('b, 'z) GenBuf_scheme \<Rightarrow> AsnTag \<Rightarrow> AsnLen \<Rightarrow> AsnLen \<Rightarrow> 'b \<Rightarrow> ('b, AsnInt) dres" where
  "BDecAsnIntContent g tagId len n b =
     (if 4 < len then Jmp (-7)
      else
        let (byte, b) = getByte g b;
            retVal = (if byte AND 0x80 \<noteq> 0 then push_bit 8 0x80 OR ucast byte else ucast byte);
            (retVal, b) = getShl8 g (unat len - 1) retVal b
        in if readError g b then Jmp (-8) else Ret retVal (n + len) b)"

definition BDecAsnInt :: "('b, 'z) GenBuf_scheme \<Rightarrow> 'b \<Rightarrow> AsnLen \<Rightarrow> ('b, AsnInt) dres" where
  "BDecAsnInt g b n =
     dbind (BDecUniv g (-40) [univ_tag INTEGER_TAG_CODE] b n)
       (\<lambda>(tag, elmtLen). BDecAsnIntContent g tag elmtLen)"

definition BDecUAsnIntContent ::
  "('b, 'z) GenBuf_scheme \<Rightarrow> AsnTag \<Rightarrow> AsnLen \<Rightarrow> AsnLen \<Rightarrow> 'b \<Rightarrow> ('b, UAsnInt) dres" where
  "BDecUAsnIntContent g tag len n b =
     (let (byte, b) = getByte g b; retVal = (ucast byte :: 32 word) in
      if 4 + 1 < len then Jmp (-9)
      else if retVal AND 0x80 \<noteq> 0 then Jmp (-10)
      else if len = 4 + 1 \<and> retVal \<noteq> 0 then Jmp (-11)
      else
        let (retVal, b) = getShl8 g (unat len - 1) retVal b
        in if readError g b then Jmp (-12) else Ret retVal (n + len) b)"

definition BDecUAsnInt :: "('b, 'z) GenBuf_scheme \<Rightarrow> 'b \<Rightarrow> AsnLen \<Rightarrow> ('b, UAsnInt) dres" where
  "BDecUAsnInt g b n =
     dbind (BDecUniv g (-40) [univ_tag INTEGER_TAG_CODE] b n)
       (\<lambda>(tag, elmtLen). BDecUAsnIntContent g tag elmtLen)"

definition BDecAsnEnum :: "('b, 'z) GenBuf_scheme \<Rightarrow> 'b \<Rightarrow> AsnLen \<Rightarrow> ('b, AsnInt) dres" where
  "BDecAsnEnum g b n =
     dbind (BDecUniv g (-40) [univ_tag ENUM_TAG_CODE] b n)
       (\<lambda>(tag, elmtLen). BDecAsnIntContent g tag elmtLen)"

subsection \<open>Content octets\<close>

text \<open>The number that content octets stand for: two's complement, most significant first.\<close>

definition twos :: "byte list \<Rightarrow> int" where
  "twos bs = int (be_val bs) - (if bs \<noteq> [] \<and> 128 \<le> hd bs then 256 ^ length bs else 0)"

definition int_bytes :: "AsnInt \<Rightarrow> byte list" where
  "int_bytes d =
     to_be (if -(2 ^ 7) \<le> sint d \<and> sint d < 2 ^ 7 then 1
            else if -(2 ^ 15) \<le> sint d \<and> sint d < 2 ^ 15 then 2
            else if -(2 ^ 23) \<le> sint d \<and> sint d < 2 ^ 23 then 3
            else 4) d"

definition uint_bytes :: "UAsnInt \<Rightarrow> byte list" where
  "uint_bytes d =
     (if unat d < 2 ^ 7 then to_be 1 d
      else if unat d < 2 ^ 15 then to_be 2 d
      else if unat d < 2 ^ 23 then to_be 3 d
      else if unat d < 2 ^ 31 then to_be 4 d
      else 0 # to_be 4 d)"

text \<open>
  The sign seed of the decoder is \<open>0x80 << 8\<close>, one set bit, where all the bits above the
  first octet are meant: it is shifted out again only when four octets are read.
\<close>

definition parse_int_content :: "AsnLen \<Rightarrow> AsnInt parser" where
  "parse_int_content len xs =
     (if 4 < len then Inl (-7)
      else if length xs < unat len then Inl (-8)
      else
        let bs = take (unat len) xs in
        Inr (of_nat ((if 128 \<le> hd bs then 128 * 256 ^ length bs else 0) + be_val bs), unat len))"

definition parse_uint_content :: "AsnLen \<Rightarrow> UAsnInt parser" where
  "parse_uint_content len xs =
     (if 5 < len then Inl (-9)
      else if xs \<noteq> [] \<and> 128 \<le> hd xs then Inl (-10)
      else if len = 5 \<and> xs \<noteq> [] \<and> hd xs \<noteq> 0 then Inl (-11)
      else if length xs < unat len then Inl (-12)
      else Inr (of_nat (be_val (take (unat len) xs)), unat len))"

lemma and_window: "(w :: 32 word) AND push_bit m (mask 8) = push_bit m (take_bit 8 (drop_bit m w))"
  by (rule bit_word_eqI) (auto simp: bit_simps)

lemma window_0:
  assumes "m \<le> 24"
  shows "(w :: 32 word) AND push_bit m (mask 8) = 0 \<longleftrightarrow> unat w div 2 ^ m mod 256 = 0"
proof -
  let ?v = "take_bit 8 (drop_bit m w)"
  have v: "unat ?v = unat w div 2 ^ m mod 256"
    unfolding unsigned_take_bit_eq unat_drop_bit_eq by (simp add: take_bit_eq_mod drop_bit_eq_div)
  have "push_bit m ?v = 0 \<longleftrightarrow> ?v = 0"
  proof
    assume "push_bit m ?v = 0"
    then have "drop_bit m (push_bit m ?v) = 0" by simp
    moreover have "drop_bit m (push_bit m ?v) = ?v"
      using assms by (intro bit_word_eqI) (auto simp: bit_simps)
    ultimately show "?v = 0" by simp
  qed simp
  then show ?thesis unfolding and_window by (simp add: unat_eq_0 [symmetric] v)
qed

lemma INT_MASK_shifts:
  "INT_MASK = push_bit 23 (mask 8)" "drop_bit 8 INT_MASK = push_bit 15 (mask 8)"
  "drop_bit 8 (drop_bit 8 INT_MASK) = push_bit 7 (mask 8)"
  by (simp_all add: INT_MASK_def mask_eq_exp_minus_1)

lemma intLen_pos:
  assumes "unat d < 2 ^ 31"
  shows "intLen False d INT_MASK 4 =
    (if unat d < 2 ^ 7 then 1 else if unat d < 2 ^ 15 then 2 else if unat d < 2 ^ 23 then 3 else 4)"
proof -
  have w: "(unat d div 2 ^ m mod 256 = 0) = (unat d < 2 ^ m)" if "unat d < 2 ^ (m + 8)" for m
  proof -
    have "unat d div 2 ^ m < 256"
      using that by (simp add: less_mult_imp_div_less power_add ac_simps)
    then show ?thesis by (simp add: div_eq_0_iff)
  qed
  have 4: "intLen False d INT_MASK 4 =
      (if d AND push_bit 23 (mask 8) = 0
       then if d AND push_bit 15 (mask 8) = 0
         then if d AND push_bit 7 (mask 8) = 0 then 1 else 2 else 3 else 4)"
    unfolding INT_MASK_shifts [symmetric] by (simp add: eval_nat_numeral)
  show ?thesis
    unfolding 4 using assms w [of 23] w [of 15] w [of 7]
    by (simp add: window_0 [of 23] window_0 [of 15] window_0 [of 7])
qed

lemma intLen_neg: "intLen True d msk len = intLen False (NOT d) msk len"
proof (induction True d msk len rule: intLen.induct)
  case (1 d msk len)
  have "d AND msk = msk \<longleftrightarrow> NOT d AND msk = 0"
  proof
    assume "d AND msk = msk"
    then have "NOT d AND msk = NOT d AND (d AND msk)" by simp
    also have "\<dots> = 0" by (simp add: and.assoc [symmetric])
    finally show "NOT d AND msk = 0" .
  next
    assume "NOT d AND msk = 0"
    then have "msk = (d AND msk) OR (NOT d AND msk) \<Longrightarrow> d AND msk = msk" by simp
    moreover have "msk = (d AND msk) OR (NOT d AND msk)"
      by (simp add: bit.conj_disj_distrib2 [symmetric])
    ultimately show "d AND msk = msk" by simp
  qed
  with 1 show ?case by simp
qed simp_all

lemma sint_NOT: "sint (NOT d) = - sint d - 1" for d :: "32 word"
proof -
  have "sint (NOT d) = NOT (sint d)"
    by (rule bit_eqI) (auto simp: bit_signed_iff bit_simps min_def)
  then show ?thesis by (simp add: not_int_def)
qed

text \<open>The length the encoder computes is the least one that holds the value.\<close>

lemma int_len_eq:
  "(if sint d < 0 then intLen True d INT_MASK 4 else intLen False d INT_MASK 4) =
   (if -(2 ^ 7) \<le> sint d \<and> sint d < 2 ^ 7 then 1
    else if -(2 ^ 15) \<le> sint d \<and> sint d < 2 ^ 15 then 2
    else if -(2 ^ 23) \<le> sint d \<and> sint d < 2 ^ 23 then 3
    else 4)"
proof (cases "sint d < 0")
  case True
  then have p: "0 \<le> sint (NOT d)" by (simp add: sint_NOT)
  then have u: "int (unat (NOT d)) = - sint d - 1" using sint_nonneg [OF p] by (simp only: sint_NOT)
  have c: "unat (NOT d) < 2 ^ k \<longleftrightarrow> -(2 ^ k) \<le> sint d" for k
  proof -
    have "unat (NOT d) < 2 ^ k \<longleftrightarrow> int (unat (NOT d)) < 2 ^ k"
      by (simp only: nat_int_comparison of_nat_power of_nat_numeral)
    then show ?thesis unfolding u by linarith
  qed
  have "unat (NOT d) < 2 ^ 31" using p by (rule sint_nonneg_bound)
  from intLen_pos [OF this] show ?thesis
    unfolding c using True by (simp add: intLen_neg)
next
  case False
  then have p: "0 \<le> sint d" by simp
  have c: "unat d < 2 ^ k \<longleftrightarrow> sint d < 2 ^ k" for k
    unfolding sint_nonneg [OF p] by (simp only: nat_int_comparison of_nat_power of_nat_numeral)
  show ?thesis
    using intLen_pos [OF sint_nonneg_bound [OF p]] unfolding c using False by simp
qed

subsection \<open>What the encoders write\<close>

lemma take_bit_eqI:
  "(\<And>i. i < n \<Longrightarrow> bit v i = bit w i) \<Longrightarrow> take_bit n v = take_bit n (w :: 32 word)"
  by (rule bit_word_eqI) (auto simp: bit_simps)

lemma take_bit_eqD:
  assumes "take_bit n v = take_bit n (w :: 32 word)" "i < n"
  shows "bit v i = bit w i"
proof -
  have "bit (take_bit n v) i = bit (take_bit n w) i" using assms(1) by simp
  then show ?thesis using assms(2) by (simp add: bit_take_bit_iff)
qed

context rvs_buffer
begin

lemma emits_putBytesS:
  "take_bit (8 * n) v = take_bit (8 * n) (w :: 32 word) \<Longrightarrow> n \<le> 4 \<Longrightarrow>
   emits g data ok room b (putBytesSRvs g n v b) (to_be n w)"
proof (induction n arbitrary: v w b)
  case (Suc n)
  note bits = take_bit_eqD [OF Suc.prems(1)]
  have u: "ucast w = (ucast v :: byte)"
    by (rule bit_word_eqI) (use bits in \<open>auto simp: bit_simps\<close>)
  have "take_bit (8 * n) (signed_drop_bit 8 v) = take_bit (8 * n) (drop_bit 8 w)"
    by (rule take_bit_eqI) (use Suc.prems(2) bits in \<open>auto simp: bit_simps min_def\<close>)
  then have e: "emits g data ok room (putByteRvs g b (ucast v))
      (putBytesSRvs g n (signed_drop_bit 8 v) (putByteRvs g b (ucast v))) (to_be n (drop_bit 8 w))"
    by (rule Suc.IH) (use Suc.prems in simp)
  show ?case
    unfolding putBytesSRvs.simps to_be.simps u by (rule emits_trans [OF put_byte e refl])
qed simp

lemma BEncAsnIntContent_ok:
  "emits g data ok room b (snd (BEncAsnIntContent g b d)) (int_bytes d) \<and>
   fst (BEncAsnIntContent g b d) = of_nat (length (int_bytes d))"
proof -
  let ?n = "length (int_bytes d)"
  have "BEncAsnIntContent g b d = (of_nat ?n, putBytesSRvs g ?n d b)"
    unfolding BEncAsnIntContent_def int_len_eq by (simp add: int_bytes_def)
  moreover have "int_bytes d = to_be ?n d" "?n \<le> 4" by (simp_all add: int_bytes_def)
  ultimately show ?thesis using emits_putBytesS [OF refl, of ?n b d] by simp
qed

lemma BEncAsnInt_tlv:
  "emits g data ok room b (snd (BEncAsnInt g b d)) (tlv INTEGER_TAG_CODE (int_bytes d)) \<and>
   fst (BEncAsnInt g b d) = of_nat (length (tlv INTEGER_TAG_CODE (int_bytes d)))"
  unfolding BEncAsnInt_def using BEncAsnIntContent_ok by (intro BEncUniv_tlv) auto

lemma BEncAsnEnum_tlv:
  "emits g data ok room b (snd (BEncAsnEnum g b d)) (tlv ENUM_TAG_CODE (int_bytes d)) \<and>
   fst (BEncAsnEnum g b d) = of_nat (length (tlv ENUM_TAG_CODE (int_bytes d)))"
  unfolding BEncAsnEnum_def using BEncAsnIntContent_ok by (intro BEncUniv_tlv) auto

lemma BEncUAsnIntContent_ok:
  "emits g data ok room b (snd (BEncUAsnIntContent g b d)) (uint_bytes d) \<and>
   fst (BEncUAsnIntContent g b d) = of_nat (length (uint_bytes d))"
proof (cases "sint d < 0")
  case True
  then have "2 ^ 31 \<le> unat d" by (simp only: sint_neg_iff)
  then have "uint_bytes d = 0 # to_be 4 d" by (simp add: uint_bytes_def)
  then show ?thesis
    using True emits_putBytes [of b 4 d] by (auto simp: BEncUAsnIntContent_def Let_def intro: emits_byte_after)
next
  case False
  then have "unat d < 2 ^ 31" by (intro sint_nonneg_bound) simp
  then show ?thesis
    using False intLen_pos [of d] emits_putBytes [of b _ d]
    by (auto simp: BEncUAsnIntContent_def uint_bytes_def Let_def intro: put_byte)
qed

lemma BEncUAsnInt_tlv:
  "emits g data ok room b (snd (BEncUAsnInt g b d)) (tlv INTEGER_TAG_CODE (uint_bytes d)) \<and>
   fst (BEncUAsnInt g b d) = of_nat (length (tlv INTEGER_TAG_CODE (uint_bytes d)))"
  unfolding BEncUAsnInt_def using BEncUAsnIntContent_ok by (intro BEncUniv_tlv) auto

end

subsection \<open>What the decoders read\<close>

lemma byte_sign_iff: "(x :: byte) AND 0x80 \<noteq> 0 \<longleftrightarrow> 128 \<le> x"
  using and_exp_eq_0_iff_not_bit [of x 7] byte_bit7 [of x] by simp

context fwd_buffer
begin

lemma outcome_int_content:
  assumes "readable g rem ok b xs" "len \<noteq> 0"
  shows "outcome g rem ok (BDecAsnIntContent g tag len n b) n xs (parse_int_content len xs)"
proof (cases "4 < len")
  case False
  have pos: "unat len - 1 + 1 = unat len" using assms(2) by (simp add: unat_eq_0 Suc_leI word_neq_0_conv unat_gt_0)
  show ?thesis
  proof (cases xs)
    case Nil
    with assms obtain b' where "getByte g b = (0, b')" "exhausted g rem ok b'"
      by (auto elim: get_nilE)
    with False Nil pos show ?thesis
      using getShl8_exhausted [of b' "unat len - 1" "ucast (0 :: byte)"]
      by (auto simp: BDecAsnIntContent_def parse_int_content_def Let_def split_beta)
  next
    case (Cons x ys)
    with assms obtain b' where b': "getByte g b = (x, b')" "readable g rem ok b' ys"
      by (auto elim: get_consE)
    let ?k = "unat len - 1"
    define s0 where "s0 = (if 128 \<le> x then 128 * 256 else 0) + unat x"
    have s: "(if x AND 0x80 \<noteq> 0 then push_bit 8 0x80 OR ucast x else ucast x :: 32 word) = of_nat s0"
      using shl8_eq [of "0x80" x] unfolding byte_sign_iff by (simp add: shl8_def s0_def)
    have unf: "BDecAsnIntContent g tag len n b =
        (case getShl8 g ?k (of_nat s0) b' of (r, b2) \<Rightarrow>
           if readError g b2 then Jmp (-8) else Ret r (n + len) b2)"
      using False by (simp only: BDecAsnIntContent_def b' s if_False Let_def prod.case)
    show ?thesis
    proof (cases "length ys < ?k")
      case True
      then show ?thesis
        using False Cons b' pos getShl8_short [OF b'(2), of ?k "of_nat s0"]
        unfolding unf by (auto simp: parse_int_content_def split_beta)
    next
      case enough: False
      have "readable g rem ok b' (take ?k ys @ drop ?k ys)" using b' by simp
      from getShl8_ok [OF this, of "of_nat s0"] enough obtain b2 where
        "getShl8 g ?k (of_nat s0) b' = (foldl shl8 (of_nat s0) (take ?k ys), b2)"
        "readable g rem ok b2 (drop ?k ys)"
        by (auto simp: min_absorb2)
      then obtain b2 where b2: "getShl8 g ?k (of_nat s0) b' = (of_nat (s0 * 256 ^ ?k + be_val (take ?k ys)), b2)"
        "readable g rem ok b2 (drop ?k ys)"
        using enough foldl_shl8 [of s0 "take ?k ys"] by (auto simp: min_absorb2)
      have t: "take (unat len) xs = x # take ?k ys" "drop (unat len) xs = drop ?k ys"
        using Cons pos by (cases "unat len"; simp)+
      have v: "(if 128 \<le> x then 128 * 256 ^ Suc ?k else 0) + (unat x * 256 ^ ?k + be_val (take ?k ys)) =
          s0 * 256 ^ ?k + be_val (take ?k ys)" by (simp add: s0_def algebra_simps)
      have "BDecAsnIntContent g tag len n b = Ret (of_nat (s0 * 256 ^ ?k + be_val (take ?k ys))) (n + len) b2"
        using b2 unfolding unf by simp
      moreover have "(if 128 \<le> hd (take (unat len) xs) then 128 * 256 ^ length (take (unat len) xs) else 0) +
          be_val (take (unat len) xs) = s0 * 256 ^ ?k + be_val (take ?k ys)"
        using v enough by (simp only: t list.sel be_val.simps length_Cons length_take min_absorb2 not_less)
      then have "parse_int_content len xs =
          Inr (of_nat (s0 * 256 ^ ?k + be_val (take ?k ys)), unat len)"
        using False enough Cons pos by (simp only: parse_int_content_def Let_def) simp
      ultimately show ?thesis
        using b2 t enough Cons pos by simp
    qed
  qed
qed (simp add: BDecAsnIntContent_def parse_int_content_def)

lemma outcome_int:
  assumes "readable g rem ok b xs" "\<And>tag k. parse_head (-40) tags xs \<noteq> Inr ((tag, 0), k)"
  shows "outcome g rem ok
     (dbind (BDecUniv g (-40) tags b n) (\<lambda>(tag, len). BDecAsnIntContent g tag len)) n xs
     (pbind (parse_head (-40) tags) (\<lambda>(tag, len). parse_int_content len) xs)"
proof (rule outcome_univ [OF assms(1)])
  fix tag len k b'
  assume h: "parse_head (-40) tags xs = Inr ((tag, len), k)" "readable g rem ok b' (drop k xs)"
  then have "len \<noteq> 0" using assms(2) by auto
  from outcome_int_content [OF h(2) this]
  show "outcome g rem ok (BDecAsnIntContent g tag len (n + of_nat k) b') (n + of_nat k) (drop k xs)
     ((case (tag, len) of (tag, len) \<Rightarrow> parse_int_content len) (drop k xs))" by simp
qed

lemma outcome_uint_content:
  assumes "readable g rem ok b xs" "len \<noteq> 0"
  shows "outcome g rem ok (BDecUAsnIntContent g tag len n b) n xs (parse_uint_content len xs)"
proof -
  let ?k = "unat len - 1"
  have pos: "?k + 1 = unat len" using assms(2) by (simp add: unat_eq_0 Suc_leI word_neq_0_conv unat_gt_0)
  show ?thesis
  proof (cases xs)
    case Nil
    with assms obtain b' where "getByte g b = (0, b')" "exhausted g rem ok b'"
      by (auto elim: get_nilE)
    with Nil pos show ?thesis
      using getShl8_exhausted [of b' ?k 0]
      by (auto simp: BDecUAsnIntContent_def parse_uint_content_def Let_def split_beta)
  next
    case (Cons x ys)
    with assms obtain b' where b': "getByte g b = (x, b')" "readable g rem ok b' ys"
      by (auto elim: get_consE)
    have x: "(ucast x AND 0x80 \<noteq> (0 :: 32 word)) = (128 \<le> x)" "(ucast x \<noteq> (0 :: 32 word)) = (x \<noteq> 0)"
      using cont_bit_iff [of x] by (auto simp: unat_eq_0 [symmetric])
    have unf: "BDecUAsnIntContent g tag len n b =
      (if 5 < len then Jmp (-9) else if 128 \<le> x then Jmp (-10)
       else if len = 5 \<and> x \<noteq> 0 then Jmp (-11)
       else case getShl8 g ?k (of_nat (unat x)) b' of (r, b2) \<Rightarrow>
         if readError g b2 then Jmp (-12) else Ret r (n + len) b2)"
      by (simp add: BDecUAsnIntContent_def b' x Let_def)
    show ?thesis
    proof (cases "length ys < ?k")
      case True
      then show ?thesis
        using Cons pos getShl8_short [OF b'(2), of ?k "of_nat (unat x)"]
        unfolding unf by (auto simp: parse_uint_content_def split_beta)
    next
      case enough: False
      have "readable g rem ok b' (take ?k ys @ drop ?k ys)" using b' by simp
      from getShl8_ok [OF this, of "of_nat (unat x)"] enough obtain b2 where b2:
        "getShl8 g ?k (of_nat (unat x)) b' = (of_nat (unat x * 256 ^ ?k + be_val (take ?k ys)), b2)"
        "readable g rem ok b2 (drop ?k ys)"
        using foldl_shl8 [of "unat x" "take ?k ys"] by (auto simp: min_absorb2)
      have t: "take (unat len) xs = x # take ?k ys" "drop (unat len) xs = drop ?k ys"
        using Cons pos by (cases "unat len"; simp)+
      have "be_val (take (unat len) xs) = unat x * 256 ^ ?k + be_val (take ?k ys)"
        using enough unfolding t by (simp add: min_absorb2)
      then show ?thesis
        using b2 t enough Cons pos unfolding unf parse_uint_content_def by (simp del: of_nat_add of_nat_mult)
    qed
  qed
qed


lemma outcome_uint:
  assumes "readable g rem ok b xs" "\<And>tag k. parse_head (-40) tags xs \<noteq> Inr ((tag, 0), k)"
  shows "outcome g rem ok
     (dbind (BDecUniv g (-40) tags b n) (\<lambda>(tag, len). BDecUAsnIntContent g tag len)) n xs
     (pbind (parse_head (-40) tags) (\<lambda>(tag, len). parse_uint_content len) xs)"
proof (rule outcome_univ [OF assms(1)])
  fix tag len k b'
  assume h: "parse_head (-40) tags xs = Inr ((tag, len), k)" "readable g rem ok b' (drop k xs)"
  then have "len \<noteq> 0" using assms(2) by auto
  from outcome_uint_content [OF h(2) this]
  show "outcome g rem ok (BDecUAsnIntContent g tag len (n + of_nat k) b') (n + of_nat k) (drop k xs)
     ((case (tag, len) of (tag, len) \<Rightarrow> parse_uint_content len) (drop k xs))" by simp
qed

end

subsection \<open>Two's complement and the round trip\<close>

lemma hd_to_be:
  assumes "0 < n"
  shows "128 \<le> hd (to_be n w) \<longleftrightarrow> 128 * 256 ^ (n - 1) \<le> unat w mod 256 ^ n"
proof -
  obtain x xs where x: "to_be n w = x # xs" "length xs = n - 1"
    using assms length_to_be [of n w] by (cases "to_be n w") auto
  have v: "unat x * 256 ^ (n - 1) + be_val xs = unat w mod 256 ^ n"
    using be_val_to_be [of n w] x by simp
  have r: "be_val xs < 256 ^ (n - 1)" using be_val_bound [of xs] x by simp
  have "128 \<le> unat x \<longleftrightarrow> 128 * 256 ^ (n - 1) \<le> unat x * 256 ^ (n - 1) + be_val xs"
  proof
    assume "128 \<le> unat x"
    then show "128 * 256 ^ (n - 1) \<le> unat x * 256 ^ (n - 1) + be_val xs" by (simp add: trans_le_add1)
  next
    assume a: "128 * 256 ^ (n - 1) \<le> unat x * 256 ^ (n - 1) + be_val xs"
    show "128 \<le> unat x"
    proof (rule ccontr)
      assume "\<not> 128 \<le> unat x"
      then have "(unat x + 1) * 256 ^ (n - 1) \<le> 128 * 256 ^ (n - 1)" by (intro mult_le_mono1) simp
      then have "unat x * 256 ^ (n - 1) + 256 ^ (n - 1) \<le> 128 * 256 ^ (n - 1)"
        by (simp only: add_mult_distrib mult_1)
      with a r show False by linarith
    qed
  qed
  then show ?thesis unfolding v x by (simp add: word_le_nat_alt)
qed

lemma twos_to_be:
  fixes d :: "32 word"
  assumes "0 < n" "n \<le> 4" "- (128 * 256 ^ (n - 1)) \<le> sint d" "sint d < 128 * 256 ^ (n - 1)"
  shows "twos (to_be n d) = sint d \<and> (128 \<le> hd (to_be n d) \<longleftrightarrow> sint d < 0)"
proof -
  have p: "(256 :: int) ^ n = 256 * 256 ^ (n - 1)" using assms(1) by (cases n) auto
  have dvd: "(256 :: int) ^ n dvd 2 ^ 32"
  proof -
    have "(256 :: int) ^ n dvd 256 ^ 4" using assms(2) by (rule le_imp_power_dvd)
    then show ?thesis by simp
  qed
  have m: "int (unat d mod 256 ^ n) = sint d mod 256 ^ n"
  proof -
    have "sint d mod 256 ^ n = (int (unat d) - (if bit d 31 then 2 ^ 32 else 0)) mod 256 ^ n"
      by (simp only: sint_unat)
    also have "\<dots> = int (unat d) mod 256 ^ n"
      using dvd by (auto simp: mod_diff_right_eq [symmetric] dvd_imp_mod_0)
    finally show ?thesis by (simp only: zmod_int of_nat_power of_nat_numeral)
  qed
  have s: "sint d mod 256 ^ n = (if sint d < 0 then sint d + 256 ^ n else sint d)"
  proof (cases "sint d < 0")
    case True
    have "sint d mod 256 ^ n = (sint d + 256 ^ n) mod 256 ^ n" by simp
    also have "\<dots> = sint d + 256 ^ n"
      using True assms(3) by (intro mod_pos_pos_trivial) (simp_all add: p)
    finally show ?thesis using True by simp
  next
    case False
    then show ?thesis using assms(4) by (simp add: p mod_pos_pos_trivial)
  qed
  have h: "128 \<le> hd (to_be n d) \<longleftrightarrow> sint d < 0"
  proof -
    have "128 \<le> hd (to_be n d) \<longleftrightarrow> int (128 * 256 ^ (n - 1)) \<le> int (unat d mod 256 ^ n)"
      unfolding hd_to_be [OF assms(1)] by (simp only: zle_int)
    also have "\<dots> \<longleftrightarrow> sint d < 0"
      unfolding m s using assms(3,4) p by (auto split: if_splits)
    finally show ?thesis .
  qed
  have "to_be n d \<noteq> []" using assms(1) by (metis length_to_be length_0_conv less_numeral_extra(3))
  then show ?thesis
    using h s unfolding twos_def be_val_to_be m by simp
qed

definition int_fits :: "nat \<Rightarrow> 32 word \<Rightarrow> bool" where
  "int_fits n d \<longleftrightarrow> - (128 * 256 ^ (n - 1)) \<le> sint d \<and> sint d < 128 * 256 ^ (n - 1)"

lemma int_fits_simps:
  "int_fits 1 d \<longleftrightarrow> -(2 ^ 7) \<le> sint d \<and> sint d < 2 ^ 7"
  "int_fits 2 d \<longleftrightarrow> -(2 ^ 15) \<le> sint d \<and> sint d < 2 ^ 15"
  "int_fits 3 d \<longleftrightarrow> -(2 ^ 23) \<le> sint d \<and> sint d < 2 ^ 23"
  "int_fits 4 d"
  using sint_ge [of d] sint_bound32 [of d] by (simp_all add: int_fits_def)

lemma int_bytes_cases:
  obtains n where "0 < n" "n \<le> 4" "int_bytes d = to_be n d" "int_fits n d"
    "\<forall>m. 0 < m \<and> m < n \<longrightarrow> \<not> int_fits m d"
proof -
  have mono: "int_fits (Suc 0) d \<Longrightarrow> int_fits 2 d" "int_fits 2 d \<Longrightarrow> int_fits 3 d"
    using int_fits_simps [of d] by simp_all
  have e: "int_bytes d = to_be (if int_fits 1 d then 1 else if int_fits 2 d then 2
      else if int_fits 3 d then 3 else 4) d"
    unfolding int_bytes_def int_fits_simps ..
  have c: "m = Suc 0 \<or> m = 2 \<or> m = 3" if "0 < m" "m < 4" for m :: nat using that by linarith
  consider "int_fits 1 d" | "\<not> int_fits 1 d" "int_fits 2 d" | "\<not> int_fits 2 d" "int_fits 3 d"
    | "\<not> int_fits 3 d" by blast
  then show thesis
  proof cases
    case 1
    then show thesis by (intro that [of 1]) (simp_all add: e)
  next
    case 2
    then show thesis by (intro that [of 2]) (auto simp: e less_2_cases_iff)
  next
    case 3
    then have n: "\<not> int_fits (Suc 0) d" using mono by blast
    show thesis
    proof (rule that [of 3])
      have "m = Suc 0 \<or> m = 2" if "0 < m" "m < 3" for m :: nat using that by linarith
      then show "\<forall>m. 0 < m \<and> m < 3 \<longrightarrow> \<not> int_fits m d" using n 3 by blast
    qed (use 3 n in \<open>simp_all add: e\<close>)
  next
    case 4
    then have n: "\<not> int_fits (Suc 0) d" "\<not> int_fits 2 d" using mono by blast+
    show thesis
    proof (rule that [of 4])
      show "\<forall>m. 0 < m \<and> m < 4 \<longrightarrow> \<not> int_fits m d" using n 4 c by blast
    qed (use 4 n int_fits_simps(4) in \<open>simp_all add: e\<close>)
  qed
qed

lemma twos_int_bytes: "twos (int_bytes d) = sint d"
proof -
  obtain n where "0 < n" "n \<le> 4" "int_bytes d = to_be n d" "int_fits n d"
    by (rule int_bytes_cases [of d])
  then show ?thesis using twos_to_be [of n d] by (simp add: int_fits_def)
qed

text \<open>Content octets of length \<open>l\<close> reach exactly the numbers that \<open>int_fits l\<close> allows.\<close>

lemma twos_range:
  assumes "bs \<noteq> []"
  shows "- (128 * 256 ^ (length bs - 1)) \<le> twos bs \<and> twos bs < 128 * 256 ^ (length bs - 1)"
proof -
  obtain x xs where bs: "bs = x # xs" using assms by (cases bs) auto
  let ?K = "256 ^ length xs :: int"
  define X where "X = int (unat x)"
  have "unat (128 :: byte) = 128" by simp
  then have X: "X < 256" "0 \<le> X" "128 \<le> x \<longleftrightarrow> 128 \<le> X"
    using byte_bound [of x] unfolding X_def word_le_nat_alt by linarith+
  define Y where "Y = int (be_val xs)"
  have v: "int (be_val bs) = X * ?K + Y" by (simp add: bs X_def Y_def)
  have r: "Y < ?K" "0 \<le> Y"
    using be_val_bound [of xs] by (simp_all add: Y_def flip: of_nat_less_iff)
  have K: "0 < ?K" by simp
  have l: "length bs - 1 = length xs" by (simp add: bs)
  show ?thesis
  proof (cases "128 \<le> x")
    case True
    then have "128 \<le> X" "X \<le> 255" using X by simp_all
    then have "128 * ?K \<le> X * ?K" "X * ?K \<le> 255 * ?K"
      using K by (auto intro: mult_right_mono)
    moreover have "twos bs = int (be_val bs) - 256 * ?K"
      using True by (simp add: twos_def bs)
    ultimately show ?thesis using v r unfolding l by linarith
  next
    case False
    then have "X \<le> 127" using X by simp
    then have "X * ?K \<le> 127 * ?K" using K by (intro mult_right_mono) auto
    moreover have "twos bs = int (be_val bs)" using False by (simp add: twos_def bs)
    moreover have "0 \<le> int (be_val bs)" by simp
    moreover have "0 \<le> X * ?K" using X(2) by simp
    ultimately show ?thesis using v r K unfolding l by linarith
  qed
qed

lemma int_bytes_minimal:
  assumes "bs \<noteq> []" "twos bs = sint d"
  shows "length (int_bytes d) \<le> length bs"
proof (rule ccontr)
  assume less: "\<not> length (int_bytes d) \<le> length bs"
  obtain n where n: "0 < n" "n \<le> 4" "int_bytes d = to_be n d" "int_fits n d"
    "\<forall>m. 0 < m \<and> m < n \<longrightarrow> \<not> int_fits m d"
    by (rule int_bytes_cases [of d])
  have "int_fits (length bs) d" using twos_range [OF assms(1)] assms(2) by (simp add: int_fits_def)
  then show False using n less assms(1) by simp
qed

text \<open>What the decoder makes of content octets: the number of X.690, off by the lost sign bits.\<close>

lemma int_content_value:
  assumes "bs \<noteq> []" "length bs \<le> 4" "len = of_nat (length bs)"
  shows "parse_int_content len (bs @ ys) =
    Inr (of_int (twos bs) + (if 128 \<le> hd bs then 129 * 256 ^ length bs else 0), length bs)"
proof -
  have "unat len = length bs" "\<not> 4 < len"
    using assms(2,3) by (simp_all add: unat_of_nat word_less_nat_alt)
  moreover have "(of_nat ((if 128 \<le> hd bs then 128 * 256 ^ length bs else 0) + be_val bs) :: 32 word) =
      of_int (twos bs) + (if 128 \<le> hd bs then 129 * 256 ^ length bs else 0)"
    using assms(1) by (simp add: twos_def)
  moreover have "parse_int_content len (bs @ ys) =
      Inr (of_nat ((if 128 \<le> hd bs then 128 * 256 ^ length bs else 0) + be_val bs), length bs)"
    using calculation(1,2) assms(1) by (simp only: parse_int_content_def Let_def) simp
  ultimately show ?thesis by (simp only:)
qed

lemma pow256_word: "(129 * 256 ^ n :: 32 word) = 0 \<longleftrightarrow> 4 \<le> n"
proof (cases "4 \<le> n")
  case True
  then obtain k where "n = 4 + k" using le_Suc_ex by blast
  moreover have "(256 ^ 4 :: 32 word) = 0" by simp
  ultimately show ?thesis using True by (simp only: power_add mult_zero_left mult_zero_right simp_thms)
next
  case False
  then have "n = 0 \<or> n = 1 \<or> n = 2 \<or> n = 3" by linarith
  then show ?thesis by auto
qed

lemma int_roundtrip_value:
  "parse_int_content (of_nat (length (int_bytes d))) (int_bytes d @ ys) =
    Inr (d + (if sint d < 0 then 129 * 256 ^ length (int_bytes d) else 0), length (int_bytes d))"
proof -
  obtain n where n: "0 < n" "n \<le> 4" "int_bytes d = to_be n d" "int_fits n d"
    by (rule int_bytes_cases [of d])
  have "128 \<le> hd (int_bytes d) \<longleftrightarrow> sint d < 0"
    using twos_to_be [of n d] n by (simp add: int_fits_def)
  moreover have "int_bytes d \<noteq> []" "length (int_bytes d) \<le> 4"
    using n by (metis length_to_be length_0_conv less_numeral_extra(3), simp)
  moreover have "of_int (twos (int_bytes d)) = d" by (simp add: twos_int_bytes)
  ultimately show ?thesis using int_content_value [of "int_bytes d"] by simp
qed

lemma length_int_bytes_4: "sint d < 0 \<Longrightarrow> 4 \<le> length (int_bytes d) \<longleftrightarrow> sint d < -(2 ^ 23)"
  by (simp add: int_bytes_def)

lemma parse_uint_bytes:
  "parse_uint_content (of_nat (length (uint_bytes d))) (uint_bytes d @ ys) =
    Inr (d, length (uint_bytes d))"
proof -
  have b: "unat d < 256 ^ 4" using unat_bound32 [of d] by simp
  have h: "hd (to_be n d @ ys) < 128" if "0 < n" "unat d < 128 * 256 ^ (n - 1)" for n
  proof -
    have "unat d mod 256 ^ n < 128 * 256 ^ (n - 1)"
      using that(2) by (rule le_less_trans [OF mod_less_eq_dividend])
    then have "\<not> 128 \<le> hd (to_be n d)" using hd_to_be [OF that(1), of d] by simp
    moreover have "to_be n d \<noteq> []" using that(1) by (metis length_to_be length_0_conv less_numeral_extra(3))
    ultimately show ?thesis by (simp add: not_le)
  qed
  have go: "parse_uint_content (of_nat n) (to_be n d @ ys) = Inr (d, n)"
    if n: "0 < n" "n \<le> 4" "unat d < 128 * 256 ^ (n - 1)" for n
  proof -
    have "unat (of_nat n :: 32 word) = n" "\<not> 5 < (of_nat n :: 32 word)" "of_nat n \<noteq> (5 :: 32 word)"
      using n(2) by (auto simp: unat_of_nat word_less_nat_alt dest: arg_cong [where f = unat])
    moreover have "unat d mod 256 ^ n = unat d"
      using n(1,3) by (cases n) auto
    moreover have "\<not> 128 \<le> hd (to_be n d @ ys)" using h [OF n(1,3)] by simp
    ultimately show ?thesis by (simp add: parse_uint_content_def be_val_to_be)
  qed
  consider "unat d < 2 ^ 31" | "\<not> unat d < 2 ^ 31" by blast
  then show ?thesis
  proof cases
    case 1
    then show ?thesis
      using go [of 1] go [of 2] go [of 3] go [of 4]
      by (simp add: uint_bytes_def del: to_be.simps One_nat_def)
  next
    case 2
    then have "uint_bytes d = 0 # to_be 4 d" by (simp add: uint_bytes_def)
    then show ?thesis using b by (simp add: parse_uint_content_def be_val_to_be)
  qed
qed

lemma length_int_bytes: "0 < length (int_bytes d) \<and> length (int_bytes d) \<le> 4"
  by (rule int_bytes_cases [of d]) auto

lemma length_uint_bytes: "0 < length (uint_bytes d) \<and> length (uint_bytes d) \<le> 5"
  by (auto simp: uint_bytes_def Let_def simp del: length_greater_0_conv)

end
