(* ===== verification/Asn_Useful.thy ===== *)
theory Asn_Useful
  imports Asn_Strings Asn_Oid Asn_Bits Asn_Int
begin

section \<open>The useful types (\<open>c-lib/src/asn-useful.c\<close>)\<close>

text \<open>
  The remaining string and time types, which are octet strings with a tag and error code of
  their own and no check, and EXTERNAL.  \<open>useIndef\<close> is the build option
  \<open>USE_INDEF_LEN\<close>.  The pointer fields of the structures are options; a field that the
  decoder does not meet keeps what the caller's structure holds.
\<close>

subsection \<open>Strings and times\<close>

definition BDecPlainContent :: "('b, 'z) decContent" where
  "BDecPlainContent fuel alloc g tagId len n b = BDecAsnOctsContent fuel alloc g tagId len n b"

definition BEncVideotexString :: "('b, 'z) GenBuf_scheme \<Rightarrow> 'b \<Rightarrow> AsnOcts \<Rightarrow> AsnLen \<times> 'b" where
  "BEncVideotexString g b v = BEncUniv g VIDEOTEXSTRING_TAG_CODE (BEncAsnOctsContent g b v)"

definition BDecVideotexString :: "('b, 'z) strDec" where
  "BDecVideotexString = BDecString BDecPlainContent 50 VIDEOTEXSTRING_TAG_CODE"

definition BEncGraphicString :: "('b, 'z) GenBuf_scheme \<Rightarrow> 'b \<Rightarrow> AsnOcts \<Rightarrow> AsnLen \<times> 'b" where
  "BEncGraphicString g b v = BEncUniv g GRAPHICSTRING_TAG_CODE (BEncAsnOctsContent g b v)"

definition BDecGraphicString :: "('b, 'z) strDec" where
  "BDecGraphicString = BDecString BDecPlainContent 49 GRAPHICSTRING_TAG_CODE"

definition BEncISO646String :: "('b, 'z) GenBuf_scheme \<Rightarrow> 'b \<Rightarrow> AsnOcts \<Rightarrow> AsnLen \<times> 'b" where
  "BEncISO646String g b v = BEncUniv g VISIBLESTRING_TAG_CODE (BEncAsnOctsContent g b v)"

definition BDecISO646String :: "('b, 'z) strDec" where
  "BDecISO646String = BDecString BDecPlainContent 47 VISIBLESTRING_TAG_CODE"

definition BEncGeneralString :: "('b, 'z) GenBuf_scheme \<Rightarrow> 'b \<Rightarrow> AsnOcts \<Rightarrow> AsnLen \<times> 'b" where
  "BEncGeneralString g b v = BEncUniv g GENERALSTRING_TAG_CODE (BEncAsnOctsContent g b v)"

definition BDecGeneralString :: "('b, 'z) strDec" where
  "BDecGeneralString = BDecString BDecPlainContent 46 GENERALSTRING_TAG_CODE"

definition BEncUTCTime :: "('b, 'z) GenBuf_scheme \<Rightarrow> 'b \<Rightarrow> AsnOcts \<Rightarrow> AsnLen \<times> 'b" where
  "BEncUTCTime g b v = BEncUniv g UTCTIME_TAG_CODE (BEncAsnOctsContent g b v)"

definition BDecUTCTime :: "('b, 'z) strDec" where
  "BDecUTCTime = BDecString BDecPlainContent 45 UTCTIME_TAG_CODE"

definition BEncGeneralizedTime :: "('b, 'z) GenBuf_scheme \<Rightarrow> 'b \<Rightarrow> AsnOcts \<Rightarrow> AsnLen \<times> 'b" where
  "BEncGeneralizedTime g b v = BEncUniv g GENERALIZEDTIME_TAG_CODE (BEncAsnOctsContent g b v)"

definition BDecGeneralizedTime :: "('b, 'z) strDec" where
  "BDecGeneralizedTime = BDecString BDecPlainContent 44 GENERALIZEDTIME_TAG_CODE"

lemmas plain_codec = string_codec_laws BDecPlainContent_def

interpretation videotex: string_codec BEncAsnOctsContent BDecPlainContent "\<lambda>x. True" 50 VIDEOTEXSTRING_TAG_CODE
  by unfold_locales (simp_all add: plain_codec)

interpretation graphic: string_codec BEncAsnOctsContent BDecPlainContent "\<lambda>x. True" 49 GRAPHICSTRING_TAG_CODE
  by unfold_locales (simp_all add: plain_codec)

interpretation iso646: string_codec BEncAsnOctsContent BDecPlainContent "\<lambda>x. True" 47 VISIBLESTRING_TAG_CODE
  by unfold_locales (simp_all add: plain_codec)

interpretation general: string_codec BEncAsnOctsContent BDecPlainContent "\<lambda>x. True" 46 GENERALSTRING_TAG_CODE
  by unfold_locales (simp_all add: plain_codec)

interpretation utctime: string_codec BEncAsnOctsContent BDecPlainContent "\<lambda>x. True" 45 UTCTIME_TAG_CODE
  by unfold_locales (simp_all add: plain_codec)

interpretation generalizedtime: string_codec BEncAsnOctsContent BDecPlainContent "\<lambda>x. True" 44 GENERALIZEDTIME_TAG_CODE
  by unfold_locales (simp_all add: plain_codec)

subsection \<open>EXTERNAL\<close>

datatype EXTERNALChoice =
    single_ASN1_type AsnOcts
  | octet_aligned AsnOcts
  | arbitrary AsnBits

record EXTERNAL =
  direct_reference :: "AsnOid option"
  indirect_reference :: "AsnInt option"
  data_value_descriptor :: "AsnOcts option"
  encoding :: EXTERNALChoice

text \<open>One component: a content encoder followed by its length and tag.\<close>

definition BEncPart ::
  "('b, 'z) GenBuf_scheme \<Rightarrow> BER_CLASS \<Rightarrow> 32 word \<Rightarrow> AsnLen \<times> 'b \<Rightarrow> AsnLen \<times> 'b" where
  "BEncPart g cl code = (\<lambda>(itemLen, b).
     let (k, b) = BEncDefLen g b itemLen; itemLen = itemLen + k;
         (k, b) = BEncTag1 g b cl PRIM code; itemLen = itemLen + k
     in (itemLen, b))"

text \<open>The encoder of a BIT STRING may change its argument and has no value on a bad one.\<close>

fun BEncEXTERNALChoiceContent ::
  "bool \<Rightarrow> ('b, 'z) GenBuf_scheme \<Rightarrow> 'b \<Rightarrow> EXTERNALChoice \<Rightarrow> ((AsnLen \<times> 'b) \<times> EXTERNALChoice) option" where
  "BEncEXTERNALChoiceContent useIndef g b (single_ASN1_type x) =
     (let b = BEncEocIfNec useIndef g b;
          (itemLen, b) = BEncPart g UNIV_CLASS OCTETSTRING_TAG_CODE (BEncAsnOctsContent g b x);
          (k, b) = BEncConsLen useIndef g b itemLen; itemLen = itemLen + k;
          (k, b) = BEncTag1 g b CNTX CONS 0; itemLen = itemLen + k
      in Some ((itemLen, b), single_ASN1_type x))"
| "BEncEXTERNALChoiceContent useIndef g b (octet_aligned x) =
     Some (BEncPart g CNTX BOOLEAN_TAG_CODE (BEncAsnOctsContent g b x), octet_aligned x)"
| "BEncEXTERNALChoiceContent useIndef g b (arbitrary x) =
     map_option (\<lambda>(c, x). (BEncPart g CNTX INTEGER_TAG_CODE c, arbitrary x)) (BEncAsnBitsContent g b x)"

definition BEncEXTERNALContent ::
  "bool \<Rightarrow> ('b, 'z) GenBuf_scheme \<Rightarrow> 'b \<Rightarrow> EXTERNAL \<Rightarrow> ((AsnLen \<times> 'b) \<times> EXTERNAL) option" where
  "BEncEXTERNALContent useIndef g b v =
     map_option (\<lambda>((totalLen, b), c).
       let (totalLen, b) = (case data_value_descriptor v of
               None \<Rightarrow> (totalLen, b)
             | Some x \<Rightarrow> let (itemLen, b) = BEncPart g UNIV_CLASS OD_TAG_CODE (BEncAsnOctsContent g b x)
                        in (totalLen + itemLen, b));
           (totalLen, b) = (case indirect_reference v of
               None \<Rightarrow> (totalLen, b)
             | Some i \<Rightarrow>
                 let (itemLen, b) = BEncAsnIntContent g b i;
                     b = BEncDefLenTo127 g b itemLen; itemLen = itemLen + 1;
                     (k, b) = BEncTag1 g b UNIV_CLASS PRIM INTEGER_TAG_CODE; itemLen = itemLen + k
                 in (totalLen + itemLen, b));
           (totalLen, b) = (case direct_reference v of
               None \<Rightarrow> (totalLen, b)
             | Some x \<Rightarrow> let (itemLen, b) = BEncPart g UNIV_CLASS OID_TAG_CODE (BEncAsnOctsContent g b x)
                        in (totalLen + itemLen, b))
       in ((totalLen, b), v\<lparr>encoding := c\<rparr>))
     (BEncEXTERNALChoiceContent useIndef g b (encoding v))"

definition BEncEXTERNAL ::
  "bool \<Rightarrow> ('b, 'z) GenBuf_scheme \<Rightarrow> 'b \<Rightarrow> EXTERNAL \<Rightarrow> ((AsnLen \<times> 'b) \<times> EXTERNAL) option" where
  "BEncEXTERNAL useIndef g b v =
     map_option (\<lambda>((l, b), v).
       let (k, b) = BEncConsLen useIndef g b l; l = l + k;
           (k, b) = BEncTag1 g b UNIV_CLASS CONS EXTERNAL_TAG_CODE; l = l + k
       in ((l, b), v))
     (BEncEXTERNALContent useIndef g (BEncEocIfNec useIndef g b) v)"

text \<open>
  The sizes that \<open>Asn1Alloc\<close> is asked for, with 8-byte pointers.  The decoders of the
  choice carry \<open>unusedBitsG\<close>.
\<close>

definition sizeof_AsnOcts :: nat where "sizeof_AsnOcts = 16"
definition sizeof_AsnBits :: nat where "sizeof_AsnBits = 16"
definition sizeof_AsnInt :: nat where "sizeof_AsnInt = 4"
definition sizeof_EXTERNALChoice :: nat where "sizeof_EXTERNALChoice = 16"

definition BDecEXTERNALChoiceContent ::
  "nat \<Rightarrow> (nat \<Rightarrow> bool) \<Rightarrow> ('b, 'z) GenBuf_scheme \<Rightarrow> 16 word \<Rightarrow> AsnTag \<Rightarrow> AsnLen \<Rightarrow> AsnLen \<Rightarrow> 'b \<Rightarrow>
    ('b, EXTERNALChoice \<times> 16 word) dres" where
  "BDecEXTERNALChoiceContent fuel alloc g u tagId0 elmtLen0 n b =
     dbind
       (if tagId0 = MAKE_TAG_ID CNTX CONS 0 then
          dbind (BDecTag g b 0) (\<lambda>tagId1 m b.
            if tagId1 \<noteq> univ_tag OCTETSTRING_TAG_CODE \<and> tagId1 \<noteq> univ_cons_tag OCTETSTRING_TAG_CODE then Jmp 43
            else dbind (BDecLen g b m) (\<lambda>elmtLen1 m b.
              if \<not> alloc sizeof_AsnOcts then Jmp (-27)
              else dbind (BDecAsnOctsContent fuel alloc g tagId1 elmtLen1 m b) (\<lambda>x m b.
                if elmtLen0 = INDEFINITE_LEN
                then dbind (BDecEoc g b m) (\<lambda>_ m b. Ret (single_ASN1_type x, u) m b)
                else Ret (single_ASN1_type x, u) m b)))
        else if tagId0 = MAKE_TAG_ID CNTX PRIM 1 \<or> tagId0 = MAKE_TAG_ID CNTX CONS 1 then
          (if \<not> alloc sizeof_AsnOcts then Jmp (-27)
           else dbind (BDecAsnOctsContent fuel alloc g tagId0 elmtLen0 0 b) (\<lambda>x m b. Ret (octet_aligned x, u) m b))
        else if tagId0 = MAKE_TAG_ID CNTX PRIM 2 \<or> tagId0 = MAKE_TAG_ID CNTX CONS 2 then
          (if \<not> alloc sizeof_AsnBits then Jmp (-27)
           else dbind (BDecAsnBitsContent fuel alloc g tagId0 elmtLen0 u 0 b)
             (\<lambda>(x, u) m b. Ret (arbitrary x, u) m b))
        else Jmp 42)
       (\<lambda>v m b. Ret v (n + m) b)"

text \<open>An optional component: its length and content, then the tag after it.\<close>

definition BDecPart ::
  "('b, 'z) GenBuf_scheme \<Rightarrow> AsnTag list \<Rightarrow> (AsnTag \<Rightarrow> AsnLen \<Rightarrow> AsnLen \<Rightarrow> 'b \<Rightarrow> ('b, EXTERNAL) dres) \<Rightarrow>
    AsnTag \<times> EXTERNAL \<Rightarrow> AsnLen \<Rightarrow> 'b \<Rightarrow> ('b, AsnTag \<times> EXTERNAL) dres" where
  "BDecPart g tags content = (\<lambda>(tagId1, v) m b.
     if tagId1 \<in> set tags then
       dbind (BDecLen g b m) (\<lambda>elmtLen1 m b.
         dbind (content tagId1 elmtLen1 m b) (\<lambda>v m b.
           dbind (BDecTag g b m) (\<lambda>tagId1 m b. Ret (tagId1, v) m b)))
     else Ret (tagId1, v) m b)"

definition BDecEXTERNALContent ::
  "nat \<Rightarrow> (nat \<Rightarrow> bool) \<Rightarrow> ('b, 'z) GenBuf_scheme \<Rightarrow> EXTERNAL \<Rightarrow> 16 word \<Rightarrow> AsnTag \<Rightarrow> AsnLen \<Rightarrow> AsnLen \<Rightarrow> 'b \<Rightarrow>
    ('b, EXTERNAL \<times> 16 word) dres" where
  "BDecEXTERNALContent fuel alloc g v u tagId0 elmtLen0 n b =
     dbind (BDecTag g b 0) (\<lambda>tagId1 m b.
     dbind (BDecPart g [univ_tag OID_TAG_CODE] (\<lambda>tag len m b.
         dbind (BDecAsnOidContent alloc g tag len m b) (\<lambda>x m b. Ret (v\<lparr>direct_reference := Some x\<rparr>) m b))
       (tagId1, v) m b) (\<lambda>(tagId1, v) m b.
     dbind (BDecPart g [univ_tag INTEGER_TAG_CODE] (\<lambda>tag len m b.
         if \<not> alloc sizeof_AsnInt then Jmp (-27)
         else dbind (BDecAsnIntContent g tag len m b) (\<lambda>x m b. Ret (v\<lparr>indirect_reference := Some x\<rparr>) m b))
       (tagId1, v) m b) (\<lambda>(tagId1, v) m b.
     dbind (BDecPart g [univ_tag OD_TAG_CODE, univ_cons_tag OD_TAG_CODE] (\<lambda>tag len m b.
         dbind (BDecAsnOctsContent fuel alloc g tag len m b) (\<lambda>x m b. Ret (v\<lparr>data_value_descriptor := Some x\<rparr>) m b))
       (tagId1, v) m b) (\<lambda>(tagId1, v) m b.
     if tagId1 \<in> {MAKE_TAG_ID CNTX CONS 0, MAKE_TAG_ID CNTX PRIM 1, MAKE_TAG_ID CNTX CONS 1,
         MAKE_TAG_ID CNTX PRIM 2, MAKE_TAG_ID CNTX CONS 2} then
       dbind (BDecLen g b m) (\<lambda>elmtLen1 m b.
         if \<not> alloc sizeof_EXTERNALChoice then Jmp (-27)
         else dbind (BDecEXTERNALChoiceContent fuel alloc g u tagId1 elmtLen1 m b) (\<lambda>(c, u) m b.
           if elmtLen0 = INDEFINITE_LEN
           then dbind (BDecEoc g b m) (\<lambda>_ m b. Ret (v\<lparr>encoding := c\<rparr>, u) (n + m) b)
           else if m \<noteq> elmtLen0 then Jmp 40
           else Ret (v\<lparr>encoding := c\<rparr>, u) (n + m) b))
     else Jmp 39))))"

definition BDecEXTERNAL ::
  "nat \<Rightarrow> (nat \<Rightarrow> bool) \<Rightarrow> ('b, 'z) GenBuf_scheme \<Rightarrow> EXTERNAL \<Rightarrow> 16 word \<Rightarrow> 'b \<Rightarrow> AsnLen \<Rightarrow>
    ('b, EXTERNAL \<times> 16 word) dres" where
  "BDecEXTERNAL fuel alloc g v u b n =
     dbind (BDecUniv g 41 [univ_cons_tag EXTERNAL_TAG_CODE] b n)
       (\<lambda>(tag, elmtLen1). BDecEXTERNALContent fuel alloc g v u tag elmtLen1)"

end
