(* ===== verification/Hash_Table.thy ===== *)
theory Hash_Table
  imports Asn_Prelude "HOL-Library.AList"
begin

section \<open>Hash tables (\<open>c-lib/src/hash.c\<close>)\<close>

text \<open>
  The tables in which the ANY types are registered: 256-way tries over the bytes of a 32-bit
  hash, least significant byte first, that grow a level where two hashes collide.  A table
  is the association list of its slots that are not \<open>NULL\<close>.  \<open>m\<close> is the number of
  \<open>malloc\<close> calls that still succeed.

  The locale \<open>hash_map\<close> is the contract the users of the tables rely on; it is
  interpreted on the operations of the code.
\<close>

type_synonym Hash = "32 word"

datatype 'v HashSlot =
  HashSlot (leaf: bool) (slot_hash: Hash) (slot_value: 'v)
    (slot_table: "(byte \<times> 'v HashSlot) list option")

type_synonym 'v Table = "(byte \<times> 'v HashSlot) list"

subsection \<open>The hash function\<close>

text \<open>
  \<open>HASHC\<close> on the rest of the string and the hash so far; a \<open>char\<close> is signed.  The
  \<open>switch\<close> jumps into the loop body, so the first pass runs \<open>len mod 8\<close> steps (8 when
  that is 0) and every other pass 8.
\<close>

definition HASHC :: "byte list \<times> Hash \<Rightarrow> byte list \<times> Hash" where
  "HASHC s = (case fst s of [] \<Rightarrow> s | c # cs \<Rightarrow> (cs, scast c + 65587 * snd s))"

fun duffLoop :: "nat \<Rightarrow> byte list \<times> Hash \<Rightarrow> byte list \<times> Hash" where
  "duffLoop 0 s = s"
| "duffLoop (Suc loop) s = duffLoop loop ((HASHC ^^ 8) s)"

definition MakeHash :: "byte list \<Rightarrow> nat \<Rightarrow> Hash" where
  "MakeHash str len =
     (let n = 0 in
      if 0 < len then
        let loop = (len + 8 - 1) div 8;
            s = (HASHC ^^ (if len mod 8 = 0 then 8 else len mod 8)) (str, n)
        in snd (duffLoop (loop - 1) s)
      else n)"

text \<open>The polynomial that the device computes.\<close>

definition hash_spec :: "byte list \<Rightarrow> Hash" where
  "hash_spec cs = foldl (\<lambda>n c. scast c + 65587 * n) 0 cs"

lemma HASHC_pow:
  "k \<le> length cs \<Longrightarrow> (HASHC ^^ k) (cs, n) = (drop k cs, foldl (\<lambda>n c. scast c + 65587 * n) n (take k cs))"
proof (induction k arbitrary: cs n)
  case (Suc k)
  then obtain c ds where "cs = c # ds" by (cases cs) auto
  with Suc show ?case by (simp add: funpow_Suc_right HASHC_def del: funpow.simps)
qed simp

lemma duffLoop_foldl:
  "8 * loop \<le> length cs \<Longrightarrow>
   duffLoop loop (cs, n) = (drop (8 * loop) cs, foldl (\<lambda>n c. scast c + 65587 * n) n (take (8 * loop) cs))"
proof (induction loop arbitrary: cs n)
  case (Suc loop)
  then have "duffLoop (Suc loop) (cs, n) =
      duffLoop loop (drop 8 cs, foldl (\<lambda>n c. scast c + 65587 * n) n (take 8 cs))"
    by (simp add: HASHC_pow del: funpow.simps)
  with Suc show ?case by (simp add: take_add add.commute [of "8 * loop" 8])
qed simp

lemma MakeHash_eq:
  assumes "len \<le> length str"
  shows "MakeHash str len = hash_spec (take len str)"
proof (cases "len = 0")
  case False
  define q s where "q = len div 8" and "s = len mod 8"
  define r where "r = (if s = 0 then 8 else s)"
  have l: "len = 8 * q + s" "s < 8" by (simp_all add: q_def s_def)
  have d: "(len + 8 - 1) div 8 = (if s = 0 then q else Suc q)"
  proof (cases "s = 0")
    case True
    then have "len + 8 - 1 = 8 * q + 7" using l by simp
    then show ?thesis using True by simp
  next
    case nz: False
    then have "8 * Suc q \<le> len + 8 - 1" "len + 8 - 1 < 8 * Suc (Suc q)" using l by auto
    then have "(len + 8 - 1) div 8 = Suc q" by (intro div_nat_eqI) simp_all
    then show ?thesis using nz by simp
  qed
  have e: "len = r + 8 * ((len + 8 - 1) div 8 - 1)"
    using l(1) False unfolding r_def d by (cases "s = 0"; cases q) auto
  then have le: "r \<le> len" by linarith
  let ?k = "(len + 8 - 1) div 8 - 1"
  have "MakeHash str len = snd (duffLoop ?k ((HASHC ^^ r) (str, 0)))"
    using False by (simp add: MakeHash_def r_def s_def Let_def)
  also have "\<dots> = foldl (\<lambda>n c. scast c + 65587 * n) 0 (take r str @ take (8 * ?k) (drop r str))"
    using assms e le by (simp add: HASHC_pow duffLoop_foldl)
  also have "take r str @ take (8 * ?k) (drop r str) = take len str"
    by (subst e) (rule take_add [symmetric])
  finally show ?thesis by (simp add: hash_spec_def)
qed (simp add: MakeHash_def hash_spec_def)

subsection \<open>Insertion and lookup\<close>

definition NewTable :: "nat \<Rightarrow> 'v Table option \<times> nat" where
  "NewTable m = (if m = 0 then (None, 0) else (Some [], m - 1))"

definition InitHash :: "nat \<Rightarrow> 'v Table option \<times> nat" where
  "InitHash m = NewTable m"

lemma size_slot_table:
  assumes "map_of t i = Some e" "slot_table e = Some t'"
  shows "size_list (size_prod (\<lambda>_. 0) (size_HashSlot (\<lambda>_. 0))) t' <
    size_list (size_prod (\<lambda>_. 0) (size_HashSlot (\<lambda>_. 0))) t"
proof -
  have "(i, e) \<in> set t" using assms(1) by (rule map_of_SomeD)
  then have "size_prod (\<lambda>_. 0) (size_HashSlot (\<lambda>_. 0)) (i, e) \<le>
      size_list (size_prod (\<lambda>_. 0) (size_HashSlot (\<lambda>_. 0))) t"
    by (rule size_list_estimation') simp
  moreover have "size_list (size_prod (\<lambda>_. 0) (size_HashSlot (\<lambda>_. 0))) t' < size_HashSlot (\<lambda>_. 0) e"
    using assms(2) by (cases e) auto
  ultimately show ?thesis by simp
qed

abbreviation tsize :: "'v Table \<Rightarrow> nat" where
  "tsize \<equiv> size_list (size_prod (\<lambda>_. 0) (size_HashSlot (\<lambda>_. 0)))"

text \<open>
  \<open>Insert\<close> and \<open>SplitAndInsert\<close> return the C result, the table or slot they leave
  behind and the \<open>malloc\<close> calls left.  The slot of a table that was split keeps its old
  \<open>hash\<close>, which the test \<open>hash_value == entry->hash\<close> still sees.
\<close>

function (sequential)
  Insert :: "nat \<Rightarrow> 'v Table \<Rightarrow> 'v \<Rightarrow> Hash \<Rightarrow> bool \<times> 'v Table \<times> nat" and
  SplitAndInsert :: "nat \<Rightarrow> 'v HashSlot \<Rightarrow> 'v \<Rightarrow> Hash \<Rightarrow> bool \<times> 'v HashSlot \<times> nat"
where
  "Insert m t element hash_value =
     (let i = ucast hash_value :: byte in
      case map_of t i of
        None \<Rightarrow>
          (if m = 0 then (False, t, 0)
           else (True, AList.update i (HashSlot True hash_value element None) t, m - 1))
      | Some entry \<Rightarrow>
          (if hash_value = slot_hash entry then (True, t, m)
           else if leaf entry then
             (case SplitAndInsert m entry element hash_value of
                (r, entry', m') \<Rightarrow> (r, AList.update i entry' t, m'))
           else case slot_table entry of
             None \<Rightarrow> (False, t, m)
           | Some t' \<Rightarrow>
               (case Insert m t' element (drop_bit 8 hash_value) of
                  (r, t'', m') \<Rightarrow>
                    (r, AList.update i
                       (HashSlot False (slot_hash entry) (slot_value entry) (Some t'')) t, m'))))"
| "SplitAndInsert m entry element hash_value =
     (case NewTable m of
        (None, m) \<Rightarrow>
          (False, HashSlot True (slot_hash entry) (slot_value entry) None, m)
      | (Some t, m1) \<Rightarrow>
          (case Insert m1 t (slot_value entry) (drop_bit 8 (slot_hash entry)) of
             (r1, t1, m2) \<Rightarrow>
               if \<not> r1 then (False, HashSlot True (slot_hash entry) (slot_value entry) (Some t1), m2)
               else
                 (case Insert m2 t1 element (drop_bit 8 hash_value) of
                    (r2, t2, m3) \<Rightarrow>
                      if \<not> r2 then
                        (False, HashSlot True (slot_hash entry) (slot_value entry) (Some t2), m3)
                      else (True, HashSlot False (slot_hash entry) (slot_value entry) (Some t2), m3))))"
  by pat_completeness auto
termination
proof (relation "measures [\<lambda>x. case x of Inl (m, _) \<Rightarrow> m | Inr (m, _) \<Rightarrow> m,
    \<lambda>x. case x of Inl (_, t, _) \<Rightarrow> Suc (tsize t) | Inr _ \<Rightarrow> 0]", goal_cases)
  case (5 m entry element hash_value x y t r1 p t1 m2)
  have "t = []" "y = m - 1" "m \<noteq> 0"
    using 5(1,2) by (auto simp: NewTable_def split: if_splits)
  then have "m2 < m"
    using 5(3-6) by (auto simp: Insert.psimps split: if_splits)
  then show ?case by simp
qed (auto simp: NewTable_def size_slot_table split: if_splits)

declare Insert.simps [simp del] SplitAndInsert.simps [simp del]

function CheckForAndReturnValue :: "'v Table \<Rightarrow> Hash \<Rightarrow> 'v option" where
  "CheckForAndReturnValue t hash =
     (case map_of t (ucast hash) of
        None \<Rightarrow> None
      | Some entry \<Rightarrow>
          (if leaf entry then (if slot_hash entry = hash then Some (slot_value entry) else None)
           else case slot_table entry of
             None \<Rightarrow> None
           | Some t' \<Rightarrow> CheckForAndReturnValue t' (drop_bit 8 hash)))"
  by pat_completeness auto
termination
  by (relation "measure (\<lambda>(t, _). tsize t)") (auto simp: size_slot_table)

declare CheckForAndReturnValue.simps [simp del]

subsection \<open>A table is a map in which the first insertion wins\<close>

abbreviation find :: "'v Table \<Rightarrow> Hash \<Rightarrow> 'v option" where
  "find \<equiv> CheckForAndReturnValue"

definition slot_find :: "'v HashSlot \<Rightarrow> Hash \<Rightarrow> 'v option" where
  "slot_find e h =
     (if leaf e then (if slot_hash e = h then Some (slot_value e) else None)
      else case slot_table e of None \<Rightarrow> None | Some t \<Rightarrow> find t (drop_bit 8 h))"

lemma find_slot: "find t h = (case map_of t (ucast h) of None \<Rightarrow> None | Some e \<Rightarrow> slot_find e h)"
  by (subst CheckForAndReturnValue.simps) (simp add: slot_find_def split: option.split)

lemma find_empty [simp]: "find [] h = None"
  by (simp add: find_slot)

inductive table_ok :: "'v Table \<Rightarrow> bool" where
  table_ok: "(\<And>i e. map_of t i = Some e \<Longrightarrow> ucast (slot_hash e) = i \<and>
      (leaf e \<or> (\<exists>t'. slot_table e = Some t' \<and> table_ok t' \<and> find t' (drop_bit 8 (slot_hash e)) \<noteq> None)))
    \<Longrightarrow> table_ok t"

inductive_cases table_okE: "table_ok t"

lemma table_ok_empty [simp]: "table_ok []"
  by (rule table_ok) simp

lemma table_ok_update:
  assumes "table_ok t" "ucast (slot_hash e) = i"
    and "leaf e \<or> (\<exists>t'. slot_table e = Some t' \<and> table_ok t' \<and> find t' (drop_bit 8 (slot_hash e)) \<noteq> None)"
  shows "table_ok (AList.update i e t)"
  by (rule table_ok) (use assms in \<open>auto simp: update_conv' split: if_splits elim: table_okE\<close>)

lemma find_update:
  "find (AList.update i e t) h = (if ucast h = i then slot_find e h else find t h)"
  by (simp add: find_slot update_conv')

lemma hash_split:
  assumes "(ucast g :: byte) = ucast (h :: Hash)"
  shows "drop_bit 8 g = drop_bit 8 h \<longleftrightarrow> g = h"
proof
  assume d: "drop_bit 8 g = drop_bit 8 h"
  have "unat g mod 256 = unat h mod 256"
    using arg_cong [OF assms, of unat] by (simp only: unat_ucast_byte)
  moreover have "unat g div 256 = unat h div 256"
    using arg_cong [OF d, of unat] by (simp only: unat_drop_bit_8)
  ultimately have "unat g = unat h" by (metis div_mult_mod_eq)
  then show "g = h" by (rule word_eq_iff_unsigned [THEN iffD2])
qed simp

text \<open>\<open>put f h v\<close>: the map \<open>f\<close> with \<open>h\<close> bound to \<open>v\<close> unless it is bound already.\<close>

definition put :: "(Hash \<Rightarrow> 'v option) \<Rightarrow> Hash \<Rightarrow> 'v \<Rightarrow> Hash \<Rightarrow> 'v option" where
  "put f h v = (if f h = None then f(h := Some v) else f)"

lemma Insert_empty:
  "Insert m [] v h = (if m = 0 then (False, [], 0) else (True, [(ucast h, HashSlot True h v None)], m - 1))"
  by (subst Insert.simps) simp

lemma find_single: "find [(ucast h, HashSlot True h v None)] g = (if g = h then Some v else None)"
  by (auto simp: find_slot slot_find_def)

lemma table_ok_single: "table_ok [(ucast h, HashSlot True h v None)]"
  by (rule table_ok) (auto split: if_splits)

text \<open>A slot that stands for the binding of its hash, in a table at index \<open>ucast (slot_hash e)\<close>.\<close>

definition slot_ok :: "'v HashSlot \<Rightarrow> bool" where
  "slot_ok e \<longleftrightarrow> leaf e \<or>
     (\<exists>t'. slot_table e = Some t' \<and> table_ok t' \<and> find t' (drop_bit 8 (slot_hash e)) \<noteq> None)"

lemma table_okD: "table_ok t \<Longrightarrow> map_of t i = Some e \<Longrightarrow> ucast (slot_hash e) = i \<and> slot_ok e"
  by (auto simp: slot_ok_def elim: table_okE)

lemma find_bound_slot: "slot_ok e \<Longrightarrow> slot_find e (slot_hash e) \<noteq> None"
  by (auto simp: slot_ok_def slot_find_def)

lemma split_slot:
  assumes "table_ok t" "find t = (\<lambda>g. if g = drop_bit 8 h then Some w else if g = drop_bit 8 k then Some v else None)"
    and "ucast h = (ucast k :: byte)" "h \<noteq> k"
  shows "slot_ok (HashSlot False k v (Some t)) \<and>
    (\<forall>g. (ucast g :: byte) = ucast k \<longrightarrow>
      slot_find (HashSlot False k v (Some t)) g = put (slot_find (HashSlot True k v None)) h w g)"
  using assms hash_split [of _ k] hash_split [of _ h] hash_split [OF assms(3)]
  by (auto simp: slot_ok_def slot_find_def put_def)

definition ins_ok :: "'v Table \<Rightarrow> 'v \<Rightarrow> Hash \<Rightarrow> bool \<times> 'v Table \<times> nat \<Rightarrow> bool" where
  "ins_ok t v h res = (case res of (r, t', m') \<Rightarrow>
     table_ok t' \<and> find t' = (if r then put (find t) h v else find t))"

definition split_ok :: "'v HashSlot \<Rightarrow> 'v \<Rightarrow> Hash \<Rightarrow> bool \<times> 'v HashSlot \<times> nat \<Rightarrow> bool" where
  "split_ok e v h res = (case res of (r, e', m') \<Rightarrow>
     slot_ok e' \<and> slot_hash e' = slot_hash e \<and>
     (\<forall>g. (ucast g :: byte) = ucast (slot_hash e) \<longrightarrow>
        slot_find e' g = (if r then put (slot_find e) h v g else slot_find e g)))"

text \<open>Replacing the slot of a hash by one that behaves as required.\<close>

lemma ins_ok_update:
  assumes t: "table_ok t" "map_of t (ucast h) = Some e" and s: "split_ok e v h (r, e', m')"
  shows "ins_ok t v h (r, AList.update (ucast h) e' t, m')"
proof -
  have e: "ucast (slot_hash e) = (ucast h :: byte)" using table_okD [OF t] by simp
  have 1: "table_ok (AList.update (ucast h) e' t)"
    using s e by (intro table_ok_update [OF t(1)]) (auto simp: split_ok_def slot_ok_def)
  have f: "find t g = slot_find e g" if "ucast g = (ucast h :: byte)" for g
    using t(2) that by (simp add: find_slot)
  have "find (AList.update (ucast h) e' t) g = (if r then put (find t) h v else find t) g" for g
  proof (cases "ucast g = (ucast h :: byte)")
    case True
    have "slot_find e' g = (if r then put (slot_find e) h v g else slot_find e g)"
      using s e True by (simp add: split_ok_def)
    then show ?thesis
      using True f [OF True] f [OF refl] by (auto simp: find_update put_def)
  next
    case False
    then show ?thesis by (auto simp: find_update put_def)
  qed
  then show ?thesis using 1 by (auto simp: ins_ok_def)
qed

lemma Insert_SplitAndInsert_ok:
  "table_ok t \<Longrightarrow> ins_ok t v h (Insert m t v h)"
  "leaf e \<Longrightarrow> h \<noteq> slot_hash e \<Longrightarrow> ucast h = (ucast (slot_hash e) :: byte) \<Longrightarrow>
   split_ok e v h (SplitAndInsert m e v h)"
proof (induction m t v h and m e v h rule: Insert_SplitAndInsert.induct)
  case (1 m t element h)
  show ?case
  proof (cases "map_of t (ucast h)")
    case None
    have n: "find t g = None" if "ucast g = (ucast h :: byte)" for g
      using None that by (simp add: find_slot)
    have "find (AList.update (ucast h) (HashSlot True h element None) t) = put (find t) h element"
      using n by (auto simp: find_update put_def slot_find_def fun_eq_iff)
    then show ?thesis
      using None 1(3) table_ok_update [OF 1(3), of "HashSlot True h element None"]
      by (subst Insert.simps) (auto simp: ins_ok_def)
  next
    case (Some e)
    note e = table_okD [OF 1(3) Some]
    consider "h = slot_hash e" | "h \<noteq> slot_hash e" "leaf e" | "h \<noteq> slot_hash e" "\<not> leaf e" by blast
    then show ?thesis
    proof cases
      case 1
      have "slot_find e h \<noteq> None" unfolding 1 using e by (intro find_bound_slot) blast
      moreover have "find t h = slot_find e h" by (subst find_slot) (simp add: Some)
      ultimately obtain w where "find t h = Some w" by auto
      then show ?thesis
        using 1 Some \<open>table_ok t\<close> by (subst Insert.simps) (simp add: ins_ok_def put_def)
    next
      case 2
      obtain r e' m' where s: "SplitAndInsert m e element h = (r, e', m')" by (rule prod_cases3)
      have "split_ok e element h (r, e', m')"
        using 1(1) [OF refl Some 2] 2 e s by simp
      from ins_ok_update [OF 1(3) Some this] show ?thesis
        using 2 Some s by (subst Insert.simps) simp
    next
      case 3
      then obtain t' where t': "slot_table e = Some t'" "table_ok t'" "find t' (drop_bit 8 (slot_hash e)) \<noteq> None"
        using e by (auto simp: slot_ok_def)
      obtain r t2 m' where i: "Insert m t' element (drop_bit 8 h) = (r, t2, m')" by (rule prod_cases3)
      have "ins_ok t' element (drop_bit 8 h) (r, t2, m')"
        using 1(2) [OF refl Some 3 t'(1) t'(2)] i by simp
      then have "split_ok e element h (r, HashSlot False (slot_hash e) (slot_value e) (Some t2), m')"
        using 3 t' e hash_split [of _ h]
        by (auto simp: ins_ok_def split_ok_def slot_ok_def slot_find_def put_def split: if_splits)
      from ins_ok_update [OF 1(3) Some this] show ?thesis
        using 3 Some t' i by (subst Insert.simps) simp
    qed
  qed
next
  case (2 m e v h)
  let ?k = "slot_hash e"
  have e: "e = HashSlot True ?k (slot_value e) (slot_table e)" using 2(3) by (cases e) simp
  have kept: "split_ok e v h (False, HashSlot True ?k (slot_value e) x, m')" for x m'
    using 2(3) by (simp add: split_ok_def slot_ok_def slot_find_def)
  show ?case
  proof (cases "m < 2")
    case True
    then show ?thesis
      using kept by (subst SplitAndInsert.simps) (auto simp: NewTable_def Insert_empty less_2_cases_iff)
  next
    case False
    let ?t1 = "[(ucast (drop_bit 8 ?k), HashSlot True (drop_bit 8 ?k) (slot_value e) None)]"
    have n: "NewTable m = (Some [], m - 1)"
      "Insert (m - 1) [] (slot_value e) (drop_bit 8 ?k) = (True, ?t1, m - 2)"
      using False by (simp_all add: NewTable_def Insert_empty)
    obtain r t2 m3 where i: "Insert (m - 2) ?t1 v (drop_bit 8 h) = (r, t2, m3)" by (rule prod_cases3)
    have ok: "ins_ok ?t1 v (drop_bit 8 h) (r, t2, m3)"
      using 2(2) [OF n(1) [symmetric] refl n(2) [symmetric] refl _ table_ok_single] i by simp
    have unf: "SplitAndInsert m e v h =
        (if r then (True, HashSlot False ?k (slot_value e) (Some t2), m3)
         else (False, HashSlot True ?k (slot_value e) (Some t2), m3))"
      by (subst SplitAndInsert.simps) (simp only: n i option.case prod.case, simp)
    show ?thesis
    proof (cases r)
      case True
      have "find t2 = (\<lambda>g. if g = drop_bit 8 h then Some v
          else if g = drop_bit 8 ?k then Some (slot_value e) else None)"
        using ok True 2(4,5) hash_split [OF 2(5)] by (auto simp: ins_ok_def put_def find_single fun_eq_iff)
      moreover have "slot_find (HashSlot True ?k (slot_value e) None) = slot_find e"
        using 2(3) by (simp add: slot_find_def fun_eq_iff)
      moreover have "table_ok t2" using ok by (simp add: ins_ok_def)
      ultimately have "split_ok e v h (True, HashSlot False ?k (slot_value e) (Some t2), m3)"
        using split_slot [OF _ _ 2(5,4), of t2 v "slot_value e"] by (simp add: split_ok_def)
      then show ?thesis using True unf by simp
    qed (use kept unf in simp)
  qed
qed

subsection \<open>The contract of a hash table\<close>

locale hash_map =
  fixes lookup :: "'t \<Rightarrow> Hash \<Rightarrow> 'v option"
    and insert :: "nat \<Rightarrow> 't \<Rightarrow> 'v \<Rightarrow> Hash \<Rightarrow> bool \<times> 't \<times> nat"
    and ok :: "'t \<Rightarrow> bool"
  assumes insert_keeps: "ok t \<Longrightarrow> insert m t v h = (r, t', m') \<Longrightarrow> ok t'"
    and insert_done: "ok t \<Longrightarrow> insert m t v h = (True, t', m') \<Longrightarrow> lookup t' = put (lookup t) h v"
    and insert_failed: "ok t \<Longrightarrow> insert m t v h = (False, t', m') \<Longrightarrow> lookup t' = lookup t"

text \<open>Registering a list of bindings, up to the first that fails.\<close>

fun insertAll :: "(nat \<Rightarrow> 't \<Rightarrow> 'v \<Rightarrow> Hash \<Rightarrow> bool \<times> 't \<times> nat) \<Rightarrow> nat \<Rightarrow> 't \<Rightarrow> (Hash \<times> 'v) list \<Rightarrow>
    bool \<times> 't \<times> nat" where
  "insertAll ins m t [] = (True, t, m)"
| "insertAll ins m t ((h, v) # kvs) =
     (case ins m t v h of (r, t', m') \<Rightarrow> if r then insertAll ins m' t' kvs else (False, t', m'))"

context hash_map
begin

lemma insertAll_keeps: "ok t \<Longrightarrow> insertAll insert m t kvs = (r, t', m') \<Longrightarrow> ok t'"
proof (induction kvs arbitrary: m t)
  case (Cons kv kvs)
  obtain h v where kv: "kv = (h, v)" by (cases kv)
  obtain r1 t1 m1 where i: "insert m t v h = (r1, t1, m1)" by (rule prod_cases3)
  have "ok t1" using Cons.prems(1) i by (rule insert_keeps)
  then show ?case
    using Cons.prems Cons.IH [of t1 m1] kv i by (cases r1) auto
qed simp

lemma insertAll_lookup:
  "ok t \<Longrightarrow> insertAll insert m t kvs = (True, t', m') \<Longrightarrow> lookup t' = (map_of kvs) ++ (lookup t)"
proof (induction kvs arbitrary: m t)
  case (Cons kv kvs)
  obtain h v where kv: "kv = (h, v)" by (cases kv)
  obtain r1 t1 m1 where i: "insert m t v h = (r1, t1, m1)" by (rule prod_cases3)
  then have r: "r1" using Cons.prems kv by (cases r1) auto
  have ok1: "ok t1" using Cons.prems(1) i by (rule insert_keeps)
  have "lookup t1 = put (lookup t) h v" using insert_done [OF Cons.prems(1)] i r by simp
  moreover have "lookup t' = (map_of kvs) ++ (lookup t1)"
    using Cons.IH [OF ok1] Cons.prems kv i r by auto
  ultimately show ?case
    by (auto simp: kv put_def map_add_def fun_eq_iff split: option.splits)
qed (simp add: map_add_def fun_eq_iff)

end

interpretation hm: hash_map CheckForAndReturnValue Insert table_ok
proof
  fix t :: "'v Table" and m v h r t' m'
  show "table_ok t'" if "table_ok t" "Insert m t v h = (r, t', m')"
    using Insert_SplitAndInsert_ok(1) [OF that(1), of v h m] that(2) by (simp add: ins_ok_def)
  show "find t' = put (find t) h v" if "table_ok t" "Insert m t v h = (True, t', m')"
    using Insert_SplitAndInsert_ok(1) [OF that(1), of v h m] that(2) by (simp add: ins_ok_def)
  show "find t' = find t" if "table_ok t" "Insert m t v h = (False, t', m')"
    using Insert_SplitAndInsert_ok(1) [OF that(1), of v h m] that(2) by (simp add: ins_ok_def)
qed

end
