(* ===== verification/Asn_Any.thy ===== *)
theory Asn_Any
  imports Asn_Octs Hash_Table
begin

section \<open>ANY and ANY DEFINED BY (\<open>c-lib/src/asn-any.c\<close>)\<close>

text \<open>
  The descriptor \<open>AnyInfo\<close> of a type with its coding routines, the two hash tables from
  identifiers to descriptors, and the coding of a value through its descriptor.

  \<open>'x\<close> is the type of the values of the installed types; a value of a type that is not in
  the table is kept as the octets of its whole element (\<open>Blob\<close>).  A routine pointer is an
  option.  \<open>copyAny\<close> is the operation of the same name that the \<open>GenBuf\<close> structure has in
  addition to those of \<open>Gen_Buf\<close>: it gives an error number or the octets.
\<close>

datatype 'x AnyValue = Known 'x | Blob AsnOcts

record 'b AnyBuf = "'b GenBuf" +
  copyAny :: "'b \<Rightarrow> AsnLen \<Rightarrow> int + (AsnOcts \<times> AsnLen \<times> 'b)"

record ('b, 'x) AnyInfo =
  anyId :: int
  oid :: "AsnOcts option"
  intId :: AsnInt
  size_of :: nat
  Encode :: "('b AnyBuf \<Rightarrow> 'b \<Rightarrow> 'x AnyValue \<Rightarrow> AsnLen \<times> 'b) option"
  Decode :: "('b AnyBuf \<Rightarrow> 'b \<Rightarrow> AsnLen \<Rightarrow> ('b, 'x AnyValue) dres) option"

record ('b, 'x) AnyTables =
  anyOidHashTblG :: "('b, 'x) AnyInfo Table option"
  anyIntHashTblG :: "('b, 'x) AnyInfo Table option"
  mallocs_left :: nat

definition kUnknownAnyObjectID :: int where
  "kUnknownAnyObjectID = -7"

text \<open>A descriptor is \<open>NULL\<close> where the macro looks.\<close>

definition GetAsnAnyId :: "('b, 'x) AnyInfo option \<Rightarrow> int" where
  "GetAsnAnyId ai = (case ai of Some a \<Rightarrow> anyId a | None \<Rightarrow> -1)"

subsection \<open>Values of unknown types\<close>

text \<open>The encoder is only reached with the octets that the decoder below made.\<close>

fun BEncUnknownAsnAny :: "('b, 'z) GenBuf_scheme \<Rightarrow> 'b \<Rightarrow> 'x AnyValue \<Rightarrow> AsnLen \<times> 'b" where
  "BEncUnknownAsnAny g b (Blob data) =
     (of_nat (octetLen data), putSegRvs g b (take (octetLen data) (octs data)))"
| "BEncUnknownAsnAny g b (Known x) = (0, b)"

definition BDecUnknownAsnAny :: "'b AnyBuf \<Rightarrow> 'b \<Rightarrow> AsnLen \<Rightarrow> ('b, 'x AnyValue) dres" where
  "BDecUnknownAsnAny g b n =
     (case copyAny g b n of
        Inl err \<Rightarrow> Jmp (-900)
      | Inr (x, n, b) \<Rightarrow> Ret (Blob x) n b)"

text \<open>\<open>sizeof (AsnOcts)\<close> with 8-byte pointers.\<close>

definition unknownInfo :: "AsnOcts option \<Rightarrow> AsnInt \<Rightarrow> ('b, 'x) AnyInfo" where
  "unknownInfo ident junk =
     \<lparr>anyId = kUnknownAnyObjectID, oid = ident, intId = junk, size_of = 16,
      Encode = Some BEncUnknownAsnAny, Decode = Some BDecUnknownAsnAny\<rparr>"

subsection \<open>The tables\<close>

text \<open>The bytes of an \<open>AsnInt\<close> in memory, least significant first.\<close>

definition int_key :: "AsnInt \<Rightarrow> byte list" where
  "int_key ident = rev (to_be 4 ident)"

text \<open>
  A \<open>SetAnyType\<close> function gives the new \<open>ai\<close> pointer.  A table that was never made is
  \<open>NULL\<close>, and the lookup would go through it: no value.  \<open>junk\<close> is what the fields that
  are not assigned hold.
\<close>

definition SetAnyTypeByInt :: "('b, 'x) AnyTables \<Rightarrow> AsnInt \<Rightarrow> ('b, 'x) AnyInfo option option" where
  "SetAnyTypeByInt G ident =
     (case anyIntHashTblG G of
        None \<Rightarrow> None
      | Some t \<Rightarrow> Some (CheckForAndReturnValue t (MakeHash (int_key ident) 4)))"

definition SetAnyTypeByOid :: "('b, 'x) AnyTables \<Rightarrow> AsnInt \<Rightarrow> AsnOcts \<Rightarrow> ('b, 'x) AnyInfo option" where
  "SetAnyTypeByOid G junk ident =
     (case anyOidHashTblG G of
        None \<Rightarrow> None
      | Some t \<Rightarrow>
          (case CheckForAndReturnValue t (MakeHash (octs ident) (octetLen ident)) of
             Some a \<Rightarrow> Some a
           | None \<Rightarrow> Some (unknownInfo (Some ident) junk)))"

definition SetAnyTypeUnknown :: "AsnOcts option \<Rightarrow> AsnInt \<Rightarrow> ('b, 'x) AnyInfo" where
  "SetAnyTypeUnknown junkOid junk = unknownInfo junkOid junk"

text \<open>
  Installing takes one \<open>malloc\<close> for the descriptor (\<open>None\<close>: the program exits), makes the
  table when there is none, and ignores the result of \<open>Insert\<close>.
\<close>

definition InstallAnyByInt ::
  "int \<Rightarrow> AsnInt \<Rightarrow> nat \<Rightarrow> ('b AnyBuf \<Rightarrow> 'b \<Rightarrow> 'x AnyValue \<Rightarrow> AsnLen \<times> 'b) option \<Rightarrow>
    ('b AnyBuf \<Rightarrow> 'b \<Rightarrow> AsnLen \<Rightarrow> ('b, 'x AnyValue) dres) option \<Rightarrow> ('b, 'x) AnyTables \<Rightarrow>
    ('b, 'x) AnyTables option" where
  "InstallAnyByInt aid ident sz enc dec G =
     (if mallocs_left G = 0 then None
      else
        let a = \<lparr>anyId = aid, oid = None, intId = ident, size_of = sz, Encode = enc, Decode = dec\<rparr>;
            m = mallocs_left G - 1;
            (t, m) = (case anyIntHashTblG G of None \<Rightarrow> InitHash m | Some t \<Rightarrow> (Some t, m));
            h = MakeHash (int_key ident) 4
        in Some (case t of
            None \<Rightarrow> G\<lparr>anyIntHashTblG := None, mallocs_left := m\<rparr>
          | Some t \<Rightarrow> (case Insert m t a h of
              (_, t, m) \<Rightarrow> G\<lparr>anyIntHashTblG := Some t, mallocs_left := m\<rparr>)))"

definition InstallAnyByOid ::
  "int \<Rightarrow> AsnOcts \<Rightarrow> AsnInt \<Rightarrow> nat \<Rightarrow> ('b AnyBuf \<Rightarrow> 'b \<Rightarrow> 'x AnyValue \<Rightarrow> AsnLen \<times> 'b) option \<Rightarrow>
    ('b AnyBuf \<Rightarrow> 'b \<Rightarrow> AsnLen \<Rightarrow> ('b, 'x AnyValue) dres) option \<Rightarrow> ('b, 'x) AnyTables \<Rightarrow>
    ('b, 'x) AnyTables option" where
  "InstallAnyByOid aid ident junk sz enc dec G =
     (if mallocs_left G = 0 then None
      else
        let a = \<lparr>anyId = aid, oid = Some ident, intId = junk, size_of = sz, Encode = enc, Decode = dec\<rparr>;
            m = mallocs_left G - 1;
            h = MakeHash (octs ident) (octetLen ident);
            (t, m) = (case anyOidHashTblG G of None \<Rightarrow> InitHash m | Some t \<Rightarrow> (Some t, m))
        in Some (case t of
            None \<Rightarrow> G\<lparr>anyOidHashTblG := None, mallocs_left := m\<rparr>
          | Some t \<Rightarrow> (case Insert m t a h of
              (_, t, m) \<Rightarrow> G\<lparr>anyOidHashTblG := Some t, mallocs_left := m\<rparr>)))"

subsection \<open>Coding through the descriptor\<close>

definition BEncAsnAny :: "'b AnyBuf \<Rightarrow> 'b \<Rightarrow> ('b, 'x) AnyInfo option \<Rightarrow> 'x AnyValue \<Rightarrow> AsnLen \<times> 'b" where
  "BEncAsnAny g b ai v =
     (case ai of
        Some a \<Rightarrow> (case Encode a of Some f \<Rightarrow> f g b v | None \<Rightarrow> (0, b))
      | None \<Rightarrow> (0, b))"

definition BDecAsnAny ::
  "(nat \<Rightarrow> bool) \<Rightarrow> 'b AnyBuf \<Rightarrow> ('b, 'x) AnyInfo option \<Rightarrow> 'b \<Rightarrow> AsnLen \<Rightarrow> ('b, 'x AnyValue) dres" where
  "BDecAsnAny alloc g ai b n =
     (case ai of
        Some a \<Rightarrow>
          (case Decode a of
             Some f \<Rightarrow> if \<not> alloc (size_of a) then Jmp (-27) else f g b n
           | None \<Rightarrow> Jmp (-44))
      | None \<Rightarrow> Jmp (-44))"

subsection \<open>What the tables find\<close>

text \<open>One more descriptor: found by every identifier of the same hash, unless the hash was taken.\<close>

lemma SetAnyTypeByOid_Install:
  assumes "table_ok t" "anyOidHashTblG G = Some t" "0 < mallocs_left G"
    and "InstallAnyByOid aid ident junk sz enc dec G = Some G'"
    and "fst (Insert (mallocs_left G - 1) t
      \<lparr>anyId = aid, oid = Some ident, intId = junk, size_of = sz, Encode = enc, Decode = dec\<rparr>
      (MakeHash (octs ident) (octetLen ident)))"
  shows "SetAnyTypeByOid G' junk' x =
    (if MakeHash (octs x) (octetLen x) = MakeHash (octs ident) (octetLen ident) \<and>
        CheckForAndReturnValue t (MakeHash (octs ident) (octetLen ident)) = None
     then Some \<lparr>anyId = aid, oid = Some ident, intId = junk, size_of = sz, Encode = enc, Decode = dec\<rparr>
     else SetAnyTypeByOid G junk' x) \<and>
    (\<exists>t'. anyOidHashTblG G' = Some t' \<and> table_ok t')"
proof -
  let ?a = "\<lparr>anyId = aid, oid = Some ident, intId = junk, size_of = sz, Encode = enc, Decode = dec\<rparr>"
  let ?h = "MakeHash (octs ident) (octetLen ident)"
  obtain t' m' where i: "Insert (mallocs_left G - 1) t ?a ?h = (True, t', m')"
    using assms(5) by (metis prod.collapse)
  have G': "anyOidHashTblG G' = Some t'"
    using assms(2,3,4) i by (auto simp: InstallAnyByOid_def Let_def)
  have "find t' = put (find t) ?h ?a" using hm.insert_done [OF assms(1) i] .
  then show ?thesis
    using G' assms(2) hm.insert_keeps [OF assms(1) i]
    by (auto simp: SetAnyTypeByOid_def put_def split: option.splits)
qed

lemma SetAnyTypeByInt_Install:
  assumes "table_ok t" "anyIntHashTblG G = Some t" "0 < mallocs_left G"
    and "InstallAnyByInt aid ident sz enc dec G = Some G'"
    and "fst (Insert (mallocs_left G - 1) t
      \<lparr>anyId = aid, oid = None, intId = ident, size_of = sz, Encode = enc, Decode = dec\<rparr>
      (MakeHash (int_key ident) 4))"
  shows "SetAnyTypeByInt G' x =
    (if MakeHash (int_key x) 4 = MakeHash (int_key ident) 4 \<and>
        CheckForAndReturnValue t (MakeHash (int_key ident) 4) = None
     then Some (Some \<lparr>anyId = aid, oid = None, intId = ident, size_of = sz, Encode = enc, Decode = dec\<rparr>)
     else SetAnyTypeByInt G x) \<and>
    (\<exists>t'. anyIntHashTblG G' = Some t' \<and> table_ok t')"
proof -
  let ?a = "\<lparr>anyId = aid, oid = None, intId = ident, size_of = sz, Encode = enc, Decode = dec\<rparr>"
  let ?h = "MakeHash (int_key ident) 4"
  obtain t' m' where i: "Insert (mallocs_left G - 1) t ?a ?h = (True, t', m')"
    using assms(5) by (metis prod.collapse)
  have G': "anyIntHashTblG G' = Some t'"
    using assms(2,3,4) i by (auto simp: InstallAnyByInt_def Let_def)
  have "find t' = put (find t) ?h ?a" using hm.insert_done [OF assms(1) i] .
  then show ?thesis
    using G' assms(2) hm.insert_keeps [OF assms(1) i]
    by (auto simp: SetAnyTypeByInt_def put_def split: option.splits)
qed

end
