(* ===== verification/Asn_List.thy ===== *)
theory Asn_List
  imports Asn_Prelude "HOL-Library.Monad_Syntax"
begin

section \<open>Doubly linked lists (\<open>c-lib/src/asn-list.c\<close>)\<close>

text \<open>
  The list that the generated types and the compiler use, over an explicit heap of nodes.
  Addresses are naturals, \<open>NULL\<close> is \<open>None\<close>; an access through \<open>NULL\<close> or to a
  node that is not allocated makes the operation \<open>None\<close>.  The address that
  \<open>Asn1Alloc\<close> gives and the contents of the new memory are arguments.  The address of
  the data of a node stands for the node.  \<open>'d\<close> is what the data pointer points to.

  \<open>dll\<close> says that the nodes \<open>ns\<close> are chained in that order; \<open>is_list\<close> is what
  every operation keeps, with the list of nodes and the cursor as the abstract value.
\<close>

record 'd AsnListNode =
  prev :: "nat option"
  "next" :: "nat option"
  data :: "'d option"

record AsnList =
  first :: "nat option"
  last_node :: "nat option"
  curr_node :: "nat option"
  count :: int
  dataSize :: int

type_synonym 'd heap = "nat \<Rightarrow> 'd AsnListNode option"

fun deref :: "'d heap \<Rightarrow> nat option \<Rightarrow> 'd AsnListNode option" where
  "deref h None = None"
| "deref h (Some a) = h a"

definition setNext :: "'d heap \<Rightarrow> nat option \<Rightarrow> nat option \<Rightarrow> 'd heap option" where
  "setNext h p v = (case p of None \<Rightarrow> None
     | Some a \<Rightarrow> map_option (\<lambda>n. h(a \<mapsto> n\<lparr>next := v\<rparr>)) (h a))"

definition setPrev :: "'d heap \<Rightarrow> nat option \<Rightarrow> nat option \<Rightarrow> 'd heap option" where
  "setPrev h p v = (case p of None \<Rightarrow> None
     | Some a \<Rightarrow> map_option (\<lambda>n. h(a \<mapsto> n\<lparr>prev := v\<rparr>)) (h a))"

subsection \<open>Operations\<close>

definition AsnListInit :: "AsnList \<Rightarrow> int \<Rightarrow> AsnList" where
  "AsnListInit L sz = L\<lparr>first := None, last_node := None, curr_node := None, count := 0, dataSize := sz\<rparr>"

definition AsnListNew :: "int \<Rightarrow> AsnList" where
  "AsnListNew sz = \<lparr>first = None, last_node = None, curr_node = None, count = 0, dataSize = sz\<rparr>"

definition AsnListRemove :: "'d heap \<times> AsnList \<Rightarrow> ('d heap \<times> AsnList) option" where
  "AsnListRemove = (\<lambda>(h, L).
     if curr_node L = None then Some (h, L)
     else do {
       n \<leftarrow> deref h (curr_node L);
       (h, L) \<leftarrow> (if next n \<noteq> None then map_option (\<lambda>h. (h, L)) (setPrev h (next n) (prev n))
                 else Some (h, L\<lparr>last_node := prev n\<rparr>));
       n \<leftarrow> deref h (curr_node L);
       (h, L) \<leftarrow> (if prev n \<noteq> None then map_option (\<lambda>h. (h, L)) (setNext h (prev n) (next n))
                 else Some (h, L\<lparr>first := next n\<rparr>));
       n \<leftarrow> deref h (curr_node L);
       Some (h(the (curr_node L) := None), L\<lparr>curr_node := next n, count := count L - 1\<rparr>)
     })"

definition AsnListAdd ::
  "nat \<Rightarrow> 'd option \<Rightarrow> 'd heap \<times> AsnList \<Rightarrow> (nat option \<times> 'd heap \<times> AsnList) option" where
  "AsnListAdd a d = (\<lambda>(h, L).
     if curr_node L = None then Some (None, h, L)
     else do {
       n \<leftarrow> deref h (curr_node L);
       h \<leftarrow> Some (h(a \<mapsto> \<lparr>prev = curr_node L, next = next n, data = d\<rparr>));
       (h, L) \<leftarrow> (if next n \<noteq> None then map_option (\<lambda>h. (h, L)) (setPrev h (next n) (Some a))
                 else Some (h, L\<lparr>last_node := Some a\<rparr>));
       h \<leftarrow> setNext h (curr_node L) (Some a);
       Some (Some a, h, L\<lparr>curr_node := Some a, count := count L + 1\<rparr>)
     })"

definition AsnListInsert ::
  "nat \<Rightarrow> 'd option \<Rightarrow> 'd heap \<times> AsnList \<Rightarrow> (nat option \<times> 'd heap \<times> AsnList) option" where
  "AsnListInsert a d = (\<lambda>(h, L).
     if curr_node L = None then Some (None, h, L)
     else do {
       n \<leftarrow> deref h (curr_node L);
       h \<leftarrow> Some (h(a \<mapsto> \<lparr>prev = prev n, next = curr_node L, data = d\<rparr>));
       (h, L) \<leftarrow> (if prev n \<noteq> None then map_option (\<lambda>h. (h, L)) (setNext h (prev n) (Some a))
                 else Some (h, L\<lparr>first := Some a\<rparr>));
       h \<leftarrow> setPrev h (curr_node L) (Some a);
       Some (Some a, h, L\<lparr>curr_node := Some a, count := count L + 1\<rparr>)
     })"

definition AsnListPrev :: "'d heap \<times> AsnList \<Rightarrow> (nat option \<times> AsnList) option" where
  "AsnListPrev = (\<lambda>(h, L).
     if curr_node L = None then Some (last_node L, L\<lparr>curr_node := last_node L\<rparr>)
     else do { n \<leftarrow> deref h (curr_node L); Some (prev n, L\<lparr>curr_node := prev n\<rparr>) })"

definition AsnListNext :: "'d heap \<times> AsnList \<Rightarrow> (nat option \<times> AsnList) option" where
  "AsnListNext = (\<lambda>(h, L).
     if curr_node L = None then Some (first L, L\<lparr>curr_node := first L\<rparr>)
     else do { n \<leftarrow> deref h (curr_node L); Some (next n, L\<lparr>curr_node := next n\<rparr>) })"

definition AsnListLast :: "AsnList \<Rightarrow> nat option \<times> AsnList" where
  "AsnListLast L = (last_node L, L\<lparr>curr_node := last_node L\<rparr>)"

definition AsnListFirst :: "AsnList \<Rightarrow> nat option \<times> AsnList" where
  "AsnListFirst L = (first L, L\<lparr>curr_node := first L\<rparr>)"

definition AsnListPrepend ::
  "nat \<Rightarrow> 'd option \<Rightarrow> 'd heap \<times> AsnList \<Rightarrow> (nat option \<times> 'd heap \<times> AsnList) option" where
  "AsnListPrepend a d = (\<lambda>(h, L). do {
     (h, L) \<leftarrow>
       (if first L = None then
          Some (h(a \<mapsto> \<lparr>prev = None, next = None, data = d\<rparr>), L\<lparr>first := Some a, last_node := Some a\<rparr>)
        else do {
          h \<leftarrow> setPrev (h(a \<mapsto> \<lparr>prev = None, next = first L, data = d\<rparr>)) (first L) (Some a);
          Some (h, L\<lparr>first := Some a\<rparr>)
        });
     Some (Some a, h, L\<lparr>curr_node := Some a, count := count L + 1\<rparr>)
   })"

definition AsnListAppend ::
  "nat \<Rightarrow> 'd option \<Rightarrow> 'd heap \<times> AsnList \<Rightarrow> (nat option \<times> 'd heap \<times> AsnList) option" where
  "AsnListAppend a d = (\<lambda>(h, L). do {
     (h, L) \<leftarrow>
       (if last_node L = None then
          Some (h(a \<mapsto> \<lparr>prev = None, next = None, data = d\<rparr>), L\<lparr>first := Some a, last_node := Some a\<rparr>)
        else do {
          h \<leftarrow> setNext (h(a \<mapsto> \<lparr>prev = last_node L, next = None, data = d\<rparr>)) (last_node L) (Some a);
          Some (h, L\<lparr>last_node := Some a\<rparr>)
        });
     Some (Some a, h, L\<lparr>curr_node := Some a, count := count L + 1\<rparr>)
   })"

definition AsnListCurr :: "AsnList \<Rightarrow> nat option" where
  "AsnListCurr L = curr_node L"

definition AsnListCount :: "AsnList \<Rightarrow> int" where
  "AsnListCount L = count L"

definition AsnListConcat :: "'d heap \<Rightarrow> AsnList \<Rightarrow> AsnList \<Rightarrow> ('d heap \<times> AsnList) option" where
  "AsnListConcat h l1 l2 =
     (if count l2 = 0 then Some (h, l1)
      else if count l1 = 0 then
        Some (h, l1\<lparr>count := count l2, last_node := last_node l2, first := first l2, curr_node := first l2\<rparr>)
      else do {
        h \<leftarrow> setNext h (last_node l1) (first l2);
        h \<leftarrow> setPrev h (first l2) (last_node l1);
        Some (h, l1\<lparr>count := count l1 + count l2, last_node := last_node l2\<rparr>)
      })"

text \<open>
  \<open>FOR_EACH_LIST_ELMT\<close> walks along \<open>next\<close> until it meets \<open>NULL\<close>, as node or as data.
  On a chain that is a cycle it does not return, hence a partial function.
\<close>

partial_function (option) indexLoop :: "'d heap \<Rightarrow> 'd \<Rightarrow> nat option \<Rightarrow> int \<Rightarrow> int option" where
  "indexLoop h elmt c i =
     (case c of
        None \<Rightarrow> Some (-1)
      | Some a \<Rightarrow>
          (case h a of
             None \<Rightarrow> None
           | Some n \<Rightarrow>
               (case data n of
                  None \<Rightarrow> Some (-1)
                | Some x \<Rightarrow> if x = elmt then Some i else indexLoop h elmt (next n) (i + 1))))"

definition GetAsnListElmtIndex :: "'d heap \<Rightarrow> 'd \<Rightarrow> AsnList \<Rightarrow> int option" where
  "GetAsnListElmtIndex h elmt L = indexLoop h elmt (first L) 0"

partial_function (option) freeLoop :: "'d heap \<Rightarrow> nat option \<Rightarrow> 'd heap option" where
  "freeLoop h c =
     (case c of
        None \<Rightarrow> Some h
      | Some a \<Rightarrow> (case h a of None \<Rightarrow> None | Some n \<Rightarrow> freeLoop (h(a := None)) (next n)))"

definition AsnListFree :: "'d heap \<times> AsnList \<Rightarrow> 'd heap option" where
  "AsnListFree = (\<lambda>(h, L). freeLoop h (first L))"

subsection \<open>Chains of nodes\<close>

definition hd_opt :: "nat list \<Rightarrow> nat option \<Rightarrow> nat option" where
  "hd_opt ns d = (case ns of [] \<Rightarrow> d | a # _ \<Rightarrow> Some a)"

definition last_opt :: "nat list \<Rightarrow> nat option \<Rightarrow> nat option" where
  "last_opt ns d = (if ns = [] then d else Some (last ns))"

lemma hd_opt_simps [simp]: "hd_opt [] d = d" "hd_opt (a # ns) d = Some a"
  by (simp_all add: hd_opt_def)

lemma last_opt_simps [simp]: "last_opt [] d = d" "last_opt (a # ns) d = last_opt ns (Some a)"
  "last_opt (xs @ ys) d = last_opt ys (last_opt xs d)"
  by (auto simp: last_opt_def)

lemma hd_opt_append [simp]: "hd_opt (xs @ ys) d = hd_opt xs (hd_opt ys d)"
  by (cases xs) simp_all

fun dll :: "'d heap \<Rightarrow> nat option \<Rightarrow> nat list \<Rightarrow> 'd option list \<Rightarrow> nat option \<Rightarrow> bool" where
  "dll h p [] [] nx = True"
| "dll h p (a # ns) (d # ds) nx =
     (h a = Some \<lparr>prev = p, next = hd_opt ns nx, data = d\<rparr> \<and> dll h (Some a) ns ds nx)"
| "dll h p _ _ nx = False"

lemma dll_length: "dll h p ns ds nx \<Longrightarrow> length ns = length ds"
  by (induction h p ns ds nx rule: dll.induct) auto

lemma dll_append:
  "length xs = length ds \<Longrightarrow>
   dll h p (xs @ ys) (ds @ es) nx \<longleftrightarrow> dll h p xs ds (hd_opt ys nx) \<and> dll h (last_opt xs p) ys es nx"
  by (induction xs ds arbitrary: p rule: list_induct2) auto

lemma dll_frame: "a \<notin> set ns \<Longrightarrow> dll (h(a := v)) p ns ds nx = dll h p ns ds nx"
  by (induction h p ns ds nx rule: dll.induct) auto

lemma dll_in_heap: "dll h p ns ds nx \<Longrightarrow> a \<in> set ns \<Longrightarrow> h a \<noteq> None"
  by (induction h p ns ds nx rule: dll.induct) auto

text \<open>The neighbours of a chain are re-linked through its ends.\<close>

lemma dll_setPrev_first:
  assumes "dll h p ns ds nx" "ns \<noteq> []" "distinct ns"
  shows "\<exists>h'. setPrev h (hd_opt ns nx) q = Some h' \<and> dll h' q ns ds nx \<and> (\<forall>b. b \<notin> set ns \<longrightarrow> h' b = h b) \<and>
    dom h' = dom h"
proof -
  obtain a as d es where n: "ns = a # as" "ds = d # es"
    using assms(1,2) by (cases ns; cases ds) auto
  show ?thesis using assms(1,3) unfolding n by (auto simp: setPrev_def dll_frame)
qed

lemma dll_setNext_last:
  assumes "dll h p ns ds nx" "ns \<noteq> []" "distinct ns"
  shows "\<exists>h'. setNext h (last_opt ns p) q = Some h' \<and> dll h' p ns ds q \<and> (\<forall>b. b \<notin> set ns \<longrightarrow> h' b = h b) \<and>
    dom h' = dom h"
proof -
  obtain as a where n: "ns = as @ [a]" using assms(2) by (cases ns rule: rev_cases) auto
  obtain es d where e: "ds = es @ [d]" using dll_length [OF assms(1)] n by (cases ds rule: rev_cases) auto
  have l: "length as = length es" using dll_length [OF assms(1)] n e by simp
  show ?thesis using assms(1,3) unfolding n e dll_append [OF l]
    by (auto simp: setNext_def dll_frame dll_append [OF l])
qed

text \<open>
  The list \<open>L\<close> in the heap \<open>h\<close> has the nodes \<open>xs @ ys\<close>; the cursor is on the first
  node of \<open>ys\<close>, or off the list when \<open>ys\<close> is empty.
\<close>

definition is_list :: "'d heap \<Rightarrow> AsnList \<Rightarrow> nat list \<Rightarrow> 'd option list \<Rightarrow> nat option \<Rightarrow> bool" where
  "is_list h L ns ds c \<longleftrightarrow>
     dll h None ns ds None \<and> distinct ns \<and> first L = hd_opt ns None \<and> last_node L = last_opt ns None \<and>
     count L = int (length ns) \<and> curr_node L = c \<and> (\<forall>a. c = Some a \<longrightarrow> a \<in> set ns)"

lemma is_list_init: "is_list h (AsnListNew sz) [] [] None" "is_list h (AsnListInit L sz) [] [] None"
  by (simp_all add: is_list_def AsnListNew_def AsnListInit_def)

lemma AsnListAppend_ok:
  assumes "is_list h L ns ds c" "a \<notin> dom h"
  shows "\<exists>h' L'. AsnListAppend a d (h, L) = Some (Some a, h', L') \<and>
    is_list h' L' (ns @ [a]) (ds @ [d]) (Some a) \<and> dom h' = insert a (dom h) \<and>
    (\<forall>b. b \<notin> set ns \<and> b \<noteq> a \<longrightarrow> h' b = h b)"
proof (cases "ns = []")
  case True
  then show ?thesis using assms by (cases ds) (auto simp: is_list_def AsnListAppend_def)
next
  case False
  have i: "dll h None ns ds None" "distinct ns" using assms(1) by (simp_all add: is_list_def)
  have a: "a \<notin> set ns" using dll_in_heap [OF i(1)] assms(2) by auto
  let ?h = "h(a \<mapsto> \<lparr>prev = last_opt ns None, next = None, data = d\<rparr>)"
  have "dll ?h None ns ds None" using i(1) a by (simp add: dll_frame)
  from dll_setNext_last [OF this False i(2), of "Some a"] obtain h' where
    h': "setNext ?h (last_opt ns None) (Some a) = Some h'" "dll h' None ns ds (Some a)"
      "\<forall>b. b \<notin> set ns \<longrightarrow> h' b = ?h b" "dom h' = dom ?h" by blast
  have "dll h' None (ns @ [a]) (ds @ [d]) None"
    using h' a dll_length [OF i(1)] by (simp add: dll_append)
  then show ?thesis
    using assms(1) a h' False by (auto simp: is_list_def AsnListAppend_def last_opt_def hd_opt_def split: list.splits)
qed

lemma AsnListPrepend_ok:
  assumes "is_list h L ns ds c" "a \<notin> dom h"
  shows "\<exists>h' L'. AsnListPrepend a d (h, L) = Some (Some a, h', L') \<and>
    is_list h' L' (a # ns) (d # ds) (Some a) \<and> dom h' = insert a (dom h) \<and>
    (\<forall>b. b \<notin> set ns \<and> b \<noteq> a \<longrightarrow> h' b = h b)"
proof (cases "ns = []")
  case True
  then show ?thesis using assms by (cases ds) (auto simp: is_list_def AsnListPrepend_def)
next
  case False
  have i: "dll h None ns ds None" "distinct ns" using assms(1) by (simp_all add: is_list_def)
  have a: "a \<notin> set ns" using dll_in_heap [OF i(1)] assms(2) by auto
  let ?h = "h(a \<mapsto> \<lparr>prev = None, next = hd_opt ns None, data = d\<rparr>)"
  have "dll ?h None ns ds None" using i(1) a by (simp add: dll_frame)
  from dll_setPrev_first [OF this False i(2), of "Some a"] obtain h' where
    h': "setPrev ?h (hd_opt ns None) (Some a) = Some h'" "dll h' (Some a) ns ds None"
      "\<forall>b. b \<notin> set ns \<longrightarrow> h' b = ?h b" "dom h' = dom ?h" by blast
  then show ?thesis
    using assms(1) a False by (auto simp: is_list_def AsnListPrepend_def last_opt_def hd_opt_def split: list.splits)
qed

lemma dll_agree: "\<forall>b \<in> set ns. h' b = h b \<Longrightarrow> dll h' p ns ds nx = dll h p ns ds nx"
  by (induction h p ns ds nx rule: dll.induct) auto

text \<open>The chain around the cursor.\<close>

lemma is_list_split:
  assumes "is_list h L (xs @ c # ys) (ds @ d # es) (Some c)" "length xs = length ds"
  shows "dll h None xs ds (Some c)" "h c = Some \<lparr>prev = last_opt xs None, next = hd_opt ys None, data = d\<rparr>"
    "dll h (Some c) ys es None" "distinct xs" "distinct ys" "c \<notin> set xs" "c \<notin> set ys"
    "set xs \<inter> set ys = {}" "curr_node L = Some c" "first L = hd_opt xs (Some c)"
    "last_node L = last_opt ys (Some c)" "count L = int (length xs + length ys + 1)"
  using assms by (auto simp: is_list_def dll_append)

text \<open>The chain after the cursor gets a new predecessor, or the list a new last node.\<close>

lemma relink_after:
  assumes "dll h (Some c) ys es None" "distinct ys"
  shows "\<exists>h'. (if hd_opt ys None \<noteq> None then map_option (\<lambda>h. (h, L)) (setPrev h (hd_opt ys None) q)
      else Some (h, L\<lparr>last_node := q\<rparr>)) = Some (h', L\<lparr>last_node := if ys = [] then q else last_node L\<rparr>) \<and>
    dll h' q ys es None \<and> (\<forall>b. b \<notin> set ys \<longrightarrow> h' b = h b) \<and> dom h' = dom h"
proof (cases ys)
  case Nil
  then show ?thesis using assms by (cases es) auto
next
  case (Cons y zs)
  from dll_setPrev_first [OF assms(1) _ assms(2), of q] Cons show ?thesis by auto
qed

lemma relink_before:
  assumes "dll h None xs ds (Some c)" "distinct xs"
  shows "\<exists>h'. (if last_opt xs None \<noteq> None then map_option (\<lambda>h. (h, L)) (setNext h (last_opt xs None) q)
      else Some (h, L\<lparr>first := q\<rparr>)) = Some (h', L\<lparr>first := if xs = [] then q else first L\<rparr>) \<and>
    dll h' None xs ds q \<and> (\<forall>b. b \<notin> set xs \<longrightarrow> h' b = h b) \<and> dom h' = dom h"
proof (cases "xs = []")
  case True
  then show ?thesis using assms by (cases ds) auto
next
  case False
  from dll_setNext_last [OF assms(1) False assms(2), of q] False show ?thesis by (auto simp: last_opt_def)
qed

lemma AsnListAdd_ok:
  assumes "is_list h L (xs @ c # ys) (ds @ d0 # es) (Some c)" "length xs = length ds" "a \<notin> dom h"
  shows "\<exists>h' L'. AsnListAdd a d (h, L) = Some (Some a, h', L') \<and>
    is_list h' L' (xs @ c # a # ys) (ds @ d0 # d # es) (Some a)"
proof -
  note i = is_list_split [OF assms(1,2)]
  let ?n = "\<lparr>prev = Some c, next = hd_opt ys None, data = d\<rparr>"
  let ?h = "h(a \<mapsto> ?n)"
  have a: "a \<notin> set xs" "a \<noteq> c" "a \<notin> set ys"
    using assms(3) i(2) dll_in_heap [OF i(1)] dll_in_heap [OF i(3)] by auto
  have "dll ?h (Some c) ys es None" using i(3) a by (simp add: dll_frame)
  from relink_after [OF this i(5), of L "Some a"] obtain h1 where
    h1: "(if hd_opt ys None \<noteq> None then map_option (\<lambda>h. (h, L)) (setPrev ?h (hd_opt ys None) (Some a))
      else Some (?h, L\<lparr>last_node := Some a\<rparr>)) = Some (h1, L\<lparr>last_node := if ys = [] then Some a else last_node L\<rparr>)"
      "dll h1 (Some a) ys es None" "\<forall>b. b \<notin> set ys \<longrightarrow> h1 b = ?h b" by blast
  let ?h' = "h1(c \<mapsto> \<lparr>prev = last_opt xs None, next = Some a, data = d0\<rparr>)"
  have c: "h1 c = Some \<lparr>prev = last_opt xs None, next = hd_opt ys None, data = d0\<rparr>"
    using h1(3) i(2,7) a by simp
  have "AsnListAdd a d (h, L) = Some (Some a, ?h', L\<lparr>last_node := if ys = [] then Some a else last_node L,
      curr_node := Some a, count := count L + 1\<rparr>)"
    by (simp only: AsnListAdd_def prod.case i(2,9) option.distinct if_False deref.simps bind.bind_lunit
        AsnListNode.select_convs h1(1)) (simp add: setNext_def i(9) c)
  moreover have "dll ?h' None xs ds (Some c)"
    using i(1,6,8) h1(3) a by (subst dll_agree [where h = h]) auto
  moreover have "dll ?h' (Some a) ys es None" using h1(2) i(7) by (simp add: dll_frame)
  moreover have "?h' a = Some ?n" using h1(3) a by simp
  ultimately show ?thesis
    using i a assms(2) by (auto simp: is_list_def dll_append last_opt_def)
qed

lemma AsnListInsert_ok:
  assumes "is_list h L (xs @ c # ys) (ds @ d0 # es) (Some c)" "length xs = length ds" "a \<notin> dom h"
  shows "\<exists>h' L'. AsnListInsert a d (h, L) = Some (Some a, h', L') \<and>
    is_list h' L' (xs @ a # c # ys) (ds @ d # d0 # es) (Some a)"
proof -
  note i = is_list_split [OF assms(1,2)]
  let ?n = "\<lparr>prev = last_opt xs None, next = Some c, data = d\<rparr>"
  let ?h = "h(a \<mapsto> ?n)"
  have a: "a \<notin> set xs" "a \<noteq> c" "a \<notin> set ys"
    using assms(3) i(2) dll_in_heap [OF i(1)] dll_in_heap [OF i(3)] by auto
  have "dll ?h None xs ds (Some c)" using i(1) a by (simp add: dll_frame)
  from relink_before [OF this i(4), of L "Some a"] obtain h1 where
    h1: "(if last_opt xs None \<noteq> None then map_option (\<lambda>h. (h, L)) (setNext ?h (last_opt xs None) (Some a))
      else Some (?h, L\<lparr>first := Some a\<rparr>)) = Some (h1, L\<lparr>first := if xs = [] then Some a else first L\<rparr>)"
      "dll h1 None xs ds (Some a)" "\<forall>b. b \<notin> set xs \<longrightarrow> h1 b = ?h b" by blast
  let ?h' = "h1(c \<mapsto> \<lparr>prev = Some a, next = hd_opt ys None, data = d0\<rparr>)"
  have c: "h1 c = Some \<lparr>prev = last_opt xs None, next = hd_opt ys None, data = d0\<rparr>"
    using h1(3) i(2,6) a by simp
  have "AsnListInsert a d (h, L) = Some (Some a, ?h', L\<lparr>first := if xs = [] then Some a else first L,
      curr_node := Some a, count := count L + 1\<rparr>)"
    by (simp only: AsnListInsert_def prod.case i(2,9) option.distinct if_False deref.simps bind.bind_lunit
        AsnListNode.select_convs h1(1)) (simp add: setPrev_def i(9) c)
  moreover have "dll ?h' (Some c) ys es None"
    using i(3,7,8) h1(3) a by (subst dll_agree [where h = h]) auto
  moreover have "dll ?h' None xs ds (Some a)" using h1(2) i(6) by (simp add: dll_frame)
  moreover have "?h' a = Some ?n" using h1(3) a by simp
  ultimately show ?thesis
    using i a assms(2) by (auto simp: is_list_def dll_append last_opt_def hd_opt_def split: list.splits)
qed

lemma AsnListRemove_ok:
  assumes "is_list h L (xs @ c # ys) (ds @ d0 # es) (Some c)" "length xs = length ds"
  shows "\<exists>h' L'. AsnListRemove (h, L) = Some (h', L') \<and> h' c = None \<and>
    is_list h' L' (xs @ ys) (ds @ es) (hd_opt ys None)"
proof -
  note i = is_list_split [OF assms]
  let ?n = "\<lparr>prev = last_opt xs None, next = hd_opt ys None, data = d0\<rparr>"
  from relink_after [OF i(3,5), of L "last_opt xs None"] obtain h1 where
    h1: "(if hd_opt ys None \<noteq> None then map_option (\<lambda>h. (h, L)) (setPrev h (hd_opt ys None) (last_opt xs None))
      else Some (h, L\<lparr>last_node := last_opt xs None\<rparr>)) =
        Some (h1, L\<lparr>last_node := if ys = [] then last_opt xs None else last_node L\<rparr>)"
      "dll h1 (last_opt xs None) ys es None" "\<forall>b. b \<notin> set ys \<longrightarrow> h1 b = h b" by blast
  let ?L = "L\<lparr>last_node := if ys = [] then last_opt xs None else last_node L\<rparr>"
  have "dll h1 None xs ds (Some c)" using i(1,8) h1(3) by (subst dll_agree [where h = h]) auto
  from relink_before [OF this i(4), of ?L "hd_opt ys None"] obtain h2 where
    h2: "(if last_opt xs None \<noteq> None then map_option (\<lambda>h. (h, ?L)) (setNext h1 (last_opt xs None) (hd_opt ys None))
      else Some (h1, ?L\<lparr>first := hd_opt ys None\<rparr>)) =
        Some (h2, ?L\<lparr>first := if xs = [] then hd_opt ys None else first ?L\<rparr>)"
      "dll h2 None xs ds (hd_opt ys None)" "\<forall>b. b \<notin> set xs \<longrightarrow> h2 b = h1 b" by blast
  have c: "h1 c = Some ?n" "h2 c = Some ?n" using h1(3) h2(3) i(2,6,7) by simp_all
  have cu: "curr_node (L\<lparr>last_node := p\<rparr>) = Some c" "curr_node (L\<lparr>last_node := p, first := q\<rparr>) = Some c" for p q
    by (simp_all add: i(9))
  have r: "AsnListRemove (h, L) = Some (h2(c := None), ?L\<lparr>first := if xs = [] then hd_opt ys None else first ?L,
      curr_node := hd_opt ys None, count := count L - 1\<rparr>)"
    by (simp only: AsnListRemove_def prod.case i(2,9) option.distinct if_False deref.simps bind.bind_lunit
        AsnListNode.select_convs cu h1(1) h2(1) c) (simp add: i(9))
  have "dll (h2(c := None)) None xs ds (hd_opt ys None)" using h2(2) i(6) by (simp add: dll_frame)
  moreover have "dll (h2(c := None)) (last_opt xs None) ys es None"
    using h1(2) h2(3) i(7,8) by (subst dll_agree [where h = h1]) auto
  ultimately show ?thesis
    unfolding r using i assms(2)
    by (auto simp: is_list_def dll_append last_opt_def hd_opt_def split: list.splits)
qed

subsection \<open>Moving the cursor\<close>

lemma is_list_curr: "is_list h L ns ds c \<Longrightarrow> a \<in> set ns \<or> c' = None \<Longrightarrow> c' = None \<or> c' = Some a \<Longrightarrow>
    is_list h (L\<lparr>curr_node := c'\<rparr>) ns ds c'"
  by (auto simp: is_list_def)

lemma hd_opt_in: "hd_opt ns None = Some a \<Longrightarrow> a \<in> set ns"
  by (cases ns) auto

lemma last_opt_in: "last_opt ns None = Some a \<Longrightarrow> a \<in> set ns"
  by (auto simp: last_opt_def split: if_splits)

lemma AsnListNext_ok:
  assumes "is_list h L (xs @ c # ys) (ds @ d # es) (Some c)" "length xs = length ds"
  shows "\<exists>L'. AsnListNext (h, L) = Some (hd_opt ys None, L') \<and>
    is_list h L' (xs @ c # ys) (ds @ d # es) (hd_opt ys None)"
  using is_list_split [OF assms] assms(1) hd_opt_in [of ys]
  by (auto simp: AsnListNext_def is_list_def)

lemma AsnListPrev_ok:
  assumes "is_list h L (xs @ c # ys) (ds @ d # es) (Some c)" "length xs = length ds"
  shows "\<exists>L'. AsnListPrev (h, L) = Some (last_opt xs None, L') \<and>
    is_list h L' (xs @ c # ys) (ds @ d # es) (last_opt xs None)"
  using is_list_split [OF assms] assms(1) last_opt_in [of xs]
  by (auto simp: AsnListPrev_def is_list_def)

lemma AsnList_off:
  assumes "is_list h L ns ds None"
  shows "AsnListNext (h, L) = Some (hd_opt ns None, L\<lparr>curr_node := hd_opt ns None\<rparr>)"
    "AsnListPrev (h, L) = Some (last_opt ns None, L\<lparr>curr_node := last_opt ns None\<rparr>)"
  using assms by (auto simp: AsnListNext_def AsnListPrev_def is_list_def)

text \<open>Walking the list with \<open>AsnListNext\<close> from off the list meets every node once, in order.\<close>

fun walk :: "nat \<Rightarrow> 'd heap \<times> AsnList \<Rightarrow> nat list option" where
  "walk 0 (h, L) = Some []"
| "walk (Suc k) (h, L) =
     (case AsnListNext (h, L) of
        None \<Rightarrow> None
      | Some (None, L') \<Rightarrow> Some []
      | Some (Some a, L') \<Rightarrow> map_option ((#) a) (walk k (h, L')))"

lemma walk_rest:
  assumes "is_list h L (xs @ c # ys) (ds @ d # es) (Some c)" "length xs = length ds" "length ys < k"
  shows "walk k (h, L) = Some ys"
  using assms
proof (induction ys arbitrary: xs ds c d es k L)
  case Nil
  obtain j where "k = Suc j" using Nil by (cases k) auto
  then show ?case using AsnListNext_ok [OF Nil(1,2)] by auto
next
  case (Cons y ys)
  obtain j where k: "k = Suc j" "length ys < j" using Cons.prems(3) by (cases k) auto
  obtain L' where L': "AsnListNext (h, L) = Some (Some y, L')"
    "is_list h L' (xs @ c # y # ys) (ds @ d # es) (Some y)"
    using AsnListNext_ok [OF Cons.prems(1,2)] by auto
  have "length es = length (y # ys)"
    using dll_length [of h None "xs @ c # y # ys" "ds @ d # es" None] Cons.prems(1,2) by (simp add: is_list_def)
  then obtain e es' where "es = e # es'" by (cases es) auto
  then have "is_list h L' ((xs @ [c]) @ y # ys) ((ds @ [d]) @ e # es') (Some y)" using L'(2) by simp
  from Cons.IH [OF this _ k(2)] show ?case using Cons.prems(2) L'(1) k(1) by simp
qed

lemma walk_all:
  assumes "is_list h L ns ds None" "length ns < k"
  shows "walk k (h, L) = Some ns"
proof (cases ns)
  case Nil
  then show ?thesis using assms AsnList_off(1) [OF assms(1)] by (cases k) auto
next
  case (Cons a as)
  obtain j where k: "k = Suc j" "length as < j" using assms(2) Cons by (cases k) auto
  obtain d es where ds: "ds = d # es" using assms(1) Cons by (cases ds) (auto simp: is_list_def)
  have "is_list h (L\<lparr>curr_node := Some a\<rparr>) ([] @ a # as) ([] @ d # es) (Some a)"
    using assms(1) Cons ds by (auto simp: is_list_def)
  from walk_rest [OF this _ k(2)] show ?thesis
    using AsnList_off(1) [OF assms(1)] Cons k(1) by simp
qed

subsection \<open>Whole lists\<close>

lemma AsnListConcat_ok:
  assumes "is_list h L1 xs ds c1" "is_list h L2 ys es c2" "set xs \<inter> set ys = {}"
  shows "\<exists>h' L'. AsnListConcat h L1 L2 = Some (h', L') \<and>
    is_list h' L' (xs @ ys) (ds @ es) (if ys \<noteq> [] \<and> xs = [] then hd_opt ys None else c1) \<and> dom h' = dom h"
proof -
  note i = assms(1) [unfolded is_list_def] and j = assms(2) [unfolded is_list_def]
  consider "ys = []" | "ys \<noteq> []" "xs = []" | "ys \<noteq> []" "xs \<noteq> []" by blast
  then show ?thesis
  proof cases
    case 1
    then show ?thesis using assms j by (cases es) (auto simp: AsnListConcat_def)
  next
    case 2
    then show ?thesis using i j by (cases ds) (auto simp: AsnListConcat_def is_list_def hd_opt_in)
  next
    case 3
    have l: "length xs = length ds" using i dll_length by blast
    have dist: "distinct xs" "distinct ys" using i j by simp_all
    have first2: "first L2 = hd_opt ys None" "last_node L1 = last_opt xs None" using i j by simp_all
    obtain h1 where h1: "setNext h (last_opt xs None) (hd_opt ys None) = Some h1"
      "dll h1 None xs ds (hd_opt ys None)" "\<forall>b. b \<notin> set xs \<longrightarrow> h1 b = h b" "dom h1 = dom h"
      using dll_setNext_last [of h None xs ds None "hd_opt ys None"] i 3 by blast
    have "dll h1 None ys es None" using j h1(3) assms(3) by (subst dll_agree [where h = h]) auto
    from dll_setPrev_first [OF this 3(1) dist(2), of "last_opt xs None"] obtain h2 where h2:
      "setPrev h1 (hd_opt ys None) (last_opt xs None) = Some h2"
      "dll h2 (last_opt xs None) ys es None" "\<forall>b. b \<notin> set ys \<longrightarrow> h2 b = h1 b" "dom h2 = dom h1" by blast
    have "dll h2 None xs ds (hd_opt ys None)"
      using h1(2) h2(3) assms(3) by (subst dll_agree [where h = h1]) auto
    moreover have "AsnListConcat h L1 L2 = Some (h2, L1\<lparr>count := count L1 + count L2, last_node := last_node L2\<rparr>)"
      using i j 3 by (simp add: AsnListConcat_def first2 h1(1) h2(1))
    ultimately show ?thesis
      using i j 3 h1(4) h2(2,4) assms(3) l
      by (auto simp: is_list_def dll_append last_opt_def hd_opt_def split: list.splits)
  qed
qed

definition index_of :: "'d \<Rightarrow> 'd option list \<Rightarrow> int" where
  "index_of x ds =
     (let ks = takeWhile (\<lambda>d. d \<noteq> None \<and> d \<noteq> Some x) ds in
      if length ks < length ds \<and> ds ! length ks = Some x then int (length ks) else -1)"

lemma indexLoop_ok:
  assumes "dll h p ns ds None"
  shows "indexLoop h x (hd_opt ns None) i =
    Some (if index_of x ds = -1 then -1 else i + index_of x ds)"
  using assms
proof (induction ns arbitrary: p ds i)
  case Nil
  then show ?case by (cases ds) (auto simp: indexLoop.simps index_of_def)
next
  case (Cons a as)
  obtain d es where ds: "ds = d # es" using Cons.prems by (cases ds) auto
  have a: "h a = Some \<lparr>prev = p, next = hd_opt as None, data = d\<rparr>" "dll h (Some a) as es None"
    using Cons.prems ds by simp_all
  have pos: "index_of x es = -1 \<or> 0 \<le> index_of x es" by (auto simp: index_of_def Let_def)
  show ?case
  proof (cases "d = None \<or> d = Some x")
    case True
    then show ?thesis using a(1) ds by (subst indexLoop.simps) (auto simp: index_of_def)
  next
    case False
    then have "index_of x ds = (if index_of x es = -1 then -1 else index_of x es + 1)"
      unfolding ds by (auto simp: index_of_def Let_def)
    then show ?thesis
      using False a pos Cons.IH [OF a(2), of "i + 1"] ds by (subst indexLoop.simps) auto
  qed
qed

lemma GetAsnListElmtIndex_ok:
  assumes "is_list h L ns ds c"
  shows "GetAsnListElmtIndex h x L = Some (index_of x ds)"
  using assms indexLoop_ok [of h None ns ds x 0] by (simp add: GetAsnListElmtIndex_def is_list_def)

lemma freeLoop_ok:
  assumes "dll h p ns ds None" "distinct ns"
  shows "freeLoop h (hd_opt ns None) = Some (\<lambda>b. if b \<in> set ns then None else h b)"
  using assms
proof (induction ns arbitrary: h p ds)
  case Nil
  then show ?case by (simp add: freeLoop.simps)
next
  case (Cons a as)
  obtain d es where ds: "ds = d # es" using Cons.prems by (cases ds) auto
  have a: "h a = Some \<lparr>prev = p, next = hd_opt as None, data = d\<rparr>" "dll h (Some a) as es None"
    using Cons.prems ds by simp_all
  have "dll (h(a := None)) (Some a) as es None" using a(2) Cons.prems(2) by (simp add: dll_frame)
  then have "freeLoop (h(a := None)) (hd_opt as None) = Some (\<lambda>b. if b \<in> set as then None else (h(a := None)) b)"
    using Cons.IH Cons.prems(2) by simp
  moreover have "(\<lambda>b. if b \<in> set as then None else (h(a := None)) b) = (\<lambda>b. if b \<in> set (a # as) then None else h b)"
    by auto
  ultimately show ?case using a(1) by (subst freeLoop.simps) (simp del: fun_upd_apply)
qed

lemma AsnListFree_ok:
  assumes "is_list h L ns ds c"
  shows "AsnListFree (h, L) = Some (\<lambda>b. if b \<in> set ns then None else h b)"
  using assms freeLoop_ok [of h None ns ds] by (simp add: AsnListFree_def is_list_def)

end
