(* ===== verification/Nibble_Alloc.thy ===== *)
theory Nibble_Alloc
  imports Asn_Prelude
begin

section \<open>The nibble allocator (\<open>c-lib/src/nibble-alloc.c\<close>)\<close>

text \<open>
  \<open>Asn1Alloc\<close> of the decoders: blocks from which memory is cut off front to back, all of it
  given back at once.  A block holds its bytes; an address is the number of its block with an
  offset.  \<open>currNibbleBuf\<close> is always the last block of the chain.

  \<open>m\<close> is the number of calls of \<open>malloc\<close> that still succeed.  \<open>None\<close> stands for the
  end of the program (\<open>snacc_exit\<close>).  The allocator under use is a step relation: the
  client allocates, writes to what it was given, and resets.
\<close>

record NibbleBuf =
  mem :: "byte list"
  ncurr :: nat

record NibbleMem =
  firstNibbleBuf :: NibbleBuf
  laterBufs :: "NibbleBuf list"
  incrementSize :: nat

definition nibbleBufs :: "NibbleMem \<Rightarrow> NibbleBuf list" where
  "nibbleBufs nm = firstNibbleBuf nm # laterBufs nm"

definition setBufs :: "NibbleMem \<Rightarrow> NibbleBuf list \<Rightarrow> NibbleMem" where
  "setBufs nm bs = nm\<lparr>firstNibbleBuf := hd bs, laterBufs := tl bs\<rparr>"

definition newBuf :: "nat \<Rightarrow> NibbleBuf" where
  "newBuf k = \<lparr>mem = replicate k 0, ncurr = 0\<rparr>"

definition InitNibbleMem :: "nat \<Rightarrow> nat \<Rightarrow> nat \<Rightarrow> (NibbleMem \<times> nat) option" where
  "InitNibbleMem m initialSize incrSize =
     (if m < 3 then None
      else Some (\<lparr>firstNibbleBuf = newBuf initialSize, laterBufs = [], incrementSize = incrSize\<rparr>, m - 3))"

definition ServiceNibbleFault :: "nat \<Rightarrow> nat \<Rightarrow> NibbleMem \<Rightarrow> (NibbleMem \<times> nat) option" where
  "ServiceNibbleFault m sz nm =
     (let newBufSize = (if sz > incrementSize nm then sz else incrementSize nm)
      in if m < 2 then None
         else Some (setBufs nm (nibbleBufs nm @ [newBuf newBufSize]), m - 2))"

text \<open>\<open>(int)sz\<close> is \<open>sz\<close>, which is at most a megabyte here.\<close>

definition NibbleAlloc :: "nat \<Rightarrow> nat \<Rightarrow> NibbleMem \<Rightarrow> ((nat \<times> nat) option \<times> NibbleMem \<times> nat) option" where
  "NibbleAlloc m sz nm =
     (if sz > 1024 * 1024 then Some (None, nm, m)
      else
        let cb = last (nibbleBufs nm) in
        case (if length (mem cb) - ncurr cb < sz then ServiceNibbleFault m sz nm else Some (nm, m)) of
          None \<Rightarrow> None
        | Some (nm, m) \<Rightarrow>
            (let bs = nibbleBufs nm;
                 cb = last bs;
                 retVal = (length bs - 1, ncurr cb);
                 ndiff = sz mod sizeof_long;
                 c = (if ndiff \<noteq> 0 then
                        (let c = ncurr cb + (sz + sizeof_long - ndiff)
                         in if c > length (mem cb) then length (mem cb) else c)
                      else ncurr cb + sz)
             in Some (Some retVal, setBufs nm (butlast bs @ [cb\<lparr>ncurr := c\<rparr>]), m)))"

definition ResetNibbleMem :: "NibbleMem \<Rightarrow> NibbleMem" where
  "ResetNibbleMem nm =
     (let b = firstNibbleBuf nm
      in nm\<lparr>firstNibbleBuf := \<lparr>mem = replicate (ncurr b) 0 @ drop (ncurr b) (mem b), ncurr = 0\<rparr>,
            laterBufs := []\<rparr>)"

text \<open>The client stores \<open>xs\<close> at an address.\<close>

definition storeAt :: "nat \<times> nat \<Rightarrow> byte list \<Rightarrow> NibbleMem \<Rightarrow> NibbleMem" where
  "storeAt p xs nm =
     (case p of (i, off) \<Rightarrow>
        let bs = nibbleBufs nm; b = bs ! i
        in setBufs nm (bs[i := b\<lparr>mem := take off (mem b) @ xs @ drop (off + length xs) (mem b)\<rparr>]))"

subsection \<open>The allocator in use\<close>

text \<open>
  A state is the allocator with the areas handed out since the last reset, newest first.
  The client stores only inside one of them.
\<close>

type_synonym area = "nat \<times> nat \<times> nat"

inductive nibble_step :: "NibbleMem \<times> area list \<Rightarrow> NibbleMem \<times> area list \<Rightarrow> bool" where
  alloc: "NibbleAlloc m sz nm = Some (Some (i, off), nm', m') \<Longrightarrow>
    nibble_step (nm, as) (nm', (i, off, sz) # as)"
| refused: "NibbleAlloc m sz nm = Some (None, nm', m') \<Longrightarrow> nibble_step (nm, as) (nm', as)"
| store: "(i, off, sz) \<in> set as \<Longrightarrow> k + length xs \<le> sz \<Longrightarrow>
    nibble_step (nm, as) (storeAt (i, off + k) xs nm, as)"
| reset: "nibble_step (nm, as) (ResetNibbleMem nm, [])"

inductive nibble_run :: "NibbleMem \<times> area list \<Rightarrow> bool" where
  init: "InitNibbleMem m initialSize incrSize = Some (nm, m') \<Longrightarrow> nibble_run (nm, [])"
| step: "nibble_run s \<Longrightarrow> nibble_step s s' \<Longrightarrow> nibble_run s'"

inductive_cases nibble_stepE: "nibble_step s s'"
inductive_simps nibble_step_simps: "nibble_step (nm, as) s'"

definition buf_ok :: "NibbleBuf \<Rightarrow> bool" where
  "buf_ok b \<longleftrightarrow> ncurr b \<le> length (mem b) \<and> (\<forall>x \<in> set (drop (ncurr b) (mem b)). x = 0)"

definition area_ok :: "NibbleBuf list \<Rightarrow> area \<Rightarrow> bool" where
  "area_ok bs a = (case a of (i, off, sz) \<Rightarrow> i < length bs \<and> off + sz \<le> ncurr (bs ! i))"

definition disjoint_areas :: "area \<Rightarrow> area \<Rightarrow> bool" where
  "disjoint_areas a b = (case (a, b) of ((i, off, sz), (j, off', sz')) \<Rightarrow>
     i \<noteq> j \<or> off + sz \<le> off' \<or> off' + sz' \<le> off)"

fun areas_disjoint :: "area list \<Rightarrow> bool" where
  "areas_disjoint [] = True"
| "areas_disjoint (a # as) = ((\<forall>b \<in> set as. disjoint_areas a b) \<and> areas_disjoint as)"

definition nibble_ok :: "NibbleMem \<times> area list \<Rightarrow> bool" where
  "nibble_ok s = (case s of (nm, as) \<Rightarrow>
     (\<forall>b \<in> set (nibbleBufs nm). buf_ok b) \<and> (\<forall>a \<in> set as. area_ok (nibbleBufs nm) a) \<and> areas_disjoint as)"

lemma setBufs_bufs [simp]: "bs \<noteq> [] \<Longrightarrow> nibbleBufs (setBufs nm bs) = bs"
  by (simp add: nibbleBufs_def setBufs_def)

lemma nibbleBufs_ne [simp]: "nibbleBufs nm \<noteq> []"
  by (simp add: nibbleBufs_def)

lemma buf_ok_new: "buf_ok (newBuf k)"
  by (simp add: buf_ok_def newBuf_def)

lemma nibble_ok_init: "InitNibbleMem m k inc = Some (nm, m') \<Longrightarrow> nibble_ok (nm, [])"
  by (auto simp: InitNibbleMem_def nibble_ok_def nibbleBufs_def buf_ok_new split: if_splits)

lemma area_ok_append: "area_ok bs a \<Longrightarrow> area_ok (bs @ cs) a"
  by (auto simp: area_ok_def nth_append split: prod.splits)

lemma ServiceNibbleFault_ok:
  assumes "ServiceNibbleFault m sz nm = Some (nm', m')" "nibble_ok (nm, as)"
  shows "nibble_ok (nm', as) \<and> ncurr (last (nibbleBufs nm')) = 0 \<and>
    sz \<le> length (mem (last (nibbleBufs nm')))"
  using assms
  by (auto simp: ServiceNibbleFault_def nibble_ok_def buf_ok_new area_ok_append Let_def
      split: if_splits) (simp_all add: newBuf_def)

lemma align_bounds:
  assumes "c + sz \<le> l" "r = (if sz mod sizeof_long \<noteq> 0 then
      (let c = c + (sz + sizeof_long - sz mod sizeof_long) in if c > l then l else c) else c + sz)"
  shows "c + sz \<le> r \<and> r \<le> l"
  using assms mod_less_divisor [of sizeof_long sz] by (auto simp: sizeof_long_def Let_def)

text \<open>What \<open>NibbleAlloc\<close> hands out is free, inside its block, and zero.\<close>

definition area_zero :: "NibbleBuf list \<Rightarrow> area \<Rightarrow> bool" where
  "area_zero bs a = (case a of (i, off, sz) \<Rightarrow> take sz (drop off (mem (bs ! i))) = replicate sz 0)"

lemma zeros_replicate: "\<forall>x \<in> set xs. x = 0 \<Longrightarrow> xs = replicate (length xs) 0"
  by (induction xs) auto

lemma drop_zero: "\<forall>x \<in> set (drop k xs). x = 0 \<Longrightarrow> k \<le> j \<Longrightarrow> \<forall>x \<in> set (drop j xs). x = 0"
  using set_drop_subset_set_drop [of k j xs] by blast

lemma NibbleAlloc_fits:
  assumes pre: "nibbleBufs nm = pre @ [b]" and "nibble_ok (nm, as)"
    and "c = ncurr b" "c + sz \<le> r" "r \<le> length (mem b)"
  shows "nibble_ok (setBufs nm (pre @ [b\<lparr>ncurr := r\<rparr>]), (length pre, c, sz) # as) \<and>
    area_zero (pre @ [b\<lparr>ncurr := r\<rparr>]) (length pre, c, sz)"
proof -
  let ?bs' = "pre @ [b\<lparr>ncurr := r\<rparr>]" and ?a = "(length pre, c, sz)"
  have ok: "\<forall>x \<in> set pre. buf_ok x" "buf_ok b" "\<forall>x \<in> set as. area_ok (pre @ [b]) x" "areas_disjoint as"
    using assms(2) by (simp_all add: nibble_ok_def pre)
  have z: "\<forall>x \<in> set (drop c (mem b)). x = 0" using ok(2) assms(3) by (simp add: buf_ok_def)
  have "buf_ok (b\<lparr>ncurr := r\<rparr>)"
    using assms(4,5) drop_zero [OF z, of r] by (simp add: buf_ok_def)
  moreover have "area_ok ?bs' x" if "x \<in> set as" for x
    using ok(3) that assms(3,4)
    by (fastforce simp: area_ok_def nth_append less_Suc_eq split: prod.splits if_splits)
  moreover have "disjoint_areas ?a x" if "x \<in> set as" for x
    using ok(3) that assms(3)
    by (fastforce simp: disjoint_areas_def area_ok_def nth_append less_Suc_eq split: prod.splits if_splits)
  moreover have "area_ok ?bs' ?a" using assms(4) by (simp add: area_ok_def)
  moreover have "take sz (drop c (mem b)) = replicate sz 0"
  proof -
    have "length (take sz (drop c (mem b))) = sz" using assms(4,5) by simp
    moreover have "\<forall>x \<in> set (take sz (drop c (mem b))). x = 0" using z by (meson in_set_takeD)
    ultimately show ?thesis using zeros_replicate by metis
  qed
  ultimately show ?thesis
    using ok by (auto simp: nibble_ok_def area_zero_def)
qed

lemma NibbleAlloc_ok:
  assumes "NibbleAlloc m sz nm = Some (p, nm', m')" "nibble_ok (nm, as)"
  shows "(p = None \<longleftrightarrow> sz > 1024 * 1024) \<and> (p = None \<longrightarrow> nm' = nm) \<and>
    (\<forall>i off. p = Some (i, off) \<longrightarrow> nibble_ok (nm', (i, off, sz) # as) \<and> area_zero (nibbleBufs nm') (i, off, sz))"
proof (cases "sz > 1024 * 1024")
  case True
  then show ?thesis using assms(1) by (auto simp: NibbleAlloc_def)
next
  case False
  let ?cb = "last (nibbleBufs nm)"
  obtain nm1 m1 where 1: "(if length (mem ?cb) - ncurr ?cb < sz then ServiceNibbleFault m sz nm else Some (nm, m)) =
      Some (nm1, m1)"
    using assms(1) False unfolding NibbleAlloc_def Let_def by (auto split: option.splits if_splits)
  obtain pre b where b: "nibbleBufs nm1 = pre @ [b]"
    using nibbleBufs_ne [of nm1] by (cases "nibbleBufs nm1" rule: rev_cases) auto
  have ok: "nibble_ok (nm1, as) \<and> ncurr b + sz \<le> length (mem b)"
  proof (cases "length (mem ?cb) - ncurr ?cb < sz")
    case True
    then show ?thesis using ServiceNibbleFault_ok [of m sz nm nm1 m1 as] 1 assms(2) b by auto
  next
    case f: False
    then have e: "nm1 = nm" using 1 by simp
    then have "buf_ok b" using assms(2) b by (simp add: nibble_ok_def)
    then show ?thesis using f e b assms(2) by (auto simp: buf_ok_def)
  qed
  define r where "r = (if sz mod sizeof_long \<noteq> 0 then
      (let c = ncurr b + (sz + sizeof_long - sz mod sizeof_long) in if c > length (mem b) then length (mem b) else c)
      else ncurr b + sz)"
  have r: "ncurr b + sz \<le> r \<and> r \<le> length (mem b)"
    using align_bounds [OF conjunct2 [OF ok] r_def] .
  have "p = Some (length pre, ncurr b) \<and> nm' = setBufs nm1 (pre @ [b\<lparr>ncurr := r\<rparr>])"
    using assms(1) False 1 b unfolding NibbleAlloc_def Let_def r_def by (auto split: if_splits)
  then show ?thesis
    using NibbleAlloc_fits [OF b _ refl, of as sz r] ok r False by auto
qed

text \<open>A store inside an area, and the reset, keep the invariant.\<close>

lemma store_ok:
  assumes "nibble_ok (nm, as)" "(i, off, sz) \<in> set as" "k + length xs \<le> sz"
  shows "nibble_ok (storeAt (i, off + k) xs nm, as)"
proof -
  let ?bs = "nibbleBufs nm"
  let ?b = "?bs ! i"
  let ?b' = "?b\<lparr>mem := take (off + k) (mem ?b) @ xs @ drop (off + k + length xs) (mem ?b)\<rparr>"
  have i: "i < length ?bs" "off + sz \<le> ncurr ?b"
    using assms(1,2) by (auto simp: nibble_ok_def area_ok_def)
  have b: "buf_ok ?b" using assms(1) i(1) by (simp add: nibble_ok_def)
  have "drop (ncurr ?b) (mem ?b') = drop (ncurr ?b) (mem ?b)"
    using i(2) assms(3) b by (simp add: buf_ok_def)
  moreover have "length (mem ?b') = length (mem ?b)" using i(2) assms(3) b by (simp add: buf_ok_def)
  ultimately have "buf_ok ?b'" using b by (simp add: buf_ok_def)
  moreover have "area_ok (?bs[i := ?b']) a = area_ok ?bs a" for a
    using i(1) by (cases a; cases "fst a = i") (auto simp: area_ok_def nth_list_update)
  moreover have "nibbleBufs (setBufs nm (?bs[i := ?b'])) = ?bs[i := ?b']" by simp
  ultimately show ?thesis
    using assms(1) unfolding storeAt_def nibble_ok_def prod.case Let_def
    by (auto dest: set_update_subset_insert [THEN subsetD])
qed

lemma ResetNibbleMem_ok:
  assumes "nibble_ok (nm, as)"
  shows "nibble_ok (ResetNibbleMem nm, []) \<and> (\<forall>b \<in> set (nibbleBufs (ResetNibbleMem nm)). \<forall>x \<in> set (mem b). x = 0)"
  using assms by (auto simp: nibble_ok_def ResetNibbleMem_def nibbleBufs_def buf_ok_def Let_def)

lemma nibble_step_ok: "nibble_step s s' \<Longrightarrow> nibble_ok s \<Longrightarrow> nibble_ok s'"
  by (induction rule: nibble_step.induct)
    (auto dest: NibbleAlloc_ok intro: store_ok ResetNibbleMem_ok [THEN conjunct1])

lemma nibble_run_ok: "nibble_run s \<Longrightarrow> nibble_ok s"
  by (induction rule: nibble_run.induct) (auto intro: nibble_ok_init nibble_step_ok)

lemma nibble_ok_new_area:
  assumes "nibble_ok (nm, (i, off, sz) # as)"
  shows "off + sz \<le> length (mem (nibbleBufs nm ! i))" "\<forall>b \<in> set as. disjoint_areas (i, off, sz) b"
proof -
  have "i < length (nibbleBufs nm)" "off + sz \<le> ncurr (nibbleBufs nm ! i)"
    using assms by (simp_all add: nibble_ok_def area_ok_def)
  moreover from this(1) have "buf_ok (nibbleBufs nm ! i)" using assms by (simp add: nibble_ok_def)
  ultimately show "off + sz \<le> length (mem (nibbleBufs nm ! i))" by (simp add: buf_ok_def)
  show "\<forall>b \<in> set as. disjoint_areas (i, off, sz) b" using assms by (simp add: nibble_ok_def)
qed

end
