(* ===== verification/Asn_Der.thy ===== *)
theory Asn_Der
  imports Exp_Buf
begin

section \<open>Comparison of encoded elements (\<open>c-lib/src/asn-der.c\<close>)\<close>

text \<open>
  \<open>EncodedElmtCmp\<close> is the comparison that the generated DER encoders give to \<open>qsort\<close>
  for the elements of a SET OF.  An element is its length with the buffer that holds it.
\<close>

record 'b EncodedElmt =
  elmt_len :: nat
  elmt_buf :: 'b

fun cmpLoop :: "('b, 'z) GenBuf_scheme \<Rightarrow> nat \<Rightarrow> int \<Rightarrow> 'b \<Rightarrow> 'b \<Rightarrow> int \<times> 'b \<times> 'b" where
  "cmpLoop g 0 cmp a b = (cmp, a, b)"
| "cmpLoop g (Suc len) cmp a b =
     (let (data1, a) = getByte g a;
          (data2, b) = getByte g b;
          cmp = (if data1 \<noteq> data2 then (if data1 + 1 < data2 + 1 then -1 else 1) else cmp)
      in cmpLoop g len cmp a b)"

text \<open>\<open>int len\<close>: a minimum of \<open>2 ^ 31\<close> or more is negative, and the loop does not run.\<close>

definition EncodedElmtCmp ::
  "('b, 'z) GenBuf_scheme \<Rightarrow> 'b EncodedElmt \<Rightarrow> 'b EncodedElmt \<Rightarrow> int \<times> 'b EncodedElmt \<times> 'b EncodedElmt" where
  "EncodedElmtCmp g a b =
     (let len = (if elmt_len a > elmt_len b then elmt_len b else elmt_len a);
          (cmp, x, y) = cmpLoop g (if len < 2 ^ 31 then len else 0) (-1) (elmt_buf a) (elmt_buf b)
      in (cmp, a\<lparr>elmt_buf := resetInReadMode g x\<rparr>, b\<lparr>elmt_buf := resetInReadMode g y\<rparr>))"

text \<open>What the loop computes: the last difference decides, through values raised by one.\<close>

definition last_diff :: "byte list \<Rightarrow> byte list \<Rightarrow> int \<Rightarrow> int" where
  "last_diff xs ys cmp =
     foldl (\<lambda>cmp (x, y). if x \<noteq> y then (if x + 1 < y + 1 then -1 else 1) else cmp) cmp (zip xs ys)"

lemma last_diff_append:
  "length xs = length ys \<Longrightarrow> last_diff (xs @ us) (ys @ vs) c = last_diff us vs (last_diff xs ys c)"
  by (simp add: last_diff_def)

lemma last_diff_same [simp]: "last_diff us us c = c"
  by (induction us arbitrary: c) (simp_all add: last_diff_def)

lemma last_diff_decides:
  "length xs = length ys \<Longrightarrow> x \<noteq> y \<Longrightarrow>
   last_diff (xs @ x # us) (ys @ y # us) c = (if x + 1 < y + 1 then -1 else 1)"
  using last_diff_append [of xs ys "[x] @ us" "[y] @ us" c] last_diff_append [of "[x]" "[y]" us us]
  by (simp add: last_diff_def [of "[x]" "[y]"])

context fwd_buffer
begin

lemma cmpLoop_last_diff:
  assumes "readable g rem ok a (xs @ xs')" "readable g rem ok b (ys @ ys')" "length xs = length ys"
  shows "fst (cmpLoop g (length xs) cmp a b) = last_diff xs ys cmp"
  using assms(3,1,2)
proof (induction xs ys arbitrary: a b cmp rule: list_induct2)
  case Nil
  then show ?case by (simp add: last_diff_def)
next
  case (Cons x xs y ys)
  obtain a' where "getByte g a = (x, a')" "readable g rem ok a' (xs @ xs')"
    using Cons.prems(1) by (auto elim: get_consE)
  moreover obtain b' where "getByte g b = (y, b')" "readable g rem ok b' (ys @ ys')"
    using Cons.prems(2) by (auto elim: get_consE)
  ultimately show ?case using Cons.IH by (simp add: last_diff_def)
qed

lemma EncodedElmtCmp_last_diff:
  assumes "readable g rem ok (elmt_buf a) xs" "readable g rem ok (elmt_buf b) ys"
    and "elmt_len a = length xs" "elmt_len b = length ys" "length xs < 2 ^ 31"
  shows "fst (EncodedElmtCmp g a b) = last_diff xs ys (-1)"
proof -
  let ?n = "min (length xs) (length ys)"
  have n: "(if elmt_len a > elmt_len b then elmt_len b else elmt_len a) = ?n" "?n < 2 ^ 31"
    using assms(3-5) by auto
  have "readable g rem ok (elmt_buf a) (take ?n xs @ drop ?n xs)"
    "readable g rem ok (elmt_buf b) (take ?n ys @ drop ?n ys)" using assms(1,2) by simp_all
  from cmpLoop_last_diff [OF this] have "fst (cmpLoop g ?n (-1) (elmt_buf a) (elmt_buf b)) =
      last_diff (take ?n xs) (take ?n ys) (-1)"
    by simp
  moreover have "zip (take ?n xs) (take ?n ys) = zip xs ys"
    by (metis min.commute take_all_iff take_zip length_zip order_refl)
  ultimately show ?thesis
    using n by (simp add: EncodedElmtCmp_def split_beta last_diff_def Let_def)
qed

end

end
