(* ===== verification/Asn_Simple.thy ===== *)
theory Asn_Simple
  imports Asn_Tlv
begin

section \<open>BOOLEAN and NULL (\<open>c-lib/src/asn-bool.c\<close>, \<open>asn-null.c\<close>)\<close>

text \<open>The two types with a content of fixed length: one octet, and none.\<close>

type_synonym AsnBool = byte

definition BEncAsnBoolContent :: "('b, 'z) GenBuf_scheme \<Rightarrow> 'b \<Rightarrow> AsnBool \<Rightarrow> AsnLen \<times> 'b" where
  "BEncAsnBoolContent g b data = (1, putByteRvs g b (if data \<noteq> 0 then 0xFF else 0))"

definition BEncAsnBool :: "('b, 'z) GenBuf_scheme \<Rightarrow> 'b \<Rightarrow> AsnBool \<Rightarrow> AsnLen \<times> 'b" where
  "BEncAsnBool g b data = BEncUniv g BOOLEAN_TAG_CODE (BEncAsnBoolContent g b data)"

definition BDecAsnBoolContent ::
  "('b, 'z) GenBuf_scheme \<Rightarrow> AsnTag \<Rightarrow> AsnLen \<Rightarrow> AsnLen \<Rightarrow> 'b \<Rightarrow> ('b, AsnBool) dres" where
  "BDecAsnBoolContent g tagId len n b =
     (if len \<noteq> 1 then Jmp (-5)
      else let n = n + 1; (x, b) = getByte g b; result = (if x \<noteq> 0 then 1 else 0) in
        if readError g b then Jmp (-6) else Ret result n b)"

definition BDecAsnBool :: "('b, 'z) GenBuf_scheme \<Rightarrow> 'b \<Rightarrow> AsnLen \<Rightarrow> ('b, AsnBool) dres" where
  "BDecAsnBool g b n =
     dbind (BDecUniv g (-40) [univ_tag BOOLEAN_TAG_CODE] b n)
       (\<lambda>(tag, elmtLen). BDecAsnBoolContent g tag elmtLen)"

definition BEncAsnNullContent :: "'b \<Rightarrow> AsnLen \<times> 'b" where
  "BEncAsnNullContent b = (0, b)"

definition BEncAsnNull :: "('b, 'z) GenBuf_scheme \<Rightarrow> 'b \<Rightarrow> AsnLen \<times> 'b" where
  "BEncAsnNull g b = BEncUniv g NULLTYPE_TAG_CODE (BEncAsnNullContent b)"

definition BDecAsnNullContent :: "AsnTag \<Rightarrow> AsnLen \<Rightarrow> AsnLen \<Rightarrow> 'b \<Rightarrow> ('b, unit) dres" where
  "BDecAsnNullContent tagId len n b = (if len \<noteq> 0 then Jmp (-17) else Ret () n b)"

definition BDecAsnNull :: "('b, 'z) GenBuf_scheme \<Rightarrow> 'b \<Rightarrow> AsnLen \<Rightarrow> ('b, unit) dres" where
  "BDecAsnNull g b n =
     dbind (BDecUniv g (-40) [univ_tag NULLTYPE_TAG_CODE] b n)
       (\<lambda>(tag, elmtLen). BDecAsnNullContent tag elmtLen)"

definition bool_bytes :: "AsnBool \<Rightarrow> byte list" where
  "bool_bytes v = [if v \<noteq> 0 then 0xFF else 0]"

definition parse_bool_content :: "AsnLen \<Rightarrow> AsnBool parser" where
  "parse_bool_content len xs =
     (if len \<noteq> 1 then Inl (-5)
      else case xs of [] \<Rightarrow> Inl (-6) | x # _ \<Rightarrow> Inr (if x \<noteq> 0 then 1 else 0, 1))"

definition parse_null_content :: "AsnLen \<Rightarrow> unit parser" where
  "parse_null_content len xs = (if len \<noteq> 0 then Inl (-17) else Inr ((), 0))"

context rvs_buffer
begin

lemma BEncAsnBool_tlv:
  "emits g data ok room b (snd (BEncAsnBool g b v)) (tlv BOOLEAN_TAG_CODE (bool_bytes v)) \<and>
   fst (BEncAsnBool g b v) = of_nat (length (tlv BOOLEAN_TAG_CODE (bool_bytes v)))"
  unfolding BEncAsnBool_def
  by (rule BEncUniv_tlv) (auto simp: BEncAsnBoolContent_def bool_bytes_def intro: put_byte)

lemma BEncAsnNull_tlv:
  "emits g data ok room b (snd (BEncAsnNull g b)) (tlv NULLTYPE_TAG_CODE []) \<and>
   fst (BEncAsnNull g b) = of_nat (length (tlv NULLTYPE_TAG_CODE []))"
  unfolding BEncAsnNull_def by (rule BEncUniv_tlv) (auto simp: BEncAsnNullContent_def)

end

context fwd_buffer
begin

lemma outcome_bool_content:
  assumes "readable g rem ok b xs"
  shows "outcome g rem ok (BDecAsnBoolContent g tag len n b) n xs (parse_bool_content len xs)"
proof (cases xs)
  case Nil
  with assms obtain b' where "getByte g b = (0, b')" "exhausted g rem ok b'"
    by (auto elim: get_nilE)
  with Nil show ?thesis by (simp add: BDecAsnBoolContent_def parse_bool_content_def)
next
  case (Cons x ys)
  with assms obtain b' where "getByte g b = (x, b')" "readable g rem ok b' ys"
    by (auto elim: get_consE)
  with Cons show ?thesis by (simp add: BDecAsnBoolContent_def parse_bool_content_def)
qed

lemma outcome_BDecAsnBool:
  assumes "readable g rem ok b xs"
  shows "outcome g rem ok (BDecAsnBool g b n) n xs
    (pbind (parse_head (-40) [univ_tag BOOLEAN_TAG_CODE]) (\<lambda>(tag, len). parse_bool_content len) xs)"
  unfolding BDecAsnBool_def
  by (rule outcome_univ [OF assms]) (simp add: outcome_bool_content)

lemma outcome_BDecAsnNull:
  assumes "readable g rem ok b xs"
  shows "outcome g rem ok (BDecAsnNull g b n) n xs
    (pbind (parse_head (-40) [univ_tag NULLTYPE_TAG_CODE]) (\<lambda>(tag, len). parse_null_content len) xs)"
  unfolding BDecAsnNull_def
  by (rule outcome_univ [OF assms]) (simp add: BDecAsnNullContent_def parse_null_content_def)

end

lemma parse_bool_bytes:
  "parse_bool_content (of_nat (length (bool_bytes v))) (bool_bytes v @ ys) =
     Inr (if v \<noteq> 0 then 1 else 0, length (bool_bytes v))"
  by (simp add: parse_bool_content_def bool_bytes_def)

end
