(* ===== verification/Codec_Facts.thy ===== *)
theory Codec_Facts
  imports Asn_UTF8 Asn_Useful Asn_Any Asn_List Nibble_Alloc Asn_Der Asn_Simple
begin

section \<open>Facts about the codecs and the containers\<close>

text \<open>
  The vocabulary of the properties of the C runtime, \<open>reads_back\<close> and \<open>decodes\<close>, the lemmas
  that they share, and the facts that the root theory does not list: further round trips, and
  what the code does where it is not what it means to do.
\<close>

section \<open>Reading back what was written\<close>

text \<open>
  \<open>reads_back c D v\<close>: \<open>c\<close> is what an encoder returned, its count and the buffer.  The
  buffer is put in read mode and decoded with \<open>D\<close> from byte count 0: the decoder returns
  \<open>v\<close>, counts as many bytes as the encoder reported and leaves nothing unread.
\<close>

definition reads_back ::
  "AsnLen \<times> ExpBufs \<Rightarrow> (ExpBufs \<Rightarrow> AsnLen \<Rightarrow> (ExpBufs, 'v) dres) \<Rightarrow> 'v \<Rightarrow> bool" where
  "reads_back c D v \<longleftrightarrow> (\<exists>z'. D (ExpBufResetInReadMode (snd c)) 0 = Ret v (fst c) z' \<and> rd z' [])"

text \<open>What the encoders wrote into a fresh buffer of one block that is large enough.\<close>

abbreviation fresh_emits :: "nat \<Rightarrow> nat \<Rightarrow> AsnLen \<times> ExpBufs \<Rightarrow> byte list \<Rightarrow> bool" where
  "fresh_emits sz m c bs \<equiv>
     emits expBufOpsG written (\<lambda>z. winv z \<and> cap sz z) wroom (freshBuf sz m) (snd c) bs \<and>
     fst c = of_nat (length bs)"

abbreviation decodes :: "ExpBufs \<Rightarrow> (ExpBufs \<Rightarrow> AsnLen \<Rightarrow> (ExpBufs, 'v) dres) \<Rightarrow> byte list \<Rightarrow> 'v \<Rightarrow> bool" where
  "decodes z D bs v \<equiv> outcome expBufOpsG remaining rinv (D z 0) 0 bs (Inr (v, length bs))"

lemma reads_backI:
  assumes "fresh_emits sz m c bs" "length bs < sz" "sz < 2 ^ 31"
    and "\<And>z. rd z bs \<Longrightarrow> decodes z D bs v"
  shows "reads_back c D v"
  unfolding reads_back_def
  using assms(4) [OF conjunct2 [OF fresh_then_read [OF conjunct1 [OF assms(1)] assms(2,3)]]] assms(1)
  by simp

text \<open>The two facts about an element of a universal type that make it read back.\<close>

lemma tlv_reads_back:
  assumes "fresh_emits sz m c (tlv code bs)" "length bs + 6 < sz" "sz < 2 ^ 31"
    and "\<And>z. rd z (tlv code bs) \<Longrightarrow> decodes z D (tlv code bs) v"
  shows "reads_back c D v"
proof (rule reads_backI [OF assms(1) _ assms(3)])
  show "length (tlv code bs) < sz" using length_tlv_le [of code bs] assms(2) by simp
qed (rule assms(4))

section \<open>Lengths and tags\<close>

text \<open>Encoding any length into a fresh buffer and reading it back gives the same length,
  counts as many bytes as the encoder reported and leaves nothing unread.\<close>

theorem len_roundtrip:
  assumes "5 < sz" "sz < 2 ^ 31"
  shows "reads_back (BEncDefLen expBufOpsG (freshBuf sz m) len) (BDecLen expBufOpsG) len"
proof (rule reads_backI [OF conjI [OF ebc.emits_BEncDefLen fst_BEncDefLen] _ assms(2)])
  show "length (def_len_bytes len) < sz" using length_def_len_bytes [of len] assms(1) by linarith
  fix z assume "rd z (def_len_bytes len)"
  from ebr.outcome_BDecLen [OF this, of 0] show "decodes z (BDecLen expBufOpsG) (def_len_bytes len) len"
    using parse_def_len_bytes [of len "[]"] by simp
qed

theorem len_roundtrip_witness:
  "reads_back (BEncDefLen expBufOpsG (freshBuf 8 0) 1000) (BDecLen expBufOpsG) 1000"
  by (rule len_roundtrip) simp_all

section \<open>The universal types\<close>

definition int_back :: "AsnInt \<Rightarrow> AsnInt" where
  "int_back d = d + (if sint d < 0 then 129 * 256 ^ length (int_bytes d) else 0)"

lemma int_back_iff: "int_back d = d \<longleftrightarrow> \<not> (-(2 ^ 23) \<le> sint d \<and> sint d < 0)"
  using length_int_bytes_4 [of d] by (auto simp: int_back_def pow256_word)

text \<open>INTEGER and ENUMERATED differ in the tag only.\<close>

lemma signed_reads_back:
  assumes "fresh_emits sz m c (tlv code (int_bytes d))" "code < 31" "10 < sz" "sz < 2 ^ 31"
    and D: "\<And>z n. D z n = dbind (BDecUniv expBufOpsG (-40) [univ_tag code] z n)
      (\<lambda>(tag, len). BDecAsnIntContent expBufOpsG tag len)"
  shows "reads_back c D (int_back d)"
proof (rule tlv_reads_back [OF assms(1) _ assms(4)])
  show "length (int_bytes d) + 6 < sz" using length_int_bytes [of d] assms(3) by linarith
  fix z assume z: "rd z (tlv code (int_bytes d))"
  have "pbind (parse_head (-40) [univ_tag code]) (\<lambda>(tag, len). parse_int_content len)
      (tlv code (int_bytes d) @ []) = Inr (int_back d, length (tlv code (int_bytes d)))"
    by (rule parse_univ_tlv [OF assms(2)])
      (use int_roundtrip_value [of d "[]"] in \<open>simp_all add: int_back_def\<close>)
  then show "decodes z D (tlv code (int_bytes d)) (int_back d)"
    using ebr.outcome_int [OF z, of "[univ_tag code]" 0] length_int_bytes [of d]
      parse_head_tlv [OF assms(2), of "[univ_tag code]" "-40" "int_bytes d" "[]"]
      of_nat_word32_eq [of "length (int_bytes d)" 0]
    by (simp add: D)
qed

text \<open>The content octets of an INTEGER are the two's complement of the value, most
  significant first, and no shorter string of octets has that value; the encoder reports their
  number and puts them in front of what the buffer held.\<close>

theorem int_content_minimal:
  assumes "winv b" "\<not> writeErr (cur b)" "4 \<le> wroom b"
  shows "\<exists>bs. written (snd (BEncAsnIntContent expBufOpsG b d)) = bs @ written b \<and>
    fst (BEncAsnIntContent expBufOpsG b d) = of_nat (length bs) \<and>
    bs \<noteq> [] \<and> twos bs = sint d \<and> (\<forall>cs. cs \<noteq> [] \<and> twos cs = sint d \<longrightarrow> length bs \<le> length cs)"
proof (intro exI conjI allI impI)
  note e = conjunct1 [OF ebw.BEncAsnIntContent_ok [of b d]]
  show "written (snd (BEncAsnIntContent expBufOpsG b d)) = int_bytes d @ written b"
    using ebw.emits_written [OF e assms(1)] assms(2,3) length_int_bytes [of d] by simp
  show "fst (BEncAsnIntContent expBufOpsG b d) = of_nat (length (int_bytes d))"
    using ebw.BEncAsnIntContent_ok [of b d] by simp
  show "int_bytes d \<noteq> []" using length_int_bytes [of d] by auto
qed (use int_bytes_minimal twos_int_bytes in auto)

theorem int_content_minimal_witness:
  "\<exists>bs. written (snd (BEncAsnIntContent expBufOpsG (freshBuf 8 0) 128)) = bs @ written (freshBuf 8 0) \<and>
    twos bs = sint (128 :: AsnInt)"
  using int_content_minimal [of "freshBuf 8 0" 128] freshBuf_props [of 8 0] by auto

text \<open>An unsigned INTEGER of any 32-bit value comes back unchanged; a leading zero octet
  keeps the values from 2^31 on from being read as negative.\<close>

theorem uint_roundtrip:
  assumes "11 < sz" "sz < 2 ^ 31"
  shows "reads_back (BEncUAsnInt expBufOpsG (freshBuf sz m) d) (BDecUAsnInt expBufOpsG) d"
proof (rule tlv_reads_back [OF ebc.BEncUAsnInt_tlv _ assms(2)])
  show "length (uint_bytes d) + 6 < sz" using length_uint_bytes [of d] assms(1) by linarith
  fix z assume z: "rd z (tlv INTEGER_TAG_CODE (uint_bytes d))"
  have "pbind (parse_head (-40) [univ_tag INTEGER_TAG_CODE]) (\<lambda>(tag, len). parse_uint_content len)
      (tlv INTEGER_TAG_CODE (uint_bytes d) @ []) = Inr (d, length (tlv INTEGER_TAG_CODE (uint_bytes d)))"
    by (rule parse_univ_tlv) (use parse_uint_bytes [of d "[]"] in \<open>simp_all add: INTEGER_TAG_CODE_def\<close>)
  then show "decodes z (BDecUAsnInt expBufOpsG) (tlv INTEGER_TAG_CODE (uint_bytes d)) d"
    using ebr.outcome_uint [OF z, of "[univ_tag INTEGER_TAG_CODE]" 0] length_uint_bytes [of d]
      parse_head_tlv [of INTEGER_TAG_CODE "[univ_tag INTEGER_TAG_CODE]" "-40" "uint_bytes d" "[]"]
      of_nat_word32_eq [of "length (uint_bytes d)" 0]
    by (simp add: BDecUAsnInt_def INTEGER_TAG_CODE_def)
qed

theorem uint_roundtrip_witness:
  "reads_back (BEncUAsnInt expBufOpsG (freshBuf 16 0) 0x80000000) (BDecUAsnInt expBufOpsG) 0x80000000"
  by (rule uint_roundtrip) simp_all

text \<open>A BOOLEAN comes back as its truth value, whatever non-zero byte stands for true, and
  NULL comes back.\<close>

theorem bool_null_roundtrip:
  assumes "7 < sz" "sz < 2 ^ 31"
  shows "reads_back (BEncAsnBool expBufOpsG (freshBuf sz m) v) (BDecAsnBool expBufOpsG) (if v \<noteq> 0 then 1 else 0) \<and>
    reads_back (BEncAsnNull expBufOpsG (freshBuf sz m)) (BDecAsnNull expBufOpsG) ()"
proof (intro conjI)
  show "reads_back (BEncAsnBool expBufOpsG (freshBuf sz m) v) (BDecAsnBool expBufOpsG) (if v \<noteq> 0 then 1 else 0)"
  proof (rule tlv_reads_back [OF ebc.BEncAsnBool_tlv _ assms(2)])
    show "length (bool_bytes v) + 6 < sz" using assms(1) by (simp add: bool_bytes_def)
    fix z assume "rd z (tlv BOOLEAN_TAG_CODE (bool_bytes v))"
    from ebr.outcome_BDecAsnBool [OF this, of 0]
    show "decodes z (BDecAsnBool expBufOpsG) (tlv BOOLEAN_TAG_CODE (bool_bytes v)) (if v \<noteq> 0 then 1 else 0)"
      using parse_univ_tlv [of BOOLEAN_TAG_CODE "[univ_tag BOOLEAN_TAG_CODE]"
          "\<lambda>(tag, len). parse_bool_content len" "bool_bytes v" "[]" "if v \<noteq> 0 then 1 else 0" "-40"]
        parse_bool_bytes [of v "[]"]
      by (simp add: BOOLEAN_TAG_CODE_def)
  qed
  show "reads_back (BEncAsnNull expBufOpsG (freshBuf sz m)) (BDecAsnNull expBufOpsG) ()"
  proof (rule tlv_reads_back [OF ebc.BEncAsnNull_tlv _ assms(2)])
    show "length ([] :: byte list) + 6 < sz" using assms(1) by simp
    fix z assume "rd z (tlv NULLTYPE_TAG_CODE [])"
    from ebr.outcome_BDecAsnNull [OF this, of 0]
    show "decodes z (BDecAsnNull expBufOpsG) (tlv NULLTYPE_TAG_CODE []) ()"
      using parse_univ_tlv [of NULLTYPE_TAG_CODE "[univ_tag NULLTYPE_TAG_CODE]"
          "\<lambda>(tag, len). parse_null_content len" "[]" "[]" "()" "-40"]
      by (simp add: NULLTYPE_TAG_CODE_def parse_null_content_def)
  qed
qed

theorem bool_null_roundtrip_witness:
  "reads_back (BEncAsnBool expBufOpsG (freshBuf 8 0) 7) (BDecAsnBool expBufOpsG) 1"
  using bool_null_roundtrip [of 8 0 7] by simp

text \<open>An OCTET STRING comes back with its length and octets; the decoder appends a zero
  byte that the length does not count.\<close>

theorem octs_roundtrip:
  assumes "octetLen x \<le> length (octs x)" "octetLen x + 6 < sz" "sz < 2 ^ 31"
    and "alloc (octetLen x + 1)" "octetLen x + 6 < fuel"
  shows "reads_back (BEncAsnOcts expBufOpsG (freshBuf sz m) x) (BDecAsnOcts fuel alloc expBufOpsG)
    \<lparr>octetLen = octetLen x, octs = take (octetLen x) (octs x) @ [0]\<rparr>"
proof -
  let ?bs = "take (octetLen x) (octs x)"
  have l: "length ?bs = octetLen x" "octetLen x < 2 ^ 31" using assms(1-3) by simp_all
  show ?thesis
  proof (rule tlv_reads_back [OF ebc.BEncAsnOcts_tlv [OF l(2) assms(1)] _ assms(3)])
    show "length ?bs + 6 < sz" using l assms(2) by simp
    fix z assume z: "rd z (tlv OCTETSTRING_TAG_CODE ?bs)"
    show "decodes z (BDecAsnOcts fuel alloc expBufOpsG) (tlv OCTETSTRING_TAG_CODE ?bs)
        \<lparr>octetLen = octetLen x, octs = ?bs @ [0]\<rparr>"
      using ebr.outcome_BDecAsnOcts [OF z, of fuel alloc 0] length_tlv_le [of OCTETSTRING_TAG_CODE ?bs]
        parse_octs_tlv [of ?bs alloc "[]"] l assms(4,5) by simp
  qed
qed

theorem octs_roundtrip_witness:
  "reads_back (BEncAsnOcts expBufOpsG (freshBuf 16 0) \<lparr>octetLen = 2, octs = [7, 8, 9]\<rparr>)
     (BDecAsnOcts 20 (\<lambda>_. True) expBufOpsG) \<lparr>octetLen = 2, octs = [7, 8, 0]\<rparr>"
  using octs_roundtrip [of "\<lparr>octetLen = 2, octs = [7, 8, 9]\<rparr>" 16 "\<lambda>_. True" 20 0] by simp

section \<open>The expandable buffer\<close>

text \<open>Switching from writing to reading moves the handle to the last block.  What is then
  read is what was written only if the blocks in front of it are empty: a message that needed a
  second block loses its beginning.\<close>

theorem reset_reads_last_block:
  assumes "winv z"
  shows "\<exists>ys. rd (ExpBufResetInReadMode z) ys \<and>
    (ys = written z \<longleftrightarrow> (\<forall>e \<in> set (butlast (cur z # nexts z)). data_of e = []))"
proof (intro exI conjI)
  let ?bs = "cur z # nexts z"
  show "rd (ExpBufResetInReadMode z) (data_of (last ?bs))" using assms by (rule reset_readable)
  have "written z = concat (map data_of (butlast ?bs @ [last ?bs]))"
    by (simp only: append_butlast_last_id list.simps not_False_eq_True) (simp add: written_def)
  also have "\<dots> = concat (map data_of (butlast ?bs)) @ data_of (last ?bs)"
    by (simp only: map_append concat_append list.map concat.simps append_Nil2)
  finally show "data_of (last ?bs) = written z \<longleftrightarrow> (\<forall>e \<in> set (butlast ?bs). data_of e = [])"
    by (simp only: append_self_conv2 eq_commute [of "data_of _"] concat_eq_Nil_conv set_map ball_simps)
qed

theorem reset_reads_last_block_witness:
  "\<exists>ys. rd (ExpBufResetInReadMode (ExpBufPutSegRvs (freshBuf 2 2) [1, 2, 3])) ys \<and>
     ys \<noteq> written (ExpBufPutSegRvs (freshBuf 2 2) [1, 2, 3])"
proof -
  let ?z = "ExpBufPutSegRvs (freshBuf 2 2) [1, 2, 3]"
  have "winv ?z"
    using wemits_putSeg [of "[1, 2, 3]" "freshBuf 2 2"] freshBuf_props [of 2 2] by (simp add: emits_def)
  moreover have "?z = \<lparr>prevs = [],
      cur = \<lparr>blk = [0, 1], dataStart = 1, dataEnd = 2, curr = 2, readErr = False, writeErr = False\<rparr>,
      nexts = [\<lparr>blk = [2, 3], dataStart = 0, dataEnd = 2, curr = 2, readErr = False, writeErr = False\<rparr>],
      mallocs = 0, expBufDataBlkSizeG = 2\<rparr>"
    by (simp add: ExpBufPutSegRvs_def freshBuf_def, subst putSegLoop.simps,
        simp add: allocPrev_def ExpBufAllocBufAndData_def putBlk_def numeral_2_eq_2, subst putSegLoop.simps,
        simp add: putBlk_def)
  then have "\<not> (\<forall>e \<in> set (butlast (cur ?z # nexts ?z)). data_of e = [])"
    by (simp add: data_of_def)
  ultimately show ?thesis using reset_reads_last_block [of ?z] by blast
qed

section \<open>BIT STRING\<close>

lemma decodesI:
  "\<exists>b'. D z 0 = Ret v (0 + of_nat (length bs)) b' \<and> rd b' [] \<Longrightarrow> decodes z D bs v"
  by auto

text \<open>The header of a constructed string of indefinite length.\<close>

lemma cons_bits_head:
  assumes "rd b (0x23 # 0x80 # xs)"
  obtains b' where "BDecUniv expBufOpsG (-40) bits_tags b n =
      Ret (univ_cons_tag BITSTRING_TAG_CODE, INDEFINITE_LEN) (n + 2) b'" "rd b' xs"
proof -
  have "parse_head (-40) bits_tags (0x23 # 0x80 # xs) =
      Inr ((univ_cons_tag BITSTRING_TAG_CODE, INDEFINITE_LEN), 2)"
    using parse_tag_bytes [of BITSTRING_TAG_CODE UNIV_CLASS CONS "0x80 # xs"]
    by (simp add: parse_head_def bits_tags_def univ_cons_tag_def real_class_def real_form_def
        tag_bytes_def tag_byte_def BITSTRING_TAG_CODE_def)
  with ebr.outcome_BDecUniv [OF assms, of "-40" bits_tags n] that show thesis
    by (auto simp: eval_nat_numeral)
qed

text \<open>A constructed BIT STRING of indefinite length, whose pieces but the last have no
  unused bits, decodes to the pieces joined, its length in bits being that of the octets less
  the unused bits of the last piece; these stay in the global \<open>unusedBitsG\<close>.\<close>

theorem bits_constructed:
  assumes "rd b (0x23 # 0x80 # concat (map bit_piece ps) @ 0 # 0 # ys)" "ps \<noteq> []"
    and "\<forall>q \<in> set (butlast ps). fst q = 0" "\<forall>q \<in> set ps. length (snd q) < 2 ^ 31"
    and "length ps < fuel" "length (concat (map snd ps)) < 2 ^ 28" "alloc (length (concat (map snd ps)))"
  shows "\<exists>b'. BDecAsnBits fuel alloc expBufOpsG 0 b n =
      Ret (\<lparr>bitLen = int (length (concat (map snd ps))) * 8 - int (unat (fst (last ps))),
            bits = concat (map snd ps)\<rparr>, ucast (fst (last ps)))
        (n + 2 + of_nat (length (concat (map bit_piece ps)) + 2)) b' \<and> rd b' ys"
proof (rule cons_bits_head [OF assms(1), of n])
  fix b2
  assume "BDecUniv expBufOpsG (-40) bits_tags b n =
      Ret (univ_cons_tag BITSTRING_TAG_CODE, INDEFINITE_LEN) (n + 2) b2"
    and "rd b2 (concat (map bit_piece ps) @ 0 # 0 # ys)"
  then show ?thesis
    using ebr.BDecConsAsnBits_pieces [of b2 ps ys fuel alloc "n + 2", OF _ assms(2-7)]
    by (simp add: BDecAsnBits_def bits_tags_def BDecAsnBitsContent_def bits_tag_form)
qed

theorem bits_constructed_witness:
  "\<exists>b'. BDecAsnBits 5 (\<lambda>_. True) expBufOpsG 0
     (ExpBufInstallDataInBuf (freshBuf 8 0) [0x23, 0x80, 3, 2, 0, 0xAB, 3, 2, 4, 0xC0, 0, 0]) 0 =
     Ret (\<lparr>bitLen = 12, bits = [0xAB, 0xC0]\<rparr>, 4) 12 b' \<and> rd b' []"
  using bits_constructed [of _ "[(0, [0xAB]), (4, [0xC0])]" "[]", OF rd_install, of 5 "\<lambda>_. True" "freshBuf 8 0" 0]
  by (simp add: tlv_def def_len_bytes_def BITSTRING_TAG_CODE_def)

text \<open>\<open>unusedBitsG\<close> is not reset before a constructed BIT STRING is decoded: after one
  that ended with unused bits, every constructed BIT STRING with a piece in it is refused with
  error -1, well-formed or not.\<close>

theorem bits_stale_unused:
  assumes "rd b (0x23 # 0x80 # bit_piece (k, p) @ ys)" "u \<noteq> 0"
  shows "BDecAsnBits (Suc fuel) alloc expBufOpsG u b n = Jmp (-1)"
proof (rule cons_bits_head [OF assms(1), of n])
  fix b2
  assume "BDecUniv expBufOpsG (-40) bits_tags b n =
      Ret (univ_cons_tag BITSTRING_TAG_CODE, INDEFINITE_LEN) (n + 2) b2"
    and "rd b2 (bit_piece (k, p) @ ys)"
  then show ?thesis
    using ebr.FillBitStringStk_stale [of b2 k p ys u 0 INDEFINITE_LEN fuel "RESET_STR_STK strStkG"] assms(2)
    by (simp add: BDecAsnBits_def bits_tags_def BDecAsnBitsContent_def bits_tag_form BDecConsAsnBits_def)
qed

theorem bits_stale_unused_witness:
  "BDecAsnBits 5 (\<lambda>_. True) expBufOpsG 4
     (ExpBufInstallDataInBuf (freshBuf 8 0) [0x23, 0x80, 3, 2, 0, 0xAB, 0, 0]) 0 = Jmp (-1)"
  using bits_stale_unused [of _ 0 "[0xAB]" "[0, 0]", OF rd_install, of 4 4 "\<lambda>_. True" "freshBuf 8 0" 0]
  by (simp add: tlv_def def_len_bytes_def BITSTRING_TAG_CODE_def)

text \<open>On a BIT STRING whose octets hold its bits, setting and clearing bit n change that
  bit alone, keep the string well formed, and reading returns the bit.\<close>

theorem set_clr_get_bit:
  assumes "wf_bits x" "n < nat (bitLen x)"
  shows "\<exists>y z v. SetAsnBit x n = Some y \<and> ClrAsnBit x n = Some z \<and> GetAsnBit x n = Some v \<and>
    wf_bits y \<and> wf_bits z \<and> bitLen y = bitLen x \<and> bitLen z = bitLen x \<and> (v \<noteq> 0 \<longleftrightarrow> bit_at x n) \<and>
    (\<forall>m < nat (bitLen x). bit_at y m = (m = n \<or> bit_at x m) \<and> bit_at z m = (m \<noteq> n \<and> bit_at x m))"
  using SetAsnBit_bits [OF assms] ClrAsnBit_bits [OF assms] GetAsnBit_bit [OF assms] by blast

theorem set_clr_get_bit_witness:
  "\<exists>y. SetAsnBit \<lparr>bitLen = 10, bits = [1, 0x80]\<rparr> 9 = Some y \<and> wf_bits y \<and> bit_at y 9"
  using set_clr_get_bit [of "\<lparr>bitLen = 10, bits = [1, 0x80]\<rparr>" 9] by (auto simp: wf_bits_def bit_octets_def)

section \<open>OBJECT IDENTIFIER\<close>

text \<open>An OBJECT IDENTIFIER is printed as its arcs in braces, if its head number is below
  40 * 2^16: the first arc is held in an \<open>unsigned short\<close>.\<close>

theorem oid_print:
  assumes "head_arcs_ok a1 a2" "unat a1 * 40 + unat a2 < 40 * 2 ^ 16" "\<forall>w \<in> set arcs. unat w < 2 ^ 31"
  shows "PrintAsnOid (BuildEncodedOid (a1 # a2 # arcs) r) =
    Some (''{'' @ tl (concat (map (\<lambda>arcNum. '' '' @ dec (unat arcNum)) (a1 # a2 # arcs))) @ ''}'')"
  using PrintAsnOid_Build [OF assms, of r] by (simp add: arcs_text_def)

theorem oid_print_witness:
  "PrintAsnOid (BuildEncodedOid [1, 2, 840] \<lparr>octetLen = 0, octs = []\<rparr>) = Some ''{1 2 840}''"
proof -
  have "dec 1 = ''1''" "dec 2 = ''2''" "dec 840 = ''840''" by code_simp+
  then show ?thesis
    using oid_print [of 1 2 "[840]" "\<lparr>octetLen = 0, octs = []\<rparr>"]
    by (simp add: head_arcs_ok_def del: BuildEncodedOid.simps)
qed

text \<open>\<open>UnbuildEncodedOid\<close> gives back no OBJECT IDENTIFIER: with more than two arcs it
  ends the program, with two it returns a list without an end.\<close>

theorem oid_unbuild_fails:
  assumes "head_arcs_ok a1 a2" "\<forall>w \<in> set arcs. unat w < 2 ^ 31" "2 < m"
  shows "UnbuildEncodedOid m (BuildEncodedOid (a1 # a2 # arcs) r) =
    (if arcs = [] then ArcsNoEnd [int (unat a1), int (unat a2)] else Exit exit_on_purpose)"
  using assms by (rule UnbuildEncodedOid_Build)

theorem oid_unbuild_fails_witness:
  "UnbuildEncodedOid 3 (BuildEncodedOid [1, 2, 840] \<lparr>octetLen = 0, octs = []\<rparr>) = Exit exit_on_purpose"
  using oid_unbuild_fails [of 1 2 "[840]" 3 "\<lparr>octetLen = 0, octs = []\<rparr>"] by (simp add: head_arcs_ok_def)

section \<open>Character strings\<close>

text \<open>What a string encoder writes, and what reading it back gives, for every string type.\<close>

lemma string_written:
  assumes "string_codec encC decC chk code" "octetLen x \<le> length (octs x)" "octetLen x + 6 < sz" "sz < 2 ^ 31"
  shows "fresh_emits sz m (BEncUniv expBufOpsG code (encC expBufOpsG (freshBuf sz m) x)) (tlv code (str_octets x))"
  using assms(3,4) by (intro string_codec.encode [OF assms(1) ebc.rvs_buffer_axioms _ assms(2)]) simp

lemma string_decoded:
  assumes "string_codec encC decC chk code" "rd z (tlv code bs)" "length bs + 6 < fuel"
  shows "outcome expBufOpsG remaining rinv (BDecString decC err code fuel alloc expBufOpsG z 0) 0 (tlv code bs)
    (parse_string chk err code alloc (tlv code bs))"
  using string_codec.decode [where fuel = fuel and alloc = alloc and n = 0, OF assms(1) ebr.fwd_buffer_axioms assms(2)]
    length_tlv_le [of code bs] assms(3) by simp

lemma string_reads_back:
  assumes "string_codec encC decC chk code" "octetLen x \<le> length (octs x)" "octetLen x + 6 < sz" "sz < 2 ^ 31"
    and "alloc (octetLen x + 1)" "octetLen x + 6 < fuel" "chk \<lparr>octetLen = octetLen x, octs = str_octets x @ [0]\<rparr>"
  shows "reads_back (BEncUniv expBufOpsG code (encC expBufOpsG (freshBuf sz m) x))
    (BDecString decC err code fuel alloc expBufOpsG) \<lparr>octetLen = octetLen x, octs = str_octets x @ [0]\<rparr>"
proof -
  have l: "length (str_octets x) = octetLen x" "octetLen x < 2 ^ 31"
    using assms(2-4) by (simp_all add: str_octets_def)
  show ?thesis
  proof (rule tlv_reads_back [OF string_written [OF assms(1-4)] _ assms(4)])
    show "length (str_octets x) + 6 < sz" using l assms(3) by simp
    fix z assume "rd z (tlv code (str_octets x))"
    from string_decoded [where fuel = fuel and alloc = alloc and err = err, OF assms(1) this] assms(6) l
    show "decodes z (BDecString decC err code fuel alloc expBufOpsG) (tlv code (str_octets x))
        \<lparr>octetLen = octetLen x, octs = str_octets x @ [0]\<rparr>"
      using string_codec.parse_tlv [where alloc = alloc and bs = "str_octets x" and ys = "[]" and err = err, OF assms(1)] assms(5,7) by simp
  qed
qed

lemma str_octets_decoded [simp]:
  "octetLen x \<le> length (octs x) \<Longrightarrow>
   str_octets \<lparr>octetLen = octetLen x, octs = str_octets x @ [0]\<rparr> = str_octets x"
  by (simp add: str_octets_def)

text \<open>A PrintableString with a bad character is encoded as if it were good: the buffer shows
  no write error, because \<open>GenBufSetWriteError\<close> is given the wrong pointer; only the decoder
  refuses it.\<close>

theorem bad_printable_encoded:
  assumes "octetLen x \<le> length (octs x)" "\<not> chkPrintableString x"
    and "octetLen x + 6 < sz" "sz < 2 ^ 31" "alloc (octetLen x + 1)" "octetLen x + 6 < fuel"
    and z: "z = snd (BEncPrintableString expBufOpsG (freshBuf sz m) x)"
  shows "\<not> writeErr (cur z) \<and>
    BDecPrintableString fuel alloc expBufOpsG (ExpBufResetInReadMode z) 0 = Jmp (-40)"
proof -
  let ?bs = "str_octets x"
  have l: "length ?bs = octetLen x" "octetLen x < 2 ^ 31" using assms(1,3,4) by (simp_all add: str_octets_def)
  have "fresh_emits sz m (BEncPrintableString expBufOpsG (freshBuf sz m) x) (tlv PRINTABLESTRING_TAG_CODE ?bs)"
    using string_written [OF printable.string_codec_axioms assms(1,3,4), of m]
    by (simp add: BEncPrintableString_def)
  moreover have "length (tlv PRINTABLESTRING_TAG_CODE ?bs) < sz"
    using length_tlv_le [of PRINTABLESTRING_TAG_CODE ?bs] l assms(3) by simp
  ultimately have r: "\<not> writeErr (cur z) \<and> rd (ExpBufResetInReadMode z) (tlv PRINTABLESTRING_TAG_CODE ?bs)"
    unfolding z using fresh_then_read [OF _ _ assms(4)] by blast
  have "parse_octs_content alloc (univ_tag PRINTABLESTRING_TAG_CODE) (of_nat (length ?bs)) ?bs =
      Inr (\<lparr>octetLen = length ?bs, octs = ?bs @ [0]\<rparr>, length ?bs)"
    using l assms(5) of_nat_not_INDEFINITE [of "length ?bs"]
    by (simp add: parse_octs_content_def string_tag_form unat_of_nat)
  then have "parse_string chkPrintableString (-101) PRINTABLESTRING_TAG_CODE alloc
      (tlv PRINTABLESTRING_TAG_CODE ?bs) = Inl (-40)"
    using parse_head_tlv [of PRINTABLESTRING_TAG_CODE "[univ_tag PRINTABLESTRING_TAG_CODE,
        univ_cons_tag PRINTABLESTRING_TAG_CODE]" "-101" ?bs "[]"] drop_tlv [of ?bs PRINTABLESTRING_TAG_CODE "[]"]
      assms(1,2) l by (simp add: parse_string_def string_code_small chkPrintableString_def)
  with string_decoded [where fuel = fuel and alloc = alloc and err = "- 101", OF printable.string_codec_axioms conjunct2 [OF r]] l assms(6) r
  show ?thesis by (simp add: BDecPrintableString_def)
qed

theorem bad_printable_encoded_witness:
  "\<not> writeErr (cur (snd (BEncPrintableString expBufOpsG (freshBuf 16 0) \<lparr>octetLen = 1, octs = [64]\<rparr>)))"
  using bad_printable_encoded [of "\<lparr>octetLen = 1, octs = [64]\<rparr>" 16 "\<lambda>_. True" 9 _ 0]
  by (simp add: chkPrintableString_def printable_char_def str_octets_def)

text \<open>The conversion of a BMPString to 16-bit characters gives the characters of the string
  exactly if every character has an ASCII low octet or the high octet 255: the low octet is
  sign-extended over the high one.\<close>

theorem bmp_convert_iff:
  assumes "octetLen x mod 2 = 0" "octetLen x \<le> length (octs x)" "alloc (octetLen x div 2 + 1)"
  shows "\<exists>ws :: 16 word list. CvtBMPString2wchar alloc (Some x) = Some (Inr ws) \<and>
    (map unat ws = ucs2 (str_octets x) \<longleftrightarrow>
      (\<forall>i. 2 * i + 1 < octetLen x \<longrightarrow> octs x ! (2 * i + 1) < 128 \<or> octs x ! (2 * i) = 255))"
proof (intro exI conjI)
  show "CvtBMPString2wchar alloc (Some x) = Some (Inr (bmpChars (str_octets x) :: 16 word list))"
    using assms by (simp add: CvtBMPString2wchar_def)
  show "map unat (bmpChars (str_octets x) :: 16 word list) = ucs2 (str_octets x) \<longleftrightarrow>
      (\<forall>i. 2 * i + 1 < octetLen x \<longrightarrow> octs x ! (2 * i + 1) < 128 \<or> octs x ! (2 * i) = 255)"
    using assms(2) unfolding bmpChars_eq by (simp add: str_octets_def)
qed

theorem bmp_convert_iff_witness:
  "\<exists>ws :: 16 word list. CvtBMPString2wchar (\<lambda>_. True) (Some \<lparr>octetLen = 2, octs = [1, 0x80]\<rparr>) = Some (Inr ws) \<and>
     map unat ws \<noteq> [0x180]"
  using bmp_convert_iff [of "\<lparr>octetLen = 2, octs = [1, 0x80]\<rparr>" "\<lambda>_. True"]
  by (force simp: str_octets_def)

definition utf8_size :: "nat \<Rightarrow> nat" where
  "utf8_size n = (if n < 2 ^ 7 then 1 else if n < 2 ^ 11 then 2 else if n < 2 ^ 16 then 3 else 4)"

text \<open>Up to 0x1FFFFF a character takes the number of octets that UTF-8 has for it exactly if
  it is below 0x20000: the largest value of the four-octet form is mistyped in
  \<open>gUTF8Masks\<close>, so the supplementary planes from 2 on are encoded in five.\<close>

theorem utf8_size_iff:
  fixes w :: "32 word"
  assumes "unat w \<le> 0x1FFFFF" "\<And>n. alloc n"
  shows "\<exists>bs. CvtWchar2UTF8 alloc unsgn (Some [w]) = Inr bs \<and>
    (length bs = utf8_size (unat w) \<longleftrightarrow> unat w < 0x20000)"
proof -
  have le: "unat w \<le> 0x07FFFFFF" using assms(1) by simp
  obtain x ys where o: "wcharOctets w = Some (x # ys)" "length ys = utf8Class (ucast w)"
    by (rule wcharOctets_ok [OF _ le]) simp_all
  have "utf8Class w = (if unat w \<le> 0x7F then 0 else if unat w \<le> 0x7FF then 1
      else if unat w \<le> 0xFFFF then 2 else if unat w \<le> 0x1FFFF then 3 else 4)"
    using assms(1) by (simp add: utf8Class_def gUTF8Masks_def word_less_nat_alt)
  moreover have "int (unat w) \<le> 0x1FFFFF" using assms(1) by linarith
  then have "uint w < 2 ^ 31" by simp
  then have "sint w = uint w"
    unfolding sint_uint by (intro signed_take_bit_int_eq_self) (simp_all add: order_trans [of _ 0])
  then have "\<not> sint w < 0" by (simp del: uint_sint)
  ultimately show ?thesis
    using o assms(1,2) by (simp add: CvtWchar2UTF8_def utf8_size_def)
qed

theorem utf8_size_iff_witness:
  "\<exists>bs. CvtWchar2UTF8 (\<lambda>_. True) False (Some [0x20000 :: 32 word]) = Inr bs \<and> length bs \<noteq> 4"
  using utf8_size_iff [of "0x20000" "\<lambda>_. True" False] by (auto simp: utf8_size_def)

section \<open>Hash tables and ANY\<close>

definition oidA :: AsnOcts where
  "oidA = \<lparr>octetLen = 6, octs = [42, 1, 17, 59, 1, 24]\<rparr>"

definition oidB :: AsnOcts where
  "oidB = \<lparr>octetLen = 6, octs = [42, 52, 1, 1, 27, 1]\<rparr>"

text \<open>A type is recognised by the hash of its identifier alone: with one type installed
  under {1 2 1 17 59 1 24}, the other identifier {1 2 52 1 1 27 1} is taken for that type.\<close>

theorem any_oid_confused:
  assumes "3 \<le> mallocs_left G" "anyOidHashTblG G = None"
  shows "\<exists>G' a. InstallAnyByOid aid oidA junk sz ef df G = Some G' \<and>
    SetAnyTypeByOid G' junk' oidB = Some a \<and> anyId a = aid \<and> oid a = Some oidA"
proof -
  let ?a = "\<lparr>anyId = aid, oid = Some oidA, intId = junk, size_of = sz, Encode = ef, Decode = df\<rparr>"
  let ?h = "MakeHash (octs oidA) (octetLen oidA)"
  have h: "MakeHash (octs oidB) (octetLen oidB) = ?h"
    by (simp add: MakeHash_eq hash_spec_def oidA_def oidB_def)
  obtain m where m: "mallocs_left G = Suc (Suc (Suc m))"
    using that [of "mallocs_left G - 3"] assms(1) by simp
  have "InstallAnyByOid aid oidA junk sz ef df G =
      Some (G\<lparr>anyOidHashTblG := Some [(ucast ?h, HashSlot True ?h ?a None)], mallocs_left := m\<rparr>)"
    using assms(2) by (simp add: InstallAnyByOid_def InitHash_def NewTable_def m Insert_empty)
  then show ?thesis
    by (simp add: SetAnyTypeByOid_def find_single h)
qed

theorem any_oid_confused_witness:
  "\<exists>G' a. InstallAnyByOid 3 oidA 0 4 None None
       \<lparr>anyOidHashTblG = None, anyIntHashTblG = None, mallocs_left = 9\<rparr> = Some G' \<and>
     SetAnyTypeByOid (G' :: (ExpBufs, nat) AnyTables) 0 oidB = Some a \<and> anyId a = 3"
  using any_oid_confused [of "\<lparr>anyOidHashTblG = None, anyIntHashTblG = None, mallocs_left = 9\<rparr>" 3 0 4 None None 0]
  by auto

section \<open>Doubly linked lists\<close>

lemma list_one: "is_list [1 \<mapsto> \<lparr>prev = None, next = None, data = x\<rparr>]
    \<lparr>first = Some 1, last_node = Some 1, curr_node = Some 1, count = 1, dataSize = 4\<rparr> [1] [x] (Some 1)"
  by (simp add: is_list_def)

text \<open>Calling \<open>AsnListNext\<close> from a list without a current node visits every node once, in
  order, and then answers that there is none: a loop over it ends after as many calls as
  there are elements and one more.\<close>

theorem list_walk:
  assumes "is_list h L ns ds None" "length ns < k"
  shows "walk k (h, L) = Some ns"
  using assms by (rule walk_all)

theorem list_walk_witness:
  "walk 2 ([1 \<mapsto> \<lparr>prev = None, next = None, data = Some False\<rparr>],
     \<lparr>first = Some 1, last_node = Some 1, curr_node = None, count = 1, dataSize = 4\<rparr>) = Some [1]"
  using list_walk [of "[1 \<mapsto> \<lparr>prev = None, next = None, data = Some False\<rparr>]" _ "[1]" "[Some False]" 2]
  by (simp add: is_list_def)

section \<open>The nibble allocator\<close>

text \<open>An allocation of at most a megabyte returns the requested number of zero bytes, apart
  from every area in use; a larger one returns NULL and changes nothing.  When a new block
  cannot be had the program ends, it never returns memory it does not own.\<close>

theorem nibble_alloc:
  assumes "nibble_run (nm, as)" "NibbleAlloc m sz nm = Some (p, nm', m')"
  shows "(p = None \<longleftrightarrow> sz > 1024 * 1024) \<and> (p = None \<longrightarrow> nm' = nm) \<and>
    (\<forall>i off. p = Some (i, off) \<longrightarrow>
      take sz (drop off (mem (nibbleBufs nm' ! i))) = replicate sz 0 \<and>
      off + sz \<le> length (mem (nibbleBufs nm' ! i)) \<and> (\<forall>b \<in> set as. disjoint_areas (i, off, sz) b))"
  using NibbleAlloc_ok [OF assms(2) nibble_run_ok [OF assms(1)]] nibble_ok_new_area
  unfolding area_zero_def prod.case by blast

theorem nibble_alloc_witness:
  "\<exists>nm p nm' m'. NibbleAlloc 2 5 nm = Some (p, nm', m') \<and> p \<noteq> None"
proof -
  obtain nm m where i: "InitNibbleMem 3 16 16 = Some (nm, m)" by (simp add: InitNibbleMem_def)
  obtain p nm' m' where "NibbleAlloc 2 5 nm = Some (p, nm', m')"
    using i by (auto simp: NibbleAlloc_def InitNibbleMem_def nibbleBufs_def newBuf_def Let_def)
  with nibble_alloc [OF nibble_run.init [OF i] this] show ?thesis by (intro exI conjI) auto
qed

section \<open>DER\<close>

text \<open>The comparison that orders the elements of a DER SET OF is decided by the last octet in
  which two elements differ, not the first, and compares the octets after adding 1 to each in
  eight bits, so that 255 is the smallest.  Equal elements compare as less.\<close>

theorem der_last_difference:
  assumes "rd (elmt_buf a) (xs @ x # us)" "rd (elmt_buf b) (ys @ y # us)" "length xs = length ys" "x \<noteq> y"
    and "elmt_len a = length (xs @ x # us)" "elmt_len b = length (ys @ y # us)" "elmt_len a < 2 ^ 31"
  shows "fst (EncodedElmtCmp expBufOpsG a b) = (if x + 1 < y + 1 then -1 else 1)"
proof -
  have "length (ys @ y # us) < 2 ^ 31" using assms(3,5,7) by simp
  with ebr.EncodedElmtCmp_last_diff [OF assms(1,2,5,6)] assms(5,7)
  show ?thesis using last_diff_decides [OF assms(3,4)] by simp
qed

theorem der_last_difference_witness:
  "fst (EncodedElmtCmp expBufOpsG
     \<lparr>elmt_len = 2, elmt_buf = ExpBufInstallDataInBuf (freshBuf 8 0) [1, 7]\<rparr>
     \<lparr>elmt_len = 2, elmt_buf = ExpBufInstallDataInBuf (freshBuf 8 0) [2, 6]\<rparr>) = 1"
  using der_last_difference [of "\<lparr>elmt_len = 2, elmt_buf = ExpBufInstallDataInBuf (freshBuf 8 0) [1, 7]\<rparr>"
      "[1]" 7 "[]" "\<lparr>elmt_len = 2, elmt_buf = ExpBufInstallDataInBuf (freshBuf 8 0) [2, 6]\<rparr>" "[2]" 6]
    rd_install [of "[1, 7]" "freshBuf 8 0"] rd_install [of "[2, 6]" "freshBuf 8 0"]
  by simp

end
