(* ===== verification/Step_System.thy ===== *)
theory Step_System
  imports Main
begin

section \<open>Steps that keep an invariant\<close>

text \<open>
  The contract between a component with threads and its invariant: every step keeps it.  The
  reflexive and transitive closure of the steps keeps it then, and so does any part of the steps.
\<close>

locale kept_by_steps =
  fixes step :: "'s \<Rightarrow> 's \<Rightarrow> bool"
    and ok :: "'s \<Rightarrow> bool"
  assumes step_keeps: "step s t \<Longrightarrow> ok s \<Longrightarrow> ok t"
begin

lemma steps_keep: "step\<^sup>*\<^sup>* s t \<Longrightarrow> ok s \<Longrightarrow> ok t"
  by (induction rule: rtranclp_induct) (auto intro: step_keeps)

lemma some_steps_keep: "part\<^sup>*\<^sup>* s t \<Longrightarrow> (\<And>u v. part u v \<Longrightarrow> step u v) \<Longrightarrow> ok s \<Longrightarrow> ok t"
  by (induction rule: rtranclp_induct) (auto intro: step_keeps)

end

text \<open>A quantity that no step changes is one that every run leaves as it was.\<close>

locale constant_on_steps =
  fixes step :: "'s \<Rightarrow> 's \<Rightarrow> bool"
    and value_of :: "'s \<Rightarrow> 'v"
  assumes step_same: "step s t \<Longrightarrow> value_of t = value_of s"

sublocale constant_on_steps \<subseteq> kept_by_steps step "\<lambda>s. value_of s = v" for v
  by unfold_locales (simp add: step_same)

context constant_on_steps
begin

lemma steps_same: "step\<^sup>*\<^sup>* s t \<Longrightarrow> value_of t = value_of s"
  by (rule steps_keep) simp_all

end

end
