(* ===== verification/Rose_Store.thy ===== *)
theory Rose_Store
  imports Asn_Prelude "HOL-Library.Char_ord" "HOL-Library.List_Lexorder"
begin

section \<open>Operations and subscriptions of a ROSE stub (\<open>cpp-lib/src\<close>)\<close>

text \<open>
  The registry of operations (\<open>SnaccRoseOperationLookup.cpp\<close>), the events and invokes that a
  session subscribed (\<open>RoseSessionSubscriptionStore.cpp\<close>), what the peer offers
  (\<open>SnaccModuleCapabilities.cpp\<close>), the versions of the loaded modules
  (\<open>SnaccModuleVersions.cpp\<close>), and the test that lets an outbound message pass
  (\<open>SnaccROSESender::IsOperationBlocked\<close>).  A \<open>std::map\<close> is a partial map, a set is a set;
  \<open>NULL\<close> for a string is \<open>None\<close>.  Every operation runs under the lock of its object, so it is
  a function of the state.
\<close>

type_synonym opid = "32 word"

definition insert_key :: "'k \<Rightarrow> 'v \<Rightarrow> ('k \<rightharpoonup> 'v) \<Rightarrow> ('k \<rightharpoonup> 'v)" where
  "insert_key k v m = (case m k of None \<Rightarrow> m(k \<mapsto> v) | Some _ \<Rightarrow> m)"

lemma insert_key_apply:
  "insert_key k v m k' = (if k' = k \<and> m k = None then Some v else m k')"
  by (simp add: insert_key_def split: option.split)

subsection \<open>The operation lookup\<close>

record SnaccOpVersionInfo =
  m_ullAddedUnix :: "64 word"
  m_ullDeprecatedUnix :: "64 word"

record SnaccLoadedModuleInfo =
  m_strModuleName :: string
  m_strVersion :: string
  m_invokes :: "opid \<rightharpoonup> SnaccOpVersionInfo"
  m_events :: "opid \<rightharpoonup> SnaccOpVersionInfo"

type_synonym SnaccLoadedModuleMap = "string \<rightharpoonup> SnaccLoadedModuleInfo"

definition no_module :: SnaccLoadedModuleInfo where
  "no_module = \<lparr>m_strModuleName = '''', m_strVersion = '''', m_invokes = Map.empty, m_events = Map.empty\<rparr>"

definition module_at :: "SnaccLoadedModuleMap \<Rightarrow> string \<Rightarrow> SnaccLoadedModuleInfo" where
  "module_at M n = (case M n of None \<Rightarrow> no_module | Some m \<Rightarrow> m)"

record SnaccRoseOperationLookup =
  m_bSealed :: bool
  m_mapOpToID :: "string \<rightharpoonup> opid"
  m_mapIDToOp :: "opid \<rightharpoonup> string"
  m_mapIDToInterface :: "opid \<rightharpoonup> 32 word"
  m_loadedModules :: SnaccLoadedModuleMap
  m_mapIDToModuleKind :: "opid \<rightharpoonup> string \<times> bool"

definition empty_lookup :: SnaccRoseOperationLookup where
  "empty_lookup = \<lparr>m_bSealed = False, m_mapOpToID = Map.empty, m_mapIDToOp = Map.empty,
     m_mapIDToInterface = Map.empty, m_loadedModules = Map.empty, m_mapIDToModuleKind = Map.empty\<rparr>"

definition RegisterModuleVersion ::
    "string option \<Rightarrow> string option \<Rightarrow> SnaccRoseOperationLookup \<Rightarrow> SnaccRoseOperationLookup" where
  "RegisterModuleVersion szModuleName szVersion L =
     (case (szModuleName, szVersion) of
        (Some n, Some v) \<Rightarrow>
          if m_bSealed L then L
          else L\<lparr>m_loadedModules := (m_loadedModules L)
                 (n \<mapsto> (module_at (m_loadedModules L) n)\<lparr>m_strModuleName := n, m_strVersion := v\<rparr>)\<rparr>
      | _ \<Rightarrow> L)"

definition RegisterOperation ::
    "opid \<Rightarrow> string option \<Rightarrow> 32 word \<Rightarrow> string option \<Rightarrow> bool \<Rightarrow> 64 word \<Rightarrow> 64 word
     \<Rightarrow> SnaccRoseOperationLookup \<Rightarrow> SnaccRoseOperationLookup" where
  "RegisterOperation uiOpID szOpName uiInterfaceID szModuleName bIsEvent ullAdded ullDeprecated L =
     (case (szOpName, szModuleName) of
        (Some nm, Some mn) \<Rightarrow>
          if m_bSealed L \<or> m_mapIDToOp L uiOpID \<noteq> None then L
          else let mo = (module_at (m_loadedModules L) mn)\<lparr>m_strModuleName := mn\<rparr>;
                   info = \<lparr>m_ullAddedUnix = ullAdded, m_ullDeprecatedUnix = ullDeprecated\<rparr>;
                   mo' = (if bIsEvent then mo\<lparr>m_events := (m_events mo)(uiOpID \<mapsto> info)\<rparr>
                          else mo\<lparr>m_invokes := (m_invokes mo)(uiOpID \<mapsto> info)\<rparr>)
               in L\<lparr>m_mapOpToID := (m_mapOpToID L)(nm \<mapsto> uiOpID),
                    m_mapIDToOp := (m_mapIDToOp L)(uiOpID \<mapsto> nm),
                    m_mapIDToInterface := (m_mapIDToInterface L)(uiOpID \<mapsto> uiInterfaceID),
                    m_mapIDToModuleKind := (m_mapIDToModuleKind L)(uiOpID \<mapsto> (mn, bIsEvent)),
                    m_loadedModules := (m_loadedModules L)(mn \<mapsto> mo')\<rparr>
      | _ \<Rightarrow> L)"

definition ClearRegisteredOperations :: "SnaccRoseOperationLookup \<Rightarrow> SnaccRoseOperationLookup" where
  "ClearRegisteredOperations L =
     (if m_bSealed L then L
      else L\<lparr>m_mapOpToID := Map.empty, m_mapIDToOp := Map.empty, m_mapIDToInterface := Map.empty,
             m_mapIDToModuleKind := Map.empty, m_loadedModules := Map.empty\<rparr>)"

definition Seal :: "SnaccRoseOperationLookup \<Rightarrow> SnaccRoseOperationLookup" where
  "Seal L = L\<lparr>m_bSealed := True\<rparr>"

definition LookUpName :: "SnaccRoseOperationLookup \<Rightarrow> opid \<Rightarrow> string option" where
  "LookUpName L uiOpID = m_mapIDToOp L uiOpID"

definition LookUpID :: "SnaccRoseOperationLookup \<Rightarrow> string option \<Rightarrow> opid" where
  "LookUpID L szOpName = (case szOpName of None \<Rightarrow> 0
     | Some n \<Rightarrow> (case m_mapOpToID L n of None \<Rightarrow> 0 | Some i \<Rightarrow> i))"

definition LookUpInterfaceID :: "SnaccRoseOperationLookup \<Rightarrow> opid \<Rightarrow> 32 word" where
  "LookUpInterfaceID L uiOpID = (case m_mapIDToInterface L uiOpID of None \<Rightarrow> 0 | Some i \<Rightarrow> i)"

definition LookUpModuleName :: "SnaccRoseOperationLookup \<Rightarrow> opid \<Rightarrow> string option" where
  "LookUpModuleName L uiOpID = map_option fst (m_mapIDToModuleKind L uiOpID)"

text \<open>The calls that change a lookup, and a lookup after a sequence of them.\<close>

datatype lookup_op =
    Register_Version "string option" "string option"
  | Register_Op opid "string option" "32 word" "string option" bool "64 word" "64 word"
  | Clear_Ops
  | Seal_It

fun lookup_call :: "lookup_op \<Rightarrow> SnaccRoseOperationLookup \<Rightarrow> SnaccRoseOperationLookup" where
  "lookup_call (Register_Version n v) L = RegisterModuleVersion n v L"
| "lookup_call (Register_Op i n f m e a d) L = RegisterOperation i n f m e a d L"
| "lookup_call Clear_Ops L = ClearRegisteredOperations L"
| "lookup_call Seal_It L = Seal L"

text \<open>
  What the calls keep: the maps from the id know the same ids; a name leads to an id that has
  this name; an id is filed in the module that it names, and only there.
\<close>

definition lookup_ok :: "SnaccRoseOperationLookup \<Rightarrow> bool" where
  "lookup_ok L \<longleftrightarrow>
     (\<forall>i. (m_mapIDToInterface L i = None) = (m_mapIDToOp L i = None)) \<and>
     (\<forall>i. (m_mapIDToModuleKind L i = None) = (m_mapIDToOp L i = None)) \<and>
     (\<forall>n i. m_mapOpToID L n = Some i \<longrightarrow> m_mapIDToOp L i = Some n) \<and>
     (\<forall>i n. m_mapIDToOp L i = Some n \<longrightarrow> m_mapOpToID L n \<noteq> None) \<and>
     (\<forall>i mn. m_invokes (module_at (m_loadedModules L) mn) i \<noteq> None
        \<longleftrightarrow> m_mapIDToModuleKind L i = Some (mn, False)) \<and>
     (\<forall>i mn. m_events (module_at (m_loadedModules L) mn) i \<noteq> None
        \<longleftrightarrow> m_mapIDToModuleKind L i = Some (mn, True))"

lemma module_at_upd: "module_at (M(n \<mapsto> v)) k = (if k = n then v else module_at M k)"
  by (simp add: module_at_def)

lemma lookup_ok_empty: "lookup_ok empty_lookup"
  by (simp add: lookup_ok_def empty_lookup_def module_at_def no_module_def)

lemma lookup_ok_version: "lookup_ok L \<Longrightarrow> lookup_ok (RegisterModuleVersion n v L)"
  by (auto simp: lookup_ok_def RegisterModuleVersion_def module_at_upd split: option.split)

lemma lookup_ok_clear: "lookup_ok L \<Longrightarrow> lookup_ok (ClearRegisteredOperations L)"
  by (simp add: lookup_ok_def ClearRegisteredOperations_def module_at_def no_module_def)

lemma lookup_ok_register:
  assumes ok: "lookup_ok L"
  shows "lookup_ok (RegisterOperation i n f m e a d L)"
proof (cases "n = None \<or> m = None \<or> m_bSealed L \<or> m_mapIDToOp L i \<noteq> None")
  case True
  with ok show ?thesis by (auto simp: RegisterOperation_def split: option.split)
next
  case False
  then obtain nm mn where n: "n = Some nm" "m = Some mn" and new: "\<not> m_bSealed L" "m_mapIDToOp L i = None"
    by auto
  from ok new have fresh: "m_mapIDToModuleKind L i = None" "m_mapIDToInterface L i = None"
    by (auto simp: lookup_ok_def)
  from ok new(2) have noname: "m_mapOpToID L k \<noteq> Some i" for k
    by (auto simp: lookup_ok_def)
  from ok fresh(1) have nofile: "m_invokes (module_at (m_loadedModules L) k) i = None"
      "m_events (module_at (m_loadedModules L) k) i = None" for k
    unfolding lookup_ok_def by (metis option.distinct(1))+
  let ?L = "RegisterOperation i n f m e a d L"
  note L = lookup_ok_def RegisterOperation_def n new Let_def module_at_upd
  have "\<forall>j. (m_mapIDToInterface ?L j = None) = (m_mapIDToOp ?L j = None)"
    "\<forall>j. (m_mapIDToModuleKind ?L j = None) = (m_mapIDToOp ?L j = None)"
    using ok by (simp_all add: L)
  moreover have "\<forall>k j. m_mapOpToID ?L k = Some j \<longrightarrow> m_mapIDToOp ?L j = Some k"
    using ok noname by (simp add: L)
  moreover have "\<forall>j k. m_mapIDToOp ?L j = Some k \<longrightarrow> m_mapOpToID ?L k \<noteq> None"
    using ok by (simp add: L)
  moreover have "\<forall>j k. (m_invokes (module_at (m_loadedModules ?L) k) j \<noteq> None)
      = (m_mapIDToModuleKind ?L j = Some (k, False))"
    using ok fresh nofile by (cases e) (simp_all add: L)
  moreover have "\<forall>j k. (m_events (module_at (m_loadedModules ?L) k) j \<noteq> None)
      = (m_mapIDToModuleKind ?L j = Some (k, True))"
    using ok fresh nofile by (cases e) (simp_all add: L)
  ultimately show ?thesis unfolding lookup_ok_def by blast
qed

lemma lookup_ok_call: "lookup_ok L \<Longrightarrow> lookup_ok (lookup_call c L)"
proof (cases c)
  case Seal_It
  assume "lookup_ok L"
  then show ?thesis by (simp add: Seal_It Seal_def lookup_ok_def)
qed (simp_all add: lookup_ok_version lookup_ok_register lookup_ok_clear)

lemma lookup_ok_calls: "lookup_ok L \<Longrightarrow> lookup_ok (fold lookup_call cs L)"
  by (induction cs arbitrary: L) (auto simp: lookup_ok_call)

lemma sealed_call: "m_bSealed L \<Longrightarrow> lookup_call c L = L"
  by (cases c) (auto simp: RegisterModuleVersion_def RegisterOperation_def ClearRegisteredOperations_def
      Seal_def split: option.split)

lemma sealed_calls: "m_bSealed L \<Longrightarrow> fold lookup_call cs L = L"
  by (induction cs) (auto simp: sealed_call)

lemma lookup_name_of_id:
  "lookup_ok L \<Longrightarrow> LookUpID L (Some n) \<noteq> 0 \<Longrightarrow> LookUpName L (LookUpID L (Some n)) = Some n"
  by (auto simp: lookup_ok_def LookUpID_def LookUpName_def split: option.splits)

subsection \<open>Subscriptions of a session\<close>

type_synonym module_map = "int \<rightharpoonup> opid set"

record RoseSessionSubscriptionStore =
  m_subscribedEventsByModule :: module_map
  m_subscribedEventOpIds :: "opid set"
  m_supportedInvokesByModule :: module_map
  m_supportedInvokeOpIds :: "opid set"

definition empty_store :: RoseSessionSubscriptionStore where
  "empty_store = \<lparr>m_subscribedEventsByModule = Map.empty, m_subscribedEventOpIds = {},
     m_supportedInvokesByModule = Map.empty, m_supportedInvokeOpIds = {}\<rparr>"

definition ClearModuleOpIds :: "module_map \<times> opid set \<Rightarrow> int \<Rightarrow> module_map \<times> opid set" where
  "ClearModuleOpIds = (\<lambda>(byModule, flat) moduleIid. case byModule moduleIid of
       None \<Rightarrow> (byModule, flat)
     | Some ops \<Rightarrow> (byModule(moduleIid := None), flat - ops))"

definition ReplaceModuleOpIds ::
    "module_map \<times> opid set \<Rightarrow> int \<Rightarrow> int list \<Rightarrow> module_map \<times> opid set" where
  "ReplaceModuleOpIds s moduleIid opIds =
     (let s' = ClearModuleOpIds s moduleIid
      in if opIds = [] then s'
         else let ops = word_of_int ` set opIds
              in (insert_key moduleIid ops (fst s'), snd s' \<union> ops))"

definition AddModuleOpId :: "module_map \<times> opid set \<Rightarrow> int \<Rightarrow> opid \<Rightarrow> module_map \<times> opid set" where
  "AddModuleOpId = (\<lambda>(byModule, flat) moduleIid uiOpId.
     (byModule(moduleIid \<mapsto> insert uiOpId (case byModule moduleIid of None \<Rightarrow> {} | Some ops \<Rightarrow> ops)),
      insert uiOpId flat))"

definition events_part :: "RoseSessionSubscriptionStore \<Rightarrow> module_map \<times> opid set" where
  "events_part S = (m_subscribedEventsByModule S, m_subscribedEventOpIds S)"

definition invokes_part :: "RoseSessionSubscriptionStore \<Rightarrow> module_map \<times> opid set" where
  "invokes_part S = (m_supportedInvokesByModule S, m_supportedInvokeOpIds S)"

definition set_events :: "RoseSessionSubscriptionStore \<Rightarrow> module_map \<times> opid set \<Rightarrow> RoseSessionSubscriptionStore" where
  "set_events S p = S\<lparr>m_subscribedEventsByModule := fst p, m_subscribedEventOpIds := snd p\<rparr>"

definition set_invokes :: "RoseSessionSubscriptionStore \<Rightarrow> module_map \<times> opid set \<Rightarrow> RoseSessionSubscriptionStore" where
  "set_invokes S p = S\<lparr>m_supportedInvokesByModule := fst p, m_supportedInvokeOpIds := snd p\<rparr>"

definition ClearAllSubscriptions :: "RoseSessionSubscriptionStore \<Rightarrow> RoseSessionSubscriptionStore" where
  "ClearAllSubscriptions S = set_invokes (set_events S (Map.empty, {})) (Map.empty, {})"

definition ClearSubscribedEvents :: "int \<Rightarrow> RoseSessionSubscriptionStore \<Rightarrow> RoseSessionSubscriptionStore" where
  "ClearSubscribedEvents m S = set_events S (ClearModuleOpIds (events_part S) m)"

definition ClearSupportedInvokes :: "int \<Rightarrow> RoseSessionSubscriptionStore \<Rightarrow> RoseSessionSubscriptionStore" where
  "ClearSupportedInvokes m S = set_invokes S (ClearModuleOpIds (invokes_part S) m)"

definition SetSubscribedEvents :: "int \<Rightarrow> int list \<Rightarrow> RoseSessionSubscriptionStore \<Rightarrow> RoseSessionSubscriptionStore" where
  "SetSubscribedEvents m ops S = set_events S (ReplaceModuleOpIds (events_part S) m ops)"

definition AddSubscribedEvent :: "int \<Rightarrow> opid \<Rightarrow> RoseSessionSubscriptionStore \<Rightarrow> RoseSessionSubscriptionStore" where
  "AddSubscribedEvent m op S = set_events S (AddModuleOpId (events_part S) m op)"

definition SetSupportedInvokes :: "int \<Rightarrow> int list \<Rightarrow> RoseSessionSubscriptionStore \<Rightarrow> RoseSessionSubscriptionStore" where
  "SetSupportedInvokes m ops S = set_invokes S (ReplaceModuleOpIds (invokes_part S) m ops)"

definition AddSupportedInvoke :: "int \<Rightarrow> opid \<Rightarrow> RoseSessionSubscriptionStore \<Rightarrow> RoseSessionSubscriptionStore" where
  "AddSupportedInvoke m op S = set_invokes S (AddModuleOpId (invokes_part S) m op)"

definition IsSubscribedEvent :: "RoseSessionSubscriptionStore \<Rightarrow> opid \<Rightarrow> bool" where
  "IsSubscribedEvent S op \<longleftrightarrow> op \<in> m_subscribedEventOpIds S"

definition IsSupportedInvoke :: "RoseSessionSubscriptionStore \<Rightarrow> opid \<Rightarrow> bool" where
  "IsSupportedInvoke S op \<longleftrightarrow> op \<in> m_supportedInvokeOpIds S"

datatype store_op =
    Clear_All | Clear_Events int | Clear_Invokes int
  | Set_Events int "int list" | Add_Event int opid
  | Set_Invokes int "int list" | Add_Invoke int opid

fun store_call :: "store_op \<Rightarrow> RoseSessionSubscriptionStore \<Rightarrow> RoseSessionSubscriptionStore" where
  "store_call Clear_All S = ClearAllSubscriptions S"
| "store_call (Clear_Events m) S = ClearSubscribedEvents m S"
| "store_call (Clear_Invokes m) S = ClearSupportedInvokes m S"
| "store_call (Set_Events m ops) S = SetSubscribedEvents m ops S"
| "store_call (Add_Event m op) S = AddSubscribedEvent m op S"
| "store_call (Set_Invokes m ops) S = SetSupportedInvokes m ops S"
| "store_call (Add_Invoke m op) S = AddSupportedInvoke m op S"

text \<open>
  The contract is the relation between modules and operations: what a module last set, with what
  was added since.  A store that keeps one flat set beside it answers for this relation only when
  an operation has one module, because the flat set is not counted.
\<close>

type_synonym subs = "int \<Rightarrow> opid set"

fun spec_events :: "store_op \<Rightarrow> subs \<Rightarrow> subs" where
  "spec_events Clear_All R = (\<lambda>_. {})"
| "spec_events (Clear_Events m) R = R(m := {})"
| "spec_events (Set_Events m ops) R = R(m := word_of_int ` set ops)"
| "spec_events (Add_Event m op) R = R(m := insert op (R m))"
| "spec_events _ R = R"

fun spec_invokes :: "store_op \<Rightarrow> subs \<Rightarrow> subs" where
  "spec_invokes Clear_All R = (\<lambda>_. {})"
| "spec_invokes (Clear_Invokes m) R = R(m := {})"
| "spec_invokes (Set_Invokes m ops) R = R(m := word_of_int ` set ops)"
| "spec_invokes (Add_Invoke m op) R = R(m := insert op (R m))"
| "spec_invokes _ R = R"

fun names_ops :: "store_op \<Rightarrow> (int \<times> opid) set" where
  "names_ops (Set_Events m ops) = (\<lambda>i. (m, word_of_int i)) ` set ops"
| "names_ops (Add_Event m op) = {(m, op)}"
| "names_ops (Set_Invokes m ops) = (\<lambda>i. (m, word_of_int i)) ` set ops"
| "names_ops (Add_Invoke m op) = {(m, op)}"
| "names_ops _ = {}"

text \<open>One half of the store against one half of the relation, every operation in its owner's module.\<close>

definition ops_of :: "module_map \<Rightarrow> int \<Rightarrow> opid set" where
  "ops_of M m = (case M m of None \<Rightarrow> {} | Some ops \<Rightarrow> ops)"

definition half_ok :: "(opid \<Rightarrow> int) \<Rightarrow> module_map \<times> opid set \<Rightarrow> subs \<Rightarrow> bool" where
  "half_ok owner p R \<longleftrightarrow>
     ops_of (fst p) = R \<and> snd p = (\<Union>m. R m) \<and> (\<forall>m. \<forall>op \<in> R m. owner op = m)"

lemma half_ok_empty: "half_ok owner (Map.empty, {}) (\<lambda>_. {})"
  by (simp add: half_ok_def ops_of_def fun_eq_iff)

lemma ClearModuleOpIds_ops:
  "ops_of (fst (ClearModuleOpIds p m)) = (ops_of (fst p))(m := {})"
  "snd (ClearModuleOpIds p m) = snd p - ops_of (fst p) m"
  "fst (ClearModuleOpIds p m) m = None"
  by (auto simp: ClearModuleOpIds_def ops_of_def fun_eq_iff split: prod.split option.split)

lemma AddModuleOpId_ops:
  "ops_of (fst (AddModuleOpId p m op)) = (ops_of (fst p))(m := insert op (ops_of (fst p) m))"
  "snd (AddModuleOpId p m op) = insert op (snd p)"
  by (auto simp: AddModuleOpId_def ops_of_def fun_eq_iff split: prod.split)

lemma ReplaceModuleOpIds_ops:
  "ops_of (fst (ReplaceModuleOpIds p m ids)) = (ops_of (fst p))(m := word_of_int ` set ids)"
  "snd (ReplaceModuleOpIds p m ids) = (snd p - ops_of (fst p) m) \<union> word_of_int ` set ids"
  using ClearModuleOpIds_ops [of p m]
  by (simp_all add: ReplaceModuleOpIds_def Let_def insert_key_def ops_of_def fun_eq_iff)

lemma half_ok_rest:
  assumes "half_ok owner p R"
  shows "snd p - ops_of (fst p) m = (\<Union>k. (R(m := {})) k)"
proof -
  from assms have one: "a = b" if "x \<in> R a" "x \<in> R b" for x a b
    using that unfolding half_ok_def by metis
  from assms have eq: "snd p = (\<Union>m. R m)" "ops_of (fst p) = R"
    by (auto simp: half_ok_def)
  show ?thesis unfolding eq by (auto split: if_splits dest: one)
qed

lemma half_ok_clear: "half_ok owner p R \<Longrightarrow> half_ok owner (ClearModuleOpIds p m) (R(m := {}))"
  using half_ok_rest [of owner p R m] by (simp add: half_ok_def ClearModuleOpIds_ops)

lemma half_ok_replace:
  assumes "half_ok owner p R" and "\<forall>i \<in> set ids. owner (word_of_int i) = m"
  shows "half_ok owner (ReplaceModuleOpIds p m ids) (R(m := word_of_int ` set ids))"
  using assms half_ok_rest [OF assms(1), of m]
  by (auto simp: half_ok_def ReplaceModuleOpIds_ops split: if_splits)

lemma union_add:
  fixes R :: "'k \<Rightarrow> 'v set"
  shows "(\<Union>k. (R(m := insert x (R m))) k) = insert x (\<Union>k. R k)"
proof -
  have "(\<Union>k. R k) = R m \<union> (\<Union>k \<in> - {m}. R k)" for R :: "'k \<Rightarrow> 'v set"
    by auto
  from this [of R] this [of "R(m := insert x (R m))"] show ?thesis by simp
qed

lemma half_ok_add:
  "half_ok owner p R \<Longrightarrow> owner op = m \<Longrightarrow> half_ok owner (AddModuleOpId p m op) (R(m := insert op (R m)))"
  unfolding half_ok_def AddModuleOpId_ops union_add by (auto split: if_splits)

lemmas store_defs = ClearAllSubscriptions_def ClearSubscribedEvents_def ClearSupportedInvokes_def
  SetSubscribedEvents_def AddSubscribedEvent_def SetSupportedInvokes_def AddSupportedInvoke_def
  set_events_def set_invokes_def events_part_def invokes_part_def

lemma store_call_ok:
  assumes "half_ok owner (events_part S) E" and "half_ok owner (invokes_part S) I"
    and "\<forall>(m, op) \<in> names_ops c. owner op = m"
  shows "half_ok owner (events_part (store_call c S)) (spec_events c E) \<and>
    half_ok owner (invokes_part (store_call c S)) (spec_invokes c I)"
  using assms
  by (cases c) (simp_all add: store_defs half_ok_empty half_ok_clear half_ok_replace half_ok_add)

lemma store_calls_ok:
  assumes "half_ok owner (events_part S) E" and "half_ok owner (invokes_part S) I"
    and "\<forall>c \<in> set cs. \<forall>(m, op) \<in> names_ops c. owner op = m"
  shows "half_ok owner (events_part (fold store_call cs S)) (fold spec_events cs E) \<and>
    half_ok owner (invokes_part (fold store_call cs S)) (fold spec_invokes cs I)"
  using assms
proof (induction cs arbitrary: S E I)
  case (Cons c cs)
  then have "half_ok owner (events_part (store_call c S)) (spec_events c E)"
      "half_ok owner (invokes_part (store_call c S)) (spec_invokes c I)"
    using store_call_ok [of owner S E I c] by simp_all
  with Cons.prems(3) show ?case by (simp add: Cons.IH)
qed simp

subsection \<open>What the peer offers\<close>

fun ApplyOpIds :: "int list \<Rightarrow> (opid \<rightharpoonup> SnaccOpVersionInfo) \<Rightarrow> (opid \<rightharpoonup> SnaccOpVersionInfo)" where
  "ApplyOpIds [] m = m"
| "ApplyOpIds (i # ids) m =
     ApplyOpIds ids (if (word_of_int i :: opid) = 0 then m
                     else insert_key (word_of_int i) \<lparr>m_ullAddedUnix = 0, m_ullDeprecatedUnix = 0\<rparr> m)"

definition SnaccApplyModuleDetailToRemoteCapabilities ::
    "string option \<Rightarrow> string option \<Rightarrow> int list option \<Rightarrow> int list option
     \<Rightarrow> SnaccLoadedModuleMap \<Rightarrow> SnaccLoadedModuleMap" where
  "SnaccApplyModuleDetailToRemoteCapabilities szModuleName szVersion invokeOpIds eventOpIds M =
     (case (szModuleName, szVersion) of
        (Some n, Some v) \<Rightarrow>
          let m = (module_at M n)\<lparr>m_strModuleName := n, m_strVersion := v\<rparr>;
              m = m\<lparr>m_invokes := ApplyOpIds (case invokeOpIds of None \<Rightarrow> [] | Some l \<Rightarrow> l) (m_invokes m)\<rparr>;
              m = m\<lparr>m_events := ApplyOpIds (case eventOpIds of None \<Rightarrow> [] | Some l \<Rightarrow> l) (m_events m)\<rparr>
          in M(n \<mapsto> m)
      | _ \<Rightarrow> M)"

type_synonym module_detail = "string option \<times> string option \<times> int list option \<times> int list option"

definition SnaccBuildRemoteModuleCapabilities :: "module_detail list \<Rightarrow> SnaccLoadedModuleMap" where
  "SnaccBuildRemoteModuleCapabilities ds =
     fold (\<lambda>(n, v, iv, ev). SnaccApplyModuleDetailToRemoteCapabilities n v iv ev) ds Map.empty"

lemma dom_ApplyOpIds: "dom (ApplyOpIds ids m) = dom m \<union> {i \<in> word_of_int ` set ids. i \<noteq> 0}"
  by (induction ids arbitrary: m) (auto simp: insert_key_def dom_def split: option.splits)

text \<open>An invoke is offered when some detail of the operation's module lists it; 0 is no operation.\<close>

definition detail_offers :: "string \<Rightarrow> opid \<Rightarrow> module_detail \<Rightarrow> bool" where
  "detail_offers mn op = (\<lambda>(n, v, iv, ev). n = Some mn \<and> v \<noteq> None \<and>
     (case iv of None \<Rightarrow> False | Some l \<Rightarrow> op \<in> word_of_int ` set l))"

lemma apply_detail_offers:
  "m_invokes (module_at (SnaccApplyModuleDetailToRemoteCapabilities n v iv ev M) mn) op \<noteq> None \<longleftrightarrow>
     m_invokes (module_at M mn) op \<noteq> None \<or> op \<noteq> 0 \<and> detail_offers mn op (n, v, iv, ev)"
proof -
  have "ApplyOpIds ids m op \<noteq> None \<longleftrightarrow> m op \<noteq> None \<or> op \<noteq> 0 \<and> op \<in> word_of_int ` set ids" for ids m
    using dom_ApplyOpIds [of ids m] by (auto simp: set_eq_iff dom_def)
  then show ?thesis
    by (auto simp: SnaccApplyModuleDetailToRemoteCapabilities_def detail_offers_def module_at_upd Let_def
        split: option.splits)
qed

lemma build_offers:
  "m_invokes (module_at (SnaccBuildRemoteModuleCapabilities ds) mn) op \<noteq> None \<longleftrightarrow>
     op \<noteq> 0 \<and> (\<exists>d \<in> set ds. detail_offers mn op d)"
proof -
  have "m_invokes (module_at (fold (\<lambda>(n, v, iv, ev). SnaccApplyModuleDetailToRemoteCapabilities n v iv ev) ds M) mn) op
      \<noteq> None \<longleftrightarrow> m_invokes (module_at M mn) op \<noteq> None \<or> op \<noteq> 0 \<and> (\<exists>d \<in> set ds. detail_offers mn op d)" for M
    by (induction ds arbitrary: M) (auto simp only: fold.simps o_apply id_apply list.set prod.case apply_detail_offers
        bex_simps split: prod.splits)
  then show ?thesis
    by (simp add: SnaccBuildRemoteModuleCapabilities_def module_at_def no_module_def)
qed

subsection \<open>What may be sent\<close>

datatype SnaccOperationBlockPolicy = NeverBlock | BlockUnsupportedOperations

record SnaccSender =
  m_operationBlockPolicy :: SnaccOperationBlockPolicy
  m_operationLookup :: SnaccRoseOperationLookup
  m_bRemoteModuleCapabilitiesSet :: bool
  m_remoteModuleCapabilities :: SnaccLoadedModuleMap

definition SetRemoteModuleCapabilities :: "SnaccLoadedModuleMap \<Rightarrow> SnaccSender \<Rightarrow> SnaccSender" where
  "SetRemoteModuleCapabilities remote B =
     B\<lparr>m_remoteModuleCapabilities := remote, m_bRemoteModuleCapabilitiesSet := True\<rparr>"

definition ClearRemoteModuleCapabilities :: "SnaccSender \<Rightarrow> SnaccSender" where
  "ClearRemoteModuleCapabilities B =
     B\<lparr>m_remoteModuleCapabilities := Map.empty, m_bRemoteModuleCapabilitiesSet := False\<rparr>"

definition InternalIsRemoteOperationSupported :: "SnaccSender \<Rightarrow> opid \<Rightarrow> bool" where
  "InternalIsRemoteOperationSupported B uiOpId =
     (case LookUpModuleName (m_operationLookup B) uiOpId of None \<Rightarrow> False
      | Some szModuleName \<Rightarrow>
          (case m_remoteModuleCapabilities B szModuleName of None \<Rightarrow> False
           | Some m \<Rightarrow> m_invokes m uiOpId \<noteq> None))"

text \<open>\<open>subscribed\<close> and \<open>supported\<close> are the virtual functions that a sender overrides.\<close>

definition IsOperationBlocked ::
    "(opid \<Rightarrow> bool) \<Rightarrow> (opid \<Rightarrow> bool) \<Rightarrow> SnaccSender \<Rightarrow> opid \<Rightarrow> bool \<Rightarrow> bool" where
  "IsOperationBlocked subscribed supported B uiOpId bIsEvent =
     (if m_operationBlockPolicy B \<noteq> BlockUnsupportedOperations then False
      else if bIsEvent then \<not> subscribed uiOpId
      else if \<not> supported uiOpId then True
      else m_bRemoteModuleCapabilitiesSet B \<and> \<not> InternalIsRemoteOperationSupported B uiOpId)"

lemma remote_supported_iff:
  "InternalIsRemoteOperationSupported
       (SetRemoteModuleCapabilities (SnaccBuildRemoteModuleCapabilities ds) B) op \<longleftrightarrow>
     op \<noteq> 0 \<and> (\<exists>mn. LookUpModuleName (m_operationLookup B) op = Some mn \<and>
       (\<exists>d \<in> set ds. detail_offers mn op d))"
proof -
  have "(case SnaccBuildRemoteModuleCapabilities ds mn of None \<Rightarrow> False | Some m \<Rightarrow> m_invokes m op \<noteq> None)
      \<longleftrightarrow> op \<noteq> 0 \<and> (\<exists>d \<in> set ds. detail_offers mn op d)" for mn
    using build_offers [of ds mn op]
    by (cases "SnaccBuildRemoteModuleCapabilities ds mn") (simp_all add: module_at_def no_module_def)
  then show ?thesis
    by (simp add: InternalIsRemoteOperationSupported_def SetRemoteModuleCapabilities_def split: option.split)
qed

subsection \<open>Module versions\<close>

record SnaccModuleVersion =
  v_strModuleName :: string
  m_iMajorVersion :: int
  m_llPatchVersion :: int

text \<open>A \<open>std::map\<close> that is iterated is the list of its entries in the order of the keys.\<close>

fun map_emplace :: "'k::linorder \<Rightarrow> 'v \<Rightarrow> ('k \<times> 'v) list \<Rightarrow> ('k \<times> 'v) list" where
  "map_emplace k v [] = [(k, v)]"
| "map_emplace k v ((k', v') # kvs) =
     (if k < k' then (k, v) # (k', v') # kvs
      else if k = k' then (k', v') # kvs
      else (k', v') # map_emplace k v kvs)"

lemma map_of_map_emplace:
  "sorted (map fst kvs) \<Longrightarrow> map_of (map_emplace k v kvs) = insert_key k v (map_of kvs)"
proof (induction kvs)
  case (Cons p kvs)
  have "k \<notin> fst ` set (p # kvs)" if "k < fst p"
    using that Cons.prems by auto
  then have "k < fst p \<Longrightarrow> map_of (p # kvs) k = None"
    by (simp only: map_of_eq_None_iff not_False_eq_True)
  with Cons show ?case
    by (cases p) (auto simp: insert_key_def fun_upd_twist split: option.splits)
qed (simp add: insert_key_def)

lemma set_map_emplace: "fst ` set (map_emplace k v kvs) = insert k (fst ` set kvs)"
proof (induction kvs)
  case (Cons p kvs)
  then show ?case by (cases p) (simp add: insert_commute)
qed simp

lemma sorted_map_emplace:
  "sorted_wrt (<) (map fst kvs) \<Longrightarrow> sorted_wrt (<) (map fst (map_emplace k v kvs))"
proof (induction kvs)
  case (Cons p kvs)
  then have "\<forall>k' \<in> fst ` set (map_emplace k v kvs). fst p < k'" if "fst p < k"
    unfolding set_map_emplace using that by auto
  with Cons show ?case by (cases p) auto
qed simp

type_synonym module_versions = "(string \<times> SnaccModuleVersion) list"

definition addModuleVersion :: "string \<Rightarrow> int \<Rightarrow> int \<Rightarrow> module_versions \<Rightarrow> bool \<times> module_versions" where
  "addModuleVersion n major patch V =
     (if map_of V n \<noteq> None then (False, V)
      else (True, map_emplace n \<lparr>v_strModuleName = n, m_iMajorVersion = major, m_llPatchVersion = patch\<rparr> V))"

definition getModuleVersion :: "string \<Rightarrow> module_versions \<Rightarrow> SnaccModuleVersion \<Rightarrow> bool \<times> SnaccModuleVersion" where
  "getModuleVersion n V version = (case map_of V n of None \<Rightarrow> (False, version) | Some v \<Rightarrow> (True, v))"

fun highest_loop :: "module_versions \<Rightarrow> int \<Rightarrow> int \<Rightarrow> SnaccModuleVersion \<Rightarrow> int \<times> int \<times> SnaccModuleVersion" where
  "highest_loop [] iMajor llPatch version = (iMajor, llPatch, version)"
| "highest_loop ((n, v) # V) iMajor llPatch version =
     (if m_iMajorVersion v > iMajor then highest_loop V (m_iMajorVersion v) (m_llPatchVersion v) v
      else if m_iMajorVersion v = iMajor \<and> m_llPatchVersion v > llPatch
           then highest_loop V (m_iMajorVersion v) (m_llPatchVersion v) v
           else highest_loop V iMajor llPatch version)"

definition getHighestModuleVersion :: "module_versions \<Rightarrow> SnaccModuleVersion \<Rightarrow> bool \<times> SnaccModuleVersion" where
  "getHighestModuleVersion V version =
     (case highest_loop V (- 1) (- 1) version of (iMajor, _, v) \<Rightarrow> (iMajor \<noteq> - 1, v))"

definition version_le :: "int \<times> int \<Rightarrow> int \<times> int \<Rightarrow> bool" where
  "version_le a b \<longleftrightarrow> fst a < fst b \<or> fst a = fst b \<and> snd a \<le> snd b"

definition version_of :: "SnaccModuleVersion \<Rightarrow> int \<times> int" where
  "version_of v = (m_iMajorVersion v, m_llPatchVersion v)"

lemma highest_loop_max:
  assumes "highest_loop V ma pa v0 = (ma', pa', v)"
  shows "version_le (ma, pa) (ma', pa') \<and> (\<forall>w \<in> snd ` set V. version_le (version_of w) (ma', pa')) \<and>
    ((ma', pa') = (ma, pa) \<and> v = v0 \<or> v \<in> snd ` set V \<and> version_of v = (ma', pa'))"
  using assms
proof (induction V ma pa v0 rule: highest_loop.induct)
  case (2 n w V ma pa v0)
  then show ?case
    by (auto simp: version_le_def version_of_def split: if_splits)
qed (auto simp: version_le_def)

lemma getHighestModuleVersion_max:
  assumes "getHighestModuleVersion V v0 = (b, v)" and "\<forall>w \<in> snd ` set V. 0 \<le> m_iMajorVersion w"
  shows "b = (V \<noteq> []) \<and> (V \<noteq> [] \<longrightarrow> v \<in> snd ` set V \<and>
    (\<forall>w \<in> snd ` set V. version_le (version_of w) (version_of v)))"
proof -
  obtain ma pa where l: "highest_loop V (- 1) (- 1) v0 = (ma, pa, v)" and b: "b = (ma \<noteq> - 1)"
    using assms(1) by (auto simp: getHighestModuleVersion_def split: prod.splits)
  note m = highest_loop_max [OF l]
  show ?thesis
  proof (cases V)
    case (Cons p V')
    then have "snd p \<in> snd ` set V" by simp
    with m assms(2) have "version_le (version_of (snd p)) (ma, pa)" "0 \<le> m_iMajorVersion (snd p)"
      by blast+
    then have "ma \<noteq> - 1" by (auto simp: version_le_def version_of_def)
    with m b Cons show ?thesis by auto
  qed (use l b in simp)
qed

end
