(* ===== verification/Rose_Msg.thy ===== *)
theory Rose_Msg
  imports Rose_Store Asn_Oid
begin

section \<open>ROSE messages of a stub (\<open>cpp-lib/src/SnaccROSEBase.cpp\<close>)\<close>

text \<open>
  What a stub decides about one message: the timeout it writes, the reject it answers with and how
  it reads the reject it gets, the JSON frame, the encoding of a connection, and how an inbound
  invoke ends in an answer and in a telemetry record.  \<open>long\<close> is \<open>int\<close>.  The generated codecs of
  the ROSE types and the handler of the application are arguments; an exception is \<open>Inl\<close> or
  \<open>None\<close>.  Logging is not modelled.
\<close>

subsection \<open>Result codes\<close>

definition ROSE_NOERROR :: int where "ROSE_NOERROR = 0"
definition ROSE_TE_TRANSPORTFAILED :: int where "ROSE_TE_TRANSPORTFAILED = 0x1"
definition ROSE_TE_SHUTDOWN :: int where "ROSE_TE_SHUTDOWN = 0x2"
definition ROSE_TE_TIMEOUT :: int where "ROSE_TE_TIMEOUT = 0x3"
definition ROSE_TE_ENCODE_FAILED :: int where "ROSE_TE_ENCODE_FAILED = 0x4"
definition ROSE_RE_INVALID_ANSWER :: int where "ROSE_RE_INVALID_ANSWER = 0x10"
definition ROSE_RE_DECODE_FAILED :: int where "ROSE_RE_DECODE_FAILED = 0x20"
definition ROSE_REJECT_UNKNOWNOPERATION :: int where "ROSE_REJECT_UNKNOWNOPERATION = 0x100"
definition ROSE_REJECT_MISTYPEDARGUMENT :: int where "ROSE_REJECT_MISTYPEDARGUMENT = 0x200"
definition ROSE_REJECT_FUNCTIONMISSING :: int where "ROSE_REJECT_FUNCTIONMISSING = 0x300"
definition ROSE_REJECT_UNKNOWN :: int where "ROSE_REJECT_UNKNOWN = 0x400"
definition ROSE_REJECT_INVALIDSESSIONID :: int where "ROSE_REJECT_INVALIDSESSIONID = 0x500"
definition ROSE_REJECT_STARTSSLREQUIRED :: int where "ROSE_REJECT_STARTSSLREQUIRED = 0x600"
definition ROSE_REJECT_AUTHENTICATIONINCOMPLETE :: int where "ROSE_REJECT_AUTHENTICATIONINCOMPLETE = 0x700"
definition ROSE_REJECT_AUTHENTICATIONFAILED :: int where "ROSE_REJECT_AUTHENTICATIONFAILED = 0x800"
definition ROSE_REJECT_AUTHENTICATION_SERVER_BUSY :: int where
  "ROSE_REJECT_AUTHENTICATION_SERVER_BUSY = 0xA00"
definition ROSE_REJECT_AUTHENTICATION_USER_TEMPORARY_LOCKED_OUT :: int where
  "ROSE_REJECT_AUTHENTICATION_USER_TEMPORARY_LOCKED_OUT = 0xB00"
definition ROSE_REJECT_AUTHENTICATION_USER_LOCKED_OUT :: int where
  "ROSE_REJECT_AUTHENTICATION_USER_LOCKED_OUT = 0xC00"
definition ROSE_REJECT_ARGUMENT_MISSING :: int where "ROSE_REJECT_ARGUMENT_MISSING = 0xD00"
definition ROSE_REJECT_REMOTENOTCAPABLE :: int where "ROSE_REJECT_REMOTENOTCAPABLE = 0xE00"
definition ROSE_REJECT_QUEUE_FULL :: int where "ROSE_REJECT_QUEUE_FULL = 0xF00"
definition ROSE_ERROR_VALUE :: int where "ROSE_ERROR_VALUE = 0x1000"

lemmas rose_codes = ROSE_NOERROR_def ROSE_TE_TRANSPORTFAILED_def ROSE_TE_SHUTDOWN_def
  ROSE_TE_TIMEOUT_def ROSE_TE_ENCODE_FAILED_def ROSE_RE_INVALID_ANSWER_def ROSE_RE_DECODE_FAILED_def
  ROSE_REJECT_UNKNOWNOPERATION_def ROSE_REJECT_MISTYPEDARGUMENT_def ROSE_REJECT_FUNCTIONMISSING_def
  ROSE_REJECT_UNKNOWN_def ROSE_REJECT_INVALIDSESSIONID_def ROSE_REJECT_STARTSSLREQUIRED_def
  ROSE_REJECT_AUTHENTICATIONINCOMPLETE_def ROSE_REJECT_AUTHENTICATIONFAILED_def
  ROSE_REJECT_AUTHENTICATION_SERVER_BUSY_def
  ROSE_REJECT_AUTHENTICATION_USER_TEMPORARY_LOCKED_OUT_def
  ROSE_REJECT_AUTHENTICATION_USER_LOCKED_OUT_def ROSE_REJECT_ARGUMENT_MISSING_def
  ROSE_REJECT_REMOTENOTCAPABLE_def ROSE_REJECT_QUEUE_FULL_def ROSE_ERROR_VALUE_def

definition ISROSE_TE :: "int \<Rightarrow> bool" where
  "ISROSE_TE num \<longleftrightarrow> num mod 16 \<noteq> 0"

datatype TransportEncoding = UNKNOWN | BER | JSON | JSON_NO_HEADING

text \<open>The invoke id that marks an event.\<close>

definition event_id :: int where "event_id = 99999"

subsection \<open>Messages\<close>

datatype InvokeProblem = duplicateInvocation | unrecognisedOperation | mistypedArgument
  | resourceLimitation | initiatorReleasing | unrecognisedLinkedID | linkedResponseUnexpected
  | unexpectedChildOperation | invalidSessionID | authenticationIncomplete | authenticationFailed

primrec problem_value :: "InvokeProblem \<Rightarrow> int" where
  "problem_value duplicateInvocation = 0"
| "problem_value unrecognisedOperation = 1"
| "problem_value mistypedArgument = 2"
| "problem_value resourceLimitation = 3"
| "problem_value initiatorReleasing = 4"
| "problem_value unrecognisedLinkedID = 5"
| "problem_value linkedResponseUnexpected = 6"
| "problem_value unexpectedChildOperation = 7"
| "problem_value invalidSessionID = 8"
| "problem_value authenticationIncomplete = 9"
| "problem_value authenticationFailed = 10"

text \<open>A choice holds a pointer; \<open>None\<close> is the null pointer.\<close>

datatype RejectProblem = generalProblem "int option" | invokeProblem "int option"
  | returnResultProblem "int option" | returnErrorProblem "int option"

datatype ROSERejectChoice = invokedID_choice "int option" | invokednull

record 'a ROSEReject =
  rj_sessionID :: "string option"
  rj_invokedID :: ROSERejectChoice
  rj_reject :: "RejectProblem option"
  rj_details :: "string option"
  rj_authentication :: "'a option"

text \<open>A value of a message before it is decoded: BER bytes, a JSON tree, or neither.\<close>

datatype 'j AsnAnyValue = anyBuf "byte list" | jsonBuf 'j | no_buf

record 'j ROSEInvoke =
  iv_sessionID :: "string option"
  iv_invokeID :: int
  iv_operationID :: opid
  iv_operationName :: "string option"
  iv_timeout :: "int option"
  iv_argument :: "'j AsnAnyValue option"

record 'j ROSEResult =
  rs_invokeID :: int
  rs_result :: "'j AsnAnyValue option"

record 'j ROSEError =
  er_invokedID :: int
  er_error :: "'j AsnAnyValue option"

datatype ('j, 'a) ROSEMessage = notinitialized | invoke_msg "'j ROSEInvoke"
  | result_msg "'j ROSEResult" | error_msg "'j ROSEError" | reject_msg "'a ROSEReject"

text \<open>The part of \<open>SnaccInvokeContext\<close> that the stub reads and writes.\<close>

record 'a SnaccInvokeContext =
  m_pRejectAuth :: "'a option"
  m_lRejectResult :: int
  m_bResponseIsError :: bool
  m_invokeTimeout :: "32 word option"

subsection \<open>Invoke ids and timeouts\<close>

definition GetNextInvokeID :: "int \<Rightarrow> int \<times> int" where
  "GetNextInvokeID m_lInvokeCounter =
     (let c = m_lInvokeCounter + 1; c = (if c \<ge> 99998 then 1 else c) in (c, c))"

fun next_ids :: "nat \<Rightarrow> int \<Rightarrow> int list" where
  "next_ids 0 c = []"
| "next_ids (Suc n) c = (let (i, c') = GetNextInvokeID c in i # next_ids n c')"

definition ResolveInvokeTimeoutMs :: "'a SnaccInvokeContext \<Rightarrow> int \<Rightarrow> int" where
  "ResolveInvokeTimeoutMs ctx lMaxInvokeWait =
     (case m_invokeTimeout ctx of
        None \<Rightarrow> sint (word_of_int lMaxInvokeWait :: 32 word)
      | Some t \<Rightarrow> sint t)"

definition ShouldEncodeWireInvokeTimeout ::
    "'a SnaccInvokeContext \<Rightarrow> 'j ROSEInvoke \<Rightarrow> TransportEncoding \<Rightarrow> bool \<Rightarrow> bool" where
  "ShouldEncodeWireInvokeTimeout ctx invoke encoding bSendTimeoutInInvokes =
     (if iv_invokeID invoke = event_id then False
      else if m_invokeTimeout ctx = None then False
      else if encoding = JSON \<or> encoding = JSON_NO_HEADING then True
      else if encoding = BER then bSendTimeoutInInvokes
      else False)"

definition PrepareOutboundInvokeTimeout ::
    "'a SnaccInvokeContext \<Rightarrow> 'j ROSEInvoke \<Rightarrow> int \<Rightarrow> 'a SnaccInvokeContext" where
  "PrepareOutboundInvokeTimeout ctx invoke lMaxInvokeWait =
     (if iv_invokeID invoke = event_id then ctx
      else if m_invokeTimeout ctx \<noteq> None then ctx
      else if lMaxInvokeWait \<le> 0 then ctx
      else ctx\<lparr>m_invokeTimeout := Some (word_of_int lMaxInvokeWait)\<rparr>)"

definition ScopedInvokeWireTimeout ::
    "'j ROSEInvoke \<Rightarrow> 'a SnaccInvokeContext \<Rightarrow> TransportEncoding \<Rightarrow> bool \<Rightarrow> 'j ROSEInvoke" where
  "ScopedInvokeWireTimeout invoke ctx encoding bSendTimeoutInInvokes =
     (case m_invokeTimeout ctx of
        Some t \<Rightarrow> if \<not> ShouldEncodeWireInvokeTimeout ctx invoke encoding bSendTimeoutInInvokes \<or>
                     iv_timeout invoke \<noteq> None then invoke
                  else invoke\<lparr>iv_timeout := Some (sint t)\<rparr>
      | None \<Rightarrow> invoke)"

text \<open>The invoke that \<open>Send\<close> gives to the encoder.\<close>

definition sent_invoke ::
    "'j ROSEInvoke \<Rightarrow> 'a SnaccInvokeContext \<Rightarrow> int \<Rightarrow> TransportEncoding \<Rightarrow> bool \<Rightarrow> 'j ROSEInvoke" where
  "sent_invoke invoke ctx lMaxInvokeWait encoding bSendTimeoutInInvokes =
     ScopedInvokeWireTimeout invoke (PrepareOutboundInvokeTimeout ctx invoke lMaxInvokeWait)
       encoding bSendTimeoutInInvokes"

lemma sent_timeout:
  assumes "iv_timeout invoke = None"
  shows "iv_timeout (sent_invoke invoke ctx wait encoding ber_flag) =
    (if iv_invokeID invoke \<noteq> event_id \<and> (m_invokeTimeout ctx \<noteq> None \<or> 0 < wait) \<and>
        (encoding = JSON \<or> encoding = JSON_NO_HEADING \<or> encoding = BER \<and> ber_flag)
     then Some (ResolveInvokeTimeoutMs ctx wait) else None)"
  using assms
  by (auto simp: sent_invoke_def ScopedInvokeWireTimeout_def ShouldEncodeWireInvokeTimeout_def
      PrepareOutboundInvokeTimeout_def ResolveInvokeTimeoutMs_def split: option.split)

lemma GetNextInvokeID_cycle:
  assumes "0 \<le> c" and "c < 99998"
  shows "fst (GetNextInvokeID c) = 1 + c mod 99997 \<and> snd (GetNextInvokeID c) = 1 + c mod 99997"
proof (cases "c < 99997")
  case True
  with assms show ?thesis by (simp add: GetNextInvokeID_def Let_def)
next
  case False
  with assms have "c = 99997" by simp
  then show ?thesis by (simp add: GetNextInvokeID_def)
qed

lemma next_ids_nth:
  "0 \<le> c \<Longrightarrow> c < 99998 \<Longrightarrow> k < n \<Longrightarrow> next_ids n c ! k = 1 + (c + int k) mod 99997"
proof (induction n arbitrary: c k)
  case (Suc n)
  define c' where "c' = 1 + c mod 99997"
  have g: "GetNextInvokeID c = (c', c')"
    using GetNextInvokeID_cycle [OF Suc.prems(1,2)] by (simp add: c'_def prod_eq_iff)
  have c': "0 \<le> c'" "c' < 99998" by (simp_all add: c'_def pos_mod_bound less_trans)
  show ?case
  proof (cases k)
    case (Suc j)
    have "(c' + int j) mod 99997 = (c + int k) mod 99997"
      using mod_add_left_eq [of c 99997 "1 + int j"] by (simp add: Suc c'_def algebra_simps)
    with Suc.IH [OF c', of j] Suc.prems(3) show ?thesis by (simp add: Suc g)
  qed (simp add: g c'_def)
qed simp

lemma length_next_ids: "length (next_ids n c) = n"
  by (induction n arbitrary: c) (simp_all add: split_beta Let_def)

subsection \<open>The JSON frame\<close>

definition char_value :: "char \<Rightarrow> nat" where
  "char_value c = of_char c"

definition is_digit :: "char \<Rightarrow> bool" where
  "is_digit c \<longleftrightarrow> 48 \<le> char_value c \<and> char_value c \<le> 57"

text \<open>The prefix, or \<open>None\<close> for \<open>ROSE_TE_ENCODE_FAILED\<close>.\<close>

definition GetJsonLengthPrefix :: "string \<Rightarrow> string option" where
  "GetJsonLengthPrefix strJson =
     (if length strJson > 9999999 then None
      else let ds = dec (length strJson) in Some (CHR ''J'' # replicate (7 - length ds) (CHR ''0'') @ ds))"

text \<open>
  Reading the frame.  \<open>mem\<close> is what may be read from \<open>lpBytes\<close> on; a read behind it is \<open>None\<close>.
\<close>

function header_loop :: "string \<Rightarrow> nat \<Rightarrow> nat \<Rightarrow> nat \<Rightarrow> nat option" where
  "header_loop mem iLength i iLen =
     (if i < 10 then
        (if iLength \<ge> iLen then
           (if length mem \<le> i then None
            else if is_digit (mem ! i) then header_loop mem iLength (i + 1) (iLen + 1)
            else Some iLen)
         else Some iLen)
      else Some iLen)"
  by pat_completeness auto
termination
  by (relation "measure (\<lambda>(mem, iLength, i, iLen). 10 - i)") auto

declare header_loop.simps [simp del]

definition GetJsonHeaderLen :: "string \<Rightarrow> nat \<Rightarrow> nat option" where
  "GetJsonHeaderLen mem iLength =
     (case mem of [] \<Rightarrow> None
      | c # _ \<Rightarrow> if c = CHR ''J'' then header_loop mem iLength 1 1 else Some 0)"

definition DetectEncoding :: "string \<Rightarrow> TransportEncoding" where
  "DetectEncoding bytes =
     (case bytes of [] \<Rightarrow> UNKNOWN
      | c # _ \<Rightarrow>
          (let byFirst = char_value c
           in if byFirst = 0xA1 \<or> byFirst = 0xA2 \<or> byFirst = 0xA3 \<or> byFirst = 0xA4 then BER
              else if c = CHR ''J'' then JSON
              else if c = CHR ''J'' \<or> c = CHR ''{'' \<or> c = CHR ''['' then JSON_NO_HEADING
              else UNKNOWN))"

text \<open>The digits after the \<open>J\<close>, at most nine, decide.\<close>

lemma header_loop_digits:
  assumes "i \<le> 10" and "i \<le> length mem" and "\<forall>k. i \<le> k \<and> k < j \<longrightarrow> is_digit (mem ! k)"
    and "i \<le> j" and "j \<le> 10" and "j \<le> length mem" and "j \<le> iLength"
  shows "header_loop mem iLength i i = header_loop mem iLength j j"
  using assms
proof (induction "j - i" arbitrary: i)
  case (Suc n)
  from Suc.hyps(2) have ij: "i < j" by simp
  with Suc.prems have "is_digit (mem ! i)" "i < 10" "i < length mem" "i \<le> iLength"
    by auto
  then have "header_loop mem iLength i i = header_loop mem iLength (i + 1) (i + 1)"
    by (subst header_loop.simps) simp
  also have "\<dots> = header_loop mem iLength j j"
  proof (rule Suc.hyps(1))
    show "n = j - (i + 1)" using Suc.hyps(2) by simp
  qed (use ij Suc.prems in auto)
  finally show ?case .
qed simp

lemma header_loop_stop:
  assumes "j = 10 \<or> j < length mem \<and> \<not> is_digit (mem ! j)" and "j \<le> 10" and "j \<le> iLength"
  shows "header_loop mem iLength j j = Some j"
  using assms by (subst header_loop.simps) auto

lemma header_loop_overread:
  assumes "length mem = j" and "j < 10" and "j \<le> iLength"
  shows "header_loop mem iLength j j = None"
  using assms by (subst header_loop.simps) auto

text \<open>Where the digits end, or 10.\<close>

definition digits_end :: "string \<Rightarrow> nat" where
  "digits_end bs = 1 + min 9 (length (takeWhile is_digit (tl bs)))"

lemma digits_end_bounds:
  assumes "bs \<noteq> []"
  shows "1 \<le> digits_end bs \<and> digits_end bs \<le> 10 \<and> digits_end bs \<le> length bs \<and>
    (\<forall>k. 1 \<le> k \<and> k < digits_end bs \<longrightarrow> is_digit (bs ! k)) \<and>
    (digits_end bs < 10 \<longrightarrow> digits_end bs < length bs \<longrightarrow> \<not> is_digit (bs ! digits_end bs))"
proof -
  obtain b bs' where bs: "bs = b # bs'" using assms by (cases bs) auto
  let ?n = "length (takeWhile is_digit bs')"
  have len: "?n \<le> length bs'" by (rule length_takeWhile_le)
  have dig: "is_digit (bs' ! k)" if "k < ?n" for k
    using that nth_mem [OF that] set_takeWhileD by (fastforce simp: takeWhile_nth)
  have stop: "\<not> is_digit (bs' ! ?n)" if "?n < length bs'"
    using that by (rule nth_length_takeWhile)
  have 1: "is_digit (bs ! k)" if "1 \<le> k" "k < digits_end bs" for k
    using that dig [of "k - 1"] by (cases k) (auto simp: bs digits_end_def)
  have 2: "\<not> is_digit (bs ! digits_end bs)" if "digits_end bs < 10" "digits_end bs < length bs"
  proof -
    from that(1) have "digits_end bs = Suc ?n" by (simp add: bs digits_end_def)
    with that(2) stop show ?thesis by (simp add: bs)
  qed
  have "1 \<le> digits_end bs" "digits_end bs \<le> 10" "digits_end bs \<le> length bs"
    using len by (simp_all add: bs digits_end_def)
  with 1 2 show ?thesis by blast
qed

lemma GetJsonHeaderLen_eq:
  assumes "bs \<noteq> []"
  shows "GetJsonHeaderLen bs (length bs) =
    (if hd bs \<noteq> CHR ''J'' then Some 0
     else if length bs < 10 \<and> digits_end bs = length bs then None
     else Some (digits_end bs))"
proof -
  note d = digits_end_bounds [OF assms]
  have "header_loop bs (length bs) 1 1 = header_loop bs (length bs) (digits_end bs) (digits_end bs)"
    (is "?l = _")
    using d assms by (intro header_loop_digits) (auto simp: Suc_le_eq)
  also have "\<dots> =
      (if length bs < 10 \<and> digits_end bs = length bs then None else Some (digits_end bs))"
  proof (cases "length bs < 10 \<and> digits_end bs = length bs")
    case True
    then show ?thesis by (simp add: header_loop_overread)
  next
    case False
    with d show ?thesis by (subst header_loop_stop) auto
  qed
  finally have loop: "?l = (if length bs < 10 \<and> digits_end bs = length bs then None else Some (digits_end bs))" .
  from assms have "GetJsonHeaderLen bs (length bs) = (if hd bs = CHR ''J'' then ?l else Some 0)"
    by (simp add: GetJsonHeaderLen_def split: list.split)
  then show ?thesis unfolding loop by simp
qed

text \<open>The prefix is one \<open>J\<close> and seven digits.\<close>

lemma dec_digits: "c \<in> set (dec n) \<Longrightarrow> is_digit c"
proof (induction n rule: dec.induct)
  case (1 n)
  then show ?case
    by (subst (asm) dec.simps) (auto simp: is_digit_def char_value_def split: if_splits)
qed

lemma length_dec: "length (dec n) \<le> Suc d \<longleftrightarrow> n < 10 ^ Suc d"
proof (induction d arbitrary: n)
  case 0
  show ?case
  proof (cases "n < 10")
    case False
    have "dec (n div 10) \<noteq> []" by (subst dec.simps) simp
    with False show ?thesis by (subst dec.simps) simp
  qed (subst dec.simps, simp)
next
  case (Suc d)
  show ?case
  proof (cases "n < 10")
    case True
    then have "n < 10 ^ Suc (Suc d)" by (simp add: less_le_trans)
    with True show ?thesis by (subst dec.simps) simp
  next
    case False
    have "n < 10 ^ Suc (Suc d) \<longleftrightarrow> n div 10 < 10 ^ Suc d"
      by (simp add: div_less_iff_less_mult mult.commute)
    with Suc [of "n div 10"] False show ?thesis by (subst dec.simps) simp
  qed
qed

lemma GetJsonLengthPrefix_form:
  assumes "GetJsonLengthPrefix js = Some p"
  shows "\<exists>ds. p = CHR ''J'' # ds \<and> length ds = 7 \<and> (\<forall>c \<in> set ds. is_digit c)"
proof -
  have "is_digit (CHR ''0'')" by (simp add: is_digit_def char_value_def)
  with assms length_dec [of "length js" 6] dec_digits show ?thesis
    by (auto simp: GetJsonLengthPrefix_def Let_def split: if_splits)
qed

lemma frame_digits_end:
  assumes "p = CHR ''J'' # ds" and "length ds = 7" and "\<forall>c \<in> set ds. is_digit c"
    and "js \<noteq> []" and "\<not> is_digit (hd js)"
  shows "digits_end (p @ js) = 8"
  using assms by (cases js) (simp_all add: digits_end_def takeWhile_append2)

lemma json_frame:
  assumes "GetJsonLengthPrefix js = Some p" and "js \<noteq> []" and "\<not> is_digit (hd js)"
  shows "GetJsonHeaderLen (p @ js) (length (p @ js)) = Some 8 \<and> drop 8 (p @ js) = js"
proof -
  from GetJsonLengthPrefix_form [OF assms(1)] obtain ds
    where p: "p = CHR ''J'' # ds" "length ds = 7" "\<forall>c \<in> set ds. is_digit c" by blast
  from frame_digits_end [OF p assms(2,3)] have "digits_end (p @ js) = 8" .
  moreover from assms(2) p have "length (p @ js) \<noteq> 8" by (cases js) simp_all
  ultimately show ?thesis
    using GetJsonHeaderLen_eq [of "p @ js"] p by simp
qed

subsection \<open>Rejects\<close>

definition RejectDetailEquals :: "'a ROSEReject option \<Rightarrow> string option \<Rightarrow> bool" where
  "RejectDetailEquals pReject szExpected =
     (case pReject of None \<Rightarrow> False
      | Some r \<Rightarrow> (case rj_details r of None \<Rightarrow> False
          | Some d \<Rightarrow> (case szExpected of None \<Rightarrow> False | Some e \<Rightarrow> d = e)))"

definition GetRejectResultCode :: "'a ROSEReject option \<Rightarrow> int" where
  "GetRejectResultCode pReject =
     (case pReject of None \<Rightarrow> ROSE_REJECT_UNKNOWN
      | Some r \<Rightarrow> (case rj_reject r of
          Some (invokeProblem (Some p)) \<Rightarrow>
            if p = problem_value unrecognisedOperation then
              (if RejectDetailEquals pReject (Some ''functionMissing'')
               then ROSE_REJECT_FUNCTIONMISSING else ROSE_REJECT_UNKNOWNOPERATION)
            else if p = problem_value mistypedArgument then ROSE_REJECT_MISTYPEDARGUMENT
            else if p = problem_value resourceLimitation \<and> RejectDetailEquals pReject (Some ''queueFull'')
              then ROSE_REJECT_QUEUE_FULL
            else if p = problem_value resourceLimitation \<and> RejectDetailEquals pReject (Some ''responseIsTooBig'')
              then ROSE_TE_ENCODE_FAILED
            else if p = problem_value resourceLimitation \<and> RejectDetailEquals pReject (Some ''functionMissing'')
              then ROSE_REJECT_FUNCTIONMISSING
            else if p = problem_value authenticationIncomplete then ROSE_REJECT_AUTHENTICATIONINCOMPLETE
            else if p = problem_value authenticationFailed then ROSE_REJECT_AUTHENTICATIONFAILED
            else ROSE_REJECT_UNKNOWN
        | _ \<Rightarrow> ROSE_REJECT_UNKNOWN))"

definition GetRejectResultCode_ctx ::
    "'a ROSEReject option \<Rightarrow> 'a SnaccInvokeContext \<Rightarrow> int \<times> 'a SnaccInvokeContext" where
  "GetRejectResultCode_ctx pReject ctx =
     (let lRoseResult = GetRejectResultCode pReject
      in case pReject of None \<Rightarrow> (lRoseResult, ctx)
      | Some r \<Rightarrow> (case rj_reject r of
          Some (invokeProblem (Some p)) \<Rightarrow>
            let with_auth = (if rj_authentication r \<noteq> None then ctx\<lparr>m_pRejectAuth := rj_authentication r\<rparr> else ctx)
            in if p = problem_value authenticationIncomplete
               then (lRoseResult, with_auth\<lparr>m_lRejectResult := ROSE_REJECT_AUTHENTICATIONINCOMPLETE\<rparr>)
               else if p = problem_value authenticationFailed
               then (lRoseResult, with_auth\<lparr>m_lRejectResult := ROSE_REJECT_AUTHENTICATIONFAILED\<rparr>)
               else (lRoseResult, ctx)
        | _ \<Rightarrow> (lRoseResult, ctx)))"

text \<open>Bytes of an outbound message: \<open>None\<close> is the exception for an encoding that is not set.\<close>

definition EncodeReject ::
    "TransportEncoding \<Rightarrow> ('a ROSEReject \<Rightarrow> string) \<Rightarrow> ('a ROSEReject \<Rightarrow> string) \<Rightarrow> 'a ROSEReject
     \<Rightarrow> (int \<times> string) option" where
  "EncodeReject encoding ber json r =
     (case encoding of
        BER \<Rightarrow> Some (ROSE_NOERROR, ber r)
      | JSON \<Rightarrow> (case GetJsonLengthPrefix (json r) of
                   None \<Rightarrow> Some (ROSE_TE_ENCODE_FAILED, json r)
                 | Some p \<Rightarrow> Some (ROSE_NOERROR, p @ json r))
      | JSON_NO_HEADING \<Rightarrow> Some (ROSE_NOERROR, json r)
      | UNKNOWN \<Rightarrow> None)"

definition RejectInvoke :: "32 word \<Rightarrow> InvokeProblem \<Rightarrow> string option \<Rightarrow> string option \<Rightarrow> 'a option \<Rightarrow> 'a ROSEReject" where
  "RejectInvoke uiInvokeID problem szError szSessionID pAuthHeader =
     \<lparr>rj_sessionID = szSessionID, rj_invokedID = invokedID_choice (Some (uint uiInvokeID)),
      rj_reject = Some (invokeProblem (Some (problem_value problem))),
      rj_details = szError, rj_authentication = pAuthHeader\<rparr>"

text \<open>\<open>strResponse\<close> goes in and comes out; an event gets no answer and leaves it alone.\<close>

definition EncodeRejectInvoke ::
    "('a ROSEReject \<Rightarrow> (int \<times> string) option) \<Rightarrow> 32 word \<Rightarrow> InvokeProblem \<Rightarrow> string \<Rightarrow> string option
     \<Rightarrow> string option \<Rightarrow> 'a option \<Rightarrow> (int \<times> string) option" where
  "EncodeRejectInvoke enc uiInvokeID problem strResponse szError szSessionID pAuthHeader =
     (if uiInvokeID = 99999 then Some (0, strResponse)
      else enc (RejectInvoke uiInvokeID problem szError szSessionID pAuthHeader))"

fun hex :: "nat \<Rightarrow> string" where
  "hex n = (if n < 16 then [''0123456789abcdef'' ! n] else hex (n div 16) @ [''0123456789abcdef'' ! (n mod 16)])"

declare hex.simps [simp del]

text \<open>The problem, the detail and whether the authentication header goes with a result code.\<close>

definition reject_answer :: "int \<Rightarrow> InvokeProblem \<times> string \<times> bool" where
  "reject_answer r =
     (if r = ROSE_REJECT_UNKNOWNOPERATION then (unrecognisedOperation, ''unrecognisedOperation'', False)
      else if r = ROSE_REJECT_MISTYPEDARGUMENT then (mistypedArgument, ''mistypedArgument'', False)
      else if r = ROSE_REJECT_FUNCTIONMISSING then (unrecognisedOperation, ''functionMissing'', False)
      else if r = ROSE_REJECT_INVALIDSESSIONID then (invalidSessionID, ''invalidSessionID'', False)
      else if r = ROSE_REJECT_AUTHENTICATIONFAILED then (authenticationFailed, ''authenticationFailed'', True)
      else if r = ROSE_REJECT_AUTHENTICATIONINCOMPLETE then (authenticationIncomplete, ''authenticationIncomplete'', True)
      else if r = ROSE_REJECT_AUTHENTICATION_USER_TEMPORARY_LOCKED_OUT then (authenticationFailed, ''temporaryLockedOut'', True)
      else if r = ROSE_REJECT_AUTHENTICATION_USER_LOCKED_OUT then (authenticationFailed, ''lockedOut'', True)
      else if r = ROSE_REJECT_AUTHENTICATION_SERVER_BUSY then (authenticationFailed, ''serverBusy'', True)
      else if r = ROSE_REJECT_ARGUMENT_MISSING then (mistypedArgument, ''argumentMissing'', False)
      else if r = ROSE_REJECT_QUEUE_FULL then (resourceLimitation, ''queueFull'', False)
      else if r = ROSE_TE_ENCODE_FAILED then (resourceLimitation, ''responseIsTooBig'', False)
      else (unrecognisedOperation, ''otherError: 0x'' @ hex (nat (r mod 2 ^ 64)), False))"

definition EncodeInvokeRejectResponse ::
    "('a ROSEReject \<Rightarrow> (int \<times> string) option) \<Rightarrow> 'j ROSEInvoke \<Rightarrow> int \<Rightarrow> 'a SnaccInvokeContext \<Rightarrow> string
     \<Rightarrow> (int \<times> string) option" where
  "EncodeInvokeRejectResponse enc pInvoke lProtocolResult ctx strResponse =
     (case reject_answer lProtocolResult of (problem, detail, auth) \<Rightarrow>
        map_option (\<lambda>(lEncodeResult, str).
            (if lEncodeResult = ROSE_NOERROR then lProtocolResult else lEncodeResult, str))
          (EncodeRejectInvoke enc (word_of_int (iv_invokeID pInvoke)) problem strResponse (Some detail)
             (iv_sessionID pInvoke) (if auth then m_pRejectAuth ctx else None)))"

text \<open>The reject that goes out for a result code.\<close>

definition sent_reject :: "'j ROSEInvoke \<Rightarrow> int \<Rightarrow> 'a SnaccInvokeContext \<Rightarrow> 'a ROSEReject" where
  "sent_reject pInvoke r ctx =
     (case reject_answer r of (problem, detail, auth) \<Rightarrow>
        RejectInvoke (word_of_int (iv_invokeID pInvoke)) problem (Some detail) (iv_sessionID pInvoke)
          (if auth then m_pRejectAuth ctx else None))"

definition kept_codes :: "int list" where
  "kept_codes = [ROSE_REJECT_UNKNOWNOPERATION, ROSE_REJECT_MISTYPEDARGUMENT, ROSE_REJECT_FUNCTIONMISSING,
     ROSE_REJECT_AUTHENTICATIONFAILED, ROSE_REJECT_AUTHENTICATIONINCOMPLETE, ROSE_REJECT_QUEUE_FULL,
     ROSE_TE_ENCODE_FAILED]"

lemma reject_code_received:
  "GetRejectResultCode (Some (sent_reject invoke r ctx)) =
     (if r \<in> set kept_codes then r
      else if r = ROSE_REJECT_INVALIDSESSIONID then ROSE_REJECT_UNKNOWN
      else if r = ROSE_REJECT_ARGUMENT_MISSING then ROSE_REJECT_MISTYPEDARGUMENT
      else if r \<in> {ROSE_REJECT_AUTHENTICATION_SERVER_BUSY, ROSE_REJECT_AUTHENTICATION_USER_LOCKED_OUT,
                   ROSE_REJECT_AUTHENTICATION_USER_TEMPORARY_LOCKED_OUT} then ROSE_REJECT_AUTHENTICATIONFAILED
      else ROSE_REJECT_UNKNOWNOPERATION)"
  by (simp add: GetRejectResultCode_def sent_reject_def reject_answer_def RejectInvoke_def
      RejectDetailEquals_def kept_codes_def rose_codes)

end
