(* ===== verification/Rose_Inbound.thy ===== *)
theory Rose_Inbound
  imports Rose_Msg
begin

section \<open>Messages that arrive at a stub (\<open>cpp-lib/src/SnaccROSEBase.cpp\<close>)\<close>

text \<open>
  From the bytes of the transport to the handler and back: \<open>OnBinaryDataBlock\<close>,
  \<open>OnROSEMessage\<close>, \<open>OnInvokeMessage\<close> with its answer and telemetry, and the
  decoding of a response.  The environment is in the arguments: the decoders of the generated
  classes (\<open>None\<close> is a \<open>SnaccException\<close>), the handler, the transport, what the worker
  pool says, and the two readings of the session gate.
\<close>

subsection \<open>Telemetry\<close>

datatype Outcome = RESULT | ERR | REJECT | EVENT | UNHANDLED | DISPATCHED

datatype Stage = STAGE_UNKNOWN | INBOUND_DECODE | INBOUND_INVOKE | INBOUND_RESPONSE | OUTBOUND_SEND | OUTBOUND_WAIT

datatype Reason = NONE | LOCAL_RESULT | LOCAL_ERROR | LOCAL_REJECT | LOCAL_EVENT | REMOTE_RESULT
  | REMOTE_ERROR | REMOTE_REJECT | DECODE_FAILED | ENCODE_FAILED | SEND_FAILED | TIMEOUT | SHUTDOWN
  | INVALID_RESPONSE | WAIT_SKIPPED | INVOKE_EXCEPTION | REJECT_PROTOCOL | REJECT_SESSION
  | REJECT_AUTHENTICATION | UNKNOWN_FAILURE | OUTBOUND_BLOCKED

definition GetUnhandledReasonFromResult :: "int \<Rightarrow> Reason" where
  "GetUnhandledReasonFromResult r =
     (if r \<in> {ROSE_REJECT_UNKNOWNOPERATION, ROSE_REJECT_MISTYPEDARGUMENT, ROSE_REJECT_FUNCTIONMISSING,
              ROSE_REJECT_UNKNOWN, ROSE_REJECT_ARGUMENT_MISSING, ROSE_REJECT_QUEUE_FULL} then REJECT_PROTOCOL
      else if r \<in> {ROSE_REJECT_INVALIDSESSIONID, ROSE_REJECT_STARTSSLREQUIRED} then REJECT_SESSION
      else if r \<in> {ROSE_REJECT_AUTHENTICATIONINCOMPLETE, ROSE_REJECT_AUTHENTICATIONFAILED,
                   ROSE_REJECT_AUTHENTICATION_SERVER_BUSY, ROSE_REJECT_AUTHENTICATION_USER_TEMPORARY_LOCKED_OUT,
                   ROSE_REJECT_AUTHENTICATION_USER_LOCKED_OUT} then REJECT_AUTHENTICATION
      else if r = ROSE_TE_TRANSPORTFAILED then SEND_FAILED
      else if r = ROSE_TE_ENCODE_FAILED then ENCODE_FAILED
      else if r = ROSE_TE_TIMEOUT then TIMEOUT
      else if r = ROSE_TE_SHUTDOWN then SHUTDOWN
      else if r = ROSE_REJECT_REMOTENOTCAPABLE then OUTBOUND_BLOCKED
      else if r = ROSE_RE_DECODE_FAILED then DECODE_FAILED
      else if r = ROSE_RE_INVALID_ANSWER then INVALID_RESPONSE
      else UNKNOWN_FAILURE)"

definition GetOutboundUnhandledStageFromResult :: "int \<Rightarrow> Stage" where
  "GetOutboundUnhandledStageFromResult r =
     (if r = ROSE_TE_TRANSPORTFAILED \<or> r = ROSE_TE_ENCODE_FAILED then OUTBOUND_SEND else OUTBOUND_WAIT)"

lemma reason_not_reject [simp]:
  "GetUnhandledReasonFromResult r \<noteq> LOCAL_REJECT" "GetUnhandledReasonFromResult r \<noteq> INVOKE_EXCEPTION"
  by (simp_all add: GetUnhandledReasonFromResult_def)

subsection \<open>Blocks of bytes\<close>

datatype ('j, 'a) block = Ignored | Decoded "('j, 'a) ROSEMessage" | Envelope_failed TransportEncoding
  | Parse_failed TransportEncoding | Unknown_encoding

definition ReadBlock ::
    "TransportEncoding \<Rightarrow> (string \<Rightarrow> ('j, 'a) ROSEMessage option) \<Rightarrow> (string \<Rightarrow> 'j option)
     \<Rightarrow> ('j \<Rightarrow> ('j, 'a) ROSEMessage option) \<Rightarrow> string \<Rightarrow> ('j, 'a) block option" where
  "ReadBlock encoding bdec parse jdec lpBytes =
     (if encoding = BER then
        Some (case bdec lpBytes of None \<Rightarrow> Envelope_failed BER | Some m \<Rightarrow> Decoded m)
      else if encoding = JSON \<or> encoding = JSON_NO_HEADING then
        map_option (\<lambda>iHeaderLen. case parse (drop iHeaderLen lpBytes) of
             None \<Rightarrow> Parse_failed encoding
           | Some v \<Rightarrow> (case jdec v of None \<Rightarrow> Envelope_failed encoding | Some m \<Rightarrow> Decoded m))
          (GetJsonHeaderLen lpBytes (length lpBytes))
      else Some Unknown_encoding)"

text \<open>The encoding after a block, and what the block was; \<open>None\<close> is a read behind the block.\<close>

definition OnBinaryDataBlock ::
    "TransportEncoding \<Rightarrow> (string \<Rightarrow> ('j, 'a) ROSEMessage option) \<Rightarrow> (string \<Rightarrow> 'j option)
     \<Rightarrow> ('j \<Rightarrow> ('j, 'a) ROSEMessage option) \<Rightarrow> string \<Rightarrow> TransportEncoding \<times> ('j, 'a) block option" where
  "OnBinaryDataBlock m_eTransportEncoding bdec parse jdec lpBytes =
     (if lpBytes = [] then (m_eTransportEncoding, Some Ignored)
      else let e = (if m_eTransportEncoding = UNKNOWN then DetectEncoding lpBytes else m_eTransportEncoding)
           in (e, ReadBlock e bdec parse jdec lpBytes))"

definition OnBinaryDataBlockResult ::
    "TransportEncoding \<Rightarrow> (string \<Rightarrow> ('j, 'a) ROSEMessage option) \<Rightarrow> (string \<Rightarrow> 'j option)
     \<Rightarrow> ('j \<Rightarrow> ('j, 'a) ROSEMessage option) \<Rightarrow> string \<Rightarrow> ('j, 'a) block option" where
  "OnBinaryDataBlockResult m_eTransportEncoding bdec parse jdec lpBytes =
     (if lpBytes = [] then Some Ignored else ReadBlock m_eTransportEncoding bdec parse jdec lpBytes)"

definition SetTransportEncoding :: "TransportEncoding \<Rightarrow> TransportEncoding \<Rightarrow> bool \<times> TransportEncoding" where
  "SetTransportEncoding transportEncoding m_eTransportEncoding =
     (if transportEncoding = BER \<or> transportEncoding = JSON \<or> transportEncoding = JSON_NO_HEADING
      then (True, transportEncoding) else (False, m_eTransportEncoding))"

subsection \<open>Dispatch of a message\<close>

definition PrepareInboundInvokeOperationId ::
    "SnaccRoseOperationLookup \<Rightarrow> 'j ROSEInvoke \<Rightarrow> 'j ROSEInvoke" where
  "PrepareInboundInvokeOperationId L invoke =
     (if iv_operationID invoke \<noteq> 0 \<or> iv_operationName invoke = None then invoke
      else let i = LookUpID L (iv_operationName invoke)
           in if i \<noteq> 0 then invoke\<lparr>iv_operationID := i\<rparr> else invoke)"

text \<open>What the dispatch starts; \<open>Complete i\<close> is \<open>CompletePendingOperation\<close> for the invoke id \<open>i\<close>.\<close>

datatype 'j dispatch = Run_invoke "'j ROSEInvoke" | Complete int | Unsolicited_reject | No_action

definition OnROSEMessage ::
    "SnaccRoseOperationLookup \<Rightarrow> opid set \<Rightarrow> ('j, 'a) ROSEMessage \<Rightarrow> bool \<Rightarrow> bool \<times> 'j dispatch" where
  "OnROSEMessage L m_multithreadInvokeIDs pMessage bAllowAllInvokes =
     (case pMessage of
        invoke_msg iv \<Rightarrow>
          let invoke = PrepareInboundInvokeOperationId L iv
          in if bAllowAllInvokes \<or> iv_operationID invoke \<in> m_multithreadInvokeIDs then
               (True, if iv_operationID invoke \<noteq> 0 \<or> iv_operationName invoke \<noteq> None
                      then Run_invoke invoke else No_action)
             else (False, No_action)
      | result_msg r \<Rightarrow> (True, Complete (rs_invokeID r))
      | error_msg e \<Rightarrow> (True, Complete (er_invokedID e))
      | reject_msg r \<Rightarrow>
          (case rj_invokedID r of
             invokedID_choice (Some i) \<Rightarrow> (True, Complete i)
           | _ \<Rightarrow> (True, Unsolicited_reject))
      | notinitialized \<Rightarrow> (False, No_action))"

subsection \<open>An inbound invoke\<close>

datatype PooledInboundMode = EnqueueOrRun | Run | QueueFull | ShutdownReject | DropExpired

datatype SnaccWorkerEnqueueResult = NotPooled | Queued | RejectedFull | PoolStopped

text \<open>The handler returns, throws a \<open>SnaccException\<close>, or throws anything else.\<close>

datatype 'a handler_end = Returned int string "'a SnaccInvokeContext"
  | Threw_Snacc string "'a SnaccInvokeContext" | Threw_Other

datatype invoke_end = Enqueued | Escaped | Finished "string option" Outcome Reason int

definition new_context :: "'j ROSEInvoke \<Rightarrow> 'a SnaccInvokeContext" where
  "new_context invoke = \<lparr>m_pRejectAuth = None, m_lRejectResult = 0, m_bResponseIsError = False,
     m_invokeTimeout = map_option word_of_int (iv_timeout invoke)\<rparr>"

text \<open>
  The mode after the pool was asked; \<open>None\<close> when the worker has the message.  \<open>pool\<close> is
  \<open>None\<close> when the operation has no pool.
\<close>

definition inbound_mode ::
    "PooledInboundMode \<Rightarrow> SnaccWorkerEnqueueResult option \<Rightarrow> PooledInboundMode option" where
  "inbound_mode mode pool =
     (if mode = EnqueueOrRun then
        (case pool of
           None \<Rightarrow> Some mode
         | Some Queued \<Rightarrow> None
         | Some RejectedFull \<Rightarrow> Some QueueFull
         | Some PoolStopped \<Rightarrow> Some ShutdownReject
         | Some NotPooled \<Rightarrow> Some mode)
      else Some mode)"

text \<open>
  The first half: the handler or the reason not to run it.  The result is the code, the answer,
  the context, whether the handler threw, and whether the answer is dropped.
\<close>

definition run_handler ::
    "PooledInboundMode \<Rightarrow> bool \<Rightarrow> bool \<Rightarrow> 'a SnaccInvokeContext \<Rightarrow> 'a handler_end
     \<Rightarrow> (int \<times> string \<times> 'a SnaccInvokeContext \<times> bool \<times> bool) option" where
  "run_handler mode allowed_before allowed_after ctx h =
     (if mode = QueueFull then Some (ROSE_REJECT_QUEUE_FULL, '''', ctx, False, False)
      else if mode = DropExpired then Some (ROSE_TE_TIMEOUT, '''', ctx, False, True)
      else if mode = ShutdownReject \<or> \<not> allowed_before then Some (ROSE_TE_SHUTDOWN, '''', ctx, False, False)
      else (case h of
              Threw_Other \<Rightarrow> None
            | Returned l s c \<Rightarrow> Some (if allowed_after then (l, s, c, False, False)
                                    else (ROSE_TE_SHUTDOWN, '''', c, False, True))
            | Threw_Snacc s c \<Rightarrow> Some (if allowed_after then (ROSE_REJECT_MISTYPEDARGUMENT, s, c, True, False)
                                      else (ROSE_TE_SHUTDOWN, '''', c, True, True))))"

definition invoke_telemetry ::
    "int \<Rightarrow> bool \<Rightarrow> bool \<Rightarrow> bool \<Rightarrow> bool \<Rightarrow> Reason \<Rightarrow> Outcome \<times> Reason" where
  "invoke_telemetry lResult bIsRejectResponse bInvokeException bIsInvoke bResponseIsError reason =
     (if lResult = 0 then
        (if bIsRejectResponse then (REJECT, if bInvokeException then INVOKE_EXCEPTION else LOCAL_REJECT)
         else if bIsInvoke then (if bResponseIsError then (ERR, LOCAL_ERROR) else (RESULT, LOCAL_RESULT))
         else (EVENT, LOCAL_EVENT))
      else (UNHANDLED, if reason = UNKNOWN_FAILURE then GetUnhandledReasonFromResult lResult else reason))"

text \<open>The second half: the reject, the send, the telemetry.\<close>

definition answer_invoke ::
    "('a ROSEReject \<Rightarrow> (int \<times> string) option) \<Rightarrow> (string \<Rightarrow> int) \<Rightarrow> 'j ROSEInvoke
     \<Rightarrow> int \<Rightarrow> string \<Rightarrow> 'a SnaccInvokeContext \<Rightarrow> bool \<Rightarrow> bool \<Rightarrow> invoke_end" where
  "answer_invoke enc send invoke lResult strResponse ctx bInvokeException bDropReply =
     (let bIsInvoke = (iv_invokeID invoke \<noteq> event_id);
          bIsRejectResponse = (lResult \<noteq> ROSE_NOERROR \<and> bIsInvoke);
          rejected = (if bIsRejectResponse \<and> \<not> bDropReply
                      then EncodeInvokeRejectResponse enc invoke lResult ctx strResponse
                      else Some (lResult, strResponse))
      in case rejected of None \<Rightarrow> Escaped
      | Some (lResult, strResponse) \<Rightarrow>
          let reason = (if bIsRejectResponse \<and> \<not> bDropReply \<and> lResult \<noteq> ROSE_NOERROR
                        then GetUnhandledReasonFromResult lResult else UNKNOWN_FAILURE);
              strResponse = (if bDropReply then '''' else strResponse);
              lSendResult = (if strResponse \<noteq> '''' then send strResponse else ROSE_NOERROR);
              (lResult, reason) = (if lSendResult \<noteq> ROSE_NOERROR
                                   then (lSendResult, GetUnhandledReasonFromResult lSendResult)
                                   else (lResult, reason));
              (oc, rs) = invoke_telemetry lResult bIsRejectResponse bInvokeException bIsInvoke
                           (m_bResponseIsError ctx) reason
          in Finished (if strResponse \<noteq> '''' then Some strResponse else None) oc rs lResult)"

definition OnInvokeMessage ::
    "SnaccRoseOperationLookup \<Rightarrow> ('a ROSEReject \<Rightarrow> (int \<times> string) option) \<Rightarrow> (string \<Rightarrow> int)
     \<Rightarrow> SnaccWorkerEnqueueResult option \<Rightarrow> bool \<Rightarrow> bool
     \<Rightarrow> ('j ROSEInvoke \<Rightarrow> 'a SnaccInvokeContext \<Rightarrow> 'a handler_end)
     \<Rightarrow> PooledInboundMode \<Rightarrow> 'j ROSEInvoke \<Rightarrow> invoke_end" where
  "OnInvokeMessage L enc send pool allowed_before allowed_after handler mode iv =
     (let invoke = PrepareInboundInvokeOperationId L iv
      in case inbound_mode mode pool of None \<Rightarrow> Enqueued
      | Some mode \<Rightarrow>
          (let ctx = new_context invoke
           in case run_handler mode allowed_before allowed_after ctx (handler invoke ctx) of
                None \<Rightarrow> Escaped
              | Some (lResult, strResponse, ctx, bInvokeException, bDropReply) \<Rightarrow>
                  answer_invoke enc send invoke lResult strResponse ctx bInvokeException bDropReply))"

text \<open>
  The contract of an inbound invoke: the one answer it gets, if any.  An event has no reject; an
  expired invoke and one whose session closed while its handler ran have no answer at all.
\<close>

datatype reply = No_reply | Handler_reply string | Reject_reply int

definition reply_spec :: "PooledInboundMode \<Rightarrow> bool \<Rightarrow> bool \<Rightarrow> bool \<Rightarrow> 'a handler_end \<Rightarrow> reply" where
  "reply_spec mode before after event h =
     (let reject = (\<lambda>r s. if event then Handler_reply s else Reject_reply r)
      in if mode = QueueFull then reject ROSE_REJECT_QUEUE_FULL ''''
         else if mode = DropExpired then No_reply
         else if mode = ShutdownReject \<or> \<not> before then reject ROSE_TE_SHUTDOWN ''''
         else if \<not> after then No_reply
         else (case h of Returned l s _ \<Rightarrow> if l = 0 then Handler_reply s else reject l s
               | Threw_Snacc s _ \<Rightarrow> reject ROSE_REJECT_MISTYPEDARGUMENT s
               | Threw_Other \<Rightarrow> No_reply))"

text \<open>The bytes of an answer; an empty response is not sent.\<close>

definition reply_bytes ::
    "('a ROSEReject \<Rightarrow> (int \<times> string) option) \<Rightarrow> 'j ROSEInvoke \<Rightarrow> 'a SnaccInvokeContext \<Rightarrow> reply \<Rightarrow> string" where
  "reply_bytes enc invoke ctx rp = (case rp of No_reply \<Rightarrow> '''' | Handler_reply s \<Rightarrow> s
     | Reject_reply r \<Rightarrow> (case enc (sent_reject invoke r ctx) of None \<Rightarrow> '''' | Some (_, s) \<Rightarrow> s))"

definition handler_context :: "'a handler_end \<Rightarrow> 'a SnaccInvokeContext \<Rightarrow> 'a SnaccInvokeContext" where
  "handler_context h ctx = (case h of Returned _ _ c \<Rightarrow> c | Threw_Snacc _ c \<Rightarrow> c | Threw_Other \<Rightarrow> ctx)"

lemma EncodeInvokeRejectResponse_sent:
  assumes "iv_invokeID invoke \<noteq> event_id" and "0 \<le> iv_invokeID invoke" and "iv_invokeID invoke < 2 ^ 31"
  shows "EncodeInvokeRejectResponse enc invoke r ctx s =
    map_option (\<lambda>(e, str). (if e = ROSE_NOERROR then r else e, str)) (enc (sent_reject invoke r ctx))"
proof -
  have "(word_of_int (iv_invokeID invoke) :: 32 word) \<noteq> 99999"
  proof
    assume "(word_of_int (iv_invokeID invoke) :: 32 word) = 99999"
    then have "uint (word_of_int (iv_invokeID invoke) :: 32 word) = 99999" by simp
    with assms show False
      by (simp add: event_id_def uint_word_of_int take_bit_int_eq_self)
  qed
  then show ?thesis
    by (simp add: EncodeInvokeRejectResponse_def EncodeRejectInvoke_def sent_reject_def split: prod.split)
qed

lemma answer_invoke_sent:
  assumes "answer_invoke enc send invoke l s ctx ex dropped = Finished sent oc rs r"
    and "0 \<le> iv_invokeID invoke" and "iv_invokeID invoke < 2 ^ 31"
  shows "sent = (let b = (if dropped then '''' else if l = 0 \<or> iv_invokeID invoke = event_id then s
      else reply_bytes enc invoke ctx (Reject_reply l)) in if b = '''' then None else Some b)"
proof (cases "l \<noteq> 0 \<and> iv_invokeID invoke \<noteq> event_id \<and> \<not> dropped")
  case True
  note e = EncodeInvokeRejectResponse_sent [OF _ assms(2,3)]
  from True assms(1) show ?thesis
    by (auto simp: answer_invoke_def Let_def e reply_bytes_def rose_codes split: option.splits prod.splits if_splits)
next
  case False
  with assms(1) show ?thesis
    by (auto simp: answer_invoke_def Let_def rose_codes split: prod.splits if_splits)
qed

lemma answer_invoke_outcome:
  assumes "answer_invoke enc send invoke l s ctx ex dropped = Finished sent oc rs r"
  shows "oc \<noteq> REJECT \<and> rs \<noteq> LOCAL_REJECT \<and> rs \<noteq> INVOKE_EXCEPTION"
proof -
  have "fst x \<noteq> 0" if "EncodeInvokeRejectResponse enc invoke l ctx s = Some x" "l \<noteq> 0" for x
    using that by (auto simp: EncodeInvokeRejectResponse_def rose_codes split: prod.splits if_splits)
  with assms show ?thesis
    by (fastforce simp: answer_invoke_def Let_def invoke_telemetry_def rose_codes
        split: option.splits prod.splits if_splits)
qed

subsection \<open>A response\<close>

definition DecodeResponse ::
    "('j, 'a) ROSEMessage \<Rightarrow> 'a SnaccInvokeContext
     \<Rightarrow> (int \<times> 'j ROSEResult option \<times> 'j ROSEError option \<times> 'a SnaccInvokeContext) option" where
  "DecodeResponse response ctx =
     (case response of
        notinitialized \<Rightarrow> None
      | invoke_msg _ \<Rightarrow> Some (ROSE_RE_INVALID_ANSWER, None, None, ctx)
      | result_msg r \<Rightarrow> Some (ROSE_NOERROR, Some r, None, ctx)
      | error_msg e \<Rightarrow> Some (ROSE_ERROR_VALUE, None, Some e, ctx)
      | reject_msg r \<Rightarrow> (case GetRejectResultCode_ctx (Some r) ctx of (c, ctx') \<Rightarrow> Some (c, None, None, ctx')))"

text \<open>
  A payload into the caller's object, which \<open>wanted\<close> says is there.  \<open>jdec\<close> gives the
  value of \<open>JDec\<close> and the object after it.
\<close>

definition decode_payload ::
    "(byte list \<Rightarrow> 't option) \<Rightarrow> ('j \<Rightarrow> (bool \<times> 't) option) \<Rightarrow> bool \<Rightarrow> int \<Rightarrow> 'j AsnAnyValue option
     \<Rightarrow> int \<times> 't option" where
  "decode_payload bdec jdec wanted code v =
     (if \<not> wanted then (code, None)
      else case v of None \<Rightarrow> (code, None)
      | Some (anyBuf b) \<Rightarrow> (case bdec b of None \<Rightarrow> (ROSE_RE_DECODE_FAILED, None) | Some t \<Rightarrow> (code, Some t))
      | Some (jsonBuf j) \<Rightarrow>
          (case jdec j of None \<Rightarrow> (ROSE_RE_DECODE_FAILED, None)
           | Some (ok, t) \<Rightarrow> (if ok then code else ROSE_RE_DECODE_FAILED, Some t))
      | Some no_buf \<Rightarrow> (code, None))"

definition HandleInvokeResult ::
    "(byte list \<Rightarrow> 't option) \<Rightarrow> ('j \<Rightarrow> (bool \<times> 't) option) \<Rightarrow> bool \<Rightarrow> bool
     \<Rightarrow> int \<Rightarrow> ('j, 'a) ROSEMessage \<Rightarrow> 'a SnaccInvokeContext
     \<Rightarrow> (int \<times> 't option \<times> 'a SnaccInvokeContext) option" where
  "HandleInvokeResult bdec jdec pResult pError lRoseResult responseMsg ctx =
     (if ISROSE_TE lRoseResult then Some (lRoseResult, None, ctx)
      else case DecodeResponse responseMsg ctx of None \<Rightarrow> None
      | Some (c, r, e, ctx') \<Rightarrow>
          Some (if c = ROSE_NOERROR then
                  (case r of None \<Rightarrow> (c, None, ctx')
                   | Some r \<Rightarrow> (case decode_payload bdec jdec pResult c (rs_result r) of (c', t) \<Rightarrow> (c', t, ctx')))
                else if c = ROSE_ERROR_VALUE then
                  (case e of None \<Rightarrow> (c, None, ctx')
                   | Some e \<Rightarrow> (case decode_payload bdec jdec pError c (er_error e) of (c', t) \<Rightarrow> (c', t, ctx')))
                else (c, None, ctx')))"

text \<open>The argument of an invoke into the handler's object.\<close>

definition DecodeInvoke ::
    "(byte list \<Rightarrow> 't option) \<Rightarrow> ('j \<Rightarrow> (bool \<times> 't) option) \<Rightarrow> bool \<Rightarrow> 'j ROSEInvoke \<Rightarrow> int \<times> 't option" where
  "DecodeInvoke bdec jdec mayBeEmpty invoke =
     (case iv_argument invoke of
        None \<Rightarrow> (if mayBeEmpty then ROSE_NOERROR else ROSE_REJECT_ARGUMENT_MISSING, None)
      | Some (anyBuf b) \<Rightarrow> (case bdec b of None \<Rightarrow> (ROSE_RE_DECODE_FAILED, None) | Some t \<Rightarrow> (ROSE_NOERROR, Some t))
      | Some (jsonBuf j) \<Rightarrow> (case jdec j of None \<Rightarrow> (ROSE_RE_DECODE_FAILED, None) | Some (ok, t) \<Rightarrow> (ROSE_NOERROR, Some t))
      | Some no_buf \<Rightarrow> (ROSE_RE_DECODE_FAILED, None))"

datatype InvokeResult = returnResult | returnError | returnReject

text \<open>\<open>enc_result\<close> and \<open>enc_error\<close> are \<open>EncodeResult\<close> and \<open>EncodeError\<close> on the handler's objects.\<close>

definition HandleOnInvokeResult ::
    "(int \<Rightarrow> (int \<times> string) option) \<Rightarrow> (int \<Rightarrow> (int \<times> string) option) \<Rightarrow> InvokeResult \<Rightarrow> 'j ROSEInvoke
     \<Rightarrow> 'a SnaccInvokeContext \<Rightarrow> string \<Rightarrow> (int \<times> string \<times> 'a SnaccInvokeContext) option" where
  "HandleOnInvokeResult enc_result enc_error invokeResult invoke ctx strResponse =
     (if iv_invokeID invoke = event_id then Some (ROSE_NOERROR, '''', ctx\<lparr>m_bResponseIsError := False\<rparr>)
      else case invokeResult of
        returnResult \<Rightarrow> map_option (\<lambda>(r, s). (r, s, ctx)) (enc_result (iv_invokeID invoke))
      | returnError \<Rightarrow> map_option (\<lambda>(r, s). (r, s, ctx\<lparr>m_bResponseIsError := True\<rparr>)) (enc_error (iv_invokeID invoke))
      | _ \<Rightarrow> Some (if m_lRejectResult ctx \<noteq> 0 then m_lRejectResult ctx else ROSE_REJECT_FUNCTIONMISSING,
                  strResponse, ctx))"

lemma reject_code_of_ctx: "fst (GetRejectResultCode_ctx r ctx) = GetRejectResultCode r"
  by (simp add: GetRejectResultCode_ctx_def Let_def split: option.split RejectProblem.split)

lemma reject_code_fails: "GetRejectResultCode r \<noteq> ROSE_NOERROR" "GetRejectResultCode r \<noteq> ROSE_ERROR_VALUE"
  by (simp_all add: GetRejectResultCode_def rose_codes split: option.split RejectProblem.split)

lemma HandleInvokeResult_reject:
  "\<not> ISROSE_TE c \<Longrightarrow>
   map_option fst (HandleInvokeResult bdec jdec pr pe c (reject_msg r) ctx) = Some (GetRejectResultCode (Some r))"
  using reject_code_of_ctx [of "Some r" ctx] reject_code_fails [of "Some r"]
  by (cases "GetRejectResultCode_ctx (Some r) ctx")
    (simp add: HandleInvokeResult_def DecodeResponse_def)

end
