(* ===== verification/Rose_Pools.thy ===== *)
theory Rose_Pools
  imports Step_System Rose_Inbound "HOL-Library.Multiset" "HOL-Library.Sublist"
begin

section \<open>Worker pools (\<open>cpp-lib/src/SnaccWorkerPools.cpp\<close>)\<close>

text \<open>
  One named pool: its queue, its counters, its workers, and the count of handlers per stub.  A
  step is one section that the code runs under a mutex, or one call of a stub; any step of any
  thread can be next.  A worker is its place in \<open>WorkerMain\<close>.  A condition variable is only
  its predicate: a wait can end whenever the predicate holds, because the code tests it again.
  The handler of the application runs between \<open>begin_item\<close> and \<open>end_item\<close>, as long as it
  likes.  Counters are naturals; \<open>pool_ok\<close> bounds them by the number of threads.

  \<open>accepted\<close>, \<open>taken\<close> and \<open>dispatched\<close> record what happened and are not read by the code.
  \<open>joining\<close> and \<open>rejecting\<close> are the local queues of \<open>JoinPool\<close> and
  \<open>RejectQueuedAndWait\<close>.
\<close>

record WorkItem =
  message :: nat
  stub :: nat
  deadline :: "nat option"

datatype SnaccPooledInboundAction = Do_Run | Do_ShutdownReject | Do_DropExpired

text \<open>\<open>CompletePooledFromPool\<close>: how a stub finishes what the pool gives back.\<close>

primrec CompletePooledFromPool :: "SnaccPooledInboundAction \<Rightarrow> PooledInboundMode" where
  "CompletePooledFromPool Do_Run = Run"
| "CompletePooledFromPool Do_ShutdownReject = ShutdownReject"
| "CompletePooledFromPool Do_DropExpired = DropExpired"

definition DeadlineFor :: "nat \<Rightarrow> 'j ROSEInvoke \<Rightarrow> nat option" where
  "DeadlineFor now invoke =
     (case iv_timeout invoke of None \<Rightarrow> None
      | Some t \<Rightarrow> if t \<le> 0 then None else Some (now + nat t))"

datatype worker = Entering | Waiting bool | Holding WorkItem | InHandler WorkItem
  | Finishing WorkItem bool | Leaving bool | Gone

record pool =
  maxThreads :: nat
  maxElements :: nat
  shrinks :: bool
  retires :: bool
  queue :: "WorkItem list"
  running :: nat
  idleWorkers :: nat
  liveWorkers :: nat
  stopping :: bool
  workers :: "worker list"
  inflight :: "nat \<Rightarrow> nat"
  registered :: bool
  joining :: "WorkItem list"
  rejecting :: "WorkItem list"
  accepted :: "WorkItem list"
  taken :: "WorkItem list"
  dispatched :: "(WorkItem \<times> SnaccPooledInboundAction) list"

subsection \<open>Operations\<close>

definition new_pool :: "nat \<Rightarrow> nat \<Rightarrow> bool \<Rightarrow> bool \<Rightarrow> pool" where
  "new_pool mt me sh rt = \<lparr>maxThreads = max 1 mt, maxElements = me, shrinks = sh, retires = rt,
     queue = [], running = 0, idleWorkers = 0, liveWorkers = 0, stopping = False, workers = [],
     inflight = (\<lambda>_. 0), registered = True, joining = [], rejecting = [],
     accepted = [], taken = [], dispatched = []\<rparr>"

definition set_worker :: "nat \<Rightarrow> worker \<Rightarrow> pool \<Rightarrow> pool" where
  "set_worker i w p = p\<lparr>workers := (workers p)[i := w]\<rparr>"

definition NoteInflight :: "nat \<Rightarrow> int \<Rightarrow> pool \<Rightarrow> pool" where
  "NoteInflight s delta p =
     (let c = inflight p s;
          c' = (if delta > 0 then c + nat delta else if c > 0 then c - 1 else c)
      in p\<lparr>inflight := (inflight p)(s := c')\<rparr>)"

definition StartFloorWorker :: "pool \<Rightarrow> pool" where
  "StartFloorWorker p =
     (if stopping p \<or> liveWorkers p > 0 then p
      else p\<lparr>liveWorkers := liveWorkers p + 1, workers := workers p @ [Entering]\<rparr>)"

definition EnsureWorker :: "pool \<Rightarrow> pool" where
  "EnsureWorker p =
     (if stopping p \<or> liveWorkers p \<ge> maxThreads p \<or> idleWorkers p > 0 \<or> queue p = [] then p
      else p\<lparr>liveWorkers := liveWorkers p + 1, workers := workers p @ [Entering]\<rparr>)"

definition ExitIdleWorker :: "nat \<Rightarrow> pool \<Rightarrow> bool \<times> pool" where
  "ExitIdleWorker i p =
     (if stopping p \<or> liveWorkers p \<le> 1 \<or> queue p \<noteq> [] then (False, p)
      else (True, set_worker i Gone (p\<lparr>liveWorkers := liveWorkers p - 1\<rparr>)))"

definition Enqueue :: "WorkItem \<Rightarrow> pool \<Rightarrow> SnaccWorkerEnqueueResult \<times> pool" where
  "Enqueue it p =
     (if stopping p then (PoolStopped, p)
      else if maxElements p > 0 \<and> length (queue p) + running p \<ge> maxElements p then (RejectedFull, p)
      else (Queued, EnsureWorker (p\<lparr>queue := queue p @ [it], accepted := accepted p @ [it]\<rparr>)))"

text \<open>The rest of the locked section of \<open>WorkerMain\<close>, from the end of the wait.\<close>

definition take_or_leave :: "nat \<Rightarrow> pool \<Rightarrow> pool" where
  "take_or_leave i p =
     (if stopping p \<and> queue p = [] then set_worker i Gone (p\<lparr>liveWorkers := liveWorkers p - 1\<rparr>)
      else case queue p of
        [] \<Rightarrow> (case ExitIdleWorker i p of (True, p') \<Rightarrow> p' | (False, p') \<Rightarrow> set_worker i Entering p')
      | it # q \<Rightarrow>
          NoteInflight (stub it) 1
            (set_worker i (Holding it) (p\<lparr>queue := q, running := running p + 1, taken := taken p @ [it]\<rparr>)))"

definition after_wait :: "nat \<Rightarrow> pool \<Rightarrow> pool" where
  "after_wait i p = take_or_leave i (p\<lparr>idleWorkers := idleWorkers p - 1\<rparr>)"

definition enter :: "nat \<Rightarrow> pool \<Rightarrow> pool" where
  "enter i p =
     (let p = p\<lparr>idleWorkers := idleWorkers p + 1\<rparr>;
          shrinkWhenIdle = (liveWorkers p > 1 \<and> shrinks p)
      in if stopping p \<or> queue p \<noteq> [] then after_wait i p else set_worker i (Waiting shrinkWhenIdle) p)"

definition item_action :: "nat \<Rightarrow> bool \<Rightarrow> pool \<Rightarrow> WorkItem \<Rightarrow> SnaccPooledInboundAction" where
  "item_action now allowed p it =
     (let expired = (case deadline it of None \<Rightarrow> False | Some d \<Rightarrow> now \<ge> d)
      in if stopping p \<or> \<not> allowed then Do_ShutdownReject
         else if expired then Do_DropExpired else Do_Run)"

definition begin_item :: "nat \<Rightarrow> nat \<Rightarrow> bool \<Rightarrow> WorkItem \<Rightarrow> pool \<Rightarrow> pool" where
  "begin_item i now allowed it p =
     set_worker i (InHandler it) (p\<lparr>dispatched := dispatched p @ [(it, item_action now allowed p it)]\<rparr>)"

definition end_item :: "nat \<Rightarrow> bool \<Rightarrow> WorkItem \<Rightarrow> pool \<Rightarrow> pool" where
  "end_item i threw it p = set_worker i (Finishing it (threw \<and> retires p)) p"

definition note_done :: "nat \<Rightarrow> WorkItem \<Rightarrow> bool \<Rightarrow> pool \<Rightarrow> pool" where
  "note_done i it retire p = set_worker i (Leaving retire) (NoteInflight (stub it) (- 1) p)"

definition leave :: "nat \<Rightarrow> bool \<Rightarrow> pool \<Rightarrow> pool" where
  "leave i retire p =
     (let p = p\<lparr>running := running p - 1\<rparr>
      in if retire then EnsureWorker (set_worker i Gone (p\<lparr>liveWorkers := liveWorkers p - 1\<rparr>))
         else set_worker i Entering p)"

definition join_start :: "pool \<Rightarrow> pool" where
  "join_start p = p\<lparr>stopping := True, joining := joining p @ queue p, queue := []\<rparr>"

definition join_reject :: "pool \<Rightarrow> pool" where
  "join_reject p = (case joining p of [] \<Rightarrow> p
     | it # q \<Rightarrow> p\<lparr>joining := q, dispatched := dispatched p @ [(it, Do_ShutdownReject)]\<rparr>)"

definition reject_start :: "nat \<Rightarrow> pool \<Rightarrow> pool" where
  "reject_start s p =
     (if \<not> registered p then p
      else p\<lparr>rejecting := rejecting p @ filter (\<lambda>it. stub it = s) (queue p),
             queue := filter (\<lambda>it. stub it \<noteq> s) (queue p)\<rparr>)"

definition reject_item :: "pool \<Rightarrow> pool" where
  "reject_item p = (case rejecting p of [] \<Rightarrow> p
     | it # q \<Rightarrow> p\<lparr>rejecting := q, dispatched := dispatched p @ [(it, Do_ShutdownReject)]\<rparr>)"

definition unregister :: "pool \<Rightarrow> pool" where
  "unregister p = p\<lparr>registered := False\<rparr>"

subsection \<open>Steps\<close>

inductive worker_step :: "pool \<Rightarrow> pool \<Rightarrow> bool" where
  w_enter: "i < length (workers p) \<Longrightarrow> workers p ! i = Entering \<Longrightarrow> worker_step p (enter i p)"
| w_wake: "i < length (workers p) \<Longrightarrow> workers p ! i = Waiting sh \<Longrightarrow> stopping p \<or> queue p \<noteq> []
    \<Longrightarrow> worker_step p (after_wait i p)"
| w_idle: "i < length (workers p) \<Longrightarrow> workers p ! i = Waiting True \<Longrightarrow> worker_step p (after_wait i p)"
| w_begin: "i < length (workers p) \<Longrightarrow> workers p ! i = Holding it
    \<Longrightarrow> worker_step p (begin_item i now allowed it p)"
| w_end: "i < length (workers p) \<Longrightarrow> workers p ! i = InHandler it \<Longrightarrow> worker_step p (end_item i threw it p)"
| w_note: "i < length (workers p) \<Longrightarrow> workers p ! i = Finishing it retire
    \<Longrightarrow> worker_step p (note_done i it retire p)"
| w_leave: "i < length (workers p) \<Longrightarrow> workers p ! i = Leaving retire \<Longrightarrow> worker_step p (leave i retire p)"

inductive client_step :: "pool \<Rightarrow> pool \<Rightarrow> bool" where
  c_enqueue: "client_step p (snd (Enqueue it p))"
| c_reject: "client_step p (reject_start s p)"
| c_reject_item: "client_step p (reject_item p)"
| c_unregister: "client_step p (unregister p)"
| c_join: "\<not> registered p \<Longrightarrow> client_step p (join_start p)"
| c_join_reject: "client_step p (join_reject p)"

definition pool_step :: "pool \<Rightarrow> pool \<Rightarrow> bool" where
  "pool_step p q \<longleftrightarrow> worker_step p q \<or> client_step p q"

abbreviation pool_reach :: "pool \<Rightarrow> pool \<Rightarrow> bool" where
  "pool_reach \<equiv> pool_step\<^sup>*\<^sup>*"

lemma pr_start: "pool_reach p p"
  by simp

lemma pr_worker: "pool_reach p0 p \<Longrightarrow> worker_step p q \<Longrightarrow> pool_reach p0 q"
  by (simp add: pool_step_def rtranclp.rtrancl_into_rtrancl)

lemma pr_client: "pool_reach p0 p \<Longrightarrow> client_step p q \<Longrightarrow> pool_reach p0 q"
  by (simp add: pool_step_def rtranclp.rtrancl_into_rtrancl)

subsection \<open>What every step keeps\<close>

fun is_waiting :: "worker \<Rightarrow> bool" where
  "is_waiting (Waiting _) = True" | "is_waiting _ = False"

fun is_busy :: "worker \<Rightarrow> bool" where
  "is_busy (Holding _) = True" | "is_busy (InHandler _) = True" | "is_busy (Finishing _ _) = True"
| "is_busy (Leaving _) = True" | "is_busy _ = False"

fun works_for :: "nat \<Rightarrow> worker \<Rightarrow> bool" where
  "works_for s (Holding it) = (stub it = s)" | "works_for s (InHandler it) = (stub it = s)"
| "works_for s (Finishing it _) = (stub it = s)" | "works_for s _ = False"

fun held :: "worker \<Rightarrow> WorkItem multiset" where
  "held (Holding it) = {#it#}" | "held _ = {#}"

definition count_w :: "(worker \<Rightarrow> bool) \<Rightarrow> worker list \<Rightarrow> nat" where
  "count_w P ws = length (filter P ws)"

definition held_items :: "worker list \<Rightarrow> WorkItem multiset" where
  "held_items ws = sum_list (map held ws)"

definition counters_ok :: "pool \<Rightarrow> bool" where
  "counters_ok p \<longleftrightarrow>
     idleWorkers p = count_w is_waiting (workers p) \<and>
     liveWorkers p = count_w (\<lambda>w. w \<noteq> Gone) (workers p) \<and>
     running p = count_w is_busy (workers p) \<and>
     (\<forall>s. inflight p s = count_w (works_for s) (workers p))"

definition bounds_ok :: "pool \<Rightarrow> bool" where
  "bounds_ok p \<longleftrightarrow>
     1 \<le> maxThreads p \<and> liveWorkers p \<le> maxThreads p \<and>
     (0 < maxElements p \<longrightarrow> length (queue p) + running p \<le> maxElements p) \<and>
     (queue p \<noteq> [] \<longrightarrow> \<not> stopping p \<and> 0 < liveWorkers p) \<and>
     (registered p \<longrightarrow> \<not> stopping p \<and> joining p = [])"

definition items_ok :: "pool \<Rightarrow> bool" where
  "items_ok p \<longleftrightarrow>
     mset (accepted p) = mset (map fst (dispatched p)) + mset (queue p) + mset (joining p)
       + mset (rejecting p) + held_items (workers p) \<and>
     subseq (taken p @ queue p) (accepted p)"

definition pool_ok :: "pool \<Rightarrow> bool" where
  "pool_ok p \<longleftrightarrow> counters_ok p \<and> bounds_ok p \<and> items_ok p"

lemma count_w_update:
  "i < length ws \<Longrightarrow> count_w P (ws[i := w]) + of_bool (P (ws ! i)) = count_w P ws + of_bool (P w)"
proof (induction ws arbitrary: i)
  case (Cons v ws)
  then show ?case by (cases i) (auto simp: count_w_def)
qed simp

lemma held_items_update:
  "i < length ws \<Longrightarrow> held_items (ws[i := w]) + held (ws ! i) = held_items ws + held w"
proof (induction ws arbitrary: i)
  case (Cons v ws)
  show ?case
  proof (cases i)
    case (Suc j)
    with Cons show ?thesis by (simp add: held_items_def add.assoc)
  qed (simp add: held_items_def add_ac)
qed simp

lemma count_w_append [simp]: "count_w P (ws @ [w]) = count_w P ws + of_bool (P w)"
  by (simp add: count_w_def)

lemma held_items_append [simp]: "held_items (ws @ [w]) = held_items ws + held w"
  by (simp add: held_items_def)

lemma count_w_pos: "i < length ws \<Longrightarrow> P (ws ! i) \<Longrightarrow> 0 < count_w P ws"
  using nth_mem by (fastforce simp: count_w_def filter_empty_conv)

lemma count_w_le: "(\<And>w. P w \<Longrightarrow> Q w) \<Longrightarrow> count_w P ws \<le> count_w Q ws"
  by (induction ws) (auto simp: count_w_def)

text \<open>A worker that changes place, with the counters adjusted: the new counts are determined.\<close>

lemma counters_set_worker:
  assumes "counters_ok p" and i: "i < length (workers p)"
  shows "counters_ok (set_worker i w (p\<lparr>idleWorkers := a, liveWorkers := b, running := c, inflight := d\<rparr>)) \<longleftrightarrow>
    a + of_bool (is_waiting (workers p ! i)) = idleWorkers p + of_bool (is_waiting w) \<and>
    b + of_bool (workers p ! i \<noteq> Gone) = liveWorkers p + of_bool (w \<noteq> Gone) \<and>
    c + of_bool (is_busy (workers p ! i)) = running p + of_bool (is_busy w) \<and>
    (\<forall>s. d s + of_bool (works_for s (workers p ! i)) = inflight p s + of_bool (works_for s w))"
proof -
  note u = count_w_update [OF i, of _ w]
  have e: "x = count_w P ((workers p)[i := w]) \<longleftrightarrow>
      x + of_bool (P (workers p ! i)) = count_w P (workers p) + of_bool (P w)" for x P
    using u [of P] by auto
  show ?thesis using assms(1) by (simp add: counters_ok_def set_worker_def e)
qed

lemma items_set_worker:
  assumes "items_ok p" and i: "i < length (workers p)"
  shows "items_ok (set_worker i w (p\<lparr>idleWorkers := a, liveWorkers := b, running := c, inflight := d\<rparr>)) \<longleftrightarrow>
    held (workers p ! i) = held w"
proof -
  have "held_items ((workers p)[i := w]) = held_items (workers p) \<longleftrightarrow> held (workers p ! i) = held w"
    using held_items_update [OF i, of w] by (metis add_left_imp_eq add_right_imp_eq)
  with assms(1) show ?thesis by (auto simp: items_ok_def set_worker_def)
qed

lemma set_worker_twice: "set_worker i v (set_worker i w p) = set_worker i v p"
  by (simp add: set_worker_def)

lemma pool_simps [simp]:
  "maxThreads (set_worker i w p) = maxThreads p" "maxElements (set_worker i w p) = maxElements p"
  "queue (set_worker i w p) = queue p" "running (set_worker i w p) = running p"
  "liveWorkers (set_worker i w p) = liveWorkers p" "idleWorkers (set_worker i w p) = idleWorkers p"
  "stopping (set_worker i w p) = stopping p" "inflight (set_worker i w p) = inflight p"
  "registered (set_worker i w p) = registered p" "joining (set_worker i w p) = joining p"
  "rejecting (set_worker i w p) = rejecting p" "accepted (set_worker i w p) = accepted p"
  "taken (set_worker i w p) = taken p" "dispatched (set_worker i w p) = dispatched p"
  "workers (set_worker i w p) = (workers p)[i := w]"
  by (simp_all add: set_worker_def)

lemma pool_update_same:
  "p\<lparr>idleWorkers := idleWorkers p, liveWorkers := liveWorkers p, running := running p, inflight := inflight p\<rparr> = p"
  by simp

lemma bounds_set_worker: "bounds_ok (set_worker i w p) = bounds_ok p"
  by (simp add: bounds_ok_def)

text \<open>A worker that only changes its place.\<close>

lemma pool_ok_move:
  assumes "pool_ok p" and i: "i < length (workers p)"
    and "is_waiting (workers p ! i) = is_waiting w" and "(workers p ! i = Gone) = (w = Gone)"
    and "is_busy (workers p ! i) = is_busy w" and "\<And>s. works_for s (workers p ! i) = works_for s w"
    and "held (workers p ! i) = held w"
  shows "pool_ok (set_worker i w p)"
proof -
  from assms(1) have ok: "counters_ok p" "bounds_ok p" "items_ok p" by (simp_all add: pool_ok_def)
  from counters_set_worker [OF ok(1) i, where w = "w" and a = "idleWorkers p" and b = "liveWorkers p" and c = "running p" and d = "inflight p"]
    items_set_worker [OF ok(3) i, where w = "w" and a = "idleWorkers p" and b = "liveWorkers p" and c = "running p" and d = "inflight p"] assms(3-) ok(2)
  show ?thesis by (simp add: pool_ok_def bounds_set_worker)
qed

lemma pool_ok_start_wait:
  assumes "pool_ok p" and i: "i < length (workers p)" and "workers p ! i = Entering"
  shows "pool_ok (set_worker i (Waiting sh) (p\<lparr>idleWorkers := idleWorkers p + 1\<rparr>))"
proof -
  from assms(1) have ok: "counters_ok p" "bounds_ok p" "items_ok p" by (simp_all add: pool_ok_def)
  from counters_set_worker [OF ok(1) i, where w = "Waiting sh" and a = "idleWorkers p + 1" and b = "liveWorkers p" and c = "running p" and d = "inflight p"]
    items_set_worker [OF ok(3) i, where w = "Waiting sh" and a = "idleWorkers p + 1" and b = "liveWorkers p" and c = "running p" and d = "inflight p"]
    assms(3) ok(2)
  show ?thesis by (simp add: pool_ok_def bounds_ok_def)
qed

lemma pool_ok_stop_wait:
  assumes "pool_ok p" and i: "i < length (workers p)" and "workers p ! i = Waiting sh"
  shows "pool_ok (set_worker i Entering (p\<lparr>idleWorkers := idleWorkers p - 1\<rparr>))"
proof -
  from assms(1) have ok: "counters_ok p" "bounds_ok p" "items_ok p" by (simp_all add: pool_ok_def)
  have "0 < count_w is_waiting (workers p)"
    using i assms(3) by (intro count_w_pos [of i]) simp_all
  then have "0 < idleWorkers p" using ok(1) by (simp add: counters_ok_def)
  with counters_set_worker [OF ok(1) i, where w = "Entering" and a = "idleWorkers p - 1" and b = "liveWorkers p" and c = "running p" and d = "inflight p"]
    items_set_worker [OF ok(3) i, where w = "Entering" and a = "idleWorkers p - 1" and b = "liveWorkers p" and c = "running p" and d = "inflight p"]
    assms(3) ok(2)
  show ?thesis by (simp add: pool_ok_def bounds_ok_def)
qed

text \<open>A worker that ends: the pool has no work for it, or another worker.\<close>

lemma pool_ok_gone:
  assumes "pool_ok p" and i: "i < length (workers p)" and "workers p ! i = Entering"
    and "queue p = [] \<or> 1 < liveWorkers p"
  shows "pool_ok (set_worker i Gone (p\<lparr>liveWorkers := liveWorkers p - 1\<rparr>))"
proof -
  from assms(1) have ok: "counters_ok p" "bounds_ok p" "items_ok p" by (simp_all add: pool_ok_def)
  have "0 < count_w (\<lambda>w. w \<noteq> Gone) (workers p)"
    using i assms(3) by (intro count_w_pos [of i]) simp_all
  then have "0 < liveWorkers p" using ok(1) by (simp add: counters_ok_def)
  with counters_set_worker [OF ok(1) i, where w = "Gone" and a = "idleWorkers p" and b = "liveWorkers p - 1" and c = "running p" and d = "inflight p"]
    items_set_worker [OF ok(3) i, where w = "Gone" and a = "idleWorkers p" and b = "liveWorkers p - 1" and c = "running p" and d = "inflight p"]
    assms(3,4) ok(2)
  show ?thesis by (auto simp: pool_ok_def bounds_ok_def)
qed

lemma pool_ok_take:
  assumes "pool_ok p" and i: "i < length (workers p)" and e: "workers p ! i = Entering" and q: "queue p = it # q"
  shows "pool_ok (NoteInflight (stub it) 1
    (set_worker i (Holding it) (p\<lparr>queue := q, running := running p + 1, taken := taken p @ [it]\<rparr>)))"
    (is "pool_ok ?p")
proof -
  from assms(1) have ok: "counters_ok p" "bounds_ok p" "items_ok p" by (simp_all add: pool_ok_def)
  let ?d = "(inflight p)(stub it := inflight p (stub it) + 1)"
  have "counters_ok (set_worker i (Holding it) (p\<lparr>idleWorkers := idleWorkers p, liveWorkers := liveWorkers p,
      running := running p + 1, inflight := ?d\<rparr>))"
    unfolding counters_set_worker [OF ok(1) i] using e by simp
  then have "counters_ok ?p" by (simp add: counters_ok_def NoteInflight_def Let_def)
  moreover have "bounds_ok ?p" using ok(2) q by (auto simp: bounds_ok_def NoteInflight_def Let_def)
  moreover have "items_ok ?p"
    using ok(3) q held_items_update [OF i, of "Holding it"] e
    by (simp add: items_ok_def NoteInflight_def Let_def)
  ultimately show ?thesis by (simp add: pool_ok_def)
qed

lemma pool_ok_take_or_leave:
  assumes "pool_ok p" and i: "i < length (workers p)" and e: "workers p ! i = Entering"
  shows "pool_ok (take_or_leave i p)"
proof (cases "queue p")
  case Nil
  have "set_worker i Entering p = p" using e by (simp add: set_worker_def list_update_same_conv i)
  with assms Nil pool_ok_gone [OF assms] show ?thesis
    by (auto simp: take_or_leave_def ExitIdleWorker_def)
next
  case (Cons it q)
  with pool_ok_take [OF assms Cons] show ?thesis by (simp add: take_or_leave_def)
qed

lemma take_or_leave_set: "take_or_leave i (set_worker i w p) = take_or_leave i p"
  by (simp add: take_or_leave_def ExitIdleWorker_def set_worker_def NoteInflight_def Let_def split: list.split)

lemma pool_ok_after_wait:
  assumes "pool_ok p" and i: "i < length (workers p)" and "workers p ! i = Waiting sh"
  shows "pool_ok (after_wait i p)"
proof -
  have "pool_ok (take_or_leave i (set_worker i Entering (p\<lparr>idleWorkers := idleWorkers p - 1\<rparr>)))"
    using pool_ok_stop_wait [OF assms] i by (intro pool_ok_take_or_leave) simp_all
  then show ?thesis by (simp only: take_or_leave_set after_wait_def)
qed

lemma pool_ok_enter:
  assumes "pool_ok p" and i: "i < length (workers p)" and "workers p ! i = Entering"
  shows "pool_ok (enter i p)"
  using pool_ok_take_or_leave [OF assms] pool_ok_start_wait [OF assms]
  by (simp add: enter_def after_wait_def Let_def)

lemma pool_ok_begin:
  assumes "pool_ok p" and i: "i < length (workers p)" and e: "workers p ! i = Holding it"
  shows "pool_ok (begin_item i now allowed it p)"
proof -
  from assms(1) have ok: "counters_ok p" "bounds_ok p" "items_ok p" by (simp_all add: pool_ok_def)
  have "counters_ok (set_worker i (InHandler it) (p\<lparr>idleWorkers := idleWorkers p, liveWorkers := liveWorkers p,
      running := running p, inflight := inflight p\<rparr>))"
    unfolding counters_set_worker [OF ok(1) i] using e by simp
  then have "counters_ok (begin_item i now allowed it p)" by (simp add: counters_ok_def begin_item_def)
  moreover have "bounds_ok (begin_item i now allowed it p)" using ok(2) by (simp add: bounds_ok_def begin_item_def)
  moreover have "items_ok (begin_item i now allowed it p)"
    using ok(3) held_items_update [OF i, of "InHandler it"] e by (simp add: items_ok_def begin_item_def)
  ultimately show ?thesis by (simp add: pool_ok_def)
qed

lemma pool_ok_note:
  assumes "pool_ok p" and i: "i < length (workers p)" and e: "workers p ! i = Finishing it r"
  shows "pool_ok (note_done i it r p)"
proof -
  from assms(1) have ok: "counters_ok p" "bounds_ok p" "items_ok p" by (simp_all add: pool_ok_def)
  have "0 < count_w (works_for (stub it)) (workers p)"
    using i e by (intro count_w_pos [of i]) simp_all
  then have pos: "0 < inflight p (stub it)" using ok(1) by (simp add: counters_ok_def)
  let ?d = "(inflight p)(stub it := inflight p (stub it) - 1)"
  have "counters_ok (set_worker i (Leaving r) (p\<lparr>idleWorkers := idleWorkers p, liveWorkers := liveWorkers p,
      running := running p, inflight := ?d\<rparr>))"
    unfolding counters_set_worker [OF ok(1) i] using e pos by simp
  then have "counters_ok (note_done i it r p)"
    using pos by (simp add: counters_ok_def note_done_def NoteInflight_def Let_def)
  moreover have "bounds_ok (note_done i it r p)"
    using ok(2) by (simp add: bounds_ok_def note_done_def NoteInflight_def Let_def)
  moreover have "items_ok (note_done i it r p)"
    using ok(3) held_items_update [OF i, of "Leaving r"] e
    by (simp add: items_ok_def note_done_def NoteInflight_def Let_def)
  ultimately show ?thesis by (simp add: pool_ok_def)
qed

text \<open>All of it but the worker that a waiting queue needs, which \<open>EnsureWorker\<close> brings.\<close>

definition pool_ok_but_worker :: "pool \<Rightarrow> bool" where
  "pool_ok_but_worker p \<longleftrightarrow> counters_ok p \<and> items_ok p \<and>
     1 \<le> maxThreads p \<and> liveWorkers p \<le> maxThreads p \<and>
     (0 < maxElements p \<longrightarrow> length (queue p) + running p \<le> maxElements p) \<and>
     (queue p \<noteq> [] \<longrightarrow> \<not> stopping p) \<and> (registered p \<longrightarrow> \<not> stopping p \<and> joining p = [])"

lemma pool_ok_iff_worker: "pool_ok p \<longleftrightarrow> pool_ok_but_worker p \<and> (queue p \<noteq> [] \<longrightarrow> 0 < liveWorkers p)"
  by (auto simp: pool_ok_def pool_ok_but_worker_def bounds_ok_def)

lemma idle_le_live:
  assumes "counters_ok p"
  shows "idleWorkers p \<le> liveWorkers p"
proof -
  have "count_w is_waiting (workers p) \<le> count_w (\<lambda>w. w \<noteq> Gone) (workers p)"
    by (rule count_w_le) auto
  with assms show ?thesis by (simp add: counters_ok_def)
qed

lemma running_le_live:
  assumes "counters_ok p"
  shows "running p \<le> liveWorkers p"
proof -
  have "count_w is_busy (workers p) \<le> count_w (\<lambda>w. w \<noteq> Gone) (workers p)"
    by (rule count_w_le) auto
  with assms show ?thesis by (simp add: counters_ok_def)
qed

lemma pool_ok_ensure:
  assumes "pool_ok_but_worker p"
  shows "pool_ok (EnsureWorker p)"
proof (cases "stopping p \<or> liveWorkers p \<ge> maxThreads p \<or> idleWorkers p > 0 \<or> queue p = []")
  case True
  then have "EnsureWorker p = p" by (simp add: EnsureWorker_def)
  moreover have "queue p \<noteq> [] \<Longrightarrow> 0 < liveWorkers p"
    using True assms idle_le_live [of p] by (auto simp: pool_ok_but_worker_def)
  ultimately show ?thesis using assms by (simp add: pool_ok_iff_worker)
next
  case False
  then have e: "EnsureWorker p = p\<lparr>liveWorkers := liveWorkers p + 1, workers := workers p @ [Entering]\<rparr>"
    by (simp add: EnsureWorker_def)
  from assms have ok: "counters_ok p" "items_ok p" by (simp_all add: pool_ok_but_worker_def)
  have "counters_ok (EnsureWorker p)" using ok(1) by (simp add: e counters_ok_def)
  moreover have "items_ok (EnsureWorker p)" using ok(2) by (simp add: e items_ok_def)
  moreover have "bounds_ok (EnsureWorker p)"
    using assms False by (simp add: e bounds_ok_def pool_ok_but_worker_def)
  ultimately show ?thesis by (simp add: pool_ok_def)
qed

lemma pool_ok_leave:
  assumes "pool_ok p" and i: "i < length (workers p)" and e: "workers p ! i = Leaving r"
  shows "pool_ok (leave i r p)"
proof -
  from assms(1) have ok: "counters_ok p" "bounds_ok p" "items_ok p" by (simp_all add: pool_ok_def)
  have "0 < count_w is_busy (workers p)" "0 < count_w (\<lambda>w. w \<noteq> Gone) (workers p)"
    using i e by (auto intro: count_w_pos [of i])
  then have pos: "0 < running p" "0 < liveWorkers p" using ok(1) by (simp_all add: counters_ok_def)
  show ?thesis
  proof (cases r)
    case True
    let ?q = "set_worker i Gone (p\<lparr>liveWorkers := liveWorkers p - 1, running := running p - 1\<rparr>)"
    have leave: "leave i r p = EnsureWorker ?q"
      using True by (cases p) (simp add: leave_def set_worker_def)
    have "pool_ok_but_worker ?q"
      using counters_set_worker [OF ok(1) i, where w = Gone and a = "idleWorkers p" and b = "liveWorkers p - 1"
          and c = "running p - 1" and d = "inflight p"]
        items_set_worker [OF ok(3) i, where w = Gone and a = "idleWorkers p" and b = "liveWorkers p - 1"
          and c = "running p - 1" and d = "inflight p"] e pos ok(2)
      by (auto simp: pool_ok_but_worker_def bounds_ok_def)
    from pool_ok_ensure [OF this] show ?thesis by (simp only: leave)
  next
    case False
    have "pool_ok (set_worker i Entering (p\<lparr>running := running p - 1\<rparr>))"
      using counters_set_worker [OF ok(1) i, where w = Entering and a = "idleWorkers p" and b = "liveWorkers p"
          and c = "running p - 1" and d = "inflight p"]
        items_set_worker [OF ok(3) i, where w = Entering and a = "idleWorkers p" and b = "liveWorkers p"
          and c = "running p - 1" and d = "inflight p"] e pos ok(2)
      by (auto simp: pool_ok_def bounds_ok_def)
    with False show ?thesis by (simp add: leave_def)
  qed
qed

lemma pool_ok_worker_step: "worker_step p q \<Longrightarrow> pool_ok p \<Longrightarrow> pool_ok q"
proof (induction rule: worker_step.induct)
  case (w_end i p it threw)
  then show ?case by (simp add: end_item_def pool_ok_move)
qed (simp_all add: pool_ok_enter pool_ok_after_wait pool_ok_begin pool_ok_note pool_ok_leave)

lemma pool_ok_enqueue:
  assumes "pool_ok p"
  shows "pool_ok (snd (Enqueue it p))"
proof (cases "stopping p \<or> (maxElements p > 0 \<and> length (queue p) + running p \<ge> maxElements p)")
  case True
  with assms show ?thesis by (auto simp: Enqueue_def)
next
  case False
  have "pool_ok_but_worker (p\<lparr>queue := queue p @ [it], accepted := accepted p @ [it]\<rparr>)"
  proof -
    from assms have ok: "counters_ok p" "bounds_ok p" "items_ok p" by (simp_all add: pool_ok_def)
    from ok(3) have "subseq ((taken p @ queue p) @ [it]) (accepted p @ [it])"
      by (simp only: items_ok_def subseq_append)
    with ok(3) have "items_ok (p\<lparr>queue := queue p @ [it], accepted := accepted p @ [it]\<rparr>)"
      by (simp add: items_ok_def)
    with ok False show ?thesis
      by (simp add: pool_ok_but_worker_def bounds_ok_def counters_ok_def) linarith?
  qed
  from pool_ok_ensure [OF this] False show ?thesis by (auto simp: Enqueue_def)
qed

lemma pool_ok_client_step: "client_step p q \<Longrightarrow> pool_ok p \<Longrightarrow> pool_ok q"
proof (induction rule: client_step.induct)
  case (c_enqueue p it)
  then show ?case by (rule pool_ok_enqueue)
next
  case (c_reject p s)
  let ?out = "filter (\<lambda>it. stub it = s) (queue p)" and ?kept = "filter (\<lambda>it. stub it \<noteq> s) (queue p)"
  from c_reject have ok: "counters_ok p" "bounds_ok p" "items_ok p" by (simp_all add: pool_ok_def)
  have len: "length ?kept + running p \<le> length (queue p) + running p" by simp
  have items: "mset (queue p) = mset ?kept + mset ?out"
    unfolding mset_filter by (subst add.commute) (rule multiset_partition)
  have "subseq (taken p @ ?kept) (taken p @ queue p)"
    by (simp only: subseq_append' subseq_filter_left)
  with ok(3) have "subseq (taken p @ ?kept) (accepted p)"
    unfolding items_ok_def by (blast intro: subseq_order.trans)
  moreover from ok(3) have "mset (accepted p) = mset (map fst (dispatched p)) + mset ?kept + mset (joining p)
      + (mset (rejecting p) + mset ?out) + held_items (workers p)"
    unfolding items_ok_def items by (simp only: ac_simps)
  ultimately have "items_ok (reject_start s p)"
    using ok(3) by (simp only: items_ok_def reject_start_def) (auto simp del: mset_filter)
  moreover have "bounds_ok (reject_start s p)"
    using ok(2) by (auto simp: bounds_ok_def reject_start_def intro: order.trans [OF len])
  moreover have "counters_ok (reject_start s p)"
    using ok(1) by (simp add: counters_ok_def reject_start_def)
  ultimately show ?case by (simp add: pool_ok_def)
next
  case (c_join p)
  from c_join(2) have ok: "counters_ok p" "bounds_ok p" "items_ok p" by (simp_all add: pool_ok_def)
  have "subseq (taken p) (taken p @ queue p)" by (rule prefix_imp_subseq) simp
  with ok(3) have "subseq (taken p) (accepted p)"
    unfolding items_ok_def by (blast intro: subseq_order.trans)
  with ok(3) have "items_ok (join_start p)" by (simp add: items_ok_def join_start_def)
  moreover have "bounds_ok (join_start p)"
    using ok(2) c_join(1) by (auto simp: bounds_ok_def join_start_def)
  moreover have "counters_ok (join_start p)" using ok(1) by (simp add: counters_ok_def join_start_def)
  ultimately show ?case by (simp add: pool_ok_def)
qed (auto simp: pool_ok_def counters_ok_def bounds_ok_def items_ok_def reject_item_def unregister_def
    join_reject_def split: list.split)

lemma pool_ok_new: "pool_ok (StartFloorWorker (new_pool mt me sh rt))"
  by (simp add: new_pool_def StartFloorWorker_def pool_ok_def counters_ok_def bounds_ok_def items_ok_def
      count_w_def held_items_def)

interpretation pool_inv: kept_by_steps pool_step pool_ok
  by unfold_locales (auto simp: pool_step_def intro: pool_ok_worker_step pool_ok_client_step)

lemma worker_step_limits:
  "worker_step p q \<Longrightarrow> maxThreads q = maxThreads p \<and> maxElements q = maxElements p"
  by (induction rule: worker_step.induct)
    (auto simp: enter_def after_wait_def take_or_leave_def ExitIdleWorker_def NoteInflight_def begin_item_def
      end_item_def note_done_def leave_def EnsureWorker_def Let_def split: list.split)

lemma client_step_limits:
  "client_step p q \<Longrightarrow> maxThreads q = maxThreads p \<and> maxElements q = maxElements p"
  by (induction rule: client_step.induct)
    (auto simp: Enqueue_def EnsureWorker_def reject_start_def reject_item_def unregister_def join_start_def
      join_reject_def split: list.split)

interpretation pool_limits: constant_on_steps pool_step "\<lambda>p. (maxThreads p, maxElements p)"
  by unfold_locales (auto simp: pool_step_def dest: worker_step_limits client_step_limits)

subsection \<open>A stub that left the pool\<close>

lemma no_worker_for:
  assumes "count_w (works_for s) ws = 0"
  shows "\<forall>w \<in> set ws. \<not> works_for s w" "filter_mset (\<lambda>it. stub it = s) (held_items ws) = {#}"
proof -
  from assms show none: "\<forall>w \<in> set ws. \<not> works_for s w"
    by (auto simp: count_w_def filter_empty_conv)
  then show "filter_mset (\<lambda>it. stub it = s) (held_items ws) = {#}"
  proof (induction ws)
    case (Cons w ws)
    then show ?case by (cases w) (auto simp: held_items_def)
  qed (simp add: held_items_def)
qed

definition stub_left :: "nat \<Rightarrow> pool \<Rightarrow> bool" where
  "stub_left s p \<longleftrightarrow> inflight p s = 0 \<and> (\<forall>it \<in> set (queue p @ rejecting p). stub it \<noteq> s)"

lemma stub_left_drained:
  assumes "pool_ok p" and "stub_left s p" and "\<forall>it \<in> set (joining p). stub it \<noteq> s"
  shows "(\<forall>w \<in> set (workers p). \<not> works_for s w) \<and>
    filter_mset (\<lambda>it. stub it = s) (mset (accepted p)) =
    filter_mset (\<lambda>it. stub it = s) (mset (map fst (dispatched p)))"
proof -
  from assms(1) have ok: "counters_ok p" "items_ok p" by (simp_all add: pool_ok_def)
  from ok(1) assms(2) have "count_w (works_for s) (workers p) = 0"
    by (simp add: counters_ok_def stub_left_def)
  note none = no_worker_for [OF this]
  have empty: "filter_mset (\<lambda>it. stub it = s) (mset xs) = {#}" if "\<forall>it \<in> set xs. stub it \<noteq> s" for xs
    using that by (induction xs) auto
  from assms(2,3) have "filter_mset (\<lambda>it. stub it = s) (mset (queue p)) = {#}"
      "filter_mset (\<lambda>it. stub it = s) (mset (joining p)) = {#}"
      "filter_mset (\<lambda>it. stub it = s) (mset (rejecting p)) = {#}"
    by (auto simp: stub_left_def intro!: empty)
  with ok(2) none show ?thesis by (simp add: items_ok_def)
qed

subsection \<open>The queue is served\<close>

fun rank :: "worker \<Rightarrow> nat" where
  "rank (Holding _) = 4" | "rank (InHandler _) = 3" | "rank (Finishing _ _) = 2" | "rank (Leaving _) = 1"
| "rank _ = 0"

definition rank_sum :: "pool \<Rightarrow> nat" where
  "rank_sum p = sum_list (map rank (workers p))"

lemma rank_sum_update:
  "i < length ws \<Longrightarrow> sum_list (map rank (ws[i := w])) + rank (ws ! i) = sum_list (map rank ws) + rank w"
proof (induction ws arbitrary: i)
  case (Cons v ws)
  then show ?case by (cases i) auto
qed simp

text \<open>A busy worker whose handler returns comes closer to the next item; nothing else moves.\<close>

lemma busy_worker_step:
  assumes i: "i < length (workers p)" and "is_busy (workers p ! i)"
  shows "\<exists>q. worker_step p q \<and> queue q = queue p \<and> taken q = taken p \<and> stopping q = stopping p \<and>
    rank_sum q < rank_sum p"
proof -
  note u = rank_sum_update [OF i]
  show ?thesis
  proof (cases "workers p ! i")
    case (Holding it)
    with u [of "InHandler it"] show ?thesis
      by (intro exI [of _ "begin_item i 0 True it p"])
        (use w_begin [OF i Holding, of 0 True] in \<open>simp add: begin_item_def rank_sum_def\<close>)
  next
    case (InHandler it)
    with u [of "Finishing it False"] show ?thesis
      by (intro exI [of _ "end_item i False it p"])
        (use w_end [OF i InHandler, of False] in \<open>simp add: end_item_def rank_sum_def\<close>)
  next
    case (Finishing it r)
    with u [of "Leaving r"] show ?thesis
      by (intro exI [of _ "note_done i it r p"])
        (use w_note [OF i Finishing] in \<open>simp add: note_done_def NoteInflight_def Let_def rank_sum_def\<close>)
  next
    case (Leaving r)
    with u [of Gone] u [of Entering] show ?thesis
      by (intro exI [of _ "leave i r p"])
        (use w_leave [OF i Leaving] in \<open>auto simp: leave_def EnsureWorker_def Let_def rank_sum_def\<close>)
  qed (use assms in auto)
qed

lemma free_worker_takes:
  assumes i: "i < length (workers p)" and "workers p ! i = Entering \<or> workers p ! i = Waiting sh"
    and q: "queue p = it # q"
  shows "\<exists>q'. worker_step p q' \<and> taken q' = taken p @ [it]"
  using assms(2)
proof
  assume e: "workers p ! i = Entering"
  from w_enter [OF i e] q show ?thesis
    by (intro exI [of _ "enter i p"])
      (simp add: enter_def after_wait_def take_or_leave_def NoteInflight_def Let_def)
next
  assume w: "workers p ! i = Waiting sh"
  from w_wake [OF i w] q show ?thesis
    by (intro exI [of _ "after_wait i p"])
      (simp add: after_wait_def take_or_leave_def NoteInflight_def Let_def)
qed

lemma head_taken:
  assumes "pool_ok p" and "\<not> stopping p" and "queue p = it # q"
  shows "\<exists>p'. worker_step\<^sup>*\<^sup>* p p' \<and> taken p' = taken p @ [it]"
  using assms
proof (induction "rank_sum p" arbitrary: p rule: less_induct)
  case less
  from less.prems have "0 < count_w (\<lambda>w. w \<noteq> Gone) (workers p)"
    by (simp add: pool_ok_def bounds_ok_def counters_ok_def)
  then obtain i where i: "i < length (workers p)" "workers p ! i \<noteq> Gone"
    by (auto simp: count_w_def filter_empty_conv in_set_conv_nth)
  show ?case
  proof (cases "is_busy (workers p ! i)")
    case True
    from busy_worker_step [OF i(1) True] obtain r where r: "worker_step p r" "queue r = queue p"
        "taken r = taken p" "stopping r = stopping p" "rank_sum r < rank_sum p" by blast
    from less.hyps [OF r(5)] pool_ok_worker_step [OF r(1)] less.prems r
    obtain p' where "worker_step\<^sup>*\<^sup>* r p'" "taken p' = taken p @ [it]" by auto
    with r(1) show ?thesis by (meson converse_rtranclp_into_rtranclp)
  next
    case False
    with i(2) have "workers p ! i = Entering \<or> (\<exists>sh. workers p ! i = Waiting sh)"
      by (cases "workers p ! i") auto
    with free_worker_takes [OF i(1) _ less.prems(3)] show ?thesis by blast
  qed
qed

subsection \<open>Two runs\<close>

text \<open>
  Every worker is inside a handler, work waits, and the limit would allow one more thread.  Until
  a handler returns no worker can take the work.
\<close>

definition stalled :: "pool \<Rightarrow> bool" where
  "stalled p \<longleftrightarrow> queue p \<noteq> [] \<and> \<not> stopping p \<and> liveWorkers p < maxThreads p \<and>
     (\<forall>w \<in> set (workers p). w = Gone \<or> (\<exists>it. w = InHandler it))"

lemma stalled_step:
  assumes "stalled p" and "worker_step p q"
  shows "\<exists>i it threw. i < length (workers p) \<and> workers p ! i = InHandler it \<and> q = end_item i threw it p"
  using assms(2,1)
proof (cases rule: worker_step.cases)
  case (w_end i it threw)
  then show ?thesis by blast
qed (use assms(1) nth_mem in \<open>fastforce simp: stalled_def\<close>)+

definition two_quick_calls :: "bool \<Rightarrow> bool \<Rightarrow> WorkItem \<Rightarrow> WorkItem \<Rightarrow> pool" where
  "two_quick_calls sh rt a b =
     (let p = enter 0 (StartFloorWorker (new_pool 2 0 sh rt));
          p = snd (Enqueue b (snd (Enqueue a p)));
          p = after_wait 0 p
      in begin_item 0 0 True a p)"

lemmas pool_run = new_pool_def StartFloorWorker_def enter_def Enqueue_def EnsureWorker_def after_wait_def
  take_or_leave_def NoteInflight_def begin_item_def set_worker_def Let_def

lemma two_quick_calls_reached:
  "pool_reach (StartFloorWorker (new_pool 2 0 sh rt)) (two_quick_calls sh rt a b)"
proof -
  let ?p0 = "StartFloorWorker (new_pool 2 0 sh rt)"
  let ?p1 = "enter 0 ?p0" let ?p2 = "snd (Enqueue a ?p1)" let ?p3 = "snd (Enqueue b ?p2)"
  let ?p4 = "after_wait 0 ?p3"
  have "worker_step ?p0 ?p1" by (rule w_enter) (simp_all add: pool_run)
  then have 1: "pool_reach ?p0 ?p1" by (rule pr_worker [OF pr_start])
  have 3: "pool_reach ?p0 ?p3" by (rule pr_client [OF pr_client [OF 1 c_enqueue] c_enqueue])
  have "worker_step ?p3 ?p4" by (rule w_wake [of 0 _ False]) (simp_all add: pool_run)
  with 3 have 4: "pool_reach ?p0 ?p4" by (rule pr_worker)
  have "worker_step ?p4 (begin_item 0 0 True a ?p4)" by (rule w_begin) (simp_all add: pool_run)
  with 4 have "pool_reach ?p0 (begin_item 0 0 True a ?p4)" by (rule pr_worker)
  then show ?thesis by (simp only: two_quick_calls_def Let_def)
qed

lemma two_quick_calls_stalled: "stalled (two_quick_calls sh rt a b) \<and> queue (two_quick_calls sh rt a b) = [b]"
  by (simp add: two_quick_calls_def stalled_def pool_run)

text \<open>A shutdown holds the items of a stub where \<open>RejectQueuedAndWait\<close> does not look.\<close>

definition shut_down_with :: "nat \<Rightarrow> WorkItem \<Rightarrow> pool" where
  "shut_down_with mt a = join_start (unregister (snd (Enqueue a (StartFloorWorker (new_pool mt 0 True False)))))"

lemma shut_down_with_reached: "pool_reach (StartFloorWorker (new_pool mt 0 True False)) (shut_down_with mt a)"
proof -
  let ?p0 = "StartFloorWorker (new_pool mt 0 True False)"
  have "pool_reach ?p0 (unregister (snd (Enqueue a ?p0)))"
    by (rule pr_client [OF pr_client [OF pr_start c_enqueue] c_unregister])
  then show ?thesis unfolding shut_down_with_def
    by (rule pr_client) (rule c_join, simp add: unregister_def)
qed

lemma shut_down_with_left:
  "stub_left (stub a) (shut_down_with mt a) \<and> reject_start (stub a) (shut_down_with mt a) = shut_down_with mt a \<and>
   dispatched (shut_down_with mt a) = [] \<and>
   dispatched (join_reject (shut_down_with mt a)) = [(a, Do_ShutdownReject)]"
proof -
  have "joining (shut_down_with mt a) = [a]" "queue (shut_down_with mt a) = []"
    "dispatched (shut_down_with mt a) = []" "inflight (shut_down_with mt a) = (\<lambda>_. 0)"
    "rejecting (shut_down_with mt a) = []" "\<not> registered (shut_down_with mt a)"
    by (simp_all add: shut_down_with_def join_start_def unregister_def pool_run)
  then show ?thesis by (simp add: stub_left_def reject_start_def join_reject_def)
qed

subsection \<open>The registry\<close>

datatype SnaccWorkerFaultPolicy = KeepWorker | RetireWorker

record SnaccWorkerPoolConfig =
  cf_name :: string
  cf_maxThreads :: nat
  cf_idleTimeoutMs :: nat
  cf_maxElements :: nat
  cf_faultPolicy :: SnaccWorkerFaultPolicy
  cf_operationIds :: "opid list"

record registry =
  pools :: "(string \<times> pool) list"
  operationPools :: "opid \<rightharpoonup> string"

text \<open>\<open>poolsByName\<close> is the lookup in \<open>pools\<close>: both are filled together.\<close>

definition no_pools :: registry where
  "no_pools = \<lparr>pools = [], operationPools = Map.empty\<rparr>"

definition PoolForOperation :: "registry \<Rightarrow> opid \<Rightarrow> string" where
  "PoolForOperation R uiOperationId = (case operationPools R uiOperationId of Some n \<Rightarrow> n | None \<Rightarrow> '''')"

definition LiveThreads :: "registry \<Rightarrow> string \<Rightarrow> nat" where
  "LiveThreads R poolName = (case map_of (pools R) poolName of None \<Rightarrow> 0 | Some p \<Rightarrow> liveWorkers p)"

fun ids_once :: "opid list \<Rightarrow> opid set \<Rightarrow> opid set option" where
  "ids_once [] seen = Some seen"
| "ids_once (i # is) seen = (if i \<in> seen then None else ids_once is (insert i seen))"

fun check_configs :: "SnaccWorkerPoolConfig list \<Rightarrow> opid set \<Rightarrow> bool" where
  "check_configs [] seen = True"
| "check_configs (c # cs) seen =
     (case ids_once (cf_operationIds c) seen of None \<Rightarrow> False | Some seen' \<Rightarrow> check_configs cs seen')"

definition add_pool :: "SnaccWorkerPoolConfig \<Rightarrow> registry \<Rightarrow> registry" where
  "add_pool c R =
     (if map_of (pools R) (cf_name c) \<noteq> None then R
      else let p = new_pool (cf_maxThreads c) (cf_maxElements c) (cf_idleTimeoutMs c > 0)
                     (cf_faultPolicy c = RetireWorker)
           in \<lparr>pools = pools R @ [(cf_name c, StartFloorWorker p)],
               operationPools = fold (\<lambda>i. insert_key i (cf_name c)) (cf_operationIds c) (operationPools R)\<rparr>)"

text \<open>\<open>Shutdown\<close> of the registry: the maps are dropped first; joining a pool is above.\<close>

definition Shutdown :: "registry \<Rightarrow> registry" where
  "Shutdown R = no_pools"

definition Configure :: "SnaccWorkerPoolConfig list \<Rightarrow> registry \<Rightarrow> bool \<times> registry" where
  "Configure cs R = (if \<not> check_configs cs {} then (False, R) else (True, fold add_pool cs (Shutdown R)))"

lemma ids_once_iff:
  "ids_once is seen = (if distinct is \<and> set is \<inter> seen = {} then Some (set is \<union> seen) else None)"
  by (induction "is" arbitrary: seen) auto

lemma check_configs_iff:
  "check_configs cs seen \<longleftrightarrow> distinct (concat (map cf_operationIds cs)) \<and>
     set (concat (map cf_operationIds cs)) \<inter> seen = {}"
proof (induction cs arbitrary: seen)
  case (Cons c cs)
  show ?case unfolding check_configs.simps ids_once_iff
    by (auto simp: Cons.IH)
qed simp

lemma insert_key_ids:
  "fold (\<lambda>i. insert_key i n) is m j = (if m j = None \<and> j \<in> set is then Some n else m j)"
  by (induction "is" arbitrary: m) (auto simp: insert_key_def split: option.splits)

text \<open>The pool of an operation: the first configuration of its name that is not a repeat.\<close>

fun routed :: "SnaccWorkerPoolConfig list \<Rightarrow> string set \<Rightarrow> opid \<Rightarrow> string option" where
  "routed [] names i = None"
| "routed (c # cs) names i =
     (if cf_name c \<in> names then routed cs names i
      else if i \<in> set (cf_operationIds c) then Some (cf_name c)
      else routed cs (insert (cf_name c) names) i)"

lemma add_pools:
  "operationPools (fold add_pool cs R) i =
     (case operationPools R i of Some n \<Rightarrow> Some n | None \<Rightarrow> routed cs (fst ` set (pools R)) i) \<and>
   fst ` set (pools (fold add_pool cs R)) = fst ` set (pools R) \<union> cf_name ` set cs"
proof (induction cs arbitrary: R)
  case (Cons c cs)
  have n: "map_of (pools R) (cf_name c) = None \<longleftrightarrow> cf_name c \<notin> fst ` set (pools R)"
    by (rule map_of_eq_None_iff)
  show ?case
  proof (cases "cf_name c \<in> fst ` set (pools R)")
    case True
    with n have "add_pool c R = R" by (auto simp: add_pool_def)
    with True Cons [of R] show ?thesis by (simp add: insert_absorb split: option.split)
  next
    case False
    with n have "operationPools (add_pool c R) i = (if operationPools R i = None \<and> i \<in> set (cf_operationIds c)
          then Some (cf_name c) else operationPools R i)"
        "fst ` set (pools (add_pool c R)) = insert (cf_name c) (fst ` set (pools R))"
      by (simp_all add: add_pool_def Let_def insert_key_ids)
    with False Cons [of "add_pool c R"] show ?thesis by (simp split: option.split)
  qed
qed (simp split: option.split)

lemma Configure_routes:
  assumes "Configure cs R = (True, R')"
  shows "operationPools R' i = routed cs {} i" "fst ` set (pools R') = cf_name ` set cs"
  using add_pools [of cs "no_pools" i] assms
  by (auto simp: Configure_def Shutdown_def no_pools_def split: if_splits)

lemma new_pools_one_thread:
  assumes "\<forall>(n, p) \<in> set (pools R). liveWorkers p = 1"
  shows "\<forall>(n, p) \<in> set (pools (fold add_pool cs R)). liveWorkers p = 1"
  using assms
proof (induction cs arbitrary: R)
  case (Cons c cs)
  then have "\<forall>(n, p) \<in> set (pools (add_pool c R)). liveWorkers p = 1"
    by (auto simp: add_pool_def Let_def StartFloorWorker_def new_pool_def)
  from Cons.IH [OF this] show ?case by simp
qed simp

lemma Configure_threads:
  assumes "Configure cs R = (True, R')" and "c \<in> set cs"
  shows "LiveThreads R' (cf_name c) = 1"
proof -
  from assms(1) have R': "R' = fold add_pool cs no_pools" by (simp add: Configure_def Shutdown_def split: if_splits)
  from Configure_routes(2) [OF assms(1)] assms(2) have "cf_name c \<in> fst ` set (pools R')" by simp
  then obtain p where p: "map_of (pools R') (cf_name c) = Some p"
    by (metis map_of_eq_None_iff not_None_eq)
  then have "(cf_name c, p) \<in> set (pools R')" by (rule map_of_SomeD)
  with new_pools_one_thread [of no_pools cs] have "liveWorkers p = 1"
    unfolding R' by (auto simp: no_pools_def)
  with p show ?thesis by (simp add: LiveThreads_def)
qed

lemma routed_own_pool:
  assumes "distinct (map cf_name cs)" and "distinct (concat (map cf_operationIds cs))"
    and "c \<in> set cs" and "i \<in> set (cf_operationIds c)" and "\<forall>d \<in> set cs. cf_name d \<notin> names"
  shows "routed cs names i = Some (cf_name c)"
  using assms
proof (induction cs arbitrary: names)
  case (Cons d cs)
  show ?case
  proof (cases "c = d")
    case False
    with Cons.prems have c: "c \<in> set cs" by simp
    with Cons.prems(2,4) have "i \<notin> set (cf_operationIds d)" by auto
    moreover from Cons.prems c have "routed cs (insert (cf_name d) names) i = Some (cf_name c)"
      by (intro Cons.IH) (auto simp: image_iff)
    ultimately show ?thesis using Cons.prems(5) by simp
  qed (use Cons.prems in simp)
qed simp

lemma routed_nowhere: "\<forall>c \<in> set cs. i \<notin> set (cf_operationIds c) \<Longrightarrow> routed cs names i = None"
  by (induction cs arbitrary: names) auto

end
