(* ===== verification/Rose_Pending.thy ===== *)
theory Rose_Pending
  imports Step_System Rose_Inbound
begin

section \<open>Outbound invokes of a stub (\<open>cpp-lib/src/SnaccROSEBase.cpp\<close>)\<close>

text \<open>
  \<open>SendInvoke\<close>, \<open>SendInvokeAsync\<close>, \<open>FinishAsyncInvoke\<close>, the pause of a session and the
  watchdog thread, as threads over the map of pending operations.  A step is a section under
  \<open>m_InternalProtectMutex\<close> or \<open>m_watchdogMutex\<close>, or a write that the code makes without
  a lock.  An invoke id names one call, from \<open>GetNextInvokeID\<close>.  The transport, the peer and the
  clock are any steps.

  A call of \<open>FinishAsyncInvoke\<close> is a task, which its thread runs on: the claim, the two
  sections of \<open>NotifyWatchdog\<close>, the callback.  The claim and the erase are one section, so an
  operation in the map is never claimed.  \<open>dangling\<close> is set by a use of the reference
  \<open>pendingOP\<close> after the operation was erased; \<open>callbacks\<close>, \<open>lost\<close> and
  \<open>returned\<close> record what happened.
\<close>

subsection \<open>State\<close>

record PendingOperation =
  m_bAsyncInvoke :: bool
  m_bFireAndForgetAsync :: bool
  m_pAsyncContext :: bool
  m_asyncDeadline :: "nat option"
  m_lRoseResult :: int
  m_CompletedEvent :: bool

datatype call = Idle | Checked | Added | Marked_async | Marked | Deadline_set | Counted | Ensured
  | Notify_read bool | Notified | Sent int | Done

datatype watchdog = Off | Scan | Wait "nat option" | Process | Broke

datatype task = Finish int int | Notify int int bool | Notify_set bool int int bool | Callback int int

text \<open>How a call was made: \<open>SendInvoke\<close> or \<open>SendInvokeAsync\<close>, with \<open>iTimeout\<close>.\<close>

datatype mode = Sync int | Async int

record stub =
  m_PendingOperations :: "int \<rightharpoonup> PendingOperation"
  m_bProcessingAllowed :: bool
  m_asyncDeadlineCount :: nat
  m_watchdogStopRequested :: bool
  m_watchdogThreadRunning :: bool
  wd :: watchdog
  now :: nat
  calls :: "int \<Rightarrow> call"
  tasks :: "task list"
  callbacks :: "(int \<times> int) list"
  returned :: "(int \<times> int) list"
  lost :: "int list"
  dangling :: bool

definition new_stub :: stub where
  "new_stub = \<lparr>m_PendingOperations = Map.empty, m_bProcessingAllowed = True, m_asyncDeadlineCount = 0,
     m_watchdogStopRequested = False, m_watchdogThreadRunning = False, wd = Off, now = 0,
     calls = (\<lambda>_. Idle), tasks = [], callbacks = [], returned = [], lost = [], dangling = False\<rparr>"

subsection \<open>Sections\<close>

definition new_operation :: PendingOperation where
  "new_operation = \<lparr>m_bAsyncInvoke = False, m_bFireAndForgetAsync = False, m_pAsyncContext = False,
     m_asyncDeadline = None, m_lRoseResult = 0, m_CompletedEvent = False\<rparr>"

definition AddPendingOperation :: "int \<Rightarrow> stub \<Rightarrow> stub" where
  "AddPendingOperation i s =
     s\<lparr>m_PendingOperations := insert_key i new_operation (m_PendingOperations s)\<rparr>"

definition RemovePendingOperation :: "int \<Rightarrow> stub \<Rightarrow> stub" where
  "RemovePendingOperation i s = s\<lparr>m_PendingOperations := (m_PendingOperations s)(i := None)\<rparr>"

definition CompleteOperation :: "int \<Rightarrow> PendingOperation \<Rightarrow> PendingOperation" where
  "CompleteOperation r op =
     (let op = op\<lparr>m_lRoseResult := r\<rparr> in if m_bAsyncInvoke op then op else op\<lparr>m_CompletedEvent := True\<rparr>)"

text \<open>A write through the reference \<open>pendingOP\<close> without the lock.\<close>

definition write_op :: "int \<Rightarrow> (PendingOperation \<Rightarrow> PendingOperation) \<Rightarrow> stub \<Rightarrow> stub" where
  "write_op i f s =
     (case m_PendingOperations s i of
        None \<Rightarrow> s\<lparr>dangling := True\<rparr>
      | Some op \<Rightarrow> s\<lparr>m_PendingOperations := (m_PendingOperations s)(i \<mapsto> f op)\<rparr>)"

text \<open>\<open>CompletePendingOperation\<close> with the result code of the message.\<close>

definition CompletePendingOperation :: "int \<Rightarrow> int \<Rightarrow> stub \<Rightarrow> stub" where
  "CompletePendingOperation i r s =
     (case m_PendingOperations s i of
        None \<Rightarrow> s
      | Some op \<Rightarrow>
          if m_bAsyncInvoke op then s\<lparr>tasks := tasks s @ [Finish i r]\<rparr>
          else s\<lparr>m_PendingOperations := (m_PendingOperations s)(i \<mapsto> CompleteOperation r op)\<rparr>)"

text \<open>\<open>asyncInvokeIds\<close> in the order \<open>ids\<close> of the map.\<close>

definition async_ids :: "stub \<Rightarrow> int set" where
  "async_ids s = {i. \<exists>op. m_PendingOperations s i = Some op \<and> m_bAsyncInvoke op}"

definition CompleteAllPendingOperations :: "int list \<Rightarrow> stub \<Rightarrow> stub" where
  "CompleteAllPendingOperations ids s =
     s\<lparr>m_PendingOperations := (\<lambda>i. case m_PendingOperations s i of None \<Rightarrow> None
         | Some op \<Rightarrow> if m_bAsyncInvoke op then Some op else Some (CompleteOperation ROSE_TE_SHUTDOWN op)),
       tasks := tasks s @ map (\<lambda>i. Finish i ROSE_TE_SHUTDOWN) ids\<rparr>"

text \<open>The first section of \<open>FinishAsyncInvoke\<close>: the erased operation and the state.\<close>

definition claim :: "int \<Rightarrow> stub \<Rightarrow> (PendingOperation \<times> stub) option" where
  "claim i s =
     (case m_PendingOperations s i of
        None \<Rightarrow> None
      | Some op \<Rightarrow>
          if \<not> m_bAsyncInvoke op then None
          else Some (op, s\<lparr>m_asyncDeadlineCount :=
                              (if m_asyncDeadline op \<noteq> None \<and> m_asyncDeadlineCount s > 0
                               then m_asyncDeadlineCount s - 1 else m_asyncDeadlineCount s),
                           m_PendingOperations := (m_PendingOperations s)(i := None)\<rparr>))"

definition EnsureWatchdogRunning :: "stub \<Rightarrow> stub" where
  "EnsureWatchdogRunning s =
     (if m_watchdogThreadRunning s then s
      else s\<lparr>m_watchdogStopRequested := False, m_watchdogThreadRunning := True, wd := Scan\<rparr>)"

text \<open>The second section of \<open>NotifyWatchdog\<close>.\<close>

definition notify_watchdog :: "bool \<Rightarrow> stub \<Rightarrow> stub" where
  "notify_watchdog stopWatchdog s =
     (if stopWatchdog then s\<lparr>m_watchdogStopRequested := True\<rparr> else s)"

text \<open>The deadlines that the watchdog scans, and the one it waits for.\<close>

definition deadlines :: "stub \<Rightarrow> nat set" where
  "deadlines s = {d. \<exists>i op. m_PendingOperations s i = Some op \<and> m_bAsyncInvoke op \<and> m_asyncDeadline op = Some d}"

definition next_deadline :: "stub \<Rightarrow> nat option \<Rightarrow> bool" where
  "next_deadline s nd \<longleftrightarrow>
     (case nd of None \<Rightarrow> deadlines s = {} | Some d \<Rightarrow> d \<in> deadlines s \<and> (\<forall>d' \<in> deadlines s. d \<le> d'))"

definition timed_out :: "stub \<Rightarrow> int set" where
  "timed_out s = {i. \<exists>op d. m_PendingOperations s i = Some op \<and> m_bAsyncInvoke op \<and>
     m_asyncDeadline op = Some d \<and> d \<le> now s}"

definition set_call :: "int \<Rightarrow> call \<Rightarrow> stub \<Rightarrow> stub" where
  "set_call i c s = s\<lparr>calls := (calls s)(i := c)\<rparr>"

subsection \<open>Steps\<close>

text \<open>A call that ends before it is pending runs its callback itself, unless it is fire-and-forget.\<close>

definition end_early :: "mode \<Rightarrow> int \<Rightarrow> int \<Rightarrow> stub \<Rightarrow> stub" where
  "end_early md i r s =
     (let s = set_call i Done (s\<lparr>returned := returned s @ [(i, r)]\<rparr>)
      in case md of Sync _ \<Rightarrow> s
         | Async t \<Rightarrow> if t = 0 then s else s\<lparr>callbacks := callbacks s @ [(i, r)]\<rparr>)"

inductive call_step :: "(int \<Rightarrow> mode) \<Rightarrow> stub \<Rightarrow> stub \<Rightarrow> bool" for md where
  c_shutdown: "calls s i = Idle \<Longrightarrow> \<not> m_bProcessingAllowed s
    \<Longrightarrow> call_step md s (end_early (md i) i ROSE_TE_SHUTDOWN s)"
| c_check: "calls s i = Idle \<Longrightarrow> m_bProcessingAllowed s \<Longrightarrow> call_step md s (set_call i Checked s)"
| c_blocked: "calls s i = Checked \<Longrightarrow> call_step md s (end_early (md i) i ROSE_REJECT_REMOTENOTCAPABLE s)"
| c_add: "calls s i = Checked \<Longrightarrow> call_step md s (set_call i Added (AddPendingOperation i s))"
| c_mark_async: "calls s i = Added \<Longrightarrow> md i = Async t
    \<Longrightarrow> call_step md s (set_call i Marked_async (write_op i (\<lambda>op. op\<lparr>m_bAsyncInvoke := True\<rparr>) s))"
| c_mark: "calls s i = Marked_async \<Longrightarrow> md i = Async t
    \<Longrightarrow> call_step md s (set_call i Marked
          (write_op i (\<lambda>op. op\<lparr>m_bFireAndForgetAsync := (t = 0), m_pAsyncContext := True\<rparr>) s))"
| c_deadline: "calls s i = Marked \<Longrightarrow> md i = Async t \<Longrightarrow> 0 < t
    \<Longrightarrow> call_step md s (set_call i Deadline_set
          (write_op i (\<lambda>op. op\<lparr>m_asyncDeadline := Some (now s + nat t)\<rparr>) s))"
| c_count: "calls s i = Deadline_set
    \<Longrightarrow> call_step md s (set_call i Counted (s\<lparr>m_asyncDeadlineCount := m_asyncDeadlineCount s + 1\<rparr>))"
| c_ensure: "calls s i = Counted \<Longrightarrow> m_watchdogThreadRunning s \<or> wd s = Off
    \<Longrightarrow> call_step md s (set_call i Ensured (EnsureWatchdogRunning s))"
| c_notify: "calls s i = Ensured \<Longrightarrow> call_step md s (set_call i (Notify_read (m_asyncDeadlineCount s = 0)) s)"
| c_notify_set: "calls s i = Notify_read b \<Longrightarrow> call_step md s (set_call i Notified (notify_watchdog b s))"
| c_send: "calls s i = Notified \<or> calls s i = Marked \<and> md i = Async t \<and> t \<le> 0
    \<Longrightarrow> call_step md s (set_call i (Sent r) s)"
| c_sent: "calls s i = Sent r \<Longrightarrow> md i = Async t \<Longrightarrow> t \<noteq> 0 \<Longrightarrow> r = ROSE_NOERROR
    \<Longrightarrow> call_step md s (set_call i Done (s\<lparr>returned := returned s @ [(i, r)]\<rparr>))"
| c_finish: "calls s i = Sent r \<Longrightarrow> md i = Async t \<Longrightarrow> t = 0 \<or> r \<noteq> ROSE_NOERROR
    \<Longrightarrow> call_step md s (set_call i Done (write_op i (\<lambda>op. op)
          (s\<lparr>returned := returned s @ [(i, r)], tasks := tasks s @ [Finish i r]\<rparr>)))"
| c_sync_send: "calls s i = Added \<Longrightarrow> md i = Sync t \<Longrightarrow> call_step md s (set_call i (Sent r) s)"
| c_sync_end: "calls s i = Sent r \<Longrightarrow> md i = Sync t
    \<Longrightarrow> r \<noteq> ROSE_NOERROR \<and> r' = r \<or> r = ROSE_NOERROR \<and> t = 0 \<and> r' = ROSE_NOERROR \<or>
        r = ROSE_NOERROR \<and> 0 < t \<and> r' = ROSE_TE_TIMEOUT \<or>
        r = ROSE_NOERROR \<and> t \<noteq> 0 \<and> m_PendingOperations s i = Some op \<and> m_CompletedEvent op \<and> r' = m_lRoseResult op
    \<Longrightarrow> call_step md s (set_call i Done (RemovePendingOperation i (s\<lparr>returned := returned s @ [(i, r')]\<rparr>)))"

inductive task_step :: "stub \<Rightarrow> stub \<Rightarrow> bool" where
  t_late: "tasks s = ts @ Finish i r # us \<Longrightarrow> claim i s = None \<Longrightarrow> task_step s (s\<lparr>tasks := ts @ us\<rparr>)"
| t_claim: "tasks s = ts @ Finish i r # us \<Longrightarrow> claim i s = Some (op, s')
    \<Longrightarrow> task_step s (s'\<lparr>tasks := ts @ Notify i r (\<not> m_bFireAndForgetAsync op \<and> m_pAsyncContext op) # us,
          lost := (if m_pAsyncContext op then lost s else lost s @ [i])\<rparr>)"
| t_notify: "tasks s = ts @ Notify i r cb # us
    \<Longrightarrow> task_step s (s\<lparr>tasks := ts @ Notify_set (m_asyncDeadlineCount s = 0) i r cb # us\<rparr>)"
| t_notify_set: "tasks s = ts @ Notify_set b i r cb # us
    \<Longrightarrow> task_step s (notify_watchdog b (s\<lparr>tasks := ts @ (if cb then [Callback i r] else []) @ us\<rparr>))"
| t_callback: "tasks s = ts @ Callback i r # us
    \<Longrightarrow> task_step s (s\<lparr>tasks := ts @ us, callbacks := callbacks s @ [(i, r)]\<rparr>)"

inductive watchdog_step :: "stub \<Rightarrow> stub \<Rightarrow> bool" where
  w_scan: "wd s = Scan \<Longrightarrow> next_deadline s nd \<Longrightarrow> watchdog_step s (s\<lparr>wd := Wait nd\<rparr>)"
| w_none: "wd s = Wait None \<Longrightarrow> m_watchdogStopRequested s \<or> 0 < m_asyncDeadlineCount s
    \<Longrightarrow> watchdog_step s (s\<lparr>wd := (if m_watchdogStopRequested s \<and> m_asyncDeadlineCount s = 0 then Broke else Scan)\<rparr>)"
| w_stop: "wd s = Wait (Some d) \<Longrightarrow> m_watchdogStopRequested s
    \<Longrightarrow> watchdog_step s (s\<lparr>wd := (if m_asyncDeadlineCount s = 0 then Broke else Scan)\<rparr>)"
| w_due: "wd s = Wait (Some d) \<Longrightarrow> \<not> m_watchdogStopRequested s \<Longrightarrow> d \<le> now s
    \<Longrightarrow> watchdog_step s (s\<lparr>wd := Process\<rparr>)"
| w_process: "wd s = Process \<Longrightarrow> set ids = timed_out s \<Longrightarrow> distinct ids
    \<Longrightarrow> watchdog_step s (s\<lparr>wd := Scan, tasks := tasks s @ map (\<lambda>i. Finish i ROSE_TE_TIMEOUT) ids\<rparr>)"
| w_exit: "wd s = Broke \<Longrightarrow> watchdog_step s (s\<lparr>wd := Off, m_watchdogThreadRunning := False\<rparr>)"
| w_tick: "watchdog_step s (s\<lparr>now := now s + 1\<rparr>)"

inductive other_step :: "stub \<Rightarrow> stub \<Rightarrow> bool" where
  o_response: "other_step s (CompletePendingOperation i r s)"
| o_pause: "other_step s (s\<lparr>m_bProcessingAllowed := False\<rparr>)"
| o_complete: "set ids = async_ids s \<Longrightarrow> distinct ids \<Longrightarrow> other_step s (CompleteAllPendingOperations ids s)"
| o_resume: "other_step s (s\<lparr>m_bProcessingAllowed := True\<rparr>)"
| o_stop: "other_step s (s\<lparr>m_watchdogStopRequested := True\<rparr>)"

definition stub_step :: "(int \<Rightarrow> mode) \<Rightarrow> stub \<Rightarrow> stub \<Rightarrow> bool" where
  "stub_step md s t \<longleftrightarrow> call_step md s t \<or> task_step s t \<or> watchdog_step s t \<or> other_step s t"

subsection \<open>Every callback once\<close>

fun pays :: "int \<Rightarrow> task \<Rightarrow> bool" where
  "pays i (Finish j r) = False"
| "pays i (Notify j r cb) = (j = i \<and> cb)"
| "pays i (Notify_set b j r cb) = (j = i \<and> cb)"
| "pays i (Callback j r) = (j = i)"

definition paying :: "int \<Rightarrow> stub \<Rightarrow> nat" where
  "paying i s = length (filter (pays i) (tasks s))"

definition called_back :: "int \<Rightarrow> stub \<Rightarrow> nat" where
  "called_back i s = count_list (map fst (callbacks s)) i"

definition not_yet :: "int \<Rightarrow> stub \<Rightarrow> bool" where
  "not_yet i s \<longleftrightarrow> calls s i = Idle \<or> calls s i = Checked"

text \<open>Where the callback of a call is: not yet due, due, on its way, run, or lost.\<close>

definition account :: "int \<Rightarrow> stub \<Rightarrow> nat" where
  "account i s = of_bool (not_yet i s) + of_bool (m_PendingOperations s i \<noteq> None) + paying i s
     + called_back i s + count_list (lost s) i"

definition async_ok :: "int \<Rightarrow> int \<Rightarrow> stub \<Rightarrow> bool" where
  "async_ok t i s \<longleftrightarrow>
     (if t = 0 then paying i s = 0 \<and> called_back i s = 0 else account i s = 1) \<and>
     (not_yet i s \<longrightarrow> m_PendingOperations s i = None) \<and>
     (\<forall>op. m_PendingOperations s i = Some op \<longrightarrow> m_pAsyncContext op \<longrightarrow> m_bFireAndForgetAsync op = (t = 0))"

definition sync_ok :: "int \<Rightarrow> stub \<Rightarrow> bool" where
  "sync_ok i s \<longleftrightarrow>
     paying i s = 0 \<and> called_back i s = 0 \<and>
     (calls s i \<in> {Idle, Checked, Done} \<and> m_PendingOperations s i = None \<or>
      calls s i \<in> insert Added (range Sent) \<and>
        (\<exists>op. m_PendingOperations s i = Some op \<and> \<not> m_bAsyncInvoke op))"

definition call_ok :: "(int \<Rightarrow> mode) \<Rightarrow> int \<Rightarrow> stub \<Rightarrow> bool" where
  "call_ok md i s = (case md i of Async t \<Rightarrow> async_ok t i s | Sync t \<Rightarrow> sync_ok i s)"

definition stub_ok :: "(int \<Rightarrow> mode) \<Rightarrow> stub \<Rightarrow> bool" where
  "stub_ok md s \<longleftrightarrow> (\<forall>i. call_ok md i s)"

lemmas ok_defs = call_ok_def async_ok_def sync_ok_def account_def paying_def called_back_def not_yet_def

lemma stub_ok_new: "stub_ok md new_stub"
  by (simp add: stub_ok_def ok_defs new_stub_def split: mode.split)

text \<open>A call is judged by its own part of the state.\<close>

lemma call_ok_cong:
  assumes "calls t i = calls s i" and "m_PendingOperations t i = m_PendingOperations s i"
    and "filter (pays i) (tasks t) = filter (pays i) (tasks s)"
    and "count_list (map fst (callbacks t)) i = count_list (map fst (callbacks s)) i"
    and "count_list (lost t) i = count_list (lost s) i"
  shows "call_ok md i t = call_ok md i s"
  using assms by (simp add: ok_defs split: mode.split)

lemma stub_ok_one:
  assumes "stub_ok md s" and "call_ok md i t"
    and "\<And>j. j \<noteq> i \<Longrightarrow> calls t j = calls s j \<and> m_PendingOperations t j = m_PendingOperations s j \<and>
      filter (pays j) (tasks t) = filter (pays j) (tasks s) \<and>
      count_list (map fst (callbacks t)) j = count_list (map fst (callbacks s)) j \<and>
      count_list (lost t) j = count_list (lost s) j"
  shows "stub_ok md t"
  unfolding stub_ok_def
proof
  fix j
  show "call_ok md j t"
  proof (cases "j = i")
    case False
    with assms(3) [OF False] call_ok_cong [of t j s md] assms(1) show ?thesis
      by (simp add: stub_ok_def)
  qed (use assms(2) in simp)
qed

lemma stub_ok_all:
  assumes "stub_ok md s"
    and "\<And>j. calls t j = calls s j \<and> m_PendingOperations t j = m_PendingOperations s j \<and>
      filter (pays j) (tasks t) = filter (pays j) (tasks s) \<and>
      count_list (map fst (callbacks t)) j = count_list (map fst (callbacks s)) j \<and>
      count_list (lost t) j = count_list (lost s) j"
  shows "stub_ok md t"
  using assms(2) call_ok_cong [of t _ s md] assms(1) by (simp add: stub_ok_def)

lemma stub_simps [simp]:
  "calls (set_call i c s) = (calls s)(i := c)" "tasks (set_call i c s) = tasks s"
  "m_PendingOperations (set_call i c s) = m_PendingOperations s"
  "callbacks (set_call i c s) = callbacks s" "lost (set_call i c s) = lost s"
  "m_asyncDeadlineCount (set_call i c s) = m_asyncDeadlineCount s"
  "m_watchdogStopRequested (set_call i c s) = m_watchdogStopRequested s"
  "m_watchdogThreadRunning (set_call i c s) = m_watchdogThreadRunning s"
  "wd (set_call i c s) = wd s" "now (set_call i c s) = now s" "dangling (set_call i c s) = dangling s"
  "m_bProcessingAllowed (set_call i c s) = m_bProcessingAllowed s"
  "returned (set_call i c s) = returned s"
  by (simp_all add: set_call_def)

lemma write_op_simps [simp]:
  "calls (write_op i f s) = calls s" "tasks (write_op i f s) = tasks s"
  "callbacks (write_op i f s) = callbacks s" "lost (write_op i f s) = lost s"
  "m_PendingOperations (write_op i f s) j =
     (if j = i then map_option f (m_PendingOperations s i) else m_PendingOperations s j)"
  by (simp_all add: write_op_def split: option.split)

lemma watchdog_sections [simp]:
  "calls (EnsureWatchdogRunning s) = calls s" "tasks (EnsureWatchdogRunning s) = tasks s"
  "callbacks (EnsureWatchdogRunning s) = callbacks s" "lost (EnsureWatchdogRunning s) = lost s"
  "m_PendingOperations (EnsureWatchdogRunning s) = m_PendingOperations s"
  "calls (notify_watchdog b s) = calls s" "tasks (notify_watchdog b s) = tasks s"
  "callbacks (notify_watchdog b s) = callbacks s" "lost (notify_watchdog b s) = lost s"
  "m_PendingOperations (notify_watchdog b s) = m_PendingOperations s"
  by (simp_all add: EnsureWatchdogRunning_def notify_watchdog_def)

lemma end_early_simps [simp]:
  "calls (end_early m i r s) = (calls s)(i := Done)" "tasks (end_early m i r s) = tasks s"
  "lost (end_early m i r s) = lost s" "m_PendingOperations (end_early m i r s) = m_PendingOperations s"
  "callbacks (end_early m i r s) =
     callbacks s @ (case m of Sync _ \<Rightarrow> [] | Async t \<Rightarrow> if t = 0 then [] else [(i, r)])"
  by (simp_all add: end_early_def Let_def split: mode.split)

lemma stub_ok_call: "stub_ok md s \<Longrightarrow> call_ok md i s"
  by (simp add: stub_ok_def)

text \<open>A call of \<open>SendInvokeAsync\<close> that moves on and writes its operation.\<close>

lemma async_move:
  assumes ok: "stub_ok md s" and m: "md i = Async t"
    and "\<not> not_yet i s" and "c \<noteq> Idle" and "c \<noteq> Checked" and "calls u = (calls s)(i := c)"
    and "\<And>j. m_PendingOperations u j = (if j = i then map_option f (m_PendingOperations s i) else m_PendingOperations s j)"
    and "\<And>j. filter (pays j) (tasks u) = filter (pays j) (tasks s)"
    and "callbacks u = callbacks s" and "lost u = lost s"
    and f: "\<And>op. m_pAsyncContext (f op) \<Longrightarrow> m_pAsyncContext op \<and> m_bFireAndForgetAsync (f op) = m_bFireAndForgetAsync op
      \<or> m_bFireAndForgetAsync (f op) = (t = 0)"
  shows "stub_ok md u"
proof (rule stub_ok_one [OF ok, of i])
  from stub_ok_call [OF ok, of i] m have "async_ok t i s" by (simp add: call_ok_def)
  with assms(3-10) f show "call_ok md i u"
    by (auto simp: m call_ok_def async_ok_def account_def paying_def called_back_def not_yet_def split: if_splits)
qed (use assms(6-10) in simp)

lemma is_async:
  assumes "stub_ok md s" and "calls s i \<notin> {Idle, Checked, Added, Done}" and "\<forall>r. calls s i \<noteq> Sent r"
  shows "\<exists>t. md i = Async t"
  using stub_ok_call [OF assms(1), of i] assms(2,3)
  by (cases "md i") (auto simp: call_ok_def sync_ok_def)

lemma stub_ok_call_step:
  assumes "call_step md s t" and "stub_ok md s"
  shows "stub_ok md t"
  using assms
proof (induction rule: call_step.induct)
  case (c_shutdown s i)
  from c_shutdown(1) stub_ok_call [OF c_shutdown(3), of i] show ?case
    by (intro stub_ok_one [OF c_shutdown(3), of i]) (auto simp: ok_defs split: mode.splits if_splits)
next
  case (c_check s i)
  from c_check(1) stub_ok_call [OF c_check(3), of i] show ?case
    by (intro stub_ok_one [OF c_check(3), of i]) (auto simp: ok_defs split: mode.splits if_splits)
next
  case (c_blocked s i)
  from c_blocked(1) stub_ok_call [OF c_blocked(2), of i] show ?case
    by (intro stub_ok_one [OF c_blocked(2), of i]) (auto simp: ok_defs split: mode.splits if_splits)
next
  case (c_add s i)
  from c_add(1) stub_ok_call [OF c_add(2), of i] show ?case
    by (intro stub_ok_one [OF c_add(2), of i])
      (auto simp: ok_defs AddPendingOperation_def insert_key_apply new_operation_def split: mode.splits if_splits)
next
  case (c_mark_async s i t)
  then show ?case
    by (intro async_move [OF c_mark_async(3,2), where c = Marked_async and f = "\<lambda>op. op\<lparr>m_bAsyncInvoke := True\<rparr>"])
      (auto simp: not_yet_def)
next
  case (c_mark s i t)
  then show ?case
    by (intro async_move [OF c_mark(3,2), where c = Marked and f = "\<lambda>op. op\<lparr>m_bFireAndForgetAsync := (t = 0), m_pAsyncContext := True\<rparr>"])
      (auto simp: not_yet_def)
next
  case (c_deadline s i t)
  then show ?case
    by (intro async_move [OF c_deadline(4,2), where c = Deadline_set and f = "\<lambda>op. op\<lparr>m_asyncDeadline := Some (now s + nat t)\<rparr>"])
      (auto simp: not_yet_def)
next
  case (c_count s i)
  then obtain t where m: "md i = Async t" using is_async [OF c_count(2), of i] by auto
  with c_count show ?case
    by (intro async_move [OF c_count(2) m, where c = Counted and f = "\<lambda>op. op"]) (auto simp: not_yet_def option.map_ident)
next
  case (c_ensure s i)
  then obtain t where m: "md i = Async t" using is_async [OF c_ensure(3), of i] by auto
  with c_ensure show ?case
    by (intro async_move [OF c_ensure(3) m, where c = Ensured and f = "\<lambda>op. op"]) (auto simp: not_yet_def option.map_ident)
next
  case (c_notify s i)
  then obtain t where m: "md i = Async t" using is_async [OF c_notify(2), of i] by auto
  with c_notify show ?case
    by (intro async_move [OF c_notify(2) m, where c = "Notify_read (m_asyncDeadlineCount s = 0)" and f = "\<lambda>op. op"])
      (auto simp: not_yet_def option.map_ident)
next
  case (c_notify_set s i b)
  then obtain t where m: "md i = Async t" using is_async [OF c_notify_set(2), of i] by auto
  with c_notify_set show ?case
    by (intro async_move [OF c_notify_set(2) m, where c = Notified and f = "\<lambda>op. op"]) (auto simp: not_yet_def option.map_ident)
next
  case (c_send s i t r)
  then obtain t' where m: "md i = Async t'" using is_async [OF c_send(2), of i] by auto
  with c_send show ?case
    by (intro async_move [OF c_send(2) m, where c = "Sent r" and f = "\<lambda>op. op"]) (auto simp: not_yet_def option.map_ident)
next
  case (c_sent s i r t)
  then show ?case
    by (intro async_move [OF c_sent(5,2), where c = Done and f = "\<lambda>op. op"]) (auto simp: not_yet_def option.map_ident)
next
  case (c_finish s i r t)
  then show ?case
    by (intro async_move [OF c_finish(4,2), where c = Done and f = "\<lambda>op. op"]) (auto simp: not_yet_def option.map_ident)
next
  case (c_sync_send s i t r)
  from c_sync_send(1,2) stub_ok_call [OF c_sync_send(3), of i] show ?case
    by (intro stub_ok_one [OF c_sync_send(3), of i]) (auto simp: ok_defs)
next
  case (c_sync_end s i r t r' op)
  from c_sync_end(1,2) stub_ok_call [OF c_sync_end(4), of i] show ?case
    by (intro stub_ok_one [OF c_sync_end(4), of i]) (auto simp: ok_defs RemovePendingOperation_def)
qed

lemma stub_ok_task_step:
  assumes "task_step s t" and "stub_ok md s"
  shows "stub_ok md t"
  using assms
proof (induction rule: task_step.induct)
  case (t_late s ts i r us)
  show ?case by (rule stub_ok_all [OF t_late(3)]) (use t_late(1) in auto)
next
  case (t_claim s ts i r us op s')
  then have op: "m_PendingOperations s i = Some op" "m_bAsyncInvoke op"
    and s': "calls s' = calls s" "callbacks s' = callbacks s"
      "m_PendingOperations s' = (m_PendingOperations s)(i := None)"
    by (auto simp: claim_def split: option.splits if_splits)
  from stub_ok_call [OF t_claim(3), of i] op obtain k where m: "md i = Async k" and ok: "async_ok k i s"
    by (cases "md i") (auto simp: call_ok_def sync_ok_def)
  show ?case
  proof (rule stub_ok_one [OF t_claim(3), of i])
    let ?t = "s'\<lparr>tasks := ts @ Notify i r (\<not> m_bFireAndForgetAsync op \<and> m_pAsyncContext op) # us,
        lost := (if m_pAsyncContext op then lost s else lost s @ [i])\<rparr>"
    from ok op t_claim(1) show "call_ok md i ?t"
      by (auto simp: m s' call_ok_def async_ok_def account_def paying_def called_back_def not_yet_def split: if_splits)
  qed (use s' t_claim(1) in auto)
next
  case (t_notify s ts i r cb us)
  show ?case
    by (rule stub_ok_one [OF t_notify(2), of i])
      (use t_notify stub_ok_call [OF t_notify(2), of i] in \<open>auto simp: ok_defs split: mode.splits if_splits\<close>)
next
  case (t_notify_set s ts b i r cb us)
  show ?case
    by (rule stub_ok_one [OF t_notify_set(2), of i])
      (use t_notify_set stub_ok_call [OF t_notify_set(2), of i] in \<open>auto simp: ok_defs split: mode.splits if_splits\<close>)
next
  case (t_callback s ts i r us)
  show ?case
    by (rule stub_ok_one [OF t_callback(2), of i])
      (use t_callback stub_ok_call [OF t_callback(2), of i] in \<open>auto simp: ok_defs split: mode.splits if_splits\<close>)
qed

lemma filter_pays_finish [simp]: "filter (pays j) (map (\<lambda>i. Finish i r) ids) = []"
  by (induction ids) auto

lemma stub_ok_watchdog_step:
  assumes "watchdog_step s t" and "stub_ok md s"
  shows "stub_ok md t"
  using assms by (induction rule: watchdog_step.induct) (erule stub_ok_all, simp)+

lemma stub_ok_other_step:
  assumes "other_step s t" and "stub_ok md s"
  shows "stub_ok md t"
  using assms
proof (induction rule: other_step.induct)
  case (o_response s i r)
  show ?case
    by (rule stub_ok_one [OF o_response, of i])
      (use stub_ok_call [OF o_response, of i] in
        \<open>auto simp: ok_defs CompletePendingOperation_def CompleteOperation_def Let_def split: option.splits mode.splits if_splits\<close>)
next
  case (o_complete ids s)
  show ?case unfolding stub_ok_def
  proof
    fix j
    from stub_ok_call [OF o_complete(3), of j] show "call_ok md j (CompleteAllPendingOperations ids s)"
      by (auto simp: ok_defs CompleteAllPendingOperations_def CompleteOperation_def Let_def
          split: option.splits mode.splits if_splits)
  qed
qed (erule stub_ok_all, simp)+

interpretation stub_inv: kept_by_steps "stub_step md" "stub_ok md" for md
  by unfold_locales
    (auto simp: stub_step_def intro: stub_ok_call_step stub_ok_task_step stub_ok_watchdog_step stub_ok_other_step)

subsection \<open>The watchdog\<close>

text \<open>It loops with the stop flag set and an operation counted: it neither exits nor looks at the clock.\<close>

definition spinning :: "stub \<Rightarrow> bool" where
  "spinning s \<longleftrightarrow> m_watchdogStopRequested s \<and> 0 < m_asyncDeadlineCount s \<and> m_watchdogThreadRunning s \<and>
     (wd s = Scan \<or> (\<exists>nd. wd s = Wait nd))"

definition same_work :: "stub \<Rightarrow> stub \<Rightarrow> bool" where
  "same_work s t \<longleftrightarrow> m_PendingOperations t = m_PendingOperations s \<and> tasks t = tasks s \<and> callbacks t = callbacks s"

interpretation spin: kept_by_steps watchdog_step "\<lambda>t. spinning t \<and> same_work s t" for s
proof
  fix t u
  assume "watchdog_step t u" and "spinning t \<and> same_work s t"
  then show "spinning u \<and> same_work s u"
    by (induction rule: watchdog_step.induct) (auto simp: spinning_def same_work_def)
qed

lemma spins:
  assumes "spinning s" and "watchdog_step\<^sup>*\<^sup>* s t"
  shows "wd t \<noteq> Off \<and> same_work s t"
  using spin.steps_keep [OF assms(2), of s] assms(1) by (auto simp: spinning_def same_work_def)

text \<open>A watchdog that was not asked to stop delivers a timeout.\<close>

definition quiet_step :: "stub \<Rightarrow> stub \<Rightarrow> bool" where
  "quiet_step s t \<longleftrightarrow> task_step s t \<or> watchdog_step s t"

lemma quiet_task: "quiet_step\<^sup>*\<^sup>* s t \<Longrightarrow> task_step t u \<Longrightarrow> quiet_step\<^sup>*\<^sup>* s u"
  by (simp add: quiet_step_def rtranclp.rtrancl_into_rtrancl)

lemma quiet_watchdog: "quiet_step\<^sup>*\<^sup>* s t \<Longrightarrow> watchdog_step t u \<Longrightarrow> quiet_step\<^sup>*\<^sup>* s u"
  by (simp add: quiet_step_def rtranclp.rtrancl_into_rtrancl)

lemma finish_runs_callback:
  assumes "tasks s = ts @ Finish i r # us" and "m_PendingOperations s i = Some op"
    and "m_bAsyncInvoke op" and "\<not> m_bFireAndForgetAsync op" and "m_pAsyncContext op"
  shows "\<exists>t. quiet_step\<^sup>*\<^sup>* s t \<and> callbacks t = callbacks s @ [(i, r)] \<and> m_PendingOperations t i = None"
proof -
  from assms(2,3) obtain s' where c: "claim i s = Some (op, s')"
    by (simp add: claim_def)
  then have s': "callbacks s' = callbacks s" "m_PendingOperations s' i = None"
    using assms(2,3) by (auto simp: claim_def)
  let ?s1 = "s'\<lparr>tasks := ts @ Notify i r (\<not> m_bFireAndForgetAsync op \<and> m_pAsyncContext op) # us,
          lost := (if m_pAsyncContext op then lost s else lost s @ [i])\<rparr>"
  let ?b = "m_asyncDeadlineCount ?s1 = 0"
  let ?s2 = "?s1\<lparr>tasks := ts @ Notify_set ?b i r True # us\<rparr>"
  let ?s3 = "notify_watchdog ?b (?s2\<lparr>tasks := ts @ (if True then [Callback i r] else []) @ us\<rparr>)"
  let ?s4 = "?s3\<lparr>tasks := ts @ us, callbacks := callbacks ?s3 @ [(i, r)]\<rparr>"
  have "quiet_step\<^sup>*\<^sup>* s ?s1"
    by (rule quiet_task [OF rtranclp.rtrancl_refl t_claim [OF assms(1) c]])
  then have "quiet_step\<^sup>*\<^sup>* s ?s2"
    by (rule quiet_task) (rule t_notify, use assms(4,5) in simp)
  then have "quiet_step\<^sup>*\<^sup>* s ?s3"
    by (rule quiet_task) (rule t_notify_set, simp)
  then have "quiet_step\<^sup>*\<^sup>* s ?s4"
    by (rule quiet_task) (rule t_callback, simp)
  with s' show ?thesis by (intro exI [of _ ?s4]) simp
qed

lemma watchdog_times_out:
  assumes "wd s = Scan" and "\<not> m_watchdogStopRequested s" and fin: "finite (dom (m_PendingOperations s))"
    and op: "m_PendingOperations s i = Some op" "m_bAsyncInvoke op" "m_asyncDeadline op = Some d" "d \<le> now s"
  shows "\<exists>t ts us. quiet_step\<^sup>*\<^sup>* s t \<and> tasks t = ts @ Finish i ROSE_TE_TIMEOUT # us \<and>
    m_PendingOperations t = m_PendingOperations s \<and> callbacks t = callbacks s"
proof -
  from op have d: "d \<in> deadlines s" by (auto simp: deadlines_def)
  define d' where "d' = (LEAST x. x \<in> deadlines s)"
  from d have d': "d' \<in> deadlines s" "d' \<le> d" "\<forall>x \<in> deadlines s. d' \<le> x"
    unfolding d'_def by (auto intro: LeastI Least_le)
  let ?s1 = "s\<lparr>wd := Wait (Some d')\<rparr>" let ?s2 = "?s1\<lparr>wd := Process\<rparr>"
  have t: "timed_out ?s2 = timed_out s" by (simp add: timed_out_def)
  have "finite (timed_out s)"
    by (rule finite_subset [OF _ fin]) (auto simp: timed_out_def)
  then obtain ids where ids: "set ids = timed_out s" "distinct ids"
    using finite_distinct_list by blast
  from op have "i \<in> timed_out s" by (auto simp: timed_out_def)
  with ids obtain a b where ab: "ids = a @ i # b" using split_list by metis
  let ?s3 = "?s2\<lparr>wd := Scan, tasks := tasks ?s2 @ map (\<lambda>i. Finish i ROSE_TE_TIMEOUT) ids\<rparr>"
  have "quiet_step\<^sup>*\<^sup>* s ?s1"
    by (rule quiet_watchdog [OF rtranclp.rtrancl_refl w_scan [OF assms(1)]]) (simp add: next_deadline_def d')
  then have "quiet_step\<^sup>*\<^sup>* s ?s2"
    by (rule quiet_watchdog) (rule w_due [of _ d'], use assms(2) op(4) d'(2) in auto)
  then have "quiet_step\<^sup>*\<^sup>* s ?s3"
    by (rule quiet_watchdog) (rule w_process, use ids t in simp_all)
  then show ?thesis
    by (intro exI [of _ ?s3] exI [of _ "tasks s @ map (\<lambda>i. Finish i ROSE_TE_TIMEOUT) a"] exI conjI)
      (assumption, simp_all add: ab)
qed

lemma timeout_delivered:
  assumes "wd s = Scan" and "\<not> m_watchdogStopRequested s" and "finite (dom (m_PendingOperations s))"
    and "m_PendingOperations s i = Some op" and "m_bAsyncInvoke op" and "m_asyncDeadline op = Some d" and "d \<le> now s"
    and "\<not> m_bFireAndForgetAsync op" and "m_pAsyncContext op"
  shows "\<exists>t. quiet_step\<^sup>*\<^sup>* s t \<and> callbacks t = callbacks s @ [(i, ROSE_TE_TIMEOUT)] \<and> m_PendingOperations t i = None"
proof -
  from watchdog_times_out [OF assms(1-7)] obtain u ts us where u: "quiet_step\<^sup>*\<^sup>* s u"
      "tasks u = ts @ Finish i ROSE_TE_TIMEOUT # us" "m_PendingOperations u = m_PendingOperations s"
      "callbacks u = callbacks s" by blast
  from finish_runs_callback [OF u(2), of op] u(3,4) assms(4,5,8,9) obtain t where
    "quiet_step\<^sup>*\<^sup>* u t" "callbacks t = callbacks s @ [(i, ROSE_TE_TIMEOUT)]" "m_PendingOperations t i = None"
    by auto
  with u(1) show ?thesis by (meson rtranclp_trans)
qed

subsection \<open>Runs\<close>

text \<open>Stretches of a call of \<open>SendInvokeAsync\<close>: to the set-up operation, to its deadline, to the end.\<close>

definition to_marked :: "int \<Rightarrow> int \<Rightarrow> stub \<Rightarrow> stub" where
  "to_marked i t s =
     (let s = set_call i Added (AddPendingOperation i s);
          s = set_call i Marked_async (write_op i (\<lambda>op. op\<lparr>m_bAsyncInvoke := True\<rparr>) s)
      in set_call i Marked (write_op i (\<lambda>op. op\<lparr>m_bFireAndForgetAsync := (t = 0), m_pAsyncContext := True\<rparr>) s))"

definition to_deadline :: "int \<Rightarrow> int \<Rightarrow> stub \<Rightarrow> stub" where
  "to_deadline i t s = set_call i Deadline_set (write_op i (\<lambda>op. op\<lparr>m_asyncDeadline := Some (now s + nat t)\<rparr>) s)"

definition to_done :: "int \<Rightarrow> stub \<Rightarrow> stub" where
  "to_done i s =
     (let s = set_call i Counted (s\<lparr>m_asyncDeadlineCount := m_asyncDeadlineCount s + 1\<rparr>);
          s = set_call i Ensured (EnsureWatchdogRunning s);
          s = set_call i (Notify_read False) s;
          s = set_call i (Sent ROSE_NOERROR) (set_call i Notified s)
      in set_call i Done (s\<lparr>returned := returned s @ [(i, ROSE_NOERROR)]\<rparr>))"

text \<open>The only task runs to its end.\<close>

definition run_finish :: "int \<Rightarrow> int \<Rightarrow> stub \<Rightarrow> stub" where
  "run_finish i r s =
     (case claim i s of None \<Rightarrow> s\<lparr>tasks := []\<rparr>
      | Some (op, s') \<Rightarrow>
          let cb = \<not> m_bFireAndForgetAsync op \<and> m_pAsyncContext op;
              s' = s'\<lparr>tasks := [], lost := (if m_pAsyncContext op then lost s else lost s @ [i])\<rparr>;
              s' = notify_watchdog (m_asyncDeadlineCount s' = 0) s'
          in if cb then s'\<lparr>callbacks := callbacks s' @ [(i, r)]\<rparr> else s')"

lemma by_call: "(stub_step md)\<^sup>*\<^sup>* s t \<Longrightarrow> call_step md t u \<Longrightarrow> (stub_step md)\<^sup>*\<^sup>* s u"
  by (simp add: stub_step_def rtranclp.rtrancl_into_rtrancl)

lemma by_task: "(stub_step md)\<^sup>*\<^sup>* s t \<Longrightarrow> task_step t u \<Longrightarrow> (stub_step md)\<^sup>*\<^sup>* s u"
  by (simp add: stub_step_def rtranclp.rtrancl_into_rtrancl)

lemma by_other: "(stub_step md)\<^sup>*\<^sup>* s t \<Longrightarrow> other_step t u \<Longrightarrow> (stub_step md)\<^sup>*\<^sup>* s u"
  by (simp add: stub_step_def rtranclp.rtrancl_into_rtrancl)

lemma to_marked_reached:
  assumes r: "(stub_step md)\<^sup>*\<^sup>* s0 s" and "calls s i = Checked" and m: "md i = Async t"
  shows "(stub_step md)\<^sup>*\<^sup>* s0 (to_marked i t s)"
proof -
  let ?a = "set_call i Added (AddPendingOperation i s)"
  have "(stub_step md)\<^sup>*\<^sup>* s0 ?a"
    by (rule by_call [OF r c_add]) (rule assms(2))
  then have "(stub_step md)\<^sup>*\<^sup>* s0 (set_call i Marked_async (write_op i (\<lambda>op. op\<lparr>m_bAsyncInvoke := True\<rparr>) ?a))"
    by (rule by_call) (rule c_mark_async, simp, rule m)
  then show ?thesis unfolding to_marked_def Let_def
    by (rule by_call) (rule c_mark, simp, rule m)
qed

lemma to_deadline_reached:
  assumes r: "(stub_step md)\<^sup>*\<^sup>* s0 s" and "calls s i = Marked" and m: "md i = Async t" and "0 < t"
  shows "(stub_step md)\<^sup>*\<^sup>* s0 (to_deadline i t s)"
  unfolding to_deadline_def by (rule by_call [OF r c_deadline]) (use assms in simp_all)

lemma to_done_reached:
  assumes r: "(stub_step md)\<^sup>*\<^sup>* s0 s" and "calls s i = Deadline_set" and m: "md i = Async t" and "0 < t"
    and w: "m_watchdogThreadRunning s \<or> wd s = Off"
  shows "(stub_step md)\<^sup>*\<^sup>* s0 (to_done i s)"
proof -
  let ?a = "set_call i Counted (s\<lparr>m_asyncDeadlineCount := m_asyncDeadlineCount s + 1\<rparr>)"
  let ?b = "set_call i Ensured (EnsureWatchdogRunning ?a)"
  let ?c = "set_call i (Notify_read False) ?b"
  let ?d = "set_call i Notified ?c" let ?e = "set_call i (Sent ROSE_NOERROR) ?d"
  have "(stub_step md)\<^sup>*\<^sup>* s0 ?a" by (rule by_call [OF r c_count]) (rule assms(2))
  then have "(stub_step md)\<^sup>*\<^sup>* s0 ?b" by (rule by_call) (rule c_ensure, use w in simp_all)
  then have "(stub_step md)\<^sup>*\<^sup>* s0 ?c"
    by (rule by_call) (use c_notify [of ?b i md] in \<open>simp add: EnsureWatchdogRunning_def split: if_splits\<close>)
  then have "(stub_step md)\<^sup>*\<^sup>* s0 ?d"
    by (rule by_call) (use c_notify_set [of ?c i False md] in \<open>simp add: notify_watchdog_def\<close>)
  then have "(stub_step md)\<^sup>*\<^sup>* s0 ?e" by (rule by_call) (rule c_send [of _ _ _ t], simp)
  then show ?thesis unfolding to_done_def Let_def
    by (rule by_call) (rule c_sent [where t = t], use m assms(4) in \<open>simp_all add: rose_codes\<close>)
qed

lemma run_finish_reached:
  assumes r: "(stub_step md)\<^sup>*\<^sup>* s0 s" and t: "tasks s = [Finish i r]"
  shows "(stub_step md)\<^sup>*\<^sup>* s0 (run_finish i r s)"
proof (cases "claim i s")
  case None
  with by_task [OF r t_late [of s "[]" i r "[]"]] t show ?thesis by (simp add: run_finish_def)
next
  case (Some p)
  then obtain op s' where c: "claim i s = Some (op, s')" by (cases p) auto
  define cb where "cb \<longleftrightarrow> \<not> m_bFireAndForgetAsync op \<and> m_pAsyncContext op"
  let ?l = "if m_pAsyncContext op then lost s else lost s @ [i]"
  let ?s1 = "s'\<lparr>tasks := [] @ Notify i r cb # [], lost := ?l\<rparr>"
  let ?b = "m_asyncDeadlineCount ?s1 = 0"
  let ?s2 = "?s1\<lparr>tasks := [] @ Notify_set ?b i r cb # []\<rparr>"
  let ?s3 = "notify_watchdog ?b (?s2\<lparr>tasks := [] @ (if cb then [Callback i r] else []) @ []\<rparr>)"
  have "(stub_step md)\<^sup>*\<^sup>* s0 ?s1"
    using by_task [OF r t_claim [of s "[]" i r "[]", OF _ c]] t by (simp add: cb_def)
  then have "(stub_step md)\<^sup>*\<^sup>* s0 ?s2" by (rule by_task) (rule t_notify, simp)
  then have 3: "(stub_step md)\<^sup>*\<^sup>* s0 ?s3" by (rule by_task) (rule t_notify_set, simp)
  have e: "run_finish i r s = (if cb then ?s3\<lparr>tasks := [] @ [], callbacks := callbacks ?s3 @ [(i, r)]\<rparr> else ?s3)"
    by (simp add: run_finish_def c cb_def [symmetric] notify_watchdog_def Let_def)
  show ?thesis
  proof (cases cb)
    case True
    from 3 have "(stub_step md)\<^sup>*\<^sup>* s0 (?s3\<lparr>tasks := [] @ [], callbacks := callbacks ?s3 @ [(i, r)]\<rparr>)"
      by (rule by_task) (rule t_callback, use True in simp)
    with e True show ?thesis by simp
  qed (use 3 e in simp)
qed

text \<open>A second call right after the answer to the first: its timeout is lost.\<close>

definition check_call :: "int \<Rightarrow> stub \<Rightarrow> stub" where
  "check_call i s = set_call i Checked s"

lemma check_call_reached:
  "(stub_step md)\<^sup>*\<^sup>* s0 s \<Longrightarrow> calls s i = Idle \<Longrightarrow> m_bProcessingAllowed s \<Longrightarrow> (stub_step md)\<^sup>*\<^sup>* s0 (check_call i s)"
  unfolding check_call_def by (erule by_call) (rule c_check)

definition whole_call :: "int \<Rightarrow> int \<Rightarrow> stub \<Rightarrow> stub" where
  "whole_call i t s = to_done i (to_deadline i t (to_marked i t (check_call i s)))"

lemmas run_defs = whole_call_def check_call_def to_marked_def to_deadline_def to_done_def run_finish_def
  claim_def AddPendingOperation_def insert_key_def new_operation_def write_op_def set_call_def
  EnsureWatchdogRunning_def notify_watchdog_def CompletePendingOperation_def new_stub_def Let_def

lemma whole_call_reached:
  assumes "(stub_step md)\<^sup>*\<^sup>* s0 s" and "calls s i = Idle" and "m_bProcessingAllowed s"
    and m: "md i = Async t" and "0 < t" and w: "m_watchdogThreadRunning s \<or> wd s = Off"
  shows "(stub_step md)\<^sup>*\<^sup>* s0 (whole_call i t s)"
proof -
  let ?a = "check_call i s" let ?b = "to_marked i t ?a" let ?c = "to_deadline i t ?b"
  have "(stub_step md)\<^sup>*\<^sup>* s0 ?a" by (rule check_call_reached [OF assms(1-3)])
  then have "(stub_step md)\<^sup>*\<^sup>* s0 ?b" by (rule to_marked_reached) (simp_all add: check_call_def m)
  then have "(stub_step md)\<^sup>*\<^sup>* s0 ?c"
    by (rule to_deadline_reached) (use assms(5) in \<open>simp_all add: to_marked_def Let_def m\<close>)
  then show ?thesis unfolding whole_call_def
    by (rule to_done_reached [where t = t])
      (use w m assms(5) in \<open>auto simp: to_deadline_def to_marked_def check_call_def write_op_def set_call_def
        AddPendingOperation_def Let_def split: option.split\<close>)
qed

definition call_after_answer :: "int \<Rightarrow> stub" where
  "call_after_answer t =
     (let s = whole_call 1 t new_stub;
          s = run_finish 1 ROSE_NOERROR (CompletePendingOperation 1 ROSE_NOERROR s)
      in whole_call 2 t s)"

lemma first_call:
  assumes "0 < t"
  shows "calls (whole_call 1 t new_stub) = (\<lambda>_. Idle)(1 := Done)"
    "m_PendingOperations (whole_call 1 t new_stub) = [1 \<mapsto> \<lparr>m_bAsyncInvoke = True, m_bFireAndForgetAsync = False,
       m_pAsyncContext = True, m_asyncDeadline = Some (nat t), m_lRoseResult = 0, m_CompletedEvent = False\<rparr>]"
    "tasks (whole_call 1 t new_stub) = []" "callbacks (whole_call 1 t new_stub) = []"
    "m_asyncDeadlineCount (whole_call 1 t new_stub) = 1" "m_watchdogThreadRunning (whole_call 1 t new_stub)"
    "wd (whole_call 1 t new_stub) = Scan" "m_bProcessingAllowed (whole_call 1 t new_stub)"
    "now (whole_call 1 t new_stub) = 0" "\<not> dangling (whole_call 1 t new_stub)" "lost (whole_call 1 t new_stub) = []"
  using assms by (simp_all add: run_defs fun_eq_iff)

definition answered :: "int \<Rightarrow> stub" where
  "answered t = CompletePendingOperation 1 ROSE_NOERROR (whole_call 1 t new_stub)"

lemma answered_simps:
  assumes "0 < t"
  shows "tasks (answered t) = [Finish 1 ROSE_NOERROR]" "calls (answered t) = (\<lambda>_. Idle)(1 := Done)"
    "m_bProcessingAllowed (answered t)" "m_watchdogThreadRunning (answered t)"
  using first_call [OF assms] by (simp_all add: answered_def CompletePendingOperation_def)

definition finished :: "int \<Rightarrow> stub" where
  "finished t = run_finish 1 ROSE_NOERROR (answered t)"

lemma finished_simps:
  assumes "0 < t"
  shows "tasks (finished t) = []" "calls (finished t) = (\<lambda>_. Idle)(1 := Done)"
    "m_bProcessingAllowed (finished t)" "m_watchdogThreadRunning (finished t)" "wd (finished t) = Scan"
    "m_PendingOperations (finished t) = Map.empty" "callbacks (finished t) = [(1, ROSE_NOERROR)]"
    "m_asyncDeadlineCount (finished t) = 0" "m_watchdogStopRequested (finished t)" "now (finished t) = 0"
  using first_call [OF assms]
  by (simp_all add: finished_def answered_def CompletePendingOperation_def run_finish_def claim_def
      notify_watchdog_def Let_def fun_eq_iff)

lemma call_after_answer_eq: "call_after_answer t = whole_call 2 t (finished t)"
  by (simp add: call_after_answer_def finished_def answered_def Let_def)

lemma call_after_answer_reached:
  assumes "0 < t"
  shows "(stub_step (\<lambda>_. Async t))\<^sup>*\<^sup>* new_stub (call_after_answer t)"
proof -
  have "(stub_step (\<lambda>_. Async t))\<^sup>*\<^sup>* new_stub (whole_call 1 t new_stub)"
    by (rule whole_call_reached) (use assms in \<open>simp_all add: new_stub_def\<close>)
  then have "(stub_step (\<lambda>_. Async t))\<^sup>*\<^sup>* new_stub (answered t)"
    unfolding answered_def by (rule by_other) (rule o_response)
  then have "(stub_step (\<lambda>_. Async t))\<^sup>*\<^sup>* new_stub (finished t)"
    unfolding finished_def by (rule run_finish_reached) (rule answered_simps [OF assms])
  then show ?thesis unfolding call_after_answer_eq
    by (rule whole_call_reached) (use assms finished_simps [OF assms] in simp_all)
qed

lemma call_after_answer_spins:
  assumes "0 < t"
  shows "spinning (call_after_answer t)"
    "m_PendingOperations (call_after_answer t) = [2 \<mapsto> \<lparr>m_bAsyncInvoke = True, m_bFireAndForgetAsync = False,
       m_pAsyncContext = True, m_asyncDeadline = Some (nat t), m_lRoseResult = 0, m_CompletedEvent = False\<rparr>]"
    "callbacks (call_after_answer t) = [(1, ROSE_NOERROR)]"
  using finished_simps [OF assms] assms
  by (simp_all add: call_after_answer_eq whole_call_def check_call_def to_marked_def to_deadline_def to_done_def
      AddPendingOperation_def insert_key_def new_operation_def write_op_def set_call_def EnsureWatchdogRunning_def
      spinning_def Let_def fun_eq_iff)

text \<open>A pause between the deadline and the count: the count stays, and the watchdog with it.\<close>

definition before_count :: "int \<Rightarrow> stub" where
  "before_count t = to_deadline 1 t (to_marked 1 t (check_call 1 new_stub))"

definition paused :: "int \<Rightarrow> stub" where
  "paused t = CompleteAllPendingOperations [1] ((before_count t)\<lparr>m_bProcessingAllowed := False\<rparr>)"

definition counted_late :: "int \<Rightarrow> stub" where
  "counted_late t = (to_done 1 (run_finish 1 ROSE_TE_SHUTDOWN (paused t)))\<lparr>m_watchdogStopRequested := True\<rparr>"

lemma before_count_simps:
  assumes "0 < t"
  shows "calls (before_count t) = (\<lambda>_. Idle)(1 := Deadline_set)" "tasks (before_count t) = []"
    "m_PendingOperations (before_count t) = [1 \<mapsto> \<lparr>m_bAsyncInvoke = True, m_bFireAndForgetAsync = False,
       m_pAsyncContext = True, m_asyncDeadline = Some (nat t), m_lRoseResult = 0, m_CompletedEvent = False\<rparr>]"
    "m_asyncDeadlineCount (before_count t) = 0" "\<not> m_watchdogThreadRunning (before_count t)"
    "wd (before_count t) = Off" "callbacks (before_count t) = []" "\<not> dangling (before_count t)"
  using assms by (simp_all add: before_count_def run_defs fun_eq_iff)

lemma before_count_reached:
  assumes "0 < t"
  shows "(stub_step (\<lambda>_. Async t))\<^sup>*\<^sup>* new_stub (before_count t)"
proof -
  let ?a = "check_call 1 new_stub"
  have "(stub_step (\<lambda>_. Async t))\<^sup>*\<^sup>* new_stub ?a"
    by (rule check_call_reached) (simp_all add: new_stub_def)
  then have "(stub_step (\<lambda>_. Async t))\<^sup>*\<^sup>* new_stub (to_marked 1 t ?a)"
    by (rule to_marked_reached) (simp_all add: check_call_def)
  then show ?thesis unfolding before_count_def
    by (rule to_deadline_reached) (use assms in \<open>simp_all add: to_marked_def Let_def\<close>)
qed

lemma paused_reached:
  assumes "0 < t"
  shows "(stub_step (\<lambda>_. Async t))\<^sup>*\<^sup>* new_stub (paused t)"
proof -
  have "(stub_step (\<lambda>_. Async t))\<^sup>*\<^sup>* new_stub ((before_count t)\<lparr>m_bProcessingAllowed := False\<rparr>)"
    by (rule by_other [OF before_count_reached [OF assms] o_pause])
  then show ?thesis unfolding paused_def
    by (rule by_other) (rule o_complete, use before_count_simps [OF assms] in \<open>auto simp: async_ids_def\<close>)
qed

lemma paused_finish_simps:
  assumes "0 < t"
  shows "tasks (paused t) = [Finish 1 ROSE_TE_SHUTDOWN]"
    "calls (run_finish 1 ROSE_TE_SHUTDOWN (paused t)) = (\<lambda>_. Idle)(1 := Deadline_set)"
    "m_watchdogThreadRunning (run_finish 1 ROSE_TE_SHUTDOWN (paused t)) = False"
    "wd (run_finish 1 ROSE_TE_SHUTDOWN (paused t)) = Off"
    "m_PendingOperations (run_finish 1 ROSE_TE_SHUTDOWN (paused t)) = Map.empty"
    "tasks (run_finish 1 ROSE_TE_SHUTDOWN (paused t)) = []"
    "callbacks (run_finish 1 ROSE_TE_SHUTDOWN (paused t)) = [(1, ROSE_TE_SHUTDOWN)]"
    "m_asyncDeadlineCount (run_finish 1 ROSE_TE_SHUTDOWN (paused t)) = 0"
    "m_bProcessingAllowed (run_finish 1 ROSE_TE_SHUTDOWN (paused t)) = False"
    "\<not> dangling (run_finish 1 ROSE_TE_SHUTDOWN (paused t))"
  using before_count_simps [OF assms]
  by (simp_all add: paused_def CompleteAllPendingOperations_def run_finish_def claim_def notify_watchdog_def
      Let_def fun_eq_iff)

lemma counted_late_reached:
  assumes "0 < t"
  shows "(stub_step (\<lambda>_. Async t))\<^sup>*\<^sup>* new_stub (counted_late t)"
proof -
  have "(stub_step (\<lambda>_. Async t))\<^sup>*\<^sup>* new_stub (run_finish 1 ROSE_TE_SHUTDOWN (paused t))"
    by (rule run_finish_reached [OF paused_reached [OF assms] paused_finish_simps(1) [OF assms]])
  then have "(stub_step (\<lambda>_. Async t))\<^sup>*\<^sup>* new_stub (to_done 1 (run_finish 1 ROSE_TE_SHUTDOWN (paused t)))"
    by (rule to_done_reached [where t = t]) (use assms paused_finish_simps [OF assms] in simp_all)
  then show ?thesis unfolding counted_late_def by (rule by_other) (rule o_stop)
qed

lemma counted_late_spins:
  assumes "0 < t"
  shows "spinning (counted_late t)" "m_PendingOperations (counted_late t) = Map.empty" "tasks (counted_late t) = []"
    "calls (counted_late t) = (\<lambda>_. Idle)(1 := Done)" "\<not> m_bProcessingAllowed (counted_late t)"
    "\<not> dangling (counted_late t)"
  using paused_finish_simps [OF assms]
  by (simp_all add: counted_late_def to_done_def EnsureWatchdogRunning_def spinning_def set_call_def Let_def fun_eq_iff)

text \<open>An answer inside \<open>Send\<close> to a call that does not wait: the operation is gone when the call reads it.\<close>

definition answered_in_send :: stub where
  "answered_in_send =
     (let s = CompletePendingOperation 1 ROSE_NOERROR (to_marked 1 0 (check_call 1 new_stub));
          s = set_call 1 (Sent ROSE_NOERROR) (run_finish 1 ROSE_NOERROR s)
      in set_call 1 Done (write_op 1 (\<lambda>op. op)
           (s\<lparr>returned := returned s @ [(1, ROSE_NOERROR)], tasks := tasks s @ [Finish 1 ROSE_NOERROR]\<rparr>)))"

lemma answered_in_send_reached: "(stub_step (\<lambda>_. Async 0))\<^sup>*\<^sup>* new_stub answered_in_send"
proof -
  let ?a = "check_call 1 new_stub" let ?b = "to_marked 1 0 ?a"
  let ?c = "CompletePendingOperation 1 ROSE_NOERROR ?b" let ?d = "run_finish 1 ROSE_NOERROR ?c"
  let ?e = "set_call 1 (Sent ROSE_NOERROR) ?d"
  have "(stub_step (\<lambda>_. Async 0))\<^sup>*\<^sup>* new_stub ?a"
    by (rule check_call_reached) (simp_all add: new_stub_def)
  then have "(stub_step (\<lambda>_. Async 0))\<^sup>*\<^sup>* new_stub ?b"
    by (rule to_marked_reached) (simp_all add: check_call_def)
  then have "(stub_step (\<lambda>_. Async 0))\<^sup>*\<^sup>* new_stub ?c" by (rule by_other) (rule o_response)
  then have "(stub_step (\<lambda>_. Async 0))\<^sup>*\<^sup>* new_stub ?d"
    by (rule run_finish_reached) (simp add: run_defs)
  then have "(stub_step (\<lambda>_. Async 0))\<^sup>*\<^sup>* new_stub ?e"
    by (rule by_call) (rule c_send [of _ _ _ 0], simp add: run_defs)
  then show ?thesis unfolding answered_in_send_def Let_def
    by (rule by_call) (rule c_finish [where t = 0], simp_all)
qed

lemma answered_in_send_dangling: "dangling answered_in_send"
  by (simp add: answered_in_send_def run_defs)

text \<open>A pause between the check and the insertion does not see the call.\<close>

definition missed_by_pause :: "int \<Rightarrow> stub" where
  "missed_by_pause t =
     (let s = CompleteAllPendingOperations [] ((check_call 1 new_stub)\<lparr>m_bProcessingAllowed := False\<rparr>)
      in to_done 1 (to_deadline 1 t (to_marked 1 t s)))"

lemma missed_by_pause_reached:
  assumes "0 < t"
  shows "(stub_step (\<lambda>_. Async t))\<^sup>*\<^sup>* new_stub (missed_by_pause t)"
proof -
  let ?a = "(check_call 1 new_stub)\<lparr>m_bProcessingAllowed := False\<rparr>"
  let ?b = "CompleteAllPendingOperations [] ?a" let ?c = "to_marked 1 t ?b" let ?d = "to_deadline 1 t ?c"
  have "(stub_step (\<lambda>_. Async t))\<^sup>*\<^sup>* new_stub (check_call 1 new_stub)"
    by (rule check_call_reached) (simp_all add: new_stub_def)
  then have "(stub_step (\<lambda>_. Async t))\<^sup>*\<^sup>* new_stub ?a" by (rule by_other) (rule o_pause)
  then have "(stub_step (\<lambda>_. Async t))\<^sup>*\<^sup>* new_stub ?b"
    by (rule by_other) (rule o_complete, auto simp: async_ids_def run_defs)
  then have "(stub_step (\<lambda>_. Async t))\<^sup>*\<^sup>* new_stub ?c"
    by (rule to_marked_reached) (simp_all add: CompleteAllPendingOperations_def check_call_def)
  then have "(stub_step (\<lambda>_. Async t))\<^sup>*\<^sup>* new_stub ?d"
    by (rule to_deadline_reached) (use assms in \<open>simp_all add: to_marked_def Let_def\<close>)
  then show ?thesis unfolding missed_by_pause_def Let_def
    by (rule to_done_reached [where t = t])
      (use assms in \<open>simp_all add: run_defs CompleteAllPendingOperations_def\<close>)
qed

lemma missed_by_pause_pending:
  assumes "0 < t"
  shows "\<not> m_bProcessingAllowed (missed_by_pause t)" "tasks (missed_by_pause t) = []"
    "m_PendingOperations (missed_by_pause t) 1 \<noteq> None" "callbacks (missed_by_pause t) = []"
  using assms by (simp_all add: missed_by_pause_def CompleteAllPendingOperations_def run_defs fun_eq_iff)

lemma finite_call: "call_step md s t \<Longrightarrow> finite (dom (m_PendingOperations s)) \<Longrightarrow> finite (dom (m_PendingOperations t))"
  by (induction rule: call_step.induct)
    (auto simp: AddPendingOperation_def RemovePendingOperation_def insert_key_def write_op_def split: option.split)

lemma finite_task: "task_step s t \<Longrightarrow> finite (dom (m_PendingOperations s)) \<Longrightarrow> finite (dom (m_PendingOperations t))"
  by (induction rule: task_step.induct) (auto simp: claim_def split: option.splits if_splits)

lemma finite_watchdog: "watchdog_step s t \<Longrightarrow> finite (dom (m_PendingOperations s)) \<Longrightarrow> finite (dom (m_PendingOperations t))"
  by (induction rule: watchdog_step.induct) auto

lemma finite_other: "other_step s t \<Longrightarrow> finite (dom (m_PendingOperations s)) \<Longrightarrow> finite (dom (m_PendingOperations t))"
proof (induction rule: other_step.induct)
  case (o_complete ids s)
  have "dom (m_PendingOperations (CompleteAllPendingOperations ids s)) \<subseteq> dom (m_PendingOperations s)"
    by (auto simp: CompleteAllPendingOperations_def split: option.splits)
  with o_complete show ?case by (simp add: finite_subset)
qed (auto simp: CompletePendingOperation_def split: option.split)

interpretation finitely_many: kept_by_steps "stub_step md" "\<lambda>s. finite (dom (m_PendingOperations s))" for md
  by unfold_locales (auto simp: stub_step_def intro: finite_call finite_task finite_watchdog finite_other)

end
