(* ===== verification/Rose_Props.thy ===== *)
theory Rose_Props
  imports Rose_Pools Rose_Pending
begin

section \<open>Properties of the ROSE runtime\<close>

text \<open>The claims about the stub of \<open>cpp-lib\<close>, each over the model of its theory.\<close>

subsection \<open>Subscriptions and operations\<close>




text \<open>C13: Whatever is registered, a name that leads to an operation id leads to an id with this
  name, an operation is filed as invoke or event of exactly the module it was registered with,
  and a sealed registry does not change.\<close>

theorem lookup_consistent:
  assumes "L = fold lookup_call cs empty_lookup"
  shows "(LookUpID L (Some n) \<noteq> 0 \<longrightarrow> LookUpName L (LookUpID L (Some n)) = Some n) \<and>
    (LookUpModuleName L i = Some mn \<longleftrightarrow>
       m_invokes (module_at (m_loadedModules L) mn) i \<noteq> None \<or> m_events (module_at (m_loadedModules L) mn) i \<noteq> None) \<and>
    fold lookup_call ds (Seal L) = Seal L"
proof -
  have ok: "lookup_ok L" using assms lookup_ok_calls [OF lookup_ok_empty] by simp
  then have "LookUpModuleName L i = Some mn \<longleftrightarrow>
      m_invokes (module_at (m_loadedModules L) mn) i \<noteq> None \<or> m_events (module_at (m_loadedModules L) mn) i \<noteq> None"
    unfolding lookup_ok_def LookUpModuleName_def by (auto simp: ex_bool_eq split: prod.splits)
  with lookup_name_of_id [OF ok, of n] sealed_calls [of "Seal L" ds] show ?thesis
    by (simp add: Seal_def)
qed

theorem lookup_consistent_witness:
  "LookUpName (fold lookup_call [Register_Op 7 (Some ''op'') 1 (Some ''M'') False 0 0] empty_lookup) 7 = Some ''op''"
  using lookup_consistent [of _ "[Register_Op 7 (Some ''op'') 1 (Some ''M'') False 0 0]" "''op''" 7 "''M''" "[]", OF refl]
  by (simp add: RegisterOperation_def empty_lookup_def LookUpID_def Let_def)

text \<open>With the blocking policy and the capabilities of the peer, an event passes if the
  session subscribed it; an invoke passes if the session supports it and the peer listed it in a
  detail of the module that the operation is registered with.\<close>

theorem outbound_blocked_iff:
  "IsOperationBlocked (IsSubscribedEvent S) (IsSupportedInvoke S)
      (SetRemoteModuleCapabilities (SnaccBuildRemoteModuleCapabilities ds) B) op bIsEvent \<longleftrightarrow>
    m_operationBlockPolicy B = BlockUnsupportedOperations \<and>
    (if bIsEvent then \<not> IsSubscribedEvent S op
     else \<not> (IsSupportedInvoke S op \<and> op \<noteq> 0 \<and>
       (\<exists>mn. LookUpModuleName (m_operationLookup B) op = Some mn \<and> (\<exists>d \<in> set ds. detail_offers mn op d))))"
  using remote_supported_iff [of ds B op]
  by (auto simp: IsOperationBlocked_def SetRemoteModuleCapabilities_def)

subsection \<open>Timeouts, invoke ids and frames\<close>

text \<open>The timeout that \<open>Send\<close> writes into an invoke is the time that the caller waits; it
  is written for every invoke but an event whose context or connection has one, in JSON always
  and in BER if the stub was told so.\<close>

theorem wire_timeout_is_wait:
  assumes "iv_timeout invoke = None"
  shows "iv_timeout (sent_invoke invoke ctx lMaxInvokeWait encoding bSendTimeoutInInvokes) =
    (if iv_invokeID invoke \<noteq> event_id \<and> (m_invokeTimeout ctx \<noteq> None \<or> 0 < lMaxInvokeWait) \<and>
        (encoding = JSON \<or> encoding = JSON_NO_HEADING \<or> encoding = BER \<and> bSendTimeoutInInvokes)
     then Some (ResolveInvokeTimeoutMs ctx lMaxInvokeWait) else None)"
  using assms by (rule sent_timeout)

definition example_invoke :: "int \<Rightarrow> unit ROSEInvoke" where
  "example_invoke i = \<lparr>iv_sessionID = None, iv_invokeID = i, iv_operationID = 7, iv_operationName = None,
     iv_timeout = None, iv_argument = None\<rparr>"

definition example_context :: "unit SnaccInvokeContext" where
  "example_context = \<lparr>m_pRejectAuth = None, m_lRejectResult = 0, m_bResponseIsError = False, m_invokeTimeout = None\<rparr>"

theorem wire_timeout_is_wait_witness:
  "iv_timeout (sent_invoke (example_invoke 1) example_context 20000 JSON False) = Some 20000"
  using wire_timeout_is_wait [of "example_invoke 1" example_context 20000 JSON False]
  by (simp add: example_invoke_def example_context_def event_id_def ResolveInvokeTimeoutMs_def
      sint_uint signed_take_bit_int_eq_self)

text \<open>The next 99997 invoke ids of a stub are different, positive and never the id of events.\<close>

theorem invoke_ids_distinct:
  assumes "0 \<le> c" and "c < 99998" and "n \<le> 99997"
  shows "distinct (next_ids n c) \<and> set (next_ids n c) \<subseteq> {1..99997} \<and> event_id \<notin> set (next_ids n c)"
proof -
  have nth: "next_ids n c ! k = 1 + (c + int k) mod 99997" if "k < n" for k
    using next_ids_nth [OF assms(1,2) that] .
  have inj: "j = k" if "j < n" "k < n" "(c + int j) mod 99997 = (c + int k) mod 99997" for j k
  proof -
    from that(3) have "(int j - int k) mod 99997 = 0"
      by (simp add: mod_eq_dvd_iff flip: dvd_eq_mod_eq_0)
    moreover have "\<bar>int j - int k\<bar> < 99997" using that(1,2) assms(3) by linarith
    ultimately show ?thesis using dvd_imp_le_int [of "int j - int k" 99997] by fastforce
  qed
  then have "distinct (next_ids n c)"
    by (auto simp: distinct_conv_nth length_next_ids nth)
  moreover have "set (next_ids n c) \<subseteq> {1..99997}"
  proof
    fix i assume "i \<in> set (next_ids n c)"
    then obtain k where "k < n" "i = 1 + (c + int k) mod 99997"
      by (auto simp: in_set_conv_nth length_next_ids nth)
    then show "i \<in> {1..99997}" using pos_mod_bound [of 99997 "c + int k"] by simp
  qed
  ultimately show ?thesis by (auto simp: event_id_def)
qed

theorem invoke_ids_distinct_witness: "distinct (next_ids 3 99996) \<and> next_ids 3 99996 = [99997, 1, 2]"
  using invoke_ids_distinct [of 99996 3]
  by (simp add: numeral_3_eq_3 GetNextInvokeID_def Let_def)

text \<open>The header of a JSON block is read behind the end of the block exactly when the block is
  a J with at most eight digits and nothing else.\<close>

theorem json_header_overread_iff:
  assumes "bs \<noteq> ''''"
  shows "GetJsonHeaderLen bs (length bs) = None \<longleftrightarrow>
    hd bs = CHR ''J'' \<and> length bs < 10 \<and> (\<forall>c \<in> set (tl bs). is_digit c)"
proof -
  have "digits_end bs = length bs \<longleftrightarrow> (\<forall>c \<in> set (tl bs). is_digit c)" if "length bs < 10"
  proof -
    obtain b bs' where bs: "bs = b # bs'" using assms by (cases bs) auto
    have "length (takeWhile is_digit bs') \<le> length bs'" by (rule length_takeWhile_le)
    with that bs have "digits_end bs = length bs \<longleftrightarrow> length (takeWhile is_digit bs') = length bs'"
      by (simp add: digits_end_def)
    also have "\<dots> \<longleftrightarrow> takeWhile is_digit bs' = bs'"
      by (metis takeWhile_eq_take take_all_iff order_refl)
    finally show ?thesis by (simp add: bs takeWhile_eq_all_conv)
  qed
  then show ?thesis by (auto simp: GetJsonHeaderLen_eq [OF assms])
qed

theorem json_header_overread_iff_witness: "GetJsonHeaderLen ''J12'' (length ''J12'') = None"
  using json_header_overread_iff [of "''J12''"] by (simp add: is_digit_def char_value_def)

subsection \<open>Inbound invokes\<close>

text \<open>The generated codecs of a reject bring it back.\<close>

definition reject_codecs ::
    "('a ROSEReject \<Rightarrow> string) \<Rightarrow> ('a ROSEReject \<Rightarrow> string) \<Rightarrow> (string \<Rightarrow> ('j, 'a) ROSEMessage option)
     \<Rightarrow> (string \<Rightarrow> 'j option) \<Rightarrow> ('j \<Rightarrow> ('j, 'a) ROSEMessage option) \<Rightarrow> 'a ROSEReject \<Rightarrow> bool" where
  "reject_codecs ber json bdec parse jdec r \<longleftrightarrow>
     ber r \<noteq> '''' \<and> bdec (ber r) = Some (reject_msg r) \<and>
     (\<exists>js tree. json r = CHR ''{'' # js \<and> parse (json r) = Some tree \<and> jdec tree = Some (reject_msg r))"

text \<open>C14: A reject that answers an invoke arrives at the peer, ends the operation of this invoke
  and gives the code it was made from exactly for seven codes; all others arrive as another code.
  The frame of JSON holds up to 9999999 octets.\<close>

theorem reject_end_to_end:
  assumes codecs: "reject_codecs ber json bdec parse jdec (sent_reject invoke code ctx)"
    and answer: "EncodeInvokeRejectResponse (EncodeReject e ber json) invoke code ctx s = Some (code, bytes)"
    and e: "e = BER \<or> e = JSON \<and> length (json (sent_reject invoke code ctx)) \<le> 9999999 \<or> e = JSON_NO_HEADING"
    and id: "0 \<le> iv_invokeID invoke" "iv_invokeID invoke < 2 ^ 31" "iv_invokeID invoke \<noteq> event_id"
  shows "\<exists>r. OnBinaryDataBlock e bdec parse jdec bytes = (e, Some (Decoded (reject_msg r))) \<and>
    snd (OnROSEMessage L ids (reject_msg r :: ('j, 'a) ROSEMessage) all) = Complete (iv_invokeID invoke) \<and>
    (GetRejectResultCode (Some r) = code \<longleftrightarrow> code \<in> set kept_codes)"
proof -
  let ?r = "sent_reject invoke code ctx"
  from codecs obtain js tree where c: "ber ?r \<noteq> ''''" "bdec (ber ?r) = Some (reject_msg ?r)"
      "json ?r = CHR ''{'' # js" "parse (json ?r) = Some tree" "jdec tree = Some (reject_msg ?r)"
    unfolding reject_codecs_def by blast
  have plain: "GetJsonHeaderLen (json ?r) (length (json ?r)) = Some 0"
    using GetJsonHeaderLen_eq [of "json ?r"] by (simp add: c(3))
  have frame: "GetJsonHeaderLen (p @ json ?r) (length (p @ json ?r)) = Some 8 \<and> List.drop 8 (p @ json ?r) = json ?r"
    if "GetJsonLengthPrefix (json ?r) = Some p" for p
    using json_frame [OF that] by (simp add: c(3) is_digit_def char_value_def)
  from answer e obtain x where x: "EncodeReject e ber json ?r = Some (x, bytes)"
    by (auto simp: EncodeInvokeRejectResponse_sent [OF id(3,1,2)])
  with e obtain p where bytes: "e = BER \<and> bytes = ber ?r \<or> e = JSON_NO_HEADING \<and> bytes = json ?r \<or>
      e = JSON \<and> GetJsonLengthPrefix (json ?r) = Some p \<and> bytes = p @ json ?r"
    by (auto simp: EncodeReject_def GetJsonLengthPrefix_def Let_def split: if_splits)
  then have "OnBinaryDataBlock e bdec parse jdec bytes = (e, Some (Decoded (reject_msg ?r)))"
    using c frame [of p] plain
    by (elim disjE) (simp_all add: OnBinaryDataBlock_def ReadBlock_def)
  moreover have "rj_invokedID ?r = invokedID_choice (Some (iv_invokeID invoke))"
    using id by (simp add: sent_reject_def RejectInvoke_def uint_word_of_int take_bit_int_eq_self split: prod.split)
  then have "snd (OnROSEMessage L ids (reject_msg ?r :: ('j, 'a) ROSEMessage) all) = Complete (iv_invokeID invoke)"
    by (simp add: OnROSEMessage_def)
  moreover have "GetRejectResultCode (Some ?r) = code \<longleftrightarrow> code \<in> set kept_codes"
    unfolding reject_code_received by (auto simp: kept_codes_def rose_codes)
  ultimately show ?thesis by blast
qed

definition full_reject :: "unit ROSEReject" where
  "full_reject = sent_reject (example_invoke 5) ROSE_REJECT_QUEUE_FULL example_context"

theorem reject_end_to_end_witness:
  "\<exists>r. OnBinaryDataBlock JSON (\<lambda>_. Some (reject_msg full_reject)) (\<lambda>js. if js = ''{}'' then Some () else None)
      (\<lambda>_. Some (reject_msg full_reject)) ''J0000002{}'' = (JSON, Some (Decoded (reject_msg r))) \<and>
    GetRejectResultCode (Some r) = ROSE_REJECT_QUEUE_FULL"
proof -
  let ?parse = "\<lambda>js. if js = ''{}'' then Some () else None" and ?dec = "\<lambda>_. Some (reject_msg full_reject)"
  have "dec (Suc (Suc 0)) = ''2''" by (subst dec.simps) (simp add: char_of_def bit_0)
  moreover have "replicate 6 (CHR ''0'') = ''000000''" by (simp add: numeral_eq_Suc)
  ultimately have p: "GetJsonLengthPrefix ''{}'' = Some ''J0000002''"
    by (simp add: GetJsonLengthPrefix_def)
  have "reject_codecs (\<lambda>_. ''A'') (\<lambda>_. ''{}'') ?dec ?parse ?dec full_reject"
    by (simp add: reject_codecs_def)
  moreover have "EncodeInvokeRejectResponse (EncodeReject JSON (\<lambda>_. ''A'') (\<lambda>_. ''{}'')) (example_invoke 5)
      ROSE_REJECT_QUEUE_FULL example_context '''' = Some (ROSE_REJECT_QUEUE_FULL, ''J0000002{}'')"
    by (simp add: EncodeInvokeRejectResponse_sent example_invoke_def event_id_def EncodeReject_def p rose_codes)
  ultimately show ?thesis
    using reject_end_to_end [of "\<lambda>_. ''A''" "\<lambda>_. ''{}''" ?dec ?parse ?dec "example_invoke 5"
        ROSE_REJECT_QUEUE_FULL example_context JSON "''''" "''J0000002{}''" empty_lookup "{}" True]
    by (auto simp only: full_reject_def [symmetric]) (auto simp: example_invoke_def event_id_def kept_codes_def)
qed

lemma sent_reject_cong:
  "r = ROSE_REJECT_QUEUE_FULL \<or> r = ROSE_TE_SHUTDOWN \<Longrightarrow> sent_reject invoke r c = sent_reject invoke r c'"
  by (auto simp: sent_reject_def reject_answer_def rose_codes)

text \<open>C15: Whatever an inbound invoke meets on its way, what is sent is its one answer of the
  contract: the handler's response, or the reject for the code, or nothing.\<close>

theorem invoke_reply:
  assumes "OnInvokeMessage L enc send pool before after handler mode iv = Finished sent oc rs r"
    and "invoke = PrepareInboundInvokeOperationId L iv" and "h = handler invoke (new_context invoke)"
    and id: "0 \<le> iv_invokeID iv" "iv_invokeID iv < 2 ^ 31"
  shows "\<exists>m. inbound_mode mode pool = Some m \<and>
    sent = (let b = reply_bytes enc invoke (handler_context h (new_context invoke))
                (reply_spec m before after (iv_invokeID iv = event_id) h)
            in if b = '''' then None else Some b)"
proof -
  have same: "iv_invokeID invoke = iv_invokeID iv"
    by (simp add: assms(2) PrepareInboundInvokeOperationId_def Let_def)
  from assms(1-3) obtain m l s c ex dr where m: "inbound_mode mode pool = Some m"
    and run: "run_handler m before after (new_context invoke) h = Some (l, s, c, ex, dr)"
    and answer: "answer_invoke enc send invoke l s c ex dr = Finished sent oc rs r"
    by (auto simp: OnInvokeMessage_def Let_def split: option.splits)
  from answer_invoke_sent [OF answer] id
  have sent: "sent = (let b = (if dr then '''' else if l = 0 \<or> iv_invokeID iv = event_id then s
      else reply_bytes enc invoke c (Reject_reply l)) in if b = '''' then None else Some b)"
    by (simp add: same)
  have cong: "reply_bytes enc invoke c (Reject_reply ROSE_REJECT_QUEUE_FULL) =
        reply_bytes enc invoke c' (Reject_reply ROSE_REJECT_QUEUE_FULL)"
      "reply_bytes enc invoke c (Reject_reply ROSE_TE_SHUTDOWN) =
        reply_bytes enc invoke c' (Reject_reply ROSE_TE_SHUTDOWN)" for c c'
    using sent_reject_cong [of _ invoke c c'] by (simp_all add: reply_bytes_def)
  have "(if dr then '''' else if l = 0 \<or> iv_invokeID iv = event_id then s
      else reply_bytes enc invoke c (Reject_reply l)) =
    reply_bytes enc invoke (handler_context h (new_context invoke))
      (reply_spec m before after (iv_invokeID iv = event_id) h)"
    using run cong [of "new_context invoke" "handler_context h (new_context invoke)"]
    by (cases h) (auto simp: run_handler_def reply_spec_def handler_context_def Let_def reply_bytes_def rose_codes
        split: if_splits)
  with m sent show ?thesis by simp
qed

theorem invoke_reply_witness:
  "\<exists>m. inbound_mode EnqueueOrRun (Some RejectedFull) = Some m \<and>
    Some ''R'' = (let b = reply_bytes (\<lambda>_. Some (0, ''R'')) (example_invoke 5)
        (handler_context (Returned 0 ''ok'' example_context) (new_context (example_invoke 5)))
        (reply_spec m True True False (Returned 0 ''ok'' example_context))
      in if b = '''' then None else Some b)"
proof -
  have i: "PrepareInboundInvokeOperationId L (example_invoke 5) = example_invoke 5" for L
    by (simp add: PrepareInboundInvokeOperationId_def example_invoke_def)
  have id: "iv_invokeID (example_invoke 5) = 5" by (simp add: example_invoke_def)
  have "OnInvokeMessage empty_lookup (\<lambda>_. Some (0, ''R'')) (\<lambda>_. 0) (Some RejectedFull) True True
      (\<lambda>_ _. Returned 0 ''ok'' example_context) EnqueueOrRun (example_invoke 5) =
    Finished (Some ''R'') UNHANDLED REJECT_PROTOCOL ROSE_REJECT_QUEUE_FULL"
    by (simp add: OnInvokeMessage_def i inbound_mode_def run_handler_def answer_invoke_def id event_id_def
        EncodeInvokeRejectResponse_sent invoke_telemetry_def GetUnhandledReasonFromResult_def rose_codes)
  from invoke_reply [OF this i [symmetric] refl] show ?thesis by (simp add: id event_id_def)
qed

text \<open>No invoke is recorded as rejected: the outcome \<open>REJECT\<close> and the reasons
  \<open>LOCAL_REJECT\<close> and \<open>INVOKE_EXCEPTION\<close> are never given to the telemetry, because every
  rejected invoke, also one whose handler threw, is recorded as unhandled with its code.\<close>

theorem reject_not_recorded:
  assumes "OnInvokeMessage L enc send pool before after handler mode iv = Finished sent oc rs r"
  shows "oc \<noteq> REJECT \<and> rs \<noteq> LOCAL_REJECT \<and> rs \<noteq> INVOKE_EXCEPTION \<and> (oc = UNHANDLED \<longleftrightarrow> r \<noteq> 0)"
proof -
  from assms obtain l s c ex dr where
    answer: "answer_invoke enc send (PrepareInboundInvokeOperationId L iv) l s c ex dr = Finished sent oc rs r"
    by (auto simp: OnInvokeMessage_def Let_def split: option.splits)
  then have "oc = UNHANDLED \<longleftrightarrow> r \<noteq> 0"
    by (auto simp: answer_invoke_def Let_def invoke_telemetry_def split: option.splits prod.splits if_splits)
  with answer_invoke_outcome [OF answer] show ?thesis by blast
qed

theorem reject_not_recorded_witness:
  "\<exists>sent oc rs r. OnInvokeMessage empty_lookup (\<lambda>_. Some (0, ''R'')) (\<lambda>_. 0) None True True
      (\<lambda>_ _. Threw_Snacc '''' example_context) EnqueueOrRun (example_invoke 5) = Finished sent oc rs r \<and>
    r = ROSE_REJECT_MISTYPEDARGUMENT \<and> oc = UNHANDLED"
proof -
  let ?run = "OnInvokeMessage empty_lookup (\<lambda>_. Some (0, ''R'')) (\<lambda>_. 0) None True True
      (\<lambda>_ _. Threw_Snacc '''' example_context) EnqueueOrRun (example_invoke 5)"
  have "?run = Finished (Some ''R'') UNHANDLED REJECT_PROTOCOL ROSE_REJECT_MISTYPEDARGUMENT"
    by (simp add: OnInvokeMessage_def PrepareInboundInvokeOperationId_def inbound_mode_def run_handler_def
        answer_invoke_def EncodeInvokeRejectResponse_sent invoke_telemetry_def GetUnhandledReasonFromResult_def
        example_invoke_def event_id_def rose_codes)
  with reject_not_recorded [OF this] show ?thesis by blast
qed

subsection \<open>Outbound invokes\<close>

text \<open>C16: In every reachable state the callback of a call of \<open>SendInvokeAsync\<close> that waits for an
  answer is accounted for exactly once: the call is not yet pending, or pending, or its callback
  is on the way, or has run, or was lost with an operation claimed before it was set up.  So it
  never runs twice, and a call with timeout 0 has none.\<close>

theorem callback_once:
  assumes "(stub_step md)\<^sup>*\<^sup>* new_stub s" and "md i = Async t"
  shows "called_back i s \<le> 1 \<and> (t = 0 \<longrightarrow> called_back i s = 0) \<and>
    (t \<noteq> 0 \<longrightarrow> of_bool (not_yet i s) + of_bool (m_PendingOperations s i \<noteq> None) + paying i s
       + called_back i s + count_list (lost s) i = 1)"
proof -
  have "stub_ok md s" by (rule stub_inv.steps_keep [OF assms(1) stub_ok_new])
  then have "async_ok t i s" using stub_ok_call [of md s i] assms(2) by (simp add: call_ok_def)
  then show ?thesis by (auto simp: async_ok_def account_def split: if_splits)
qed

theorem callback_once_witness:
  "called_back 1 (call_after_answer 5) = 1 \<and> m_PendingOperations (call_after_answer 5) 1 = None"
  using callback_once [OF call_after_answer_reached, of 5 1 5]
  by (simp add: called_back_def call_after_answer_spins)


definition later :: "stub \<Rightarrow> stub" where
  "later s = s\<lparr>now := now s + 1\<rparr>"




text \<open>C18: A timeout can be lost.  The answer to a call sets the stop flag of the watchdog; the next
  call counts its deadline, and the flag stays.  From there the watchdog never leaves its loop and
  never times anything out: the operation stays pending with its deadline and no callback runs,
  however long the watchdog goes on.\<close>

theorem timeout_lost:
  assumes "0 < t" and "watchdog_step\<^sup>*\<^sup>* (call_after_answer t) u"
  shows "(stub_step (\<lambda>_. Async t))\<^sup>*\<^sup>* new_stub (call_after_answer t) \<and>
    (\<exists>op. m_PendingOperations u 2 = Some op \<and> m_asyncDeadline op = Some (nat t)) \<and>
    tasks u = tasks (call_after_answer t) \<and> callbacks u = [(1, ROSE_NOERROR)] \<and> wd u \<noteq> Off"
  using call_after_answer_reached [OF assms(1)] spins [OF call_after_answer_spins(1) [OF assms(1)] assms(2)]
  by (simp add: same_work_def call_after_answer_spins [OF assms(1)])

theorem timeout_lost_witness: "callbacks (later (later (call_after_answer 1))) = [(1, ROSE_NOERROR)]"
proof -
  have "watchdog_step s (later s)" for s using w_tick [of s] by (simp add: later_def)
  then have "watchdog_step\<^sup>*\<^sup>* (call_after_answer 1) (later (later (call_after_answer 1)))"
    by (meson rtranclp.rtrancl_refl rtranclp.rtrancl_into_rtrancl)
  from timeout_lost [OF _ this] show ?thesis by simp
qed

text \<open>C19: The destructor of a stub can wait forever.  A pause that ends an operation between its
  deadline and its count leaves the count at one for good: with no call under way, nothing
  pending and the stop flag set, the watchdog thread that the destructor joins never ends.\<close>

theorem watchdog_never_joined:
  assumes "0 < t" and "watchdog_step\<^sup>*\<^sup>* (counted_late t) u"
  shows "(stub_step (\<lambda>_. Async t))\<^sup>*\<^sup>* new_stub (counted_late t) \<and>
    m_watchdogStopRequested (counted_late t) \<and> m_PendingOperations (counted_late t) = Map.empty \<and>
    tasks (counted_late t) = [] \<and> (\<forall>i. calls (counted_late t) i = Idle \<or> calls (counted_late t) i = Done) \<and> wd u \<noteq> Off"
proof -
  note s = counted_late_spins [OF assms(1)]
  with counted_late_reached [OF assms(1)] spins [OF s(1) assms(2)] s show ?thesis
    by (simp add: spinning_def)
qed

theorem watchdog_never_joined_witness: "wd (later (counted_late 1)) \<noteq> Off"
proof -
  have "watchdog_step\<^sup>*\<^sup>* (counted_late 1) (later (counted_late 1))"
    using w_tick [of "counted_late 1"] by (simp add: later_def)
  from watchdog_never_joined [OF _ this] show ?thesis by simp
qed

text \<open>C20: A call of \<open>SendInvokeAsync\<close> without an answer reads its operation after it was erased,
  when the peer answers while the call is still inside \<open>Send\<close>.\<close>

theorem answer_in_send_dangles:
  "(stub_step (\<lambda>_. Async 0))\<^sup>*\<^sup>* new_stub answered_in_send \<and> dangling answered_in_send"
  using answered_in_send_reached answered_in_send_dangling by blast

subsection \<open>Worker pools\<close>

text \<open>The pool of every operation is new and has its first worker.\<close>

abbreviation started :: "nat \<Rightarrow> nat \<Rightarrow> bool \<Rightarrow> bool \<Rightarrow> pool" where
  "started mt me sh rt \<equiv> StartFloorWorker (new_pool mt me sh rt)"

lemma started_reach_ok: "pool_reach (started mt me sh rt) p \<Longrightarrow> pool_ok p"
  using pool_inv.steps_keep pool_ok_new by blast

definition item_a :: WorkItem where
  "item_a = \<lparr>message = 1, stub = 0, deadline = None\<rparr>"

definition item_b :: WorkItem where
  "item_b = \<lparr>message = 2, stub = 1, deadline = Some 7\<rparr>"

text \<open>C21: In every reachable state of a pool its counters are the threads they count; it has at
  most \<open>maxThreads\<close> threads (one for 0), and a bounded pool never holds more items, waiting and
  in handlers together, than its limit.\<close>

theorem pool_bounds:
  assumes "pool_reach (started mt me sh rt) p"
  shows "liveWorkers p = length (filter (\<lambda>w. w \<noteq> Gone) (workers p)) \<and>
    running p = length (filter is_busy (workers p)) \<and>
    idleWorkers p = length (filter is_waiting (workers p)) \<and>
    running p \<le> liveWorkers p \<and> liveWorkers p \<le> max 1 mt \<and>
    (0 < me \<longrightarrow> length (queue p) + running p \<le> me)"
proof -
  have "maxThreads p = max 1 mt \<and> maxElements p = me"
    using pool_limits.steps_same [OF assms] by (simp add: StartFloorWorker_def new_pool_def)
  moreover from started_reach_ok [OF assms] have "counters_ok p" "bounds_ok p"
    by (simp_all add: pool_ok_def)
  ultimately show ?thesis
    using running_le_live [of p] by (simp add: counters_ok_def bounds_ok_def count_w_def)
qed

theorem pool_bounds_witness: "liveWorkers (two_quick_calls True False item_a item_b) \<le> 2"
  using pool_bounds [OF two_quick_calls_reached [of True False item_a item_b]] by simp

text \<open>C22: No item is lost or handled twice: in every reachable state the accepted items are those
  given to a stub, queued, held by a worker, and on their way to a rejection, each once.  Workers
  take the items in the order in which they were accepted.\<close>

theorem pool_items_once:
  assumes "pool_reach (started mt me sh rt) p"
  shows "mset (accepted p) = mset (map fst (dispatched p)) + mset (queue p) + mset (joining p)
       + mset (rejecting p) + held_items (workers p) \<and>
    subseq (taken p @ queue p) (accepted p)"
  using started_reach_ok [OF assms] by (simp add: pool_ok_def items_ok_def)

theorem pool_items_once_witness:
  "mset (accepted (two_quick_calls True False item_a item_b)) = mset (map fst (dispatched (two_quick_calls True False item_a item_b)))
     + mset (queue (two_quick_calls True False item_a item_b)) + mset (joining (two_quick_calls True False item_a item_b))
     + mset (rejecting (two_quick_calls True False item_a item_b)) + held_items (workers (two_quick_calls True False item_a item_b))"
  using pool_items_once [OF two_quick_calls_reached [of True False item_a item_b]] by blast

text \<open>C23: As long as a pool is not stopped, workers can always get to the first item of the queue:
  from every reachable state there are steps of workers alone, whose handlers return, that take
  it.  So a worker is there for every queue, also after workers shrank away or were retired.\<close>

theorem pool_queue_served:
  assumes "pool_reach (started mt me sh rt) p" and "\<not> stopping p" and "queue p = it # q"
  shows "\<exists>p'. worker_step\<^sup>*\<^sup>* p p' \<and> taken p' = taken p @ [it]"
  by (rule head_taken [OF started_reach_ok [OF assms(1)] assms(2,3)])

theorem pool_queue_served_witness:
  "\<exists>p'. worker_step\<^sup>*\<^sup>* (two_quick_calls True False item_a item_b) p' \<and> taken p' = taken (two_quick_calls True False item_a item_b) @ [item_b]"
  using pool_queue_served [OF two_quick_calls_reached [of True False item_a item_b], of item_b "[]"] two_quick_calls_stalled [of True False item_a item_b]
  by (simp add: stalled_def)

text \<open>A pool can leave work waiting below its limit of threads: after two items that arrive
  before the first worker wakes, one thread of two is in a handler, the second item waits, and
  nothing happens to it until that handler returns.\<close>

theorem pool_stalls:
  assumes "worker_step (two_quick_calls sh rt a b) p"
  shows "pool_reach (started 2 0 sh rt) (two_quick_calls sh rt a b) \<and>
    queue (two_quick_calls sh rt a b) = [b] \<and> liveWorkers (two_quick_calls sh rt a b) < maxThreads (two_quick_calls sh rt a b) \<and>
    (\<exists>i it threw. workers (two_quick_calls sh rt a b) ! i = InHandler it \<and> p = end_item i threw it (two_quick_calls sh rt a b))"
  using two_quick_calls_reached [of sh rt a b] two_quick_calls_stalled [of sh rt a b]
    stalled_step [OF conjunct1 [OF two_quick_calls_stalled] assms]
  by (auto simp: stalled_def)

theorem pool_stalls_witness: "queue (two_quick_calls True False item_a item_b) = [item_b] \<and> (\<exists>p. worker_step (two_quick_calls True False item_a item_b) p)"
proof -
  have w: "workers (two_quick_calls True False item_a item_b) = [InHandler item_a]"
    by (simp add: two_quick_calls_def pool_run)
  have "worker_step (two_quick_calls True False item_a item_b) (end_item 0 False item_a (two_quick_calls True False item_a item_b))"
    by (rule w_end) (simp_all add: w)
  with pool_stalls [OF this] show ?thesis by blast
qed

text \<open>C24: A stub may go when a registered pool has nothing in flight for it and nothing of it is
  queued or being rejected, which is what \<open>RejectQueuedAndWait\<close> waits for: then no worker
  touches the stub any more, and each of its items was given back to it exactly once.\<close>

theorem stub_left_pool:
  assumes "pool_reach (started mt me sh rt) p" and "registered p" and "stub_left s p"
  shows "(\<forall>i w. i < length (workers p) \<and> workers p ! i = w \<longrightarrow> \<not> works_for s w) \<and>
    filter_mset (\<lambda>it. stub it = s) (mset (accepted p)) =
    filter_mset (\<lambda>it. stub it = s) (mset (map fst (dispatched p)))"
proof -
  note ok = started_reach_ok [OF assms(1)]
  from ok assms(2) have "joining p = []" by (simp add: pool_ok_def bounds_ok_def)
  with stub_left_drained [OF ok assms(3)] show ?thesis by (auto simp: all_set_conv_all_nth)
qed

definition rejected_once :: "WorkItem \<Rightarrow> pool" where
  "rejected_once a = reject_item (reject_start (stub a) (snd (Enqueue a (started 1 0 False False))))"

lemmas rejected_once_run = rejected_once_def reject_item_def reject_start_def pool_run

theorem stub_left_pool_witness:
  "filter_mset (\<lambda>it. stub it = stub item_a) (mset (accepted (rejected_once item_a))) =
   filter_mset (\<lambda>it. stub it = stub item_a) (mset (map fst (dispatched (rejected_once item_a))))"
proof -
  have "pool_reach (started 1 0 False False) (rejected_once item_a)"
    unfolding rejected_once_def by (rule pr_client [OF pr_client [OF pr_client [OF pr_start c_enqueue] c_reject] c_reject_item])
  moreover have "registered (rejected_once item_a)" "stub_left (stub item_a) (rejected_once item_a)"
    by (simp_all add: rejected_once_run stub_left_def)
  ultimately show ?thesis using stub_left_pool [of 1 0 False False "rejected_once item_a" "stub item_a"] by blast
qed

text \<open>A configuration is taken exactly if no operation id occurs twice in it; the registry
  then has one thread for every pool and gives every operation to the pool that lists it, and all
  others to none.  A configuration that is not taken changes nothing.\<close>

theorem pool_routes:
  assumes "distinct (map cf_name cs)"
  shows "(fst (Configure cs R) \<longleftrightarrow> distinct (concat (map cf_operationIds cs))) \<and>
    (if fst (Configure cs R) then
       (\<forall>c \<in> set cs. LiveThreads (snd (Configure cs R)) (cf_name c) = 1 \<and>
          (\<forall>i \<in> set (cf_operationIds c). PoolForOperation (snd (Configure cs R)) i = cf_name c)) \<and>
       (\<forall>i. i \<in> set (concat (map cf_operationIds cs)) \<or> PoolForOperation (snd (Configure cs R)) i = '''')
     else snd (Configure cs R) = R)"
proof (cases "check_configs cs {}")
  case False
  then show ?thesis by (simp add: Configure_def check_configs_iff [of cs "{}", simplified])
next
  case True
  then have ids: "distinct (concat (map cf_operationIds cs))" by (simp add: check_configs_iff)
  from True obtain R' where R': "Configure cs R = (True, R')" by (simp add: Configure_def)
  have "routed cs {} i = Some (cf_name c)" if "c \<in> set cs" "i \<in> set (cf_operationIds c)" for c i
    by (rule routed_own_pool [OF assms ids that]) simp
  moreover have "i \<in> set (concat (map cf_operationIds cs)) \<or> PoolForOperation R' i = ''''" for i
    using routed_nowhere [of cs i "{}"]
    by (cases "\<forall>c \<in> set cs. i \<notin> set (cf_operationIds c)")
      (auto simp: PoolForOperation_def Configure_routes(1) [OF R'])
  ultimately show ?thesis
    using ids Configure_threads [OF R'] by (simp add: R' PoolForOperation_def Configure_routes(1) [OF R'])
qed

definition example_config :: SnaccWorkerPoolConfig where
  "example_config = \<lparr>cf_name = ''a'', cf_maxThreads = 4, cf_idleTimeoutMs = 0, cf_maxElements = 0,
     cf_faultPolicy = KeepWorker, cf_operationIds = [1, 2]\<rparr>"

theorem pool_routes_witness:
  "PoolForOperation (snd (Configure [example_config] no_pools)) 2 = ''a'' \<and> LiveThreads (snd (Configure [example_config] no_pools)) ''a'' = 1"
proof -
  have c: "distinct (map cf_name [example_config])" "distinct (concat (map cf_operationIds [example_config]))"
    "cf_name example_config = ''a''" "2 \<in> set (cf_operationIds example_config)"
    by (simp_all add: example_config_def)
  from pool_routes [OF c(1), of no_pools] c(2-4) show ?thesis by auto
qed

subsection \<open>Two more facts\<close>

text \<open>An argument whose JSON decoder answers false is handed to the handler; a result is refused.\<close>

lemma json_argument_unchecked:
  "DecodeInvoke bdec (\<lambda>_. Some (False, t)) mayBeEmpty (invoke\<lparr>iv_argument := Some (jsonBuf j)\<rparr>) = (ROSE_NOERROR, Some t) \<and>
   decode_payload bdec (\<lambda>_. Some (False, t)) True ROSE_NOERROR (Some (jsonBuf j)) = (ROSE_RE_DECODE_FAILED, Some t)"
  by (simp add: DecodeInvoke_def decode_payload_def)

text \<open>An invoke that is rejected because the session closed reads as an unknown operation.\<close>

lemma shutdown_reads_unknown_operation:
  "GetRejectResultCode (Some (sent_reject invoke ROSE_TE_SHUTDOWN ctx)) = ROSE_REJECT_UNKNOWNOPERATION"
  by (simp add: reject_code_received kept_codes_def rose_codes)

end
