(* ===== verification/Comp_Types.thy ===== *)
theory Comp_Types
  imports Asn_Oid
begin

section \<open>The compiler's view of an ASN.1 module (\<open>compiler/core/asn1module.h\<close>)\<close>

text \<open>
  The data the compiler's passes work on, as it is after the references are linked and the
  module is normalised (\<open>snacc.c\<close>, steps 2 to 6), with the small routines of
  \<open>snacc-util.c\<close>, \<open>lib-types.c\<close> and \<open>define.c\<close> that all passes share.  A \<open>TypeDef\<close>
  lives in a heap, a list of records, and a pointer to it is its index; a type reference may
  point back to the definition that holds it.  The other structures are trees and are datatypes.
  A \<open>NamedType\<close> has its address as a field because the code compares such pointers.
\<close>

subsection \<open>Values and tags\<close>

text \<open>What tag codes look at of a value; a reference names the \<open>ValueDef\<close> it is linked to
  (\<open>LinkValueRefs\<close> ends the run when a reference stays unlinked), and \<open>ValueDefs\<close> gives
  the basic value of each.\<close>

datatype BasicValue =
    BASICVALUE_INTEGER AsnInt
  | BASICVALUE_LOCALVALUEREF nat
  | BASICVALUE_IMPORTVALUEREF nat
  | BASICVALUE_OTHER

type_synonym ValueDefs = "nat \<Rightarrow> BasicValue"

record Tag =
  tclass :: BER_CLASS
  tform :: BER_FORM
  tcode :: AsnInt
  explicit :: bool
  valueRef :: "BasicValue option"

definition NO_TAG_CODE :: "32 word" where "NO_TAG_CODE = 0"
definition SEQ_TAG_CODE :: "32 word" where "SEQ_TAG_CODE = 16"
definition SET_TAG_CODE :: "32 word" where "SET_TAG_CODE = 17"

text \<open>The decimal form that \<open>sprintf_s (buf, size, "%d", x)\<close>, which is \<open>snprintf\<close> in this
  build, leaves in a buffer of \<open>size\<close> characters.\<close>

definition sprintf_d :: "nat \<Rightarrow> AsnInt \<Rightarrow> string" where
  "sprintf_d sz x =
     take (sz - 1) (if sint x < 0 then CHR ''-'' # dec (nat (- sint x)) else dec (nat (sint x)))"

definition Code2UnivCodeStr :: "AsnInt \<Rightarrow> string" where
  "Code2UnivCodeStr code =
     (if code = BOOLEAN_TAG_CODE then ''BOOLEAN_TAG_CODE''
      else if code = INTEGER_TAG_CODE then ''INTEGER_TAG_CODE''
      else if code = BITSTRING_TAG_CODE then ''BITSTRING_TAG_CODE''
      else if code = OCTETSTRING_TAG_CODE then ''OCTETSTRING_TAG_CODE''
      else if code = NULLTYPE_TAG_CODE then ''NULLTYPE_TAG_CODE''
      else if code = OID_TAG_CODE then ''OID_TAG_CODE''
      else if code = OD_TAG_CODE then ''OD_TAG_CODE''
      else if code = EXTERNAL_TAG_CODE then ''EXTERNAL_TAG_CODE''
      else if code = REAL_TAG_CODE then ''REAL_TAG_CODE''
      else if code = ENUM_TAG_CODE then ''ENUM_TAG_CODE''
      else if code = SEQ_TAG_CODE then ''SEQ_TAG_CODE''
      else if code = SET_TAG_CODE then ''SET_TAG_CODE''
      else if code = NUMERICSTRING_TAG_CODE then ''NUMERICSTRING_TAG_CODE''
      else if code = PRINTABLESTRING_TAG_CODE then ''PRINTABLESTRING_TAG_CODE''
      else if code = TELETEXSTRING_TAG_CODE then ''TELETEXSTRING_TAG_CODE''
      else if code = VIDEOTEXSTRING_TAG_CODE then ''VIDEOTEXSTRING_TAG_CODE''
      else if code = IA5STRING_TAG_CODE then ''IA5STRING_TAG_CODE''
      else if code = UTCTIME_TAG_CODE then ''UTCTIME_TAG_CODE''
      else if code = GENERALIZEDTIME_TAG_CODE then ''GENERALIZEDTIME_TAG_CODE''
      else if code = GRAPHICSTRING_TAG_CODE then ''GRAPHICSTRING_TAG_CODE''
      else if code = VISIBLESTRING_TAG_CODE then ''VISIBLESTRING_TAG_CODE''
      else if code = GENERALSTRING_TAG_CODE then ''GENERALSTRING_TAG_CODE''
      else if code = UNIVERSALSTRING_TAG_CODE then ''UNIVERSALSTRING_TAG_CODE''
      else if code = BMPSTRING_TAG_CODE then ''BMPSTRING_TAG_CODE''
      else if code = UTF8STRING_TAG_CODE then ''UTF8STRING_TAG_CODE''
      else sprintf_d 3 code)"

text \<open>The number a tag that names a value stands for: the value itself, or the value one
  reference further for a local one; \<open>500\<close> when neither is an integer.\<close>

fun refValue :: "ValueDefs \<Rightarrow> BasicValue \<Rightarrow> AsnInt" where
  "refValue vals (BASICVALUE_LOCALVALUEREF l) =
     (case vals l of
        BASICVALUE_INTEGER i \<Rightarrow> i
      | BASICVALUE_LOCALVALUEREF l' \<Rightarrow>
          (case vals l' of BASICVALUE_INTEGER i \<Rightarrow> i | _ \<Rightarrow> 500)
      | _ \<Rightarrow> 500)"
| "refValue vals (BASICVALUE_IMPORTVALUEREF l) =
     (case vals l of BASICVALUE_INTEGER i \<Rightarrow> i | _ \<Rightarrow> 500)"
| "refValue vals _ = 500"

definition DetermineCode :: "ValueDefs \<Rightarrow> Tag \<Rightarrow> bool \<Rightarrow> string" where
  "DetermineCode vals tag bJustIntegerFlag =
     (case valueRef tag of
        None \<Rightarrow> if \<not> bJustIntegerFlag then Code2UnivCodeStr (tcode tag) else sprintf_d 5 (tcode tag)
      | Some v \<Rightarrow> sprintf_d 5 (refValue vals v))"

subsection \<open>Types\<close>

record TypeRef =
  typeName :: string
  moduleName :: "string option"
  link :: "nat option"

text \<open>The basic types whose payload no pass here reads.\<close>

datatype PlainType =
    BASICTYPE_UNKNOWN | BASICTYPE_BOOLEAN | BASICTYPE_OCTETSTRING | BASICTYPE_NULL | BASICTYPE_OID
  | BASICTYPE_REAL | BASICTYPE_ANY | BASICTYPE_MACROTYPE | BASICTYPE_MACRODEF
  | BASICTYPE_NUMERIC_STR | BASICTYPE_PRINTABLE_STR | BASICTYPE_UNIVERSAL_STR | BASICTYPE_IA5_STR
  | BASICTYPE_BMP_STR | BASICTYPE_UTF8_STR | BASICTYPE_UTCTIME | BASICTYPE_GENERALIZEDTIME
  | BASICTYPE_GRAPHIC_STR | BASICTYPE_VISIBLE_STR | BASICTYPE_GENERAL_STR
  | BASICTYPE_OBJECTDESCRIPTOR | BASICTYPE_VIDEOTEX_STR | BASICTYPE_T61_STR | BASICTYPE_EXTERNAL
  | BASICTYPE_RELATIVE_OID | BASICTYPE_EXTENSION | BASICTYPE_SEQUENCET
  | BASICTYPE_OBJECTCLASSFIELDTYPE | BASICTYPE_ASNSYSTEMTIME

text \<open>A named number is a \<open>ValueDef\<close>: its name and its value.\<close>

type_synonym NamedNumberList = "(string \<times> BasicValue) list"

text \<open>\<open>defaultVal\<close> says whether a default value is given; \<open>cTypeRefInfo\<close> and
  \<open>cxxTypeRefInfo\<close> hold the \<open>isPtr\<close> flag of the C or C++ back end that filled them.  A tag
  list that is \<open>NULL\<close> and an empty one are treated alike by every pass and are both \<open>[]\<close>.\<close>

datatype Type =
  Type (optional: bool) (implicit: bool) (tags: "Tag list") (defaultVal: bool)
    (cTypeRefInfo: "bool option") (cxxTypeRefInfo: "bool option") (basicType: BasicType)
and BasicType =
    Plain PlainType
  | BASICTYPE_INTEGER NamedNumberList
  | BASICTYPE_BITSTRING NamedNumberList
  | BASICTYPE_ENUMERATED NamedNumberList
  | BASICTYPE_SEQUENCE "NamedType list"
  | BASICTYPE_SEQUENCEOF Type
  | BASICTYPE_SET "NamedType list"
  | BASICTYPE_SETOF Type
  | BASICTYPE_CHOICE "NamedType list"
  | BASICTYPE_SELECTION Type string "NamedType option"
  | BASICTYPE_COMPONENTSOF Type
  | BASICTYPE_ANYDEFINEDBY string NamedType
  | BASICTYPE_LOCALTYPEREF TypeRef
  | BASICTYPE_IMPORTTYPEREF TypeRef
  | BASICTYPE_OCTETCONTAINING Type
  | BASICTYPE_BITCONTAINING Type
  | BASICTYPE_OBJECTCLASS "NamedType list"
and NamedType = NamedType (ntAddr: nat) (fieldName: "string option") (ntType: Type)

record TypeDef =
  recursive :: bool
  localRefCount :: int
  tmpRefCount :: int
  visited :: bool
  definedName :: string
  tdType :: Type
  cTypeDefInfo :: bool
  refList :: "nat option list"
  exported :: bool
  importRefCount :: int

type_synonym TypeDefs = "TypeDef list"

abbreviation tdtype :: "TypeDefs \<Rightarrow> nat \<Rightarrow> Type" where
  "tdtype h d \<equiv> tdType (h ! d)"

text \<open>A reference that is linked leads to an index of the heap; \<open>None\<close> is the pointer \<open>NULL\<close>.\<close>

definition ref_link :: "TypeDefs \<Rightarrow> TypeRef \<Rightarrow> nat option" where
  "ref_link h r =
     (case link r of None \<Rightarrow> None | Some d \<Rightarrow> if d < length h then Some d else None)"

lemma ref_link_Some [simp]: "ref_link h r = Some d \<longleftrightarrow> link r = Some d \<and> d < length h"
  by (auto simp: ref_link_def split: option.split)

lemma ref_link_cong: "length h' = length h \<Longrightarrow> ref_link h' r = ref_link h r"
  by (simp add: ref_link_def split: option.split)

subsection \<open>The type table (\<open>lib-types.c\<close>)\<close>

fun plainId :: "PlainType \<Rightarrow> nat" where
  "plainId BASICTYPE_UNKNOWN = 0"
| "plainId BASICTYPE_BOOLEAN = 1"
| "plainId BASICTYPE_OCTETSTRING = 4"
| "plainId BASICTYPE_NULL = 5"
| "plainId BASICTYPE_OID = 6"
| "plainId BASICTYPE_REAL = 7"
| "plainId BASICTYPE_ANY = 16"
| "plainId BASICTYPE_MACROTYPE = 20"
| "plainId BASICTYPE_MACRODEF = 21"
| "plainId BASICTYPE_NUMERIC_STR = 22"
| "plainId BASICTYPE_PRINTABLE_STR = 23"
| "plainId BASICTYPE_UNIVERSAL_STR = 24"
| "plainId BASICTYPE_IA5_STR = 25"
| "plainId BASICTYPE_BMP_STR = 26"
| "plainId BASICTYPE_UTF8_STR = 27"
| "plainId BASICTYPE_UTCTIME = 28"
| "plainId BASICTYPE_GENERALIZEDTIME = 29"
| "plainId BASICTYPE_GRAPHIC_STR = 30"
| "plainId BASICTYPE_VISIBLE_STR = 31"
| "plainId BASICTYPE_GENERAL_STR = 32"
| "plainId BASICTYPE_OBJECTDESCRIPTOR = 33"
| "plainId BASICTYPE_VIDEOTEX_STR = 34"
| "plainId BASICTYPE_T61_STR = 35"
| "plainId BASICTYPE_EXTERNAL = 36"
| "plainId BASICTYPE_RELATIVE_OID = 39"
| "plainId BASICTYPE_EXTENSION = 40"
| "plainId BASICTYPE_SEQUENCET = 41"
| "plainId BASICTYPE_OBJECTCLASSFIELDTYPE = 43"
| "plainId BASICTYPE_ASNSYSTEMTIME = 44"

fun choiceId :: "BasicType \<Rightarrow> nat" where
  "choiceId (Plain p) = plainId p"
| "choiceId (BASICTYPE_INTEGER _) = 2"
| "choiceId (BASICTYPE_BITSTRING _) = 3"
| "choiceId (BASICTYPE_ENUMERATED _) = 8"
| "choiceId (BASICTYPE_SEQUENCE _) = 9"
| "choiceId (BASICTYPE_SEQUENCEOF _) = 10"
| "choiceId (BASICTYPE_SET _) = 11"
| "choiceId (BASICTYPE_SETOF _) = 12"
| "choiceId (BASICTYPE_CHOICE _) = 13"
| "choiceId (BASICTYPE_SELECTION _ _ _) = 14"
| "choiceId (BASICTYPE_COMPONENTSOF _) = 15"
| "choiceId (BASICTYPE_ANYDEFINEDBY _ _) = 17"
| "choiceId (BASICTYPE_LOCALTYPEREF _) = 18"
| "choiceId (BASICTYPE_IMPORTTYPEREF _) = 19"
| "choiceId (BASICTYPE_OCTETCONTAINING _) = 37"
| "choiceId (BASICTYPE_BITCONTAINING _) = 38"
| "choiceId (BASICTYPE_OBJECTCLASS _) = 42"

text \<open>A row holds the universal tag code and the form; the row of a type has its id as index.\<close>

type_synonym LibTypes = "(AsnInt \<times> BER_FORM) list"

definition libBERTypesG :: LibTypes where
  "libBERTypesG =
    [(NO_TAG_CODE, NULL_FORM), (BOOLEAN_TAG_CODE, PRIM), (INTEGER_TAG_CODE, PRIM),
     (BITSTRING_TAG_CODE, ANY_FORM), (OCTETSTRING_TAG_CODE, ANY_FORM), (NULLTYPE_TAG_CODE, PRIM),
     (OID_TAG_CODE, PRIM), (REAL_TAG_CODE, PRIM), (ENUM_TAG_CODE, PRIM), (SEQ_TAG_CODE, CONS),
     (SEQ_TAG_CODE, CONS), (SET_TAG_CODE, CONS), (SET_TAG_CODE, CONS), (NO_TAG_CODE, CONS),
     (NO_TAG_CODE, NULL_FORM), (NO_TAG_CODE, CONS), (NO_TAG_CODE, CONS), (NO_TAG_CODE, CONS),
     (NO_TAG_CODE, NULL_FORM), (NO_TAG_CODE, NULL_FORM), (NO_TAG_CODE, NULL_FORM),
     (NO_TAG_CODE, NULL_FORM), (NUMERICSTRING_TAG_CODE, ANY_FORM),
     (PRINTABLESTRING_TAG_CODE, ANY_FORM), (UNIVERSALSTRING_TAG_CODE, ANY_FORM),
     (IA5STRING_TAG_CODE, ANY_FORM), (BMPSTRING_TAG_CODE, ANY_FORM), (UTF8STRING_TAG_CODE, ANY_FORM),
     (UTCTIME_TAG_CODE, ANY_FORM), (GENERALIZEDTIME_TAG_CODE, ANY_FORM),
     (GRAPHICSTRING_TAG_CODE, ANY_FORM), (VISIBLESTRING_TAG_CODE, ANY_FORM),
     (GENERALSTRING_TAG_CODE, ANY_FORM), (OD_TAG_CODE, ANY_FORM), (VIDEOTEXSTRING_TAG_CODE, ANY_FORM),
     (TELETEXSTRING_TAG_CODE, ANY_FORM), (EXTERNAL_TAG_CODE, CONS), (OCTETSTRING_TAG_CODE, ANY_FORM),
     (BITSTRING_TAG_CODE, PRIM), (RELATIVE_OID_TAG_CODE, PRIM)]"

definition libDERTypesG :: LibTypes where
  "libDERTypesG =
    [(NO_TAG_CODE, NULL_FORM), (BOOLEAN_TAG_CODE, PRIM), (INTEGER_TAG_CODE, PRIM),
     (BITSTRING_TAG_CODE, PRIM), (OCTETSTRING_TAG_CODE, PRIM), (NULLTYPE_TAG_CODE, PRIM),
     (OID_TAG_CODE, PRIM), (REAL_TAG_CODE, PRIM), (ENUM_TAG_CODE, PRIM), (SEQ_TAG_CODE, CONS),
     (SEQ_TAG_CODE, CONS), (SET_TAG_CODE, CONS), (SET_TAG_CODE, CONS), (NO_TAG_CODE, CONS),
     (NO_TAG_CODE, NULL_FORM), (NO_TAG_CODE, CONS), (NO_TAG_CODE, CONS), (NO_TAG_CODE, CONS),
     (NO_TAG_CODE, NULL_FORM), (NO_TAG_CODE, NULL_FORM), (NO_TAG_CODE, NULL_FORM),
     (NO_TAG_CODE, NULL_FORM), (NUMERICSTRING_TAG_CODE, ANY_FORM),
     (PRINTABLESTRING_TAG_CODE, ANY_FORM), (UNIVERSALSTRING_TAG_CODE, ANY_FORM),
     (IA5STRING_TAG_CODE, ANY_FORM), (BMPSTRING_TAG_CODE, ANY_FORM), (UTF8STRING_TAG_CODE, ANY_FORM),
     (UTCTIME_TAG_CODE, ANY_FORM), (GENERALIZEDTIME_TAG_CODE, ANY_FORM),
     (GRAPHICSTRING_TAG_CODE, ANY_FORM), (VISIBLESTRING_TAG_CODE, ANY_FORM),
     (GENERALSTRING_TAG_CODE, ANY_FORM), (OD_TAG_CODE, ANY_FORM), (VIDEOTEXSTRING_TAG_CODE, ANY_FORM),
     (TELETEXSTRING_TAG_CODE, ANY_FORM), (EXTERNAL_TAG_CODE, CONS), (OCTETSTRING_TAG_CODE, PRIM),
     (OCTETSTRING_TAG_CODE, PRIM), (RELATIVE_OID_TAG_CODE, PRIM)]"

text \<open>Reading the table; \<open>None\<close> is a read past its last row.\<close>

definition LIBTYPE_GET_UNIV_TAG_CODE :: "LibTypes \<Rightarrow> nat \<Rightarrow> AsnInt option" where
  "LIBTYPE_GET_UNIV_TAG_CODE tbl tId = (if tId < length tbl then Some (fst (tbl ! tId)) else None)"

definition LIBTYPE_GET_TAG_FORM :: "LibTypes \<Rightarrow> nat \<Rightarrow> BER_FORM option" where
  "LIBTYPE_GET_TAG_FORM tbl tId = (if tId < length tbl then Some (snd (tbl ! tId)) else None)"

text \<open>\<open>Type\<close> structures start zeroed; the tag's other fields too.\<close>

definition SetupType :: "LibTypes \<Rightarrow> BasicType \<Rightarrow> Type option" where
  "SetupType tbl bt =
     map_option
       (\<lambda>code. Type False False
          (if code \<noteq> NO_TAG_CODE
           then [\<lparr>tclass = UNIV_CLASS, tform = PRIM, tcode = code, explicit = False, valueRef = None\<rparr>]
           else [])
          False None None bt)
       (LIBTYPE_GET_UNIV_TAG_CODE tbl (choiceId bt))"

text \<open>The table ends at \<open>BASICTYPE_RELATIVE_OID\<close>: the later ids, an extension marker among
  them, are read past its end.\<close>

lemma length_libTypes [simp]: "length libBERTypesG = 40" "length libDERTypesG = 40"
  by (simp_all add: libBERTypesG_def libDERTypesG_def)

lemma SetupType_None_iff:
  "length tbl = 40 \<Longrightarrow>
   SetupType tbl bt = None \<longleftrightarrow>
     (\<exists>fs. bt = BASICTYPE_OBJECTCLASS fs) \<or>
     bt \<in> {Plain BASICTYPE_EXTENSION, Plain BASICTYPE_SEQUENCET,
           Plain BASICTYPE_OBJECTCLASSFIELDTYPE, Plain BASICTYPE_ASNSYSTEMTIME}"
  by (cases bt; (rename_tac p, case_tac p)?)
     (auto simp: SetupType_def LIBTYPE_GET_UNIV_TAG_CODE_def)

end
