(* ===== verification/Comp_Util.thy ===== *)
theory Comp_Util
  imports Comp_Types
begin

section \<open>The compiler's utilities (\<open>compiler/core/snacc-util.c\<close>, \<open>define.c\<close>)\<close>

text \<open>
  Predicates on types, the two ways through chains of type references, lists of things already
  seen, and the comparisons of tags and object identifiers.
\<close>

subsection \<open>Characters\<close>

text \<open>Of the locale \<open>C\<close>.\<close>

definition isupper :: "char \<Rightarrow> bool" where
  "isupper c \<longleftrightarrow> 65 \<le> (of_char c :: nat) \<and> (of_char c :: nat) \<le> 90"

definition islower :: "char \<Rightarrow> bool" where
  "islower c \<longleftrightarrow> 97 \<le> (of_char c :: nat) \<and> (of_char c :: nat) \<le> 122"

text \<open>The first character, which is the terminating zero in an empty name.\<close>

definition starts :: "(char \<Rightarrow> bool) \<Rightarrow> string \<Rightarrow> bool" where
  "starts p name = (case name of [] \<Rightarrow> False | c # _ \<Rightarrow> p c)"

subsection \<open>Results that may fail\<close>

definition obind :: "'a option \<Rightarrow> ('a \<Rightarrow> 'b option) \<Rightarrow> 'b option" where
  "obind m f = (case m of None \<Rightarrow> None | Some x \<Rightarrow> f x)"

lemma obind_simps [simp]: "obind None f = None" "obind (Some x) f = f x"
  by (simp_all add: obind_def)

lemma obind_Some: "obind m f = Some y \<longleftrightarrow> (\<exists>x. m = Some x \<and> f x = Some y)"
  by (cases m) simp_all

subsection \<open>Kinds of types\<close>

fun ref_of :: "BasicType \<Rightarrow> TypeRef option" where
  "ref_of (BASICTYPE_LOCALTYPEREF r) = Some r"
| "ref_of (BASICTYPE_IMPORTTYPEREF r) = Some r"
| "ref_of _ = None"

definition IsTypeRef :: "Type \<Rightarrow> bool" where
  "IsTypeRef t \<longleftrightarrow> choiceId (basicType t) = 18 \<or> choiceId (basicType t) = 19"

definition plain_primitive :: "PlainType \<Rightarrow> bool" where
  "plain_primitive p \<longleftrightarrow> p \<in>
     {BASICTYPE_BOOLEAN, BASICTYPE_OCTETSTRING, BASICTYPE_NULL, BASICTYPE_OID, BASICTYPE_RELATIVE_OID,
      BASICTYPE_REAL, BASICTYPE_NUMERIC_STR, BASICTYPE_PRINTABLE_STR, BASICTYPE_IA5_STR,
      BASICTYPE_BMP_STR, BASICTYPE_UNIVERSAL_STR, BASICTYPE_UTF8_STR, BASICTYPE_T61_STR,
      BASICTYPE_GENERALIZEDTIME, BASICTYPE_UTCTIME, BASICTYPE_OBJECTDESCRIPTOR, BASICTYPE_VISIBLE_STR,
      BASICTYPE_GRAPHIC_STR, BASICTYPE_VIDEOTEX_STR, BASICTYPE_GENERAL_STR}"

fun IsPrimitiveByDef :: "Type \<Rightarrow> bool" where
  "IsPrimitiveByDef (Type opt impl tgs dflt ci cxi bt) =
     (case bt of
        Plain p \<Rightarrow> plain_primitive p
      | BASICTYPE_SELECTION _ _ lnk \<Rightarrow>
          (case lnk of Some (NamedType a nm t) \<Rightarrow> IsPrimitiveByDef t | None \<Rightarrow> False)
      | BASICTYPE_INTEGER _ \<Rightarrow> True
      | BASICTYPE_BITSTRING _ \<Rightarrow> True
      | BASICTYPE_ENUMERATED _ \<Rightarrow> True
      | BASICTYPE_OCTETCONTAINING _ \<Rightarrow> True
      | _ \<Rightarrow> False)"

definition IsDefinedByLibraryType :: "Type \<Rightarrow> bool" where
  "IsDefinedByLibraryType t \<longleftrightarrow>
     (if IsPrimitiveByDef t then True
      else (case basicType t of
              BASICTYPE_ANYDEFINEDBY _ _ \<Rightarrow> True
            | Plain BASICTYPE_ANY \<Rightarrow> True
            | _ \<Rightarrow> False))"

fun named_numbers :: "BasicType \<Rightarrow> NamedNumberList option" where
  "named_numbers (BASICTYPE_INTEGER n) = Some n"
| "named_numbers (BASICTYPE_ENUMERATED n) = Some n"
| "named_numbers (BASICTYPE_BITSTRING n) = Some n"
| "named_numbers _ = None"

definition HasNamedElmts :: "Type \<Rightarrow> bool" where
  "HasNamedElmts t \<longleftrightarrow> (case named_numbers (basicType t) of None \<Rightarrow> False | Some n \<Rightarrow> n \<noteq> [])"

definition GetNumNamedElmts :: "Type \<Rightarrow> nat" where
  "GetNumNamedElmts t = (case named_numbers (basicType t) of None \<Rightarrow> 0 | Some n \<Rightarrow> length n)"

text \<open>\<open>None\<close>: the type table is read past its end.\<close>

definition HasDefaultTag :: "LibTypes \<Rightarrow> Type \<Rightarrow> bool option" where
  "HasDefaultTag tbl t =
     map_option
       (\<lambda>dfltCode. case tags t of
          [] \<Rightarrow> dfltCode = NO_TAG_CODE
        | firstTag # rest \<Rightarrow>
            rest = [] \<and> tclass firstTag = UNIV_CLASS \<and> tcode firstTag = dfltCode)
       (LIBTYPE_GET_UNIV_TAG_CODE tbl (choiceId (basicType t)))"

definition IsNewType :: "LibTypes \<Rightarrow> Type \<Rightarrow> bool option" where
  "IsNewType tbl t =
     (let rest = (if IsTypeRef t \<and> tags t = [] then False else True)
      in if IsDefinedByLibraryType t
         then map_option (\<lambda>d. if d \<and> \<not> HasNamedElmts t then False else rest) (HasDefaultTag tbl t)
         else Some rest)"

lemma HasDefaultTag_library:
  "IsDefinedByLibraryType t \<Longrightarrow> HasDefaultTag libBERTypesG t \<noteq> None"
  by (cases "basicType t"; cases t)
     (auto simp: IsDefinedByLibraryType_def HasDefaultTag_def LIBTYPE_GET_UNIV_TAG_CODE_def
        plain_primitive_def split: if_splits PlainType.splits)

subsection \<open>Optional elements\<close>

text \<open>The list has its current element at an index; \<open>None\<close> is a current pointer of \<open>NULL\<close>.\<close>

definition elmt_optional :: "NamedType \<Rightarrow> bool" where
  "elmt_optional e \<longleftrightarrow> optional (ntType e) \<or> defaultVal (ntType e)"

definition IsTailOptional :: "NamedType list \<Rightarrow> nat option \<Rightarrow> bool" where
  "IsTailOptional e curr_ix =
     (case curr_ix of None \<Rightarrow> True | Some i \<Rightarrow> list_all elmt_optional (drop i e))"

definition NextIsTailOptional :: "NamedType list \<Rightarrow> nat option \<Rightarrow> bool" where
  "NextIsTailOptional e curr_ix =
     (if e = [] then True
      else case curr_ix of
        None \<Rightarrow> True
      | Some i \<Rightarrow> if Suc i < length e then list_all elmt_optional (drop (Suc i) e) else True)"

definition AllElmtsOptional :: "NamedType list \<Rightarrow> bool" where
  "AllElmtsOptional e = (if e = [] then True else list_all elmt_optional e)"

subsection \<open>Lists of defined objects (\<open>define.c\<close>)\<close>

text \<open>A list of objects, the newest first, with a routine that compares two of them.\<close>

definition DefineObj :: "'a list \<Rightarrow> 'a \<Rightarrow> 'a list" where
  "DefineObj objList obj = obj # objList"

fun ObjIsDefined :: "'a list \<Rightarrow> 'a \<Rightarrow> ('a \<Rightarrow> 'a \<Rightarrow> bool) \<Rightarrow> bool" where
  "ObjIsDefined [] obj cmp = False"
| "ObjIsDefined (o' # objs) obj cmp = (if cmp o' obj then True else ObjIsDefined objs obj cmp)"

fun UndefineObj :: "'a list \<Rightarrow> 'a \<Rightarrow> ('a \<Rightarrow> 'a \<Rightarrow> bool) \<Rightarrow> 'a list" where
  "UndefineObj [] obj cmp = []"
| "UndefineObj (o' # objs) obj cmp =
     (if cmp o' obj then UndefineObj objs obj cmp else o' # UndefineObj objs obj cmp)"

definition StrObjCmp :: "string \<Rightarrow> string \<Rightarrow> bool" where
  "StrObjCmp s1 s2 \<longleftrightarrow> s1 = s2"

definition IntObjCmp :: "AsnInt \<Rightarrow> AsnInt \<Rightarrow> bool" where
  "IntObjCmp s1 s2 \<longleftrightarrow> s1 = s2"

definition ObjPtrCmp :: "nat \<Rightarrow> nat \<Rightarrow> bool" where
  "ObjPtrCmp s1 s2 \<longleftrightarrow> s1 = s2"

lemma ObjIsDefined_iff: "ObjIsDefined objs obj cmp \<longleftrightarrow> (\<exists>x\<in>set objs. cmp x obj)"
  by (induction objs) auto

lemma UndefineObj_filter: "UndefineObj objs obj cmp = filter (\<lambda>x. \<not> cmp x obj) objs"
  by (induction objs) auto

subsection \<open>Comparisons\<close>

text \<open>An \<open>OID\<close> is the list of its arcs; \<open>NULL_OID_ARCNUM\<close> is an arc not yet resolved.\<close>

definition NULL_OID_ARCNUM :: int where "NULL_OID_ARCNUM = -1"

fun same_arcs :: "int list \<Rightarrow> int list \<Rightarrow> bool" where
  "same_arcs (a # as) (b # bs) =
     (if a = NULL_OID_ARCNUM \<or> b = NULL_OID_ARCNUM \<or> a \<noteq> b then False else same_arcs as bs)"
| "same_arcs [] [] = True"
| "same_arcs _ _ = False"

definition CompareOids :: "int list \<Rightarrow> int list \<Rightarrow> bool" where
  "CompareOids oid1 oid2 = (if oid1 = [] \<and> oid2 = [] then False else same_arcs oid1 oid2)"

lemma same_arcs_iff: "same_arcs a b \<longleftrightarrow> a = b \<and> NULL_OID_ARCNUM \<notin> set a"
  by (induction a b rule: same_arcs.induct) auto

text \<open>The comparison of two tag lists, as it is written.\<close>

fun tags_loop :: "Tag list \<Rightarrow> Tag list \<Rightarrow> bool" where
  "tags_loop (tag1 # t1) (tag2 # t2) =
     (if tclass tag1 \<noteq> tclass tag2 \<or> tcode tag1 = tcode tag2 then False else tags_loop t1 t2)"
| "tags_loop _ _ = True"

definition TagsAreIdentical :: "Tag list \<Rightarrow> Tag list \<Rightarrow> bool" where
  "TagsAreIdentical t1 t2 =
     (if t1 = [] \<and> t2 = [] then True
      else if length t1 = length t2 then tags_loop t1 t2 else False)"

lemma TagsAreIdentical_same: "TagsAreIdentical t t \<longleftrightarrow> t = []"
  by (cases t) (auto simp: TagsAreIdentical_def)

subsection \<open>Through type references\<close>

text \<open>\<open>GetValue\<close> follows value references and need not end; \<open>None\<close> is not returning.\<close>

partial_function (option) GetValue :: "ValueDefs \<Rightarrow> BasicValue \<Rightarrow> BasicValue option" where
  "GetValue vals v =
     (case v of
        BASICVALUE_LOCALVALUEREF l \<Rightarrow> GetValue vals (vals l)
      | BASICVALUE_IMPORTVALUEREF l \<Rightarrow> GetValue vals (vals l)
      | _ \<Rightarrow> Some v)"

text \<open>The plain walk goes on for ever in a circle of references; \<open>None\<close> is not returning.  An
  unlinked reference gives back the type the walk started from.\<close>

partial_function (option) resolve :: "TypeDefs \<Rightarrow> Type \<Rightarrow> Type \<Rightarrow> Type option" where
  "resolve h type t =
     (case ref_of (basicType t) of
        None \<Rightarrow> Some t
      | Some r \<Rightarrow>
          (case ref_link h r of None \<Rightarrow> Some type | Some d \<Rightarrow> resolve h type (tdtype h d)))"

definition ResolveImportedType :: "TypeDefs \<Rightarrow> Type \<Rightarrow> Type option" where
  "ResolveImportedType h type = resolve h type type"

definition GetBuiltinType :: "TypeDefs \<Rightarrow> Type \<Rightarrow> nat option" where
  "GetBuiltinType h t = map_option (\<lambda>u. choiceId (basicType u)) (ResolveImportedType h t)"

definition IsPrimitiveByDefOrRef :: "TypeDefs \<Rightarrow> Type \<Rightarrow> bool option" where
  "IsPrimitiveByDefOrRef h t = map_option IsPrimitiveByDef (ResolveImportedType h t)"

text \<open>The other walk keeps the types it went through and stops at one it has seen.\<close>

function paranoid :: "TypeDefs \<Rightarrow> Type \<Rightarrow> nat list \<Rightarrow> Type \<Rightarrow> Type" where
  "paranoid h type l t =
     (case ref_of (basicType t) of
        None \<Rightarrow> t
      | Some r \<Rightarrow>
          (case ref_link h r of
             None \<Rightarrow> type
           | Some d \<Rightarrow>
               if ObjIsDefined l d ObjPtrCmp then type
               else paranoid h type (DefineObj l d) (tdtype h d)))"
  by pat_completeness auto
termination
proof (relation "measure (\<lambda>(h, type, l, t). card ({..<length h} - set l))")
  fix h type l t r d
  assume "ref_link h r = Some d" "\<not> ObjIsDefined l d ObjPtrCmp"
  then have "d \<in> {..<length h} - set l" by (auto simp: ObjIsDefined_iff ObjPtrCmp_def)
  then have "{..<length h} - set (DefineObj l d) \<subset> {..<length h} - set l"
    by (auto simp: DefineObj_def)
  then show "((h, type, DefineObj l d, tdtype h d), h, type, l, t)
      \<in> measure (\<lambda>(h, type, l, t). card ({..<length h} - set l))"
    by (simp add: psubset_card_mono)
qed simp

declare paranoid.simps [simp del]

definition ParanoidGetType :: "TypeDefs \<Rightarrow> Type \<Rightarrow> Type" where
  "ParanoidGetType h type = paranoid h type [] type"

definition ParanoidGetBuiltinType :: "TypeDefs \<Rightarrow> Type \<Rightarrow> nat" where
  "ParanoidGetBuiltinType h t = choiceId (basicType (ParanoidGetType h t))"

text \<open>How many references a walk follows, when it ends.\<close>

inductive resolves :: "TypeDefs \<Rightarrow> Type \<Rightarrow> nat \<Rightarrow> bool" for h where
  defining: "ref_of (basicType t) = None \<Longrightarrow> resolves h t 0"
| unlinked: "ref_of (basicType t) = Some r \<Longrightarrow> ref_link h r = None \<Longrightarrow> resolves h t 0"
| further: "ref_of (basicType t) = Some r \<Longrightarrow> ref_link h r = Some d \<Longrightarrow> resolves h (tdtype h d) n \<Longrightarrow>
    resolves h t (Suc n)"

lemma resolves_unique: "resolves h t n \<Longrightarrow> resolves h t m \<Longrightarrow> m = n"
proof (induction arbitrary: m rule: resolves.induct)
  case (further t r d n)
  from further.prems obtain k where "m = Suc k" "resolves h (tdtype h d) k"
    by cases (use further.hyps(1,2) in auto)
  with further.IH show ?case by simp
next
  case (defining t)
  from defining.prems show ?case by cases (use defining.hyps in auto)
next
  case (unlinked t r)
  from unlinked.prems show ?case
    by cases (use unlinked.hyps in \<open>simp_all del: ref_link_Some\<close>)
qed

lemma resolve_resolves: "resolve h type t = Some u \<Longrightarrow> \<exists>n. resolves h t n"
proof (rule resolve.raw_induct [where P = "\<lambda>h type t u. \<exists>n. resolves h t n"])
  fix rs h type t u
  assume 1: "\<And>h type t u. rs h type t = Some u \<Longrightarrow> \<exists>n. resolves h t n"
    "(case ref_of (basicType t) of None \<Rightarrow> Some t
      | Some r \<Rightarrow> (case ref_link h r of None \<Rightarrow> Some type | Some d \<Rightarrow> rs h type (tdtype h d))) = Some u"
  show "\<exists>n. resolves h t n"
  proof (cases "ref_of (basicType t)")
    case None
    then show ?thesis by (auto intro: resolves.defining)
  next
    case r: (Some r)
    show ?thesis
    proof (cases "ref_link h r")
      case None
      with r show ?thesis by (blast intro: resolves.unlinked)
    next
      case d: (Some d)
      with 1(2) r have "rs h type (tdtype h d) = Some u" by (simp del: ref_link_Some)
      from 1(1) [OF this] r d show ?thesis by (blast intro: resolves.further)
    qed
  qed
qed

lemma resolves_resolve: "resolves h t n \<Longrightarrow> resolve h type t \<noteq> None"
proof (induction rule: resolves.induct)
  case (defining t)
  then show ?case by (subst resolve.simps) simp
next
  case (unlinked t r)
  then show ?case by (subst resolve.simps) (simp del: ref_link_Some)
next
  case (further t r d n)
  then show ?case by (subst resolve.simps) (simp del: ref_link_Some)
qed

text \<open>The careful walk gives what the plain one gives when that returns, and the type itself
  when it does not.\<close>

lemma paranoid_resolve:
  assumes "\<And>d n. d \<in> set l \<Longrightarrow> resolves h (tdtype h d) n \<Longrightarrow> \<exists>m\<le>n. resolves h t m"
  shows "paranoid h type l t = (case resolve h type t of None \<Rightarrow> type | Some u \<Rightarrow> u)"
  using assms
proof (induction h type l t rule: paranoid.induct)
  case (1 h type l t)
  show ?case
  proof (cases "ref_of (basicType t)")
    case None
    then show ?thesis by (simp add: paranoid.simps [of h type l t] resolve.simps [of h type t])
  next
    case r: (Some r)
    show ?thesis
    proof (cases "ref_link h r")
      case None
      with r show ?thesis
        by (simp add: paranoid.simps [of h type l t] resolve.simps [of h type t] del: ref_link_Some)
    next
      case d: (Some d)
      show ?thesis
      proof (cases "d \<in> set l")
        case True
        have "resolve h type t = None"
        proof (rule ccontr)
          assume "resolve h type t \<noteq> None"
          then obtain u where "resolve h type t = Some u" by blast
          from resolve_resolves [OF this] obtain n where n: "resolves h t n" by blast
          then obtain k where k: "n = Suc k" "resolves h (tdtype h d) k"
            by cases (use r d in \<open>simp_all del: ref_link_Some\<close>)
          from 1(2) [OF True k(2)] obtain m where "m \<le> k" "resolves h t m" by blast
          with resolves_unique [OF n] k(1) show False by fastforce
        qed
        with True r d show ?thesis
          by (simp add: paranoid.simps [of h type l t] ObjIsDefined_iff ObjPtrCmp_def del: ref_link_Some)
      next
        case False
        have "paranoid h type (DefineObj l d) (tdtype h d) =
            (case resolve h type (tdtype h d) of None \<Rightarrow> type | Some u \<Rightarrow> u)"
        proof (rule 1(1) [OF r d])
          show "\<not> ObjIsDefined l d ObjPtrCmp" using False by (simp add: ObjIsDefined_iff ObjPtrCmp_def)
          fix d' n assume d': "d' \<in> set (DefineObj l d)" "resolves h (tdtype h d') n"
          show "\<exists>m\<le>n. resolves h (tdtype h d) m"
          proof (cases "d' = d")
            case True
            with d' show ?thesis by blast
          next
            case False
            with d' 1(2) obtain m where m: "m \<le> n" "resolves h t m" by (auto simp: DefineObj_def)
            from m(2) obtain k where "m = Suc k" "resolves h (tdtype h d) k"
              by cases (use r d in \<open>simp_all del: ref_link_Some\<close>)
            with m(1) show ?thesis by (intro exI [of _ k]) simp
          qed
        qed
        with False r d show ?thesis
          by (simp add: paranoid.simps [of h type l t] resolve.simps [of h type t]
              ObjIsDefined_iff ObjPtrCmp_def del: ref_link_Some)
      qed
    qed
  qed
qed

lemma ParanoidGetType_eq:
  "ParanoidGetType h t = (case ResolveImportedType h t of None \<Rightarrow> t | Some u \<Rightarrow> u)"
  unfolding ParanoidGetType_def ResolveImportedType_def by (rule paranoid_resolve) simp

subsection \<open>Imports\<close>

text \<open>What a module imports; the private ones come from references of the form \<open>Module.Type\<close>.\<close>

record ImportElmt =
  importName :: string
  privateScope :: bool

end
