(* ===== verification/Comp_Recursive.thy ===== *)
theory Comp_Recursive
  imports Comp_Types
begin

section \<open>Marking recursive types (\<open>compiler/core/recursive.c\<close>)\<close>

text \<open>
  \<open>MarkRecursiveTypes\<close> walks from every type definition of a module through the types it
  holds and the references it meets, and looks for a way back to the definition it started
  from.  The walk marks a definition as entered (\<open>tmpRefCount\<close>) while it is inside it.  Two
  warnings tell of types that have no values.
\<close>

datatype RecWarning = CanHoldNoValues nat | InfinitelySizedValues nat

type_synonym RecState = "TypeDefs \<times> RecWarning list"

text \<open>\<open>None\<close> is the end of the fuel, which is spent when a reference is followed, or a
  reference that is not linked, which the code follows through \<open>NULL\<close>.\<close>

function (sequential) MkRecType :: "nat \<Rightarrow> nat \<Rightarrow> Type \<Rightarrow> bool \<Rightarrow> bool \<Rightarrow> RecState \<Rightarrow> RecState option"
  and MkRecRef :: "nat \<Rightarrow> nat \<Rightarrow> TypeRef \<Rightarrow> bool \<Rightarrow> bool \<Rightarrow> bool \<Rightarrow> RecState \<Rightarrow> RecState option"
  and MkRecChoice :: "nat \<Rightarrow> nat \<Rightarrow> NamedType list \<Rightarrow> bool \<Rightarrow> bool \<Rightarrow> RecState \<Rightarrow> RecState option"
  and MkRecSet :: "nat \<Rightarrow> nat \<Rightarrow> NamedType list \<Rightarrow> bool \<Rightarrow> RecState \<Rightarrow> RecState option" where
  "MkRecType n td (Type opt impl tgs dflt ci cxi bt) isopt isempty s =
     (case bt of
        BASICTYPE_CHOICE es \<Rightarrow>
          if length es > 1 then MkRecChoice n td es True False s
          else MkRecChoice n td es isopt isempty s
      | BASICTYPE_SET es \<Rightarrow> MkRecSet n td es isopt s
      | BASICTYPE_SEQUENCE es \<Rightarrow> MkRecSet n td es isopt s
      | BASICTYPE_SETOF t \<Rightarrow> MkRecType n td t True False s
      | BASICTYPE_SEQUENCEOF t \<Rightarrow> MkRecType n td t True False s
      | BASICTYPE_LOCALTYPEREF r \<Rightarrow> MkRecRef n td r isopt (isopt \<or> opt \<or> dflt) isempty s
      | BASICTYPE_IMPORTTYPEREF r \<Rightarrow> MkRecRef n td r isopt (isopt \<or> opt \<or> dflt) isempty s
      | _ \<Rightarrow> Some s)"
| "MkRecRef n td r isopt newOptional isempty (h, ws) =
     (case ref_link h r of
        None \<Rightarrow> None
      | Some d \<Rightarrow>
          if d = td then
            Some (h[td := (h ! td)\<lparr>recursive := True\<rparr>],
                  ws @ (if isempty then [CanHoldNoValues td]
                        else if \<not> isopt then [InfinitelySizedValues td] else []))
          else if tmpRefCount (h ! d) = 0 then
            (case n of
               0 \<Rightarrow> None
             | Suc n' \<Rightarrow>
                 (case MkRecType n' td (tdtype h d) newOptional isempty
                         (h[d := (h ! d)\<lparr>tmpRefCount := 1\<rparr>], ws) of
                    None \<Rightarrow> None
                  | Some (h', ws') \<Rightarrow> Some (h'[d := (h' ! d)\<lparr>tmpRefCount := 0\<rparr>], ws')))
          else Some (h, ws))"
| "MkRecChoice n td [] isopt isempty s = Some s"
| "MkRecChoice n td (NamedType a nm t # es) isopt isempty s =
     (case MkRecType n td t isopt isempty s of
        None \<Rightarrow> None | Some s' \<Rightarrow> MkRecChoice n td es isopt isempty s')"
| "MkRecSet n td [] isopt s = Some s"
| "MkRecSet n td (NamedType a nm t # es) isopt s =
     (case MkRecType n td t (isopt \<or> optional t \<or> defaultVal t) False s of
        None \<Rightarrow> None | Some s' \<Rightarrow> MkRecSet n td es isopt s')"
  by pat_completeness auto
termination
  by (relation "measures
       [\<lambda>x. case x of Inl (Inl (n, _)) \<Rightarrow> n | Inl (Inr (n, _)) \<Rightarrow> n
                  | Inr (Inl (n, _)) \<Rightarrow> n | Inr (Inr (n, _)) \<Rightarrow> n,
        \<lambda>x. case x of Inl (Inl (_, _, t, _)) \<Rightarrow> size t | Inl (Inr _) \<Rightarrow> 0
                  | Inr (Inl (_, _, es, _)) \<Rightarrow> size_list size es
                  | Inr (Inr (_, _, es, _)) \<Rightarrow> size_list size es]")
     auto

definition MkRecTypeDef :: "nat \<Rightarrow> RecState \<Rightarrow> RecState option" where
  "MkRecTypeDef td s = MkRecType (length (fst s)) td (tdtype (fst s) td) False True s"

fun MkRecTypeDefs :: "nat list \<Rightarrow> RecState \<Rightarrow> RecState option" where
  "MkRecTypeDefs [] s = Some s"
| "MkRecTypeDefs (td # tds) s =
     (case MkRecTypeDef td s of None \<Rightarrow> None | Some s' \<Rightarrow> MkRecTypeDefs tds s')"

definition clear_visits :: "nat list \<Rightarrow> TypeDefs \<Rightarrow> TypeDefs" where
  "clear_visits tds h = foldl (\<lambda>h d. h[d := (h ! d)\<lparr>visited := False, tmpRefCount := 0\<rparr>]) h tds"

definition MarkRecursiveTypes :: "nat list \<Rightarrow> TypeDefs \<Rightarrow> RecState option" where
  "MarkRecursiveTypes tds h = MkRecTypeDefs tds (clear_visits tds h, [])"


subsection \<open>The references of a type\<close>

text \<open>The references a walk meets in one type, in order, each with whether it is met as
  optional, whether what it leads to is, and whether nothing but references and CHOICEs of one
  alternative was passed on the way.\<close>

type_synonym leaf = "TypeRef \<times> bool \<times> bool \<times> bool"

function (sequential) rec_leaves :: "Type \<Rightarrow> bool \<Rightarrow> bool \<Rightarrow> leaf list"
  and choice_leaves :: "NamedType list \<Rightarrow> bool \<Rightarrow> bool \<Rightarrow> leaf list"
  and set_leaves :: "NamedType list \<Rightarrow> bool \<Rightarrow> leaf list" where
  "rec_leaves (Type opt impl tgs dflt ci cxi bt) isopt isempty =
     (case bt of
        BASICTYPE_CHOICE es \<Rightarrow>
          if length es > 1 then choice_leaves es True False else choice_leaves es isopt isempty
      | BASICTYPE_SET es \<Rightarrow> set_leaves es isopt
      | BASICTYPE_SEQUENCE es \<Rightarrow> set_leaves es isopt
      | BASICTYPE_SETOF t \<Rightarrow> rec_leaves t True False
      | BASICTYPE_SEQUENCEOF t \<Rightarrow> rec_leaves t True False
      | BASICTYPE_LOCALTYPEREF r \<Rightarrow> [(r, isopt, isopt \<or> opt \<or> dflt, isempty)]
      | BASICTYPE_IMPORTTYPEREF r \<Rightarrow> [(r, isopt, isopt \<or> opt \<or> dflt, isempty)]
      | _ \<Rightarrow> [])"
| "choice_leaves [] isopt isempty = []"
| "choice_leaves (NamedType a nm t # es) isopt isempty =
     rec_leaves t isopt isempty @ choice_leaves es isopt isempty"
| "set_leaves [] isopt = []"
| "set_leaves (NamedType a nm t # es) isopt =
     rec_leaves t (isopt \<or> optional t \<or> defaultVal t) False @ set_leaves es isopt"
  by pat_completeness auto
termination
  by (relation "measure
       (\<lambda>x. case x of Inl (t, _) \<Rightarrow> size t
                  | Inr (Inl (es, _)) \<Rightarrow> size_list size es | Inr (Inr (es, _)) \<Rightarrow> size_list size es)")
     auto

fun MkRefs :: "nat \<Rightarrow> nat \<Rightarrow> leaf list \<Rightarrow> RecState \<Rightarrow> RecState option" where
  "MkRefs n td [] s = Some s"
| "MkRefs n td ((r, isopt, newOptional, isempty) # ls) s =
     (case MkRecRef n td r isopt newOptional isempty s of
        None \<Rightarrow> None | Some s' \<Rightarrow> MkRefs n td ls s')"

lemma MkRefs_append:
  "MkRefs n td (xs @ ys) s = (case MkRefs n td xs s of None \<Rightarrow> None | Some s' \<Rightarrow> MkRefs n td ys s')"
  by (induction n td xs s rule: MkRefs.induct) (auto split: option.split)

lemma MkRec_leaves:
  "MkRecType n td t isopt isempty s = MkRefs n td (rec_leaves t isopt isempty) s"
  "MkRecChoice n td es isopt isempty s = MkRefs n td (choice_leaves es isopt isempty) s"
  "MkRecSet n td es isopt s = MkRefs n td (set_leaves es isopt) s"
proof (induction t isopt isempty and es isopt isempty and es isopt arbitrary: s and s and s
    rule: rec_leaves_choice_leaves_set_leaves.induct)
  case (1 opt impl tgs dflt ci cxi bt isopt isempty)
  show ?case
    by (cases bt) (use 1 in \<open>simp_all split: option.split\<close>)
qed (simp_all add: MkRefs_append split: option.split)

text \<open>What was optional on the way in stays so, and what was not empty.\<close>

definition weaken :: "bool \<Rightarrow> bool \<Rightarrow> leaf \<Rightarrow> leaf" where
  "weaken a b = (\<lambda>(r, p, q, e). (r, a \<or> p, a \<or> q, b \<and> e))"

lemma leaves_weaken:
  "rec_leaves t (a \<or> isopt) (b \<and> isempty) = map (weaken a b) (rec_leaves t isopt isempty)"
  "choice_leaves es (a \<or> isopt) (b \<and> isempty) = map (weaken a b) (choice_leaves es isopt isempty)"
  "set_leaves es (a \<or> isopt) = map (weaken a b) (set_leaves es isopt)"
proof (induction t isopt isempty and es isopt isempty and es isopt
    rule: rec_leaves_choice_leaves_set_leaves.induct)
  case (1 opt impl tgs dflt ci cxi bt isopt isempty)
  show ?case
    by (cases bt) (use 1 in \<open>simp_all add: weaken_def\<close>)
qed simp_all

lemma rec_leaves_flags: "rec_leaves t a b = map (weaken a b) (rec_leaves t False True)"
  using leaves_weaken(1) [of t a False b True] by simp

lemma rec_leaves_refs: "fst ` set (rec_leaves t a b) = fst ` set (rec_leaves t c d)"
  unfolding rec_leaves_flags [of t a b] rec_leaves_flags [of t c d]
  by (force simp: weaken_def image_iff split: prod.splits)

text \<open>The references a type holds, at any depth and in any position, but for those in object
  classes and in the contents of strings, which the walk leaves out.\<close>

inductive refers :: "Type \<Rightarrow> TypeRef \<Rightarrow> bool" where
  here: "bt \<in> {BASICTYPE_LOCALTYPEREF r, BASICTYPE_IMPORTTYPEREF r} \<Longrightarrow>
    refers (Type opt impl tgs dflt ci cxi bt) r"
| elmt: "bt \<in> {BASICTYPE_CHOICE es, BASICTYPE_SET es, BASICTYPE_SEQUENCE es} \<Longrightarrow>
    NamedType a nm t \<in> set es \<Longrightarrow> refers t r \<Longrightarrow> refers (Type opt impl tgs dflt ci cxi bt) r"
| listof: "bt \<in> {BASICTYPE_SETOF t, BASICTYPE_SEQUENCEOF t} \<Longrightarrow>
    refers t r \<Longrightarrow> refers (Type opt impl tgs dflt ci cxi bt) r"

lemma elmt_leaves:
  "NamedType a nm t \<in> set es \<Longrightarrow> fst ` set (rec_leaves t x y) \<subseteq> fst ` set (choice_leaves es p q)"
  "NamedType a nm t \<in> set es \<Longrightarrow> fst ` set (rec_leaves t x y) \<subseteq> fst ` set (set_leaves es p)"
proof (induction es)
  case (Cons e es)
  { case 1 then show ?case
      using Cons.IH(1) rec_leaves_refs [of t x y p q] by (cases e) auto
  next
    case 2 then show ?case
      using Cons.IH(2) rec_leaves_refs [of t x y "p \<or> optional t \<or> defaultVal t" False]
      by (cases e) auto }
qed simp_all

lemma refers_leaf: "refers t r \<Longrightarrow> r \<in> fst ` set (rec_leaves t a b)"
proof (induction arbitrary: a b rule: refers.induct)
  case (elmt bt es e nm t r opt impl tgs dflt ci cxi)
  from elmt.IH elmt_leaves [OF elmt.hyps(2)] have
    "\<And>p q. r \<in> fst ` set (choice_leaves es p q)" "\<And>p. r \<in> fst ` set (set_leaves es p)" by blast+
  with elmt.hyps(1) show ?case by auto
qed auto

lemma leaf_refers:
  "l \<in> set (rec_leaves t a b) \<Longrightarrow> refers t (fst l)"
  "l \<in> set (choice_leaves es a b) \<Longrightarrow> \<exists>x nm t. NamedType x nm t \<in> set es \<and> refers t (fst l)"
  "l \<in> set (set_leaves es a) \<Longrightarrow> \<exists>x nm t. NamedType x nm t \<in> set es \<and> refers t (fst l)"
proof (induction t a b and es a b and es a rule: rec_leaves_choice_leaves_set_leaves.induct)
  case (1 opt impl tgs dflt ci cxi bt isopt isempty)
  show ?case
  proof (cases bt)
    case (BASICTYPE_CHOICE es)
    with 1 have "\<exists>x nm t. NamedType x nm t \<in> set es \<and> refers t (fst l)"
      by (auto split: if_splits)
    with BASICTYPE_CHOICE show ?thesis by (auto intro: refers.elmt [where es = es])
  next
    case (BASICTYPE_SET es)
    with 1 have "\<exists>x nm t. NamedType x nm t \<in> set es \<and> refers t (fst l)" by auto
    with BASICTYPE_SET show ?thesis by (auto intro: refers.elmt [where es = es])
  next
    case (BASICTYPE_SEQUENCE es)
    with 1 have "\<exists>x nm t. NamedType x nm t \<in> set es \<and> refers t (fst l)" by auto
    with BASICTYPE_SEQUENCE show ?thesis by (auto intro: refers.elmt [where es = es])
  qed (use 1 in \<open>auto intro: refers.here refers.listof\<close>)
qed auto

lemma leaves_refers: "fst ` set (rec_leaves t a b) = {r. refers t r}"
  using refers_leaf leaf_refers(1) by blast

definition ref_rel :: "TypeDefs \<Rightarrow> (nat \<times> nat) set" where
  "ref_rel h = {(a, b). a < length h \<and> (\<exists>r. refers (tdtype h a) r \<and> ref_link h r = Some b)}"

definition refs_linked :: "TypeDefs \<Rightarrow> bool" where
  "refs_linked h \<longleftrightarrow> (\<forall>a<length h. \<forall>r. refers (tdtype h a) r \<longrightarrow> ref_link h r \<noteq> None)"

subsection \<open>What the walk finds\<close>

text \<open>The flags of a way back to \<open>td\<close> from some references that enters no definition of
  \<open>E\<close> and none twice.\<close>

inductive hit :: "TypeDefs \<Rightarrow> nat \<Rightarrow> nat set \<Rightarrow> leaf list \<Rightarrow> bool \<Rightarrow> bool \<Rightarrow> bool" for h td where
  found: "(r, p, q, e) \<in> set ls \<Longrightarrow> ref_link h r = Some td \<Longrightarrow> hit h td E ls p e"
| follow: "(r, p, q, e) \<in> set ls \<Longrightarrow> ref_link h r = Some d \<Longrightarrow> d \<noteq> td \<Longrightarrow> d \<notin> E \<Longrightarrow>
    hit h td (insert d E) (rec_leaves (tdtype h d) q e) fp fe \<Longrightarrow> hit h td E ls fp fe"

definition same_types :: "TypeDefs \<Rightarrow> TypeDefs \<Rightarrow> bool" where
  "same_types h h' \<longleftrightarrow> length h' = length h \<and> (\<forall>d<length h. tdtype h' d = tdtype h d)"

definition entered :: "TypeDefs \<Rightarrow> nat set" where
  "entered h = {d. d < length h \<and> tmpRefCount (h ! d) \<noteq> 0}"

definition mark :: "nat \<Rightarrow> bool \<Rightarrow> TypeDefs \<Rightarrow> TypeDefs" where
  "mark td b h = (if b then h[td := (h ! td)\<lparr>recursive := True\<rparr>] else h)"

definition warnings :: "nat \<Rightarrow> (bool \<Rightarrow> bool \<Rightarrow> bool) \<Rightarrow> RecWarning set" where
  "warnings td H = {w. (\<exists>p. H p True) \<and> w = CanHoldNoValues td \<or> H False False \<and> w = InfinitelySizedValues td}"

lemma hit_same: "hit h td E ls p e \<Longrightarrow> same_types h h' \<Longrightarrow> hit h' td E ls p e"
proof (induction rule: hit.induct)
  case (found r p q e ls E)
  show ?case by (rule hit.found [where r = r and q = q]) (use found in \<open>auto simp: same_types_def\<close>)
next
  case (follow r p q e ls d E fp fe)
  show ?case
    by (rule hit.follow [where r = r and p = p and d = d and q = q and e = e])
      (use follow in \<open>auto simp: same_types_def\<close>)
qed

lemma same_sym: "same_types h h' \<Longrightarrow> same_types h' h"
  by (simp add: same_types_def)

lemma hit_cong: "same_types h h' \<Longrightarrow> hit h' td E ls = hit h td E ls"
  by (intro ext iffI; erule hit_same) (auto intro: same_sym)

lemma hit_Nil [simp]: "\<not> hit h td E [] p e"
  by (auto elim: hit.cases)

lemma hit_mono: "hit h td E ls p e \<Longrightarrow> set ls \<subseteq> set ls' \<Longrightarrow> hit h td E ls' p e"
proof (induction rule: hit.induct)
  case (found r p q e ls E)
  show ?case by (rule hit.found [where r = r and q = q]) (use found in auto)
next
  case (follow r p q e ls d E fp fe)
  show ?case
    by (rule hit.follow [where r = r and p = p and q = q and e = e and d = d]) (use follow in auto)
qed

lemma hit_Cons: "hit h td E (l # ls) p e \<longleftrightarrow> hit h td E [l] p e \<or> hit h td E ls p e"
proof
  assume "hit h td E (l # ls) p e"
  then show "hit h td E [l] p e \<or> hit h td E ls p e"
  proof cases
    case (found r q)
    then show ?thesis by (cases "(r, p, q, e) = l") (auto intro: hit.found simp del: ref_link_Some)
  next
    case (follow r p' q e' d)
    then show ?thesis
      by (cases "(r, p', q, e') = l") (auto intro: hit.follow simp del: ref_link_Some)
  qed
qed (auto intro: hit_mono)

lemma hit_single:
  "hit h td E [(r, p, q, e)] fp fe \<longleftrightarrow>
     ref_link h r = Some td \<and> fp = p \<and> fe = e \<or>
     (\<exists>d. ref_link h r = Some d \<and> d \<noteq> td \<and> d \<notin> E \<and>
        hit h td (insert d E) (rec_leaves (tdtype h d) q e) fp fe)"
proof
  assume "hit h td E [(r, p, q, e)] fp fe"
  then show "ref_link h r = Some td \<and> fp = p \<and> fe = e \<or>
     (\<exists>d. ref_link h r = Some d \<and> d \<noteq> td \<and> d \<notin> E \<and>
        hit h td (insert d E) (rec_leaves (tdtype h d) q e) fp fe)"
    by cases (simp_all del: ref_link_Some)
next
  assume "ref_link h r = Some td \<and> fp = p \<and> fe = e \<or>
     (\<exists>d. ref_link h r = Some d \<and> d \<noteq> td \<and> d \<notin> E \<and>
        hit h td (insert d E) (rec_leaves (tdtype h d) q e) fp fe)"
  then show "hit h td E [(r, p, q, e)] fp fe"
  proof (elim disjE exE conjE)
    assume "ref_link h r = Some td" "fp = p" "fe = e"
    then show ?thesis
      using hit.found [where r = r and p = p and q = q and e = e and ls = "[(r, p, q, e)]"]
      by (simp del: ref_link_Some)
  next
    fix d
    assume a: "ref_link h r = Some d" "d \<noteq> td" "d \<notin> E"
      "hit h td (insert d E) (rec_leaves (tdtype h d) q e) fp fe"
    show ?thesis
      by (rule hit.follow [where r = r and p = p and q = q and e = e and d = d])
        (use a in \<open>simp_all del: ref_link_Some\<close>)
  qed
qed

lemma mark_simps [simp]:
  "length (mark td b h) = length h" "entered (mark td b h) = entered h"
  "same_types h (mark td b h)" "mark td b (mark td c h) = mark td (b \<or> c) h"
  by (cases "td < length h";
      auto simp: mark_def entered_def same_types_def nth_list_update list_update_beyond
        split: if_splits)+

lemma refs_linked_same: "same_types h h' \<Longrightarrow> refs_linked h' \<longleftrightarrow> refs_linked h"
  by (auto simp: refs_linked_def same_types_def ref_link_def split: option.splits)

lemma same_ref_link: "same_types h h' \<Longrightarrow> ref_link h' r = ref_link h r"
  by (auto simp: same_types_def intro: ref_link_cong)

definition MkRefs_ok :: "nat \<Rightarrow> bool" where
  "MkRefs_ok n \<longleftrightarrow>
     (\<forall>td h ls ws. td < length h \<longrightarrow> refs_linked h \<longrightarrow> (\<forall>l\<in>set ls. ref_link h (fst l) \<noteq> None) \<longrightarrow>
        card ({..<length h} - insert td (entered h)) \<le> n \<longrightarrow>
        (\<exists>ws'. MkRefs n td ls (h, ws) =
             Some (mark td (\<exists>p e. hit h td (entered h) ls p e) h, ws @ ws') \<and>
           set ws' = warnings td (hit h td (entered h) ls)))"

lemma MkRefs_okD:
  "MkRefs_ok n \<Longrightarrow> td < length h \<Longrightarrow> refs_linked h \<Longrightarrow> \<forall>l\<in>set ls. ref_link h (fst l) \<noteq> None \<Longrightarrow>
   card ({..<length h} - insert td (entered h)) \<le> n \<Longrightarrow>
   \<exists>ws'. MkRefs n td ls (h, ws) =
       Some (mark td (\<exists>p e. hit h td (entered h) ls p e) h, ws @ ws') \<and>
     set ws' = warnings td (hit h td (entered h) ls)"
  by (simp add: MkRefs_ok_def)

lemma restore_tmp:
  assumes "tmpRefCount (h ! d) = 0" "d \<noteq> td"
  shows "(mark td b (h[d := (h ! d)\<lparr>tmpRefCount := 1\<rparr>]))
      [d := (mark td b (h[d := (h ! d)\<lparr>tmpRefCount := 1\<rparr>]) ! d)\<lparr>tmpRefCount := 0\<rparr>] = mark td b h"
proof (cases "d < length h")
  case True
  have "(h ! d)\<lparr>tmpRefCount := 0\<rparr> = h ! d" using assms(1) by simp
  with True assms(2) show ?thesis
    by (auto simp: mark_def list_update_swap)
qed (auto simp: mark_def list_update_beyond)

lemma MkRecRef_spec:
  assumes IH: "\<And>n'. n = Suc n' \<Longrightarrow> MkRefs_ok n'"
    and td: "td < length h" and lk: "refs_linked h" and r: "ref_link h r \<noteq> None"
    and fuel: "card ({..<length h} - insert td (entered h)) \<le> n"
  shows "\<exists>ws'. MkRecRef n td r p q e (h, ws) =
      Some (mark td (\<exists>p' e'. hit h td (entered h) [(r, p, q, e)] p' e') h, ws @ ws') \<and>
    set ws' = warnings td (hit h td (entered h) [(r, p, q, e)])"
proof -
  from r obtain d where d: "ref_link h r = Some d" by auto
  then have dl: "d < length h" by simp
  show ?thesis
  proof (cases "d = td")
    case True
    then show ?thesis using d
      by (auto simp: hit_single mark_def warnings_def simp del: ref_link_Some)
  next
    case False
    show ?thesis
    proof (cases "tmpRefCount (h ! d) = 0")
      case True
      let ?h1 = "h[d := (h ! d)\<lparr>tmpRefCount := 1\<rparr>]"
      have st: "same_types h ?h1" using dl by (auto simp: same_types_def nth_list_update)
      have en: "entered ?h1 = insert d (entered h)"
        using dl by (auto simp: entered_def nth_list_update)
      have "d \<in> {..<length h} - insert td (entered h)"
        using dl True \<open>d \<noteq> td\<close> by (simp add: entered_def)
      then have c: "card ({..<length h} - insert td (entered h)) =
          Suc (card ({..<length h} - insert td (entered h) - {d}))"
        by (subst card_Suc_Diff1) auto
      then obtain n' where n: "n = Suc n'" using fuel by (cases n) auto
      have e: "{..<length ?h1} - insert td (entered ?h1) = {..<length h} - insert td (entered h) - {d}"
        by (auto simp: en)
      have c': "card ({..<length ?h1} - insert td (entered ?h1)) \<le> n'"
        using c fuel n by (simp only: e)
      have lv: "\<forall>l\<in>set (rec_leaves (tdtype h d) q e). ref_link ?h1 (fst l) \<noteq> None"
        using lk leaf_refers(1) dl unfolding refs_linked_def by (metis same_ref_link [OF st])
      from MkRefs_okD [OF IH [OF n] _ _ lv c', of ws] td lk
      obtain ws' where ws': "MkRefs n' td (rec_leaves (tdtype h d) q e) (?h1, ws) =
           Some (mark td (\<exists>p' e'. hit h td (insert d (entered h)) (rec_leaves (tdtype h d) q e) p' e') ?h1, ws @ ws')"
         "set ws' = warnings td (hit h td (insert d (entered h)) (rec_leaves (tdtype h d) q e))"
        unfolding en hit_cong [OF st] refs_linked_same [OF st] by auto
      have "d \<notin> entered h" using True by (simp add: entered_def)
      then have H: "hit h td (entered h) [(r, p, q, e)] =
          hit h td (insert d (entered h)) (rec_leaves (tdtype h d) q e)"
        using d \<open>d \<noteq> td\<close> by (intro ext) (auto simp: hit_single simp del: ref_link_Some)
      show ?thesis
        unfolding H
        using d \<open>d \<noteq> td\<close> True n ws' restore_tmp [OF True \<open>d \<noteq> td\<close>]
        by (auto simp: MkRec_leaves(1) simp del: ref_link_Some)
    next
      case f: False
      then have "d \<in> entered h" using dl by (simp add: entered_def)
      then show ?thesis using d False f
        by (auto simp: hit_single mark_def warnings_def simp del: ref_link_Some)
    qed
  qed
qed

lemma warnings_Un:
  "warnings td (\<lambda>p e. A p e \<or> B p e) = warnings td A \<union> warnings td B"
  by (auto simp: warnings_def)

lemma hit_Cons_ext: "hit h td E (l # ls) = (\<lambda>p e. hit h td E [l] p e \<or> hit h td E ls p e)"
  by (intro ext) (rule hit_Cons)

lemma MkRefs_ok_step:
  assumes IH: "\<And>n'. n = Suc n' \<Longrightarrow> MkRefs_ok n'"
  shows "MkRefs_ok n"
  unfolding MkRefs_ok_def
proof (intro allI impI)
  fix td and h :: TypeDefs and ls :: "leaf list" and ws :: "RecWarning list"
  assume "td < length h" "refs_linked h" "\<forall>l\<in>set ls. ref_link h (fst l) \<noteq> None"
    "card ({..<length h} - insert td (entered h)) \<le> n"
  then show "\<exists>ws'. MkRefs n td ls (h, ws) =
      Some (mark td (\<exists>p e. hit h td (entered h) ls p e) h, ws @ ws') \<and>
    set ws' = warnings td (hit h td (entered h) ls)"
  proof (induction ls arbitrary: h ws)
    case Nil
    then show ?case by (auto simp: mark_def warnings_def)
  next
    case (Cons l ls)
    obtain r p q e where l: "l = (r, p, q, e)" by (cases l)
    let ?b = "\<exists>p' e'. hit h td (entered h) [l] p' e'"
    let ?h = "mark td ?b h"
    have st: "same_types h ?h" by simp
    from MkRecRef_spec [OF IH Cons.prems(1,2) _ Cons.prems(4), of r p q e ws] Cons.prems(3) l
    obtain w1 where w1: "MkRecRef n td r p q e (h, ws) = Some (?h, ws @ w1)"
      "set w1 = warnings td (hit h td (entered h) [l])" by auto
    have "\<exists>w2. MkRefs n td ls (?h, ws @ w1) =
        Some (mark td (\<exists>p e. hit ?h td (entered ?h) ls p e) ?h, (ws @ w1) @ w2) \<and>
      set w2 = warnings td (hit ?h td (entered ?h) ls)"
    proof (rule Cons.IH)
      show "refs_linked ?h" using Cons.prems(2) refs_linked_same [OF st] by simp
      show "\<forall>l\<in>set ls. ref_link ?h (fst l) \<noteq> None"
        using Cons.prems(3) unfolding same_ref_link [OF st] by simp
    qed (use Cons.prems in simp_all)
    then obtain w2 where w2: "MkRefs n td ls (?h, ws @ w1) =
        Some (mark td (\<exists>p e. hit h td (entered h) ls p e) ?h, (ws @ w1) @ w2)"
      "set w2 = warnings td (hit h td (entered h) ls)"
      unfolding hit_cong [OF st] mark_simps(2) by blast
    have "MkRefs n td (l # ls) (h, ws) =
        Some (mark td (\<exists>p e. hit h td (entered h) (l # ls) p e) h, ws @ w1 @ w2)"
      unfolding hit_Cons [of h td "entered h" l ls] using w1 w2 l
      by (simp add: ex_disj_distrib disj_commute)
    moreover have "set (w1 @ w2) = warnings td (hit h td (entered h) (l # ls))"
      unfolding hit_Cons_ext [of h td "entered h" l ls] warnings_Un using w1 w2 by simp
    ultimately show ?case by blast
  qed
qed

lemma MkRefs_ok: "MkRefs_ok n"
  by (induction n) (blast intro: MkRefs_ok_step)+

text \<open>The flags with which one definition leads back to itself.\<close>

definition self_hit :: "TypeDefs \<Rightarrow> nat \<Rightarrow> bool \<Rightarrow> bool \<Rightarrow> bool" where
  "self_hit h td = hit h td (entered h) (rec_leaves (tdtype h td) False True)"

lemma self_hit_cong:
  "same_types h h' \<Longrightarrow> entered h' = entered h \<Longrightarrow> td < length h \<Longrightarrow> self_hit h' td = self_hit h td"
  by (simp add: self_hit_def hit_cong) (simp add: same_types_def)

lemma MkRecTypeDef_spec:
  assumes "td < length h" "refs_linked h"
  shows "\<exists>ws'. MkRecTypeDef td (h, ws) = Some (mark td (\<exists>p e. self_hit h td p e) h, ws @ ws') \<and>
    set ws' = warnings td (self_hit h td)"
  unfolding MkRecTypeDef_def self_hit_def MkRec_leaves fst_conv
proof (rule MkRefs_okD [OF MkRefs_ok assms])
  show "\<forall>l\<in>set (rec_leaves (tdtype h td) False True). ref_link h (fst l) \<noteq> None"
    using assms leaf_refers(1) unfolding refs_linked_def by metis
  show "card ({..<length h} - insert td (entered h)) \<le> length h"
    using card_mono [of "{..<length h}" "{..<length h} - insert td (entered h)"] by auto
qed

lemma MkRecTypeDefs_spec:
  assumes "set tds \<subseteq> {..<length h}" "refs_linked h"
  shows "\<exists>ws'. MkRecTypeDefs tds (h, ws) =
      Some (foldl (\<lambda>h' td. mark td (\<exists>p e. self_hit h td p e) h') h tds, ws @ ws') \<and>
    set ws' = (\<Union>td\<in>set tds. warnings td (self_hit h td))"
  using assms
proof (induction tds arbitrary: h ws)
  case (Cons td tds)
  let ?h = "mark td (\<exists>p e. self_hit h td p e) h"
  have st: "same_types h ?h" by simp
  have sh: "self_hit ?h d = self_hit h d" if "d < length h" for d
    using self_hit_cong [OF st _ that] by simp
  from MkRecTypeDef_spec [of td h ws] Cons.prems obtain w1
    where w1: "MkRecTypeDef td (h, ws) = Some (?h, ws @ w1)" "set w1 = warnings td (self_hit h td)"
    by auto
  from Cons.IH [of ?h "ws @ w1"] Cons.prems refs_linked_same [OF st] obtain w2
    where w2: "MkRecTypeDefs tds (?h, ws @ w1) =
        Some (foldl (\<lambda>h' td. mark td (\<exists>p e. self_hit ?h td p e) h') ?h tds, (ws @ w1) @ w2)"
      "set w2 = (\<Union>td\<in>set tds. warnings td (self_hit ?h td))" by auto
  have f: "foldl (\<lambda>h' td. mark td (\<exists>p e. self_hit ?h td p e) h') ?h tds =
      foldl (\<lambda>h' td. mark td (\<exists>p e. self_hit h td p e) h') ?h tds"
    using Cons.prems(1) by (intro foldl_cong) (auto simp: sh)
  have u: "(\<Union>td\<in>set tds. warnings td (self_hit ?h td)) = (\<Union>td\<in>set tds. warnings td (self_hit h td))"
    using Cons.prems(1) by (intro SUP_cong) (auto simp: sh)
  show ?case using w1 w2 by (auto simp: f u intro!: exI [of _ "w1 @ w2"])
qed simp

subsection \<open>Ways back as paths of a graph\<close>

inductive way :: "('a \<Rightarrow> 'a \<Rightarrow> bool) \<Rightarrow> ('a \<Rightarrow> 'a \<Rightarrow> bool) \<Rightarrow> 'a \<Rightarrow> 'a set \<Rightarrow> 'a \<Rightarrow> bool" for R F td where
  last: "F x td \<Longrightarrow> way R F td E x"
| more: "R x d \<Longrightarrow> d \<noteq> td \<Longrightarrow> d \<notin> E \<Longrightarrow> way R F td (insert d E) d \<Longrightarrow> way R F td E x"

lemma way_path: "way R F td E x \<Longrightarrow> \<exists>y. R\<^sup>*\<^sup>* x y \<and> F y td"
  by (induction rule: way.induct) (blast intro: converse_rtranclp_into_rtranclp)+

lemma last_visit:
  "(R ^^ n) d y \<Longrightarrow> \<exists>m\<le>n. ((\<lambda>a b. R a b \<and> b \<noteq> d) ^^ m) d y"
proof (induction n arbitrary: y)
  case (Suc n)
  then obtain z where z: "(R ^^ n) d z" "R z y" by auto
  with Suc.IH obtain m where m: "m \<le> n" "((\<lambda>a b. R a b \<and> b \<noteq> d) ^^ m) d z" by blast
  show ?case
  proof (cases "y = d")
    case True
    then show ?thesis by (intro exI [of _ 0]) simp
  next
    case False
    with m z(2) have "((\<lambda>a b. R a b \<and> b \<noteq> d) ^^ Suc m) d y" by auto
    with m(1) show ?thesis by (intro exI [of _ "Suc m"]) simp
  qed
qed auto

lemma path_way_aux:
  "((\<lambda>a b. R a b \<and> b \<noteq> td \<and> b \<notin> E) ^^ n) x y \<Longrightarrow> F y td \<Longrightarrow> way R F td E x"
proof (induction n arbitrary: x E rule: less_induct)
  case (less n)
  show ?case
  proof (cases n)
    case 0
    then show ?thesis using less.prems by (auto intro: way.last)
  next
    case (Suc k)
    let ?R = "\<lambda>a b. R a b \<and> b \<noteq> td \<and> b \<notin> E"
    from less.prems(1) have "(?R ^^ Suc k) x y" unfolding Suc .
    then obtain d where d: "?R x d" "(?R ^^ k) d y" by (rule relpowp_Suc_E2)
    from last_visit [OF d(2)] obtain m
      where m: "m \<le> k" "((\<lambda>a b. ?R a b \<and> b \<noteq> d) ^^ m) d y" by blast
    have "(\<lambda>a b. ?R a b \<and> b \<noteq> d) = (\<lambda>a b. R a b \<and> b \<noteq> td \<and> b \<notin> insert d E)"
      by (intro ext) auto
    with m have "((\<lambda>a b. R a b \<and> b \<noteq> td \<and> b \<notin> insert d E) ^^ m) d y" by simp
    from less.IH [OF _ this less.prems(2)] m Suc have "way R F td (insert d E) d" by simp
    with d(1) show ?thesis by (auto intro: way.more)
  qed
qed

lemma way_iff:
  assumes RF: "\<And>x. R x td \<Longrightarrow> F x td"
  shows "way R F td {} x \<longleftrightarrow> (\<exists>y. R\<^sup>*\<^sup>* x y \<and> F y td)"
proof
  assume "\<exists>y. R\<^sup>*\<^sup>* x y \<and> F y td"
  then obtain y where y: "R\<^sup>*\<^sup>* x y" "F y td" by blast
  let ?R = "\<lambda>a b. R a b \<and> b \<noteq> td"
  have "?R\<^sup>*\<^sup>* x y \<or> (\<exists>z. ?R\<^sup>*\<^sup>* x z \<and> F z td)"
    using y(1)
  proof (induction rule: rtranclp_induct)
    case (step y z)
    then show ?case
      by (cases "z = td") (use RF in \<open>blast intro: rtranclp.rtrancl_into_rtrancl\<close>)+
  qed simp
  with y(2) obtain z where z: "?R\<^sup>*\<^sup>* x z" "F z td" by blast
  then obtain n where "(?R ^^ n) x z" by (auto simp: rtranclp_power)
  then show "way R F td {} x" 
    using path_way_aux [where R = R and td = td and E = "{}" and x = x and F = F and y = z] z(2) by simp
qed (rule way_path)

text \<open>An edge whose flags satisfy \<open>K\<close>, from one definition to another.\<close>

definition edge :: "(bool \<Rightarrow> bool \<Rightarrow> bool \<Rightarrow> bool) \<Rightarrow> TypeDefs \<Rightarrow> nat \<Rightarrow> nat \<Rightarrow> bool" where
  "edge K h a b \<longleftrightarrow> a < length h \<and>
     (\<exists>r p q e. (r, p, q, e) \<in> set (rec_leaves (tdtype h a) False True) \<and> K p q e \<and> ref_link h r = Some b)"

text \<open>The walk accumulates flags; a property of the flags found is one of the single edges.\<close>

locale walk_flags =
  fixes G :: "bool \<Rightarrow> bool \<Rightarrow> bool" and C :: "bool \<Rightarrow> bool \<Rightarrow> bool"
    and KR :: "bool \<Rightarrow> bool \<Rightarrow> bool \<Rightarrow> bool" and KF :: "bool \<Rightarrow> bool \<Rightarrow> bool \<Rightarrow> bool"
  assumes final: "G (a \<or> p) (b \<and> e) \<longleftrightarrow> C a b \<and> KF p q e"
    and onward: "C (a \<or> q) (b \<and> e) \<longleftrightarrow> C a b \<and> KR p q e"
    and start: "C False True"
begin

lemma hit_way:
  "hit h td E ls fp fe \<Longrightarrow> x < length h \<Longrightarrow> ls = rec_leaves (tdtype h x) a b \<Longrightarrow> G fp fe \<Longrightarrow>
   C a b \<and> way (edge KR h) (edge KF h) td E x"
proof (induction arbitrary: x a b rule: hit.induct)
  case (found r p q e ls E)
  from found.hyps(1) found.prems(2) obtain bp bq be
    where l: "(r, bp, bq, be) \<in> set (rec_leaves (tdtype h x) False True)"
      "p = (a \<or> bp)" "e = (b \<and> be)"
    by (subst (asm) rec_leaves_flags) (auto simp: weaken_def)
  from found.prems(3) have "G (a \<or> bp) (b \<and> be)" unfolding l .
  then have "C a b" "KF bp bq be" using final [of a bp b be bq] by blast+
  then show ?case using l(1) found.hyps(2) found.prems(1)
    by (auto intro!: way.last simp: edge_def simp del: ref_link_Some)
next
  case (follow r p q e ls d E fp fe)
  from follow.hyps(1) follow.prems(2) obtain bp bq be
    where l: "(r, bp, bq, be) \<in> set (rec_leaves (tdtype h x) False True)"
      "q = (a \<or> bq)" "e = (b \<and> be)"
    by (subst (asm) rec_leaves_flags) (auto simp: weaken_def)
  from follow.IH [OF _ refl follow.prems(3)] follow.hyps(2)
  have w: "C q e" "way (edge KR h) (edge KF h) td (insert d E) d" by auto
  from w(1) have "C (a \<or> bq) (b \<and> be)" unfolding l .
  then have "C a b" "KR bp bq be" using onward [of a bq b be bp] by blast+
  then have "edge KR h x d" using l(1) follow.hyps(2) follow.prems(1)
    unfolding edge_def by blast
  then show ?case using \<open>C a b\<close> w(2) follow.hyps(3,4) by (blast intro: way.more)
qed

lemma way_hit:
  "way (edge KR h) (edge KF h) td E x \<Longrightarrow> C a b \<Longrightarrow>
   \<exists>fp fe. G fp fe \<and> hit h td E (rec_leaves (tdtype h x) a b) fp fe"
proof (induction arbitrary: a b rule: way.induct)
  case (last x E)
  then obtain r p q e where l: "(r, p, q, e) \<in> set (rec_leaves (tdtype h x) False True)"
    "KF p q e" "ref_link h r = Some td" unfolding edge_def by blast
  have "(r, a \<or> p, a \<or> q, b \<and> e) \<in> set (rec_leaves (tdtype h x) a b)"
    using l(1) by (subst rec_leaves_flags) (force simp: weaken_def)
  moreover have "G (a \<or> p) (b \<and> e)" using final last.prems l(2) by blast
  ultimately show ?case using l(3) hit.found by blast
next
  case (more x d E)
  then obtain r p q e where l: "(r, p, q, e) \<in> set (rec_leaves (tdtype h x) False True)"
    "KR p q e" "ref_link h r = Some d" unfolding edge_def by blast
  have m: "(r, a \<or> p, a \<or> q, b \<and> e) \<in> set (rec_leaves (tdtype h x) a b)"
    using l(1) by (subst rec_leaves_flags) (force simp: weaken_def)
  have "C (a \<or> q) (b \<and> e)" using onward more.prems l(2) by blast
  from more.IH [OF this] obtain fp fe where "G fp fe"
    "hit h td (insert d E) (rec_leaves (tdtype h d) (a \<or> q) (b \<and> e)) fp fe" by blast
  with hit.follow [OF m l(3) more.hyps(2,3)] show ?case by blast
qed


end

lemma leaf_flags:
  "(r, p, q, e) \<in> set (rec_leaves t a b) \<Longrightarrow> (p \<longrightarrow> q) \<and> (e \<longrightarrow> b \<and> p = a)"
  "(r, p, q, e) \<in> set (choice_leaves es a b) \<Longrightarrow> (p \<longrightarrow> q) \<and> (e \<longrightarrow> b \<and> p = a)"
  "(r, p, q, e) \<in> set (set_leaves es a) \<Longrightarrow> (p \<longrightarrow> q) \<and> \<not> e"
proof (induction t a b and es a b and es a rule: rec_leaves_choice_leaves_set_leaves.induct)
  case (1 opt impl tgs dflt ci cxi bt isopt isempty)
  show ?case by (cases bt) (use 1 in \<open>auto split: if_splits\<close>)
qed auto

context walk_flags
begin

lemma self_hit_iff:
  assumes "td < length h" "entered h = {}"
    and KK: "\<And>p q e. KR p q e \<Longrightarrow> (p \<longrightarrow> q) \<Longrightarrow> KF p q e"
  shows "(\<exists>fp fe. G fp fe \<and> self_hit h td fp fe) \<longleftrightarrow> (\<exists>y. (edge KR h)\<^sup>*\<^sup>* td y \<and> edge KF h y td)"
proof -
  have "edge KF h x td" if "edge KR h x td" for x
    using that leaf_flags(1) KK unfolding edge_def by blast
  then have "way (edge KR h) (edge KF h) td {} td \<longleftrightarrow> (\<exists>y. (edge KR h)\<^sup>*\<^sup>* td y \<and> edge KF h y td)"
    by (rule way_iff)
  moreover have "(\<exists>fp fe. G fp fe \<and> self_hit h td fp fe) \<longleftrightarrow> way (edge KR h) (edge KF h) td {} td"
    using hit_way [of h td "{}" _ _ _ td False True] way_hit [of h td "{}" td False True] start assms(1)
    unfolding self_hit_def assms(2) by blast
  ultimately show ?thesis by simp
qed

end

interpretation any_way: walk_flags "\<lambda>_ _. True" "\<lambda>_ _. True" "\<lambda>_ _ _. True" "\<lambda>_ _ _. True"
  by unfold_locales simp_all

interpretation empty_way: walk_flags "\<lambda>_ fe. fe" "\<lambda>_ e. e" "\<lambda>_ _ e. e" "\<lambda>_ _ e. e"
  by unfold_locales simp_all

interpretation mandatory_way:
  walk_flags "\<lambda>fp _. \<not> fp" "\<lambda>a _. \<not> a" "\<lambda>_ q _. \<not> q" "\<lambda>p _ _. \<not> p"
  by unfold_locales auto

lemma edge_any: "edge (\<lambda>_ _ _. True) h = (\<lambda>a b. (a, b) \<in> ref_rel h)"
proof (intro ext)
  fix a b
  have "(\<exists>p q e. (r, p, q, e) \<in> set (rec_leaves (tdtype h a) False True)) \<longleftrightarrow> refers (tdtype h a) r" for r
    using leaves_refers [of "tdtype h a" False True] by (force simp: image_iff)
  then show "edge (\<lambda>_ _ _. True) h a b = ((a, b) \<in> ref_rel h)"
    unfolding edge_def ref_rel_def by blast
qed

lemma tranclp_last: "R\<^sup>+\<^sup>+ a b \<longleftrightarrow> (\<exists>y. R\<^sup>*\<^sup>* a y \<and> R y b)"
proof
  assume "R\<^sup>+\<^sup>+ a b"
  then show "\<exists>y. R\<^sup>*\<^sup>* a y \<and> R y b"
    by cases (auto dest: tranclp_into_rtranclp)
qed (auto intro: rtranclp_into_tranclp1)

lemma recursive_iff_cycle:
  assumes "td < length h" "entered h = {}"
  shows "(\<exists>p e. self_hit h td p e) \<longleftrightarrow> (td, td) \<in> (ref_rel h)\<^sup>+"
proof -
  have "(\<exists>p e. self_hit h td p e) \<longleftrightarrow>
      (\<exists>y. (edge (\<lambda>_ _ _. True) h)\<^sup>*\<^sup>* td y \<and> edge (\<lambda>_ _ _. True) h y td)"
    using any_way.self_hit_iff [OF assms] by simp
  also have "\<dots> \<longleftrightarrow> (edge (\<lambda>_ _ _. True) h)\<^sup>+\<^sup>+ td td"
    by (simp only: tranclp_last)
  also have "\<dots> \<longleftrightarrow> (td, td) \<in> (ref_rel h)\<^sup>+"
    by (simp add: trancl_def edge_any)
  finally show ?thesis .
qed

text \<open>A mandatory reference: every value of the type holds a value of what it refers to.\<close>

abbreviation mandatory :: "TypeDefs \<Rightarrow> nat \<Rightarrow> nat \<Rightarrow> bool" where
  "mandatory \<equiv> edge (\<lambda>p _ _. \<not> p)"

lemma edge_mono:
  "edge K h a b \<Longrightarrow> (\<And>p q e. K p q e \<Longrightarrow> (p \<longrightarrow> q) \<Longrightarrow> (e \<longrightarrow> \<not> p) \<Longrightarrow> K' p q e) \<Longrightarrow> edge K' h a b"
  using leaf_flags(1) unfolding edge_def by blast

lemma warned_cycle:
  assumes "td < length h" "entered h = {}" "w \<in> warnings td (self_hit h td)"
  shows "(mandatory h)\<^sup>+\<^sup>+ td td"
proof -
  have path: "(mandatory h)\<^sup>+\<^sup>+ td td"
    if "(edge KR h)\<^sup>*\<^sup>* td y" "edge KF h y td"
      "\<And>p q e. KR p q e \<Longrightarrow> (p \<longrightarrow> q) \<Longrightarrow> (e \<longrightarrow> \<not> p) \<Longrightarrow> \<not> p"
      "\<And>p q e. KF p q e \<Longrightarrow> (p \<longrightarrow> q) \<Longrightarrow> (e \<longrightarrow> \<not> p) \<Longrightarrow> \<not> p" for KR KF y
  proof -
    have "edge KR h \<le> mandatory h"
      by (intro predicate2I) (erule edge_mono, erule (2) that(3))
    then have "(mandatory h)\<^sup>*\<^sup>* td y"
      using that(1) rtranclp_mono predicate2D by metis
    moreover have "mandatory h y td" using that(2) by (rule edge_mono) (erule (2) that(4))
    ultimately show ?thesis by (rule rtranclp_into_tranclp1)
  qed
  from assms(3) consider (e) p where "self_hit h td p True" | (o) "self_hit h td False False"
    by (auto simp: warnings_def)
  then show ?thesis
  proof cases
    case e
    with empty_way.self_hit_iff [OF assms(1,2)] obtain y
      where "(edge (\<lambda>_ _ e. e) h)\<^sup>*\<^sup>* td y" "edge (\<lambda>_ _ e. e) h y td" by blast
    then show ?thesis by (rule path) auto
  next
    case o
    with mandatory_way.self_hit_iff [OF assms(1,2)] obtain y
      where "(edge (\<lambda>_ q _. \<not> q) h)\<^sup>*\<^sup>* td y" "mandatory h y td" by blast
    then show ?thesis by (rule path) auto
  qed
qed

lemma cycle_warned:
  assumes "td < length h" "entered h = {}" "(edge (\<lambda>_ q _. \<not> q) h)\<^sup>+\<^sup>+ td td"
  shows "warnings td (self_hit h td) \<noteq> {}"
proof -
  from assms(3) obtain y where "(edge (\<lambda>_ q _. \<not> q) h)\<^sup>*\<^sup>* td y" "edge (\<lambda>_ q _. \<not> q) h y td"
    by (auto simp: tranclp_last)
  moreover from this(2) have "mandatory h y td" by (rule edge_mono) auto
  ultimately have "\<exists>fp fe. \<not> fp \<and> self_hit h td fp fe"
    using mandatory_way.self_hit_iff [OF assms(1,2)] by blast
  then show ?thesis by (auto simp: warnings_def) metis
qed

subsection \<open>Types with values\<close>

text \<open>A type has a finite value.  Lists can be empty; the contents of a string need not be
  looked into; a \<open>CHOICE\<close> takes one alternative; the elements that are not \<open>OPTIONAL\<close> and
  have no default are all there.\<close>

inductive has_value :: "TypeDefs \<Rightarrow> Type \<Rightarrow> bool" for h where
  basic: "(\<And>es. bt \<noteq> BASICTYPE_CHOICE es) \<Longrightarrow> (\<And>es. bt \<noteq> BASICTYPE_SET es) \<Longrightarrow>
    (\<And>es. bt \<noteq> BASICTYPE_SEQUENCE es) \<Longrightarrow> (\<And>r. bt \<noteq> BASICTYPE_LOCALTYPEREF r) \<Longrightarrow>
    (\<And>r. bt \<noteq> BASICTYPE_IMPORTTYPEREF r) \<Longrightarrow> has_value h (Type opt impl tgs dflt ci cxi bt)"
| alternative: "NamedType a nm t \<in> set es \<Longrightarrow> has_value h t \<Longrightarrow>
    has_value h (Type opt impl tgs dflt ci cxi (BASICTYPE_CHOICE es))"
| elements: "bt \<in> {BASICTYPE_SET es, BASICTYPE_SEQUENCE es} \<Longrightarrow>
    (\<And>a nm t. NamedType a nm t \<in> set es \<Longrightarrow> \<not> optional t \<Longrightarrow> \<not> defaultVal t \<Longrightarrow> has_value h t) \<Longrightarrow>
    has_value h (Type opt impl tgs dflt ci cxi bt)"
| reference: "bt \<in> {BASICTYPE_LOCALTYPEREF r, BASICTYPE_IMPORTTYPEREF r} \<Longrightarrow>
    ref_link h r = Some d \<Longrightarrow> has_value h (tdtype h d) \<Longrightarrow>
    has_value h (Type opt impl tgs dflt ci cxi bt)"

text \<open>The mandatory references of a type lead outside every set of definitions that each have
  one into the set.\<close>

lemma choice_leaves_one: "choice_leaves [NamedType a nm t] p b = rec_leaves t p b"
  by simp

definition mandatory_ref :: "Type \<Rightarrow> TypeRef \<Rightarrow> bool" where
  "mandatory_ref t r \<longleftrightarrow> (\<exists>q e. (r, False, q, e) \<in> set (rec_leaves t False True))"

lemma mandatory_refI: "(r, False, q, e) \<in> set (rec_leaves t a b) \<Longrightarrow> \<not> a \<and> mandatory_ref t r"
  unfolding mandatory_ref_def
  by (subst (asm) rec_leaves_flags) (unfold weaken_def, clarsimp, blast)

lemma set_leaves_mandatory:
  "(r, False, q, e) \<in> set (set_leaves es a) \<Longrightarrow>
   \<exists>x nm t. NamedType x nm t \<in> set es \<and> \<not> optional t \<and> \<not> defaultVal t \<and> mandatory_ref t r"
proof (induction es)
  case (Cons el es)
  obtain x nm t where el: "el = NamedType x nm t" by (cases el)
  with Cons show ?case by (auto dest: mandatory_refI)
qed simp

lemma mandatory_edge:
  "mandatory h a b \<longleftrightarrow> a < length h \<and> (\<exists>r. mandatory_ref (tdtype h a) r \<and> ref_link h r = Some b)"
  unfolding edge_def mandatory_ref_def by (metis (full_types))

lemma choice_leaves_mandatory:
  "(r, False, q, e) \<in> set (choice_leaves es True False) \<Longrightarrow> False"
proof (induction es)
  case (Cons el es)
  then show ?case by (cases el) (auto simp: rec_leaves_flags [of _ True False] weaken_def)
qed simp

lemma has_value_mandatory:
  assumes B: "\<And>a. a \<in> B \<Longrightarrow> \<exists>b\<in>B. mandatory h a b"
  shows "has_value h t \<Longrightarrow> mandatory_ref t r \<Longrightarrow> ref_link h r = Some b \<Longrightarrow> b \<notin> B"
proof (induction arbitrary: r b rule: has_value.induct)
  case (basic bt opt impl tgs dflt ci cxi)
  then show ?case
    by (cases bt) (auto simp: mandatory_ref_def dest: mandatory_refI)
next
  case (alternative a nm t es opt impl tgs dflt ci cxi)
  show ?case
  proof (cases "length es > 1")
    case True
    with alternative.prems(1) show ?thesis by (auto simp: mandatory_ref_def dest: choice_leaves_mandatory)
  next
    case False
    with alternative.hyps(1) have "es = [NamedType a nm t]" by (cases es) auto
    with alternative.prems alternative.IH show ?thesis by (auto simp: mandatory_ref_def)
  qed
next
  case (elements bt es opt impl tgs dflt ci cxi)
  then obtain q e where "(r, False, q, e) \<in> set (set_leaves es False)" by (auto simp: mandatory_ref_def)
  from set_leaves_mandatory [OF this] obtain x nm t
    where t: "NamedType x nm t \<in> set es" "\<not> optional t" "\<not> defaultVal t" "mandatory_ref t r" by auto
  show ?case by (rule elements.IH [OF t elements.prems(2)])
next
  case (reference bt r' d opt impl tgs dflt ci cxi)
  then have "r = r'" by (auto simp: mandatory_ref_def)
  with reference have "b = d" by (auto simp del: ref_link_Some)
  show ?case
  proof
    assume "b \<in> B"
    with B obtain c where c: "c \<in> B" "mandatory h b c" by blast
    with reference.IH \<open>b = d\<close> show False unfolding mandatory_edge by blast
  qed
qed

lemma mandatory_cycle_no_value:
  assumes "(mandatory h)\<^sup>+\<^sup>+ td td"
  shows "\<not> has_value h (tdtype h td)"
proof
  assume v: "has_value h (tdtype h td)"
  let ?B = "{a. (mandatory h)\<^sup>*\<^sup>* a td \<and> (mandatory h)\<^sup>*\<^sup>* td a}"
  have B: "\<exists>b\<in>?B. mandatory h a b" if "a \<in> ?B" for a
  proof -
    from that assms have "(mandatory h)\<^sup>+\<^sup>+ a td" by auto
    then obtain b where "mandatory h a b" "(mandatory h)\<^sup>*\<^sup>* b td" by (blast dest: tranclpD)
    moreover from this(1) that have "(mandatory h)\<^sup>*\<^sup>* td b" by auto
    ultimately show ?thesis by blast
  qed
  have "td \<in> ?B" by simp
  from B [OF this] obtain b where b: "b \<in> ?B" "mandatory h td b" by blast
  from has_value_mandatory [OF B v] b show False unfolding mandatory_edge by blast
qed

text \<open>The converse, for modules without real CHOICEs.  \<open>one_way\<close> types hold only CHOICEs of
  one alternative, and only elements of SETs and SEQUENCEs are \<open>OPTIONAL\<close> or have defaults.\<close>

inductive one_way :: "Type \<Rightarrow> bool" where
  listof: "bt \<in> {BASICTYPE_SETOF t, BASICTYPE_SEQUENCEOF t} \<Longrightarrow> one_way (Type opt impl tgs dflt ci cxi bt)"
| choice: "one_way t \<Longrightarrow> \<not> optional t \<Longrightarrow> \<not> defaultVal t \<Longrightarrow>
    one_way (Type opt impl tgs dflt ci cxi (BASICTYPE_CHOICE [NamedType a nm t]))"
| elements: "bt \<in> {BASICTYPE_SET es, BASICTYPE_SEQUENCE es} \<Longrightarrow>
    (\<And>a nm t. NamedType a nm t \<in> set es \<Longrightarrow> one_way t) \<Longrightarrow> one_way (Type opt impl tgs dflt ci cxi bt)"
| basic: "(\<And>es. bt \<noteq> BASICTYPE_CHOICE es) \<Longrightarrow> (\<And>es. bt \<noteq> BASICTYPE_SET es) \<Longrightarrow>
    (\<And>es. bt \<noteq> BASICTYPE_SEQUENCE es) \<Longrightarrow> one_way (Type opt impl tgs dflt ci cxi bt)"

lemma one_way_set_leaf:
  "NamedType x nm t \<in> set es \<Longrightarrow> \<not> optional t \<Longrightarrow> \<not> defaultVal t \<Longrightarrow>
   (r, p, q, e) \<in> set (rec_leaves t False True) \<Longrightarrow> \<not> q \<Longrightarrow>
   (r, False, False, False) \<in> set (set_leaves es False)"
proof (induction es)
  case (Cons el es)
  have "p = False" using leaf_flags(1) [OF Cons.prems(4)] Cons.prems(5) by simp
  moreover have "(r, p, q, False) \<in> set (rec_leaves t False False)"
    using Cons.prems(4) by (subst rec_leaves_flags) (force simp: weaken_def)
  ultimately show ?case using Cons by (cases el) (auto simp: Cons.prems)
qed simp

lemma no_value_leaf:
  "one_way t \<Longrightarrow> \<not> optional t \<Longrightarrow> \<not> defaultVal t \<Longrightarrow> \<not> has_value h t \<Longrightarrow>
   (\<And>r. refers t r \<Longrightarrow> ref_link h r \<noteq> None) \<Longrightarrow>
   \<exists>r p q e b. (r, p, q, e) \<in> set (rec_leaves t False True) \<and> \<not> q \<and> ref_link h r = Some b \<and>
     \<not> has_value h (tdtype h b)"
proof (induction rule: one_way.induct)
  case (listof bt t opt impl tgs dflt ci cxi)
  then show ?case by (auto intro: has_value.basic)
next
  case (choice t opt impl tgs dflt ci cxi a nm)
  have "\<not> has_value h t" using choice.prems(3) by (auto intro: has_value.alternative)
  moreover have "refers t r \<Longrightarrow> ref_link h r \<noteq> None" for r
    using choice.prems(4) refers.elmt [of "BASICTYPE_CHOICE [NamedType a nm t]" "[NamedType a nm t]"] by auto
  ultimately show ?case using choice.IH choice.hyps by simp
next
  case (elements bt es opt impl tgs dflt ci cxi)
  then obtain a nm t where t: "NamedType a nm t \<in> set es" "\<not> optional t" "\<not> defaultVal t" "\<not> has_value h t"
    by (meson has_value.elements)
  have "refers t r \<Longrightarrow> ref_link h r \<noteq> None" for r
    using elements.prems(4) refers.elmt [OF _ t(1)] elements.hyps(1) by auto
  with elements.IH [OF t(1)] t obtain r p q e b where l: "(r, p, q, e) \<in> set (rec_leaves t False True)"
    "\<not> q" "ref_link h r = Some b" "\<not> has_value h (tdtype h b)" by auto
  from one_way_set_leaf [OF t(1,2,3) l(1,2)] elements.hyps(1)
  have "(r, False, False, False) \<in> set (rec_leaves (Type opt impl tgs dflt ci cxi bt) False True)" by auto
  with l(3,4) show ?case by blast
next
  case (basic bt opt impl tgs dflt ci cxi)
  show ?case
  proof (cases "\<exists>r. bt \<in> {BASICTYPE_LOCALTYPEREF r, BASICTYPE_IMPORTTYPEREF r}")
    case True
    then obtain r where r: "bt \<in> {BASICTYPE_LOCALTYPEREF r, BASICTYPE_IMPORTTYPEREF r}" by blast
    then have "ref_link h r \<noteq> None" using basic.prems(4) refers.here by blast
    then obtain b where b: "ref_link h r = Some b" by auto
    have "\<not> has_value h (tdtype h b)" using basic.prems(3) has_value.reference [OF r b] by blast
    moreover have "(r, False, False, True) \<in> set (rec_leaves (Type opt impl tgs dflt ci cxi bt) False True)"
      using r basic.prems(1,2) by auto
    ultimately show ?thesis using b by blast
  next
    case False
    have "has_value h (Type opt impl tgs dflt ci cxi bt)"
      by (rule has_value.basic) (use False basic.hyps in auto)
    with basic.prems(3) show ?thesis by blast
  qed
qed

text \<open>A finite set whose members all have a successor in it has a cycle.\<close>

lemma finite_cycle:
  assumes "finite A" "x \<in> A" and s: "\<And>a. a \<in> A \<Longrightarrow> \<exists>b\<in>A. R a b"
  shows "\<exists>b\<in>A. R\<^sup>*\<^sup>* x b \<and> R\<^sup>+\<^sup>+ b b"
proof (rule ccontr)
  assume n: "\<not> ?thesis"
  let ?B = "{b \<in> A. R\<^sup>*\<^sup>* x b}"
  let ?S = "{(b, a). a \<in> ?B \<and> b \<in> ?B \<and> R a b}"
  have sub: "?S \<subseteq> {(b, a). R a b}" by auto
  have "acyclic ?S"
  proof (rule acyclicI, intro allI notI)
    fix a assume a: "(a, a) \<in> ?S\<^sup>+"
    have "(u, v) \<in> ?S\<^sup>+ \<Longrightarrow> R\<^sup>+\<^sup>+ v u" for u v
      by (induction rule: trancl_induct) (auto intro: tranclp.r_into_trancl tranclp_into_tranclp2)
    from this [OF a] have "R\<^sup>+\<^sup>+ a a" .
    moreover have "a \<in> ?B" using tranclD [OF a] by auto
    ultimately show False using n by blast
  qed
  moreover have "finite ?S"
    by (rule finite_subset [of _ "A \<times> A"]) (use assms(1) in auto)
  ultimately have "wf ?S" by (rule finite_acyclic_wf [rotated])
  moreover have "x \<in> ?B" using assms(2) by simp
  ultimately obtain z where z: "z \<in> ?B" "\<And>y. (y, z) \<in> ?S \<Longrightarrow> y \<notin> ?B"
    by (rule wfE_min) blast
  from s z(1) obtain b where "b \<in> A" "R z b" by blast
  with z show False by (auto intro: rtranclp.rtrancl_into_rtrancl)
qed

definition one_way_module :: "TypeDefs \<Rightarrow> bool" where
  "one_way_module h \<longleftrightarrow>
     (\<forall>d<length h. one_way (tdtype h d) \<and> \<not> optional (tdtype h d) \<and> \<not> defaultVal (tdtype h d))"

lemma no_value_warned:
  assumes m: "one_way_module h" "refs_linked h" and e: "entered h = {}"
    and td: "td < length h" "\<not> has_value h (tdtype h td)"
  shows "\<exists>b<length h. (td, b) \<in> (ref_rel h)\<^sup>* \<and> warnings b (self_hit h b) \<noteq> {}"
proof -
  let ?A = "{d. d < length h \<and> \<not> has_value h (tdtype h d)}"
  let ?R = "edge (\<lambda>_ q _. \<not> q) h"
  have "\<exists>b\<in>?A. ?R a b" if "a \<in> ?A" for a
  proof -
    have "refers (tdtype h a) r \<Longrightarrow> ref_link h r \<noteq> None" for r
      using m(2) that unfolding refs_linked_def by blast
    with no_value_leaf [of "tdtype h a" h] m(1) that
    obtain r p q e b where l: "(r, p, q, e) \<in> set (rec_leaves (tdtype h a) False True)" "\<not> q"
        "ref_link h r = Some b" "\<not> has_value h (tdtype h b)"
      unfolding one_way_module_def by blast
    then have "?R a b" using that unfolding edge_def by blast
    with l(3,4) show ?thesis by auto
  qed
  from finite_cycle [where R = ?R, OF _ _ this, of td] td obtain b
    where b: "b < length h" "?R\<^sup>*\<^sup>* td b" "?R\<^sup>+\<^sup>+ b b" by auto
  have "?R\<^sup>*\<^sup>* \<le> (edge (\<lambda>_ _ _. True) h)\<^sup>*\<^sup>*"
    by (intro rtranclp_mono predicate2I) (erule edge_mono, simp)
  with b(2) have "(td, b) \<in> (ref_rel h)\<^sup>*"
    unfolding edge_any rtrancl_def by auto
  then show ?thesis using b(1) cycle_warned [OF b(1) e b(3)] by blast
qed

subsection \<open>The pass over a module\<close>

lemma clear_visits_Cons:
  "clear_visits (x # tds) h = clear_visits tds (h[x := (h ! x)\<lparr>visited := False, tmpRefCount := 0\<rparr>])"
  by (simp add: clear_visits_def)

lemma length_clear_visits: "length (clear_visits tds h) = length h"
  by (induction tds arbitrary: h) (simp_all add: clear_visits_def)

lemma upd_other [simp]:
  "tdType (h[x := (h ! x)\<lparr>visited := v, tmpRefCount := c\<rparr>] ! d) = tdType (h ! d)"
  "recursive (h[x := (h ! x)\<lparr>visited := v, tmpRefCount := c\<rparr>] ! d) = recursive (h ! d)"
  by (cases "x < length h"; simp add: nth_list_update list_update_beyond)+

lemma tdtype_clear_visits: "tdtype (clear_visits tds h) d = tdtype h d"
  by (induction tds arbitrary: h) (simp_all add: clear_visits_def)

lemma recursive_clear_visits: "recursive (clear_visits tds h ! d) = recursive (h ! d)"
  by (induction tds arbitrary: h) (simp_all add: clear_visits_def)

lemma tmp_clear_visits:
  "set tds \<subseteq> {..<length h} \<Longrightarrow>
     tmpRefCount (clear_visits tds h ! d) = (if d \<in> set tds then 0 else tmpRefCount (h ! d))"
proof (induction tds arbitrary: h)
  case (Cons x tds)
  then show ?case
    using Cons.IH [of "h[x := (h ! x)\<lparr>visited := False, tmpRefCount := 0\<rparr>]"]
    by (auto simp: clear_visits_Cons nth_list_update)
qed (simp add: clear_visits_def)

lemmas clear_visits_simps =
  length_clear_visits tdtype_clear_visits recursive_clear_visits tmp_clear_visits

text \<open>No definition outside the module is entered when the pass starts; the walks leave it so.\<close>

definition marks_clear :: "nat list \<Rightarrow> TypeDefs \<Rightarrow> bool" where
  "marks_clear tds h \<longleftrightarrow>
     set tds \<subseteq> {..<length h} \<and> (\<forall>d<length h. d \<notin> set tds \<longrightarrow> tmpRefCount (h ! d) = 0)"

lemma mark_other:
  "tdType (mark x b h ! d) = tdType (h ! d)"
  "x < length h \<Longrightarrow> recursive (mark x b h ! d) \<longleftrightarrow> recursive (h ! d) \<or> d = x \<and> b"
  by (cases "x < length h"; auto simp: mark_def nth_list_update list_update_beyond)+

lemma length_foldl_mark: "length (foldl (\<lambda>h td. mark td (P td) h) h tds) = length h"
  by (induction tds arbitrary: h) simp_all

lemma tdtype_foldl_mark: "tdtype (foldl (\<lambda>h td. mark td (P td) h) h tds) d = tdtype h d"
  by (induction tds arbitrary: h) (simp_all add: mark_other)

lemma recursive_foldl_mark:
  "set tds \<subseteq> {..<length h} \<Longrightarrow>
     recursive (foldl (\<lambda>h td. mark td (P td) h) h tds ! d) \<longleftrightarrow> recursive (h ! d) \<or> d \<in> set tds \<and> P d"
  by (induction tds arbitrary: h) (auto simp: mark_other)

lemmas foldl_mark = length_foldl_mark tdtype_foldl_mark recursive_foldl_mark

lemma MarkRecursiveTypes_spec:
  assumes "marks_clear tds h" "refs_linked h"
  obtains h' ws where "MarkRecursiveTypes tds h = Some (h', ws)"
    "length h' = length h" "\<And>d. tdtype h' d = tdtype h d"
    "\<And>d. recursive (h' ! d) \<longleftrightarrow> recursive (h ! d) \<or> d \<in> set tds \<and> (d, d) \<in> (ref_rel h)\<^sup>+"
    "set ws = (\<Union>td\<in>set tds. warnings td (self_hit (clear_visits tds h) td))"
    "entered (clear_visits tds h) = {}" "same_types h (clear_visits tds h)"
proof -
  let ?h = "clear_visits tds h"
  have st: "same_types h ?h" by (simp add: same_types_def clear_visits_simps)
  have e: "entered ?h = {}"
    using assms(1) by (auto simp: entered_def marks_clear_def clear_visits_simps)
  have s: "set tds \<subseteq> {..<length ?h}" using assms(1) by (simp add: marks_clear_def clear_visits_simps)
  have r: "ref_rel ?h = ref_rel h"
    unfolding ref_rel_def same_ref_link [OF st] by (simp add: clear_visits_simps)
  from MkRecTypeDefs_spec [OF s, of "[]"] assms(2) refs_linked_same [OF st] obtain ws
    where ws: "MkRecTypeDefs tds (?h, []) =
        Some (foldl (\<lambda>h' td. mark td (\<exists>p e. self_hit ?h td p e) h') ?h tds, ws)"
      "set ws = (\<Union>td\<in>set tds. warnings td (self_hit ?h td))" by auto
  have "recursive (foldl (\<lambda>h' td. mark td (\<exists>p e. self_hit ?h td p e) h') ?h tds ! d) \<longleftrightarrow>
      recursive (h ! d) \<or> d \<in> set tds \<and> (d, d) \<in> (ref_rel h)\<^sup>+" for d
    unfolding foldl_mark(3) [OF s] using recursive_iff_cycle [OF _ e, of d] s
    by (cases "d \<in> set tds") (simp_all add: clear_visits_simps r subset_iff)
  with ws e st show thesis
    by (intro that [where ws = ws and
          h' = "foldl (\<lambda>h' td. mark td (\<exists>p e. self_hit ?h td p e) h') ?h tds"])
      (simp_all add: MarkRecursiveTypes_def length_foldl_mark tdtype_foldl_mark clear_visits_simps)
qed

end
