(* ===== verification/Comp_Order.thy ===== *)
theory Comp_Order
  imports Comp_Util Comp_Recursive "HOL-Library.Multiset"
begin

section \<open>Sorting the types of a module (\<open>compiler/core/dependency.c\<close>)\<close>

text \<open>
  Generated code needs a type declared before the types that hold it.  \<open>SortTypeDependencies\<close>
  reorders the definitions of a module: those that library types define, those that refer to no
  type of the module, the rest as far as it can be sorted, and those no type refers to.
  \<open>RemoveAndSortIndependents\<close> is the sorting step; what it cannot sort depends on a circle.
  A list of definitions is a list of indexes of the heap and holds each definition once, so
  the loops of the code, which run up to the node that was last at first, run through the list.
\<close>

subsection \<open>References to types of the module\<close>

text \<open>The references of a type, in the order of the text; \<open>NULL\<close> links are kept, as the code
  keeps them.\<close>

function (sequential) BuildLocalRefList :: "Type \<Rightarrow> nat option list \<Rightarrow> nat option list"
  and BuildLocalRefElmts :: "NamedType list \<Rightarrow> nat option list \<Rightarrow> nat option list" where
  "BuildLocalRefList (Type opt impl tgs dflt ci cxi bt) rl =
     (case bt of
        BASICTYPE_CHOICE es \<Rightarrow> BuildLocalRefElmts es rl
      | BASICTYPE_SET es \<Rightarrow> BuildLocalRefElmts es rl
      | BASICTYPE_SEQUENCE es \<Rightarrow> BuildLocalRefElmts es rl
      | BASICTYPE_OBJECTCLASS es \<Rightarrow> BuildLocalRefElmts es rl
      | BASICTYPE_SETOF t \<Rightarrow> BuildLocalRefList t rl
      | BASICTYPE_SEQUENCEOF t \<Rightarrow> BuildLocalRefList t rl
      | BASICTYPE_LOCALTYPEREF r \<Rightarrow> rl @ [link r]
      | _ \<Rightarrow> rl)"
| "BuildLocalRefElmts [] rl = rl"
| "BuildLocalRefElmts (NamedType a nm t # es) rl = BuildLocalRefElmts es (BuildLocalRefList t rl)"
  by pat_completeness auto
termination
  by (relation "measure (\<lambda>x. case x of Inl (t, _) \<Rightarrow> size t | Inr (es, _) \<Rightarrow> size_list size es)") auto

text \<open>The references that need the other type declared: those by value.  \<open>isPtr\<close> of either
  back end says which are not.\<close>

function (sequential) BuildWeightedLocalRefList :: "Type \<Rightarrow> nat option list \<Rightarrow> nat option list"
  and BuildWeightedElmts :: "NamedType list \<Rightarrow> nat option list \<Rightarrow> nat option list" where
  "BuildWeightedLocalRefList (Type opt impl tgs dflt ci cxi bt) rl =
     (case bt of
        BASICTYPE_CHOICE es \<Rightarrow> BuildWeightedElmts es rl
      | BASICTYPE_SET es \<Rightarrow> BuildWeightedElmts es rl
      | BASICTYPE_SEQUENCE es \<Rightarrow> BuildWeightedElmts es rl
      | BASICTYPE_SETOF t \<Rightarrow> if ci = None then BuildWeightedLocalRefList t rl else rl
      | BASICTYPE_SEQUENCEOF t \<Rightarrow> if ci = None then BuildWeightedLocalRefList t rl else rl
      | BASICTYPE_LOCALTYPEREF r \<Rightarrow>
          if cxi = Some False \<or> ci = Some False then rl @ [link r] else rl
      | _ \<Rightarrow> rl)"
| "BuildWeightedElmts [] rl = rl"
| "BuildWeightedElmts (NamedType a nm t # es) rl = BuildWeightedElmts es (BuildWeightedLocalRefList t rl)"
  by pat_completeness auto
termination
  by (relation "measure (\<lambda>x. case x of Inl (t, _) \<Rightarrow> size t | Inr (es, _) \<Rightarrow> size_list size es)") auto

text \<open>\<open>FOR_EACH_LIST_ELMT\<close> over a list of pointers stops at \<open>NULL\<close>.\<close>

fun list_elmts :: "'a option list \<Rightarrow> 'a list" where
  "list_elmts (Some x # xs) = x # list_elmts xs"
| "list_elmts _ = []"

fun index_from :: "int \<Rightarrow> nat \<Rightarrow> nat list \<Rightarrow> int" where
  "index_from i td [] = -1"
| "index_from i td (x # xs) = (if x = td then i else index_from (i + 1) td xs)"

definition GetElmtIndex :: "nat \<Rightarrow> nat list \<Rightarrow> int" where
  "GetElmtIndex td tdl = index_from 0 td tdl"

subsection \<open>The sorting step\<close>

text \<open>Whether \<open>currTd\<close> depends on another definition of the list.\<close>

definition must_keep :: "TypeDefs \<Rightarrow> nat list \<Rightarrow> nat \<Rightarrow> bool" where
  "must_keep h tdl currTd \<longleftrightarrow>
     list_ex (\<lambda>tdRef. tdRef \<noteq> currTd \<and> 0 \<le> GetElmtIndex tdRef tdl) (list_elmts (refList (h ! currTd)))"

text \<open>One pass: \<open>kept\<close> is the part of the list already gone through, without what was removed.\<close>

fun independents_pass :: "TypeDefs \<Rightarrow> nat list \<Rightarrow> nat list \<Rightarrow> nat list \<Rightarrow> nat list \<times> nat list" where
  "independents_pass h kept [] subList = (kept, subList)"
| "independents_pass h kept (currTd # rest) subList =
     (if must_keep h (kept @ currTd # rest) currTd
      then independents_pass h (kept @ [currTd]) rest subList
      else independents_pass h kept rest (subList @ [currTd]))"

lemma independents_pass_length:
  "independents_pass h kept rest subl = (tdl', subl') \<Longrightarrow>
   length tdl' + length subl' = length kept + length rest + length subl \<and> length subl \<le> length subl'"
  by (induction h kept rest subl rule: independents_pass.induct) (auto split: if_splits)

function independents_loop :: "TypeDefs \<Rightarrow> int \<Rightarrow> nat list \<Rightarrow> nat list \<Rightarrow> nat list \<times> nat list" where
  "independents_loop h lastSLCount tdl subList =
     (if int (length subList) > lastSLCount \<and> tdl \<noteq> []
      then (let (tdl', subList') = independents_pass h [] tdl subList
            in independents_loop h (int (length subList)) tdl' subList')
      else (tdl, subList))"
  by pat_completeness auto
termination
  by (relation "measure (\<lambda>(h, c, tdl, subl). 2 * length tdl + (if int (length subl) > c then 1 else 0))")
     (auto split: prod.split dest: independents_pass_length)

declare independents_loop.simps [simp del]

text \<open>The result is the sorted list and what is left of the list that was passed in.\<close>

definition RemoveAndSortIndependents :: "TypeDefs \<Rightarrow> nat list \<Rightarrow> nat list \<times> nat list" where
  "RemoveAndSortIndependents h tdl =
     (if tdl = [] then ([], tdl)
      else (let (tdl', subList) = independents_loop h (-1) tdl [] in (subList, tdl')))"

subsection \<open>Sorting definitions that depend on each other\<close>

definition is_list_type :: "BasicType \<Rightarrow> bool" where
  "is_list_type bt \<longleftrightarrow> choiceId bt = 12 \<or> choiceId bt = 10"

definition set_refList :: "(nat \<Rightarrow> nat option list) \<Rightarrow> TypeDefs \<Rightarrow> nat list \<Rightarrow> TypeDefs" where
  "set_refList f h ds = foldl (\<lambda>h d. h[d := (h ! d)\<lparr>refList := f d\<rparr>]) h ds"

text \<open>\<open>None\<close> is the last element of an empty list, which the code reads through \<open>NULL\<close>.  The
  flag says whether the message about an internal compiler error is printed.\<close>

definition SortTypeDefs :: "TypeDefs \<Rightarrow> nat list \<Rightarrow> (TypeDefs \<times> nat list \<times> bool) option" where
  "SortTypeDefs h tdl =
     (if tdl = [] then Some (h, tdl, False)
      else
        let (subList, tdl1) = RemoveAndSortIndependents h tdl
        in if tdl1 = [] then Some (h, subList, False)
           else
             let nonRec = filter (\<lambda>d. \<not> recursive (h ! d)) tdl1;
                 tdl2 = filter (\<lambda>d. recursive (h ! d)) tdl1;
                 (sortedNonRec, nonRec') = RemoveAndSortIndependents h nonRec;
                 sortedNonRec' = sortedNonRec @ nonRec'
             in if tdl2 = [] then None
                else
                  let h1 = set_refList (\<lambda>_. []) h tdl2;
                      is_clist = (\<lambda>d. cTypeDefInfo (h ! d) \<and> is_list_type (basicType (tdtype h d)));
                      cLists = filter is_clist tdl2;
                      tdl3 = filter (\<lambda>d. \<not> is_clist d) tdl2;
                      h2 = set_refList (\<lambda>d. BuildWeightedLocalRefList (tdtype h1 d) []) h1 tdl3;
                      (sortedRec, tdl4) = RemoveAndSortIndependents h2 tdl3
                  in Some (h2, subList @ cLists @ sortedRec @ tdl4 @ sortedNonRec', nonRec' \<noteq> []))"

text \<open>The four groups.\<close>

record Groups =
  prims :: "nat list"
  noRefs :: "nat list"
  refs :: "nat list"
  notRefd :: "nat list"

fun group_types :: "nat list \<Rightarrow> TypeDefs \<times> Groups \<Rightarrow> TypeDefs \<times> Groups" where
  "group_types [] s = s"
| "group_types (currTd # tds) (h, g) =
     group_types tds
       (if IsDefinedByLibraryType (tdtype h currTd) then (h, g\<lparr>prims := prims g @ [currTd]\<rparr>)
        else if localRefCount (h ! currTd) = 0 then (h, g\<lparr>notRefd := notRefd g @ [currTd]\<rparr>)
        else let rl = BuildLocalRefList (tdtype h currTd) []
             in if rl = [] then (h[currTd := (h ! currTd)\<lparr>refList := []\<rparr>], g\<lparr>noRefs := noRefs g @ [currTd]\<rparr>)
                else (h[currTd := (h ! currTd)\<lparr>refList := rl\<rparr>], g\<lparr>refs := refs g @ [currTd]\<rparr>))"

definition SortTypeDependencies :: "TypeDefs \<Rightarrow> nat list \<Rightarrow> (TypeDefs \<times> nat list \<times> bool) option" where
  "SortTypeDependencies h typeDefs =
     (let (h1, g) = group_types typeDefs (h, \<lparr>prims = [], noRefs = [], refs = [], notRefd = []\<rparr>)
      in case SortTypeDefs h1 (refs g) of
           None \<Rightarrow> None
         | Some (h2, refs', err) \<Rightarrow>
             Some (set_refList (\<lambda>_. []) h2 refs', prims g @ noRefs g @ refs' @ notRefd g, err))"

subsection \<open>What the sorting step does\<close>

lemma index_from_bounds:
  "0 \<le> i \<Longrightarrow> (td \<in> set xs \<longrightarrow> i \<le> index_from i td xs) \<and> (td \<notin> set xs \<longrightarrow> index_from i td xs = -1)"
proof (induction xs arbitrary: i)
  case (Cons x xs)
  from Cons.IH [of "i + 1"] Cons.prems show ?case by auto
qed simp

lemma GetElmtIndex_iff: "0 \<le> GetElmtIndex td tdl \<longleftrightarrow> td \<in> set tdl"
  using index_from_bounds [of 0 td tdl] by (auto simp: GetElmtIndex_def)

text \<open>What a definition depends on, but for itself.\<close>

definition deps :: "TypeDefs \<Rightarrow> nat \<Rightarrow> nat set" where
  "deps h d = set (list_elmts (refList (h ! d))) - {d}"

lemma must_keep_iff: "must_keep h tdl c \<longleftrightarrow> deps h c \<inter> set tdl \<noteq> {}"
  by (auto simp: must_keep_def deps_def list_ex_iff GetElmtIndex_iff)

text \<open>Every element of the list comes after what it depends on within \<open>S\<close>.\<close>

definition dep_sorted :: "(nat \<Rightarrow> nat set) \<Rightarrow> nat set \<Rightarrow> nat list \<Rightarrow> bool" where
  "dep_sorted D S xs \<longleftrightarrow> (\<forall>ys c zs. xs = ys @ c # zs \<longrightarrow> D c \<inter> S \<subseteq> set ys)"

lemma dep_sorted_Nil [simp]: "dep_sorted D S []"
  by (simp add: dep_sorted_def)

lemma dep_sorted_append:
  "dep_sorted D S (xs @ ys) \<longleftrightarrow>
     dep_sorted D S xs \<and> (\<forall>us c vs. ys = us @ c # vs \<longrightarrow> D c \<inter> S \<subseteq> set xs \<union> set us)"
  (is "?l \<longleftrightarrow> ?r")
proof
  assume l: ?l
  have "D c \<inter> S \<subseteq> set us" if "xs = us @ c # vs" for us c vs
    using l that unfolding dep_sorted_def by (metis append.assoc append_Cons)
  moreover have "D c \<inter> S \<subseteq> set xs \<union> set us" if "ys = us @ c # vs" for us c vs
    using l [unfolded dep_sorted_def, rule_format, of "xs @ us" c vs] that by simp
  ultimately show ?r unfolding dep_sorted_def by blast
next
  assume r: ?r
  show ?l
    unfolding dep_sorted_def
  proof (intro allI impI)
    fix us c vs assume e: "xs @ ys = us @ c # vs"
    then consider ws where "xs = us @ c # ws" | ws where "us = xs @ ws" "ys = ws @ c # vs"
      by (auto simp: append_eq_append_conv2 append_eq_Cons_conv Cons_eq_append_conv)
    then show "D c \<inter> S \<subseteq> set us"
      using r unfolding dep_sorted_def by cases (blast, auto)
  qed
qed

lemma dep_sorted_snoc [simp]: "dep_sorted D S (xs @ [c]) \<longleftrightarrow> dep_sorted D S xs \<and> D c \<inter> S \<subseteq> set xs"
  unfolding dep_sorted_append by (force simp: Cons_eq_append_conv)

lemma dep_sorted_free: "(\<And>c. c \<in> set xs \<Longrightarrow> D c \<inter> S = {}) \<Longrightarrow> dep_sorted D S xs"
  unfolding dep_sorted_def by auto

lemma independents_pass_spec:
  "independents_pass h kept rest subl = (tdl', subl') \<Longrightarrow>
   dep_sorted (deps h) S subl \<Longrightarrow> S = set kept \<union> set rest \<union> set subl \<Longrightarrow>
   mset (tdl' @ subl') = mset (kept @ rest @ subl) \<and> dep_sorted (deps h) S subl' \<and>
   (length subl' = length subl \<longrightarrow>
      tdl' = kept @ rest \<and> subl' = subl \<and> (\<forall>c\<in>set rest. deps h c \<inter> set (kept @ rest) \<noteq> {})) \<and>
   (\<forall>X. X \<subseteq> set kept \<union> set rest \<longrightarrow> (\<forall>c\<in>X. deps h c \<inter> X \<noteq> {}) \<longrightarrow> X \<subseteq> set tdl')"
proof (induction h kept rest subl rule: independents_pass.induct)
  case (2 h kept c rest subl)
  show ?case
  proof (cases "must_keep h (kept @ c # rest) c")
    case True
    with 2 show ?thesis by (simp add: must_keep_iff)
  next
    case False
    have p: "independents_pass h kept rest (subl @ [c]) = (tdl', subl')" using False 2(3) by simp
    have "deps h c \<inter> S \<subseteq> set subl" using False 2(5) by (auto simp: must_keep_iff)
    then have s: "dep_sorted (deps h) S (subl @ [c])" using 2(4) by simp
    have X: "X \<subseteq> set kept \<union> set rest"
      if "X \<subseteq> set kept \<union> set (c # rest)" "\<forall>d\<in>X. deps h d \<inter> X \<noteq> {}" for X
      using that False by (auto simp: must_keep_iff)
    have l: "length subl' > length subl" using independents_pass_length [OF p] by simp
    have S: "S = set kept \<union> set rest \<union> set (subl @ [c])" using 2(5) by auto
    note I = 2(2) [OF False p s S]
    show ?thesis
    proof (intro conjI)
      show "mset (tdl' @ subl') = mset (kept @ (c # rest) @ subl)" using I by simp
      show "dep_sorted (deps h) S subl'" using I by (elim conjE)
      note m = I [THEN conjunct2, THEN conjunct2, THEN conjunct2, rule_format]
      show "\<forall>Y. Y \<subseteq> set kept \<union> set (c # rest) \<longrightarrow> (\<forall>d\<in>Y. deps h d \<inter> Y \<noteq> {}) \<longrightarrow> Y \<subseteq> set tdl'"
      proof (intro allI impI)
        fix Y assume Y: "Y \<subseteq> set kept \<union> set (c # rest)" "\<forall>d\<in>Y. deps h d \<inter> Y \<noteq> {}"
        show "Y \<subseteq> set tdl'" by (rule m [OF X [OF Y]]) (use Y(2) in blast)
      qed
    qed (use l in simp)
  qed
qed simp

lemma independents_loop_spec:
  "independents_loop h c tdl subl = (tdl', subl') \<Longrightarrow>
   dep_sorted (deps h) S subl \<Longrightarrow> S = set tdl \<union> set subl \<Longrightarrow>
   c < int (length subl) \<or> (\<forall>d\<in>set tdl. deps h d \<inter> set tdl \<noteq> {}) \<Longrightarrow>
   mset (tdl' @ subl') = mset (tdl @ subl) \<and> dep_sorted (deps h) S subl' \<and>
   (\<forall>d\<in>set tdl'. deps h d \<inter> set tdl' \<noteq> {}) \<and>
   (\<forall>X. X \<subseteq> set tdl \<longrightarrow> (\<forall>d\<in>X. deps h d \<inter> X \<noteq> {}) \<longrightarrow> X \<subseteq> set tdl')"
proof (induction h c tdl subl rule: independents_loop.induct)
  case (1 h c tdl subl)
  show ?case
  proof (cases "c < int (length subl) \<and> tdl \<noteq> []")
    case True
    obtain t s where ts: "independents_pass h [] tdl subl = (t, s)" by fastforce
    from 1(2) True ts have r: "independents_loop h (int (length subl)) t s = (tdl', subl')"
      by (subst (asm) independents_loop.simps) simp
    have "S = set [] \<union> set tdl \<union> set subl" using 1(4) by simp
    note P = independents_pass_spec [OF ts 1(3) this]
    from P have m: "mset (t @ s) = mset (tdl @ subl)" by simp
    have "set (t @ s) = set (tdl @ subl)" by (rule mset_eq_setD [OF m])
    then have S: "S = set t \<union> set s" using 1(4) by simp
    have "int (length subl) < int (length s) \<or> (\<forall>d\<in>set t. deps h d \<inter> set t \<noteq> {})"
      using P independents_pass_length [OF ts] by (cases "length s = length subl") auto
    note C = 1(1) [OF True ts [symmetric] refl r P [THEN conjunct2, THEN conjunct1] S this]
    have I: "mset (tdl' @ subl') = mset (t @ s)" "dep_sorted (deps h) S subl'"
      "\<forall>d\<in>set tdl'. deps h d \<inter> set tdl' \<noteq> {}"
      using C [THEN conjunct1] C [THEN conjunct2, THEN conjunct1]
        C [THEN conjunct2, THEN conjunct2, THEN conjunct1] .
    note I4 = C [THEN conjunct2, THEN conjunct2, THEN conjunct2, rule_format]
    have "X \<subseteq> set tdl'" if "X \<subseteq> set tdl" "\<forall>d\<in>X. deps h d \<inter> X \<noteq> {}" for X
    proof (rule I4)
      show "X \<subseteq> set t"
        by (rule P [THEN conjunct2, THEN conjunct2, THEN conjunct2, rule_format]) (use that in auto)
    qed (use that(2) in blast)
    with I m show ?thesis by simp
  next
    case False
    with 1(2) have e: "tdl' = tdl" "subl' = subl"
      by (subst (asm) independents_loop.simps, simp)+
    from False 1(5) have "\<forall>d\<in>set tdl. deps h d \<inter> set tdl \<noteq> {}" by auto
    with e 1(3) show ?thesis by simp
  qed
qed

text \<open>The result: the list split into a sorted part and the largest set whose members all
  depend on another member, in which nothing can come first.\<close>

lemma RemoveAndSortIndependents_spec:
  assumes "RemoveAndSortIndependents h tdl = (srt, stuck)"
  shows "mset (srt @ stuck) = mset tdl" "dep_sorted (deps h) (set tdl) srt"
    "\<And>d. d \<in> set stuck \<Longrightarrow> deps h d \<inter> set stuck \<noteq> {}"
    "\<And>X. X \<subseteq> set tdl \<Longrightarrow> (\<And>d. d \<in> X \<Longrightarrow> deps h d \<inter> X \<noteq> {}) \<Longrightarrow> X \<subseteq> set stuck"
proof -
  have "mset (srt @ stuck) = mset tdl \<and> dep_sorted (deps h) (set tdl) srt \<and>
    (\<forall>d\<in>set stuck. deps h d \<inter> set stuck \<noteq> {}) \<and>
    (\<forall>X. X \<subseteq> set tdl \<longrightarrow> (\<forall>d\<in>X. deps h d \<inter> X \<noteq> {}) \<longrightarrow> X \<subseteq> set stuck)"
  proof (cases "tdl = []")
    case True
    with assms show ?thesis by (simp add: RemoveAndSortIndependents_def)
  next
    case False
    with assms have "independents_loop h (-1) tdl [] = (stuck, srt)"
      by (auto simp: RemoveAndSortIndependents_def split: prod.splits)
    from independents_loop_spec [OF this, of "set tdl"] show ?thesis by (simp add: ac_simps)
  qed
  then show "mset (srt @ stuck) = mset tdl" "dep_sorted (deps h) (set tdl) srt"
    "\<And>d. d \<in> set stuck \<Longrightarrow> deps h d \<inter> set stuck \<noteq> {}"
    "\<And>X. X \<subseteq> set tdl \<Longrightarrow> (\<And>d. d \<in> X \<Longrightarrow> deps h d \<inter> X \<noteq> {}) \<Longrightarrow> X \<subseteq> set stuck"
    by blast+
qed

subsection \<open>What the sort of a module does\<close>

lemma upd_refList [simp]:
  "length (h[d := (h ! d)\<lparr>refList := rl\<rparr>]) = length h"
  "tdType (h[d := (h ! d)\<lparr>refList := rl\<rparr>] ! a) = tdType (h ! a)"
  "recursive (h[d := (h ! d)\<lparr>refList := rl\<rparr>] ! a) = recursive (h ! a)"
  "localRefCount (h[d := (h ! d)\<lparr>refList := rl\<rparr>] ! a) = localRefCount (h ! a)"
  "d < length h \<Longrightarrow> refList (h[d := (h ! d)\<lparr>refList := rl\<rparr>] ! a) = (if a = d then rl else refList (h ! a))"
  by (cases "d < length h"; simp add: nth_list_update list_update_beyond)+

lemma set_refList_simps [simp]:
  "length (set_refList f h ds) = length h"
  "tdType (set_refList f h ds ! a) = tdType (h ! a)"
  by (induction ds arbitrary: h) (simp_all add: set_refList_def)

text \<open>A set in which every member depends on another one goes through a circle.\<close>

definition dep_cycle :: "(nat \<Rightarrow> nat set) \<Rightarrow> nat set \<Rightarrow> nat \<Rightarrow> bool" where
  "dep_cycle D S d \<longleftrightarrow> (\<lambda>a b. a \<in> S \<and> b \<in> S \<and> b \<in> D a)\<^sup>+\<^sup>+ d d"

lemma stuck_cycle:
  assumes "A \<subseteq> S" "finite A" "a \<in> A" "\<And>d. d \<in> A \<Longrightarrow> D d \<inter> A \<noteq> {}"
  shows "\<exists>b\<in>A. dep_cycle D S b"
proof -
  have "\<exists>b\<in>A. d \<in> S \<and> b \<in> S \<and> b \<in> D d" if "d \<in> A" for d
    using assms(1) assms(4) [OF that] that by blast
  from finite_cycle [where R = "\<lambda>a b. a \<in> S \<and> b \<in> S \<and> b \<in> D a", OF assms(2,3) this]
  show ?thesis unfolding dep_cycle_def by blast
qed

lemma SortTypeDefs_spec:
  assumes marked: "\<And>d. d \<in> set tdl \<Longrightarrow> dep_cycle (deps h) (set tdl) d \<Longrightarrow> recursive (h ! d)"
  obtains h' tdl' where "SortTypeDefs h tdl = Some (h', tdl', False)" "mset tdl' = mset tdl"
    "length h' = length h" "\<And>d. tdtype h' d = tdtype h d"
proof (cases "tdl = []")
  case True
  with that show ?thesis by (simp add: SortTypeDefs_def)
next
  case False
  obtain subl tdl1 where r1: "RemoveAndSortIndependents h tdl = (subl, tdl1)" by fastforce
  note R1 = RemoveAndSortIndependents_spec [OF r1]
  have sub1: "set tdl1 \<subseteq> set tdl" using mset_eq_setD [OF R1(1)] by auto
  show ?thesis
  proof (cases "tdl1 = []")
    case True
    with False r1 R1(1) that show ?thesis by (simp add: SortTypeDefs_def)
  next
    case ne: False
    let ?nonRec = "filter (\<lambda>d. \<not> recursive (h ! d)) tdl1"
    let ?tdl2 = "filter (\<lambda>d. recursive (h ! d)) tdl1"
    obtain snr nr where r2: "RemoveAndSortIndependents h ?nonRec = (snr, nr)" by fastforce
    note R2 = RemoveAndSortIndependents_spec [OF r2]
    have nr: "nr = []"
    proof (rule ccontr)
      assume "nr \<noteq> []"
      then obtain a where a: "a \<in> set nr" by (cases nr) auto
      have s: "set nr \<subseteq> set tdl1 \<inter> {d. \<not> recursive (h ! d)}" using mset_eq_setD [OF R2(1)] by auto
      have "\<exists>b\<in>set nr. dep_cycle (deps h) (set tdl) b"
        by (rule stuck_cycle [OF _ _ a]) (use s sub1 R2(3) in auto)
      with marked s sub1 show False by blast
    qed
    have "?tdl2 \<noteq> []"
    proof -
      from ne obtain a where a: "a \<in> set tdl1" by (cases tdl1) auto
      have "\<exists>b\<in>set tdl1. dep_cycle (deps h) (set tdl) b"
        by (rule stuck_cycle [OF _ _ a]) (use sub1 R1(3) in auto)
      with marked sub1 show ?thesis by (auto simp: filter_empty_conv)
    qed
    moreover
    let ?h1 = "set_refList (\<lambda>_. []) h ?tdl2"
    let ?c = "\<lambda>d. cTypeDefInfo (h ! d) \<and> is_list_type (basicType (tdtype h d))"
    let ?tdl3 = "filter (\<lambda>d. \<not> ?c d) ?tdl2"
    let ?h2 = "set_refList (\<lambda>d. BuildWeightedLocalRefList (tdtype ?h1 d) []) ?h1 ?tdl3"
    obtain sr tdl4 where r3: "RemoveAndSortIndependents ?h2 ?tdl3 = (sr, tdl4)" by fastforce
    ultimately have S: "SortTypeDefs h tdl =
        Some (?h2, subl @ filter ?c ?tdl2 @ sr @ tdl4 @ (snr @ nr), False)"
      using False ne r1 r2 nr by (simp add: SortTypeDefs_def Let_def)
    have p3: "mset (filter ?c ?tdl2) + mset ?tdl3 = mset ?tdl2"
      unfolding mset_filter by (rule multiset_partition [symmetric])
    have p1: "mset ?tdl2 + mset ?nonRec = mset tdl1"
      unfolding mset_filter by (rule multiset_partition [symmetric])
    have m: "mset subl + mset tdl1 = mset tdl" "mset snr + mset nr = mset ?nonRec"
      "mset sr + mset tdl4 = mset ?tdl3"
      using R1(1) R2(1) RemoveAndSortIndependents_spec(1) [OF r3] by simp_all
    have "mset (subl @ filter ?c ?tdl2 @ sr @ tdl4 @ (snr @ nr)) =
        mset subl + ((mset (filter ?c ?tdl2) + (mset sr + mset tdl4)) + (mset snr + mset nr))"
      by (simp only: mset_append ac_simps)
    also have "\<dots> = mset tdl" by (simp only: m p3 p1)
    finally have "mset (subl @ filter ?c ?tdl2 @ sr @ tdl4 @ (snr @ nr)) = mset tdl" .
    then show ?thesis by (rule that [OF S]) simp_all
  qed
qed

text \<open>What a definition refers to in its module, but for itself.\<close>

definition local_deps :: "TypeDefs \<Rightarrow> nat \<Rightarrow> nat set" where
  "local_deps h d = set (list_elmts (BuildLocalRefList (tdtype h d) [])) - {d}"

definition no_local_refs :: "TypeDefs \<Rightarrow> nat \<Rightarrow> bool" where
  "no_local_refs h d \<longleftrightarrow> BuildLocalRefList (tdtype h d) [] = []"

text \<open>A field of a definition that grouping does not write.\<close>

lemma group_types_frame:
  "group_types tds (h, g) = (h1, g1) \<Longrightarrow>
   length h1 = length h \<and> tdType (h1 ! d) = tdType (h ! d) \<and> recursive (h1 ! d) = recursive (h ! d)"
proof (induction tds arbitrary: h g)
  case (Cons x tds)
  then show ?case by (auto simp: Let_def split: if_splits)
qed simp

definition libType :: "TypeDefs \<Rightarrow> nat \<Rightarrow> bool" where
  "libType h d \<longleftrightarrow> IsDefinedByLibraryType (tdtype h d)"

definition unrefd :: "TypeDefs \<Rightarrow> nat \<Rightarrow> bool" where
  "unrefd h d \<longleftrightarrow> \<not> libType h d \<and> localRefCount (h ! d) = 0"

definition refd :: "TypeDefs \<Rightarrow> nat \<Rightarrow> bool" where
  "refd h d \<longleftrightarrow> \<not> libType h d \<and> localRefCount (h ! d) \<noteq> 0"

lemma upd_groups [simp]:
  "libType (h[d := (h ! d)\<lparr>refList := rl\<rparr>]) a = libType h a"
  "unrefd (h[d := (h ! d)\<lparr>refList := rl\<rparr>]) a = unrefd h a"
  "refd (h[d := (h ! d)\<lparr>refList := rl\<rparr>]) a = refd h a"
  "no_local_refs (h[d := (h ! d)\<lparr>refList := rl\<rparr>]) a = no_local_refs h a"
  by (simp_all add: libType_def unrefd_def refd_def no_local_refs_def)

lemma group_types_groups:
  "group_types tds (h, g) = (h1, g1) \<Longrightarrow>
   prims g1 = prims g @ filter (libType h) tds \<and>
   notRefd g1 = notRefd g @ filter (unrefd h) tds \<and>
   noRefs g1 = noRefs g @ filter (\<lambda>d. refd h d \<and> no_local_refs h d) tds \<and>
   refs g1 = refs g @ filter (\<lambda>d. refd h d \<and> \<not> no_local_refs h d) tds"
proof (induction tds arbitrary: h g)
  case (Cons x tds)
  consider "libType h x" | "unrefd h x" | "refd h x" "no_local_refs h x" | "refd h x" "\<not> no_local_refs h x"
    by (auto simp: unrefd_def refd_def)
  then show ?case
  proof cases
    case 1
    with Cons.prems have "group_types tds (h, g\<lparr>prims := prims g @ [x]\<rparr>) = (h1, g1)"
      by (simp add: libType_def)
    from Cons.IH [OF this] 1 show ?thesis by (simp add: unrefd_def refd_def)
  next
    case 2
    with Cons.prems have "group_types tds (h, g\<lparr>notRefd := notRefd g @ [x]\<rparr>) = (h1, g1)"
      by (simp add: libType_def unrefd_def)
    from Cons.IH [OF this] 2 show ?thesis by (simp add: unrefd_def refd_def)
  next
    case 3
    with Cons.prems have
      "group_types tds (h[x := (h ! x)\<lparr>refList := []\<rparr>], g\<lparr>noRefs := noRefs g @ [x]\<rparr>) = (h1, g1)"
      by (simp add: libType_def refd_def no_local_refs_def)
    from Cons.IH [OF this] 3 show ?thesis by (simp add: unrefd_def refd_def)
  next
    case 4
    with Cons.prems have
      "group_types tds (h[x := (h ! x)\<lparr>refList := BuildLocalRefList (tdtype h x) []\<rparr>],
         g\<lparr>refs := refs g @ [x]\<rparr>) = (h1, g1)"
      by (simp add: libType_def refd_def no_local_refs_def)
    from Cons.IH [OF this] 4 show ?thesis by (simp add: unrefd_def refd_def)
  qed
qed simp

lemma group_types_refList:
  "group_types tds (h, g) = (h1, g1) \<Longrightarrow> set tds \<subseteq> {..<length h} \<Longrightarrow> refd h d \<Longrightarrow>
   d \<in> set tds \<or> refList (h ! d) = BuildLocalRefList (tdtype h d) [] \<Longrightarrow>
   refList (h1 ! d) = BuildLocalRefList (tdtype h d) []"
proof (induction tds arbitrary: h g)
  case (Cons x tds)
  show ?case
  proof (cases "refd h x")
    case True
    let ?h = "h[x := (h ! x)\<lparr>refList := BuildLocalRefList (tdtype h x) []\<rparr>]"
    obtain g' where g': "group_types tds (?h, g') = (h1, g1)"
      using True Cons.prems(1)
      by (auto simp: refd_def libType_def Let_def split: if_splits)
    have "refList (h1 ! d) = BuildLocalRefList (tdtype ?h d) []"
      by (rule Cons.IH [OF g']) (use Cons.prems in auto)
    then show ?thesis by simp
  next
    case False
    then have "x \<noteq> d" using Cons.prems(3) by auto
    from False obtain g' where g': "group_types tds (h, g') = (h1, g1)"
      using Cons.prems(1) by (auto simp: refd_def libType_def split: if_splits)
    show ?thesis by (rule Cons.IH [OF g']) (use Cons.prems \<open>x \<noteq> d\<close> in auto)
  qed
qed simp

lemma list_elmts_Nil_deps: "no_local_refs h d \<Longrightarrow> local_deps h d = {}"
  by (simp add: no_local_refs_def local_deps_def)

lemma library_no_refs: "IsDefinedByLibraryType t \<Longrightarrow> BuildLocalRefList t [] = []"
  by (cases t) (auto simp: IsDefinedByLibraryType_def split: BasicType.splits)

lemma tranclp_le: "R\<^sup>+\<^sup>+ a b \<Longrightarrow> (\<And>x y. R x y \<Longrightarrow> S x y) \<Longrightarrow> S\<^sup>+\<^sup>+ a b"
  by (induction rule: tranclp_induct) (auto intro: tranclp.trancl_into_trancl)

lemma dep_cycle_mono:
  assumes "dep_cycle D S d" "S \<subseteq> S'" "\<And>a. a \<in> S \<Longrightarrow> D a \<subseteq> D' a"
  shows "dep_cycle D' S' d"
  using assms(1) unfolding dep_cycle_def by (rule tranclp_le) (use assms(2,3) in blast)

lemma mset_groups:
  "mset (filter (libType h) tds @ filter (\<lambda>d. refd h d \<and> no_local_refs h d) tds @
     filter (\<lambda>d. refd h d \<and> \<not> no_local_refs h d) tds @ filter (unrefd h) tds) = mset tds"
  by (induction tds) (auto simp: unrefd_def refd_def)

text \<open>The sort ends well when every definition on a circle of the module is marked recursive:
  the result is a permutation and the message is not printed.\<close>

lemma SortTypeDependencies_spec:
  assumes tds: "set tds \<subseteq> {..<length h}"
    and marked: "\<And>d. d \<in> set tds \<Longrightarrow> dep_cycle (local_deps h) (set tds) d \<Longrightarrow> recursive (h ! d)"
  obtains h' tds' where "SortTypeDependencies h tds = Some (h', tds', False)" "mset tds' = mset tds"
proof -
  obtain h1 g where g: "group_types tds (h, \<lparr>prims = [], noRefs = [], refs = [], notRefd = []\<rparr>) = (h1, g)"
    by fastforce
  note G = group_types_groups [OF g, simplified] and F = group_types_frame [OF g]
  have r: "set (refs g) \<subseteq> set tds" using G by auto
  have D: "deps h1 d = local_deps h d" if "d \<in> set (refs g)" for d
    using that G group_types_refList [OF g tds, of d] by (auto simp: deps_def local_deps_def)
  have "recursive (h1 ! d)" if "d \<in> set (refs g)" "dep_cycle (deps h1) (set (refs g)) d" for d
  proof -
    have "dep_cycle (local_deps h) (set tds) d"
      by (rule dep_cycle_mono [OF that(2) r]) (use D in simp)
    with marked that(1) r have "recursive (h ! d)" by blast
    with F show ?thesis by blast
  qed
  from SortTypeDefs_spec [of "refs g" h1, OF this] obtain h2 refs'
    where s: "SortTypeDefs h1 (refs g) = Some (h2, refs', False)" "mset refs' = mset (refs g)" by blast
  have "mset (prims g @ noRefs g @ refs' @ notRefd g) = mset tds"
    using mset_groups [of h tds] s(2) G by simp
  with g s that show thesis by (auto simp: SortTypeDependencies_def)
qed

text \<open>Without circles everything comes after what it refers to.\<close>

lemma SortTypeDependencies_sorted:
  assumes tds: "set tds \<subseteq> {..<length h}"
    and acyclic: "\<And>d. d \<in> set tds \<Longrightarrow> \<not> dep_cycle (local_deps h) (set tds) d"
    and counted: "\<And>a b. a \<in> set tds \<Longrightarrow> b \<in> local_deps h a \<Longrightarrow> localRefCount (h ! b) \<noteq> 0"
  obtains h' tds' where "SortTypeDependencies h tds = Some (h', tds', False)" "mset tds' = mset tds"
    "dep_sorted (local_deps h) (set tds) tds'"
proof -
  obtain h1 g where g: "group_types tds (h, \<lparr>prims = [], noRefs = [], refs = [], notRefd = []\<rparr>) = (h1, g)"
    by fastforce
  note G = group_types_groups [OF g, simplified]
  have r: "set (refs g) \<subseteq> set tds" using G by auto
  have D: "deps h1 d = local_deps h d" if "d \<in> set (refs g)" for d
    using that G group_types_refList [OF g tds, of d] by (auto simp: deps_def local_deps_def)
  obtain srt stuck where rs: "RemoveAndSortIndependents h1 (refs g) = (srt, stuck)" by fastforce
  note R = RemoveAndSortIndependents_spec [OF rs]
  have sub: "set stuck \<subseteq> set (refs g)" using mset_eq_setD [OF R(1)] by auto
  have "stuck = []"
  proof (rule ccontr)
    assume "stuck \<noteq> []"
    then obtain a where a: "a \<in> set stuck" by (cases stuck) auto
    have "\<exists>b\<in>set stuck. dep_cycle (local_deps h) (set tds) b"
    proof (rule stuck_cycle [OF _ _ a])
      fix d assume "d \<in> set stuck"
      with R(3) [OF this] D [of d] sub show "local_deps h d \<inter> set stuck \<noteq> {}" by auto
    qed (use sub r in auto)
    with acyclic sub r show False by blast
  qed
  then have m: "mset srt = mset (refs g)" "set srt = set (refs g)"
    using R(1) mset_eq_setD [OF R(1)] by simp_all
  have s: "SortTypeDefs h1 (refs g) = Some (h1, srt, False)"
    using rs \<open>stuck = []\<close> R(1) by (auto simp: SortTypeDefs_def)
  have e: "mset (prims g @ noRefs g @ srt @ notRefd g) = mset tds"
    using mset_groups [of h tds] m(1) G by simp
  have dep: "b \<in> set (prims g) \<union> set (noRefs g) \<union> set (refs g)"
    if "a \<in> set tds" "b \<in> local_deps h a" "b \<in> set tds" for a b
    using G counted [OF that(1,2)] that(3) by (auto simp: unrefd_def refd_def)
  have prim: "local_deps h d = {}" if "d \<in> set (prims g @ noRefs g)" for d
    using that G library_no_refs by (auto simp: libType_def no_local_refs_def local_deps_def)
  have "dep_sorted (local_deps h) (set tds) ((prims g @ noRefs g) @ (srt @ notRefd g))"
    unfolding dep_sorted_append [of _ _ "prims g @ noRefs g"]
  proof (intro conjI allI impI)
    show "dep_sorted (local_deps h) (set tds) (prims g @ noRefs g)"
      by (rule dep_sorted_free) (simp add: prim del: set_append)
    fix us c vs assume u: "srt @ notRefd g = us @ c # vs"
    have c: "c \<in> set tds" using mset_eq_setD [OF e] u by (auto simp: append_eq_append_conv2)
    from u consider ws where "srt = us @ c # ws" | ws where "us = srt @ ws"
      by (auto simp: append_eq_append_conv2 append_eq_Cons_conv Cons_eq_append_conv)
    then show "local_deps h c \<inter> set tds \<subseteq> set (prims g @ noRefs g) \<union> set us"
    proof cases
      case 1
      then have "c \<in> set (refs g)" using m(2) by auto
      with R(2) 1 D [of c] have "local_deps h c \<inter> set (refs g) \<subseteq> set us"
        unfolding dep_sorted_def by blast
      with dep [OF c] show ?thesis by auto
    next
      case 2
      with dep [OF c] m(2) show ?thesis by auto
    qed
  qed
  with g s e that show thesis by (auto simp: SortTypeDependencies_def)
qed

text \<open>Outside object classes, which the marking does not look into, the references that count
  here are among those that count there.\<close>

inductive holds_class :: "Type \<Rightarrow> bool" where
  "holds_class (Type opt impl tgs dflt ci cxi (BASICTYPE_OBJECTCLASS es))"
| "bt \<in> {BASICTYPE_CHOICE es, BASICTYPE_SET es, BASICTYPE_SEQUENCE es} \<Longrightarrow>
    NamedType a nm t \<in> set es \<Longrightarrow> holds_class t \<Longrightarrow> holds_class (Type opt impl tgs dflt ci cxi bt)"
| "bt \<in> {BASICTYPE_SETOF t, BASICTYPE_SEQUENCEOF t} \<Longrightarrow> holds_class t \<Longrightarrow>
    holds_class (Type opt impl tgs dflt ci cxi bt)"

lemma local_refs_refer:
  "Some b \<in> set (BuildLocalRefList t rl) \<Longrightarrow> \<not> holds_class t \<Longrightarrow>
   Some b \<in> set rl \<or> (\<exists>r. refers t r \<and> link r = Some b)"
  "Some b \<in> set (BuildLocalRefElmts es rl) \<Longrightarrow>
   (\<And>a nm t. NamedType a nm t \<in> set es \<Longrightarrow> \<not> holds_class t) \<Longrightarrow>
   Some b \<in> set rl \<or> (\<exists>a nm t r. NamedType a nm t \<in> set es \<and> refers t r \<and> link r = Some b)"
proof (induction t rl and es rl rule: BuildLocalRefList_BuildLocalRefElmts.induct)
  case (1 opt impl tgs dflt ci cxi bt rl)
  let ?t = "Type opt impl tgs dflt ci cxi bt"
  have agg: "Some b \<in> set rl \<or> (\<exists>r. refers ?t r \<and> link r = Some b)"
    if "bt \<in> {BASICTYPE_CHOICE es, BASICTYPE_SET es, BASICTYPE_SEQUENCE es}"
      "Some b \<in> set rl \<or> (\<exists>a nm t r. NamedType a nm t \<in> set es \<and> refers t r \<and> link r = Some b)" for es
    using that(2) refers.elmt [OF that(1)] by blast
  have nc: "\<not> holds_class t" if "bt \<in> {BASICTYPE_CHOICE es, BASICTYPE_SET es, BASICTYPE_SEQUENCE es}"
      "NamedType a nm t \<in> set es" for es a nm t
    using holds_class.intros(2) [OF that] 1(8) by blast
  have lst: "\<not> holds_class t" if "bt \<in> {BASICTYPE_SETOF t, BASICTYPE_SEQUENCEOF t}" for t
    using holds_class.intros(3) [OF that] 1(8) by blast
  show ?case
  proof (cases bt)
    case (BASICTYPE_CHOICE es)
    show ?thesis by (rule agg [of es]) (use 1 nc [of es] BASICTYPE_CHOICE in auto)
  next
    case (BASICTYPE_SET es)
    show ?thesis by (rule agg [of es]) (use 1 nc [of es] BASICTYPE_SET in auto)
  next
    case (BASICTYPE_SEQUENCE es)
    show ?thesis by (rule agg [of es]) (use 1 nc [of es] BASICTYPE_SEQUENCE in auto)
  next
    case (BASICTYPE_OBJECTCLASS es)
    with 1 holds_class.intros(1) show ?thesis by blast
  next
    case (BASICTYPE_SETOF t)
    with 1 lst [of t] have "Some b \<in> set rl \<or> (\<exists>r. refers t r \<and> link r = Some b)" by simp
    with BASICTYPE_SETOF show ?thesis using refers.listof [of bt t] by blast
  next
    case (BASICTYPE_SEQUENCEOF t)
    with 1 lst [of t] have "Some b \<in> set rl \<or> (\<exists>r. refers t r \<and> link r = Some b)" by simp
    with BASICTYPE_SEQUENCEOF show ?thesis using refers.listof [of bt t] by blast
  next
    case (BASICTYPE_LOCALTYPEREF r)
    then have "refers ?t r" by (auto intro: refers.here)
    moreover have "Some b \<in> set rl \<or> link r = Some b" using 1(7) BASICTYPE_LOCALTYPEREF by auto
    ultimately show ?thesis by blast
  qed (use 1 in auto)
next
  case (3 a nm t es rl)
  have "\<not> holds_class t" by (rule 3(4) [of a nm]) simp
  with 3 show ?case by fastforce
qed simp_all

lemma list_elmts_sub: "x \<in> set (list_elmts xs) \<Longrightarrow> Some x \<in> set xs"
  by (induction xs rule: list_elmts.induct) auto

lemma dep_cycle_ref_rel:
  assumes "dep_cycle (local_deps h) (set tds) d" "set tds \<subseteq> {..<length h}" "refs_linked h"
    "\<And>a. a \<in> set tds \<Longrightarrow> \<not> holds_class (tdtype h a)"
  shows "(d, d) \<in> (ref_rel h)\<^sup>+"
proof -
  have "(a, b) \<in> ref_rel h" if a: "a \<in> set tds" and b: "b \<in> local_deps h a" for a b
  proof -
    from b have "Some b \<in> set (BuildLocalRefList (tdtype h a) [])"
      by (auto simp: local_deps_def dest: list_elmts_sub)
    from local_refs_refer(1) [OF this assms(4) [OF a]] obtain r
      where r: "refers (tdtype h a) r" "link r = Some b" by auto
    have "a < length h" using a assms(2) by auto
    with r assms(3) have "ref_link h r \<noteq> None" unfolding refs_linked_def by blast
    with r \<open>a < length h\<close> show ?thesis unfolding ref_rel_def by auto
  qed
  with assms(1) show ?thesis
    unfolding dep_cycle_def trancl_def by (auto elim: tranclp_le)
qed

end
