(* ===== verification/Comp_Tags.thy ===== *)
theory Comp_Tags
  imports Comp_Util
begin

section \<open>The tags of a type (\<open>compiler/back-ends/tag-util.c\<close>, \<open>compiler/core/err-chk.c\<close>)\<close>

text \<open>
  The tags that are encoded before the contents of a value are those of the type and of the
  types it refers to.  \<open>GetTags\<close> lists them for the code generators, \<open>CountTags\<close> counts
  them, and \<open>AddFirstTag\<close> collects the first ones, which decide between the alternatives of a
  CHOICE or the elements of a SET.  \<open>HasDistinctTags\<close> and \<open>ChkSeqTags\<close> are the checks that
  rest on it.  References can form circles; every walk has fuel for the references it follows,
  and \<open>None\<close> is not returning.
\<close>

subsection \<open>\<open>GetTags\<close> and \<open>CountTags\<close>\<close>

text \<open>The forms are set at the end: the last tag has the form of the type it is in front of.\<close>

definition set_forms :: "LibTypes \<Rightarrow> TypeDefs \<Rightarrow> Type \<Rightarrow> Tag list \<Rightarrow> (Tag list \<times> bool) option" where
  "set_forms tbl h t retVal =
     (if retVal = [] then Some (retVal, False)
      else (case GetBuiltinType h t of
              None \<Rightarrow> None
            | Some tId \<Rightarrow>
                map_option
                  (\<lambda>form. (map (\<lambda>tag. tag\<lparr>tform := CONS\<rparr>) (butlast retVal) @ [(last retVal)\<lparr>tform := form\<rparr>], False))
                  (LIBTYPE_GET_TAG_FORM tbl tId)))"

text \<open>The rest of the tags of a type reached by a reference, when the reference is implicit.\<close>

definition enter_ref :: "bool \<Rightarrow> Tag list \<Rightarrow> Tag list \<times> bool" where
  "enter_ref implicitRef tagl = (if tagl \<noteq> [] \<and> implicitRef then (tl tagl, False) else (tagl, implicitRef))"

function (sequential) GetTagsLoop ::
    "nat \<Rightarrow> LibTypes \<Rightarrow> TypeDefs \<Rightarrow> Type \<Rightarrow> Tag list \<Rightarrow> bool \<Rightarrow> Tag list \<Rightarrow> (Tag list \<times> bool) option"
  and ChoiceTags :: "nat \<Rightarrow> LibTypes \<Rightarrow> TypeDefs \<Rightarrow> NamedType list \<Rightarrow> Tag list \<Rightarrow> Tag list option" where
  "GetTagsLoop n tbl h (Type opt impl tgs dflt ci cxi bt) tagl implicitRef retVal =
     (let retVal = retVal @ tagl in
      case ref_of bt of
        Some r \<Rightarrow>
          (case ref_link h r of
             None \<Rightarrow> set_forms tbl h (Type opt impl tgs dflt ci cxi bt) retVal
           | Some d \<Rightarrow>
               (case n of
                  0 \<Rightarrow> None
                | Suc n' \<Rightarrow>
                    (case enter_ref (implicitRef \<or> impl) (tags (tdtype h d)) of
                       (tagl', implicitRef') \<Rightarrow> GetTagsLoop n' tbl h (tdtype h d) tagl' implicitRef' retVal)))
      | None \<Rightarrow>
          (case bt of
             BASICTYPE_CHOICE es \<Rightarrow>
               if retVal = [] then map_option (\<lambda>tagl. (tagl, True)) (ChoiceTags n tbl h es [])
               else set_forms tbl h (Type opt impl tgs dflt ci cxi bt) retVal
           | _ \<Rightarrow> set_forms tbl h (Type opt impl tgs dflt ci cxi bt) retVal))"
| "ChoiceTags n tbl h [] retVal = Some retVal"
| "ChoiceTags n tbl h (NamedType a nm t # es) retVal =
     (case GetTagsLoop n tbl h t (tags t) False [] of
        None \<Rightarrow> None
      | Some (tagl, stoleChoicesAgain) \<Rightarrow>
          if stoleChoicesAgain then ChoiceTags n tbl h es (retVal @ tagl)
          else (case tagl of [] \<Rightarrow> None | tag # _ \<Rightarrow> ChoiceTags n tbl h es (retVal @ [tag])))"
  by pat_completeness auto
termination
  by (relation "measures
       [\<lambda>x. case x of Inl (n, _) \<Rightarrow> n | Inr (n, _) \<Rightarrow> n,
        \<lambda>x. case x of Inl (_, _, _, t, _) \<Rightarrow> size t | Inr (_, _, _, es, _) \<Rightarrow> size_list size es]")
     auto

text \<open>The list of tags, and whether they are those of a CHOICE's alternatives.\<close>

definition GetTags :: "nat \<Rightarrow> LibTypes \<Rightarrow> TypeDefs \<Rightarrow> Type \<Rightarrow> (Tag list \<times> bool) option" where
  "GetTags n tbl h t = GetTagsLoop n tbl h t (tags t) False []"

fun CountTagsLoop :: "nat \<Rightarrow> TypeDefs \<Rightarrow> Type \<Rightarrow> Tag list \<Rightarrow> bool \<Rightarrow> nat \<Rightarrow> nat option" where
  "CountTagsLoop n h t tagl implicitRef tagCount =
     (let tagCount = tagCount + length tagl in
      case ref_of (basicType t) of
        Some r \<Rightarrow>
          (case ref_link h r of
             None \<Rightarrow> Some tagCount
           | Some d \<Rightarrow>
               (case n of
                  0 \<Rightarrow> None
                | Suc n' \<Rightarrow>
                    (case enter_ref (implicitRef \<or> implicit t) (tags (tdtype h d)) of
                       (tagl', implicitRef') \<Rightarrow> CountTagsLoop n' h (tdtype h d) tagl' implicitRef' tagCount)))
      | None \<Rightarrow> Some tagCount)"

declare CountTagsLoop.simps [simp del]

definition CountTags :: "nat \<Rightarrow> TypeDefs \<Rightarrow> Type \<Rightarrow> nat option" where
  "CountTags n h t = CountTagsLoop n h t (tags t) False 0"

lemma set_forms_length:
  "set_forms tbl h t retVal = Some (tagl, stole) \<Longrightarrow> length tagl = length retVal \<and> \<not> stole"
  by (cases "retVal = []") (auto simp: set_forms_def split: option.splits)

text \<open>\<open>CountTags\<close> is the number of tags of the type itself; when \<open>GetTags\<close> has taken those of
  the alternatives, it is none.\<close>

lemma GetTagsLoop_count:
  "GetTagsLoop n tbl h t tagl implicitRef retVal = Some (tgs, stole) \<Longrightarrow>
   CountTagsLoop n h t tagl implicitRef (length retVal) = Some (if stole then 0 else length tgs)"
proof (induction n arbitrary: t tagl implicitRef retVal)
  case 0
  obtain opt impl tg dflt ci cxi bt where t: "t = Type opt impl tg dflt ci cxi bt" by (cases t)
  from 0 t show ?case
    by (subst CountTagsLoop.simps)
      (auto simp: Let_def simp del: ref_link_Some dest: set_forms_length split: option.splits BasicType.splits if_splits)
next
  case (Suc n)
  obtain opt impl tg dflt ci cxi bt where t: "t = Type opt impl tg dflt ci cxi bt" by (cases t)
  from Suc.prems t show ?case
    by (subst CountTagsLoop.simps)
      (auto simp: Let_def simp del: ref_link_Some dest: set_forms_length dest!: Suc.IH
        split: option.splits BasicType.splits if_splits prod.splits)
qed

subsection \<open>First tags\<close>

text \<open>Two tags are the same; a tag that names a value is compared by its number alone.\<close>

definition TagObjCmp :: "ValueDefs \<Rightarrow> Tag \<Rightarrow> Tag \<Rightarrow> bool" where
  "TagObjCmp vals t1 t2 \<longleftrightarrow>
     (if valueRef t1 = None \<and> valueRef t2 = None
      then tclass t1 = tclass t2 \<and> tcode t1 = tcode t2
      else DetermineCode vals t1 True = DetermineCode vals t2 True)"

text \<open>The result says whether the tags were new, with the list of tags collected.\<close>

function (sequential) AddFirstTagLoop ::
    "nat \<Rightarrow> ValueDefs \<Rightarrow> TypeDefs \<Rightarrow> Tag list \<Rightarrow> Type \<Rightarrow> Tag list \<Rightarrow> bool \<Rightarrow> (bool \<times> Tag list) option"
  and AddFirstTags :: "nat \<Rightarrow> ValueDefs \<Rightarrow> TypeDefs \<Rightarrow> Tag list \<Rightarrow> NamedType list \<Rightarrow> (bool \<times> Tag list) option" where
  "AddFirstTagLoop n vals h definedTags (Type opt impl tgs dflt ci cxi bt) tagl implicitRef =
     (case tagl of
        tag # _ \<Rightarrow>
          if ObjIsDefined definedTags tag (TagObjCmp vals) then Some (False, definedTags)
          else Some (True, DefineObj definedTags tag)
      | [] \<Rightarrow>
          (case ref_of bt of
             Some r \<Rightarrow>
               (case ref_link h r of
                  None \<Rightarrow> Some (True, definedTags)
                | Some d \<Rightarrow>
                    (case n of
                       0 \<Rightarrow> None
                     | Suc n' \<Rightarrow>
                         (case enter_ref (implicitRef \<or> impl) (tags (tdtype h d)) of
                            (tagl', implicitRef') \<Rightarrow>
                              AddFirstTagLoop n' vals h definedTags (tdtype h d) tagl' implicitRef')))
           | None \<Rightarrow>
               (case bt of
                  BASICTYPE_CHOICE es \<Rightarrow> AddFirstTags n vals h definedTags es
                | _ \<Rightarrow> Some (True, definedTags))))"
| "AddFirstTags n vals h definedTags [] = Some (True, definedTags)"
| "AddFirstTags n vals h definedTags (NamedType a nm t # es) =
     (case AddFirstTagLoop n vals h definedTags t (tags t) False of
        None \<Rightarrow> None
      | Some (isNew, definedTags') \<Rightarrow>
          if \<not> isNew then Some (False, definedTags') else AddFirstTags n vals h definedTags' es)"
  by pat_completeness auto
termination
  by (relation "measures
       [\<lambda>x. case x of Inl (n, _) \<Rightarrow> n | Inr (n, _) \<Rightarrow> n,
        \<lambda>x. case x of Inl (_, _, _, _, t, _) \<Rightarrow> size t | Inr (_, _, _, _, es) \<Rightarrow> size_list size es]")
     auto

definition AddFirstTag :: "nat \<Rightarrow> ValueDefs \<Rightarrow> TypeDefs \<Rightarrow> Tag list \<Rightarrow> Type \<Rightarrow> (bool \<times> Tag list) option" where
  "AddFirstTag n vals h definedTags t = AddFirstTagLoop n vals h definedTags t (tags t) False"

text \<open>The loop over the elements is the one over the alternatives of a CHOICE.\<close>

fun distinct_loop :: "nat \<Rightarrow> ValueDefs \<Rightarrow> TypeDefs \<Rightarrow> Tag list \<Rightarrow> NamedType list \<Rightarrow> bool option" where
  "distinct_loop n vals h tL [] = Some True"
| "distinct_loop n vals h tL (e # elmts) =
     (case AddFirstTag n vals h tL (ntType e) of
        None \<Rightarrow> None
      | Some (isNew, tL') \<Rightarrow> if \<not> isNew then Some False else distinct_loop n vals h tL' elmts)"

definition HasDistinctTags :: "nat \<Rightarrow> ValueDefs \<Rightarrow> TypeDefs \<Rightarrow> NamedType list \<Rightarrow> bool option" where
  "HasDistinctTags n vals h elmts = distinct_loop n vals h [] elmts"

text \<open>The check of a SEQUENCE; the result is the number of errors.\<close>

fun seq_loop :: "nat \<Rightarrow> ValueDefs \<Rightarrow> TypeDefs \<Rightarrow> Tag list \<Rightarrow> NamedType list \<Rightarrow> nat option" where
  "seq_loop n vals h dO [] = Some 0"
| "seq_loop n vals h dO (e # es) =
     (if elmt_optional e then
        (case AddFirstTag n vals h dO (ntType e) of
           None \<Rightarrow> None
         | Some (isNew, dO') \<Rightarrow>
             map_option (\<lambda>k. if isNew then k else Suc k) (seq_loop n vals h dO' es))
      else if dO \<noteq> [] then
        (case AddFirstTag n vals h dO (ntType e) of
           None \<Rightarrow> None
         | Some (isNew, dO') \<Rightarrow>
             map_option (\<lambda>k. if isNew then k else Suc k) (seq_loop n vals h [] es))
      else seq_loop n vals h dO es)"

definition ChkSeqTags :: "nat \<Rightarrow> ValueDefs \<Rightarrow> TypeDefs \<Rightarrow> Type \<Rightarrow> nat option" where
  "ChkSeqTags n vals h t =
     (case basicType t of BASICTYPE_SEQUENCE es \<Rightarrow> seq_loop n vals h [] es | _ \<Rightarrow> Some 0)"

subsection \<open>What the checks decide\<close>

text \<open>The tags a value of a type can start with, in the order of the text.  There is such a
  list unless untagged references form a circle; an untagged reference is not implicit.\<close>

inductive first_tags :: "TypeDefs \<Rightarrow> Type \<Rightarrow> Tag list \<Rightarrow> bool"
  and firsts :: "TypeDefs \<Rightarrow> NamedType list \<Rightarrow> Tag list list \<Rightarrow> bool" for h where
  own: "tags t = tag # rest \<Longrightarrow> first_tags h t [tag]"
| through: "tags t = [] \<Longrightarrow> \<not> implicit t \<Longrightarrow> ref_of (basicType t) = Some r \<Longrightarrow> ref_link h r = Some d \<Longrightarrow>
    first_tags h (tdtype h d) ts \<Longrightarrow> first_tags h t ts"
| unlinked: "tags t = [] \<Longrightarrow> ref_of (basicType t) = Some r \<Longrightarrow> ref_link h r = None \<Longrightarrow> first_tags h t []"
| alternatives: "tags t = [] \<Longrightarrow> basicType t = BASICTYPE_CHOICE es \<Longrightarrow> firsts h es tss \<Longrightarrow>
    first_tags h t (concat tss)"
| none: "tags t = [] \<Longrightarrow> ref_of (basicType t) = None \<Longrightarrow> (\<And>es. basicType t \<noteq> BASICTYPE_CHOICE es) \<Longrightarrow>
    first_tags h t []"
| nil: "firsts h [] []"
| cons: "first_tags h (ntType e) ts \<Longrightarrow> firsts h es tss \<Longrightarrow> firsts h (e # es) (ts # tss)"

text \<open>\<open>definedTags\<close> has the newest tag first; a tag clashes with an older one.\<close>

definition apart :: "ValueDefs \<Rightarrow> Tag list \<Rightarrow> bool" where
  "apart vals ts \<longleftrightarrow> sorted_wrt (\<lambda>a b. \<not> TagObjCmp vals a b) ts"

lemma apart_append:
  "apart vals (xs @ ys) \<longleftrightarrow>
     apart vals xs \<and> apart vals ys \<and> (\<forall>a\<in>set xs. \<forall>b\<in>set ys. \<not> TagObjCmp vals a b)"
  by (simp add: apart_def sorted_wrt_append)

lemma apart_single [simp]: "apart vals [tag]"
  by (simp add: apart_def)

lemma apart_snoc: "apart vals (rev D @ [tag]) \<longleftrightarrow> apart vals (rev D) \<and> \<not> ObjIsDefined D tag (TagObjCmp vals)"
  by (auto simp: apart_append ObjIsDefined_iff)

lemma AddFirstTagLoop_own:
  "tags t = tag # rest \<Longrightarrow> AddFirstTag n vals h D t =
     (if ObjIsDefined D tag (TagObjCmp vals) then Some (False, D) else Some (True, tag # D))"
  by (cases t) (simp add: AddFirstTag_def DefineObj_def)

lemma AddFirstTagLoop_through:
  "tags t = [] \<Longrightarrow> \<not> implicit t \<Longrightarrow> ref_of (basicType t) = Some r \<Longrightarrow> ref_link h r = Some d \<Longrightarrow>
   AddFirstTag (Suc n) vals h D t = AddFirstTag n vals h D (tdtype h d)"
  by (cases t) (simp add: AddFirstTag_def enter_ref_def del: ref_link_Some)

lemma AddFirstTags_Cons:
  "AddFirstTags n vals h D (e # es) =
     (case AddFirstTag n vals h D (ntType e) of
        None \<Rightarrow> None
      | Some (isNew, D') \<Rightarrow> if \<not> isNew then Some (False, D') else AddFirstTags n vals h D' es)"
  by (cases e) (simp add: AddFirstTag_def)

text \<open>What adding the tags \<open>ts\<close> gives; what was collected stays apart.\<close>

definition adds :: "ValueDefs \<Rightarrow> (Tag list \<Rightarrow> (bool \<times> Tag list) option) \<Rightarrow> Tag list \<Rightarrow> bool" where
  "adds vals f ts \<longleftrightarrow>
     (\<forall>D. apart vals (rev D) \<longrightarrow>
        (if apart vals (rev D @ ts) then f D = Some (True, rev ts @ D)
         else \<exists>D'. f D = Some (False, D') \<and> apart vals (rev D')))"

lemma addsD1: "adds vals f ts \<Longrightarrow> apart vals (rev D @ ts) \<Longrightarrow> f D = Some (True, rev ts @ D)"
  by (auto simp: adds_def apart_append)

lemma addsD2:
  "adds vals f ts \<Longrightarrow> apart vals (rev D) \<Longrightarrow> \<not> apart vals (rev D @ ts) \<Longrightarrow>
   \<exists>D'. f D = Some (False, D') \<and> apart vals (rev D')"
  by (auto simp: adds_def)

lemma adds_Nil: "(\<And>D. f D = Some (True, D)) \<Longrightarrow> adds vals f []"
  by (simp add: adds_def)

lemma adds_Cons:
  assumes "adds vals (\<lambda>D. AddFirstTag n vals h D (ntType e)) ts" "adds vals (\<lambda>D. AddFirstTags n vals h D es) us"
  shows "adds vals (\<lambda>D. AddFirstTags n vals h D (e # es)) (ts @ us)"
  unfolding adds_def
proof (intro allI impI)
  fix D assume D: "apart vals (rev D)"
  show "if apart vals (rev D @ ts @ us) then AddFirstTags n vals h D (e # es) = Some (True, rev (ts @ us) @ D)
      else \<exists>D'. AddFirstTags n vals h D (e # es) = Some (False, D') \<and> apart vals (rev D')"
  proof (cases "apart vals (rev D @ ts)")
    case True
    from addsD1 [OF assms(1) this] addsD1 [OF assms(2), of "rev ts @ D"]
      addsD2 [OF assms(2), of "rev ts @ D"] True
    show ?thesis by (auto simp: AddFirstTags_Cons)
  next
    case False
    from addsD2 [OF assms(1) D this] False show ?thesis
      by (auto simp: AddFirstTags_Cons apart_append)
  qed
qed

lemma first_tags_adds:
  "first_tags h t ts \<Longrightarrow> \<exists>N. \<forall>n\<ge>N. adds vals (\<lambda>D. AddFirstTag n vals h D t) ts"
  "firsts h es tss \<Longrightarrow> \<exists>N. \<forall>n\<ge>N. adds vals (\<lambda>D. AddFirstTags n vals h D es) (concat tss)"
proof (induction rule: first_tags_firsts.inducts)
  case (own t tag rest)
  then show ?case
    by (intro exI [of _ 0] allI impI) (auto simp: adds_def AddFirstTagLoop_own apart_snoc)
next
  case (through t r d ts)
  then obtain N where N: "\<And>n. n \<ge> N \<Longrightarrow> adds vals (\<lambda>D. AddFirstTag n vals h D (tdtype h d)) ts" by blast
  show ?case
  proof (intro exI [of _ "Suc N"] allI impI)
    fix n assume "Suc N \<le> n"
    then obtain m where "n = Suc m" "N \<le> m" by (cases n) auto
    with N [of m] show "adds vals (\<lambda>D. AddFirstTag n vals h D t) ts"
      by (simp add: AddFirstTagLoop_through [OF through(1-4)])
  qed
next
  case (unlinked t r)
  then show ?case
    by (cases t) (auto intro!: exI [of _ 0] adds_Nil simp: AddFirstTag_def simp del: ref_link_Some)
next
  case (alternatives t es tss)
  then obtain N where "\<And>n. n \<ge> N \<Longrightarrow> adds vals (\<lambda>D. AddFirstTags n vals h D es) (concat tss)" by blast
  with alternatives.hyps show ?case
    by (cases t) (auto intro!: exI [of _ N] simp: AddFirstTag_def)
next
  case (none t)
  have "AddFirstTag n vals h D t = Some (True, D)" for n D
    by (cases t; cases "basicType t") (use none in \<open>auto simp: AddFirstTag_def\<close>)
  then show ?case by (auto intro: adds_Nil)
next
  case nil
  then show ?case by (auto intro: adds_Nil)
next
  case (cons e ts es tss)
  then obtain N M where
    "\<And>n. n \<ge> N \<Longrightarrow> adds vals (\<lambda>D. AddFirstTag n vals h D (ntType e)) ts"
    "\<And>n. n \<ge> M \<Longrightarrow> adds vals (\<lambda>D. AddFirstTags n vals h D es) (concat tss)" by blast
  then show ?case by (intro exI [of _ "max N M"]) (auto intro: adds_Cons)
qed

lemma distinct_loop_AddFirstTags:
  "distinct_loop n vals h D es = map_option fst (AddFirstTags n vals h D es)"
  by (induction es arbitrary: D) (auto simp: AddFirstTags_Cons split: option.split)

lemma apart_Nil [simp]: "apart vals []"
  by (simp add: apart_def)

text \<open>The check of a CHOICE or SET decides whether all first tags are apart, with fuel enough.\<close>

lemma HasDistinctTags_spec:
  assumes "firsts h es tss"
  shows "\<exists>N. \<forall>n\<ge>N. HasDistinctTags n vals h es = Some (apart vals (concat tss))"
proof -
  from first_tags_adds(2) [OF assms] obtain N
    where N: "\<And>n. n \<ge> N \<Longrightarrow> adds vals (\<lambda>D. AddFirstTags n vals h D es) (concat tss)" by blast
  have "HasDistinctTags n vals h es = Some (apart vals (concat tss))" if "n \<ge> N" for n
    using addsD1 [OF N [OF that], of "[]"] addsD2 [OF N [OF that], of "[]"]
    by (cases "apart vals (concat tss)") (auto simp: HasDistinctTags_def distinct_loop_AddFirstTags)
  then show ?thesis by blast
qed

text \<open>For tags written as numbers, apart is distinct in class and code.\<close>

lemma apart_plain:
  "(\<And>t. t \<in> set ts \<Longrightarrow> valueRef t = None) \<Longrightarrow>
   apart vals ts \<longleftrightarrow> distinct (map (\<lambda>t. (tclass t, tcode t)) ts)"
proof (induction ts)
  case (Cons t ts)
  then have "apart vals (t # ts) \<longleftrightarrow> (\<forall>u\<in>set ts. \<not> (tclass t = tclass u \<and> tcode t = tcode u)) \<and> apart vals ts"
    by (auto simp: apart_def TagObjCmp_def)
  with Cons show ?case by auto
qed simp

text \<open>The check of a SEQUENCE, with the tags of the elements since the last one that was not
  optional.\<close>

fun seq_good :: "ValueDefs \<Rightarrow> Tag list \<Rightarrow> NamedType list \<Rightarrow> Tag list list \<Rightarrow> bool" where
  "seq_good vals acc (e # es) (ts # tss) \<longleftrightarrow>
     (if elmt_optional e then apart vals (acc @ ts) \<and> seq_good vals (acc @ ts) es tss
      else if acc \<noteq> [] then apart vals (acc @ ts) \<and> seq_good vals [] es tss
      else seq_good vals acc es tss)"
| "seq_good vals acc _ _ \<longleftrightarrow> True"

lemma seq_loop_spec:
  assumes "firsts h es tss"
  shows "\<exists>N. \<forall>n\<ge>N. \<forall>D. apart vals (rev D) \<longrightarrow>
    (\<exists>k. seq_loop n vals h D es = Some k \<and> (k = 0 \<longleftrightarrow> seq_good vals (rev D) es tss))"
  using assms
proof (induction es arbitrary: tss)
  case (Cons e es)
  from Cons.prems obtain ts us where tss: "tss = ts # us" "first_tags h (ntType e) ts" "firsts h es us"
    by (auto elim: firsts.cases)
  from Cons.IH [OF tss(3)] obtain N where N: "\<And>n D. n \<ge> N \<Longrightarrow> apart vals (rev D) \<Longrightarrow>
      \<exists>k. seq_loop n vals h D es = Some k \<and> (k = 0 \<longleftrightarrow> seq_good vals (rev D) es us)" by blast
  from first_tags_adds(1) [OF tss(2)] obtain M
    where M: "\<And>n. n \<ge> M \<Longrightarrow> adds vals (\<lambda>D. AddFirstTag n vals h D (ntType e)) ts" by blast
  have "\<exists>k. seq_loop n vals h D (e # es) = Some k \<and> (k = 0 \<longleftrightarrow> seq_good vals (rev D) (e # es) tss)"
    if n: "n \<ge> max N M" and D: "apart vals (rev D)" for n D
  proof (cases "apart vals (rev D @ ts)")
    case True
    then have a: "AddFirstTag n vals h D (ntType e) = Some (True, rev ts @ D)"
      using addsD1 [OF M] n by simp
    with True N [of n "rev ts @ D"] N [of n "[]"] N [of n D] n D tss(1) show ?thesis
      by (cases "elmt_optional e"; cases "D = []") auto
  next
    case False
    then obtain D' where a: "AddFirstTag n vals h D (ntType e) = Some (False, D')" "apart vals (rev D')"
      using addsD2 [OF M D] n by auto
    with False N [of n D'] N [of n "[]"] N [of n D] n D tss(1) show ?thesis
      by (cases "elmt_optional e"; cases "D = []") auto
  qed
  then show ?case by blast
qed auto

lemma firsts_length: "firsts h es tss \<Longrightarrow> length tss = length es"
proof (induction es arbitrary: tss)
  case (Cons e es)
  from Cons.prems show ?case by cases (use Cons.IH in auto)
qed (auto elim: firsts.cases)

lemma all_less_Suc: "(\<forall>j<Suc n. P j) \<longleftrightarrow> P 0 \<and> (\<forall>j<n. P (Suc j))"
  by (auto simp: less_Suc_eq_0_disj)

text \<open>Which elements can be mistaken for each other: those with only optional elements from the
  first of them up to the second.\<close>

definition seq_unambiguous :: "ValueDefs \<Rightarrow> NamedType list \<Rightarrow> Tag list list \<Rightarrow> bool" where
  "seq_unambiguous vals es tss \<longleftrightarrow>
     (\<forall>j<length es. \<forall>i<j. (\<forall>k. i \<le> k \<and> k < j \<longrightarrow> elmt_optional (es ! k)) \<longrightarrow>
        (\<forall>a\<in>set (tss ! i). \<forall>b\<in>set (tss ! j). \<not> TagObjCmp vals a b))"

definition run_unambiguous :: "ValueDefs \<Rightarrow> Tag list \<Rightarrow> NamedType list \<Rightarrow> Tag list list \<Rightarrow> bool" where
  "run_unambiguous vals acc es tss \<longleftrightarrow>
     (\<forall>j<length es. (\<forall>k<j. elmt_optional (es ! k)) \<longrightarrow>
        (\<forall>a\<in>set acc. \<forall>b\<in>set (tss ! j). \<not> TagObjCmp vals a b))"

lemma run_unambiguous_Cons:
  "run_unambiguous vals acc (e # es) (ts # tss) \<longleftrightarrow>
     (\<forall>a\<in>set acc. \<forall>b\<in>set ts. \<not> TagObjCmp vals a b) \<and>
     (elmt_optional e \<longrightarrow> run_unambiguous vals acc es tss)"
  by (auto simp: run_unambiguous_def all_less_Suc)

lemma seq_unambiguous_Cons:
  "seq_unambiguous vals (e # es) (ts # tss) \<longleftrightarrow>
     (elmt_optional e \<longrightarrow> run_unambiguous vals ts es tss) \<and> seq_unambiguous vals es tss"
proof -
  have k0: "(\<forall>k. 0 \<le> k \<and> k < Suc j \<longrightarrow> P ((e # es) ! k)) \<longleftrightarrow> P e \<and> (\<forall>k<j. P (es ! k))" for j P
    by (simp add: all_less_Suc)
  have kS: "(\<forall>k. Suc i \<le> k \<and> k < Suc j \<longrightarrow> P ((e # es) ! k)) \<longleftrightarrow>
      (\<forall>k. i \<le> k \<and> k < j \<longrightarrow> P (es ! k))" for i j P
  proof safe
    fix k assume a: "\<forall>k. Suc i \<le> k \<and> k < Suc j \<longrightarrow> P ((e # es) ! k)" "i \<le> k" "k < j"
    from a(1) [rule_format, of "Suc k"] a(2,3) show "P (es ! k)" by simp
  next
    fix k assume a: "\<forall>k. i \<le> k \<and> k < j \<longrightarrow> P (es ! k)" "Suc i \<le> k" "k < Suc j"
    then show "P ((e # es) ! k)" by (cases k) auto
  qed
  have R: "(\<forall>j<length (e # es). \<forall>i<j. R i j) \<longleftrightarrow>
      (\<forall>j<length es. R 0 (Suc j)) \<and> (\<forall>j<length es. \<forall>i<j. R (Suc i) (Suc j))" for R
    by (auto simp: all_less_Suc)
  show ?thesis
    unfolding seq_unambiguous_def run_unambiguous_def R k0 kS nth_Cons_0 nth_Cons_Suc by blast
qed

lemma seq_good_unambiguous:
  assumes "length tss = length es" "apart vals acc" "\<forall>ts\<in>set tss. apart vals ts"
  shows "seq_good vals acc es tss \<longleftrightarrow> run_unambiguous vals acc es tss \<and> seq_unambiguous vals es tss"
  using assms
proof (induction es tss arbitrary: acc rule: list_induct2')
  case (4 e es ts tss)
  have split: "run_unambiguous vals (acc @ ts) es tss \<longleftrightarrow>
      run_unambiguous vals acc es tss \<and> run_unambiguous vals ts es tss"
    by (auto simp: run_unambiguous_def)
  have e: "run_unambiguous vals [] es tss" by (simp add: run_unambiguous_def)
  show ?case
  proof (cases "apart vals (acc @ ts)")
    case True
    with 4 4(1) [of "acc @ ts"] 4(1) [of "[]"] e show ?thesis
      by (auto simp: run_unambiguous_Cons seq_unambiguous_Cons split apart_append)
  next
    case False
    with 4 show ?thesis
      by (auto simp: run_unambiguous_Cons seq_unambiguous_Cons apart_append)
  qed
qed (simp_all add: run_unambiguous_def seq_unambiguous_def)

lemma ChkSeqTags_spec:
  assumes "firsts h es tss" "\<forall>ts\<in>set tss. apart vals ts" "basicType t = BASICTYPE_SEQUENCE es"
  shows "\<exists>N. \<forall>n\<ge>N. \<exists>k. ChkSeqTags n vals h t = Some k \<and> (k = 0 \<longleftrightarrow> seq_unambiguous vals es tss)"
proof -
  have "seq_good vals [] es tss \<longleftrightarrow> seq_unambiguous vals es tss"
    using seq_good_unambiguous [OF firsts_length [OF assms(1)] _ assms(2), of "[]"]
    by (simp add: run_unambiguous_def)
  with seq_loop_spec [OF assms(1), of vals] show ?thesis
    by (simp add: ChkSeqTags_def assms(3)) (metis apart_Nil rev.simps(1))
qed

end
