(* ===== verification/Comp_Check.thy ===== *)
theory Comp_Check
  imports Comp_Tags
begin

section \<open>Checking a module (\<open>compiler/core/err-chk.c\<close>)\<close>

text \<open>
  \<open>ErrChkModule\<close> goes through the definitions of a module, prints what is wrong and sets the
  module's status to \<open>MOD_ERROR\<close> for some of it; the compiler stops after the pass when a
  status is set.  A message here is what is printed, without the place; its text says whether
  it is an error or a warning, and the flag with which it is issued whether the status is set.
\<close>

datatype Message =
    TypeMultiplyDefined string
  | ValueMultiplyDefined string
  | ImplicitRefToChoiceOrAny
  | AnyDefinedByInSet
  | AnyDefinedByBeforeId
  | UntaggedOptionalAny
  | UntaggedAnyInSetOrChoice
  | ChoiceTagConflict
  | SetTagConflict
  | SeqTagConflict
  | ImplicitChoice
  | ImplicitAny
  | AnyIdWrongType
  | AnyIdOptional
  | FieldNameTwice string
  | FieldNameInEmbeddedChoice string
  | NamedNumberSameId string
  | NamedNumberNotInteger string
  | NamedNumberSameValue string
  | NamedBitNegative string

text \<open>What begins with \<open>ERROR\<close> when printed.\<close>

fun is_error :: "Message \<Rightarrow> bool" where
  "is_error (TypeMultiplyDefined _) = True"
| "is_error (ValueMultiplyDefined _) = True"
| "is_error ImplicitRefToChoiceOrAny = True"
| "is_error ChoiceTagConflict = True"
| "is_error SetTagConflict = True"
| "is_error SeqTagConflict = True"
| "is_error ImplicitChoice = True"
| "is_error ImplicitAny = True"
| "is_error AnyIdWrongType = True"
| "is_error AnyIdOptional = True"
| "is_error (NamedNumberSameId _) = True"
| "is_error (NamedNumberNotInteger _) = True"
| "is_error (NamedNumberSameValue _) = True"
| "is_error (NamedBitNegative _) = True"
| "is_error _ = False"

record ChkState =
  mod_error :: bool
  errFile :: "Message list"

definition say :: "Message \<Rightarrow> ChkState \<Rightarrow> ChkState" where
  "say msg s = s\<lparr>errFile := errFile s @ [msg]\<rparr>"

definition fail :: "Message \<Rightarrow> ChkState \<Rightarrow> ChkState" where
  "fail msg s = s\<lparr>mod_error := True, errFile := errFile s @ [msg]\<rparr>"

definition say_if :: "bool \<Rightarrow> Message \<Rightarrow> ChkState \<Rightarrow> ChkState" where
  "say_if b msg s = (if b then say msg s else s)"

definition fail_if :: "bool \<Rightarrow> Message \<Rightarrow> ChkState \<Rightarrow> ChkState" where
  "fail_if b msg s = (if b then fail msg s else s)"

subsection \<open>Named numbers\<close>

text \<open>\<open>None\<close>: a value reference that leads round in a circle.\<close>

fun named_loop :: "ValueDefs \<Rightarrow> string list \<Rightarrow> AsnInt list \<Rightarrow> NamedNumberList \<Rightarrow> ChkState \<Rightarrow> ChkState option" where
  "named_loop vals ids nums [] s = Some s"
| "named_loop vals ids nums ((name, v) # n) s =
     (let dup = ObjIsDefined ids name StrObjCmp;
          s1 = say_if dup (NamedNumberSameId name) s;
          ids' = (if dup then ids else DefineObj ids name)
      in obind (GetValue vals v)
           (\<lambda>baseVal. case baseVal of
              BASICVALUE_INTEGER i \<Rightarrow>
                if ObjIsDefined nums i IntObjCmp
                then named_loop vals ids' nums n (say (NamedNumberSameValue name) s1)
                else named_loop vals ids' (DefineObj nums i) n s1
            | _ \<Rightarrow> named_loop vals ids' nums n (say (NamedNumberNotInteger name) s1)))"

definition ChkNamedNumbers :: "ValueDefs \<Rightarrow> NamedNumberList \<Rightarrow> ChkState \<Rightarrow> ChkState option" where
  "ChkNamedNumbers vals n s = named_loop vals [] [] n s"

fun bits_loop :: "ValueDefs \<Rightarrow> NamedNumberList \<Rightarrow> ChkState \<Rightarrow> ChkState option" where
  "bits_loop vals [] s = Some s"
| "bits_loop vals ((name, v) # n) s =
     obind (GetValue vals v)
       (\<lambda>baseVal. bits_loop vals n
          (say_if (case baseVal of BASICVALUE_INTEGER i \<Rightarrow> sint i < 0 | _ \<Rightarrow> False) (NamedBitNegative name) s))"

definition ChkNamedBits :: "ValueDefs \<Rightarrow> NamedNumberList \<Rightarrow> ChkState \<Rightarrow> ChkState option" where
  "ChkNamedBits vals n s = obind (ChkNamedNumbers vals n s) (bits_loop vals n)"

subsection \<open>Field names\<close>

text \<open>The names met so far and the references that are being followed go with the state.
  \<open>own\<close> says whether the list is the parent's own: it is not when the parent is a reference
  to the type that has it, or an object class.  Fuel is spent on a reference.\<close>

type_synonym FieldState = "string list \<times> string list \<times> ChkState"

fun field_name :: "bool \<Rightarrow> string \<Rightarrow> FieldState \<Rightarrow> FieldState" where
  "field_name own name (fieldNames, followedTypeRefs, s) =
     (if ObjIsDefined fieldNames name StrObjCmp
      then (fieldNames, followedTypeRefs,
            say (if own then FieldNameTwice name else FieldNameInEmbeddedChoice name) s)
      else (DefineObj fieldNames name, followedTypeRefs, s))"

fun choice_of :: "BasicType \<Rightarrow> NamedType list option" where
  "choice_of (BASICTYPE_CHOICE es) = Some es"
| "choice_of _ = None"

lemma choice_of_size: "choice_of bt = Some es \<Longrightarrow> size_list size es < size bt"
  by (cases bt) auto

function (sequential) ChkFieldNamesRec ::
    "nat \<Rightarrow> TypeDefs \<Rightarrow> bool \<Rightarrow> NamedType list \<Rightarrow> FieldState \<Rightarrow> FieldState option" where
  "ChkFieldNamesRec n h own [] fs = Some fs"
| "ChkFieldNamesRec n h own (NamedType a (Some name) t # elmts) fs =
     ChkFieldNamesRec n h own elmts (field_name own name fs)"
| "ChkFieldNamesRec n h own (NamedType a None (Type opt impl tgs dflt ci cxi bt) # elmts) (names, followed, s) =
     (case ref_of bt of
        Some r \<Rightarrow>
          (case choice_of (basicType (ParanoidGetType h (Type opt impl tgs dflt ci cxi bt))) of
             Some es \<Rightarrow>
               if \<not> ObjIsDefined followed (typeName r) StrObjCmp then
                 (case n of
                    0 \<Rightarrow> None
                  | Suc n' \<Rightarrow>
                      (case ChkFieldNamesRec n' h False es (names, DefineObj followed (typeName r), s) of
                         None \<Rightarrow> None
                       | Some (names', followed', s') \<Rightarrow>
                           ChkFieldNamesRec n h own elmts
                             (names', UndefineObj followed' (typeName r) StrObjCmp, s')))
               else ChkFieldNamesRec n h own elmts (names, followed, s)
           | None \<Rightarrow> ChkFieldNamesRec n h own elmts (names, followed, s))
      | None \<Rightarrow>
          (case choice_of bt of
             Some es \<Rightarrow>
               (case ChkFieldNamesRec n h True es (names, followed, s) of
                  None \<Rightarrow> None
                | Some fs' \<Rightarrow> ChkFieldNamesRec n h own elmts fs')
           | None \<Rightarrow> ChkFieldNamesRec n h own elmts (names, followed, s)))"
  by pat_completeness auto
termination
  by (relation "measures [\<lambda>(n, _). n, \<lambda>(_, _, _, es, _). size_list size es]")
    (auto dest: choice_of_size)

definition ChkFieldNames :: "nat \<Rightarrow> TypeDefs \<Rightarrow> nat \<Rightarrow> bool \<Rightarrow> NamedType list \<Rightarrow> ChkState \<Rightarrow> ChkState option" where
  "ChkFieldNames n h td own elmts s =
     map_option (\<lambda>(_, _, s'). s') (ChkFieldNamesRec n h own elmts ([], [definedName (h ! td)], s))"

subsection \<open>Types\<close>

text \<open>The index of an element in a list, by its address; \<open>None\<close> is the address of something
  that is not an element of any list.\<close>

fun elmt_index :: "int \<Rightarrow> nat option \<Rightarrow> NamedType list \<Rightarrow> int" where
  "elmt_index i elmt [] = -1"
| "elmt_index i elmt (e # es) = (if elmt = Some (ntAddr e) then i else elmt_index (i + 1) elmt es)"

definition GetNamedTypeIndex :: "nat option \<Rightarrow> NamedType list \<Rightarrow> int" where
  "GetNamedTypeIndex elmt es = elmt_index 0 elmt es"

fun sequence_of :: "Type option \<Rightarrow> NamedType list option" where
  "sequence_of (Some (Type opt impl tgs dflt ci cxi (BASICTYPE_SEQUENCE es))) = Some es"
| "sequence_of _ = None"

definition parent_id :: "Type option \<Rightarrow> nat option" where
  "parent_id parent = map_option (\<lambda>p. choiceId (basicType p)) parent"

text \<open>The element \<open>tnt\<close> that has the type is the last of the SEQUENCE.\<close>

definition is_last :: "NamedType option \<Rightarrow> NamedType list \<Rightarrow> bool" where
  "is_last tnt es = (map_option ntAddr tnt = Some (ntAddr (last es)))"

text \<open>An optional type without tags; \<open>CountTags\<close> is called last.\<close>

definition no_tags_when :: "bool \<Rightarrow> nat \<Rightarrow> TypeDefs \<Rightarrow> Type \<Rightarrow> bool option" where
  "no_tags_when b n h t = (if b then map_option (\<lambda>k. k = 0) (CountTags n h t) else Some False)"

text \<open>A reference.  The check of the order in a SEQUENCE reads \<open>a.anyDefinedBy->link\<close> of what
  is a \<open>TypeRef\<close>: it compares with the address of the module name, which is no element.\<close>

definition ErrChkRef ::
    "nat \<Rightarrow> TypeDefs \<Rightarrow> Type option \<Rightarrow> NamedType option \<Rightarrow> Type \<Rightarrow> TypeRef \<Rightarrow> ChkState \<Rightarrow> ChkState option" where
  "ErrChkRef n h parent tnt type r s =
     (let refdTypeId = ParanoidGetBuiltinType h type in
      obind
        (if implicit type \<and> refdTypeId \<in> {13, 16, 17}
         then (case ref_link h r of
                 None \<Rightarrow> None
               | Some d \<Rightarrow> map_option (\<lambda>k. fail_if (k = 0) ImplicitRefToChoiceOrAny s) (CountTags n h (tdtype h d)))
         else Some s)
        (\<lambda>s.
           if parent \<noteq> None \<and> refdTypeId \<in> {16, 17} then
             (let s1 = say_if (refdTypeId = 17 \<and> parent_id parent = Some 11) AnyDefinedByInSet s;
                  s2 = (case (tnt, sequence_of parent) of
                          (Some e, Some es) \<Rightarrow>
                            say_if (refdTypeId = 17 \<and>
                                GetNamedTypeIndex (Some (ntAddr e)) es < GetNamedTypeIndex None es)
                              AnyDefinedByBeforeId s1
                        | _ \<Rightarrow> s1)
              in (case sequence_of parent of
                    None \<Rightarrow> Some s2
                  | Some es \<Rightarrow>
                      map_option (\<lambda>b. say_if b UntaggedOptionalAny s2)
                        (no_tags_when (\<not> is_last tnt es \<and> optional type) n h type)))
           else Some s))"

text \<open>\<open>ANY\<close>, and the end of \<open>ANY DEFINED BY\<close>.\<close>

definition ErrChkAny ::
    "nat \<Rightarrow> TypeDefs \<Rightarrow> Type option \<Rightarrow> NamedType option \<Rightarrow> Type \<Rightarrow> ChkState \<Rightarrow> ChkState option" where
  "ErrChkAny n h parent tnt type s =
     (let s1 = fail_if (tags type = [] \<and> implicit type) ImplicitAny s in
      if parent = None then Some s1
      else
        obind
          (no_tags_when
             (\<not> (case sequence_of parent of Some es \<Rightarrow> is_last tnt es | None \<Rightarrow> False) \<and> optional type) n h type)
          (\<lambda>b.
             let s2 = say_if b UntaggedOptionalAny s1 in
             map_option (\<lambda>b. say_if b UntaggedAnyInSetOrChoice s2)
               (no_tags_when (parent_id parent \<in> {Some 11, Some 13}) n h type)))"

definition any_id_type :: "Type \<Rightarrow> bool" where
  "any_id_type t \<longleftrightarrow> choiceId (basicType t) \<in> {2, 8, 6, 39}"

definition ErrChkAnyDefinedBy ::
    "nat \<Rightarrow> TypeDefs \<Rightarrow> Type option \<Rightarrow> NamedType option \<Rightarrow> Type \<Rightarrow> NamedType \<Rightarrow> ChkState \<Rightarrow> ChkState option" where
  "ErrChkAnyDefinedBy n h parent tnt type lnk s =
     obind (ResolveImportedType h (ntType lnk))
       (\<lambda>refdType.
          let s1 =
                (if any_id_type refdType then s
                 else (case choice_of (basicType refdType) of
                         Some es \<Rightarrow> foldl (\<lambda>s nt2. fail_if (\<not> any_id_type (ntType nt2)) AnyIdWrongType s) s es
                       | None \<Rightarrow> fail AnyIdWrongType s));
              s2 = fail_if (optional (ntType lnk)) AnyIdOptional s1;
              s3 = say_if (parent_id parent = Some 11) AnyDefinedByInSet s2;
              s4 = (case (tnt, sequence_of parent) of
                      (Some e, Some es) \<Rightarrow>
                        say_if (GetNamedTypeIndex (Some (ntAddr e)) es < GetNamedTypeIndex (Some (ntAddr lnk)) es)
                          AnyDefinedByBeforeId s3
                    | _ \<Rightarrow> s3)
          in ErrChkAny n h parent tnt type s4)"

text \<open>\<open>isTop\<close>: the type is the one of the definition.\<close>

function (sequential) ErrChkType ::
    "nat \<Rightarrow> ValueDefs \<Rightarrow> TypeDefs \<Rightarrow> nat \<Rightarrow> bool \<Rightarrow> Type option \<Rightarrow> NamedType option \<Rightarrow> Type \<Rightarrow> ChkState \<Rightarrow> ChkState option"
  and ErrChkElmts ::
    "nat \<Rightarrow> ValueDefs \<Rightarrow> TypeDefs \<Rightarrow> nat \<Rightarrow> Type \<Rightarrow> NamedType list \<Rightarrow> ChkState \<Rightarrow> ChkState option" where
  "ErrChkType n vals h td isTop parent tnt (Type opt impl tgs dflt ci cxi bt) s =
     (let type = Type opt impl tgs dflt ci cxi bt;
          fields = (\<lambda>own es s. if isTop then ChkFieldNames n h td own es s else Some s)
      in case bt of
        BASICTYPE_LOCALTYPEREF r \<Rightarrow> ErrChkRef n h parent tnt type r s
      | BASICTYPE_IMPORTTYPEREF r \<Rightarrow> ErrChkRef n h parent tnt type r s
      | BASICTYPE_INTEGER nn \<Rightarrow> ChkNamedNumbers vals nn s
      | BASICTYPE_ENUMERATED nn \<Rightarrow> ChkNamedNumbers vals nn s
      | BASICTYPE_BITSTRING nn \<Rightarrow> ChkNamedBits vals nn s
      | BASICTYPE_SEQUENCEOF t \<Rightarrow> ErrChkType n vals h td False (Some type) None t s
      | BASICTYPE_SETOF t \<Rightarrow> ErrChkType n vals h td False (Some type) None t s
      | BASICTYPE_SEQUENCE es \<Rightarrow>
          (case fields True es s of
             None \<Rightarrow> None
           | Some s1 \<Rightarrow>
               (case ErrChkElmts n vals h td type es s1 of
                  None \<Rightarrow> None
                | Some s2 \<Rightarrow> map_option (\<lambda>k. (fail SeqTagConflict ^^ k) s2) (ChkSeqTags n vals h type)))
      | BASICTYPE_OBJECTCLASS es \<Rightarrow>
          (case fields False es s of
             None \<Rightarrow> None
           | Some s1 \<Rightarrow>
               (case ErrChkElmts n vals h td type es s1 of
                  None \<Rightarrow> None
                | Some s2 \<Rightarrow> map_option (\<lambda>k. (fail SeqTagConflict ^^ k) s2) (ChkSeqTags n vals h type)))
      | BASICTYPE_CHOICE es \<Rightarrow>
          (case HasDistinctTags n vals h es of
             None \<Rightarrow> None
           | Some b \<Rightarrow>
               (case fields True es
                       (fail_if (tgs = [] \<and> impl) ImplicitChoice (fail_if (\<not> b) ChoiceTagConflict s)) of
                  None \<Rightarrow> None
                | Some s1 \<Rightarrow> ErrChkElmts n vals h td type es s1))
      | BASICTYPE_ANYDEFINEDBY nm lnk \<Rightarrow> ErrChkAnyDefinedBy n h parent tnt type lnk s
      | Plain p \<Rightarrow> if p = BASICTYPE_ANY then ErrChkAny n h parent tnt type s else Some s
      | BASICTYPE_SET es \<Rightarrow>
          (case HasDistinctTags n vals h es of
             None \<Rightarrow> None
           | Some b \<Rightarrow>
               (case fields True es (fail_if (\<not> b) SetTagConflict s) of
                  None \<Rightarrow> None
                | Some s1 \<Rightarrow> ErrChkElmts n vals h td type es s1))
      | _ \<Rightarrow> Some s)"
| "ErrChkElmts n vals h td parent [] s = Some s"
| "ErrChkElmts n vals h td parent (NamedType a nm t # es) s =
     (case ErrChkType n vals h td False (Some parent) (Some (NamedType a nm t)) t s of
        None \<Rightarrow> None | Some s' \<Rightarrow> ErrChkElmts n vals h td parent es s')"
  by pat_completeness auto
termination
  by (relation "measure
       (\<lambda>x. case x of Inl (_, _, _, _, _, _, _, t, _) \<Rightarrow> size t | Inr (_, _, _, _, _, es, _) \<Rightarrow> size_list size es)")
     auto

definition ErrChkTypeDef :: "nat \<Rightarrow> ValueDefs \<Rightarrow> TypeDefs \<Rightarrow> nat \<Rightarrow> ChkState \<Rightarrow> ChkState option" where
  "ErrChkTypeDef n vals h td s = ErrChkType n vals h td True None None (tdtype h td) s"

subsection \<open>Modules\<close>

text \<open>Values are checked by their names only: \<open>ErrChkValue\<close> is empty.\<close>

record Module =
  typeDefs :: "nat list"
  valueDefs :: "string list"
  importLists :: "ImportElmt list list"

definition define_name :: "(string \<Rightarrow> Message) \<Rightarrow> string \<Rightarrow> string list \<times> ChkState \<Rightarrow> string list \<times> ChkState" where
  "define_name msg name ns =
     (case ns of (names, s) \<Rightarrow>
        if ObjIsDefined names name StrObjCmp then (names, fail (msg name) s) else (DefineObj names name, s))"

fun chk_typeDefs :: "nat \<Rightarrow> ValueDefs \<Rightarrow> TypeDefs \<Rightarrow> nat list \<Rightarrow> string list \<times> ChkState \<Rightarrow> (string list \<times> ChkState) option" where
  "chk_typeDefs n vals h [] ns = Some ns"
| "chk_typeDefs n vals h (td # tds) ns =
     (case define_name TypeMultiplyDefined (definedName (h ! td)) ns of
        (names, s) \<Rightarrow> obind (ErrChkTypeDef n vals h td s) (\<lambda>s'. chk_typeDefs n vals h tds (names, s')))"

definition chk_imports :: "(char \<Rightarrow> bool) \<Rightarrow> (string \<Rightarrow> Message) \<Rightarrow> ImportElmt list list \<Rightarrow> string list \<times> ChkState \<Rightarrow> string list \<times> ChkState" where
  "chk_imports p msg imps ns =
     foldl (\<lambda>ns e. if \<not> privateScope e \<and> starts p (importName e) then define_name msg (importName e) ns else ns)
       ns (concat imps)"

definition ErrChkModule :: "nat \<Rightarrow> ValueDefs \<Rightarrow> TypeDefs \<Rightarrow> Module \<Rightarrow> ChkState \<Rightarrow> ChkState option" where
  "ErrChkModule n vals h m s =
     obind (chk_typeDefs n vals h (typeDefs m) ([], s))
       (\<lambda>ns.
          let (typeNames, s1) = chk_imports isupper TypeMultiplyDefined (importLists m) ns;
              ns2 = foldl (\<lambda>ns v. define_name ValueMultiplyDefined v ns) ([], s1) (valueDefs m);
              (valueNames, s3) = chk_imports islower ValueMultiplyDefined (importLists m) ns2
          in Some s3)"

subsection \<open>The status and the messages\<close>

text \<open>The messages that set the status: all errors but those about named numbers.\<close>

fun stops :: "Message \<Rightarrow> bool" where
  "stops (NamedNumberSameId _) = False"
| "stops (NamedNumberNotInteger _) = False"
| "stops (NamedNumberSameValue _) = False"
| "stops (NamedBitNegative _) = False"
| "stops m = is_error m"

definition extends :: "ChkState \<Rightarrow> ChkState \<Rightarrow> bool" where
  "extends s s' \<longleftrightarrow>
     (\<exists>ms. errFile s' = errFile s @ ms \<and> (mod_error s' \<longleftrightarrow> mod_error s \<or> (\<exists>m\<in>set ms. stops m)))"

lemma extends_refl [simp]: "extends s s"
  by (simp add: extends_def)

lemma extends_trans: "extends s s' \<Longrightarrow> extends s' s'' \<Longrightarrow> extends s s''"
  unfolding extends_def by (elim exE) (auto simp: bex_Un)

lemma extends_say [simp]: "\<not> stops m \<Longrightarrow> extends s (say m s)"
  by (simp add: extends_def say_def)

lemma extends_fail [simp]: "stops m \<Longrightarrow> extends s (fail m s)"
  by (simp add: extends_def fail_def)

lemma extends_say_if [simp]: "\<not> stops m \<Longrightarrow> extends s (say_if b m s)"
  by (simp add: say_if_def)

lemma extends_fail_if [simp]: "stops m \<Longrightarrow> extends s (fail_if b m s)"
  by (simp add: fail_if_def)

lemma extends_error: "extends s s' \<Longrightarrow> mod_error s \<Longrightarrow> mod_error s'"
  by (auto simp: extends_def)

lemma extends_fails: "stops m \<Longrightarrow> extends s ((fail m ^^ k) s)"
  by (induction k) (auto intro: extends_trans)

lemma extends_foldl:
  "(\<And>s x. extends s (f s x)) \<Longrightarrow> extends s (foldl f s xs)"
  by (induction xs arbitrary: s) (auto intro: extends_trans)

text \<open>A pass that only adds messages.\<close>

definition adding :: "(ChkState \<Rightarrow> ChkState option) \<Rightarrow> bool" where
  "adding f \<longleftrightarrow> (\<forall>s s'. f s = Some s' \<longrightarrow> extends s s')"

lemma addingD: "adding f \<Longrightarrow> f s = Some s' \<Longrightarrow> extends s s'"
  by (simp add: adding_def)

lemma named_loop_extends: "named_loop vals ids nums n s = Some s' \<Longrightarrow> extends s s'"
proof (induction n arbitrary: ids nums s)
  case (Cons x n)
  obtain name v where x: "x = (name, v)" by (cases x)
  let ?s = "say_if (ObjIsDefined ids name StrObjCmp) (NamedNumberSameId name) s"
  have s: "extends s ?s" "extends s (say (NamedNumberSameValue name) ?s)"
    "extends s (say (NamedNumberNotInteger name) ?s)"
    by (auto intro: extends_trans [of s ?s])
  from Cons.prems x obtain bv where bv: "GetValue vals v = Some bv" by (auto simp: Let_def obind_Some)
  have "\<exists>ids' nums' sx. named_loop vals ids' nums' n sx = Some s' \<and> extends s sx"
  proof (cases bv)
    case (BASICVALUE_INTEGER i)
    show ?thesis
      by (cases "ObjIsDefined nums i IntObjCmp")
        (use Cons.prems x bv BASICVALUE_INTEGER s in \<open>simp add: Let_def del: extends_say_if, blast\<close>)+
  qed (use Cons.prems x bv s in \<open>simp add: Let_def del: extends_say_if, blast\<close>)+
  with Cons.IH show ?case by (blast intro: extends_trans)
qed simp

lemma bits_loop_extends: "bits_loop vals n s = Some s' \<Longrightarrow> extends s s'"
proof (induction n arbitrary: s)
  case (Cons x n)
  obtain name v where x: "x = (name, v)" by (cases x)
  with Cons.prems obtain b where "bits_loop vals n (say_if b (NamedBitNegative name) s) = Some s'"
    by (auto simp: obind_Some)
  from Cons.IH [OF this] show ?case by (rule extends_trans [OF extends_say_if, rotated]) simp
qed simp

lemma ChkNamed_extends:
  "ChkNamedNumbers vals n s = Some s' \<Longrightarrow> extends s s'"
  "ChkNamedBits vals n s = Some s' \<Longrightarrow> extends s s'"
  by (auto simp: ChkNamedNumbers_def ChkNamedBits_def obind_Some
      intro: named_loop_extends bits_loop_extends extends_trans)

lemma field_name_extends:
  "extends (snd (snd fs)) (snd (snd (field_name own name fs)))"
  by (cases fs) auto

lemma ChkFieldNamesRec_extends:
  "ChkFieldNamesRec n h own elmts fs = Some fs' \<Longrightarrow> extends (snd (snd fs)) (snd (snd fs'))"
proof (induction n h own elmts fs arbitrary: fs' rule: ChkFieldNamesRec.induct)
  case (2 n h own a name t elmts fs)
  then show ?case using field_name_extends [of fs own name] by (auto intro: extends_trans)
next
  case (3 n h own a opt impl tgs dflt ci cxi bt elmts names followed s)
  note IH = "3.IH"
  let ?t = "Type opt impl tgs dflt ci cxi bt"
  show ?case
  proof (cases "ref_of bt")
    case None
    show ?thesis
    proof (cases "choice_of bt")
      case n: None
      from "3.prems" None n IH(1) [OF None n] show ?thesis by simp
    next
      case (Some es)
      with "3.prems" None obtain fs1 where f: "ChkFieldNamesRec n h True es (names, followed, s) = Some fs1"
        "ChkFieldNamesRec n h own elmts fs1 = Some fs'" by (auto split: option.splits)
      from IH(2) [OF None Some f(1)] IH(3) [OF None Some f] show ?thesis by (auto intro: extends_trans)
    qed
  next
    case r: (Some r)
    show ?thesis
    proof (cases "choice_of (basicType (ParanoidGetType h ?t))")
      case c: None
      from "3.prems" r c IH(4) [OF r c] show ?thesis by simp
    next
      case c: (Some es)
      show ?thesis
      proof (cases "ObjIsDefined followed (typeName r) StrObjCmp")
        case True
        with "3.prems" r c IH(7) [OF r c] show ?thesis by simp
      next
        case False
        with "3.prems" r c obtain n' nm1 fo1 s1 where n': "n = Suc n'"
          and f: "ChkFieldNamesRec n' h False es (names, DefineObj followed (typeName r), s) = Some (nm1, fo1, s1)"
            "ChkFieldNamesRec n h own elmts (nm1, UndefineObj fo1 (typeName r) StrObjCmp, s1) = Some fs'"
          by (auto split: option.splits nat.splits)
        from IH(5) [OF r c False n' f(1)] IH(6) [OF r c False n' f(1) refl refl f(2)]
        show ?thesis by (auto intro: extends_trans)
      qed
    qed
  qed
qed simp

lemma ChkFieldNames_extends: "ChkFieldNames n h td own es s = Some s' \<Longrightarrow> extends s s'"
  using ChkFieldNamesRec_extends by (fastforce simp: ChkFieldNames_def)

text \<open>One message more, to the right.\<close>

lemma extends_more:
  "extends s s' \<Longrightarrow> \<not> stops m \<Longrightarrow> extends s (say m s')"
  "extends s s' \<Longrightarrow> \<not> stops m \<Longrightarrow> extends s (say_if b m s')"
  "extends s s' \<Longrightarrow> stops m \<Longrightarrow> extends s (fail m s')"
  "extends s s' \<Longrightarrow> stops m \<Longrightarrow> extends s (fail_if b m s')"
  "extends s s' \<Longrightarrow> stops m \<Longrightarrow> extends s ((fail m ^^ k) s')"
  by (auto intro: extends_trans extends_fails)

lemma extends_before: "extends (fail_if b m s) s' \<Longrightarrow> stops m \<Longrightarrow> extends s s'"
  by (rule extends_trans [OF extends_fail_if])

lemma ErrChkRef_extends:
  assumes e: "ErrChkRef n h parent tnt type r s = Some s'"
  shows "extends s s'"
proof -
  from e obtain s1 where s1: "s1 = s \<or> (\<exists>b. s1 = fail_if b ImplicitRefToChoiceOrAny s)"
    and r: "s' = s1 \<or> (\<exists>b s2 c. (s2 = say_if b AnyDefinedByInSet s1 \<or>
         (\<exists>d. s2 = say_if d AnyDefinedByBeforeId (say_if b AnyDefinedByInSet s1))) \<and>
       (s' = s2 \<or> s' = say_if c UntaggedOptionalAny s2))"
    unfolding ErrChkRef_def Let_def obind_Some
    by (auto split: if_splits option.splits)
  from s1 have "extends s s1" by auto
  with r show ?thesis by (elim disjE exE conjE) (auto intro!: extends_more)
qed

lemma ErrChkAny_extends:
  assumes e: "ErrChkAny n h parent tnt type s = Some s'"
  shows "extends s s'"
proof -
  from e have "\<exists>a b c. s' = fail_if a ImplicitAny s \<or>
     s' = say_if c UntaggedAnyInSetOrChoice (say_if b UntaggedOptionalAny (fail_if a ImplicitAny s))"
    unfolding ErrChkAny_def Let_def obind_Some by (auto simp: obind_Some split: if_splits)
  then show ?thesis by (elim exE disjE) (auto intro!: extends_more)
qed

lemma ErrChkAnyDefinedBy_extends:
  assumes e: "ErrChkAnyDefinedBy n h parent tnt type lnk s = Some s'"
  shows "extends s s'"
proof -
  from e obtain rt where e: "Let (if any_id_type rt then s
       else (case choice_of (basicType rt) of
               Some es \<Rightarrow> foldl (\<lambda>s nt2. fail_if (\<not> any_id_type (ntType nt2)) AnyIdWrongType s) s es
             | None \<Rightarrow> fail AnyIdWrongType s)) (\<lambda>s1.
          let s2 = fail_if (optional (ntType lnk)) AnyIdOptional s1;
              s3 = say_if (parent_id parent = Some 11) AnyDefinedByInSet s2;
              s4 = (case (tnt, sequence_of parent) of
                      (Some e, Some es) \<Rightarrow>
                        say_if (GetNamedTypeIndex (Some (ntAddr e)) es < GetNamedTypeIndex (Some (ntAddr lnk)) es)
                          AnyDefinedByBeforeId s3
                    | _ \<Rightarrow> s3)
          in ErrChkAny n h parent tnt type s4) = Some s'" (is "Let ?s1 _ = _")
    unfolding ErrChkAnyDefinedBy_def obind_Some by blast
  define s1 where "s1 = ?s1"
  have f: "extends s (foldl (\<lambda>s nt2. fail_if (\<not> any_id_type (ntType nt2)) AnyIdWrongType s) s es)" for es
    by (rule extends_foldl) simp
  have s1: "extends s s1" unfolding s1_def by (auto split: option.splits simp: f)
  define s3 where "s3 = say_if (parent_id parent = Some 11) AnyDefinedByInSet (fail_if (optional (ntType lnk)) AnyIdOptional s1)"
  have s3: "extends s s3" unfolding s3_def using s1 by (auto intro!: extends_more)
  from e have "\<exists>b s4. (s4 = s3 \<or> s4 = say_if b AnyDefinedByBeforeId s3) \<and> ErrChkAny n h parent tnt type s4 = Some s'"
    unfolding s1_def [symmetric] Let_def s3_def [symmetric] by (auto split: option.splits)
  then obtain s4 where "extends s s4" "ErrChkAny n h parent tnt type s4 = Some s'"
    using s3 extends_more(2) [OF s3, of AnyDefinedByBeforeId] by fastforce
  then show ?thesis by (blast intro: extends_trans ErrChkAny_extends)
qed

text \<open>By induction on the type: what holds of the elements' types holds of the list.\<close>

lemma ErrChkElmts_extends:
  assumes "\<And>e parent tnt s s'. e \<in> set es \<Longrightarrow>
      ErrChkType n vals h td False parent tnt (ntType e) s = Some s' \<Longrightarrow> extends s s'"
  shows "ErrChkElmts n vals h td parent es s = Some s' \<Longrightarrow> extends s s'"
  using assms
proof (induction es arbitrary: s)
  case (Cons e es)
  obtain a nm t where e: "e = NamedType a nm t" by (cases e)
  with Cons.prems(1) obtain s1 where
    "ErrChkType n vals h td False (Some parent) (Some e) t s = Some s1"
    "ErrChkElmts n vals h td parent es s1 = Some s'"
    by (auto split: option.splits)
  moreover have "extends s s1" using Cons.prems(2) [of e] e calculation(1) by simp
  moreover have "extends s1 s'" by (rule Cons.IH [OF calculation(2)], rule Cons.prems(2)) auto
  ultimately show ?case by (blast intro: extends_trans)
qed simp

text \<open>The types a type is made of.\<close>

fun parts :: "BasicType \<Rightarrow> Type list" where
  "parts (BASICTYPE_SEQUENCE es) = map ntType es"
| "parts (BASICTYPE_SET es) = map ntType es"
| "parts (BASICTYPE_CHOICE es) = map ntType es"
| "parts (BASICTYPE_OBJECTCLASS es) = map ntType es"
| "parts (BASICTYPE_SEQUENCEOF t) = [t]"
| "parts (BASICTYPE_SETOF t) = [t]"
| "parts _ = []"

lemma ntType_size: "size (ntType e) < size e"
  by (cases e) simp

lemma elmt_size: "e \<in> set es \<Longrightarrow> size (ntType e) < Suc (size_list size es)"
  using ntType_size [of e] by (induction es) (auto simp: less_Suc_eq)

lemma parts_size: "u \<in> set (parts bt) \<Longrightarrow> size u < size bt"
  by (cases bt) (auto dest: elmt_size)

lemma parts_induct:
  assumes "\<And>t. (\<And>u. u \<in> set (parts (basicType t)) \<Longrightarrow> P u) \<Longrightarrow> P t"
  shows "P t"
proof (induction t rule: measure_induct_rule [where f = size])
  case (less t)
  show ?case
  proof (rule assms, rule less)
    fix u assume "u \<in> set (parts (basicType t))"
    then show "size u < size t" using parts_size by (cases t) fastforce
  qed
qed

lemma ErrChkType_extends:
  "ErrChkType n vals h td isTop parent tnt t s = Some s' \<Longrightarrow> extends s s'"
proof (induction t arbitrary: isTop parent tnt s s' rule: parts_induct)
  case (1 t)
  obtain opt impl tgs dflt ci cxi bt where t: "t = Type opt impl tgs dflt ci cxi bt" by (cases t)
  note IH = "1.IH" [unfolded t Type.sel]
  have elmts: "extends s1 s2" if "ErrChkElmts n vals h td p es s1 = Some s2" "parts bt = map ntType es" for p es s1 s2
  proof (rule ErrChkElmts_extends [OF _ that(1)])
    fix e parent tnt s s'
    assume e: "e \<in> set es" and c: "ErrChkType n vals h td False parent tnt (ntType e) s = Some s'"
    show "extends s s'" by (rule IH [OF _ c]) (simp add: that(2) e)
  qed
  note p = "1.prems" [unfolded t]
  show ?case
  proof (cases bt)
    case (BASICTYPE_SEQUENCE es)
    with p show ?thesis
      by (auto simp: Let_def split: option.splits if_splits
          intro!: extends_more intro: extends_trans
          dest!: elmts ChkFieldNames_extends extends_before)
  next
    case (BASICTYPE_OBJECTCLASS es)
    with p show ?thesis
      by (auto simp: Let_def split: option.splits if_splits
          intro!: extends_more intro: extends_trans
          dest!: elmts ChkFieldNames_extends extends_before)
  next
    case (BASICTYPE_SET es)
    with p show ?thesis
      by (auto simp: Let_def split: option.splits if_splits intro: extends_trans
          dest!: elmts ChkFieldNames_extends extends_before)
  next
    case (BASICTYPE_CHOICE es)
    with p show ?thesis
      by (auto simp: Let_def split: option.splits if_splits intro: extends_trans
          dest!: elmts ChkFieldNames_extends extends_before)
  next
    case (BASICTYPE_SEQUENCEOF u)
    with p IH [of u] show ?thesis by simp
  next
    case (BASICTYPE_SETOF u)
    with p IH [of u] show ?thesis by simp
  next
    case (Plain p')
    with p show ?thesis by (auto split: if_splits dest: ErrChkAny_extends)
  qed (use p in \<open>auto dest: ErrChkRef_extends ErrChkAny_extends ErrChkAnyDefinedBy_extends ChkNamed_extends\<close>)
qed

lemma extends_ok: "extends s s' \<Longrightarrow> \<not> mod_error s' \<Longrightarrow> \<not> mod_error s"
  by (auto simp: extends_def)

lemma define_name_extends:
  assumes "define_name msg name (names, s) = (names', s')" "\<And>v. stops (msg v)"
  shows "extends s s'"
    and "\<not> mod_error s' \<Longrightarrow> name \<notin> set names \<and> names' = name # names"
  using assms by (auto simp: define_name_def ObjIsDefined_iff DefineObj_def fail_def StrObjCmp_def split: if_splits
      intro!: extends_fail [unfolded fail_def])

lemma define_names:
  assumes "foldl (\<lambda>ns v. define_name msg v ns) (names, s) vs = (names', s')" "\<And>v. stops (msg v)"
  shows "extends s s' \<and>
    (\<not> mod_error s' \<longrightarrow> distinct vs \<and> set vs \<inter> set names = {} \<and> set names' = set names \<union> set vs)"
  using assms(1)
proof (induction vs arbitrary: names s)
  case (Cons v vs)
  obtain n1 s1 where d: "define_name msg v (names, s) = (n1, s1)" by fastforce
  note d' = define_name_extends [OF d assms(2)]
  have r: "extends s1 s' \<and>
      (\<not> mod_error s' \<longrightarrow> distinct vs \<and> set vs \<inter> set n1 = {} \<and> set names' = set n1 \<union> set vs)"
    by (rule Cons.IH) (use Cons.prems d in simp)
  show ?case
  proof (cases "mod_error s'")
    case True
    with d'(1) r show ?thesis by (auto intro: extends_trans)
  next
    case False
    with r have "\<not> mod_error s1" by (auto dest: extends_ok)
    from d'(2) [OF this] d'(1) r False show ?thesis by (auto intro: extends_trans)
  qed
qed simp

text \<open>The imported names that \<open>p\<close> picks.\<close>

definition picked :: "(char \<Rightarrow> bool) \<Rightarrow> ImportElmt list list \<Rightarrow> string list" where
  "picked p imps = map importName (filter (\<lambda>e. \<not> privateScope e \<and> starts p (importName e)) (concat imps))"

lemma chk_imports_picked:
  "chk_imports p msg imps ns = foldl (\<lambda>ns v. define_name msg v ns) ns (picked p imps)"
proof -
  have "foldl (\<lambda>ns e. if \<not> privateScope e \<and> starts p (importName e) then define_name msg (importName e) ns else ns) ns es =
      foldl (\<lambda>ns v. define_name msg v ns) ns
        (map importName (filter (\<lambda>e. \<not> privateScope e \<and> starts p (importName e)) es))" for es
    by (induction es arbitrary: ns) auto
  then show ?thesis by (simp add: chk_imports_def picked_def)
qed

definition passes :: "nat \<Rightarrow> ValueDefs \<Rightarrow> TypeDefs \<Rightarrow> nat \<Rightarrow> bool" where
  "passes n vals h td \<longleftrightarrow> (\<exists>s s'. ErrChkTypeDef n vals h td s = Some s' \<and> \<not> mod_error s')"

lemma passesI: "ErrChkTypeDef n vals h td s = Some s' \<Longrightarrow> \<not> mod_error s' \<Longrightarrow> passes n vals h td"
  by (auto simp: passes_def)

lemma chk_typeDefs_ok:
  assumes "chk_typeDefs n vals h tds (names, s) = Some (names', s')"
  shows "extends s s' \<and>
     (\<not> mod_error s' \<longrightarrow>
        distinct (map (\<lambda>td. definedName (h ! td)) tds) \<and>
        (\<lambda>td. definedName (h ! td)) ` set tds \<inter> set names = {} \<and>
        set names' = set names \<union> (\<lambda>td. definedName (h ! td)) ` set tds \<and>
        (\<forall>td\<in>set tds. passes n vals h td))"
  using assms
proof (induction tds arbitrary: names s)
  case (Cons d tds)
  obtain n1 s1 where d: "define_name TypeMultiplyDefined (definedName (h ! d)) (names, s) = (n1, s1)" by fastforce
  have "stops (TypeMultiplyDefined v)" for v by simp
  note d' = define_name_extends [OF d this]
  from Cons.prems d obtain s2 where c: "ErrChkTypeDef n vals h d s1 = Some s2"
    "chk_typeDefs n vals h tds (n1, s2) = Some (names', s')" by (auto simp: obind_Some)
  note e = ErrChkType_extends [OF c(1) [unfolded ErrChkTypeDef_def]]
  note r = Cons.IH [OF c(2)]
  show ?case
  proof (cases "mod_error s'")
    case True
    with d'(1) e r show ?thesis by (auto intro: extends_trans)
  next
    case False
    with r have s2: "\<not> mod_error s2" by (auto dest: extends_ok)
    with e have "\<not> mod_error s1" by (auto dest: extends_ok)
    from d'(2) [OF this] have n1: "definedName (h ! d) \<notin> set names" "n1 = definedName (h ! d) # names" by auto
    from r False have f: "distinct (map (\<lambda>td. definedName (h ! td)) tds)"
      "(\<lambda>td. definedName (h ! td)) ` set tds \<inter> set n1 = {}"
      "set names' = set n1 \<union> (\<lambda>td. definedName (h ! td)) ` set tds"
      "\<forall>td\<in>set tds. passes n vals h td" by blast+
    have "extends s s'" by (rule extends_trans [OF d'(1) extends_trans [OF e]]) (use r in blast)
    moreover have "distinct (map (\<lambda>td. definedName (h ! td)) (d # tds))" using f(1,2) n1 by auto
    moreover have "(\<lambda>td. definedName (h ! td)) ` set (d # tds) \<inter> set names = {}" using f(2) n1 by auto
    moreover have "set names' = set names \<union> (\<lambda>td. definedName (h ! td)) ` set (d # tds)"
      unfolding f(3) n1(2) by simp
    moreover have "\<forall>td\<in>set (d # tds). passes n vals h td" using f(4) passesI [OF c(1) s2] by simp
    ultimately show ?thesis by blast
  qed
qed simp

theorem ErrChkModule_extends:
  assumes "ErrChkModule n vals h m s = Some s'"
  shows "extends s s' \<and>
     (\<not> mod_error s' \<longrightarrow>
        distinct (map (\<lambda>td. definedName (h ! td)) (typeDefs m) @ picked isupper (importLists m)) \<and>
        distinct (valueDefs m @ picked islower (importLists m)) \<and>
        (\<forall>td\<in>set (typeDefs m). passes n vals h td))"
proof -
  from assms obtain n1 s1 where c1: "chk_typeDefs n vals h (typeDefs m) ([], s) = Some (n1, s1)"
    unfolding ErrChkModule_def obind_Some by auto
  obtain n2 s2 where c2: "chk_imports isupper TypeMultiplyDefined (importLists m) (n1, s1) = (n2, s2)" by fastforce
  obtain n3 s3 where c3: "foldl (\<lambda>ns v. define_name ValueMultiplyDefined v ns) ([], s2) (valueDefs m) = (n3, s3)" by fastforce
  obtain n4 s4 where c4: "chk_imports islower ValueMultiplyDefined (importLists m) (n3, s3) = (n4, s4)" by fastforce
  from assms c1 c2 c3 c4 have s4: "s' = s4" by (simp add: ErrChkModule_def Let_def)
  have st: "stops (TypeMultiplyDefined v)" "stops (ValueMultiplyDefined v)" for v by simp_all
  note r1 = chk_typeDefs_ok [OF c1]
  note r2 = define_names [OF c2 [unfolded chk_imports_picked] st(1)]
  note r3 = define_names [OF c3 st(2)]
  note r4 = define_names [OF c4 [unfolded chk_imports_picked] st(2)]
  have e: "extends s s'" unfolding s4
    by (rule extends_trans [OF conjunct1 [OF r1] extends_trans [OF conjunct1 [OF r2]
          extends_trans [OF conjunct1 [OF r3] conjunct1 [OF r4]]]])
  show ?thesis
  proof (cases "mod_error s'")
    case False
    then have m4: "\<not> mod_error s4" unfolding s4 .
    from extends_ok [OF conjunct1 [OF r4] m4] have m3: "\<not> mod_error s3" .
    from extends_ok [OF conjunct1 [OF r3] m3] have m2: "\<not> mod_error s2" .
    from extends_ok [OF conjunct1 [OF r2] m2] have m1: "\<not> mod_error s1" .
    note q1 = r1 [THEN conjunct2, THEN mp, OF m1]
    note q2 = r2 [THEN conjunct2, THEN mp, OF m2]
    note q3 = r3 [THEN conjunct2, THEN mp, OF m3]
    note q4 = r4 [THEN conjunct2, THEN mp, OF m4]
    from q1 have a: "distinct (map (\<lambda>td. definedName (h ! td)) (typeDefs m))"
        "set n1 = (\<lambda>td. definedName (h ! td)) ` set (typeDefs m)"
        "\<forall>td\<in>set (typeDefs m). passes n vals h td" by simp_all
    from q3 have b: "distinct (valueDefs m)" "set n3 = set (valueDefs m)" by simp_all
    from a(1) q2 [THEN conjunct1] q2 [THEN conjunct2, THEN conjunct1, unfolded a(2)]
    have "distinct (map (\<lambda>td. definedName (h ! td)) (typeDefs m) @ picked isupper (importLists m))"
      by (simp add: Int_commute)
    moreover from b(1) q4 [THEN conjunct1] q4 [THEN conjunct2, THEN conjunct1, unfolded b(2)]
    have "distinct (valueDefs m @ picked islower (importLists m))"
      by (simp add: Int_commute)
    ultimately show ?thesis using a(3) e by blast
  qed (simp add: e)
qed

subsection \<open>What a module that passes has\<close>

text \<open>A type inside another: an element, or the type of the elements, at any depth.\<close>

inductive inside :: "Type \<Rightarrow> Type \<Rightarrow> bool" where
  self: "inside t t"
| part: "u \<in> set (parts (basicType t)) \<Longrightarrow> inside u v \<Longrightarrow> inside t v"

text \<open>What the checks of tags say of one type.\<close>

definition tags_ok :: "nat \<Rightarrow> ValueDefs \<Rightarrow> TypeDefs \<Rightarrow> Type \<Rightarrow> bool" where
  "tags_ok n vals h t \<longleftrightarrow>
     (\<forall>es. basicType t = BASICTYPE_CHOICE es \<or> basicType t = BASICTYPE_SET es \<longrightarrow> HasDistinctTags n vals h es = Some True) \<and>
     (\<forall>es. basicType t = BASICTYPE_CHOICE es \<longrightarrow> tags t \<noteq> [] \<or> \<not> implicit t) \<and>
     (\<forall>es. basicType t = BASICTYPE_SEQUENCE es \<longrightarrow> ChkSeqTags n vals h t = Some 0)"

lemma fail_if_ok [simp]: "mod_error (fail_if b m s) \<longleftrightarrow> b \<or> mod_error s"
  by (simp add: fail_if_def fail_def)

lemma fails_ok [simp]: "mod_error ((fail m ^^ k) s) \<longleftrightarrow> 0 < k \<or> mod_error s"
  by (induction k) (auto simp: fail_def)

lemma ErrChkElmts_error: "ErrChkElmts n vals h td p es s = Some s' \<Longrightarrow> mod_error s \<Longrightarrow> mod_error s'"
  by (erule extends_error [OF ErrChkElmts_extends, rotated -1]) (erule ErrChkType_extends)

lemma ErrChkElmts_part:
  assumes "ErrChkElmts n vals h td p es s = Some s'" "e \<in> set es"
  shows "\<exists>p tnt s1 s2. ErrChkType n vals h td False p tnt (ntType e) s1 = Some s2 \<and> (mod_error s2 \<longrightarrow> mod_error s')"
  using assms
proof (induction es arbitrary: s)
  case (Cons e' es)
  obtain a nm t where e': "e' = NamedType a nm t" by (cases e')
  with Cons.prems(1) obtain s1 where
    c: "ErrChkType n vals h td False (Some p) (Some e') t s = Some s1"
    "ErrChkElmts n vals h td p es s1 = Some s'"
    by (auto split: option.splits)
  from ErrChkElmts_error [OF c(2)] have "mod_error s1 \<longrightarrow> mod_error s'" by blast
  with c(1) have "e = e' \<Longrightarrow> ?case" using e' by fastforce
  with Cons.IH [OF c(2)] Cons.prems(2) show ?case by auto
qed simp

lemma ChkFieldNames_error: "ChkFieldNames n h td own es s = Some s' \<Longrightarrow> mod_error s \<Longrightarrow> mod_error s'"
  by (rule extends_error [OF ChkFieldNames_extends])

lemma ErrChkType_ok:
  assumes "ErrChkType n vals h td isTop parent tnt t s = Some s'" "\<not> mod_error s'"
  shows "tags_ok n vals h t"
    and "u \<in> set (parts (basicType t)) \<Longrightarrow>
      \<exists>p tnt s1 s2. ErrChkType n vals h td False p tnt u s1 = Some s2 \<and> \<not> mod_error s2"
proof -
  obtain opt impl tgs dflt ci cxi bt where t: "t = Type opt impl tgs dflt ci cxi bt" by (cases t)
  note p = assms [unfolded t]
  show "tags_ok n vals h t"
    using p by (cases bt)
      (auto simp: t tags_ok_def Let_def split: option.splits if_splits
        dest: ErrChkElmts_error ChkFieldNames_error)
  assume u: "u \<in> set (parts (basicType t))"
  show "\<exists>p tnt s1 s2. ErrChkType n vals h td False p tnt u s1 = Some s2 \<and> \<not> mod_error s2"
  proof -
    have E: ?thesis if "ErrChkElmts n vals h td p es s1 = Some s2" "\<not> mod_error s2" "u \<in> ntType ` set es" for p es s1 s2
      using ErrChkElmts_part [OF that(1)] that(2,3) by blast
    show ?thesis
      using p u by (cases bt) (auto simp: t Let_def split: option.splits if_splits dest: E)
  qed
qed

lemma inside_ok:
  assumes "inside t u" "ErrChkType n vals h td isTop p tnt t s = Some s'" "\<not> mod_error s'"
  shows "tags_ok n vals h u"
  using assms
proof (induction arbitrary: isTop p tnt s s' rule: inside.induct)
  case (self t)
  then show ?case by (rule ErrChkType_ok)
next
  case (part u t v)
  from ErrChkType_ok(2) [OF part.prems part.hyps(1)] obtain p tnt s1 s2
    where "ErrChkType n vals h td False p tnt u s1 = Some s2" "\<not> mod_error s2" by blast
  then show ?case by (rule part.IH)
qed

corollary passes_inside: "passes n vals h td \<Longrightarrow> inside (tdtype h td) u \<Longrightarrow> tags_ok n vals h u"
  unfolding passes_def ErrChkTypeDef_def by (blast intro: inside_ok)

text \<open>More fuel does not change an answer.\<close>

lemma AddFirstTagLoop_unfold:
  "AddFirstTagLoop n vals h D t tagl im =
     (case tagl of
        tag # _ \<Rightarrow> if ObjIsDefined D tag (TagObjCmp vals) then Some (False, D) else Some (True, DefineObj D tag)
      | [] \<Rightarrow>
          (case ref_of (basicType t) of
             Some r \<Rightarrow>
               (case ref_link h r of
                  None \<Rightarrow> Some (True, D)
                | Some d \<Rightarrow>
                    (case n of
                       0 \<Rightarrow> None
                     | Suc n' \<Rightarrow>
                         (case enter_ref (im \<or> implicit t) (tags (tdtype h d)) of
                            (tagl', im') \<Rightarrow> AddFirstTagLoop n' vals h D (tdtype h d) tagl' im')))
           | None \<Rightarrow>
               (case choice_of (basicType t) of
                  Some es \<Rightarrow> AddFirstTags n vals h D es
                | None \<Rightarrow> Some (True, D))))"
  by (cases t; cases "basicType t") (auto split: list.split option.split nat.split simp del: ref_link_Some)

lemma AddFirstTags_more:
  assumes "\<And>e D tagl im r. e \<in> set es \<Longrightarrow> AddFirstTagLoop n vals h D (ntType e) tagl im = Some r \<Longrightarrow>
      AddFirstTagLoop (Suc n) vals h D (ntType e) tagl im = Some r"
  shows "AddFirstTags n vals h D es = Some r \<Longrightarrow> AddFirstTags (Suc n) vals h D es = Some r"
  using assms
proof (induction es arbitrary: D)
  case (Cons e es)
  from Cons.prems(1) obtain isNew D' where a: "AddFirstTag n vals h D (ntType e) = Some (isNew, D')"
    by (auto simp: AddFirstTags_Cons split: option.splits)
  then have "AddFirstTag (Suc n) vals h D (ntType e) = Some (isNew, D')"
    unfolding AddFirstTag_def by (rule Cons.prems(2) [rotated]) simp
  with a Cons.prems Cons.IH [of D'] show ?case
    by (auto simp: AddFirstTags_Cons split: if_splits)
qed simp

lemma AddFirstTags_parts_more:
  assumes "choice_of bt = Some es"
    and "\<And>u D tagl im r. u \<in> set (parts bt) \<Longrightarrow>
      AddFirstTagLoop n vals h D u tagl im = Some r \<Longrightarrow> AddFirstTagLoop (Suc n) vals h D u tagl im = Some r"
    and "AddFirstTags n vals h D es = Some r"
  shows "AddFirstTags (Suc n) vals h D es = Some r"
proof (rule AddFirstTags_more [OF _ assms(3)])
  from assms(1) have "parts bt = map ntType es" by (cases bt) auto
  then have "e \<in> set es \<Longrightarrow> ntType e \<in> set (parts bt)" for e by simp
  then show "AddFirstTagLoop (Suc n) vals h D (ntType e) tagl im = Some r"
    if "e \<in> set es" "AddFirstTagLoop n vals h D (ntType e) tagl im = Some r" for e D tagl im r
    using that by (blast intro: assms(2))
qed

lemma AddFirstTagLoop_more:
  "AddFirstTagLoop n vals h D t tagl im = Some r \<Longrightarrow> AddFirstTagLoop (Suc n) vals h D t tagl im = Some r"
proof (induction n arbitrary: D t tagl im r)
  case 0
  then show ?case
  proof (induction t arbitrary: D tagl im r rule: parts_induct)
    case (1 t)
    note c = AddFirstTags_parts_more [OF _ "1.IH"]
    from "1.prems" show ?case
      unfolding AddFirstTagLoop_unfold [of 0] AddFirstTagLoop_unfold [of "Suc 0"]
      by (auto split: list.splits option.splits simp del: ref_link_Some dest: c)
  qed
next
  case (Suc n)
  from Suc.prems show ?case
  proof (induction t arbitrary: D tagl im r rule: parts_induct)
    case (1 t)
    note c = AddFirstTags_parts_more [OF _ "1.IH"]
    from "1.prems" show ?case
      unfolding AddFirstTagLoop_unfold [of "Suc n"] AddFirstTagLoop_unfold [of "Suc (Suc n)"]
      by (auto split: list.splits option.splits prod.splits simp del: ref_link_Some dest: c Suc.IH)
  qed
qed

lemma AddFirstTag_more: "AddFirstTag n vals h D t = Some r \<Longrightarrow> AddFirstTag (Suc n) vals h D t = Some r"
  unfolding AddFirstTag_def by (rule AddFirstTagLoop_more)

lemma HasDistinctTags_more:
  "n \<le> m \<Longrightarrow> HasDistinctTags n vals h es = Some b \<Longrightarrow> HasDistinctTags m vals h es = Some b"
proof (induction m rule: dec_induct)
  case (step m)
  have "distinct_loop m vals h D es = Some b \<Longrightarrow> distinct_loop (Suc m) vals h D es = Some b" for D
  proof (induction es arbitrary: D)
    case (Cons e es)
    then obtain r where r: "AddFirstTag m vals h D (ntType e) = Some r" by (auto split: option.splits)
    with Cons AddFirstTag_more [OF r] show ?case by (cases r) (auto split: if_splits)
  qed simp
  with step show ?case by (simp add: HasDistinctTags_def)
qed

lemma ChkSeqTags_more:
  "n \<le> m \<Longrightarrow> ChkSeqTags n vals h t = Some k \<Longrightarrow> ChkSeqTags m vals h t = Some k"
proof (induction m rule: dec_induct)
  case (step m)
  have "seq_loop m vals h D es = Some k \<Longrightarrow> seq_loop (Suc m) vals h D es = Some k" for D es
  proof (induction es arbitrary: D k)
    case (Cons e es)
    show ?case
    proof (cases "\<not> elmt_optional e \<and> D = []")
      case False
      with Cons.prems obtain r where r: "AddFirstTag m vals h D (ntType e) = Some r" by (auto split: option.splits if_splits)
      with False Cons AddFirstTag_more [OF r] show ?thesis by (cases r) (auto split: if_splits)
    qed (use Cons in simp)
  qed simp
  with step show ?case by (auto simp: ChkSeqTags_def split: BasicType.splits)
qed

text \<open>So a module that passes is free of the ambiguities the checks look for.\<close>

lemma tags_ok_alternatives:
  assumes "tags_ok n vals h t" "basicType t = BASICTYPE_CHOICE es \<or> basicType t = BASICTYPE_SET es" "firsts h es tss"
  shows "apart vals (concat tss)"
proof -
  from assms(1,2) have d: "HasDistinctTags n vals h es = Some True" by (auto simp: tags_ok_def)
  from HasDistinctTags_spec [OF assms(3), of vals] obtain N
    where "\<And>n. N \<le> n \<Longrightarrow> HasDistinctTags n vals h es = Some (apart vals (concat tss))" by blast
  from this [of "max N n"] HasDistinctTags_more [OF _ d, of "max N n"] show ?thesis by simp
qed

lemma tags_ok_sequence:
  assumes "tags_ok n vals h t" "basicType t = BASICTYPE_SEQUENCE es" "firsts h es tss" "\<forall>ts\<in>set tss. apart vals ts"
  shows "seq_unambiguous vals es tss"
proof -
  from assms(1,2) have d: "ChkSeqTags n vals h t = Some 0" by (auto simp: tags_ok_def)
  from ChkSeqTags_spec [OF assms(3,4,2)] obtain N
    where "\<And>n. N \<le> n \<Longrightarrow> \<exists>k. ChkSeqTags n vals h t = Some k \<and> (k = 0 \<longleftrightarrow> seq_unambiguous vals es tss)" by blast
  from this [of "max N n"] ChkSeqTags_more [OF _ d, of "max N n"] show ?thesis by simp
qed

subsection \<open>Following the embedded CHOICEs ends\<close>

text \<open>The names of the references in the elements that have no name of their own.\<close>

function (sequential) loose :: "NamedType list \<Rightarrow> string list" where
  "loose [] = []"
| "loose (NamedType a (Some name) t # elmts) = loose elmts"
| "loose (NamedType a None (Type opt impl tgs dflt ci cxi bt) # elmts) =
     (case ref_of bt of
        Some r \<Rightarrow> typeName r # loose elmts
      | None \<Rightarrow> (case choice_of bt of Some es \<Rightarrow> loose es @ loose elmts | None \<Rightarrow> loose elmts))"
  by pat_completeness auto
termination by (relation "measure (size_list size)") (auto dest: choice_of_size)

definition loose_all :: "TypeDefs \<Rightarrow> NamedType list \<Rightarrow> string list" where
  "loose_all h elmts =
     loose elmts @ concat (map (\<lambda>d. case choice_of (basicType (tdType d)) of Some es \<Rightarrow> loose es | None \<Rightarrow> []) h)"

lemma ParanoidGetType_heap:
  "ParanoidGetType h t = t \<or> (\<exists>d<length h. ParanoidGetType h t = tdtype h d)"
proof -
  have "paranoid h type l t \<in> {type, t} \<union> {tdtype h d | d. d < length h}" for type l t
    by (induction h type l t rule: paranoid.induct)
      (subst paranoid.simps, auto split: option.splits simp: Let_def)
  then show ?thesis unfolding ParanoidGetType_def by auto
qed

lemma UndefineObj_back: "name \<notin> set l \<Longrightarrow> UndefineObj (DefineObj l name) name StrObjCmp = l"
  by (auto simp: UndefineObj_filter DefineObj_def StrObjCmp_def filter_id_conv)

lemma ChkFieldNamesRec_followed:
  "ChkFieldNamesRec n h own elmts fs = Some fs' \<Longrightarrow> fst (snd fs') = fst (snd fs)"
proof (induction n h own elmts fs arbitrary: fs' rule: ChkFieldNamesRec.induct)
  case (2 n h own a name t elmts fs)
  then show ?case by (cases fs) auto
next
  case (3 n h own a opt impl tgs dflt ci cxi bt elmts names followed s)
  note IH = "3.IH"
  show ?case
  proof (cases "ref_of bt")
    case None
    show ?thesis
    proof (cases "choice_of bt")
      case n: None
      from "3.prems" None n IH(1) [OF None n] show ?thesis by simp
    next
      case (Some es)
      with "3.prems" None obtain fs1 where f: "ChkFieldNamesRec n h True es (names, followed, s) = Some fs1"
        "ChkFieldNamesRec n h own elmts fs1 = Some fs'" by (auto split: option.splits)
      from IH(2) [OF None Some f(1)] IH(3) [OF None Some f] show ?thesis by auto
    qed
  next
    case r: (Some r)
    let ?t = "Type opt impl tgs dflt ci cxi bt"
    show ?thesis
    proof (cases "choice_of (basicType (ParanoidGetType h ?t))")
      case c: None
      from "3.prems" r c IH(4) [OF r c] show ?thesis by simp
    next
      case c: (Some es)
      show ?thesis
      proof (cases "ObjIsDefined followed (typeName r) StrObjCmp")
        case True
        with "3.prems" r c IH(7) [OF r c] show ?thesis by simp
      next
        case False
        with "3.prems" r c obtain n' nm1 fo1 s1 where n': "n = Suc n'"
          and f: "ChkFieldNamesRec n' h False es (names, DefineObj followed (typeName r), s) = Some (nm1, fo1, s1)"
            "ChkFieldNamesRec n h own elmts (nm1, UndefineObj fo1 (typeName r) StrObjCmp, s1) = Some fs'"
          by (auto split: option.splits nat.splits)
        from False have "typeName r \<notin> set followed" by (simp add: ObjIsDefined_iff StrObjCmp_def)
        with IH(5) [OF r c False n' f(1)] IH(6) [OF r c False n' f(1) refl refl f(2)]
        show ?thesis by (simp add: UndefineObj_back)
      qed
    qed
  qed
qed simp


text \<open>Every reference followed has a name that is not yet in \<open>followedTypeRefs\<close>, so the fuel that
  is enough is the number of the names there are.\<close>

lemma ChkFieldNamesRec_ends:
  assumes "\<And>d es. d < length h \<Longrightarrow> choice_of (basicType (tdtype h d)) = Some es \<Longrightarrow> set (loose es) \<subseteq> A"
    and "finite A" "set (loose elmts) \<subseteq> A" "card (A - set (fst (snd fs))) \<le> n"
  shows "\<exists>fs'. ChkFieldNamesRec n h own elmts fs = Some fs'"
  using assms(3,4,1)
proof (induction n h own elmts fs rule: ChkFieldNamesRec.induct [case_names Nil named unnamed])
  case (Nil n h own fs)
  then show ?case by (simp only: ChkFieldNamesRec.simps) blast
next
  case (named n h own a name t elmts fs)
  then show ?case by (cases fs) auto
next
  case (unnamed n h own a opt impl tgs dflt ci cxi bt elmts names followed s)
  note IH = unnamed.IH
  let ?t = "Type opt impl tgs dflt ci cxi bt"
  show ?case
  proof (cases "ref_of bt")
    case None
    show ?thesis
    proof (cases "choice_of bt")
      case n: None
      from unnamed.prems None n IH(1) [OF None n] show ?thesis by simp
    next
      case (Some es)
      with unnamed.prems None IH(2) [OF None Some] obtain fs1
        where f: "ChkFieldNamesRec n h True es (names, followed, s) = Some fs1" by auto
      from ChkFieldNamesRec_followed [OF f] have "fst (snd fs1) = followed" by simp
      with f unnamed.prems None Some IH(3) [OF None Some f] show ?thesis by auto
    qed
  next
    case r: (Some r)
    show ?thesis
    proof (cases "choice_of (basicType (ParanoidGetType h ?t))")
      case c: None
      from unnamed.prems r c IH(4) [OF r c] show ?thesis by simp
    next
      case c: (Some es)
      show ?thesis
      proof (cases "ObjIsDefined followed (typeName r) StrObjCmp")
        case True
        with unnamed.prems r c IH(7) [OF r c] show ?thesis by simp
      next
        case False
        then have nm: "typeName r \<notin> set followed" by (simp add: ObjIsDefined_iff StrObjCmp_def)
        have rA: "typeName r \<in> A" using unnamed.prems(1) r by simp
        from c r have "ParanoidGetType h ?t \<noteq> ?t" by (cases bt) auto
        then obtain d where d: "d < length h" "ParanoidGetType h ?t = tdtype h d"
          using ParanoidGetType_heap [of h ?t] by auto
        have es: "set (loose es) \<subseteq> A" by (rule unnamed.prems(3) [OF d(1) c [unfolded d(2)]])
        have "card (A - set (typeName r # followed)) < card (A - set followed)"
          using nm rA assms(2) by (intro psubset_card_mono) auto
        with unnamed.prems(2) obtain n' where n': "n = Suc n'" "card (A - set (typeName r # followed)) \<le> n'"
          by (cases n) auto
        have "\<exists>fs1. ChkFieldNamesRec n' h False es (names, DefineObj followed (typeName r), s) = Some fs1"
          by (rule IH(5) [OF r c False n'(1) es _ unnamed.prems(3)]) (use n'(2) in \<open>simp_all add: DefineObj_def\<close>)
        then obtain nm1 fo1 s1
          where f: "ChkFieldNamesRec n' h False es (names, DefineObj followed (typeName r), s) = Some (nm1, fo1, s1)"
          by (elim exE) (metis prod_cases3)
        from ChkFieldNamesRec_followed [OF f] have fo1: "fo1 = DefineObj followed (typeName r)" by simp
        have "\<exists>fs'. ChkFieldNamesRec n h own elmts (nm1, UndefineObj fo1 (typeName r) StrObjCmp, s1) = Some fs'"
          by (rule IH(6) [OF r c False n'(1) f refl refl _ _ unnamed.prems(3)])
            (use unnamed.prems(1,2) r in \<open>simp_all add: fo1 UndefineObj_back nm\<close>)
        with f n'(1) r c False show ?thesis by simp
      qed
    qed
  qed
qed

lemma ChkFieldNames_ends:
  assumes "length (loose_all h elmts) \<le> n"
  shows "\<exists>s'. ChkFieldNames n h td own elmts s = Some s'"
proof -
  let ?A = "set (loose_all h elmts)"
  have h: "set (loose es) \<subseteq> ?A" if "d < length h" "choice_of (basicType (tdtype h d)) = Some es" for d es
  proof -
    from that(1) have "h ! d \<in> set h" by simp
    with that(2) show ?thesis by (force simp: loose_all_def)
  qed
  have "card (?A - set (fst (snd ([], [definedName (h ! td)], s)))) \<le> n"
    using card_mono [of ?A "?A - {definedName (h ! td)}"] card_length [of "loose_all h elmts"] assms by auto
  moreover have "set (loose elmts) \<subseteq> ?A" by (simp add: loose_all_def)
  ultimately obtain fs' where "ChkFieldNamesRec n h own elmts ([], [definedName (h ! td)], s) = Some fs'"
    using h ChkFieldNamesRec_ends [of h ?A elmts "([], [definedName (h ! td)], s)" n own] by blast
  then show ?thesis by (simp add: ChkFieldNames_def split: prod.split)
qed

end
