(* ===== verification/Comp_Names.thy ===== *)
theory Comp_Names
  imports Comp_Util "HOL-Library.Sublist" "HOL-Library.Multiset"
begin

section \<open>Names in generated code (\<open>compiler/back-ends/str-util.c\<close>)\<close>

text \<open>
  Strings are lists of characters without the terminating zero; what is written in place is
  returned.  \<open>strcat_s\<close> is \<open>strcat\<close> here (\<open>asn-config.h\<close>), which does not look at the size of
  the buffer.  The separator of paths is the one of Unix, and \<open>gszOutputPath\<close> is an argument.
\<close>

subsection \<open>Characters\<close>

definition dash :: "char \<Rightarrow> char" where
  "dash c = (if c = CHR ''-'' then CHR ''_'' else c)"

definition toupper :: "char \<Rightarrow> char" where
  "toupper c = (if islower c then char_of (of_char c - 32 :: nat) else c)"

definition tolower :: "char \<Rightarrow> char" where
  "tolower c = (if isupper c then char_of (of_char c + 32 :: nat) else c)"

definition isdigit :: "char \<Rightarrow> bool" where
  "isdigit c \<longleftrightarrow> 48 \<le> (of_char c :: nat) \<and> (of_char c :: nat) \<le> 57"

definition Dash2Underscore :: "string \<Rightarrow> nat \<Rightarrow> string" where
  "Dash2Underscore str len = map dash (take len str) @ drop len str"

definition Str2UCase :: "string \<Rightarrow> nat \<Rightarrow> string" where
  "Str2UCase str len = map toupper (take len str) @ drop len str"

definition Str2LCase :: "string \<Rightarrow> nat \<Rightarrow> string" where
  "Str2LCase str len = map tolower (take len str) @ drop len str"

definition Dash2UnderscoreEx :: "string option \<Rightarrow> string option" where
  "Dash2UnderscoreEx str = map_option (map dash) str"

definition FixName :: "string option \<Rightarrow> string option" where
  "FixName szName = map_option (map dash) szName"

definition Asn1TypeName2CTypeName :: "string option \<Rightarrow> string option" where
  "Asn1TypeName2CTypeName aName = map_option (\<lambda>s. Dash2Underscore s (length s)) aName"

definition Asn1FieldName2CFieldName :: "string option \<Rightarrow> string option" where
  "Asn1FieldName2CFieldName aName = map_option (\<lambda>s. Dash2Underscore s (length s)) aName"

definition Asn1ValueName2CValueName :: "string option \<Rightarrow> string option" where
  "Asn1ValueName2CValueName aName = map_option (\<lambda>s. Dash2Underscore s (length s)) aName"

definition GetCaps :: "string option \<Rightarrow> string option" where
  "GetCaps str = map_option (filter isupper) str"

definition GetCapsAndDigits :: "string option \<Rightarrow> string option" where
  "GetCapsAndDigits str = map_option (filter (\<lambda>c. isupper c \<or> isdigit c)) str"

subsection \<open>Unique names\<close>

definition DIGIT_TO_ASCII :: "nat \<Rightarrow> char" where
  "DIGIT_TO_ASCII d = char_of (d mod 10 + 48)"

function digit_loop :: "nat \<Rightarrow> nat \<Rightarrow> string \<Rightarrow> string" where
  "digit_loop high digit digitStr =
     (if high > 0
      then (let value = digit div high;
                digitStr' = (if value \<noteq> 0 then digitStr @ [DIGIT_TO_ASCII value] else digitStr)
            in digit_loop (high div 10) (digit mod high) digitStr')
      else digitStr)"
  by pat_completeness auto
termination by (relation "measure fst") auto

declare digit_loop.simps [simp del]

definition AppendDigit :: "string \<Rightarrow> int \<Rightarrow> string" where
  "AppendDigit str digit =
     (let digitStr = digit_loop 1000000000 (nat \<bar>digit\<bar>) []
      in str @ (if digitStr = [] then ''0'' else digitStr))"

definition cKWdG :: "string list" where
  "cKWdG =
     [''auto'', ''break'', ''case'', ''char'', ''const'', ''continue'', ''default'', ''do'', ''double'', ''else'',
      ''enum'', ''extern'', ''float'', ''for'', ''goto'', ''if'', ''int'', ''long'', ''register'', ''return'',
      ''short'', ''signed'', ''sizeof'', ''static'', ''struct'', ''switch'', ''typedef'', ''union'',
      ''unsigned'', ''void'', ''volatile'', ''while'']"

text \<open>\<open>BOOL_BUILTIN\<close> says whether the compiler of the generated code knows \<open>bool\<close>.\<close>

definition cxxKWdG :: "bool \<Rightarrow> string list" where
  "cxxKWdG BOOL_BUILTIN =
     [''asm'', ''auto'', ''break'', ''case'', ''catch'', ''char'', ''class'', ''const'', ''continue'',
      ''default'', ''delete'', ''do'', ''double'', ''else'', ''enum'', ''extern'', ''float'', ''for'', ''friend'',
      ''goto'', ''if'', ''inline'', ''int'', ''long'', ''new'', ''operator'', ''private'', ''protected'', ''public'',
      ''register'', ''return'', ''short'', ''signed'', ''sizeof'', ''static'', ''struct'', ''switch'', ''template'',
      ''this'', ''throw'', ''try'', ''typedef'', ''union'', ''unsigned'', ''virtual'', ''void'', ''volatile'', ''while''] @
     (if BOOL_BUILTIN then [''bool'', ''true'', ''false''] else [])"

definition IsCKeyWord :: "string \<Rightarrow> bool" where
  "IsCKeyWord str \<longleftrightarrow> list_ex (\<lambda>w. w = str) cKWdG"

definition IsCxxKeyWord :: "bool \<Rightarrow> string \<Rightarrow> bool" where
  "IsCxxKeyWord BOOL_BUILTIN str \<longleftrightarrow> list_ex (\<lambda>w. w = str) (cxxKWdG BOOL_BUILTIN)"

function unique_loop :: "string list \<Rightarrow> string \<Rightarrow> int \<Rightarrow> int \<Rightarrow> string" where
  "unique_loop nameList base maxDigitVal digit =
     (let str = AppendDigit base digit
      in if ObjIsDefined nameList str StrObjCmp \<and> digit + 1 < maxDigitVal
         then unique_loop nameList base maxDigitVal (digit + 1)
         else str)"
  by pat_completeness auto
termination by (relation "measure (\<lambda>(_, _, m, d). nat (m - d))") auto

declare unique_loop.simps [simp del]

definition MakeCStrUnique :: "string list \<Rightarrow> string \<Rightarrow> nat \<Rightarrow> int \<Rightarrow> string" where
  "MakeCStrUnique nameList str maxDigits startingDigit =
     (if ObjIsDefined nameList str StrObjCmp \<or> IsCKeyWord str
      then unique_loop nameList str (10 ^ maxDigits) startingDigit else str)"

definition MakeCxxStrUnique :: "bool \<Rightarrow> string list \<Rightarrow> string \<Rightarrow> nat \<Rightarrow> int \<Rightarrow> string" where
  "MakeCxxStrUnique BOOL_BUILTIN nameList str maxDigits startingDigit =
     (if ObjIsDefined nameList str StrObjCmp \<or> IsCxxKeyWord BOOL_BUILTIN str
      then unique_loop nameList str (10 ^ maxDigits) startingDigit else str)"

subsection \<open>Replacing\<close>

text \<open>The first place at which one string is found in another, and the last one of a character.\<close>

fun strstr :: "string \<Rightarrow> string \<Rightarrow> nat option" where
  "strstr s sub = (if prefix sub s then Some 0 else case s of [] \<Rightarrow> None | _ # s' \<Rightarrow> map_option Suc (strstr s' sub))"

declare strstr.simps [simp del]

partial_function (option) replace_loop :: "string \<Rightarrow> string \<Rightarrow> string \<Rightarrow> string option" where
  "replace_loop sub replacement newstr =
     (case strstr newstr sub of
        None \<Rightarrow> Some newstr
      | Some tok \<Rightarrow>
          replace_loop sub replacement (take tok newstr @ replacement @ drop (tok + length sub) newstr))"

definition str_replace :: "string \<Rightarrow> string \<Rightarrow> string \<Rightarrow> string option" where
  "str_replace str sub replacement = replace_loop sub replacement str"

definition getNakedCommentDupped :: "string \<Rightarrow> string option" where
  "getNakedCommentDupped szString = str_replace szString [CHR 0x5C, CHR ''n''] []"

subsection \<open>File names\<close>

definition strrchr :: "string \<Rightarrow> char \<Rightarrow> nat option" where
  "strrchr s c = (if c \<in> set s then Some (length (dropWhile (\<lambda>x. x \<noteq> c) (rev s)) - 1) else None)"

definition RemovePath :: "string \<Rightarrow> string" where
  "RemovePath refName = (case strrchr refName (CHR ''/'') of Some i \<Rightarrow> drop (i + 1) refName | None \<Rightarrow> refName)"

definition getFilePath :: "string \<Rightarrow> string option" where
  "getFilePath filename = map_option (\<lambda>i. take (i + 1) filename) (strrchr filename (CHR ''/''))"

definition MakeBaseFileName :: "string \<Rightarrow> string \<Rightarrow> string" where
  "MakeBaseFileName gszOutputPath refName =
     (let base = RemovePath refName;
          stublen = (case strrchr base (CHR ''.'') of Some i \<Rightarrow> i | None \<Rightarrow> length base)
      in gszOutputPath @ take stublen base)"

fun name_only_loop :: "nat \<Rightarrow> string \<Rightarrow> string" where
  "name_only_loop 0 path = path"
| "name_only_loop (Suc i) path =
     (if Suc i < length path \<and> path ! Suc i \<in> {CHR 0x5C, CHR ''/''} then drop (Suc i + 1) path
      else name_only_loop i path)"

definition FileNameOnly :: "string \<Rightarrow> string" where
  "FileNameOnly path = name_only_loop (length path) path"

definition MakeFileName :: "string \<Rightarrow> string \<Rightarrow> string \<Rightarrow> string" where
  "MakeFileName gszOutputPath refName suff = gszOutputPath @ FileNameOnly refName @ suff"

definition MakeFileNameWithoutOutputPath :: "string \<Rightarrow> string \<Rightarrow> string" where
  "MakeFileNameWithoutOutputPath refName suff = FileNameOnly refName @ suff"

definition MakeDelphiFileName :: "string \<Rightarrow> string \<Rightarrow> string" where
  "MakeDelphiFileName gszOutputPath refName =
     (let retVal = MakeFileName gszOutputPath refName ''.pas'';
          szRefFilename = RemovePath retVal
      in take (length retVal - length szRefFilename) retVal @ Dash2Underscore szRefFilename (length szRefFilename))"

definition MakeModuleName :: "string \<Rightarrow> string" where
  "MakeModuleName refName =
     (let szClassName = MakeFileNameWithoutOutputPath (Dash2Underscore refName (length refName)) ''''
      in Dash2Underscore szClassName (length szClassName))"

definition MakeROSEClassName :: "string \<Rightarrow> string" where
  "MakeROSEClassName refName = MakeFileNameWithoutOutputPath (Dash2Underscore refName (length refName)) ''ROSE''"

definition GetPropertyAccessString :: "string option \<Rightarrow> string option" where
  "GetPropertyAccessString szName =
     map_option (\<lambda>s. if CHR ''-'' \<in> set s then ''['' @ [CHR 0x22] @ s @ [CHR 0x22] @ '']'' else ''.'' @ s) szName"

definition GetPropertyName :: "string option \<Rightarrow> string option" where
  "GetPropertyName szName =
     map_option (\<lambda>s. if CHR ''-'' \<in> set s then [CHR 0x22] @ s @ [CHR 0x22] else s) szName"

subsection \<open>What appending a number gives\<close>

text \<open>The decimal digits of a number, written with so many places.\<close>

definition digs :: "nat \<Rightarrow> nat \<Rightarrow> nat list" where
  "digs k n = map (\<lambda>i. n div 10 ^ i mod 10) (rev [0..<k])"

lemma digs_Suc: "digs (Suc k) n = (n div 10 ^ k mod 10) # digs k n"
  by (simp add: digs_def)

lemma digs_mod: "digs k (n mod 10 ^ k) = digs k n"
proof -
  have "n mod 10 ^ k div 10 ^ i mod 10 = n div 10 ^ i mod 10" if "i < k" for i
  proof -
    from that have "(10::nat) ^ k = 10 ^ i * 10 ^ (k - i)" by (simp flip: power_add)
    then have "n mod 10 ^ k div 10 ^ i = n div 10 ^ i mod 10 ^ (k - i)"
      by (simp add: mod_mult2_eq)
    moreover have "10 dvd (10::nat) ^ (k - i)" using that by simp
    ultimately show ?thesis by (simp add: mod_mod_cancel)
  qed
  then show ?thesis by (simp add: digs_def)
qed

lemma digit_loop_digs:
  "n < 10 ^ Suc k \<Longrightarrow> digit_loop (10 ^ k) n acc = acc @ map DIGIT_TO_ASCII (filter (\<lambda>d. d \<noteq> 0) (digs (Suc k) n))"
proof (induction k arbitrary: n acc)
  case 0
  then show ?case
    by (simp add: digit_loop.simps [of 1] digit_loop.simps [of 0] digit_loop.simps [of "Suc 0"] digs_def)
next
  case (Suc k)
  have d: "n div 10 ^ Suc k mod 10 = n div 10 ^ Suc k" using Suc.prems
    by (intro mod_less) (simp add: less_mult_imp_div_less mult.commute)
  have step: "digit_loop (10 ^ Suc k) n acc =
      digit_loop (10 ^ k) (n mod 10 ^ Suc k)
        (if n div 10 ^ Suc k \<noteq> 0 then acc @ [DIGIT_TO_ASCII (n div 10 ^ Suc k)] else acc)"
    by (subst digit_loop.simps) (simp add: Let_def)
  have "n mod 10 ^ Suc k < 10 ^ Suc k" by (rule mod_less_divisor) simp
  note IH = Suc.IH [OF this, unfolded digs_mod]
  show ?case
    unfolding step IH digs_Suc [of "Suc k"] d by simp
qed

definition number :: "nat list \<Rightarrow> nat" where
  "number ds = foldl (\<lambda>a d. 10 * a + d) 0 ds"

lemma foldl_number: "foldl (\<lambda>a d. 10 * a + d) a ds = a * 10 ^ length ds + number ds" for a :: nat
proof (induction ds arbitrary: a)
  case (Cons d ds)
  show ?case unfolding number_def foldl_Cons Cons.IH [of "10 * a + d"] Cons.IH [of "10 * 0 + d"]
    by (simp add: algebra_simps)
qed (simp add: number_def)

lemma number_Cons: "number (d # ds) = d * 10 ^ length ds + number ds"
  using foldl_number [of d ds] by (simp add: number_def)

lemma number_digs: "number (digs k n) = n mod 10 ^ k"
proof (induction k)
  case (Suc k)
  have "n mod 10 ^ Suc k = 10 ^ k * (n div 10 ^ k mod 10) + n mod 10 ^ k"
    by (simp add: mod_mult2_eq mult.commute [of 10])
  with Suc show ?case by (simp add: digs_Suc number_Cons digs_def)
qed (simp add: digs_def number_def)

lemma number_less: "\<forall>d\<in>set ds. d < 10 \<Longrightarrow> number ds < 10 ^ length ds"
proof (induction ds)
  case (Cons d ds)
  then have "number ds < 10 ^ length ds" "d \<le> 9" by auto
  then have "d * 10 ^ length ds + number ds < 9 * 10 ^ length ds + 10 ^ length ds"
    by (intro add_le_less_mono) auto
  then show ?case by (simp add: number_Cons)
qed (simp add: number_def)

lemma digs_number: "\<forall>d\<in>set ds. d < 10 \<Longrightarrow> digs (length ds) (number ds) = ds"
proof (induction ds)
  case (Cons d ds)
  then have l: "number ds < 10 ^ length ds" by (intro number_less) simp
  have "digs (length ds) (number (d # ds)) = digs (length ds) (number (d # ds) mod 10 ^ length ds)"
    by (simp add: digs_mod)
  also have "\<dots> = ds" using l Cons by (simp add: number_Cons)
  finally show ?case using l Cons.prems by (simp add: digs_Suc number_Cons)
qed (simp add: digs_def)

lemma number_zeros: "filter (\<lambda>d. d \<noteq> 0) ds = [] \<Longrightarrow> number ds = 0"
  by (induction ds) (auto simp: number_Cons number_def split: if_splits)

text \<open>The digits 1 to 9 of the number, without the zeros.\<close>

lemma AppendDigit_digs:
  assumes "\<bar>d\<bar> < 10 ^ 10"
  shows "AppendDigit s d =
    s @ (if d = 0 then ''0'' else map DIGIT_TO_ASCII (filter (\<lambda>d. d \<noteq> 0) (digs 10 (nat \<bar>d\<bar>))))"
proof -
  define n where "n = nat \<bar>d\<bar>"
  have n: "n < 10 ^ Suc 9" using assms unfolding n_def by (simp add: nat_less_iff)
  have "digit_loop 1000000000 n [] = map DIGIT_TO_ASCII (filter (\<lambda>d. d \<noteq> 0) (digs 10 n))"
    using digit_loop_digs [OF n, of "[]"] by simp
  moreover have "map DIGIT_TO_ASCII (filter (\<lambda>d. d \<noteq> 0) (digs 10 n)) = [] \<longleftrightarrow> d = 0"
  proof
    assume "map DIGIT_TO_ASCII (filter (\<lambda>d. d \<noteq> 0) (digs 10 n)) = []"
    then have "n mod 10 ^ 10 = 0" using number_digs [of 10 n] number_zeros [of "digs 10 n"] by simp
    with n show "d = 0" by (simp add: n_def)
  next
    assume "d = 0"
    then show "map DIGIT_TO_ASCII (filter (\<lambda>d. d \<noteq> 0) (digs 10 n)) = []"
      by (simp add: n_def digs_def)
  qed
  ultimately show ?thesis unfolding AppendDigit_def n_def [symmetric] Let_def by presburger
qed

lemma digs_snoc: "digs (Suc k) n = digs k (n div 10) @ [n mod 10]"
proof (induction k)
  case (Suc k)
  have "n div 10 ^ Suc k mod 10 = n div 10 div 10 ^ k mod 10" by (simp add: div_mult2_eq)
  with Suc show ?case by (simp add: digs_Suc [of "Suc k"] digs_Suc [of k "n div 10"])
qed (simp add: digs_def)

lemma DIGIT_TO_ASCII_zero: "d < 10 \<Longrightarrow> DIGIT_TO_ASCII d = CHR ''0'' \<longleftrightarrow> d = 0"
proof -
  assume "d < 10"
  then have "d \<in> {0, 1, 2, 3, 4, 5, 6, 7, 8, 9}" by auto
  then show ?thesis by (auto simp: DIGIT_TO_ASCII_def char_of_def bit_iff_odd)
qed

lemma digs_less: "d \<in> set (digs k n) \<Longrightarrow> d < 10"
  by (auto simp: digs_def)

lemma filter_dec:
  "n < 10 ^ Suc k \<Longrightarrow> filter (\<lambda>c. c \<noteq> CHR ''0'') (dec n) = map DIGIT_TO_ASCII (filter (\<lambda>d. d \<noteq> 0) (digs (Suc k) n))"
proof (induction n arbitrary: k rule: dec.induct)
  case (1 n)
  show ?case
  proof (cases "n < 10")
    case True
    have "digs k (n div 10) = replicate k 0"
      using True by (auto simp: digs_def intro!: replicate_eqI)
    then have "filter (\<lambda>d. d \<noteq> 0) (digs (Suc k) n) = (if n = 0 then [] else [n])"
      using True by (simp add: digs_snoc)
    moreover have "dec n = [DIGIT_TO_ASCII n]" using True by (subst dec.simps) (simp add: DIGIT_TO_ASCII_def add.commute)
    ultimately show ?thesis using DIGIT_TO_ASCII_zero [OF True] by auto
  next
    case False
    with "1.prems" obtain k' where k: "k = Suc k'" by (cases k) auto
    have "n div 10 < 10 ^ Suc k'" using "1.prems" k by (simp add: less_mult_imp_div_less mult.commute)
    from "1.IH" [OF False this] have
      "filter (\<lambda>c. c \<noteq> CHR ''0'') (dec (n div 10)) = map DIGIT_TO_ASCII (filter (\<lambda>d. d \<noteq> 0) (digs k (n div 10)))"
      by (simp add: k)
    moreover have "dec n = dec (n div 10) @ [DIGIT_TO_ASCII (n mod 10)]"
      using False by (subst dec.simps) (simp add: DIGIT_TO_ASCII_def add.commute)
    ultimately show ?thesis using DIGIT_TO_ASCII_zero [of "n mod 10"] by (simp add: digs_snoc)
  qed
qed

lemma AppendDigit_dec:
  "0 < n \<Longrightarrow> n < 10 ^ 10 \<Longrightarrow> AppendDigit s (int n) = s @ filter (\<lambda>c. c \<noteq> CHR ''0'') (dec n)"
  using filter_dec [of n 9] by (simp add: AppendDigit_digs)

text \<open>A number without zeros is appended as it is.\<close>

lemma AppendDigit_number:
  assumes "set ds \<subseteq> {1..9}" "ds \<noteq> []" "length ds \<le> 10"
  shows "AppendDigit s (int (number ds)) = s @ map DIGIT_TO_ASCII ds"
proof -
  let ?k = "10 - length ds"
  have l: "number ds < 10 ^ length ds" by (rule number_less) (use assms(1) in auto)
  also have "\<dots> \<le> 10 ^ 10" using assms(3) by (intro power_increasing) simp_all
  finally have n: "number ds < 10 ^ 10" .
  have "number (replicate k 0 @ ds) = number ds" for k
    by (induction k) (simp_all add: number_Cons)
  moreover have "\<forall>d\<in>set (replicate ?k 0 @ ds). d < 10" using assms(1) by fastforce
  ultimately have "digs 10 (number ds) = replicate ?k 0 @ ds"
    using digs_number [of "replicate ?k 0 @ ds"] assms(3) by simp
  moreover have "filter (\<lambda>d. d \<noteq> 0) ds = ds" using assms(1) by (auto simp: filter_id_conv)
  moreover have "number ds \<noteq> 0"
    using assms by (cases ds) (auto simp: number_Cons)
  ultimately show ?thesis using n by (simp add: AppendDigit_digs)
qed

subsection \<open>The search for a unique name\<close>

lemma unique_loop_spec:
  "\<exists>e. d \<le> e \<and> e \<le> max d (m - 1) \<and> unique_loop names base m d = AppendDigit base e \<and>
     (AppendDigit base e \<in> set names \<longrightarrow> (\<forall>i. d \<le> i \<and> i < m \<longrightarrow> AppendDigit base i \<in> set names))"
proof (induction names base m d rule: unique_loop.induct)
  case (1 names base m d)
  have obj: "ObjIsDefined names x StrObjCmp \<longleftrightarrow> x \<in> set names" for x
    by (auto simp: ObjIsDefined_iff StrObjCmp_def)
  show ?case
  proof (cases "AppendDigit base d \<in> set names \<and> d + 1 < m")
    case True
    with "1.IH" [OF refl] obj obtain e where e: "d + 1 \<le> e" "e \<le> max (d + 1) (m - 1)"
      "unique_loop names base m (d + 1) = AppendDigit base e"
      "AppendDigit base e \<in> set names \<longrightarrow> (\<forall>i. d + 1 \<le> i \<and> i < m \<longrightarrow> AppendDigit base i \<in> set names)"
      by blast
    have "\<forall>i. d \<le> i \<and> i < m \<longrightarrow> AppendDigit base i \<in> set names" if "AppendDigit base e \<in> set names"
    proof (intro allI impI)
      fix i assume i: "d \<le> i \<and> i < m"
      show "AppendDigit base i \<in> set names"
      proof (cases "i = d")
        case False
        with i have "d + 1 \<le> i \<and> i < m" by linarith
        with e(4) that show ?thesis by blast
      qed (use True in simp)
    qed
    moreover have "unique_loop names base m d = unique_loop names base m (d + 1)"
      using True obj by (subst unique_loop.simps) (simp add: Let_def)
    moreover have "d \<le> e" "e \<le> max d (m - 1)" using e(1,2) True by auto
    ultimately show ?thesis using e(3) by (intro exI [of _ e]) simp
  next
    case False
    then have "unique_loop names base m d = AppendDigit base d"
      by (subst unique_loop.simps) (auto simp: Let_def obj)
    moreover have "AppendDigit base i \<in> set names" if "AppendDigit base d \<in> set names" "d \<le> i" "i < m" for i
    proof -
      from that False have "i = d" by linarith
      with that(1) show ?thesis by simp
    qed
    ultimately show ?thesis by (intro exI [of _ d]) auto
  qed
qed


text \<open>With fewer names than there are numbers of so many places without a zero, one is free.\<close>

lemma DIGIT_TO_ASCII_inj: "inj_on DIGIT_TO_ASCII {..<10}"
proof (rule inj_onI)
  fix a b :: nat
  assume "a \<in> {..<10}" "b \<in> {..<10}" "DIGIT_TO_ASCII a = DIGIT_TO_ASCII b"
  then have "of_char (char_of (a + 48) :: char) = (of_char (char_of (b + 48) :: char) :: nat)"
    by (simp add: DIGIT_TO_ASCII_def)
  with \<open>a \<in> _\<close> \<open>b \<in> _\<close> show "a = b" by (simp add: of_char_of)
qed

lemma candidates_card:
  "card {base @ map DIGIT_TO_ASCII ds | ds. set ds \<subseteq> {1..9} \<and> length ds = k} = 9 ^ k"
proof -
  let ?L = "{ds. set ds \<subseteq> {1..9::nat} \<and> length ds = k}"
  have "inj_on (\<lambda>ds. base @ map DIGIT_TO_ASCII ds) ?L"
  proof (rule inj_onI)
    fix ds es
    assume d: "ds \<in> ?L" and e: "es \<in> ?L" and eq: "base @ map DIGIT_TO_ASCII ds = base @ map DIGIT_TO_ASCII es"
    have "set ds \<union> set es \<subseteq> {..<10}" using d e by fastforce
    then have "inj_on DIGIT_TO_ASCII (set ds \<union> set es)" by (rule inj_on_subset [OF DIGIT_TO_ASCII_inj])
    with eq show "ds = es" by (simp add: inj_on_map_eq_map)
  qed
  moreover have "{base @ map DIGIT_TO_ASCII ds | ds. set ds \<subseteq> {1..9} \<and> length ds = k} =
      (\<lambda>ds. base @ map DIGIT_TO_ASCII ds) ` ?L" by auto
  ultimately have "card {base @ map DIGIT_TO_ASCII ds | ds. set ds \<subseteq> {1..9} \<and> length ds = k} = card ?L"
    by (simp add: card_image)
  then show ?thesis using card_lists_length_eq [of "{1..9::nat}" k] by simp
qed

lemma some_candidate_free:
  assumes "length names < 9 ^ k"
  shows "\<exists>ds. set ds \<subseteq> {1..9} \<and> length ds = k \<and> base @ map DIGIT_TO_ASCII ds \<notin> set names"
proof (rule ccontr)
  assume "\<not> ?thesis"
  then have "{base @ map DIGIT_TO_ASCII ds | ds. set ds \<subseteq> {1..9} \<and> length ds = k} \<subseteq> set names" by auto
  from card_mono [OF _ this] have "9 ^ k \<le> card (set names)" unfolding candidates_card by simp
  also have "\<dots> \<le> length names" by (rule card_length)
  finally show False using assms by simp
qed

lemma unique_loop_fresh:
  assumes "length names < 9 ^ k" "0 < k" "k \<le> 9"
  shows "unique_loop names base (10 ^ k) 1 \<notin> set names"
proof
  assume d: "unique_loop names base (10 ^ k) 1 \<in> set names"
  from some_candidate_free [OF assms(1), of base] obtain ds
    where ds: "set ds \<subseteq> {1..9}" "length ds = k" "base @ map DIGIT_TO_ASCII ds \<notin> set names" by blast
  have "number ds < 10 ^ k" using number_less [of ds] ds(1,2) by fastforce
  then have m: "int (number ds) < 10 ^ k" by (simp flip: of_nat_less_iff)
  have "number ds \<noteq> 0" using ds(1,2) assms(2) by (cases ds) (auto simp: number_Cons)
  then have "1 \<le> int (number ds)" by simp
  with m unique_loop_spec [of 1 "10 ^ k" names base] d have "AppendDigit base (int (number ds)) \<in> set names"
    by auto
  moreover have "ds \<noteq> []" "length ds \<le> 10" using ds(2) assms(2,3) by auto
  ultimately show False using AppendDigit_number [OF ds(1), of base] ds(3) by simp
qed

subsection \<open>Giving names one after the other\<close>

text \<open>What a namer promises, as long as there is room; a name that is free is kept.\<close>

locale namer =
  fixes unique :: "string list \<Rightarrow> string \<Rightarrow> string" and reserved :: "string \<Rightarrow> bool" and room :: nat
  assumes fresh: "length names < room \<Longrightarrow> unique names s \<notin> set names"
    and unreserved: "\<not> reserved (unique names s)"
    and kept: "s \<notin> set names \<Longrightarrow> \<not> reserved s \<Longrightarrow> unique names s = s"

text \<open>Each thing named gets a name that is then defined; the result has the last name first.\<close>

definition name_one :: "(string list \<Rightarrow> string \<Rightarrow> string) \<Rightarrow> string list \<Rightarrow> string \<Rightarrow> string list" where
  "name_one unique defined s = DefineObj defined (unique defined s)"

lemma length_name_all: "length (foldl (name_one u) defined ss) = length defined + length ss"
  by (induction ss arbitrary: defined) (simp_all add: name_one_def DefineObj_def)

context namer
begin

text \<open>The names given are different from each other and from the ones defined before.\<close>

lemma name_one_distinct:
  assumes "distinct defined" "length defined < room" "\<forall>x\<in>set defined. \<not> reserved x"
  shows "distinct (name_one unique defined s) \<and> (\<forall>x\<in>set (name_one unique defined s). \<not> reserved x)"
  using assms fresh unreserved by (auto simp: name_one_def DefineObj_def)

lemma name_all_distinct:
  assumes "distinct defined" "length defined + length ss \<le> room" "\<forall>x\<in>set defined. \<not> reserved x"
  shows "distinct (foldl (name_one unique) defined ss) \<and> (\<forall>x\<in>set (foldl (name_one unique) defined ss). \<not> reserved x)"
  using assms
proof (induction ss arbitrary: defined)
  case (Cons s ss)
  from Cons.prems have "length defined < room" by simp
  from name_one_distinct [OF Cons.prems(1) this Cons.prems(3), of s]
  have "distinct (name_one unique defined s)" "\<forall>x\<in>set (name_one unique defined s). \<not> reserved x" by simp_all
  moreover have "length (name_one unique defined s) + length ss \<le> room"
    using Cons.prems(2) by (simp add: name_one_def DefineObj_def)
  ultimately show ?case using Cons.IH by simp
qed simp

end

lemma digit_loop_chars: "set (digit_loop h n acc) \<subseteq> set acc \<union> DIGIT_TO_ASCII ` UNIV"
proof (induction h n acc rule: digit_loop.induct)
  case (1 h n acc)
  show ?case
  proof (cases "h > 0")
    case True
    from "1.IH" [OF True refl refl]
    have "set (digit_loop h n acc) \<subseteq> set (if n div h \<noteq> 0 then acc @ [DIGIT_TO_ASCII (n div h)] else acc) \<union> DIGIT_TO_ASCII ` UNIV"
      using True by (subst digit_loop.simps) (simp add: Let_def)
    also have "\<dots> \<subseteq> set acc \<union> DIGIT_TO_ASCII ` UNIV" by auto
    finally show ?thesis .
  qed (subst digit_loop.simps, simp)
qed

lemma isdigit_DIGIT: "isdigit (DIGIT_TO_ASCII d)"
proof -
  have "(of_char (char_of (d mod 10 + 48) :: char) :: nat) = d mod 10 + 48" by (simp add: of_char_of)
  then show ?thesis by (simp add: isdigit_def DIGIT_TO_ASCII_def)
qed

lemma AppendDigit_last: "isdigit (last (AppendDigit s d))"
proof -
  have "set (digit_loop 1000000000 (nat \<bar>d\<bar>) []) \<subseteq> DIGIT_TO_ASCII ` UNIV"
    using digit_loop_chars [of 1000000000 "nat \<bar>d\<bar>" "[]"] by simp
  then have "isdigit (last (digit_loop 1000000000 (nat \<bar>d\<bar>) []))" if "digit_loop 1000000000 (nat \<bar>d\<bar>) [] \<noteq> []"
    using last_in_set [OF that] isdigit_DIGIT by auto
  then show ?thesis by (auto simp: AppendDigit_def Let_def isdigit_def)
qed

lemma unique_loop_last: "isdigit (last (unique_loop names base m d))"
  using unique_loop_spec [of d m names base] AppendDigit_last by auto

lemma keyword_last:
  "IsCKeyWord w \<Longrightarrow> \<not> isdigit (last w)"
  "IsCxxKeyWord b w \<Longrightarrow> \<not> isdigit (last w)"
  by (auto simp: IsCKeyWord_def cKWdG_def IsCxxKeyWord_def cxxKWdG_def isdigit_def split: if_splits)

lemma ObjIsDefined_Str: "ObjIsDefined names s StrObjCmp \<longleftrightarrow> s \<in> set names"
  by (auto simp: ObjIsDefined_iff StrObjCmp_def)

lemma MakeUnique_namer:
  assumes "0 < k" "k \<le> 9" "\<And>w. reserved w \<Longrightarrow> \<not> isdigit (last w)"
  shows "namer (\<lambda>names s. if ObjIsDefined names s StrObjCmp \<or> reserved s then unique_loop names s (10 ^ k) 1 else s)
    reserved (9 ^ k)"
proof
  fix names :: "string list" and s
  let ?u = "if ObjIsDefined names s StrObjCmp \<or> reserved s then unique_loop names s (10 ^ k) 1 else s"
  show "?u \<notin> set names" if "length names < 9 ^ k"
    using unique_loop_fresh [OF that assms(1,2)] by (auto simp: ObjIsDefined_Str)
  show "\<not> reserved ?u" using assms(3) [of "unique_loop names s (10 ^ k) 1"] unique_loop_last [of names s "10 ^ k" 1] by auto
  show "?u = s" if "s \<notin> set names" "\<not> reserved s" using that by (simp add: ObjIsDefined_Str)
qed

text \<open>The digits that the rules of the back ends allow: four.\<close>

interpretation c_names: namer "\<lambda>names s. MakeCStrUnique names s 4 1" IsCKeyWord "9 ^ 4"
  unfolding MakeCStrUnique_def by (rule MakeUnique_namer) (simp_all add: keyword_last)

interpretation cxx_names: namer "\<lambda>names s. MakeCxxStrUnique b names s 4 1" "IsCxxKeyWord b" "9 ^ 4" for b
  unfolding MakeCxxStrUnique_def by (rule MakeUnique_namer) (simp_all add: keyword_last)

subsection \<open>Field names of a C++ class (\<open>c++-gen/types.c\<close>)\<close>

text \<open>A struct of the C++ back end gets a member for every element.  The first loop names those that
  have a name in the module, the second the others after their type.  The names of the classes
  and the names for built-in types (\<open>typeConvTbl\<close>) are arguments; \<open>None\<close> is a reference that
  is not linked.\<close>

fun named_pass :: "(string list \<Rightarrow> string \<Rightarrow> string) \<Rightarrow> string list \<Rightarrow> NamedType list \<Rightarrow> string option list \<times> string list" where
  "named_pass unique fieldNames [] = ([], fieldNames)"
| "named_pass unique fieldNames (NamedType a nm t # elmts) =
     (case Asn1FieldName2CFieldName nm of
        Some tmpName \<Rightarrow>
          (let cName = unique fieldNames tmpName;
               (names, fieldNames') = named_pass unique (DefineObj fieldNames cName) elmts
           in (Some cName # names, fieldNames'))
      | None \<Rightarrow>
          (let (names, fieldNames') = named_pass unique fieldNames elmts in (None # names, fieldNames')))"

fun lower_first :: "string \<Rightarrow> string" where
  "lower_first [] = []"
| "lower_first (c # cs) = (if isupper c then tolower c else c) # cs"

definition type_field_name ::
    "TypeDefs \<Rightarrow> (nat \<Rightarrow> string) \<Rightarrow> (nat \<Rightarrow> string) \<Rightarrow> Type \<Rightarrow> string option" where
  "type_field_name h className defaultFieldName t =
     (case ref_of (basicType t) of
        Some r \<Rightarrow>
          (case ref_link h r of
             None \<Rightarrow> None
           | Some d \<Rightarrow> map_option lower_first (Asn1TypeName2CTypeName (Some (className d))))
      | None \<Rightarrow> Some (lower_first (defaultFieldName (choiceId (basicType t)))))"

fun unnamed_pass ::
    "(string list \<Rightarrow> string \<Rightarrow> string) \<Rightarrow> TypeDefs \<Rightarrow> (nat \<Rightarrow> string) \<Rightarrow> (nat \<Rightarrow> string) \<Rightarrow>
     string list \<Rightarrow> (NamedType \<times> string option) list \<Rightarrow> (string list \<times> string list) option" where
  "unnamed_pass unique h className defaultFieldName fieldNames [] = Some ([], fieldNames)"
| "unnamed_pass unique h className defaultFieldName fieldNames ((et, Some cName) # elmts) =
     map_option (\<lambda>(names, fs). (cName # names, fs))
       (unnamed_pass unique h className defaultFieldName fieldNames elmts)"
| "unnamed_pass unique h className defaultFieldName fieldNames ((et, None) # elmts) =
     (case type_field_name h className defaultFieldName (ntType et) of
        None \<Rightarrow> None
      | Some tmpName \<Rightarrow>
          (let cName = unique fieldNames tmpName
           in map_option (\<lambda>(names, fs). (cName # names, fs))
                (unnamed_pass unique h className defaultFieldName (DefineObj fieldNames cName) elmts)))"

definition FillCxxFieldNames ::
    "bool \<Rightarrow> nat \<Rightarrow> TypeDefs \<Rightarrow> (nat \<Rightarrow> string) \<Rightarrow> (nat \<Rightarrow> string) \<Rightarrow> NamedType list \<Rightarrow> string list option" where
  "FillCxxFieldNames BOOL_BUILTIN maxDigits h className defaultFieldName elmts =
     (let unique = (\<lambda>names s. MakeCxxStrUnique BOOL_BUILTIN names s maxDigits 1);
          (names, fieldNames) = named_pass unique [] elmts
      in map_option fst (unnamed_pass unique h className defaultFieldName fieldNames (zip elmts names)))"

context namer
begin

lemma name_step:
  assumes "distinct defined" "length defined < room" "\<forall>x\<in>set defined. \<not> reserved x"
  shows "unique defined s \<notin> set defined" "\<not> reserved (unique defined s)"
  using assms fresh unreserved by auto

lemma named_pass_spec:
  assumes "named_pass unique defined elmts = (names, defined')"
    "distinct defined" "length defined + length elmts \<le> room" "\<forall>x\<in>set defined. \<not> reserved x"
  shows "length names = length elmts \<and> distinct defined' \<and> (\<forall>x\<in>set defined'. \<not> reserved x) \<and>
    mset defined' = mset defined + mset (List.map_filter (\<lambda>x. x) names)"
  using assms
proof (induction elmts arbitrary: defined names)
  case (Cons e elmts)
  obtain a nm t where e: "e = NamedType a nm t" by (cases e)
  show ?case
  proof (cases "Asn1FieldName2CFieldName nm")
    case None
    with Cons.prems e obtain names1 where n: "names = None # names1"
      "named_pass unique defined elmts = (names1, defined')" by (auto split: prod.splits)
    from Cons.IH [OF n(2)] Cons.prems n(1) show ?thesis by (simp add: map_filter_simps)
  next
    case (Some s)
    let ?d = "DefineObj defined (unique defined s)"
    from Some Cons.prems e obtain names1 where n: "names = Some (unique defined s) # names1"
      "named_pass unique ?d elmts = (names1, defined')" by (auto simp: Let_def split: prod.splits)
    have "length defined < room" using Cons.prems(3) by simp
    note s = name_step [OF Cons.prems(2) this Cons.prems(4), of s]
    from Cons.IH [OF n(2)] Cons.prems s n(1) show ?thesis
      by (simp add: DefineObj_def map_filter_simps)
  qed
qed (simp add: map_filter_simps)

lemma unnamed_pass_spec:
  assumes "unnamed_pass unique h cn dn defined elmts = Some (names, defined')"
    "distinct defined" "length defined + length (filter (\<lambda>e. snd e = None) elmts) \<le> room" "\<forall>x\<in>set defined. \<not> reserved x"
  shows "distinct defined' \<and> (\<forall>x\<in>set defined'. \<not> reserved x) \<and>
    mset defined' + mset (List.map_filter snd elmts) = mset defined + mset names"
  using assms
proof (induction elmts arbitrary: defined names)
  case (Cons e elmts)
  obtain et o' where e: "e = (et, o')" by (cases e)
  show ?case
  proof (cases o')
    case (Some c)
    with Cons.prems e obtain names1 where n: "names = c # names1"
      "unnamed_pass unique h cn dn defined elmts = Some (names1, defined')" by auto
    from Cons.IH [OF n(2)] Cons.prems n(1) e Some show ?thesis by (simp add: map_filter_simps)
  next
    case None
    with Cons.prems e obtain s where s: "type_field_name h cn dn (ntType et) = Some s"
      by (auto split: option.splits)
    let ?d = "DefineObj defined (unique defined s)"
    from None s Cons.prems e obtain names1 where n: "names = unique defined s # names1"
      "unnamed_pass unique h cn dn ?d elmts = Some (names1, defined')" by (auto simp: Let_def)
    have "length defined < room" using Cons.prems(3) e None by simp
    note f = name_step [OF Cons.prems(2) this Cons.prems(4), of s]
    from Cons.IH [OF n(2)] Cons.prems f n(1) e None show ?thesis
      by (simp add: DefineObj_def map_filter_simps)
  qed
qed (simp add: map_filter_simps)

end

lemma map_filter_zip:
  "length names = length elmts \<Longrightarrow> List.map_filter snd (zip elmts names) = List.map_filter (\<lambda>x. x) names"
proof (induction elmts names rule: list_induct2')
  case (4 e elmts n names)
  then show ?case by (cases n) (simp_all add: map_filter_simps)
qed (simp_all add: map_filter_simps)

lemma length_map_filter:
  "length names = length elmts \<Longrightarrow>
     length (List.map_filter (\<lambda>x. x) names) + length (filter (\<lambda>e. snd e = None) (zip elmts names)) = length elmts"
proof (induction elmts names rule: list_induct2')
  case (4 e elmts n names)
  then show ?case by (cases n) (simp_all add: map_filter_simps)
qed (simp_all add: map_filter_simps)

lemma length_unnamed_pass:
  "unnamed_pass u h cn dn fs elmts = Some (names, fs') \<Longrightarrow> length names = length elmts"
  by (induction u h cn dn fs elmts arbitrary: names fs' rule: unnamed_pass.induct)
    (auto simp: Let_def split: option.splits)

lemma FillCxxFieldNames_spec:
  assumes "FillCxxFieldNames b k h cn dn elmts = Some names" "0 < k" "k \<le> 9" "length elmts \<le> 9 ^ k"
  shows "length names = length elmts \<and> distinct names \<and> (\<forall>x\<in>set names. \<not> IsCxxKeyWord b x)"
proof -
  let ?u = "\<lambda>names s. MakeCxxStrUnique b names s k 1"
  have N: "namer ?u (IsCxxKeyWord b) (9 ^ k)"
    unfolding MakeCxxStrUnique_def by (rule MakeUnique_namer) (simp_all add: keyword_last assms)
  obtain names1 defined1 where p: "named_pass ?u [] elmts = (names1, defined1)" by fastforce
  with assms(1) obtain defined2 where u: "unnamed_pass ?u h cn dn defined1 (zip elmts names1) = Some (names, defined2)"
    by (auto simp: FillCxxFieldNames_def Let_def)
  from namer.named_pass_spec [OF N p] assms(4)
  have P: "length names1 = length elmts" "distinct defined1" "\<forall>x\<in>set defined1. \<not> IsCxxKeyWord b x"
    "mset defined1 = mset (List.map_filter (\<lambda>x. x) names1)" by simp_all
  from P(4) have "length defined1 = length (List.map_filter (\<lambda>x. x) names1)" by (rule mset_eq_length)
  with length_map_filter [OF P(1)] assms(4)
  have l: "length defined1 + length (filter (\<lambda>e. snd e = None) (zip elmts names1)) \<le> 9 ^ k" by simp
  from namer.unnamed_pass_spec [OF N u P(2) l P(3)]
  have U: "distinct defined2" "\<forall>x\<in>set defined2. \<not> IsCxxKeyWord b x" "mset defined2 = mset names"
    using P(4) by (simp_all add: map_filter_zip [OF P(1)])
  from length_unnamed_pass [OF u] P(1) have "length names = length elmts" by simp
  moreover from U(1,3) have "distinct names" by (metis mset_eq_imp_distinct_iff)
  moreover from U(2) mset_eq_setD [OF U(3)] have "\<forall>x\<in>set names. \<not> IsCxxKeyWord b x" by simp
  ultimately show ?thesis by blast
qed

lemma unnamed_pass_total:
  "(\<And>e. e \<in> set elmts \<Longrightarrow> type_field_name h cn dn (ntType (fst e)) \<noteq> None) \<Longrightarrow>
     unnamed_pass u h cn dn fs elmts \<noteq> None"
proof (induction elmts arbitrary: fs)
  case (Cons e elmts)
  obtain et o' where e: "e = (et, o')" by (cases e)
  from Cons.prems [of e] e obtain s where s: "type_field_name h cn dn (ntType et) = Some s" by auto
  have "unnamed_pass u h cn dn fs' elmts \<noteq> None" for fs'
    using Cons.prems by (intro Cons.IH) simp
  with s show ?case by (cases o') (simp_all add: e Let_def)
qed simp

lemma FillCxxFieldNames_total:
  assumes "\<And>e r. e \<in> set elmts \<Longrightarrow> ref_of (basicType (ntType e)) = Some r \<Longrightarrow> ref_link h r \<noteq> None"
  shows "FillCxxFieldNames b k h cn dn elmts \<noteq> None"
proof -
  obtain names fs where p: "named_pass (\<lambda>names s. MakeCxxStrUnique b names s k 1) [] elmts = (names, fs)"
    by (rule prod.exhaust)
  have "type_field_name h cn dn (ntType (fst e)) \<noteq> None" if "e \<in> set (zip elmts names)" for e
  proof -
    have "fst e \<in> set elmts" using set_zip_leftD [of "fst e" "snd e"] that by simp
    from assms [OF this] show ?thesis
      by (cases "ref_of (basicType (ntType (fst e)))")
        (auto simp: type_field_name_def Asn1TypeName2CTypeName_def simp del: ref_link_Some)
  qed
  from unnamed_pass_total [OF this] show ?thesis
    by (simp add: FillCxxFieldNames_def p Let_def)
qed

subsection \<open>Replacing ends, or does not\<close>

lemma strstr_Some: "strstr s sub = Some i \<Longrightarrow> \<exists>pre post. s = pre @ sub @ post \<and> length pre = i"
proof (induction s arbitrary: i)
  case Nil
  then show ?case by (subst (asm) strstr.simps) (simp split: if_splits)
next
  case (Cons c s)
  show ?case
  proof (cases "prefix sub (c # s)")
    case True
    with Cons.prems have "i = 0" by (subst (asm) strstr.simps) simp
    with True show ?thesis by (auto simp: prefix_def)
  next
    case False
    with Cons.prems obtain j where j: "strstr s sub = Some j" "i = Suc j"
      by (subst (asm) strstr.simps) auto
    from Cons.IH [OF j(1)] obtain pre post where "s = pre @ sub @ post" "length pre = j" by blast
    then have "c # s = (c # pre) @ sub @ post \<and> length (c # pre) = i" by (simp add: j)
    then show ?thesis by blast
  qed
qed

lemma strstr_None: "strstr s sub = None \<longleftrightarrow> \<not> sublist sub s"
proof (induction s)
  case Nil
  show ?case by (subst strstr.simps) simp
next
  case (Cons c s)
  then show ?case by (subst strstr.simps) (simp add: sublist_Cons_right)
qed

text \<open>A step cuts out the first occurrence and puts the replacement in its place.\<close>

lemma replace_loop_None: "\<not> sublist sub s \<Longrightarrow> replace_loop sub r s = Some s"
  by (subst replace_loop.simps) (simp add: strstr_None [THEN iffD2])

lemma replace_loop_step:
  assumes "sublist sub s"
  obtains pre post where "s = pre @ sub @ post"
    "replace_loop sub r s = replace_loop sub r (pre @ r @ post)"
proof -
  from assms obtain i where i: "strstr s sub = Some i" using strstr_None [of s sub] by auto
  from strstr_Some [OF i] obtain pre post where s: "s = pre @ sub @ post" "length pre = i" by blast
  with i have "replace_loop sub r s = replace_loop sub r (pre @ r @ post)"
    by (subst replace_loop.simps) simp
  with s(1) show thesis by (rule that)
qed

lemma replace_loop_total:
  "length r < length sub \<Longrightarrow> \<exists>t. replace_loop sub r s = Some t \<and> \<not> sublist sub t \<and> length t \<le> length s"
proof (induction s rule: length_induct)
  case (1 s)
  show ?case
  proof (cases "sublist sub s")
    case True
    then obtain pre post where s: "s = pre @ sub @ post"
      "replace_loop sub r s = replace_loop sub r (pre @ r @ post)" by (rule replace_loop_step)
    have l: "length (pre @ r @ post) < length s" using "1.prems" s(1) by simp
    from "1.IH" [rule_format, OF l "1.prems"] obtain t where "replace_loop sub r (pre @ r @ post) = Some t"
      "\<not> sublist sub t" "length t \<le> length (pre @ r @ post)" by blast
    then have "replace_loop sub r s = Some t \<and> \<not> sublist sub t \<and> length t \<le> length s" using s(2) l by simp
    then show ?thesis by (rule exI)
  qed (simp add: replace_loop_None)
qed

lemma replace_loop_endless:
  assumes "sublist sub r" "sublist sub s"
  shows "replace_loop sub r s = None"
proof -
  have "\<not> (sublist sub r \<and> sublist sub s)" if "replace_loop sub r s = Some t" for t
    using that
  proof (rule replace_loop.raw_induct [rotated])
    fix loop sub r s t
    assume IH: "\<And>sub r s t. loop sub r s = Some t \<Longrightarrow> \<not> (sublist sub r \<and> sublist sub s)"
      and eq: "(case strstr s sub of None \<Rightarrow> Some s
        | Some tok \<Rightarrow> loop sub r (take tok s @ r @ drop (tok + length sub) s)) = Some t"
    show "\<not> (sublist sub r \<and> sublist sub s)"
    proof
      assume a: "sublist sub r \<and> sublist sub s"
      then obtain i where i: "strstr s sub = Some i" using strstr_None [of s sub] by auto
      let ?s = "take i s @ r @ drop (i + length sub) s"
      from i eq have "loop sub r ?s = Some t" by simp
      from IH [OF this] a have "\<not> sublist sub ?s" by blast
      moreover have "sublist r ?s" by (rule sublist_appendI)
      ultimately show False using a by (meson sublist_order.order_trans)
    qed
  qed
  with assms show ?thesis by fastforce
qed

text \<open>Removing the two characters of a line break again and again is what one pass with a stack
  does.\<close>

definition strip_step :: "string \<Rightarrow> char \<Rightarrow> string" where
  "strip_step st c = (if c = CHR ''n'' \<and> st \<noteq> [] \<and> hd st = CHR 0x5C then tl st else c # st)"

definition strip_breaks :: "string \<Rightarrow> string" where
  "strip_breaks s = rev (foldl strip_step [] s)"

lemma strip_pair: "foldl strip_step st (pre @ [CHR 0x5C, CHR ''n''] @ post) = foldl strip_step st (pre @ post)"
  by (simp add: strip_step_def)

lemma strip_none:
  "\<not> sublist [CHR 0x5C, CHR ''n''] (rev st @ s) \<Longrightarrow> foldl strip_step st s = rev s @ st"
proof (induction s arbitrary: st)
  case (Cons c s)
  have "\<not> (c = CHR ''n'' \<and> st \<noteq> [] \<and> hd st = CHR 0x5C)"
  proof
    assume a: "c = CHR ''n'' \<and> st \<noteq> [] \<and> hd st = CHR 0x5C"
    then have "rev st @ c # s = rev (tl st) @ [CHR 0x5C, CHR ''n''] @ s" by (cases st) auto
    then have "sublist [CHR 0x5C, CHR ''n''] (rev st @ c # s)" unfolding sublist_def by blast
    with Cons.prems show False by blast
  qed
  then have "strip_step st c = c # st" unfolding strip_step_def by (rule if_not_P)
  moreover have "\<not> sublist [CHR 0x5C, CHR ''n''] (rev (c # st) @ s)" using Cons.prems by simp
  ultimately show ?case using Cons.IH [of "c # st"] by simp
qed simp

lemma replace_breaks: "replace_loop [CHR 0x5C, CHR ''n''] [] s = Some (strip_breaks s)"
proof (induction s rule: length_induct)
  case (1 s)
  show ?case
  proof (cases "sublist [CHR 0x5C, CHR ''n''] s")
    case True
    then obtain pre post where s: "s = pre @ [CHR 0x5C, CHR ''n''] @ post"
      "replace_loop [CHR 0x5C, CHR ''n''] [] s = replace_loop [CHR 0x5C, CHR ''n''] [] (pre @ [] @ post)"
      by (rule replace_loop_step)
    have "length (pre @ post) < length s" by (simp add: s(1))
    with "1.IH" have "replace_loop [CHR 0x5C, CHR ''n''] [] (pre @ post) = Some (strip_breaks (pre @ post))" by blast
    then show ?thesis using s(2) strip_pair [of "[]" pre post] by (simp add: strip_breaks_def s(1))
  next
    case False
    then show ?thesis using strip_none [of "[]" s] by (simp add: strip_breaks_def replace_loop_None)
  qed
qed

subsection \<open>Paths\<close>

lemma dropWhile_last: "c \<notin> set post \<Longrightarrow> dropWhile (\<lambda>x. x \<noteq> c) (rev (pre @ c # post)) = c # rev pre"
  by (induction post rule: rev_induct) auto

lemma strrchr_Some:
  "strrchr s c = Some i \<longleftrightarrow> (\<exists>pre post. s = pre @ c # post \<and> c \<notin> set post \<and> i = length pre)"
proof
  assume a: "strrchr s c = Some i"
  then have "c \<in> set s" by (simp add: strrchr_def split: if_splits)
  from split_list_last [OF this] obtain pre post where s: "s = pre @ c # post" "c \<notin> set post" by blast
  with a dropWhile_last [OF s(2), of pre] have "i = length pre" by (simp add: strrchr_def)
  with s show "\<exists>pre post. s = pre @ c # post \<and> c \<notin> set post \<and> i = length pre" by blast
next
  assume "\<exists>pre post. s = pre @ c # post \<and> c \<notin> set post \<and> i = length pre"
  then obtain pre post where s: "s = pre @ c # post" "c \<notin> set post" "i = length pre" by blast
  with dropWhile_last [OF s(2), of pre] show "strrchr s c = Some i" by (simp add: strrchr_def)
qed

lemma path_and_name: "(case getFilePath f of None \<Rightarrow> [] | Some p \<Rightarrow> p) @ RemovePath f = f"
proof (cases "strrchr f (CHR ''/'')")
  case (Some i)
  then obtain pre post where "f = pre @ CHR ''/'' # post" "i = length pre" using strrchr_Some by blast
  with Some show ?thesis by (simp add: getFilePath_def RemovePath_def)
qed (simp add: getFilePath_def RemovePath_def)

lemma RemovePath_no_slash: "CHR ''/'' \<notin> set (RemovePath f)"
proof (cases "strrchr f (CHR ''/'')")
  case None
  then show ?thesis by (simp add: RemovePath_def strrchr_def split: if_splits)
next
  case (Some i)
  then obtain pre post where "f = pre @ CHR ''/'' # post" "CHR ''/'' \<notin> set post" "i = length pre"
    using strrchr_Some by blast
  with Some show ?thesis by (simp add: RemovePath_def)
qed

subsection \<open>When no name is left\<close>

lemma filter_digs_wider:
  "n < 10 ^ k \<Longrightarrow> k \<le> j \<Longrightarrow> filter (\<lambda>d. d \<noteq> 0) (digs j n) = filter (\<lambda>d. d \<noteq> 0) (digs k n)"
proof (induction j)
  case (Suc j)
  show ?case
  proof (cases "k \<le> j")
    case True
    have "n < 10 ^ j" using less_le_trans [OF Suc.prems(1) power_increasing [OF True, of "10::nat"]] by simp
    with Suc True show ?thesis by (simp add: digs_Suc)
  next
    case False
    then have "k = Suc j" using Suc.prems by simp
    then show ?thesis by simp
  qed
qed simp

text \<open>The names tried are made of the base and up to so many digits other than zero.\<close>

definition numbered :: "string \<Rightarrow> nat \<Rightarrow> string set" where
  "numbered base k = {base @ w | w. w \<noteq> [] \<and> length w \<le> k \<and> set w \<subseteq> set ''123456789''}"

lemma nonzero_digits: "DIGIT_TO_ASCII ` {1..9} = set ''123456789''"
proof -
  have "map DIGIT_TO_ASCII [1..<10] = ''123456789''" by code_simp
  then have "set (map DIGIT_TO_ASCII [1..<10]) = set ''123456789''" by (rule arg_cong)
  moreover have "set [1..<10] = {1..9::nat}" by auto
  ultimately show ?thesis by (simp only: set_map)
qed

lemma numbered_digits:
  "numbered base k = {base @ map DIGIT_TO_ASCII ds | ds. ds \<noteq> [] \<and> length ds \<le> k \<and> set ds \<subseteq> {1..9}}"
    (is "_ = ?R")
proof
  show "numbered base k \<subseteq> ?R"
  proof
    fix x
    assume "x \<in> numbered base k"
    then obtain w where w: "x = base @ w" "w \<noteq> []" "length w \<le> k" "set w \<subseteq> DIGIT_TO_ASCII ` {1..9}"
      unfolding numbered_def nonzero_digits by blast
    then have "w \<in> map DIGIT_TO_ASCII ` lists {1..9}" by (simp add: in_lists_conv_set subset_iff flip: lists_image)
    then obtain ds where "w = map DIGIT_TO_ASCII ds" "set ds \<subseteq> {1..9}" by (auto simp: in_lists_conv_set)
    with w have "x = base @ map DIGIT_TO_ASCII ds \<and> ds \<noteq> [] \<and> length ds \<le> k \<and> set ds \<subseteq> {1..9}" by simp
    then show "x \<in> ?R" by blast
  qed
  have "set (map DIGIT_TO_ASCII ds) \<subseteq> set ''123456789''" if "set ds \<subseteq> {1..9}" for ds
    unfolding nonzero_digits [symmetric] using that by auto
  then show "?R \<subseteq> numbered base k" unfolding numbered_def by fastforce
qed

lemma AppendDigit_numbered:
  assumes "1 \<le> d" "d < 10 ^ k" "k \<le> 9"
  shows "AppendDigit s d \<in> numbered s k"
proof -
  define n where "n = nat d"
  have n: "0 < n" "n < 10 ^ k" using assms unfolding n_def by (simp_all add: nat_less_iff)
  let ?ds = "filter (\<lambda>d. d \<noteq> 0) (digs k n)"
  have "(10::int) ^ k \<le> 10 ^ 10" using assms(3) by (intro power_increasing) simp_all
  with AppendDigit_digs [of d s] assms filter_digs_wider [OF n(2), of 10]
  have a: "AppendDigit s d = s @ map DIGIT_TO_ASCII ?ds" by (simp add: n_def)
  have "number (digs k n) = n" using n(2) by (simp add: number_digs)
  with number_zeros [of "digs k n"] n(1) have 1: "?ds \<noteq> []" by auto
  have 2: "set ?ds \<subseteq> {1..9}" using digs_less [of _ k n] by fastforce
  have "length ?ds \<le> length (digs k n)" by (rule length_filter_le)
  then have "length ?ds \<le> k" by (simp add: digs_def)
  with 1 2 a show ?thesis unfolding numbered_digits by blast
qed

lemma unique_loop_taken_iff:
  assumes "0 < k" "k \<le> 9"
  shows "unique_loop names base (10 ^ k) 1 \<in> set names \<longleftrightarrow> numbered base k \<subseteq> set names"
proof
  have "(1::int) < 10 ^ k" by (rule one_less_power) (simp_all add: assms)
  then obtain e where e: "1 \<le> e" "e < 10 ^ k" "unique_loop names base (10 ^ k) 1 = AppendDigit base e"
    "AppendDigit base e \<in> set names \<longrightarrow> (\<forall>i. 1 \<le> i \<and> i < 10 ^ k \<longrightarrow> AppendDigit base i \<in> set names)"
    using unique_loop_spec [of 1 "10 ^ k" names base] by auto
  show "unique_loop names base (10 ^ k) 1 \<in> set names" if "numbered base k \<subseteq> set names"
    using AppendDigit_numbered [OF e(1,2) assms(2), of base] that e(3) by auto
  assume "unique_loop names base (10 ^ k) 1 \<in> set names"
  with e have all: "AppendDigit base i \<in> set names" if "1 \<le> i" "i < 10 ^ k" for i using that by simp
  show "numbered base k \<subseteq> set names"
  proof
    fix x
    assume "x \<in> numbered base k"
    then obtain ds where ds: "x = base @ map DIGIT_TO_ASCII ds" "ds \<noteq> []" "length ds \<le> k" "set ds \<subseteq> {1..9}"
      unfolding numbered_digits by blast
    have "number ds < 10 ^ length ds" by (rule number_less) (use ds(4) in auto)
    also have "\<dots> \<le> 10 ^ k" using ds(3) by (intro power_increasing) simp_all
    finally have "int (number ds) < int (10 ^ k)" by (simp only: of_nat_less_iff)
    then have "int (number ds) < 10 ^ k" by simp
    moreover have "number ds \<noteq> 0" using ds(2,4) by (cases ds) (auto simp: number_Cons)
    ultimately have "AppendDigit base (int (number ds)) \<in> set names" by (intro all) simp_all
    moreover have "length ds \<le> 10" using ds(3) assms(2) by simp
    ultimately show "x \<in> set names" using AppendDigit_number [OF ds(4,2), of base] ds(1) by simp
  qed
qed

end
