(* ===== verification/Comp_Link.thy ===== *)
theory Comp_Link
  imports Comp_Recursive Comp_Util
begin

section \<open>Linking type references (\<open>compiler/core/link-types.c\<close>, \<open>exports.c\<close>)\<close>

text \<open>
  After all files are parsed the compiler looks up what each module imports, then goes through the
  types of every module and points each reference to a definition: one of the module, or an
  imported one.  The definitions of all modules are one heap; a module has the indexes of its own.
  \<open>None\<close> as the result of a walk is a type whose payload is no part of \<open>BasicType\<close>: a macro, an
  object class and the types of its fields, a template.  Constraints and default values are no
  part of a type here, and the types they may hold are not linked; an \<open>ANY DEFINED BY\<close> comes with
  its link, and the pass leaves such a one alone.  A link of a selection stands for the element at
  its address and shows it as it is at that time.
\<close>

subsection \<open>Modules\<close>

record LinkElmt = ImportElmt +
  resolvedRef :: "nat option"

record ImportModule =
  impModName :: string
  impModOid :: "int list"
  importElmts :: "LinkElmt list"

text \<open>A value definition: its name, its type if there is one, and the id of the type of the
  value.\<close>

record ValueDef =
  valueName :: string
  valueExported :: bool
  valuesType :: "Type option"
  valueType :: nat

datatype ModuleStatus = MOD_OK | MOD_NOT_LINKED | MOD_ERROR

datatype ExportStatus = EXPORTS_ALL | EXPORTS_NOTHING | EXPORTS_SOME

record LinkModule =
  mStatus :: ModuleStatus
  modIdName :: string
  modIdOid :: "int list"
  exportStatus :: ExportStatus
  mImports :: "ImportModule list"
  mTypeDefs :: "nat list"
  mValueDefs :: "ValueDef list"
  ImportUsed :: bool

datatype LinkMessage =
    NoSuchModule string "LinkElmt list"
  | NotExported string string string
  | NotDefinedThere string string string
  | SelectionDefinesType
  | SelectionOfNoChoice
  | SelectionNoField string string
  | NoImportList string string
  | NoImportElmt string string
  | Unresolved string
  | NotDefinedOrImported string
  | UnknownTypeId
  | ExportUndefined string

text \<open>What a pass over one module changes: the definitions, whether the status of the module is
  \<open>MOD_ERROR\<close>, its flag for used imports, and what is printed.\<close>

record LinkState =
  defs :: TypeDefs
  linkErr :: bool
  usedImport :: bool
  linkOut :: "LinkMessage list"

definition tell :: "LinkMessage \<Rightarrow> LinkState \<Rightarrow> LinkState" where
  "tell msg s = s\<lparr>linkOut := linkOut s @ [msg]\<rparr>"

definition refuse :: "LinkMessage \<Rightarrow> LinkState \<Rightarrow> LinkState" where
  "refuse msg s = s\<lparr>linkErr := True, linkOut := linkOut s @ [msg]\<rparr>"

definition count_local :: "nat \<Rightarrow> LinkState \<Rightarrow> LinkState" where
  "count_local d s =
     s\<lparr>defs := (defs s)[d := (defs s ! d)\<lparr>localRefCount := localRefCount (defs s ! d) + 1\<rparr>]\<rparr>"

definition count_import :: "nat \<Rightarrow> LinkState \<Rightarrow> LinkState" where
  "count_import d s =
     s\<lparr>defs := (defs s)[d := (defs s ! d)\<lparr>importRefCount := importRefCount (defs s ! d) + 1\<rparr>]\<rparr>"

lemmas link_state_defs = tell_def refuse_def count_local_def count_import_def

subsection \<open>Looking up\<close>

definition LookupType :: "TypeDefs \<Rightarrow> nat list \<Rightarrow> string \<Rightarrow> nat option" where
  "LookupType h typeDefList name = find (\<lambda>td. definedName (h ! td) = name) typeDefList"

definition LookupValue :: "ValueDef list \<Rightarrow> string \<Rightarrow> ValueDef option" where
  "LookupValue valueList name = find (\<lambda>v. valueName v = name) valueList"

definition LookupModule :: "LinkModule list \<Rightarrow> string \<Rightarrow> int list \<Rightarrow> LinkModule option" where
  "LookupModule moduleList modName oid =
     find (\<lambda>m. if CompareOids oid (modIdOid m) then True else modIdName m = modName) moduleList"

definition LookupImportElmtInImportElmtList :: "LinkElmt list \<Rightarrow> string \<Rightarrow> LinkElmt option" where
  "LookupImportElmtInImportElmtList impElmtList name = find (\<lambda>e. importName e = name) impElmtList"

definition LookupImportModule :: "ImportModule list \<Rightarrow> string \<Rightarrow> ImportModule option" where
  "LookupImportModule imps importModuleName = find (\<lambda>im. impModName im = importModuleName) imps"

fun LookupImportElmtInModule :: "ImportModule list \<Rightarrow> string \<Rightarrow> LinkElmt option" where
  "LookupImportElmtInModule [] name = None"
| "LookupImportElmtInModule (importMod # imps) name =
     (case LookupImportElmtInImportElmtList (importElmts importMod) name of
        Some e \<Rightarrow> Some e
      | None \<Rightarrow> LookupImportElmtInModule imps name)"

text \<open>The field of a type, through references; \<open>None\<close> also when the type has no fields.\<close>

definition LookupFieldInType :: "TypeDefs \<Rightarrow> Type \<Rightarrow> string \<Rightarrow> NamedType option" where
  "LookupFieldInType h tRef name =
     (case basicType (ParanoidGetType h tRef) of
        BASICTYPE_SET es \<Rightarrow> find (\<lambda>e. fieldName e = Some name) es
      | BASICTYPE_SEQUENCE es \<Rightarrow> find (\<lambda>e. fieldName e = Some name) es
      | BASICTYPE_CHOICE es \<Rightarrow> find (\<lambda>e. fieldName e = Some name) es
      | _ \<Rightarrow> None)"

text \<open>A reference of the form \<open>Module.Type\<close> that the parser meets is entered into the imports.
  The element added to a list that exists does not get the private scope.\<close>

fun add_to_list :: "string \<Rightarrow> string \<Rightarrow> ImportModule list \<Rightarrow> ImportModule list" where
  "add_to_list name refdModuleName [] = []"
| "add_to_list name refdModuleName (im # ims) =
     (if impModName im = refdModuleName
      then (case LookupImportElmtInImportElmtList (importElmts im) name of
              None \<Rightarrow>
                im\<lparr>importElmts := importElmts im @
                     [\<lparr>importName = name, privateScope = False, resolvedRef = None\<rparr>]\<rparr> # ims
            | Some ie \<Rightarrow> im # ims)
      else im # add_to_list name refdModuleName ims)"

definition AddPrivateImportElmt :: "string \<Rightarrow> string \<Rightarrow> ImportModule list \<Rightarrow> ImportModule list" where
  "AddPrivateImportElmt name refdModuleName ims =
     (case LookupImportModule ims refdModuleName of
        None \<Rightarrow>
          ims @ [\<lparr>impModName = refdModuleName, impModOid = [],
                  importElmts = [\<lparr>importName = name, privateScope = True, resolvedRef = None\<rparr>]\<rparr>]
      | Some impMod \<Rightarrow> add_to_list name refdModuleName ims)"

subsection \<open>Exports (\<open>exports.c\<close>)\<close>

definition set_exported :: "bool \<Rightarrow> nat list \<Rightarrow> TypeDefs \<Rightarrow> TypeDefs" where
  "set_exported b tds h = foldl (\<lambda>h td. h[td := (h ! td)\<lparr>exported := b\<rparr>]) h tds"

fun export_value :: "string \<Rightarrow> ValueDef list \<Rightarrow> ValueDef list" where
  "export_value name [] = []"
| "export_value name (v # vs) =
     (if valueName v = name then v\<lparr>valueExported := True\<rparr> # vs else v # export_value name vs)"

fun export_elmts :: "nat list \<Rightarrow> string list \<Rightarrow> TypeDefs \<times> ValueDef list \<times> LinkMessage list \<Rightarrow>
    TypeDefs \<times> ValueDef list \<times> LinkMessage list" where
  "export_elmts tds [] s = s"
| "export_elmts tds (e # es) (h, vs, out) =
     (case LookupType h tds e of
        Some td \<Rightarrow> export_elmts tds es (h[td := (h ! td)\<lparr>exported := True\<rparr>], vs, out)
      | None \<Rightarrow>
          (case LookupValue vs e of
             Some vd \<Rightarrow> export_elmts tds es (h, export_value e vs, out)
           | None \<Rightarrow> export_elmts tds es (h, vs, out @ [ExportUndefined e])))"

text \<open>\<open>None\<close>: no \<open>EXPORTS\<close> in the module.\<close>

definition SetExports :: "LinkModule \<Rightarrow> string list option \<Rightarrow> TypeDefs \<Rightarrow> LinkModule \<times> TypeDefs \<times> LinkMessage list" where
  "SetExports m exports h =
     (case exports of
        None \<Rightarrow> (m\<lparr>exportStatus := EXPORTS_ALL,
                   mValueDefs := map (\<lambda>v. v\<lparr>valueExported := True\<rparr>) (mValueDefs m)\<rparr>,
                 set_exported True (mTypeDefs m) h, [])
      | Some e \<Rightarrow>
          (let (h', vs, out) =
             export_elmts (mTypeDefs m) e
               (set_exported False (mTypeDefs m) h, map (\<lambda>v. v\<lparr>valueExported := False\<rparr>) (mValueDefs m), [])
           in (m\<lparr>exportStatus := (if e = [] then EXPORTS_NOTHING else EXPORTS_SOME), mValueDefs := vs\<rparr>, h', out)))"

subsection \<open>Imports\<close>

text \<open>The elements of one import list; only names that begin with an upper case letter are types.\<close>

fun link_elmts :: "string \<Rightarrow> LinkModule \<Rightarrow> LinkElmt list \<Rightarrow> LinkState \<Rightarrow> LinkElmt list \<times> LinkState" where
  "link_elmts currName impRefMod [] s = ([], s)"
| "link_elmts currName impRefMod (e # es) s =
     (let (e', s') =
        (if \<not> starts isupper (importName e) then (e, s)
         else case LookupType (defs s) (mTypeDefs impRefMod) (importName e) of
                Some t \<Rightarrow>
                  (e\<lparr>resolvedRef := Some t\<rparr>,
                   (count_import t
                      (if exported (defs s ! t) then s
                       else refuse (NotExported currName (importName e) (modIdName impRefMod)) s))
                     \<lparr>usedImport := True\<rparr>)
              | None \<Rightarrow> (e, refuse (NotDefinedThere (importName e) (modIdName impRefMod) currName) s));
          (es', s'') = link_elmts currName impRefMod es s'
      in (e' # es', s''))"

fun link_imports :: "LinkModule list \<Rightarrow> string \<Rightarrow> ImportModule list \<Rightarrow> LinkState \<Rightarrow> ImportModule list \<times> LinkState" where
  "link_imports mods currName [] s = ([], s)"
| "link_imports mods currName (im # ims) s =
     (let (im', s') =
        (case LookupModule mods (impModName im) (impModOid im) of
           None \<Rightarrow> (im, refuse (NoSuchModule (impModName im) (importElmts im)) s)
         | Some impRefMod \<Rightarrow>
             (let (es, s1) = link_elmts currName impRefMod (importElmts im) s
              in (im\<lparr>importElmts := es\<rparr>, s1)));
          (ims', s'') = link_imports mods currName ims s'
      in (im' # ims', s''))"

text \<open>What a pass starts with in a module, and what it leaves there.\<close>

definition enter_module :: "LinkModule \<Rightarrow> TypeDefs \<times> LinkMessage list \<Rightarrow> LinkState" where
  "enter_module m ho =
     \<lparr>defs = fst ho, linkErr = (mStatus m = MOD_ERROR), usedImport = ImportUsed m, linkOut = snd ho\<rparr>"

definition leave_module :: "LinkState \<Rightarrow> LinkModule \<Rightarrow> LinkModule" where
  "leave_module s m =
     m\<lparr>mStatus := (if linkErr s then MOD_ERROR else mStatus m), ImportUsed := usedImport s\<rparr>"

text \<open>All modules are looked up in the list as it was: what changes is not looked at.\<close>

fun link_import_lists :: "LinkModule list \<Rightarrow> LinkModule list \<Rightarrow> TypeDefs \<times> LinkMessage list \<Rightarrow>
    LinkModule list \<times> TypeDefs \<times> LinkMessage list" where
  "link_import_lists mods [] ho = ([], ho)"
| "link_import_lists mods (m # ms) ho =
     (let (ims, s) = link_imports mods (modIdName m) (mImports m) (enter_module m ho);
          (ms', ho') = link_import_lists mods ms (defs s, linkOut s)
      in ((leave_module s m)\<lparr>mImports := ims\<rparr> # ms', ho'))"

definition TypeLinkImportLists :: "LinkModule list \<Rightarrow> TypeDefs \<times> LinkMessage list \<Rightarrow>
    LinkModule list \<times> TypeDefs \<times> LinkMessage list" where
  "TypeLinkImportLists mods ho = link_import_lists mods mods ho"

subsection \<open>Types\<close>

text \<open>A reference to an import element that was found.\<close>

definition link_to_elmt :: "LinkElmt \<Rightarrow> TypeRef \<Rightarrow> LinkState \<Rightarrow> TypeRef \<times> LinkState" where
  "link_to_elmt impElmt r s =
     (case resolvedRef impElmt of
        Some d \<Rightarrow> (r\<lparr>link := Some d\<rparr>, count_import d s)
      | None \<Rightarrow> (r, tell (Unresolved (importName impElmt)) s))"

definition link_import_ref :: "ImportModule list \<Rightarrow> TypeRef \<Rightarrow> LinkState \<Rightarrow> TypeRef \<times> LinkState" where
  "link_import_ref imps r s =
     (case moduleName r of
        Some m \<Rightarrow>
          (case LookupImportModule imps m of
             None \<Rightarrow> (r, refuse (NoImportList m (typeName r)) s)
           | Some impMod \<Rightarrow>
               (case LookupImportElmtInImportElmtList (importElmts impMod) (typeName r) of
                  None \<Rightarrow> (r, refuse (NoImportElmt m (typeName r)) s)
                | Some impElmt \<Rightarrow> link_to_elmt impElmt r s))
      | None \<Rightarrow>
          (case LookupImportElmtInModule imps (typeName r) of
             None \<Rightarrow> (r, refuse (NotDefinedOrImported (typeName r)) s)
           | Some impElmt \<Rightarrow>
               if privateScope impElmt then (r, refuse (NotDefinedOrImported (typeName r)) s)
               else link_to_elmt impElmt r s))"

definition link_ref :: "ImportModule list \<Rightarrow> nat list \<Rightarrow> BasicType \<Rightarrow> TypeRef \<Rightarrow> LinkState \<Rightarrow> BasicType \<times> LinkState" where
  "link_ref imps tds bt r s =
     (case (bt, LookupType (defs s) tds (typeName r)) of
        (BASICTYPE_LOCALTYPEREF _, Some d) \<Rightarrow> (BASICTYPE_LOCALTYPEREF (r\<lparr>link := Some d\<rparr>), count_local d s)
      | _ \<Rightarrow> (let (r', s') = link_import_ref imps r s in (BASICTYPE_IMPORTTYPEREF r', s')))"

text \<open>A selection whose reference is linked by now: the element it selects.\<close>

definition link_selection :: "Type \<Rightarrow> string \<Rightarrow> NamedType option \<Rightarrow> LinkState \<Rightarrow> NamedType option \<times> LinkState" where
  "link_selection t name lnk s =
     (case ref_of (basicType t) of
        None \<Rightarrow> (lnk, refuse SelectionDefinesType s)
      | Some r \<Rightarrow>
          (case ref_link (defs s) r of
             None \<Rightarrow> (lnk, s\<lparr>linkErr := True\<rparr>)
           | Some d \<Rightarrow>
               (case basicType (ParanoidGetType (defs s) (tdtype (defs s) d)) of
                  BASICTYPE_CHOICE _ \<Rightarrow>
                    (case LookupFieldInType (defs s) (tdtype (defs s) d) name of
                       None \<Rightarrow> (lnk, refuse (SelectionNoField name (definedName (defs s ! d))) s)
                     | Some e \<Rightarrow> (Some e, s))
                | _ \<Rightarrow> (lnk, refuse SelectionOfNoChoice s))))"

function (sequential) TypeLinkType :: "ImportModule list \<Rightarrow> nat list \<Rightarrow> Type \<Rightarrow> LinkState \<Rightarrow> (Type \<times> LinkState) option"
  and TypeLinkElmtTypes :: "ImportModule list \<Rightarrow> nat list \<Rightarrow> NamedType list \<Rightarrow> LinkState \<Rightarrow> (NamedType list \<times> LinkState) option" where
  "TypeLinkType imps tds (Type opt impl tgs dflt ci cxi bt) s =
     map_option (\<lambda>(bt', s'). (Type opt impl tgs dflt ci cxi bt', s'))
       (case bt of
          BASICTYPE_SEQUENCE es \<Rightarrow> map_option (map_prod BASICTYPE_SEQUENCE id) (TypeLinkElmtTypes imps tds es s)
        | BASICTYPE_SET es \<Rightarrow> map_option (map_prod BASICTYPE_SET id) (TypeLinkElmtTypes imps tds es s)
        | BASICTYPE_CHOICE es \<Rightarrow> map_option (map_prod BASICTYPE_CHOICE id) (TypeLinkElmtTypes imps tds es s)
        | BASICTYPE_BITCONTAINING t \<Rightarrow> map_option (map_prod BASICTYPE_BITCONTAINING id) (TypeLinkType imps tds t s)
        | BASICTYPE_SEQUENCEOF t \<Rightarrow> map_option (map_prod BASICTYPE_SEQUENCEOF id) (TypeLinkType imps tds t s)
        | BASICTYPE_SETOF t \<Rightarrow> map_option (map_prod BASICTYPE_SETOF id) (TypeLinkType imps tds t s)
        | BASICTYPE_COMPONENTSOF t \<Rightarrow> map_option (map_prod BASICTYPE_COMPONENTSOF id) (TypeLinkType imps tds t s)
        | BASICTYPE_SELECTION t name lnk \<Rightarrow>
            map_option (\<lambda>(t', s'). map_prod (BASICTYPE_SELECTION t' name) id (link_selection t' name lnk s'))
              (TypeLinkType imps tds t s)
        | BASICTYPE_LOCALTYPEREF r \<Rightarrow> Some (link_ref imps tds bt r s)
        | BASICTYPE_IMPORTTYPEREF r \<Rightarrow> Some (link_ref imps tds bt r s)
        | BASICTYPE_OBJECTCLASS _ \<Rightarrow> None
        | Plain p \<Rightarrow>
            if p \<in> {BASICTYPE_MACROTYPE, BASICTYPE_SEQUENCET, BASICTYPE_OBJECTCLASSFIELDTYPE} then None
            else if p \<in> {BASICTYPE_OBJECTDESCRIPTOR, BASICTYPE_ASNSYSTEMTIME} then Some (bt, tell UnknownTypeId s)
            else Some (bt, s)
        | _ \<Rightarrow> Some (bt, s))"
| "TypeLinkElmtTypes imps tds [] s = Some ([], s)"
| "TypeLinkElmtTypes imps tds (NamedType a nm t # es) s =
     obind (TypeLinkType imps tds t s)
       (\<lambda>(t', s'). map_option (map_prod ((#) (NamedType a nm t')) id) (TypeLinkElmtTypes imps tds es s'))"
  by pat_completeness auto
termination
  by (relation "measure (\<lambda>x. case x of Inl (_, _, t, _) \<Rightarrow> size t | Inr (_, _, es, _) \<Rightarrow> size_list size es)") auto

subsection \<open>Modules\<close>

definition TypeLinkTypeDef :: "ImportModule list \<Rightarrow> nat list \<Rightarrow> nat \<Rightarrow> LinkState \<Rightarrow> LinkState option" where
  "TypeLinkTypeDef imps tds head s =
     map_option (\<lambda>(t, s'). s'\<lparr>defs := (defs s')[head := (defs s' ! head)\<lparr>tdType := t\<rparr>]\<rparr>)
       (TypeLinkType imps tds (tdtype (defs s) head) s)"

definition TypeLinkValueDef :: "ImportModule list \<Rightarrow> nat list \<Rightarrow> ValueDef \<Rightarrow> LinkState \<Rightarrow> (ValueDef \<times> LinkState) option" where
  "TypeLinkValueDef imps tds v s =
     (case valuesType v of
        None \<Rightarrow> Some (v, s)
      | Some t \<Rightarrow>
          map_option (\<lambda>(t', s').
              (v\<lparr>valuesType := Some t',
                 valueType := (if valueType v = 0 then choiceId (basicType t') else valueType v)\<rparr>, s'))
            (TypeLinkType imps tds t s))"

fun link_typeDefs :: "ImportModule list \<Rightarrow> nat list \<Rightarrow> nat list \<Rightarrow> LinkState \<Rightarrow> LinkState option" where
  "link_typeDefs imps tds [] s = Some s"
| "link_typeDefs imps tds (td # ds) s = obind (TypeLinkTypeDef imps tds td s) (link_typeDefs imps tds ds)"

fun link_valueDefs :: "ImportModule list \<Rightarrow> nat list \<Rightarrow> ValueDef list \<Rightarrow> LinkState \<Rightarrow> (ValueDef list \<times> LinkState) option" where
  "link_valueDefs imps tds [] s = Some ([], s)"
| "link_valueDefs imps tds (v # vs) s =
     obind (TypeLinkValueDef imps tds v s)
       (\<lambda>(v', s'). map_option (map_prod ((#) v') id) (link_valueDefs imps tds vs s'))"

fun link_modules :: "LinkModule list \<Rightarrow> TypeDefs \<times> LinkMessage list \<Rightarrow> int \<Rightarrow>
    (LinkModule list \<times> (TypeDefs \<times> LinkMessage list) \<times> int) option" where
  "link_modules [] ho err = Some ([], ho, err)"
| "link_modules (m # ms) ho err =
     obind (link_typeDefs (mImports m) (mTypeDefs m) (mTypeDefs m) (enter_module m ho)) (\<lambda>s1.
     obind (link_valueDefs (mImports m) (mTypeDefs m) (mValueDefs m) s1) (\<lambda>(vs, s2).
       map_option (\<lambda>(ms', ho', err').
           ((leave_module s2 m)
              \<lparr>mValueDefs := vs, mStatus := (if linkErr s2 then MOD_ERROR else MOD_OK)\<rparr> # ms', ho', err'))
         (link_modules ms (defs s2, linkOut s2) (if linkErr s2 then -1 else err))))"

definition LinkTypeRefs :: "LinkModule list \<Rightarrow> TypeDefs \<Rightarrow>
    (LinkModule list \<times> (TypeDefs \<times> LinkMessage list) \<times> int) option" where
  "LinkTypeRefs m h = (let (m', ho) = TypeLinkImportLists m (h, []) in link_modules m' ho 0)"

subsection \<open>What linking keeps\<close>

text \<open>Names and exports of the definitions stay, and a status that is set.\<close>

definition sig :: "TypeDefs \<Rightarrow> (string \<times> bool) list" where
  "sig h = map (\<lambda>d. (definedName d, exported d)) h"

lemma sig_length: "sig h' = sig h \<Longrightarrow> length h' = length h"
  by (metis length_map sig_def)

lemma sig_nth:
  assumes "sig h' = sig h" "d < length h"
  shows "definedName (h' ! d) = definedName (h ! d)" "exported (h' ! d) = exported (h ! d)"
proof -
  have "sig x ! d = (definedName (x ! d), exported (x ! d))" if "d < length x" for x
    using that by (simp add: sig_def)
  with assms sig_length [OF assms(1)]
  show "definedName (h' ! d) = definedName (h ! d)" "exported (h' ! d) = exported (h ! d)"
    by (metis prod.inject)+
qed

lemma sig_update:
  "definedName x = definedName (h ! d) \<Longrightarrow> exported x = exported (h ! d) \<Longrightarrow> sig (h[d := x]) = sig h"
  by (cases "d < length h") (auto simp: sig_def map_update intro: list_eq_iff_nth_eq [THEN iffD2] simp: nth_list_update)

definition grows :: "LinkState \<Rightarrow> LinkState \<Rightarrow> bool" where
  "grows s s' \<longleftrightarrow> sig (defs s') = sig (defs s) \<and> (linkErr s \<longrightarrow> linkErr s')"

definition keeps :: "LinkState \<Rightarrow> LinkState \<Rightarrow> bool" where
  "keeps s s' \<longleftrightarrow> grows s s' \<and> map tdType (defs s') = map tdType (defs s)"

lemma grows_refl: "grows s s"
  by (simp add: grows_def)

lemma grows_trans: "grows s s' \<Longrightarrow> grows s' s'' \<Longrightarrow> grows s s''"
  by (auto simp: grows_def)

lemma keeps_refl: "keeps s s"
  by (simp add: keeps_def grows_refl)

lemma keeps_trans: "keeps s s' \<Longrightarrow> keeps s' s'' \<Longrightarrow> keeps s s''"
  by (auto simp: keeps_def intro: grows_trans)

lemma keeps_grows: "keeps s s' \<Longrightarrow> grows s s'"
  by (simp add: keeps_def)

lemma map_same_update: "f x = f (h ! d) \<Longrightarrow> map f (h[d := x]) = map f h"
  by (cases "d < length h") (auto intro!: nth_equalityI simp: nth_list_update)

lemma keeps_ops:
  "keeps s (tell msg s)" "keeps s (refuse msg s)" "keeps s (count_local d s)" "keeps s (count_import d s)"
  "keeps s (s\<lparr>linkErr := True\<rparr>)"
  by (simp_all add: keeps_def grows_def link_state_defs sig_update map_same_update)

lemma linkErr_ops [simp]:
  "linkErr (tell msg s) = linkErr s" "linkErr (refuse msg s)" "linkErr (count_local d s) = linkErr s"
  "linkErr (count_import d s) = linkErr s"
  by (simp_all add: link_state_defs)

lemma keeps_link_to_elmt: "link_to_elmt e r s = (r', s') \<Longrightarrow> keeps s s'"
  by (auto simp: link_to_elmt_def keeps_ops split: option.splits)

lemma keeps_link_import_ref: "link_import_ref imps r s = (r', s') \<Longrightarrow> keeps s s'"
  by (auto simp: link_import_ref_def keeps_ops keeps_link_to_elmt split: option.splits if_splits)

lemma keeps_link_ref: "link_ref imps tds bt r s = (bt', s') \<Longrightarrow> keeps s s'"
  by (auto simp: link_ref_def keeps_ops keeps_link_import_ref split: BasicType.splits option.splits prod.splits)

lemma keeps_link_selection: "link_selection t name lnk s = (lnk', s') \<Longrightarrow> keeps s s'"
  by (auto simp: link_selection_def keeps_ops keeps_refl split: BasicType.splits option.splits simp del: ref_link_Some)

subsection \<open>What is linked\<close>

text \<open>The references that the pass goes through, in every position but the contents of an
  \<open>OCTET STRING\<close>, which it leaves out.\<close>

inductive link_refs :: "Type \<Rightarrow> TypeRef \<Rightarrow> bool" where
  here: "bt \<in> {BASICTYPE_LOCALTYPEREF r, BASICTYPE_IMPORTTYPEREF r} \<Longrightarrow>
    link_refs (Type opt impl tgs dflt ci cxi bt) r"
| elmt: "bt \<in> {BASICTYPE_CHOICE es, BASICTYPE_SET es, BASICTYPE_SEQUENCE es} \<Longrightarrow>
    NamedType a nm t \<in> set es \<Longrightarrow> link_refs t r \<Longrightarrow> link_refs (Type opt impl tgs dflt ci cxi bt) r"
| inner: "bt \<in> {BASICTYPE_SETOF t, BASICTYPE_SEQUENCEOF t, BASICTYPE_BITCONTAINING t, BASICTYPE_COMPONENTSOF t,
      BASICTYPE_SELECTION t name lnk} \<Longrightarrow>
    link_refs t r \<Longrightarrow> link_refs (Type opt impl tgs dflt ci cxi bt) r"

inductive_cases link_refsE: "link_refs (Type opt impl tgs dflt ci cxi bt) r"

lemma refers_link_refs: "refers t r \<Longrightarrow> link_refs t r"
proof (induction rule: refers.induct)
  case (listof bt t r opt impl tgs dflt ci cxi)
  then show ?case by (auto intro: link_refs.inner)
qed (auto intro: link_refs.here link_refs.elmt)

text \<open>An import is resolved: to an exported definition with its name.\<close>

definition resolved :: "TypeDefs \<Rightarrow> LinkElmt \<Rightarrow> bool" where
  "resolved h e \<longleftrightarrow> (\<exists>d<length h. resolvedRef e = Some d \<and> definedName (h ! d) = importName e)"

definition imports_ok :: "TypeDefs \<Rightarrow> ImportModule list \<Rightarrow> bool" where
  "imports_ok h imps \<longleftrightarrow>
     (\<forall>im\<in>set imps. \<forall>e\<in>set (importElmts im). starts isupper (importName e) \<longrightarrow> resolved h e)"

text \<open>A reference is linked to a definition with its name, of the module or an imported one.\<close>

definition linked :: "ImportModule list \<Rightarrow> nat list \<Rightarrow> TypeDefs \<Rightarrow> TypeRef \<Rightarrow> bool" where
  "linked imps tds h r \<longleftrightarrow>
     (\<exists>d<length h. link r = Some d \<and> definedName (h ! d) = typeName r \<and>
        (d \<in> set tds \<or> (\<exists>im\<in>set imps. \<exists>e\<in>set (importElmts im). resolvedRef e = Some d)))"

lemma sig_ok:
  assumes "sig h' = sig h"
  shows "resolved h' e = resolved h e" "imports_ok h' imps = imports_ok h imps"
    "linked imps tds h' r = linked imps tds h r"
proof -
  note S = sig_length [OF assms] sig_nth [OF assms]
  have r: "resolved h' e = resolved h e" for e
    unfolding resolved_def S(1) by (simp add: S(2) cong: conj_cong)
  then show "resolved h' e = resolved h e" "imports_ok h' imps = imports_ok h imps"
    by (simp_all add: imports_ok_def)
  show "linked imps tds h' r = linked imps tds h r"
    unfolding linked_def S(1) by (simp add: S(2) cong: conj_cong)
qed

lemma find_SomeD: "find P xs = Some x \<Longrightarrow> x \<in> set xs \<and> P x"
  by (auto simp: find_Some_iff)

lemma LookupImportElmt_Some:
  "LookupImportElmtInModule imps name = Some e \<Longrightarrow>
     \<exists>im\<in>set imps. e \<in> set (importElmts im) \<and> importName e = name"
proof (induction imps)
  case (Cons im imps)
  show ?case
  proof (cases "LookupImportElmtInImportElmtList (importElmts im) name")
    case None
    with Cons show ?thesis by auto
  next
    case (Some e')
    with Cons.prems have "e \<in> set (importElmts im) \<and> importName e = name"
      using find_SomeD [of "\<lambda>e. importName e = name" "importElmts im" e]
      by (simp add: LookupImportElmtInImportElmtList_def)
    then show ?thesis by simp
  qed
qed simp

lemma link_to_elmt_linked:
  assumes "link_to_elmt e r s = (r', s')" "imports_ok (defs s) imps" "im \<in> set imps" "e \<in> set (importElmts im)"
    "importName e = typeName r" "starts isupper (typeName r)"
  shows "linked imps tds (defs s') r'"
proof -
  from assms have "resolved (defs s) e" by (auto simp: imports_ok_def)
  then obtain d where d: "d < length (defs s)" "resolvedRef e = Some d" "definedName (defs s ! d) = importName e"
    unfolding resolved_def by blast
  then have r': "r' = r\<lparr>link := Some d\<rparr>" using assms(1) by (simp add: link_to_elmt_def)
  have "linked imps tds (defs s) r'" unfolding linked_def r' using d assms(3-5) by auto
  moreover have "sig (defs s') = sig (defs s)"
    using keeps_link_to_elmt [OF assms(1)] by (simp add: keeps_def grows_def)
  ultimately show ?thesis using sig_ok(3) by blast
qed

lemma link_to_elmt_name: "link_to_elmt e r s = (r', s') \<Longrightarrow> typeName r' = typeName r"
  by (auto simp: link_to_elmt_def split: option.splits)

lemma link_import_ref_linked:
  assumes "link_import_ref imps r s = (r', s')" "\<not> linkErr s'" "imports_ok (defs s) imps"
    "starts isupper (typeName r')"
  shows "linked imps tds (defs s') r'"
proof (cases "moduleName r")
  case None
  with assms(1,2) obtain e where e: "LookupImportElmtInModule imps (typeName r) = Some e"
    "link_to_elmt e r s = (r', s')"
    by (auto simp: link_import_ref_def split: option.splits if_splits)
  from LookupImportElmt_Some [OF e(1)] obtain im where "im \<in> set imps" "e \<in> set (importElmts im)"
    "importName e = typeName r" by blast
  with link_to_elmt_linked [OF e(2) assms(3)] link_to_elmt_name [OF e(2)] assms(4) show ?thesis by simp
next
  case (Some m)
  with assms(1,2) obtain im e where im: "LookupImportModule imps m = Some im"
    and e: "LookupImportElmtInImportElmtList (importElmts im) (typeName r) = Some e" "link_to_elmt e r s = (r', s')"
    by (auto simp: link_import_ref_def split: option.splits)
  from find_SomeD [OF im [unfolded LookupImportModule_def]] have "im \<in> set imps" ..
  moreover from find_SomeD [OF e(1) [unfolded LookupImportElmtInImportElmtList_def]]
  have "e \<in> set (importElmts im)" "importName e = typeName r" by simp_all
  ultimately show ?thesis
    using link_to_elmt_linked [OF e(2) assms(3)] link_to_elmt_name [OF e(2)] assms(4) by simp
qed

lemma LookupType_Some: "LookupType h tds name = Some d \<Longrightarrow> d \<in> set tds \<and> definedName (h ! d) = name"
  unfolding LookupType_def by (rule find_SomeD)

lemma link_ref_linked:
  assumes "link_ref imps tds bt r s = (bt', s')" "\<not> linkErr s'" "imports_ok (defs s) imps"
    "set tds \<subseteq> {..<length (defs s)}"
  shows "\<exists>r'. bt' \<in> {BASICTYPE_LOCALTYPEREF r', BASICTYPE_IMPORTTYPEREF r'} \<and>
    (starts isupper (typeName r') \<longrightarrow> linked imps tds (defs s') r')"
proof -
  have imp: ?thesis if "link_ref imps tds bt r s = (let (r', s') = link_import_ref imps r s in (BASICTYPE_IMPORTTYPEREF r', s'))"
  proof -
    from that assms(1) obtain r' where "link_import_ref imps r s = (r', s')" "bt' = BASICTYPE_IMPORTTYPEREF r'"
      by (auto split: prod.splits)
    with link_import_ref_linked [OF _ assms(2,3)] show ?thesis by blast
  qed
  show ?thesis
  proof (cases "LookupType (defs s) tds (typeName r)")
    case None
    then show ?thesis by (intro imp) (auto simp: link_ref_def split: BasicType.splits)
  next
    case (Some d)
    show ?thesis
    proof (cases "\<exists>x. bt = BASICTYPE_LOCALTYPEREF x")
      case True
      then have r: "bt' = BASICTYPE_LOCALTYPEREF (r\<lparr>link := Some d\<rparr>)" "s' = count_local d s"
        using assms(1) Some by (auto simp: link_ref_def)
      from LookupType_Some [OF Some] assms(4)
      have "linked imps tds (defs s) (r\<lparr>link := Some d\<rparr>)" by (auto simp: linked_def)
      moreover have "sig (defs s') = sig (defs s)"
        using keeps_link_ref [OF assms(1)] by (simp add: keeps_def grows_def)
      ultimately have "linked imps tds (defs s') (r\<lparr>link := Some d\<rparr>)" using sig_ok(3) by blast
      with r show ?thesis by blast
    next
      case False
      then show ?thesis by (intro imp) (auto simp: link_ref_def split: BasicType.splits)
    qed
  qed
qed

text \<open>A type whose references are all linked, as far as their names are names of types.\<close>

definition linked_type :: "ImportModule list \<Rightarrow> nat list \<Rightarrow> TypeDefs \<Rightarrow> Type \<Rightarrow> bool" where
  "linked_type imps tds h t \<longleftrightarrow>
     (\<forall>r. link_refs t r \<longrightarrow> starts isupper (typeName r) \<longrightarrow> linked imps tds h r)"

definition linkable :: "ImportModule list \<Rightarrow> nat list \<Rightarrow> LinkState \<Rightarrow> bool" where
  "linkable imps tds s \<longleftrightarrow> imports_ok (defs s) imps \<and> set tds \<subseteq> {..<length (defs s)}"

lemma linked_type_sig: "sig h' = sig h \<Longrightarrow> linked_type imps tds h t \<Longrightarrow> linked_type imps tds h' t"
  using sig_ok(3) unfolding linked_type_def by blast

lemma linkable_sig: "grows s s' \<Longrightarrow> linkable imps tds s \<Longrightarrow> linkable imps tds s'"
  using sig_ok(2) sig_length unfolding linkable_def grows_def by metis

lemma linked_elmts:
  "bt \<in> {BASICTYPE_CHOICE es, BASICTYPE_SET es, BASICTYPE_SEQUENCE es} \<Longrightarrow>
   \<forall>a nm t. NamedType a nm t \<in> set es \<longrightarrow> linked_type imps tds h t \<Longrightarrow>
   linked_type imps tds h (Type opt impl tgs dflt ci cxi bt)"
  unfolding linked_type_def by (fastforce elim: link_refsE)

lemma linked_inner:
  "bt \<in> {BASICTYPE_SETOF t, BASICTYPE_SEQUENCEOF t, BASICTYPE_BITCONTAINING t, BASICTYPE_COMPONENTSOF t,
      BASICTYPE_SELECTION t name lnk} \<Longrightarrow>
   linked_type imps tds h t \<Longrightarrow> linked_type imps tds h (Type opt impl tgs dflt ci cxi bt)"
  unfolding linked_type_def by (fastforce elim: link_refsE)

lemma linked_here:
  "bt \<in> {BASICTYPE_LOCALTYPEREF r, BASICTYPE_IMPORTTYPEREF r} \<Longrightarrow>
   (starts isupper (typeName r) \<longrightarrow> linked imps tds h r) \<Longrightarrow> linked_type imps tds h (Type opt impl tgs dflt ci cxi bt)"
  unfolding linked_type_def by (fastforce elim: link_refsE)

lemma linked_none:
  "bt \<in> range Plain \<union> range BASICTYPE_INTEGER \<union> range BASICTYPE_BITSTRING \<union> range BASICTYPE_ENUMERATED \<union>
     range (\<lambda>(s, e). BASICTYPE_ANYDEFINEDBY s e) \<union> range BASICTYPE_OCTETCONTAINING \<Longrightarrow>
   linked_type imps tds h (Type opt impl tgs dflt ci cxi bt)"
  unfolding linked_type_def by (auto elim: link_refsE)

definition link_result :: "ImportModule list \<Rightarrow> nat list \<Rightarrow> LinkState \<Rightarrow> LinkState \<Rightarrow> (TypeDefs \<Rightarrow> bool) \<Rightarrow> bool" where
  "link_result imps tds s s' P \<longleftrightarrow>
     keeps s s' \<and> (\<not> linkErr s' \<longrightarrow> linkable imps tds s \<longrightarrow> P (defs s'))"

lemma link_resultI:
  "keeps s s' \<Longrightarrow> (\<not> linkErr s' \<Longrightarrow> linkable imps tds s \<Longrightarrow> P (defs s')) \<Longrightarrow> link_result imps tds s s' P"
  by (simp add: link_result_def)

lemma link_result_mono:
  "link_result imps tds s s' P \<Longrightarrow> (P (defs s') \<Longrightarrow> Q (defs s')) \<Longrightarrow> link_result imps tds s s' Q"
  by (simp add: link_result_def)

lemma link_result_further:
  assumes "link_result imps tds s s1 P" "keeps s1 s'" "\<And>h h'. sig h' = sig h \<Longrightarrow> P h \<Longrightarrow> P h'"
  shows "link_result imps tds s s' P"
proof (rule link_resultI)
  show "keeps s s'" using assms(1,2) by (auto simp: link_result_def intro: keeps_trans)
  assume "\<not> linkErr s'" "linkable imps tds s"
  moreover from assms(2) have "sig (defs s') = sig (defs s1)" "linkErr s1 \<longrightarrow> linkErr s'"
    by (simp_all add: keeps_def grows_def)
  ultimately show "P (defs s')" using assms(1,3) by (simp add: link_result_def)
qed

lemma linked_type_further:
  "link_result imps tds s s1 (\<lambda>h. linked_type imps tds h t) \<Longrightarrow> keeps s1 s' \<Longrightarrow>
     link_result imps tds s s' (\<lambda>h. linked_type imps tds h t)"
  by (rule link_result_further) (auto intro: linked_type_sig)

lemma TypeLinkType_result:
  "TypeLinkType imps tds t s = Some (t', s') \<Longrightarrow>
     link_result imps tds s s' (\<lambda>h. linked_type imps tds h t')"
  "TypeLinkElmtTypes imps tds es s = Some (es', s') \<Longrightarrow>
     link_result imps tds s s' (\<lambda>h. \<forall>a nm t. NamedType a nm t \<in> set es' \<longrightarrow> linked_type imps tds h t)"
proof (induction imps tds t s and imps tds es s arbitrary: t' s' and es' s'
    rule: TypeLinkType_TypeLinkElmtTypes.induct)
  case (1 imps tds opt impl tgs dflt ci cxi bt s)
  have ref: ?case if "bt \<in> {BASICTYPE_LOCALTYPEREF r, BASICTYPE_IMPORTTYPEREF r}" for r
  proof -
    obtain bt' s1 where l1: "link_ref imps tds bt r s = (bt', s1)" by (rule prod.exhaust)
    have "TypeLinkType imps tds (Type opt impl tgs dflt ci cxi bt) s = Some (Type opt impl tgs dflt ci cxi bt', s1)"
      using that l1 by auto
    with "1.prems" l1 have l: "link_ref imps tds bt r s = (bt', s')" "t' = Type opt impl tgs dflt ci cxi bt'" by simp_all
    show ?thesis
    proof (rule link_resultI)
      show "keeps s s'" by (rule keeps_link_ref [OF l(1)])
      assume e: "\<not> linkErr s'" "linkable imps tds s"
      then have "imports_ok (defs s) imps" "set tds \<subseteq> {..<length (defs s)}" by (simp_all add: linkable_def)
      from link_ref_linked [OF l(1) e(1) this] obtain r' where
        "bt' \<in> {BASICTYPE_LOCALTYPEREF r', BASICTYPE_IMPORTTYPEREF r'}"
        "starts isupper (typeName r') \<longrightarrow> linked imps tds (defs s') r'" by blast
      then show "linked_type imps tds (defs s') t'" unfolding l(2) by (rule linked_here)
    qed
  qed
  have plain: ?case if "t' = Type opt impl tgs dflt ci cxi bt" "keeps s s'"
    "bt \<in> range Plain \<union> range BASICTYPE_INTEGER \<union> range BASICTYPE_BITSTRING \<union> range BASICTYPE_ENUMERATED \<union>
     range (\<lambda>(s, e). BASICTYPE_ANYDEFINEDBY s e) \<union> range BASICTYPE_OCTETCONTAINING"
    using that linked_none by (auto intro!: link_resultI)
  have elmts: ?case if "t' = Type opt impl tgs dflt ci cxi bt'"
    "bt' \<in> {BASICTYPE_CHOICE es', BASICTYPE_SET es', BASICTYPE_SEQUENCE es'}"
    "link_result imps tds s s' (\<lambda>h. \<forall>a nm t. NamedType a nm t \<in> set es' \<longrightarrow> linked_type imps tds h t)" for es' bt'
    using that(3) linked_elmts [OF that(2)] unfolding that(1) by (auto elim: link_result_mono)
  have inner: ?case if "t' = Type opt impl tgs dflt ci cxi bt'"
    "bt' \<in> {BASICTYPE_SETOF u, BASICTYPE_SEQUENCEOF u, BASICTYPE_BITCONTAINING u, BASICTYPE_COMPONENTSOF u,
      BASICTYPE_SELECTION u name lnk}" "link_result imps tds s s' (\<lambda>h. linked_type imps tds h u)" for u bt' name lnk
    using that(3) linked_inner [OF that(2)] unfolding that(1) by (auto elim: link_result_mono)
  show ?case
  proof (cases bt)
    case (Plain p)
    with "1.prems" show ?thesis by (intro plain) (auto simp: keeps_ops keeps_refl split: if_splits)
  next
    case (BASICTYPE_SEQUENCE es)
    with "1.prems" obtain es' where r: "TypeLinkElmtTypes imps tds es s = Some (es', s')"
      and t': "t' = Type opt impl tgs dflt ci cxi (BASICTYPE_SEQUENCE es')" by auto
    from "1.IH"(1) [OF BASICTYPE_SEQUENCE r] have L: "link_result imps tds s s' (\<lambda>h. \<forall>a nm t. NamedType a nm t \<in> set es' \<longrightarrow> linked_type imps tds h t)" .
    show ?thesis by (rule elmts [OF t' _ L]) simp
  next
    case (BASICTYPE_SET es)
    with "1.prems" obtain es' where r: "TypeLinkElmtTypes imps tds es s = Some (es', s')"
      and t': "t' = Type opt impl tgs dflt ci cxi (BASICTYPE_SET es')" by auto
    from "1.IH"(3) [OF BASICTYPE_SET r] have L: "link_result imps tds s s' (\<lambda>h. \<forall>a nm t. NamedType a nm t \<in> set es' \<longrightarrow> linked_type imps tds h t)" .
    show ?thesis by (rule elmts [OF t' _ L]) simp
  next
    case (BASICTYPE_CHOICE es)
    with "1.prems" obtain es' where r: "TypeLinkElmtTypes imps tds es s = Some (es', s')"
      and t': "t' = Type opt impl tgs dflt ci cxi (BASICTYPE_CHOICE es')" by auto
    from "1.IH"(5) [OF BASICTYPE_CHOICE r] have L: "link_result imps tds s s' (\<lambda>h. \<forall>a nm t. NamedType a nm t \<in> set es' \<longrightarrow> linked_type imps tds h t)" .
    show ?thesis by (rule elmts [OF t' _ L]) simp
  next
    case (BASICTYPE_SEQUENCEOF u)
    with "1.prems" obtain u' where r: "TypeLinkType imps tds u s = Some (u', s')"
      and t': "t' = Type opt impl tgs dflt ci cxi (BASICTYPE_SEQUENCEOF u')" by auto
    from "1.IH"(2) [OF BASICTYPE_SEQUENCEOF r] have L: "link_result imps tds s s' (\<lambda>h. linked_type imps tds h u')" .
    show ?thesis by (rule inner [OF t' _ L]) simp
  next
    case (BASICTYPE_SETOF u)
    with "1.prems" obtain u' where r: "TypeLinkType imps tds u s = Some (u', s')"
      and t': "t' = Type opt impl tgs dflt ci cxi (BASICTYPE_SETOF u')" by auto
    from "1.IH"(4) [OF BASICTYPE_SETOF r] have L: "link_result imps tds s s' (\<lambda>h. linked_type imps tds h u')" .
    show ?thesis by (rule inner [OF t' _ L]) simp
  next
    case (BASICTYPE_BITCONTAINING u)
    with "1.prems" obtain u' where r: "TypeLinkType imps tds u s = Some (u', s')"
      and t': "t' = Type opt impl tgs dflt ci cxi (BASICTYPE_BITCONTAINING u')" by auto
    from "1.IH"(8) [OF BASICTYPE_BITCONTAINING r] have L: "link_result imps tds s s' (\<lambda>h. linked_type imps tds h u')" .
    show ?thesis by (rule inner [OF t' _ L]) simp
  next
    case (BASICTYPE_COMPONENTSOF u)
    with "1.prems" obtain u' where r: "TypeLinkType imps tds u s = Some (u', s')"
      and t': "t' = Type opt impl tgs dflt ci cxi (BASICTYPE_COMPONENTSOF u')" by auto
    from "1.IH"(7) [OF BASICTYPE_COMPONENTSOF r] have L: "link_result imps tds s s' (\<lambda>h. linked_type imps tds h u')" .
    show ?thesis by (rule inner [OF t' _ L]) simp
  next
    case (BASICTYPE_SELECTION u name lnk)
    with "1.prems" obtain u' s1 where u1: "TypeLinkType imps tds u s = Some (u', s1)" by auto
    obtain lnk' s2 where l: "link_selection u' name lnk s1 = (lnk', s2)" by (rule prod.exhaust)
    from "1.prems" BASICTYPE_SELECTION u1 l have u: "TypeLinkType imps tds u s = Some (u', s1)"
      "link_selection u' name lnk s1 = (lnk', s')"
      "t' = Type opt impl tgs dflt ci cxi (BASICTYPE_SELECTION u' name lnk')" by simp_all
    from "1.IH"(6) [OF BASICTYPE_SELECTION u(1)] have "link_result imps tds s s1 (\<lambda>h. linked_type imps tds h u')" .
    from linked_type_further [OF this keeps_link_selection [OF u(2)]]
    show ?thesis by (intro inner [OF u(3)]) simp_all
  next
    case (BASICTYPE_LOCALTYPEREF r)
    then show ?thesis by (intro ref) simp
  next
    case (BASICTYPE_IMPORTTYPEREF r)
    then show ?thesis by (intro ref) simp
  next
    case (BASICTYPE_ANYDEFINEDBY nm lnk)
    with "1.prems" show ?thesis by (intro plain) (auto simp: keeps_refl)
  qed (use "1.prems" in \<open>auto intro!: link_resultI linked_none simp: keeps_refl\<close>)
next
  case (3 imps tds a nm t es s)
  then obtain t1 s1 es1 where t: "TypeLinkType imps tds t s = Some (t1, s1)"
    and es: "TypeLinkElmtTypes imps tds es s1 = Some (es1, s')" "es' = NamedType a nm t1 # es1"
    by (auto simp: obind_Some)
  from "3.IH"(1) [OF t] have T: "link_result imps tds s s1 (\<lambda>h. linked_type imps tds h t1)" .
  from "3.IH"(2) [OF es(1)] have E: "link_result imps tds s1 s'
    (\<lambda>h. \<forall>a nm t. NamedType a nm t \<in> set es1 \<longrightarrow> linked_type imps tds h t)" .
  from E have k: "keeps s1 s'" by (simp add: link_result_def)
  from linked_type_further [OF T k]
  have T': "link_result imps tds s s' (\<lambda>h. linked_type imps tds h t1)" .
  show ?case
  proof (rule link_resultI)
    show "keeps s s'" using T' by (simp add: link_result_def)
    assume e: "\<not> linkErr s'" "linkable imps tds s"
    have "linkable imps tds s1" by (rule linkable_sig [OF _ e(2)]) (use T in \<open>simp add: link_result_def keeps_def\<close>)
    with e T' E show "\<forall>a nm t. NamedType a nm t \<in> set es' \<longrightarrow> linked_type imps tds (defs s') t"
      by (auto simp: link_result_def es(2))
  qed
qed (simp add: link_result_def keeps_refl)

subsection \<open>What is imported\<close>

definition from_module :: "LinkModule \<Rightarrow> TypeDefs \<Rightarrow> LinkElmt \<Rightarrow> bool" where
  "from_module M h e \<longleftrightarrow>
     (\<exists>d<length h. resolvedRef e = Some d \<and> definedName (h ! d) = importName e \<and> d \<in> set (mTypeDefs M) \<and>
        exported (h ! d))"

definition imports_from :: "LinkModule list \<Rightarrow> TypeDefs \<Rightarrow> ImportModule list \<Rightarrow> bool" where
  "imports_from mods h imps \<longleftrightarrow>
     (\<forall>im\<in>set imps. \<exists>M. LookupModule mods (impModName im) (impModOid im) = Some M \<and>
        (\<forall>e\<in>set (importElmts im). starts isupper (importName e) \<longrightarrow> from_module M h e))"

lemma imports_from_ok: "imports_from mods h imps \<Longrightarrow> imports_ok h imps"
  unfolding imports_from_def imports_ok_def from_module_def resolved_def by blast

lemma from_module_sig: "sig h' = sig h \<Longrightarrow> from_module M h e \<Longrightarrow> from_module M h' e"
  using sig_length sig_nth unfolding from_module_def by metis

lemma imports_from_sig: "sig h' = sig h \<Longrightarrow> imports_from mods h imps \<Longrightarrow> imports_from mods h' imps"
  using from_module_sig unfolding imports_from_def by blast

definition in_range :: "LinkModule list \<Rightarrow> TypeDefs \<Rightarrow> bool" where
  "in_range mods h \<longleftrightarrow> (\<forall>m\<in>set mods. set (mTypeDefs m) \<subseteq> {..<length h})"

lemma in_range_sig: "sig h' = sig h \<Longrightarrow> in_range mods h' = in_range mods h"
  by (drule sig_length) (simp add: in_range_def)

definition link_elmt :: "string \<Rightarrow> LinkModule \<Rightarrow> LinkElmt \<Rightarrow> LinkState \<Rightarrow> LinkElmt \<times> LinkState" where
  "link_elmt currName impRefMod e s =
     (if \<not> starts isupper (importName e) then (e, s)
      else case LookupType (defs s) (mTypeDefs impRefMod) (importName e) of
             Some t \<Rightarrow>
               (e\<lparr>resolvedRef := Some t\<rparr>,
                (count_import t
                   (if exported (defs s ! t) then s
                    else refuse (NotExported currName (importName e) (modIdName impRefMod)) s))
                  \<lparr>usedImport := True\<rparr>)
           | None \<Rightarrow> (e, refuse (NotDefinedThere (importName e) (modIdName impRefMod) currName) s))"

lemma link_elmts_Cons:
  "link_elmts cn M (e # es) s =
     (let (e', s') = link_elmt cn M e s; (es', s'') = link_elmts cn M es s' in (e' # es', s''))"
  by (simp add: link_elmt_def)

lemma link_elmt_from:
  assumes "link_elmt cn M e s = (e', s')" "set (mTypeDefs M) \<subseteq> {..<length (defs s)}"
  shows "keeps s s' \<and> importName e' = importName e \<and>
    (\<not> linkErr s' \<longrightarrow> starts isupper (importName e') \<longrightarrow> from_module M (defs s') e')"
proof (cases "starts isupper (importName e)")
  case False
  with assms(1) show ?thesis by (simp add: link_elmt_def keeps_refl)
next
  case True
  show ?thesis
  proof (cases "LookupType (defs s) (mTypeDefs M) (importName e)")
    case None
    with assms(1) True show ?thesis by (auto simp: link_elmt_def keeps_ops)
  next
    case (Some t)
    let ?s = "if exported (defs s ! t) then s else refuse (NotExported cn (importName e) (modIdName M)) s"
    from LookupType_Some [OF Some] assms(2) have t: "t \<in> set (mTypeDefs M)" "t < length (defs s)"
      "definedName (defs s ! t) = importName e" by auto
    from assms(1) True Some have r: "e' = e\<lparr>resolvedRef := Some t\<rparr>" "s' = (count_import t ?s)\<lparr>usedImport := True\<rparr>"
      by (simp_all add: link_elmt_def)
    have "keeps s ?s" by (simp add: keeps_refl keeps_ops)
    with keeps_ops(4) have "keeps s (count_import t ?s)" by (rule keeps_trans [rotated])
    then have k: "keeps s s'" by (simp add: r(2) keeps_def grows_def)
    have "from_module M (defs s') e'" if "\<not> linkErr s'"
    proof -
      have "exported (defs s ! t)" using that by (auto simp: r(2) split: if_splits)
      with t have "from_module M (defs s) e'" by (auto simp: from_module_def r(1))
      moreover from k have "sig (defs s') = sig (defs s)" by (simp add: keeps_def grows_def)
      ultimately show ?thesis using from_module_sig by blast
    qed
    with k show ?thesis by (simp add: r(1))
  qed
qed

lemma link_elmts_from:
  assumes "link_elmts cn M es s = (es', s')" "set (mTypeDefs M) \<subseteq> {..<length (defs s)}"
  shows "keeps s s' \<and> (\<not> linkErr s' \<longrightarrow>
    (\<forall>e\<in>set es'. starts isupper (importName e) \<longrightarrow> from_module M (defs s') e))"
  using assms
proof (induction es arbitrary: s es')
  case Nil
  then show ?case by (simp add: keeps_refl)
next
  case (Cons e es)
  obtain e1 s1 where e: "link_elmt cn M e s = (e1, s1)" by (rule prod.exhaust)
  obtain es1 s2 where es: "link_elmts cn M es s1 = (es1, s2)" by (rule prod.exhaust)
  from Cons.prems(1) e es have r: "es' = e1 # es1" "s2 = s'" by (simp_all add: link_elmts_Cons del: link_elmts.simps(2))
  note E = link_elmt_from [OF e Cons.prems(2)]
  then have "sig (defs s1) = sig (defs s)" by (simp add: keeps_def grows_def)
  then have "set (mTypeDefs M) \<subseteq> {..<length (defs s1)}" using Cons.prems(2) sig_length by metis
  from Cons.IH [OF es [unfolded r] this] have I: "keeps s1 s'"
    "\<not> linkErr s' \<Longrightarrow> \<forall>e\<in>set es1. starts isupper (importName e) \<longrightarrow> from_module M (defs s') e" by simp_all
  from I(1) have S: "sig (defs s') = sig (defs s1)" "linkErr s1 \<longrightarrow> linkErr s'" by (simp_all add: keeps_def grows_def)
  with E have "\<not> linkErr s' \<longrightarrow> starts isupper (importName e1) \<longrightarrow> from_module M (defs s') e1"
    using from_module_sig [OF S(1)] by blast
  with I E keeps_trans show ?case by (auto simp: r(1))
qed

lemma link_imports_from:
  assumes "link_imports mods cn ims s = (ims', s')" "in_range mods (defs s)"
  shows "keeps s s' \<and> (\<not> linkErr s' \<longrightarrow> imports_from mods (defs s') ims')"
  using assms
proof (induction ims arbitrary: s ims')
  case Nil
  then show ?case by (simp add: keeps_refl imports_from_def)
next
  case (Cons im ims)
  let ?one = "case LookupModule mods (impModName im) (impModOid im) of
      None \<Rightarrow> (im, refuse (NoSuchModule (impModName im) (importElmts im)) s)
    | Some impRefMod \<Rightarrow> (let (es, s1) = link_elmts cn impRefMod (importElmts im) s in (im\<lparr>importElmts := es\<rparr>, s1))"
  obtain im1 s1 where o: "?one = (im1, s1)" by (rule prod.exhaust)
  obtain ims1 s2 where i: "link_imports mods cn ims s1 = (ims1, s2)" by (rule prod.exhaust)
  from Cons.prems(1) o i have r: "ims' = im1 # ims1" "s2 = s'" by (simp_all del: case_prod_conv add: Let_def split_beta)
  have one: "keeps s s1 \<and> (\<not> linkErr s1 \<longrightarrow> imports_from mods (defs s1) [im1])"
  proof (cases "LookupModule mods (impModName im) (impModOid im)")
    case None
    with o show ?thesis by (auto simp: keeps_ops)
  next
    case (Some M)
    obtain es s3 where es: "link_elmts cn M (importElmts im) s = (es, s3)" by (rule prod.exhaust)
    from find_SomeD [OF Some [unfolded LookupModule_def]] have "M \<in> set mods" ..
    with Cons.prems(2) have "set (mTypeDefs M) \<subseteq> {..<length (defs s)}" by (simp add: in_range_def)
    from link_elmts_from [OF es this] o Some es show ?thesis by (auto simp: imports_from_def)
  qed
  then have "sig (defs s1) = sig (defs s)" by (simp add: keeps_def grows_def)
  from in_range_sig [OF this] Cons.prems(2) have "in_range mods (defs s1)" by simp
  from Cons.IH [OF i [unfolded r] this] have I: "keeps s1 s'" "\<not> linkErr s' \<Longrightarrow> imports_from mods (defs s') ims1" by simp_all
  from I(1) have S: "sig (defs s') = sig (defs s1)" "linkErr s1 \<longrightarrow> linkErr s'" by (simp_all add: keeps_def grows_def)
  with one have "\<not> linkErr s' \<longrightarrow> imports_from mods (defs s') [im1]"
    using imports_from_sig [OF S(1)] by blast
  with I one keeps_trans show ?case by (auto simp: r(1) imports_from_def)
qed

text \<open>What the first loop does to a module.\<close>

definition imported :: "LinkModule list \<Rightarrow> TypeDefs \<Rightarrow> LinkModule \<Rightarrow> LinkModule \<Rightarrow> bool" where
  "imported mods h m m' \<longleftrightarrow>
     mTypeDefs m' = mTypeDefs m \<and> mValueDefs m' = mValueDefs m \<and>
     (mStatus m = MOD_ERROR \<longrightarrow> mStatus m' = MOD_ERROR) \<and>
     (mStatus m' \<noteq> MOD_ERROR \<longrightarrow> imports_from mods h (mImports m'))"

lemma imported_sig: "sig h' = sig h \<Longrightarrow> imported mods h m m' \<Longrightarrow> imported mods h' m m'"
  using imports_from_sig unfolding imported_def by blast

lemma link_import_lists_imported:
  assumes "link_import_lists mods ms ho = (ms', ho')" "in_range mods (fst ho)"
  shows "sig (fst ho') = sig (fst ho) \<and> map tdType (fst ho') = map tdType (fst ho) \<and>
    list_all2 (imported mods (fst ho')) ms ms'"
  using assms
proof (induction ms arbitrary: ho ms')
  case (Cons m ms)
  let ?s0 = "enter_module m ho"
  obtain ims s where i: "link_imports mods (modIdName m) (mImports m) ?s0 = (ims, s)" by (rule prod.exhaust)
  obtain ms1 ho1 where r: "link_import_lists mods ms (defs s, linkOut s) = (ms1, ho1)" by (rule prod.exhaust)
  from Cons.prems(1) i r have e: "ms' = (leave_module s m)\<lparr>mImports := ims\<rparr> # ms1" "ho1 = ho'" by simp_all
  have s0: "defs ?s0 = fst ho" "linkErr ?s0 \<longleftrightarrow> mStatus m = MOD_ERROR" by (simp_all add: enter_module_def)
  have "in_range mods (defs ?s0)" using Cons.prems(2) by (simp add: s0)
  from link_imports_from [OF i this] have k: "keeps ?s0 s"
    "\<not> linkErr s \<longrightarrow> imports_from mods (defs s) ims" by simp_all
  from k(1) have S: "sig (defs s) = sig (fst ho)" "map tdType (defs s) = map tdType (fst ho)"
    "mStatus m = MOD_ERROR \<longrightarrow> linkErr s" by (simp_all add: keeps_def grows_def s0)
  from in_range_sig [OF S(1)] Cons.prems(2) have "in_range mods (fst (defs s, linkOut s))" by simp
  from Cons.IH [OF r [unfolded e] this] have I: "sig (fst ho') = sig (defs s)"
    "map tdType (fst ho') = map tdType (defs s)" "list_all2 (imported mods (fst ho')) ms ms1" by simp_all
  have "imported mods (defs s) m ((leave_module s m)\<lparr>mImports := ims\<rparr>)"
    using k(2) S(3) by (auto simp: imported_def leave_module_def)
  with imported_sig [OF I(1)] I S show ?case by (simp add: e(1))
qed simp

subsection \<open>What a module ends with\<close>

lemma tdtype_update: "d \<noteq> head \<Longrightarrow> tdtype (h[head := x]) d = tdtype h d"
  by (simp add: nth_list_update)

lemma keeps_tdtype: "keeps s s' \<Longrightarrow> d < length (defs s) \<Longrightarrow> tdtype (defs s') d = tdtype (defs s) d"
proof -
  assume "keeps s s'" "d < length (defs s)"
  then have "map tdType (defs s') = map tdType (defs s)" "length (defs s') = length (defs s)"
    by (auto simp: keeps_def grows_def dest: sig_length)
  then show ?thesis using \<open>d < length (defs s)\<close> by (metis nth_map)
qed

lemma TypeLinkTypeDef_result:
  assumes "TypeLinkTypeDef imps tds head s = Some s'" "head < length (defs s)"
  shows "grows s s'" "\<And>d. d < length (defs s) \<Longrightarrow> d \<noteq> head \<Longrightarrow> tdtype (defs s') d = tdtype (defs s) d"
    "\<not> linkErr s' \<Longrightarrow> linkable imps tds s \<Longrightarrow> linked_type imps tds (defs s') (tdtype (defs s') head)"
proof -
  from assms(1) obtain t s1 where t: "TypeLinkType imps tds (tdtype (defs s) head) s = Some (t, s1)"
    "s' = s1\<lparr>defs := (defs s1)[head := (defs s1 ! head)\<lparr>tdType := t\<rparr>]\<rparr>"
    by (auto simp: TypeLinkTypeDef_def)
  from TypeLinkType_result(1) [OF t(1)] have k: "keeps s s1"
    and l: "\<not> linkErr s1 \<Longrightarrow> linkable imps tds s \<Longrightarrow> linked_type imps tds (defs s1) t"
    by (simp_all add: link_result_def)
  have g: "sig (defs s') = sig (defs s1)" by (simp add: t(2) sig_update)
  with k show "grows s s'" by (simp add: keeps_def grows_def t(2))
  show "tdtype (defs s') d = tdtype (defs s) d" if "d < length (defs s)" "d \<noteq> head" for d
    using keeps_tdtype [OF k that(1)] that(2) by (simp add: t(2))
  from k have "length (defs s1) = length (defs s)" by (auto simp: keeps_def grows_def dest: sig_length)
  then have "tdtype (defs s') head = t" using assms(2) by (simp add: t(2))
  then show "linked_type imps tds (defs s') (tdtype (defs s') head)" if "\<not> linkErr s'" "linkable imps tds s"
    using l that linked_type_sig [OF g] by (simp add: t(2))
qed

lemma link_typeDefs_result:
  assumes "link_typeDefs imps tds ds s = Some s'" "set ds \<subseteq> {..<length (defs s)}"
  shows "grows s s' \<and> (\<forall>d<length (defs s). d \<notin> set ds \<longrightarrow> tdtype (defs s') d = tdtype (defs s) d) \<and>
    (\<not> linkErr s' \<longrightarrow> linkable imps tds s \<longrightarrow> (\<forall>d\<in>set ds. linked_type imps tds (defs s') (tdtype (defs s') d)))"
  using assms
proof (induction ds arbitrary: s)
  case (Cons d ds)
  from Cons.prems(1) obtain s1 where d: "TypeLinkTypeDef imps tds d s = Some s1"
    "link_typeDefs imps tds ds s1 = Some s'" by (auto simp: obind_Some)
  have "d < length (defs s)" using Cons.prems(2) by simp
  note D = TypeLinkTypeDef_result [OF d(1) this]
  from D(1) have len: "length (defs s1) = length (defs s)" by (auto simp: grows_def dest: sig_length)
  then have "set ds \<subseteq> {..<length (defs s1)}" using Cons.prems(2) by simp
  from Cons.IH [OF d(2) this] have I: "grows s1 s'"
    "\<forall>x<length (defs s). x \<notin> set ds \<longrightarrow> tdtype (defs s') x = tdtype (defs s1) x"
    "\<not> linkErr s' \<longrightarrow> linkable imps tds s1 \<longrightarrow> (\<forall>d\<in>set ds. linked_type imps tds (defs s') (tdtype (defs s') d))"
    by (simp_all add: len)
  have "linked_type imps tds (defs s') (tdtype (defs s') d)" if e: "\<not> linkErr s'" "linkable imps tds s" "d \<notin> set ds"
  proof -
    from I(1) have g: "sig (defs s') = sig (defs s1)" "\<not> linkErr s1" using e(1) by (auto simp: grows_def)
    from D(3) [OF g(2) e(2)] linked_type_sig [OF g(1)]
    have "linked_type imps tds (defs s') (tdtype (defs s1) d)" by blast
    moreover have "tdtype (defs s') d = tdtype (defs s1) d" using I(2) e(3) \<open>d < length (defs s)\<close> by simp
    ultimately show ?thesis by simp
  qed
  moreover have "linkable imps tds s \<Longrightarrow> linkable imps tds s1" by (rule linkable_sig [OF D(1)])
  ultimately have "\<not> linkErr s' \<longrightarrow> linkable imps tds s \<longrightarrow>
      (\<forall>x\<in>set (d # ds). linked_type imps tds (defs s') (tdtype (defs s') x))"
    using I(3) by auto
  moreover have "\<forall>x<length (defs s). x \<notin> set (d # ds) \<longrightarrow> tdtype (defs s') x = tdtype (defs s) x"
    using I(2) D(2) by simp
  moreover have "grows s s'" by (rule grows_trans [OF D(1) I(1)])
  ultimately show ?case by blast
qed (simp add: grows_refl)

definition linked_value :: "ImportModule list \<Rightarrow> nat list \<Rightarrow> TypeDefs \<Rightarrow> ValueDef \<Rightarrow> bool" where
  "linked_value imps tds h v \<longleftrightarrow> (\<forall>t. valuesType v = Some t \<longrightarrow> linked_type imps tds h t)"

lemma TypeLinkValueDef_result:
  assumes "TypeLinkValueDef imps tds v s = Some (v', s')"
  shows "link_result imps tds s s' (\<lambda>h. linked_value imps tds h v')"
proof (cases "valuesType v")
  case None
  with assms show ?thesis by (auto simp: TypeLinkValueDef_def link_result_def keeps_refl linked_value_def)
next
  case (Some t)
  with assms obtain t' where t: "TypeLinkType imps tds t s = Some (t', s')" "valuesType v' = Some t'"
    by (auto simp: TypeLinkValueDef_def)
  from TypeLinkType_result(1) [OF t(1)] show ?thesis by (simp add: linked_value_def t(2))
qed

lemma link_valueDefs_result:
  "link_valueDefs imps tds vs s = Some (vs', s') \<Longrightarrow>
     link_result imps tds s s' (\<lambda>h. \<forall>v\<in>set vs'. linked_value imps tds h v)"
proof (induction vs arbitrary: s vs')
  case (Cons v vs)
  from Cons.prems obtain v1 s1 vs1 where v: "TypeLinkValueDef imps tds v s = Some (v1, s1)"
    "link_valueDefs imps tds vs s1 = Some (vs1, s')" "vs' = v1 # vs1" by (auto simp: obind_Some)
  note V = TypeLinkValueDef_result [OF v(1)]
  note I = Cons.IH [OF v(2)]
  then have k: "keeps s1 s'" by (simp add: link_result_def)
  have V': "link_result imps tds s s' (\<lambda>h. linked_value imps tds h v1)"
    by (rule link_result_further [OF V k]) (auto simp: linked_value_def intro: linked_type_sig)
  show ?case
  proof (rule link_resultI)
    show "keeps s s'" using V' by (simp add: link_result_def)
    assume e: "\<not> linkErr s'" "linkable imps tds s"
    have "linkable imps tds s1" by (rule linkable_sig [OF _ e(2)]) (use V in \<open>simp add: link_result_def keeps_def\<close>)
    with e V' I show "\<forall>v\<in>set vs'. linked_value imps tds (defs s') v" by (simp add: link_result_def v(3))
  qed
qed (simp add: link_result_def keeps_refl)

text \<open>A module that is linked.\<close>

definition good_module :: "LinkModule list \<Rightarrow> TypeDefs \<Rightarrow> LinkModule \<Rightarrow> bool" where
  "good_module mods h m \<longleftrightarrow>
     mStatus m = MOD_OK \<and> imports_from mods h (mImports m) \<and>
     (\<forall>d\<in>set (mTypeDefs m). linked_type (mImports m) (mTypeDefs m) h (tdtype h d)) \<and>
     (\<forall>v\<in>set (mValueDefs m). linked_value (mImports m) (mTypeDefs m) h v)"

lemma good_module_later:
  assumes "good_module mods h m" "sig h' = sig h" "\<forall>d\<in>set (mTypeDefs m). tdtype h' d = tdtype h d"
  shows "good_module mods h' m"
  using assms imports_from_sig linked_type_sig [OF assms(2)]
  by (simp add: good_module_def linked_value_def)

lemma link_module_good:
  assumes "link_typeDefs (mImports m) (mTypeDefs m) (mTypeDefs m) (enter_module m ho) = Some s1"
    "link_valueDefs (mImports m) (mTypeDefs m) (mValueDefs m) s1 = Some (vs, s2)"
    "set (mTypeDefs m) \<subseteq> {..<length (fst ho)}"
  shows "sig (defs s2) = sig (fst ho)"
    "\<And>d. d < length (fst ho) \<Longrightarrow> d \<notin> set (mTypeDefs m) \<Longrightarrow> tdtype (defs s2) d = tdtype (fst ho) d"
    "\<not> linkErr s2 \<Longrightarrow> mStatus m \<noteq> MOD_ERROR"
    "\<not> linkErr s2 \<Longrightarrow> imports_from mods (fst ho) (mImports m) \<Longrightarrow>
       good_module mods (defs s2)
         ((leave_module s2 m)\<lparr>mValueDefs := vs, mStatus := (if linkErr s2 then MOD_ERROR else MOD_OK)\<rparr>)"
proof -
  let ?s0 = "enter_module m ho"
  have s0: "defs ?s0 = fst ho" "linkErr ?s0 \<longleftrightarrow> mStatus m = MOD_ERROR" by (simp_all add: enter_module_def)
  from link_typeDefs_result [OF assms(1)] assms(3) have T: "grows ?s0 s1"
    "\<forall>d<length (fst ho). d \<notin> set (mTypeDefs m) \<longrightarrow> tdtype (defs s1) d = tdtype (fst ho) d"
    "\<not> linkErr s1 \<longrightarrow> linkable (mImports m) (mTypeDefs m) ?s0 \<longrightarrow>
       (\<forall>d\<in>set (mTypeDefs m). linked_type (mImports m) (mTypeDefs m) (defs s1) (tdtype (defs s1) d))"
    by (simp_all add: s0)
  from link_valueDefs_result [OF assms(2)] have V: "keeps s1 s2"
    "\<not> linkErr s2 \<longrightarrow> linkable (mImports m) (mTypeDefs m) s1 \<longrightarrow>
       (\<forall>v\<in>set vs. linked_value (mImports m) (mTypeDefs m) (defs s2) v)" by (simp_all add: link_result_def)
  from V(1) have g: "sig (defs s2) = sig (defs s1)" "linkErr s1 \<longrightarrow> linkErr s2" by (simp_all add: keeps_def grows_def)
  from T(1) have g0: "sig (defs s1) = sig (fst ho)" "mStatus m = MOD_ERROR \<longrightarrow> linkErr s1"
    by (simp_all add: grows_def s0)
  show S: "sig (defs s2) = sig (fst ho)" using g(1) g0(1) by simp
  have len: "length (defs s1) = length (fst ho)" by (rule sig_length [OF g0(1)])
  show "tdtype (defs s2) d = tdtype (fst ho) d" if "d < length (fst ho)" "d \<notin> set (mTypeDefs m)" for d
    using keeps_tdtype [OF V(1), of d] T(2) that len by simp
  show "mStatus m \<noteq> MOD_ERROR" if "\<not> linkErr s2" using that g(2) g0(2) by blast
  assume e: "\<not> linkErr s2" "imports_from mods (fst ho) (mImports m)"
  have L: "linkable (mImports m) (mTypeDefs m) ?s0"
    using imports_from_ok [OF e(2)] assms(3) by (simp add: linkable_def s0)
  with T(3) e(1) g(2) have "\<forall>d\<in>set (mTypeDefs m).
      linked_type (mImports m) (mTypeDefs m) (defs s1) (tdtype (defs s1) d)" by blast
  moreover have "tdtype (defs s2) d = tdtype (defs s1) d" if "d \<in> set (mTypeDefs m)" for d
    using keeps_tdtype [OF V(1), of d] assms(3) that len by auto
  ultimately have "\<forall>d\<in>set (mTypeDefs m). linked_type (mImports m) (mTypeDefs m) (defs s2) (tdtype (defs s2) d)"
    using linked_type_sig [OF g(1)] by simp
  moreover have "\<forall>v\<in>set vs. linked_value (mImports m) (mTypeDefs m) (defs s2) v"
    using V(2) e(1) linkable_sig [OF T(1) L] by blast
  ultimately show "good_module mods (defs s2)
      ((leave_module s2 m)\<lparr>mValueDefs := vs, mStatus := (if linkErr s2 then MOD_ERROR else MOD_OK)\<rparr>)"
    using imports_from_sig [OF S e(2)] e(1) by (simp add: good_module_def leave_module_def)
qed

lemma link_modules_result:
  assumes "link_modules ms ho err = Some (ms', ho', err')" "in_range ms (fst ho)"
  shows "sig (fst ho') = sig (fst ho) \<and>
    (\<forall>d<length (fst ho). d \<notin> set (concat (map mTypeDefs ms)) \<longrightarrow> tdtype (fst ho') d = tdtype (fst ho) d) \<and>
    map mTypeDefs ms' = map mTypeDefs ms \<and>
    (err' = 0 \<longrightarrow> err = 0 \<and> (\<forall>m\<in>set ms. mStatus m \<noteq> MOD_ERROR) \<and>
       ((\<forall>m\<in>set ms. imports_from mods (fst ho) (mImports m)) \<and> distinct (concat (map mTypeDefs ms)) \<longrightarrow>
          (\<forall>m'\<in>set ms'. good_module mods (fst ho') m')))"
  using assms
proof (induction ms arbitrary: ho err ms')
  case (Cons m ms)
  from Cons.prems(1) obtain s1 vs s2 ms1 where
    m: "link_typeDefs (mImports m) (mTypeDefs m) (mTypeDefs m) (enter_module m ho) = Some s1"
       "link_valueDefs (mImports m) (mTypeDefs m) (mValueDefs m) s1 = Some (vs, s2)"
    and ms: "link_modules ms (defs s2, linkOut s2) (if linkErr s2 then -1 else err) = Some (ms1, ho', err')"
    and ms': "ms' = (leave_module s2 m)
      \<lparr>mValueDefs := vs, mStatus := (if linkErr s2 then MOD_ERROR else MOD_OK)\<rparr> # ms1" (is "_ = ?m' # _")
    by (auto simp: obind_Some)
  have r: "set (mTypeDefs m) \<subseteq> {..<length (fst ho)}" "in_range ms (fst ho)" using Cons.prems(2) by (simp_all add: in_range_def)
  note M = link_module_good [OF m r(1)]
  have len: "length (defs s2) = length (fst ho)" by (rule sig_length [OF M(1)])
  from in_range_sig [OF M(1)] r(2) have "in_range ms (fst (defs s2, linkOut s2))" by simp
  from Cons.IH [OF ms this] have I: "sig (fst ho') = sig (defs s2)"
    "\<forall>d<length (fst ho). d \<notin> set (concat (map mTypeDefs ms)) \<longrightarrow> tdtype (fst ho') d = tdtype (defs s2) d"
    "map mTypeDefs ms1 = map mTypeDefs ms"
    "err' = 0 \<longrightarrow> \<not> linkErr s2 \<and> err = 0 \<and> (\<forall>m\<in>set ms. mStatus m \<noteq> MOD_ERROR)"
    "err' = 0 \<longrightarrow> (\<forall>m\<in>set ms. imports_from mods (defs s2) (mImports m)) \<and> distinct (concat (map mTypeDefs ms)) \<longrightarrow>
          (\<forall>m'\<in>set ms1. good_module mods (fst ho') m')"
    by (auto simp: len split: if_splits)
  have good: "\<forall>m'\<in>set ms'. good_module mods (fst ho') m'"
    if e: "err' = 0" "\<forall>m\<in>set (m # ms). imports_from mods (fst ho) (mImports m)" "distinct (concat (map mTypeDefs (m # ms)))"
  proof -
    from e(1) I(4) have ne: "\<not> linkErr s2" by blast
    from e(2) M(4) [OF ne] have g: "good_module mods (defs s2) ?m'" by simp
    have d: "mTypeDefs ?m' = mTypeDefs m" by (simp add: leave_module_def)
    have "tdtype (fst ho') x = tdtype (defs s2) x" if "x \<in> set (mTypeDefs m)" for x
      using I(2) that r(1) e(3) by auto
    then have "good_module mods (fst ho') ?m'" by (intro good_module_later [OF g I(1)]) (simp add: d)
    moreover have "\<forall>m\<in>set ms. imports_from mods (defs s2) (mImports m)" using e(2) imports_from_sig [OF M(1)] by simp
    ultimately show ?thesis using I(5) e(1,3) by (simp add: ms')
  qed
  have "\<forall>d<length (fst ho). d \<notin> set (concat (map mTypeDefs (m # ms))) \<longrightarrow> tdtype (fst ho') d = tdtype (fst ho) d"
    using I(2) M(2) by simp
  moreover have "map mTypeDefs ms' = map mTypeDefs (m # ms)" by (simp add: ms' I(3) leave_module_def)
  moreover have "err' = 0 \<longrightarrow> err = 0 \<and> (\<forall>m\<in>set (m # ms). mStatus m \<noteq> MOD_ERROR)" using I(4) M(3) by simp
  moreover have "sig (fst ho') = sig (fst ho)" using I(1) M(1) by simp
  ultimately show ?case using good by blast
qed simp

lemma LinkTypeRefs_good:
  assumes "LinkTypeRefs mods h = Some (mods', (h', out), 0)" "in_range mods h" "distinct (concat (map mTypeDefs mods))"
  shows "sig h' = sig h \<and> map mTypeDefs mods' = map mTypeDefs mods \<and> (\<forall>m\<in>set mods'. good_module mods h' m)"
proof -
  obtain ms1 ho1 where i: "link_import_lists mods mods (h, []) = (ms1, ho1)" by (rule prod.exhaust)
  with assms(1) have l: "link_modules ms1 ho1 0 = Some (mods', (h', out), 0)"
    by (simp add: LinkTypeRefs_def TypeLinkImportLists_def)
  from link_import_lists_imported [OF i] assms(2) have I: "sig (fst ho1) = sig h"
    "list_all2 (imported mods (fst ho1)) mods ms1" by simp_all
  have t: "map mTypeDefs ms1 = map mTypeDefs mods"
    using I(2) by (induction rule: list_all2_induct) (simp_all add: imported_def)
  then have s: "mTypeDefs ` set ms1 = mTypeDefs ` set mods" by (metis set_map)
  have "in_range ms1 (fst ho1)"
    unfolding in_range_def
  proof
    fix m
    assume "m \<in> set ms1"
    with s obtain m0 where "m0 \<in> set mods" "mTypeDefs m0 = mTypeDefs m" by (metis image_iff)
    with assms(2) have "set (mTypeDefs m) \<subseteq> {..<length h}" unfolding in_range_def by metis
    then show "set (mTypeDefs m) \<subseteq> {..<length (fst ho1)}" using sig_length [OF I(1)] by simp
  qed
  from link_modules_result [OF l this, of mods] have L: "sig h' = sig (fst ho1)" "map mTypeDefs mods' = map mTypeDefs ms1"
    "\<forall>m\<in>set ms1. mStatus m \<noteq> MOD_ERROR"
    "(\<forall>m\<in>set ms1. imports_from mods (fst ho1) (mImports m)) \<and> distinct (concat (map mTypeDefs ms1)) \<longrightarrow>
          (\<forall>m'\<in>set mods'. good_module mods h' m')" by simp_all
  have "imports_from mods (fst ho1) (mImports m)" if "m \<in> set ms1" for m
  proof -
    from I(2) that obtain m0 where "imported mods (fst ho1) m0 m" by (auto simp: list_all2_conv_all_nth in_set_conv_nth)
    with L(3) that show ?thesis by (simp add: imported_def)
  qed
  with L(4) assms(3) have "\<forall>m'\<in>set mods'. good_module mods h' m'" unfolding t by blast
  with L(1,2) I(1) t show ?thesis by simp
qed

subsection \<open>Selections of what is defined later\<close>

text \<open>\<open>A ::= b < B\<close>, \<open>B ::= C\<close>, \<open>C ::= CHOICE {b NULL}\<close>, as the parser leaves them.\<close>

definition ref_by_name :: "string \<Rightarrow> Type" where
  "ref_by_name name =
     Type False False [] False None None (BASICTYPE_LOCALTYPEREF \<lparr>typeName = name, moduleName = None, link = None\<rparr>)"

definition fresh_def :: "string \<Rightarrow> BasicType \<Rightarrow> TypeDef" where
  "fresh_def name bt =
     \<lparr>recursive = False, localRefCount = 0, tmpRefCount = 0, visited = False, definedName = name,
      tdType = Type False False [] False None None bt, cTypeDefInfo = False, refList = [],
      exported = True, importRefCount = 0\<rparr>"

definition ex_selection :: TypeDefs where
  "ex_selection =
     [fresh_def ''A'' (BASICTYPE_SELECTION (ref_by_name ''B'') ''b'' None),
      fresh_def ''B'' (BASICTYPE_LOCALTYPEREF \<lparr>typeName = ''C'', moduleName = None, link = None\<rparr>),
      fresh_def ''C'' (BASICTYPE_CHOICE
        [NamedType 1 (Some ''b'') (Type False False [] False None None (Plain BASICTYPE_NULL))])]"

definition one_module :: "nat list \<Rightarrow> LinkModule" where
  "one_module tds =
     \<lparr>mStatus = MOD_NOT_LINKED, modIdName = ''M'', modIdOid = [], exportStatus = EXPORTS_ALL, mImports = [],
      mTypeDefs = tds, mValueDefs = [], ImportUsed = False\<rparr>"

definition link_answer :: "nat list \<Rightarrow> (LinkMessage list \<times> int) option" where
  "link_answer tds =
     map_option (\<lambda>(m, (h, out), err). (out, err)) (LinkTypeRefs [one_module tds] ex_selection)"

lemma link_answer_late: "link_answer [0, 1, 2] = Some ([SelectionOfNoChoice], -1)"
  by code_simp

lemma link_answer_early: "link_answer [1, 2, 0] = Some ([], 0)"
  by code_simp

end
