(* ===== verification/Comp_Props.thy ===== *)
theory Comp_Props
  imports Comp_Order Comp_Check Comp_Names Comp_Link
begin

section \<open>Properties of the compiler's passes\<close>

text \<open>The claims about the passes of \<open>compiler/core\<close> over the types of a module, each over the
  model of its theory.\<close>

subsection \<open>Modules for the witnesses\<close>

text \<open>A type with nothing around it, a reference by value or by pointer, an element, a
  definition.\<close>

definition bare :: "BasicType \<Rightarrow> Type" where
  "bare bt = Type False False [] False None None bt"

definition ref_to :: "bool \<Rightarrow> bool \<Rightarrow> string \<Rightarrow> nat \<Rightarrow> Type" where
  "ref_to opt isPtr name d =
     Type opt False [] False (Some isPtr) None
       (BASICTYPE_LOCALTYPEREF \<lparr>typeName = name, moduleName = None, link = Some d\<rparr>)"

definition field :: "nat \<Rightarrow> string \<Rightarrow> Type \<Rightarrow> NamedType" where
  "field a name t = NamedType a (Some name) t"

definition defined :: "string \<Rightarrow> Type \<Rightarrow> TypeDef" where
  "defined name t =
     \<lparr>recursive = False, localRefCount = 1, tmpRefCount = 0, visited = False, definedName = name,
      tdType = t, cTypeDefInfo = False, refList = [], exported = True, importRefCount = 0\<rparr>"

lemmas example_defs = bare_def ref_to_def field_def defined_def

text \<open>\<open>A ::= SEQUENCE {b B}\<close>, \<open>B ::= SEQUENCE {a A OPTIONAL}\<close>.\<close>

definition ex_pair :: TypeDefs where
  "ex_pair =
     [defined ''A'' (bare (BASICTYPE_SEQUENCE [field 1 ''b'' (ref_to False False ''B'' 1)])),
      defined ''B'' (bare (BASICTYPE_SEQUENCE [field 2 ''a'' (ref_to True True ''A'' 0)]))]"

text \<open>\<open>A ::= SEQUENCE {b B}\<close>, \<open>B ::= SEQUENCE {n NULL}\<close>.\<close>

definition ex_plain :: TypeDefs where
  "ex_plain =
     [defined ''A'' (bare (BASICTYPE_SEQUENCE [field 1 ''b'' (ref_to False False ''B'' 1)])),
      defined ''B'' (bare (BASICTYPE_SEQUENCE [field 2 ''n'' (bare (Plain BASICTYPE_NULL))]))]"

text \<open>\<open>A ::= SEQUENCE {a A}\<close>.\<close>

definition ex_self :: TypeDefs where
  "ex_self = [defined ''A'' (bare (BASICTYPE_SEQUENCE [field 1 ''a'' (ref_to False True ''A'' 0)]))]"

text \<open>Links can be checked on the references a walk meets.\<close>

lemma refs_linked_leaves:
  "refs_linked h \<longleftrightarrow> (\<forall>d\<in>set h. \<forall>l\<in>set (rec_leaves (tdType d) False True). ref_link h (fst l) \<noteq> None)"
proof -
  have "refs_linked h \<longleftrightarrow> (\<forall>d\<in>set h. \<forall>r. refers (tdType d) r \<longrightarrow> ref_link h r \<noteq> None)"
    unfolding refs_linked_def all_set_conv_all_nth ..
  also have "\<dots> \<longleftrightarrow> (\<forall>d\<in>set h. \<forall>r\<in>fst ` set (rec_leaves (tdType d) False True). ref_link h r \<noteq> None)"
    unfolding leaves_refers by simp
  finally show ?thesis by (simp add: ball_simps)
qed

lemma ref_link_hd: "ref_link h \<lparr>typeName = s, moduleName = m, link = Some d\<rparr> = (if d < length h then Some d else None)"
  by (simp add: ref_link_def)

lemma ex_linked: "refs_linked ex_pair" "refs_linked ex_plain" "refs_linked ex_self"
  by (simp_all add: refs_linked_leaves ex_pair_def ex_plain_def ex_self_def example_defs ref_link_hd
      del: ref_link_Some)

lemma marks_clear_all: "marks_clear [0..<length h] h"
  by (auto simp: marks_clear_def)

subsection \<open>Recursive types\<close>

lemma has_value_same: "has_value h t \<Longrightarrow> same_types h h' \<Longrightarrow> has_value h' t"
proof (induction rule: has_value.induct)
  case (basic bt opt impl tgs dflt ci cxi)
  show ?case by (rule has_value.basic) (simp_all add: basic.hyps)
next
  case (alternative a nm t es opt impl tgs dflt ci cxi)
  then show ?case by (intro has_value.alternative) auto
next
  case (elements bt es opt impl tgs dflt ci cxi)
  then show ?case by (intro has_value.elements [where es = es]) auto
next
  case (reference bt r d opt impl tgs dflt ci cxi)
  from reference.hyps(2) reference.prems have d: "tdtype h' d = tdtype h d" "ref_link h' r = Some d"
    by (auto simp: same_types_def)
  show ?case by (rule has_value.reference [OF reference.hyps(1) d(2)]) (simp add: d(1) reference)
qed

text \<open>C25: After \<open>MarkRecursiveTypes\<close> a definition of the module is marked recursive if it was so
  before or if following references leads from it back to itself, through any positions of the
  types on the way; the pass ends and leaves the types as they are.\<close>

theorem recursive_iff_circle:
  assumes "marks_clear tds h" "refs_linked h"
  shows "\<exists>h' ws. MarkRecursiveTypes tds h = Some (h', ws) \<and> length h' = length h \<and>
    (\<forall>d. tdtype h' d = tdtype h d \<and>
       (recursive (h' ! d) \<longleftrightarrow> recursive (h ! d) \<or> d \<in> set tds \<and> (d, d) \<in> (ref_rel h)\<^sup>+))"
  by (rule MarkRecursiveTypes_spec [OF assms]) blast

theorem recursive_iff_circle_witness:
  "\<exists>h' ws. MarkRecursiveTypes [0..<length ex_pair] ex_pair = Some (h', ws) \<and> length h' = length ex_pair \<and>
    (\<forall>d. tdtype h' d = tdtype ex_pair d \<and>
       (recursive (h' ! d) \<longleftrightarrow>
          recursive (ex_pair ! d) \<or> d \<in> set [0..<length ex_pair] \<and> (d, d) \<in> (ref_rel ex_pair)\<^sup>+))"
  by (rule recursive_iff_circle [OF marks_clear_all ex_linked(1)])

text \<open>C26: A definition for which the pass prints that it can hold no values, or that its values
  are of infinite size, has no finite value.\<close>

theorem warned_no_value:
  assumes "marks_clear tds h" "refs_linked h" "MarkRecursiveTypes tds h = Some (h', ws)" "w \<in> set ws"
  shows "\<exists>td\<in>set tds. w \<in> {CanHoldNoValues td, InfinitelySizedValues td} \<and> \<not> has_value h (tdtype h td)"
proof -
  let ?h = "clear_visits tds h"
  from MarkRecursiveTypes_spec [OF assms(1,2)] assms(3)
  have ws: "set ws = (\<Union>td\<in>set tds. warnings td (self_hit ?h td))"
    and e: "entered ?h = {}" and st: "same_types h ?h" by (metis option.inject prod.inject)+
  from ws assms(4) obtain td where td: "td \<in> set tds" "w \<in> warnings td (self_hit ?h td)" by blast
  have "td < length ?h" using td(1) assms(1) by (auto simp: marks_clear_def clear_visits_simps)
  from mandatory_cycle_no_value [OF warned_cycle [OF this e td(2)]] have "\<not> has_value ?h (tdtype ?h td)" .
  then have "\<not> has_value h (tdtype h td)" 
    using has_value_same [OF _ st] by (auto simp: clear_visits_simps)
  with td show ?thesis by (auto simp: warnings_def)
qed


theorem warned_no_value_witness:
  "\<not> has_value ex_self (tdtype ex_self 0)"
proof -
  have "\<exists>h' ws. MarkRecursiveTypes [0] ex_self = Some (h', ws) \<and> InfinitelySizedValues 0 \<in> set ws"
    by (simp add: MarkRecursiveTypes_def MkRecTypeDef_def clear_visits_def ex_self_def example_defs ref_link_hd
        del: ref_link_Some)
  then obtain h' ws where m: "MarkRecursiveTypes [0] ex_self = Some (h', ws)" "InfinitelySizedValues 0 \<in> set ws"
    by blast
  have "marks_clear [0] ex_self" by (simp add: marks_clear_def ex_self_def)
  from warned_no_value [OF this ex_linked(3) m] show ?thesis by simp
qed

text \<open>C27: If the pass prints nothing over a module that refers to no other and whose CHOICEs have
  one alternative each, every definition has a finite value.  (The pass takes every alternative
  of a larger CHOICE as optional.)\<close>

theorem silent_has_values:
  assumes "one_way_module h" "refs_linked h" "MarkRecursiveTypes [0..<length h] h = Some (h', [])" "td < length h"
  shows "has_value h (tdtype h td)"
proof (rule ccontr)
  let ?h = "clear_visits [0..<length h] h"
  from MarkRecursiveTypes_spec [OF marks_clear_all assms(2)] assms(3)
  have ws: "set [] = (\<Union>td\<in>set [0..<length h]. warnings td (self_hit ?h td))"
    and e: "entered ?h = {}" and st: "same_types h ?h" by (metis option.inject prod.inject)+
  assume "\<not> has_value h (tdtype h td)"
  then have "\<not> has_value ?h (tdtype ?h td)"
    using has_value_same [OF _ same_sym [OF st]] by (auto simp: clear_visits_simps)
  moreover have "one_way_module ?h" "refs_linked ?h" "td < length ?h"
    using assms st by (simp_all add: one_way_module_def refs_linked_same clear_visits_simps)
  ultimately obtain b where "b < length ?h" "warnings b (self_hit ?h b) \<noteq> {}"
    using no_value_warned [OF _ _ e] by blast
  with ws show False by (auto simp: clear_visits_simps)
qed

lemma one_way_sequence:
  "(\<And>e. e \<in> set es \<Longrightarrow> one_way (ntType e)) \<Longrightarrow> one_way (bare (BASICTYPE_SEQUENCE es))"
  unfolding bare_def by (rule one_way.elements [where es = es]) force+

lemma one_way_ref: "one_way (ref_to opt isPtr name d)"
  unfolding ref_to_def by (rule one_way.basic) simp_all

lemma bare_flags: "optional (bare bt) = False" "defaultVal (bare bt) = False"
  by (simp_all add: bare_def)

lemma ex_pair_one_way: "one_way_module ex_pair"
  by (auto simp: one_way_module_def ex_pair_def defined_def field_def less_Suc_eq bare_flags
      intro!: one_way_sequence one_way_ref)

theorem silent_has_values_witness: "has_value ex_pair (tdtype ex_pair 0)"
proof -
  have "\<exists>h'. MarkRecursiveTypes [0..<length ex_pair] ex_pair = Some (h', [])"
    by (simp add: MarkRecursiveTypes_def MkRecTypeDef_def clear_visits_def ex_pair_def example_defs ref_link_hd
        del: ref_link_Some)
  then obtain h' where m: "MarkRecursiveTypes [0..<length ex_pair] ex_pair = Some (h', [])" by blast
  have "0 < length ex_pair" by (simp add: ex_pair_def)
  from silent_has_values [OF ex_pair_one_way ex_linked(1) m this] show ?thesis .
qed


text \<open>The walk that keeps the types it went through always ends; it finds the type that the
  plain walk along the references finds, and the reference itself when that does not return.\<close>

theorem paranoid_finds_type:
  "ParanoidGetType h t = (case ResolveImportedType h t of None \<Rightarrow> t | Some u \<Rightarrow> u)"
  by (rule ParanoidGetType_eq)

subsection \<open>The order of the types\<close>









text \<open>\<open>B ::= SEQUENCE {c C, b B OPTIONAL}\<close>, \<open>C ::= SEQUENCE {d D}\<close>,
  \<open>D ::= SEQUENCE {e E OPTIONAL}\<close>, \<open>E ::= SEQUENCE {d D OPTIONAL}\<close>: \<open>B\<close>, \<open>D\<close> and
  \<open>E\<close> are recursive, \<open>C\<close> is not but depends on a circle.\<close>

definition ex_holder :: TypeDefs where
  "ex_holder =
     [defined ''B'' (bare (BASICTYPE_SEQUENCE
        [field 1 ''c'' (ref_to False False ''C'' 1), field 2 ''b'' (ref_to True True ''B'' 0)])),
      defined ''C'' (bare (BASICTYPE_SEQUENCE [field 3 ''d'' (ref_to False False ''D'' 2)])),
      defined ''D'' (bare (BASICTYPE_SEQUENCE [field 4 ''e'' (ref_to True True ''E'' 3)])),
      defined ''E'' (bare (BASICTYPE_SEQUENCE [field 5 ''d'' (ref_to True True ''D'' 2)]))]"

text \<open>With circles the order is not always one the back ends can use: here \<open>B\<close> holds \<open>C\<close> by
  value, and is put in front of it, because types that depend on a circle without being part of
  one are put behind all recursive types.\<close>

theorem holder_before_held:
  "map_option (\<lambda>(h1, ws). map_option (\<lambda>(h2, tds', err). (tds', err)) (SortTypeDependencies h1 [0, 1, 2, 3]))
     (MarkRecursiveTypes [0, 1, 2, 3] ex_holder) = Some (Some ([0, 2, 3, 1], False)) \<and>
   Some 1 \<in> set (BuildWeightedLocalRefList (tdtype ex_holder 0) [])"
  by code_simp

subsection \<open>Tags\<close>














subsection \<open>A module that passes\<close>











text \<open>Collecting the field names of a definition, through the CHOICEs embedded by reference,
  ends, circles or not: each reference that is followed has a name that is not being followed.\<close>

theorem field_names_end:
  "\<exists>s'. ChkFieldNames (length (loose_all h elmts) + k) h td own elmts s = Some s'"
  by (rule ChkFieldNames_ends) simp

subsection \<open>Names in generated code\<close>




text \<open>The name that the C back end makes is no key word, and it is a name that is defined
  exactly if the given name cannot be kept and everything is defined that is made of it and at
  most so many digits other than zero.\<close>

theorem unique_name_taken_iff:
  assumes "0 < maxDigits" "maxDigits \<le> 9"
  shows "\<not> IsCKeyWord (MakeCStrUnique names s maxDigits 1) \<and>
    (MakeCStrUnique names s maxDigits 1 \<in> set names \<longleftrightarrow>
       (s \<in> set names \<or> IsCKeyWord s) \<and> numbered s maxDigits \<subseteq> set names)"
proof -
  have "\<not> IsCKeyWord (unique_loop names s (10 ^ maxDigits) 1)"
    using keyword_last(1) unique_loop_last by blast
  then show ?thesis using unique_loop_taken_iff [OF assms, of names s]
    by (auto simp: MakeCStrUnique_def ObjIsDefined_Str)
qed

text \<open>Removing the line breaks from a comment, which cuts out the first one and starts again,
  ends on every comment and gives what one pass with a stack gives; it holds no line break, also
  none made of what was around another.\<close>

theorem naked_comment:
  "getNakedCommentDupped s = Some (strip_breaks s) \<and> \<not> sublist [CHR 0x5C, CHR ''n''] (strip_breaks s)"
proof -
  from replace_loop_total [of "[]" "[CHR 0x5C, CHR ''n'']" s] replace_breaks [of s]
  have "\<not> sublist [CHR 0x5C, CHR ''n''] (strip_breaks s)" by fastforce
  then show ?thesis
    by (simp add: getNakedCommentDupped_def str_replace_def replace_breaks)
qed

subsection \<open>Linking\<close>

lemma good_module_linked:
  assumes "good_module mods h m" "t \<in> tdtype h ` set (mTypeDefs m) \<or> Some t \<in> valuesType ` set (mValueDefs m)"
    "link_refs t r" "starts isupper (typeName r)"
  shows "linked (mImports m) (mTypeDefs m) h r"
proof -
  from assms(2) have "linked_type (mImports m) (mTypeDefs m) h t"
  proof
    assume "Some t \<in> valuesType ` set (mValueDefs m)"
    then obtain v where "v \<in> set (mValueDefs m)" "valuesType v = Some t" by auto
    with assms(1) show ?thesis by (simp add: good_module_def linked_value_def)
  qed (use assms(1) in \<open>auto simp: good_module_def\<close>)
  with assms(3,4) show ?thesis by (simp add: linked_type_def)
qed

lemma good_modules_refs_linked:
  assumes "\<forall>m\<in>set mods'. good_module mods h m" "{..<length h} \<subseteq> set (concat (map mTypeDefs mods'))"
    "\<forall>d<length h. \<forall>r. refers (tdtype h d) r \<longrightarrow> starts isupper (typeName r)"
  shows "refs_linked h"
  unfolding refs_linked_def
proof (intro allI impI)
  fix d r
  assume d: "d < length h" "refers (tdtype h d) r"
  then have "d \<in> set (concat (map mTypeDefs mods'))" using assms(2) by blast
  then obtain m where m: "m \<in> set mods'" "d \<in> set (mTypeDefs m)" by auto
  then have "linked (mImports m) (mTypeDefs m) h r"
    using good_module_linked [of mods h m "tdtype h d" r] assms(1,3) refers_link_refs [OF d(2)] d by simp
  then show "ref_link h r \<noteq> None" by (auto simp: linked_def ref_link_def)
qed

text \<open>C40: If linking returns without an error, every module is marked as linked, each of its imports
  of a type is resolved to a definition with this name that its module exports, and each reference
  in its types and in the types of its values, in every position but the contents of an
  \<open>OCTET STRING\<close>, leads to a definition with the name it has, of the module itself or one of the
  imported; so the types are what the later passes rely on.\<close>

theorem link_success:
  assumes "LinkTypeRefs mods h = Some (mods', (h', out), 0)" "in_range mods h"
    "distinct (concat (map mTypeDefs mods))"
  shows "(\<forall>m\<in>set mods'. mStatus m = MOD_OK \<and>
      (\<forall>im\<in>set (mImports m). \<exists>M. LookupModule mods (impModName im) (impModOid im) = Some M \<and>
         (\<forall>e\<in>set (importElmts im). starts isupper (importName e) \<longrightarrow> from_module M h' e)) \<and>
      (\<forall>t r. (t \<in> tdtype h' ` set (mTypeDefs m) \<or> Some t \<in> valuesType ` set (mValueDefs m)) \<longrightarrow>
         link_refs t r \<longrightarrow> starts isupper (typeName r) \<longrightarrow> linked (mImports m) (mTypeDefs m) h' r)) \<and>
    ({..<length h} \<subseteq> set (concat (map mTypeDefs mods)) \<and>
       (\<forall>d<length h. \<forall>r. refers (tdtype h' d) r \<longrightarrow> starts isupper (typeName r)) \<longrightarrow> refs_linked h')"
proof -
  note L = LinkTypeRefs_good [OF assms]
  then have good: "good_module mods h' m" if "m \<in> set mods'" for m using that by blast
  have "mStatus m = MOD_OK \<and> imports_from mods h' (mImports m)" if "m \<in> set mods'" for m
    using good [OF that] by (simp add: good_module_def)
  moreover have "linked (mImports m) (mTypeDefs m) h' r" if "m \<in> set mods'"
    "t \<in> tdtype h' ` set (mTypeDefs m) \<or> Some t \<in> valuesType ` set (mValueDefs m)"
    "link_refs t r" "starts isupper (typeName r)" for m t r
    using good_module_linked [OF good [OF that(1)] that(2-4)] .
  moreover have "refs_linked h'" if "{..<length h} \<subseteq> set (concat (map mTypeDefs mods))"
    "\<forall>d<length h. \<forall>r. refers (tdtype h' d) r \<longrightarrow> starts isupper (typeName r)"
  proof (rule good_modules_refs_linked)
    have len: "length h' = length h" using L by (blast intro: sig_length)
    have "set (concat (map mTypeDefs mods')) = set (concat (map mTypeDefs mods))" using L by simp
    with that(1) len show "{..<length h'} \<subseteq> set (concat (map mTypeDefs mods'))" by (simp only:)
    show "\<forall>m\<in>set mods'. good_module mods h' m" using good by blast
    show "\<forall>d<length h'. \<forall>r. refers (tdtype h' d) r \<longrightarrow> starts isupper (typeName r)" using that(2) len by (simp only:)
  qed
  ultimately show ?thesis unfolding imports_from_def by blast
qed

definition ex_link_result :: "(LinkModule list \<times> (TypeDefs \<times> LinkMessage list) \<times> int) option" where
  "ex_link_result = LinkTypeRefs [one_module [1, 2, 0]] ex_selection"

theorem link_success_witness:
  "mStatus (hd (fst (the ex_link_result))) = MOD_OK"
proof -
  have "map_option (\<lambda>(m, (h, out), err). (length m, err)) ex_link_result = Some (1, 0)"
    unfolding ex_link_result_def by code_simp
  then obtain ms h out where r: "ex_link_result = Some (ms, (h, out), 0)" "length ms = 1" by (auto split: prod.splits)
  have "in_range [one_module [1, 2, 0]] ex_selection" "distinct (concat (map mTypeDefs [one_module [1, 2, 0]]))"
    by (auto simp: in_range_def one_module_def ex_selection_def)
  from link_success [OF r(1) [unfolded ex_link_result_def] this] r(2) show ?thesis by (cases ms) (simp_all add: r(1))
qed

text \<open>Whether a selection can be linked depends on where its type is defined: with
  \<open>A ::= b < B\<close>, \<open>B ::= C\<close>, \<open>C ::= CHOICE {b NULL}\<close> in this order it is refused as one of a type
  that is no CHOICE, because the reference in \<open>B\<close> is not linked yet; with \<open>A\<close> at the end the
  module is linked.\<close>

theorem selection_order:
  "map_option (\<lambda>(m, (h, out), err). (out, err)) (LinkTypeRefs [one_module [0, 1, 2]] ex_selection) =
     Some ([SelectionOfNoChoice], -1) \<and>
   map_option (\<lambda>(m, (h, out), err). (out, err)) (LinkTypeRefs [one_module [1, 2, 0]] ex_selection) = Some ([], 0)"
  using link_answer_late link_answer_early by (simp add: link_answer_def)

end
