(* ===== verification/Cpp_Int.thy ===== *)
theory Cpp_Int
  imports Asn_Int
begin

section \<open>The INTEGER of the C++ runtime (\<open>cpp-lib/src/asn-int.cpp\<close>)\<close>

text \<open>
  \<open>AsnInt\<close> of the C++ runtime keeps the content octets of an INTEGER, of any length it was meant:
  every way to set it ends with \<open>m_value = GetLongLong()\<close>, which throws for more than eight octets.
  A value is the list \<open>m_bytes\<close>; \<open>None\<close> is the exception \<open>INTEGER_ERROR\<close>.  The theory shows that
  the octets are those the C runtime encodes, that they are as short as possible, and that numbers
  come back out of them.
\<close>

subsection \<open>Octets of a number\<close>

text \<open>The loops that drop leading octets: zeros, and ones of a negative number.\<close>

fun drop_zeros :: "byte list \<Rightarrow> byte list" where
  "drop_zeros (x # y # ys) = (if x = 0 \<and> y AND 0x80 = 0 then drop_zeros (y # ys) else x # y # ys)"
| "drop_zeros bs = bs"

fun drop_ones :: "byte list \<Rightarrow> byte list" where
  "drop_ones (x # y # ys) = (if x = 0xFF \<and> y AND 0x80 \<noteq> 0 then drop_ones (y # ys) else x # y # ys)"
| "drop_ones bs = bs"

text \<open>\<open>*pData\<close> of no octets is the zero that ends the strings it is called with.\<close>

definition storeDERInteger :: "byte list \<Rightarrow> bool \<Rightarrow> byte list option" where
  "storeDERInteger pData unsignedFlag =
     (let m_bytes =
        (if unsignedFlag then
           (let d = drop_zeros pData in if d \<noteq> [] \<and> hd d AND 0x80 \<noteq> 0 then 0 # d else d)
         else if length pData > 1 then drop_zeros (drop_ones pData)
         else [])
      in if length m_bytes > 8 then None else Some m_bytes)"

definition TryGetInt :: "byte list \<Rightarrow> 32 word option" where
  "TryGetInt m_bytes =
     (if length m_bytes > 4 then None
      else Some (foldl (\<lambda>r b. push_bit 8 r OR ucast b) (if m_bytes \<noteq> [] \<and> drop_bit 7 (hd m_bytes) = 1 then -1 else 0) m_bytes))"

definition TryGetInt64 :: "byte list \<Rightarrow> 64 word option" where
  "TryGetInt64 m_bytes =
     (if length m_bytes > 8 then None
      else Some (foldl (\<lambda>r b. push_bit 8 r OR ucast b) (if m_bytes \<noteq> [] \<and> drop_bit 7 (hd m_bytes) = 1 then -1 else 0) m_bytes))"

text \<open>\<open>Set (AsnIntType)\<close> and \<open>Set (long long)\<close>.\<close>

definition SetInt :: "32 word \<Rightarrow> byte list option" where
  "SetInt iIn =
     storeDERInteger (map (\<lambda>i. ucast (signed_drop_bit (8 * i) iIn AND 0xff)) (rev [0..<4])) (0 \<le> sint iIn)"

definition SetInt64 :: "64 word \<Rightarrow> byte list option" where
  "SetInt64 iIn =
     storeDERInteger (map (\<lambda>i. ucast (signed_drop_bit (8 * i) iIn AND 0xff)) (rev [0..<8])) (0 \<le> sint iIn)"

text \<open>The other readers.\<close>

definition TryGetUInt64 :: "byte list \<Rightarrow> 64 word option" where
  "TryGetUInt64 m_bytes =
     (case TryGetInt64 m_bytes of None \<Rightarrow> None | Some v \<Rightarrow> if sint v < 0 then None else Some v)"

definition TryGetUInt :: "byte list \<Rightarrow> 32 word option" where
  "TryGetUInt m_bytes =
     (case TryGetInt64 m_bytes of None \<Rightarrow> None
      | Some v \<Rightarrow> if 0 \<le> sint v \<and> sint v \<le> 0xFFFFFFFF then Some (ucast v) else None)"

definition eq_int :: "byte list \<Rightarrow> 32 word \<Rightarrow> bool" where
  "eq_int m_bytes o' =
     (if length m_bytes > 4 then False
      else foldl (\<lambda>r b. push_bit 8 r OR ucast b) (if m_bytes \<noteq> [] \<and> hd m_bytes AND 0x80 \<noteq> 0 then -1 else 0) m_bytes = o')"

fun memcmp_less :: "byte list \<Rightarrow> byte list \<Rightarrow> bool" where
  "memcmp_less (x # xs) (y # ys) = (x < y \<or> (x = y \<and> memcmp_less xs ys))"
| "memcmp_less _ _ = False"

definition less_AsnInt :: "byte list \<Rightarrow> byte list \<Rightarrow> bool" where
  "less_AsnInt a b =
     (if length a < length b then True else if length a > length b then False else memcmp_less a b)"

subsection \<open>What they stand for\<close>

definition minimal :: "byte list \<Rightarrow> bool" where
  "minimal bs \<longleftrightarrow> bs \<noteq> [] \<and>
     (\<forall>x y ys. bs = x # y # ys \<longrightarrow> \<not> (x = 0 \<and> y AND 0x80 = 0) \<and> \<not> (x = 0xFF \<and> y AND 0x80 \<noteq> 0))"

lemma twos_Cons: "twos (x # xs) = int (unat x) * 256 ^ length xs + int (be_val xs) - (if 128 \<le> x then 256 * 256 ^ length xs else 0)"
  by (simp add: twos_def)

lemma twos_drop_zero: "y AND 0x80 = 0 \<Longrightarrow> twos (0 # y # ys) = twos (y # ys)"
  using byte_sign_iff [of y] by (simp add: twos_Cons)

lemma twos_drop_one: "y AND 0x80 \<noteq> 0 \<Longrightarrow> twos (0xFF # y # ys) = twos (y # ys)"
proof -
  assume "y AND 0x80 \<noteq> 0"
  moreover have "128 \<le> (0xFF :: byte)" "unat (0xFF :: byte) = 255" by simp_all
  ultimately show ?thesis using byte_sign_iff [of y] by (simp only: twos_Cons be_val.simps if_True) (simp add: algebra_simps)
qed

lemma drop_zeros: "twos (drop_zeros bs) = twos bs \<and> be_val (drop_zeros bs) = be_val bs \<and>
  length (drop_zeros bs) \<le> length bs \<and> (drop_zeros bs = [] \<longleftrightarrow> bs = []) \<and>
  (\<forall>x y ys. drop_zeros bs = x # y # ys \<longrightarrow> \<not> (x = 0 \<and> y AND 0x80 = 0))"
  by (induction bs rule: drop_zeros.induct) (auto simp: twos_drop_zero)

lemma drop_ones: "twos (drop_ones bs) = twos bs \<and> length (drop_ones bs) \<le> length bs \<and> (drop_ones bs = [] \<longleftrightarrow> bs = []) \<and>
  (\<forall>x y ys. drop_ones bs = x # y # ys \<longrightarrow> \<not> (x = 0xFF \<and> y AND 0x80 \<noteq> 0))"
  by (induction bs rule: drop_ones.induct) (auto simp: twos_drop_one)

lemma drop_zeros_head:
  "drop_zeros bs = x # y # ys \<Longrightarrow> x = 0xFF \<Longrightarrow> y AND 0x80 \<noteq> 0 \<Longrightarrow> drop_zeros bs = bs"
  by (induction bs rule: drop_zeros.induct) (auto split: if_splits)

lemma unat_255: "unat (x :: byte) = 255 \<Longrightarrow> x = 0xFF"
proof -
  assume "unat x = 255"
  then have "(of_nat (unat x) :: byte) = of_nat 255" by simp
  then show ?thesis by simp
qed

text \<open>A minimal list of \<open>n\<close> octets is needed for its number, and there is only one.\<close>

lemma minimal_range:
  assumes "minimal bs" "1 < length bs"
  shows "twos bs < - (128 * 256 ^ (length bs - 2)) \<or> 128 * 256 ^ (length bs - 2) \<le> twos bs"
proof -
  obtain x y ys where bs: "bs = x # y # ys"
    using assms(2) by (metis One_nat_def length_0_conv length_Cons less_nat_zero_code list.exhaust nat_neq_iff)
  let ?K = "256 ^ length ys :: int"
  have n: "\<not> (x = 0 \<and> \<not> 128 \<le> y)" "\<not> (x = 0xFF \<and> 128 \<le> y)"
    using assms(1) bs byte_sign_iff [of y] unfolding minimal_def by blast+
  have v: "int (be_val (y # ys)) = int (unat y) * ?K + int (be_val ys)" by simp
  have b: "int (be_val ys) < ?K" using be_val_bound [of ys] by (metis of_nat_less_iff of_nat_numeral of_nat_power)
  have B: "int (be_val (y # ys)) < 256 * ?K"
    using be_val_bound [of "y # ys"] by (metis length_Cons of_nat_less_iff of_nat_mult of_nat_numeral of_nat_power power_Suc)
  have K: "0 < ?K" by simp
  have t: "twos bs = int (unat x) * (256 * ?K) + int (be_val (y # ys)) - (if 128 \<le> x then 256 * (256 * ?K) else 0)"
    by (simp add: bs twos_Cons)
  have "unat x < 256" using unsigned_less [of x, where ?'a = nat] by simp
  then have x256: "int (unat x) < 256" by (metis of_nat_less_iff of_nat_numeral)
  have l: "length bs - 2 = length ys" by (simp add: bs)
  show ?thesis
  proof (cases "128 \<le> x")
    case True
    show ?thesis
    proof (cases "x = 0xFF")
      case True
      then have "unat y < 128" using n(2) by (simp add: word_le_nat_alt)
      then have "int (unat y) \<le> 127" by linarith
      then have "int (unat y) * ?K \<le> 127 * ?K" by (rule mult_right_mono) simp
      moreover have "twos bs = 255 * (256 * ?K) + int (be_val (y # ys)) - 256 * (256 * ?K)"
        using t \<open>128 \<le> x\<close> unfolding True by simp
      ultimately have "twos bs < - (128 * ?K)" using v b by linarith
      then show ?thesis by (simp add: l)
    next
      case False
      then have "unat x \<noteq> 255" using unat_255 by blast
      then have "int (unat x) \<le> 254" using x256 by linarith
      then have "int (unat x) * (256 * ?K) \<le> 254 * (256 * ?K)" by (rule mult_right_mono) simp
      moreover have "twos bs = int (unat x) * (256 * ?K) + int (be_val (y # ys)) - 256 * (256 * ?K)"
        using t True by (simp only: if_True)
      ultimately have "twos bs < - (128 * ?K)" using B K by linarith
      then show ?thesis by (simp add: l)
    qed
  next
    case False
    show ?thesis
    proof (cases "x = 0")
      case True
      then have "128 \<le> unat y" using n(1) by (simp add: word_le_nat_alt)
      then have "128 \<le> int (unat y)" by linarith
      then have "128 * ?K \<le> int (unat y) * ?K" by (rule mult_right_mono) simp
      moreover have "twos bs = int (be_val (y # ys))" using t True by simp
      moreover have "0 \<le> int (be_val ys)" by simp
      ultimately have "128 * ?K \<le> twos bs" using v by linarith
      then show ?thesis by (simp add: l)
    next
      case x: False
      then have "0 < unat x" by (simp add: unat_gt_0)
      then have "1 \<le> int (unat x)" by linarith
      then have "1 * (256 * ?K) \<le> int (unat x) * (256 * ?K)" by (rule mult_right_mono) simp
      moreover have "twos bs = int (unat x) * (256 * ?K) + int (be_val (y # ys))" using t False by (simp only: if_False)
      moreover have "0 \<le> int (be_val (y # ys))" by simp
      ultimately have "128 * ?K \<le> twos bs" using K by linarith
      then show ?thesis by (simp add: l)
    qed
  qed
qed

lemma minimal_length:
  assumes "minimal bs" "0 < n" "- (128 * 256 ^ (n - 1)) \<le> twos bs" "twos bs < 128 * 256 ^ (n - 1)"
  shows "length bs \<le> n"
proof (rule ccontr)
  assume "\<not> length bs \<le> n"
  then have l: "1 < length bs" "n - 1 \<le> length bs - 2" using assms(2) by simp_all
  have "(256 :: int) ^ (n - 1) \<le> 256 ^ (length bs - 2)" using l(2) by (rule power_increasing) simp
  with minimal_range [OF assms(1) l(1)] assms(3,4) show False by linarith
qed

lemma be_val_inj: "length xs = length ys \<Longrightarrow> be_val xs = be_val ys \<Longrightarrow> xs = ys"
proof (induction xs ys rule: list_induct2)
  case (Cons x xs y ys)
  let ?K = "256 ^ length xs :: nat"
  have e: "unat x * ?K + be_val xs = unat y * ?K + be_val ys" using Cons.prems Cons.hyps by simp
  have b: "be_val xs < ?K" "be_val ys < ?K" using be_val_bound [of xs] be_val_bound [of ys] Cons.hyps by simp_all
  have "(unat x * ?K + be_val xs) div ?K = unat x" "(unat y * ?K + be_val ys) div ?K = unat y"
    using b by (simp_all add: div_add1_eq)
  with e have "unat x = unat y" by simp
  with e Cons.IH show ?case by (simp add: word_unat_eq_iff)
qed simp

lemma twos_inj:
  assumes "length xs = length ys" "twos xs = twos ys"
  shows "xs = ys"
proof (cases xs)
  case (Cons x xs')
  then obtain y ys' where y: "ys = y # ys'" "length xs' = length ys'" using assms(1) by (cases ys) auto
  have dvd: "int (be_val xs) = int (be_val ys) + c * 256 ^ length xs" if "c = (if 128 \<le> x then 1 else 0) - (if 128 \<le> y then 1 else (0::int))" for c
    using assms(2) that y Cons by (auto simp: twos_def)
  have "int (be_val xs) mod 256 ^ length xs = int (be_val ys) mod 256 ^ length xs"
    using dvd [OF refl] by (simp add: mod_add_right_eq)
  moreover have "int (be_val xs) < 256 ^ length xs" "int (be_val ys) < 256 ^ length xs"
    using be_val_bound [of xs] be_val_bound [of ys] assms(1) by (metis of_nat_less_iff of_nat_numeral of_nat_power)+
  ultimately have "be_val xs = be_val ys" by simp
  with assms(1) show ?thesis by (rule be_val_inj)
qed (use assms(1) in simp)

lemma minimal_unique:
  assumes "minimal xs" "minimal ys" "twos xs = twos ys"
  shows "xs = ys"
proof -
  have le: "length a \<le> length b" if "minimal a" "minimal b" "twos a = twos b" for a b
  proof (rule minimal_length [OF that(1)])
    show "0 < length b" using that(2) by (simp add: minimal_def)
    then show "- (128 * 256 ^ (length b - 1)) \<le> twos a" "twos a < 128 * 256 ^ (length b - 1)"
      using twos_range [of b] that(3) by simp_all
  qed
  from le [OF assms] le [OF assms(2,1) assms(3) [symmetric]] have "length xs = length ys" by simp
  then show ?thesis using assms(3) by (rule twos_inj)
qed

subsection \<open>Setting and reading numbers\<close>

lemma storeDERInteger_unsigned:
  assumes "pData \<noteq> []" "be_val pData < 2 ^ 63"
  shows "\<exists>bs. storeDERInteger pData True = Some bs \<and> minimal bs \<and> twos bs = int (be_val pData)"
proof -
  let ?d = "drop_zeros pData"
  let ?b = "if ?d \<noteq> [] \<and> hd ?d AND 0x80 \<noteq> 0 then 0 # ?d else ?d"
  note Z = drop_zeros [of pData]
  obtain x xs where d: "?d = x # xs" using Z assms(1) by (cases ?d) auto
  have m: "minimal ?b \<and> twos ?b = int (be_val pData)"
  proof (cases "x AND 0x80 = 0")
    case True
    then have "x \<noteq> 0xFF" by auto
    moreover have "twos ?d = int (be_val pData)"
      using Z True byte_sign_iff [of x] unfolding d twos_def by auto
    ultimately show ?thesis using True Z d by (simp add: minimal_def)
  next
    case False
    have "twos (0 # ?d) = int (be_val pData)" using Z by (simp add: twos_def)
    with False d show ?thesis by (auto simp: minimal_def)
  qed
  then have "length ?b \<le> 8" by (intro minimal_length) (use assms(2) in simp_all)
  with m show ?thesis by (simp add: storeDERInteger_def Let_def)
qed

lemma storeDERInteger_signed:
  assumes "1 < length pData" "- (2 ^ 63) \<le> twos pData" "twos pData < 2 ^ 63"
  shows "\<exists>bs. storeDERInteger pData False = Some bs \<and> minimal bs \<and> twos bs = twos pData"
proof -
  let ?o = "drop_ones pData" and ?d = "drop_zeros (drop_ones pData)"
  note Z = drop_zeros [of ?o] and N = drop_ones [of pData]
  have "\<not> (x = 0xFF \<and> y AND 0x80 \<noteq> 0)" if "?d = x # y # ys" for x y ys
    using drop_zeros_head [of ?o x y ys] that N by metis
  moreover have "?d \<noteq> []" "twos ?d = twos pData" using Z N assms(1) by (auto simp del: drop_zeros.simps drop_ones.simps)
  ultimately have m: "minimal ?d \<and> twos ?d = twos pData" using Z unfolding minimal_def by blast
  then have "length ?d \<le> 8" by (intro minimal_length) (use assms in simp_all)
  with m assms(1) show ?thesis by (simp add: storeDERInteger_def Let_def)
qed

text \<open>The octets an integer is cut into.\<close>

lemma to_be_map: "to_be n w = map (\<lambda>i. ucast (drop_bit (8 * i) w)) (rev [0..<n])"
proof (induction n arbitrary: w)
  case (Suc n)
  have "rev [0..<Suc n] = map Suc (rev [0..<n]) @ [0]"
    by (simp add: upt_conv_Cons map_Suc_upt flip: rev_map del: upt_Suc)
  with Suc show ?case by (simp add: drop_bit_drop_bit add.commute comp_def)
qed simp

lemma signed_octet:
  "8 * i + 8 \<le> LENGTH('a) \<Longrightarrow> (ucast (signed_drop_bit (8 * i) w AND 0xff) :: byte) = ucast (drop_bit (8 * i) w)"
  for w :: "'a::len word"
proof (rule bit_word_eqI)
  fix n
  assume l: "8 * i + 8 \<le> LENGTH('a)" "n < LENGTH(8)"
  have m: "(0xff :: 'a word) = mask 8" by (simp add: mask_eq_exp_minus_1)
  show "bit (ucast (signed_drop_bit (8 * i) w AND 0xff) :: byte) n = bit (ucast (drop_bit (8 * i) w) :: byte) n"
    unfolding m using l by (auto simp: bit_simps bit_mask_iff simp del: mask_numeral)
qed

lemma sint_of_int_64: "sint (word_of_int x :: 64 word) = signed_take_bit 63 x"
  by (simp add: signed_of_int)

lemma twos_to_be_64: "twos (to_be 8 w) = sint w" for w :: "64 word"
proof -
  have l: "unat w < 2 ^ 64" using unsigned_less [of w, where ?'a = nat] by simp
  have s: "sint w = int (unat w) - (if 2 ^ 63 \<le> unat w then 2 ^ 64 else 0)"
  proof -
    define n where "n = unat w"
    have n: "n < 2 ^ 64" using l by (simp add: n_def)
    let ?v = "int n - (if 2 ^ 63 \<le> n then 2 ^ 64 else 0)"
    have "w = word_of_int ?v" by (simp add: n_def)
    then have "sint w = signed_take_bit 63 ?v" by (metis sint_of_int_64)
    also have "\<dots> = ?v" using n by (intro signed_take_bit_int_eq_self) auto
    also have "\<dots> = int (unat w) - (if 2 ^ 63 \<le> unat w then 2 ^ 64 else 0)" by (simp only: n_def)
    finally show ?thesis .
  qed
  have "to_be 8 w \<noteq> []" using length_to_be [of 8 w] by (metis length_0_conv zero_neq_numeral)
  then show ?thesis using hd_to_be [of 8 w] l s by (simp add: twos_def be_val_to_be)
qed

text \<open>Reading: the sign is put in front, and the octets are shifted in.\<close>

lemma shift_in: "push_bit 8 r OR ucast (b :: byte) = r * 256 + ucast b" for r :: "'a::len word"
proof -
  have d: "push_bit 8 r AND (ucast b :: 'a word) = 0"
    by (rule bit_word_eqI) (auto simp: bit_simps dest: bit_imp_le_length)
  have e: "push_bit 8 r = r * 256" by (simp add: push_bit_eq_mult)
  show ?thesis using disjunctive_add_eq_or [OF d] by (simp only: e)
qed

lemma foldl_shift_in:
  "foldl (\<lambda>r b. push_bit 8 r OR ucast b) r bs = r * 256 ^ length bs + of_nat (be_val bs)" for r :: "'a::len word"
  by (induction bs arbitrary: r) (simp_all add: shift_in algebra_simps)

lemma sign_byte: "drop_bit 7 (x :: byte) = 1 \<longleftrightarrow> 128 \<le> x"
proof -
  have "unat x < 256" using unsigned_less [of x, where ?'a = nat] by simp
  then have "unat x div 128 = 1 \<longleftrightarrow> 128 \<le> unat x" by auto
  moreover have "unat (1 :: byte) = 1" "unat (128 :: byte) = 128" by simp_all
  ultimately show ?thesis unfolding word_unat_eq_iff word_le_nat_alt unat_drop_bit_eq
    by (simp only: drop_bit_eq_div) simp
qed

lemma foldl_twos:
  "foldl (\<lambda>r b. push_bit 8 r OR ucast b) (if bs \<noteq> [] \<and> drop_bit 7 (hd bs) = 1 then -1 else 0) bs
     = (of_int (twos bs) :: 'a::len word)"
  by (simp add: foldl_shift_in sign_byte twos_def)

lemma TryGetInt64_twos:
  assumes "length bs \<le> 8"
  shows "\<exists>v. TryGetInt64 bs = Some v \<and> sint v = twos bs"
proof (cases "bs = []")
  case False
  have "128 * (256 :: int) ^ (length bs - 1) \<le> 128 * 256 ^ 7"
    using power_increasing [of "length bs - 1" 7 "256 :: int"] assms by simp
  with twos_range [OF False] have "- (2 ^ 63) \<le> twos bs" "twos bs < 2 ^ 63" by simp_all
  then have "sint (of_int (twos bs) :: 64 word) = twos bs" by (simp add: signed_of_int signed_take_bit_int_eq_self)
  with assms show ?thesis by (simp add: TryGetInt64_def foldl_twos)
qed (simp add: TryGetInt64_def twos_def)

lemma TryGetInt_twos:
  assumes "length bs \<le> 4"
  shows "\<exists>v. TryGetInt bs = Some v \<and> sint v = twos bs"
proof (cases "bs = []")
  case False
  have "128 * (256 :: int) ^ (length bs - 1) \<le> 128 * 256 ^ 3"
    using power_increasing [of "length bs - 1" 3 "256 :: int"] assms by simp
  with twos_range [OF False] have "- (2 ^ 31) \<le> twos bs" "twos bs < 2 ^ 31" by simp_all
  then have "sint (of_int (twos bs) :: 32 word) = twos bs" by (simp add: signed_of_int signed_take_bit_int_eq_self)
  with assms show ?thesis by (simp add: TryGetInt_def foldl_twos)
qed (simp add: TryGetInt_def twos_def)

lemma twos_nonneg: "0 \<le> twos bs \<Longrightarrow> int (be_val bs) = twos bs"
proof -
  have "int (be_val bs) < 256 ^ length bs"
    using be_val_bound [of bs] by (metis of_nat_less_iff of_nat_numeral of_nat_power)
  then show "0 \<le> twos bs \<Longrightarrow> int (be_val bs) = twos bs" by (simp add: twos_def split: if_splits)
qed

lemma sint_inj: "sint v = sint w \<Longrightarrow> v = w" for v w :: "'a::len word"
proof -
  have w: "word_of_int (sint x) = x" for x :: "'a word" by simp
  show "sint v = sint w \<Longrightarrow> v = w" by (metis w)
qed

text \<open>\<open>Set (long long)\<close> gives the shortest octets of the number, which are read as the number.\<close>

lemma SetInt64_spec: "\<exists>bs. SetInt64 v = Some bs \<and> minimal bs \<and> twos bs = sint v"
proof -
  have o: "map (\<lambda>i. ucast (signed_drop_bit (8 * i) v AND 0xff)) (rev [0..<8]) = to_be 8 v"
    unfolding to_be_map by (intro map_cong refl signed_octet) simp
  have l: "length (to_be 8 v) = 8" by (rule length_to_be)
  have r: "- (2 ^ 63) \<le> sint v" "sint v < 2 ^ 63" using sint_ge [of v] sint_lt [of v] by simp_all
  show ?thesis
  proof (cases "0 \<le> sint v")
    case True
    then have i: "int (be_val (to_be 8 v)) = sint v" using twos_to_be_64 [of v] twos_nonneg [of "to_be 8 v"] by simp
    moreover have "int (be_val (to_be 8 v)) < int (2 ^ 63)" unfolding i using r by simp
    then have "be_val (to_be 8 v) < 2 ^ 63" by (simp only: of_nat_less_iff)
    moreover have "to_be 8 v \<noteq> []" using l by (metis list.size(3) zero_neq_numeral)
    ultimately show ?thesis using storeDERInteger_unsigned [of "to_be 8 v"] True unfolding SetInt64_def o by simp
  next
    case False
    then show ?thesis
      using storeDERInteger_signed [of "to_be 8 v"] twos_to_be_64 [of v] r l unfolding SetInt64_def o by simp
  qed
qed

lemma Set_Get_Int64: "\<exists>bs. SetInt64 v = Some bs \<and> minimal bs \<and> TryGetInt64 bs = Some v"
proof -
  obtain bs where b: "SetInt64 v = Some bs" "minimal bs" "twos bs = sint v" using SetInt64_spec by blast
  have "length bs \<le> 8"
    by (rule minimal_length [OF b(2)]) (use sint_ge [of v] sint_lt [of v] b(3) in simp_all)
  from TryGetInt64_twos [OF this] b show ?thesis using sint_inj by metis
qed

text \<open>\<open>Set (AsnIntType)\<close> gives the content octets that the C runtime encodes.\<close>

lemma minimal_int_bytes: "minimal (int_bytes d)"
proof (unfold minimal_def, intro conjI allI impI)
  show "int_bytes d \<noteq> []" using length_int_bytes [of d] by auto
  fix x y ys
  assume e: "int_bytes d = x # y # ys"
  show "\<not> (x = 0 \<and> y AND 0x80 = 0)"
  proof
    assume "x = 0 \<and> y AND 0x80 = 0"
    then have "twos (y # ys) = sint d" using e twos_int_bytes [of d] twos_drop_zero by metis
    from int_bytes_minimal [OF _ this] e show False by simp
  qed
  show "\<not> (x = 0xFF \<and> y AND 0x80 \<noteq> 0)"
  proof
    assume "x = 0xFF \<and> y AND 0x80 \<noteq> 0"
    then have "twos (y # ys) = sint d" using e twos_int_bytes [of d] twos_drop_one by metis
    from int_bytes_minimal [OF _ this] e show False by simp
  qed
qed

lemma SetInt_int_bytes: "SetInt d = Some (int_bytes d)"
proof -
  have o: "map (\<lambda>i. ucast (signed_drop_bit (8 * i) d AND 0xff)) (rev [0..<4]) = to_be 4 d"
    unfolding to_be_map by (intro map_cong refl signed_octet) simp
  have l: "length (to_be 4 d) = 4" by (rule length_to_be)
  have r: "- (2 ^ 31) \<le> sint d" "sint d < 2 ^ 31" using sint_ge [of d] sint_lt [of d] by simp_all
  then have t: "twos (to_be 4 d) = sint d" "128 \<le> hd (to_be 4 d) \<longleftrightarrow> sint d < 0" using twos_to_be [of 4 d] by simp_all
  have "\<exists>bs. SetInt d = Some bs \<and> minimal bs \<and> twos bs = sint d"
  proof (cases "0 \<le> sint d")
    case True
    then have i: "int (be_val (to_be 4 d)) = sint d" using t(1) twos_nonneg [of "to_be 4 d"] by simp
    moreover have "int (be_val (to_be 4 d)) < int (2 ^ 63)" unfolding i using r by simp
    then have "be_val (to_be 4 d) < 2 ^ 63" by (simp only: of_nat_less_iff)
    moreover have "to_be 4 d \<noteq> []" using l by (metis list.size(3) zero_neq_numeral)
    ultimately show ?thesis using storeDERInteger_unsigned [of "to_be 4 d"] True unfolding SetInt_def o by simp
  next
    case False
    then show ?thesis
      using storeDERInteger_signed [of "to_be 4 d"] t(1) r l unfolding SetInt_def o by simp
  qed
  then obtain bs where b: "SetInt d = Some bs" "minimal bs" "twos bs = sint d" by blast
  have "bs = int_bytes d" by (rule minimal_unique [OF b(2) minimal_int_bytes]) (simp add: b(3) twos_int_bytes)
  with b(1) show ?thesis by simp
qed

lemma TryGetInt_int_bytes: "TryGetInt (int_bytes d) = Some d"
  using TryGetInt_twos [of "int_bytes d"] length_int_bytes [of d] twos_int_bytes [of d] sint_inj by metis

lemma eq_int_iff: "length bs \<le> 4 \<Longrightarrow> eq_int bs d \<longleftrightarrow> twos bs = sint d"
proof -
  assume l: "length bs \<le> 4"
  have "eq_int bs d \<longleftrightarrow> TryGetInt bs = Some d"
    unfolding eq_int_def TryGetInt_def byte_sign_iff sign_byte using l
    by (cases "4 < length bs") (simp_all only: if_True if_False option.inject not_less, simp)
  moreover obtain v where "TryGetInt bs = Some v" "sint v = twos bs" using TryGetInt_twos [OF l] by blast
  ultimately show ?thesis by (metis sint_inj option.inject)
qed

text \<open>What does not work: numbers of more than eight octets, single octets taken as signed, and the order.\<close>

lemma long_integer_refused:
  assumes "8 < length pData" "hd pData \<noteq> 0"
  shows "storeDERInteger pData True = None"
proof -
  obtain x y ys where p: "pData = x # y # ys" using assms(1) by (cases pData rule: drop_zeros.cases) auto
  then have "drop_zeros pData = pData" using assms(2) by simp
  with assms(1) show ?thesis by (simp add: storeDERInteger_def Let_def)
qed

lemma single_octet_lost: "storeDERInteger [x] False = Some []"
  by (simp add: storeDERInteger_def)

lemma memcmp_less_be_val: "length xs = length ys \<Longrightarrow> memcmp_less xs ys \<longleftrightarrow> be_val xs < be_val ys"
proof (induction xs ys rule: list_induct2)
  case (Cons x xs y ys)
  let ?K = "256 ^ length xs :: nat"
  have b: "be_val xs < ?K" "be_val ys < ?K" using be_val_bound [of xs] be_val_bound [of ys] Cons.hyps by simp_all
  have lt: "unat x * ?K + a < unat y * ?K + c" if "unat x < unat y" "a < ?K" for x y :: byte and a c :: nat
  proof -
    have "(unat x + 1) * ?K \<le> unat y * ?K" using that(1) by (intro mult_right_mono) simp_all
    with that(2) show ?thesis by (simp add: algebra_simps)
  qed
  consider "unat x < unat y" | "x = y" | "unat y < unat x" by (metis linorder_neqE_nat word_unat_eq_iff)
  then show ?case
  proof cases
    case 1
    with lt [OF 1 b(1), of "be_val ys"] Cons.hyps show ?thesis by (simp add: word_less_nat_alt)
  next
    case 2
    with Cons show ?thesis by simp
  next
    case 3
    with lt [OF 3 b(2), of "be_val xs"] Cons.hyps show ?thesis by (auto simp: word_less_nat_alt)
  qed
qed simp

text \<open>On shortest octets of numbers that are not negative the order is that of the numbers, with
  negative ones it is not.\<close>

lemma less_AsnInt_nonneg:
  assumes "minimal a" "minimal b" "0 \<le> twos a" "0 \<le> twos b"
  shows "less_AsnInt a b \<longleftrightarrow> twos a < twos b"
proof -
  have shorter: "twos c < twos d" if "minimal c" "minimal d" "0 \<le> twos d" "length c < length d" for c d
  proof (rule ccontr)
    assume "\<not> twos c < twos d"
    moreover have "twos c < 128 * 256 ^ (length c - 1)" using twos_range [of c] that(1) by (simp add: minimal_def)
    moreover have "0 < length c" using that(1) by (simp add: minimal_def)
    moreover have "- (128 * 256 ^ (length c - 1)) \<le> twos d" using that(3) by (meson dual_order.trans neg_le_0_iff_le zero_le_mult_iff zero_le_numeral zero_le_power)
    ultimately have "length d \<le> length c" by (intro minimal_length [OF that(2)]) linarith+
    with that(4) show False by simp
  qed
  consider "length a < length b" | "length a = length b" | "length b < length a" by linarith
  then show ?thesis
  proof cases
    case 1
    with shorter [OF assms(1,2,4) 1] show ?thesis by (simp add: less_AsnInt_def)
  next
    case 2
    have "be_val a < be_val b \<longleftrightarrow> twos a < twos b"
      using twos_nonneg [OF assms(3)] twos_nonneg [OF assms(4)] by linarith
    with memcmp_less_be_val [OF 2] 2 show ?thesis by (simp add: less_AsnInt_def)
  next
    case 3
    with shorter [OF assms(2,1,3) 3] show ?thesis by (simp add: less_AsnInt_def)
  qed
qed

lemma less_AsnInt_negative: "less_AsnInt [1] [0xFF]" "twos [0xFF] < twos [1]"
proof -
  show "less_AsnInt [1] [0xFF]" by (simp add: less_AsnInt_def)
  have "128 \<le> (0xFF :: byte)" "\<not> 128 \<le> (1 :: byte)" by code_simp+
  then show "twos [0xFF] < twos [1]" by (simp add: twos_def)
qed

end
