(* ===== verification/Per_Buf.thy ===== *)
theory Per_Buf
  imports Asn_Prelude
begin

section \<open>The bit buffer of the PER codecs (\<open>cpp-lib/src/asn-bufbits.cpp\<close>)\<close>

text \<open>
  \<open>AsnBufBits\<close> puts bits of any number into a stream of bytes and takes them out again.  It keeps
  one partly filled byte for writing and one partly used for reading; \<open>m_iWriteBitPos\<close> is the
  number of bits free in the first, \<open>m_iReadBitPos\<close> the number used of the second, both from the
  most significant bit.  The stream is the internal \<open>stringbuf\<close>: what is written is appended and
  the list holds what is not read yet.  \<open>None\<close> is the exception \<open>BufferException\<close>.
  \<open>unsigned long\<close> has 64 bits.  The theory shows that the buffer is a queue of bits, as long as
  reading does not stop within the last, incomplete byte before more is written.
\<close>

unbundle bit_operations_syntax

record BufBits =
  bAlign :: bool
  stream :: "byte list"
  writeChar :: byte
  writeBitPos :: nat
  readChar :: byte
  readBitPos :: nat
  ulNumBits :: "64 word"
  ulBitsLeft :: "64 word"

text \<open>The constructor without a stream.\<close>

definition AsnBufBits :: "bool \<Rightarrow> BufBits" where
  "AsnBufBits bAligned =
     \<lparr>bAlign = bAligned, stream = [], writeChar = 0, writeBitPos = 8, readChar = 0, readBitPos = 8,
      ulNumBits = 0, ulBitsLeft = 0\<rparr>"

definition MaskBits :: "byte \<Rightarrow> nat \<Rightarrow> byte" where
  "MaskBits cCharToMask iBitsToMask =
     (if iBitsToMask < 8 \<and> iBitsToMask > 0
      then push_bit (8 - iBitsToMask) (drop_bit (8 - iBitsToMask) cCharToMask) else cCharToMask)"

subsection \<open>Writing\<close>

definition put_byte :: "byte \<Rightarrow> BufBits \<Rightarrow> BufBits" where
  "put_byte x b =
     b\<lparr>stream := stream b @ [writeChar b OR drop_bit (8 - writeBitPos b) (MaskBits x (writeBitPos b))],
       writeChar := push_bit (writeBitPos b) x,
       ulBitsLeft := ulBitsLeft b + 8, ulNumBits := ulNumBits b + 8\<rparr>"

definition put_extra :: "byte \<Rightarrow> nat \<Rightarrow> BufBits \<Rightarrow> BufBits" where
  "put_extra x iExtraBits b =
     (let b1 = b\<lparr>ulBitsLeft := ulBitsLeft b + of_nat iExtraBits, ulNumBits := ulNumBits b + of_nat iExtraBits\<rparr>;
          c = writeChar b OR drop_bit (8 - writeBitPos b) x
      in if iExtraBits = writeBitPos b
         then b1\<lparr>stream := stream b @ [c], writeBitPos := 8, writeChar := 0\<rparr>
         else if iExtraBits < writeBitPos b
         then b1\<lparr>writeBitPos := writeBitPos b - iExtraBits,
                 writeChar := MaskBits c (8 - (writeBitPos b - iExtraBits))\<rparr>
         else (let e = iExtraBits - writeBitPos b
               in b1\<lparr>stream := stream b @ [c], writeBitPos := 8 - e,
                     writeChar := push_bit (8 - e) (drop_bit (8 - iExtraBits) x)\<rparr>))"

text \<open>The caller's array holds the bits, the last byte from its most significant bit.\<close>

definition PutBits :: "byte list \<Rightarrow> nat \<Rightarrow> BufBits \<Rightarrow> nat \<times> BufBits" where
  "PutBits seg numBits b =
     (let ulNumBytes = numBits div 8; iExtraBits = numBits mod 8;
          b1 = foldl (\<lambda>b x. put_byte x b) b (take ulNumBytes seg)
      in (numBits, if iExtraBits \<noteq> 0 then put_extra (seg ! ulNumBytes) iExtraBits b1 else b1))"

definition OctetAlignWrite :: "BufBits \<Rightarrow> nat \<times> BufBits" where
  "OctetAlignWrite b =
     (if bAlign b \<and> writeBitPos b < 8
      then (writeBitPos b,
            b\<lparr>stream := stream b @ [writeChar b], ulNumBits := ulNumBits b + of_nat (writeBitPos b),
              ulBitsLeft := ulBitsLeft b + of_nat (writeBitPos b), writeChar := 0, writeBitPos := 8\<rparr>)
      else (0, b))"

subsection \<open>Reading\<close>

definition ReadByte :: "BufBits \<Rightarrow> (byte \<times> BufBits) option" where
  "ReadByte b =
     (case stream b of
        c # cs \<Rightarrow> Some (c, b\<lparr>stream := cs\<rparr>)
      | [] \<Rightarrow>
          if writeBitPos b < 8 then Some (writeChar b, b\<lparr>writeBitPos := 8, writeChar := 0\<rparr>)
          else if ulBitsLeft b > 0 then Some (readChar b, b\<lparr>ulBitsLeft := 0\<rparr>)
          else None)"

definition get_byte :: "BufBits \<Rightarrow> (byte \<times> BufBits) option" where
  "get_byte b =
     (case ReadByte b of
        None \<Rightarrow> None
      | Some (c, b1) \<Rightarrow>
          if readBitPos b = 8 then Some (c, b1)
          else Some (readChar b OR drop_bit (8 - readBitPos b) (MaskBits c (readBitPos b)),
                     b1\<lparr>readChar := push_bit (readBitPos b) c\<rparr>))"

fun get_bytes :: "nat \<Rightarrow> BufBits \<Rightarrow> (byte list \<times> BufBits) option" where
  "get_bytes 0 b = Some ([], b)"
| "get_bytes (Suc n) b =
     (case get_byte b of
        None \<Rightarrow> None
      | Some (x, b1) \<Rightarrow> map_option (\<lambda>(xs, b2). (x # xs, b2)) (get_bytes n b1))"

definition get_extra :: "nat \<Rightarrow> BufBits \<Rightarrow> (byte \<times> BufBits) option" where
  "get_extra iExtraBits b =
     (if iExtraBits \<le> 8 - readBitPos b
      then Some (MaskBits (readChar b) iExtraBits,
                 b\<lparr>readChar := push_bit iExtraBits (readChar b), readBitPos := readBitPos b + iExtraBits\<rparr>)
      else (case ReadByte b of
              None \<Rightarrow> None
            | Some (c, b1) \<Rightarrow>
                (let e = iExtraBits - (8 - readBitPos b);
                     t = MaskBits c e;
                     t' = (if readBitPos b \<noteq> 8 then drop_bit (8 - readBitPos b) t else t)
                 in Some (readChar b OR t', b1\<lparr>readChar := push_bit e c, readBitPos := e\<rparr>))))"

text \<open>The array that is returned ends with a zero byte.\<close>

definition GetBits :: "nat \<Rightarrow> BufBits \<Rightarrow> (byte list \<times> BufBits) option" where
  "GetBits numBits b =
     (if unat (ulBitsLeft b) < numBits then None
      else case get_bytes (numBits div 8) b of
        None \<Rightarrow> None
      | Some (xs, b1) \<Rightarrow>
          (case (if numBits mod 8 > 0 then map_option (map_prod (\<lambda>x. [x]) id) (get_extra (numBits mod 8) b1)
                 else Some ([], b1)) of
             None \<Rightarrow> None
           | Some (ys, b2) \<Rightarrow>
               Some (xs @ ys @ [0], b2\<lparr>ulBitsLeft := ulBitsLeft b2 - of_nat numBits\<rparr>)))"

definition GetBit :: "BufBits \<Rightarrow> (bool \<times> BufBits) option" where
  "GetBit b =
     (if ulBitsLeft b = 0 then None
      else case (if readBitPos b = 8
                 then map_option (\<lambda>(c, b1). b1\<lparr>readChar := c, readBitPos := 0\<rparr>) (ReadByte b) else Some b) of
        None \<Rightarrow> None
      | Some b1 \<Rightarrow>
          Some (readChar b1 AND 0x80 \<noteq> 0,
                b1\<lparr>readBitPos := readBitPos b1 + 1, readChar := push_bit 1 (readChar b1),
                   ulBitsLeft := ulBitsLeft b1 - 1\<rparr>))"

definition GetByte :: "BufBits \<Rightarrow> (byte \<times> BufBits) option" where
  "GetByte b =
     (if ulBitsLeft b < 8 then None
      else case ReadByte b of
        None \<Rightarrow> None
      | Some (c, b1) \<Rightarrow>
          if readBitPos b = 8 then Some (c, b1\<lparr>ulBitsLeft := ulBitsLeft b1 - 8\<rparr>)
          else Some (readChar b OR drop_bit (8 - readBitPos b) c,
                     b1\<lparr>readChar := push_bit (readBitPos b) c, ulBitsLeft := ulBitsLeft b1 - 8\<rparr>))"

fun get_bools :: "nat \<Rightarrow> BufBits \<Rightarrow> (bool list \<times> BufBits) option" where
  "get_bools 0 b = Some ([], b)"
| "get_bools (Suc n) b =
     (case GetBit b of
        None \<Rightarrow> None
      | Some (x, b1) \<Rightarrow> map_option (\<lambda>(xs, b2). (x # xs, b2)) (get_bools n b1))"

text \<open>The bits are set in an \<open>AsnBits\<close> one after the other; they are a list here.\<close>

definition GetBitsTo :: "nat \<Rightarrow> BufBits \<Rightarrow> (bool list \<times> BufBits) option" where
  "GetBitsTo numBits b = (if unat (ulBitsLeft b) < numBits then None else get_bools numBits b)"

definition OctetAlignRead :: "BufBits \<Rightarrow> nat \<times> BufBits" where
  "OctetAlignRead b =
     (if bAlign b
      then (8 - readBitPos b,
            b\<lparr>ulBitsLeft := ulBitsLeft b - of_nat (8 - readBitPos b), readBitPos := 8, readChar := 0\<rparr>)
      else (0, b))"

subsection \<open>The bits of a byte\<close>

definition bits8 :: "byte \<Rightarrow> bool list" where
  "bits8 w = map (\<lambda>i. bit w (7 - i)) [0..<8]"

lemma length_bits8 [simp]: "length (bits8 w) = 8"
  by (simp add: bits8_def)

lemma nth_bits8 [simp]: "i < 8 \<Longrightarrow> bits8 w ! i = bit w (7 - i)"
  by (simp add: bits8_def)

lemma bits8_inject: "bits8 v = bits8 w \<longleftrightarrow> v = w"
proof
  assume e: "bits8 v = bits8 w"
  show "v = w"
  proof (rule bit_word_eqI)
    fix n
    assume "n < LENGTH(8)"
    then have n: "n < 8" by simp
    have "bits8 v ! (7 - n) = bits8 w ! (7 - n)" by (simp add: e)
    with n show "bit v n = bit w n" by simp
  qed
qed simp

lemma bits8_zero [simp]: "bits8 0 = replicate 8 False"
  by (rule nth_equalityI) simp_all

lemma bits8_drop_bit: "k \<le> 8 \<Longrightarrow> bits8 (drop_bit k w) = replicate k False @ take (8 - k) (bits8 w)"
proof (rule nth_equalityI)
  fix i
  assume k: "k \<le> 8" "i < length (bits8 (drop_bit k w))"
  then show "bits8 (drop_bit k w) ! i = (replicate k False @ take (8 - k) (bits8 w)) ! i"
    by (auto simp: nth_append bit_simps add.commute [of k] dest: bit_imp_le_length)
qed simp

lemma bits8_push_bit: "k \<le> 8 \<Longrightarrow> bits8 (push_bit k w) = drop k (bits8 w) @ replicate k False"
proof (rule nth_equalityI)
  fix i
  assume k: "k \<le> 8" "i < length (bits8 (push_bit k w))"
  then show "bits8 (push_bit k w) ! i = (drop k (bits8 w) @ replicate k False) ! i"
    by (auto simp: nth_append bit_simps add.commute [of k])
qed simp

lemma bits8_or: "bits8 (v OR w) = map2 (\<or>) (bits8 v) (bits8 w)"
  by (rule nth_equalityI) (simp_all add: bit_or_iff)

lemma bits8_mask: "0 < k \<Longrightarrow> k \<le> 8 \<Longrightarrow> bits8 (MaskBits w k) = take k (bits8 w) @ replicate (8 - k) False"
  by (cases "k = 8") (simp_all add: MaskBits_def bits8_push_bit bits8_drop_bit)

lemma bits8_shifted_mask:
  assumes "0 < k" "k \<le> r" "r \<le> 8"
  shows "bits8 (drop_bit (8 - r) (MaskBits c k)) = replicate (8 - r) False @ take k (bits8 c) @ replicate (r - k) False"
proof -
  have "min r k = k" "min (r - k) (8 - k) = r - k" using assms by linarith+
  then show ?thesis using assms by (simp add: bits8_drop_bit bits8_mask)
qed

lemma take_prefix: "length xs = n \<Longrightarrow> take n (xs @ ys) = xs"
  by simp

text \<open>Two bytes of which one ends where the other starts are put together.\<close>

lemma bits8_join:
  assumes "bits8 v = xs @ replicate (8 - length xs) False" "bits8 w = replicate (length xs) False @ ys" "length xs \<le> 8"
  shows "bits8 (v OR w) = xs @ ys"
proof (rule nth_equalityI)
  have l: "length xs + length ys = 8" using assms(2) length_bits8 [of w] by simp
  then show "length (bits8 (v OR w)) = length (xs @ ys)" by simp
  fix i
  assume i: "i < length (bits8 (v OR w))"
  then have "bits8 (v OR w) ! i = (bits8 v ! i \<or> bits8 w ! i)" by (simp add: bit_or_iff)
  also have "\<dots> = (xs @ ys) ! i" using i l unfolding assms(1,2) by (auto simp: nth_append)
  finally show "bits8 (v OR w) ! i = (xs @ ys) ! i" .
qed

text \<open>The bits of an array.\<close>

definition bits_of :: "byte list \<Rightarrow> bool list" where
  "bits_of xs = concat (map bits8 xs)"

lemma bits_of_simps [simp]:
  "bits_of [] = []" "bits_of (x # xs) = bits8 x @ bits_of xs" "bits_of (xs @ ys) = bits_of xs @ bits_of ys"
  by (simp_all add: bits_of_def)

lemma length_bits_of [simp]: "length (bits_of xs) = 8 * length xs"
  by (induction xs) simp_all

lemma take_bits_of: "take (8 * n) (bits_of xs) = bits_of (take n xs)"
proof (induction n arbitrary: xs)
  case (Suc n)
  then show ?case by (cases xs) simp_all
qed simp

subsection \<open>A queue of bits\<close>

text \<open>What the buffer holds, with the bits that fill an incomplete last byte once it was read from.\<close>

definition avail :: "BufBits \<Rightarrow> bool list" where
  "avail b = take (8 - readBitPos b) (bits8 (readChar b)) @ bits_of (stream b) @
     take (8 - writeBitPos b) (bits8 (writeChar b))"

definition shape :: "BufBits \<Rightarrow> bool" where
  "shape b \<longleftrightarrow> 1 \<le> writeBitPos b \<and> writeBitPos b \<le> 8 \<and> 1 \<le> readBitPos b \<and> readBitPos b \<le> 8 \<and>
     drop (8 - writeBitPos b) (bits8 (writeChar b)) = replicate (writeBitPos b) False \<and>
     drop (8 - readBitPos b) (bits8 (readChar b)) = replicate (readBitPos b) False"

definition ok :: "BufBits \<Rightarrow> bool" where
  "ok b \<longleftrightarrow> shape b \<and> unat (ulBitsLeft b) \<le> length (avail b)"

definition ready :: "BufBits \<Rightarrow> bool" where
  "ready b \<longleftrightarrow> shape b \<and> unat (ulBitsLeft b) = length (avail b)"

definition content :: "BufBits \<Rightarrow> bool list" where
  "content b = take (unat (ulBitsLeft b)) (avail b)"

lemma ready_ok: "ready b \<Longrightarrow> ok b"
  by (simp add: ready_def ok_def)

lemma ready_content: "ready b \<Longrightarrow> content b = avail b"
  by (simp add: ready_def content_def)

lemma ready_AsnBufBits: "ready (AsnBufBits al)" "content (AsnBufBits al) = []"
  by (simp_all add: ready_def shape_def AsnBufBits_def avail_def content_def)

lemma shape_char:
  assumes "shape b"
  shows "bits8 (writeChar b) = take (8 - writeBitPos b) (bits8 (writeChar b)) @ replicate (writeBitPos b) False"
    "bits8 (readChar b) = take (8 - readBitPos b) (bits8 (readChar b)) @ replicate (readBitPos b) False"
  using assms append_take_drop_id [of "8 - writeBitPos b" "bits8 (writeChar b)"]
    append_take_drop_id [of "8 - readBitPos b" "bits8 (readChar b)"]
  by (simp_all add: shape_def)

lemma length_avail: "length (avail b) = (8 - readBitPos b) + 8 * length (stream b) + (8 - writeBitPos b)"
  by (simp add: avail_def)

lemma unat_add_less: "unat (x :: 64 word) + n < 2 ^ 64 \<Longrightarrow> unat (x + of_nat n) = unat x + n"
  by (simp add: unat_word_ariths unat_of_nat)

text \<open>One whole byte.\<close>

lemma put_byte_avail:
  assumes "shape b"
  shows "shape (put_byte x b)" "avail (put_byte x b) = avail b @ bits8 x"
proof -
  let ?p = "writeBitPos b"
  from assms have p: "1 \<le> ?p" "?p \<le> 8" by (simp_all add: shape_def)
  have "bits8 (drop_bit (8 - ?p) (MaskBits x ?p)) = replicate (8 - ?p) False @ take ?p (bits8 x)"
    using p by (simp add: bits8_drop_bit bits8_mask)
  moreover have "bits8 (writeChar b) = take (8 - ?p) (bits8 (writeChar b)) @
      replicate (8 - length (take (8 - ?p) (bits8 (writeChar b)))) False"
    using shape_char(1) [OF assms] p by simp
  ultimately have j: "bits8 (writeChar b OR drop_bit (8 - ?p) (MaskBits x ?p)) =
      take (8 - ?p) (bits8 (writeChar b)) @ take ?p (bits8 x)"
    using p by (intro bits8_join) simp_all
  have q: "bits8 (push_bit ?p x) = drop ?p (bits8 x) @ replicate ?p False" using p by (simp add: bits8_push_bit)
  show "avail (put_byte x b) = avail b @ bits8 x"
    using p append_take_drop_id [of ?p "bits8 x"] by (simp add: avail_def put_byte_def j q)
  show "shape (put_byte x b)" using assms p by (simp add: shape_def put_byte_def q)
qed

lemma put_bytes_avail:
  "shape b \<Longrightarrow> shape (foldl (\<lambda>b x. put_byte x b) b xs) \<and>
     avail (foldl (\<lambda>b x. put_byte x b) b xs) = avail b @ bits_of xs \<and>
     ulBitsLeft (foldl (\<lambda>b x. put_byte x b) b xs) = ulBitsLeft b + of_nat (8 * length xs)"
proof (induction xs arbitrary: b)
  case (Cons x xs)
  have "ulBitsLeft (put_byte x b) = ulBitsLeft b + 8" by (simp add: put_byte_def)
  with Cons put_byte_avail [OF Cons.prems] show ?case by (simp add: algebra_simps)
qed simp

text \<open>Fewer bits than a byte.\<close>

lemma put_extra_avail:
  assumes "shape b" "0 < e" "e < 8"
  shows "shape (put_extra x e b) \<and> avail (put_extra x e b) = avail b @ take e (bits8 x) \<and>
    ulBitsLeft (put_extra x e b) = ulBitsLeft b + of_nat e"
proof -
  let ?p = "writeBitPos b" and ?w = "take (8 - writeBitPos b) (bits8 (writeChar b))"
  let ?c = "writeChar b OR drop_bit (8 - ?p) x"
  from assms have p: "1 \<le> ?p" "?p \<le> 8" by (simp_all add: shape_def)
  have "bits8 (drop_bit (8 - ?p) x) = replicate (8 - ?p) False @ take ?p (bits8 x)"
    using p by (simp add: bits8_drop_bit)
  moreover have "bits8 (writeChar b) = ?w @ replicate (8 - length ?w) False"
    using shape_char(1) [OF assms(1)] p by simp
  ultimately have j: "bits8 ?c = ?w @ take ?p (bits8 x)" using p by (intro bits8_join) simp_all
  consider "e = ?p" | "e < ?p" | "?p < e" by linarith
  then show ?thesis
  proof cases
    case 1
    then show ?thesis using assms(1) p by (simp add: put_extra_def avail_def shape_def j)
  next
    case 2
    then have m: "bits8 (MaskBits ?c (8 - (?p - e))) = (?w @ take e (bits8 x)) @ replicate (?p - e) False"
      using assms(2) p by (subst bits8_mask) (simp_all add: j)
    from 2 p assms(2) have l: "8 - (?p - e) = 8 - ?p + e" by simp
    have "Suc 0 \<le> ?p - e" "?p - e \<le> 8" using 2 p by linarith+
    with assms(1,2) 2 p m show ?thesis by (simp add: put_extra_def avail_def shape_def Let_def l)
  next
    case 3
    let ?k = "8 - (e - ?p)"
    have t: "bits8 (push_bit ?k (drop_bit (8 - e) x)) = take (e - ?p) (drop ?p (bits8 x)) @ replicate ?k False"
      using 3 assms(3) p by (simp add: bits8_push_bit bits8_drop_bit drop_take)
    have "take e (bits8 x) = take ?p (bits8 x) @ take (e - ?p) (drop ?p (bits8 x))"
      using 3 by (metis le_add_diff_inverse less_imp_le take_add)
    moreover have "Suc 0 \<le> ?k" "?k \<le> 8" using 3 assms(3) p by linarith+
    ultimately show ?thesis using assms(1,3) 3 p t by (simp add: put_extra_def avail_def shape_def Let_def j)
  qed
qed

text \<open>Writing appends the bits.\<close>

lemma PutBits_spec:
  assumes "ready b" "n \<le> 8 * length seg" "unat (ulBitsLeft b) + n < 2 ^ 64"
  shows "\<exists>b'. PutBits seg n b = (n, b') \<and> ready b' \<and> content b' = content b @ take n (bits_of seg)"
proof -
  let ?b1 = "foldl (\<lambda>b x. put_byte x b) b (take (n div 8) seg)"
  from assms(1) have b: "shape b" "unat (ulBitsLeft b) = length (avail b)" by (simp_all add: ready_def)
  have k: "n div 8 \<le> length seg" using assms(2) by simp
  note P = put_bytes_avail [OF b(1), of "take (n div 8) seg"]
  have left: "ready c \<and> content c = content b @ take n (bits_of seg)"
    if "shape c" "avail c = avail b @ take n (bits_of seg)" "ulBitsLeft c = ulBitsLeft b + of_nat n" for c
  proof -
    have "unat (ulBitsLeft c) = length (avail c)"
      using unat_add_less [OF assms(3)] assms(2) b(2) by (simp add: that)
    then have "ready c" using that(1) by (simp add: ready_def)
    with assms(1) that(2) show ?thesis by (simp add: ready_content)
  qed
  show ?thesis
  proof (cases "n mod 8 = 0")
    case True
    then have n: "n = 8 * (n div 8)" by presburger
    have "take n (bits_of seg) = bits_of (take (n div 8) seg)" by (subst n) (simp only: take_bits_of)
    with P k n have "shape ?b1" "avail ?b1 = avail b @ take n (bits_of seg)" "ulBitsLeft ?b1 = ulBitsLeft b + of_nat n"
      by (simp_all add: min_absorb2)
    from left [OF this] True show ?thesis by (simp add: PutBits_def Let_def)
  next
    case False
    let ?e = "n mod 8"
    let ?b2 = "put_extra (seg ! (n div 8)) ?e ?b1"
    have n: "n = 8 * (n div 8) + ?e" by presburger
    then have i: "n div 8 < length seg" using assms(2) False by linarith
    have "take n (bits_of seg) = take (8 * (n div 8)) (bits_of seg) @ take ?e (drop (8 * (n div 8)) (bits_of seg))"
      by (subst n) (simp only: take_add)
    also have "drop (8 * (n div 8)) (bits_of seg) = bits8 (seg ! (n div 8)) @ bits_of (drop (Suc (n div 8)) seg)"
    proof -
      have "bits_of seg = bits_of (take (n div 8) seg) @ bits8 (seg ! (n div 8)) @ bits_of (drop (Suc (n div 8)) seg)"
        using i by (metis append_Cons append_take_drop_id bits_of_simps(2,3) Cons_nth_drop_Suc)
      then show ?thesis using i by (simp add: min_absorb2)
    qed
    finally have t: "take n (bits_of seg) = bits_of (take (n div 8) seg) @ take ?e (bits8 (seg ! (n div 8)))"
      by (simp add: take_bits_of)
    have "0 < ?e" "?e < 8" using False by simp_all
    from put_extra_avail [OF _ this, of ?b1 "seg ! (n div 8)"] P
    have "shape ?b2" "avail ?b2 = avail b @ take n (bits_of seg)"
      "ulBitsLeft ?b2 = ulBitsLeft b + of_nat (8 * (n div 8)) + of_nat ?e"
      using k by (simp_all add: t min_absorb2)
    moreover have "of_nat (8 * (n div 8)) + of_nat ?e = (of_nat n :: 64 word)"
      by (subst (3) n) (simp only: of_nat_add)
    ultimately have "shape ?b2" "avail ?b2 = avail b @ take n (bits_of seg)" "ulBitsLeft ?b2 = ulBitsLeft b + of_nat n"
      by (simp_all only: add.assoc)
    from left [OF this] False show ?thesis by (simp add: PutBits_def Let_def)
  qed
qed

text \<open>Reading takes bits from the front.  Reading from the incomplete last byte leaves bits behind
  that were not written; then nothing else is left.\<close>

lemma ReadByte_avail:
  assumes "shape b" "8 - readBitPos b < length (avail b)"
  shows "\<exists>c b' k. ReadByte b = Some (c, b') \<and> b' = b\<lparr>stream := stream b', writeChar := writeChar b', writeBitPos := writeBitPos b'\<rparr> \<and>
    shape b' \<and>
    bits8 c @ drop (8 - readBitPos b) (avail b') = drop (8 - readBitPos b) (avail b) @ replicate k False"
proof (cases "stream b")
  case (Cons c cs)
  then have "ReadByte b = Some (c, b\<lparr>stream := cs\<rparr>)" by (simp add: ReadByte_def)
  moreover have "shape (b\<lparr>stream := cs\<rparr>)" using assms(1) by (simp add: shape_def)
  moreover have "bits8 c @ drop (8 - readBitPos b) (avail (b\<lparr>stream := cs\<rparr>)) = drop (8 - readBitPos b) (avail b) @ replicate 0 False"
    by (simp add: avail_def Cons)
  ultimately show ?thesis by fastforce
next
  case Nil
  with assms(2) have w: "writeBitPos b < 8" by (simp add: length_avail)
  let ?b = "b\<lparr>writeBitPos := 8, writeChar := 0\<rparr>"
  from Nil w have "ReadByte b = Some (writeChar b, ?b)" by (simp add: ReadByte_def)
  moreover have "shape ?b" using assms(1) by (simp add: shape_def)
  moreover have "bits8 (writeChar b) @ drop (8 - readBitPos b) (avail ?b) =
      drop (8 - readBitPos b) (avail b) @ replicate (writeBitPos b) False"
    using shape_char(1) [OF assms(1)] by (simp add: avail_def Nil)
  ultimately show ?thesis by fastforce
qed

definition same_rest :: "BufBits \<Rightarrow> BufBits \<Rightarrow> bool" where
  "same_rest b b' \<longleftrightarrow> bAlign b' = bAlign b \<and> ulBitsLeft b' = ulBitsLeft b"

lemma same_rest_trans: "same_rest b b' \<Longrightarrow> same_rest b' b'' \<Longrightarrow> same_rest b b''"
  by (simp add: same_rest_def)

lemma drop_avail: "drop (8 - readBitPos b) (avail b) = bits_of (stream b) @ take (8 - writeBitPos b) (bits8 (writeChar b))"
  by (simp add: avail_def)

lemma avail_split:
  "avail b = take (8 - readBitPos b) (bits8 (readChar b)) @ drop (8 - readBitPos b) (avail b)"
  by (simp add: avail_def)

lemma get_byte_avail:
  assumes "shape b" "8 \<le> length (avail b)"
  shows "\<exists>x b' k. get_byte b = Some (x, b') \<and> shape b' \<and> same_rest b b' \<and> readBitPos b' = readBitPos b \<and>
    bits8 x @ avail b' = avail b @ replicate k False"
proof -
  let ?r = "readBitPos b"
  have r: "1 \<le> ?r" "?r \<le> 8" using assms(1) by (simp_all add: shape_def)
  then have "8 - ?r < length (avail b)" using assms(2) by linarith
  from ReadByte_avail [OF assms(1) this] obtain c b1 k where R: "ReadByte b = Some (c, b1)"
    "b1 = b\<lparr>stream := stream b1, writeChar := writeChar b1, writeBitPos := writeBitPos b1\<rparr>" "shape b1"
    "bits8 c @ drop (8 - ?r) (avail b1) = drop (8 - ?r) (avail b) @ replicate k False" by blast
  from R(2) have S: "readBitPos b1 = ?r" "readChar b1 = readChar b" "same_rest b b1"
    by (cases b; cases b1; simp add: same_rest_def)+
  show ?thesis
  proof (cases "?r = 8")
    case True
    with R S have "get_byte b = Some (c, b1)" "bits8 c @ avail b1 = avail b @ replicate k False"
      by (simp_all add: get_byte_def)
    with R(3) S show ?thesis by blast
  next
    case False
    let ?x = "readChar b OR drop_bit (8 - ?r) (MaskBits c ?r)"
    let ?b = "b1\<lparr>readChar := push_bit ?r c\<rparr>"
    have q: "bits8 (push_bit ?r c) = drop ?r (bits8 c) @ replicate ?r False" using r by (simp add: bits8_push_bit)
    have "bits8 (drop_bit (8 - ?r) (MaskBits c ?r)) = replicate (8 - ?r) False @ take ?r (bits8 c)"
      using r by (simp add: bits8_drop_bit bits8_mask)
    moreover have "bits8 (readChar b) = take (8 - ?r) (bits8 (readChar b)) @
        replicate (8 - length (take (8 - ?r) (bits8 (readChar b)))) False"
      using shape_char(2) [OF assms(1)] r by simp
    ultimately have x: "bits8 ?x = take (8 - ?r) (bits8 (readChar b)) @ take ?r (bits8 c)"
      using r by (intro bits8_join) simp_all
    have "get_byte b = Some (?x, ?b)" using False R(1) by (simp add: get_byte_def)
    moreover have "shape ?b" using R(3) S r by (simp add: shape_def q)
    moreover have "bits8 ?x @ avail ?b = avail b @ replicate k False"
    proof -
      have "avail ?b = drop ?r (bits8 c) @ drop (8 - ?r) (avail b1)"
        using S r by (simp add: avail_def q drop_avail)
      then have "bits8 ?x @ avail ?b = take (8 - ?r) (bits8 (readChar b)) @ bits8 c @ drop (8 - ?r) (avail b1)"
        using append_take_drop_id [of ?r "bits8 c"] by (simp add: x)
      also have "\<dots> = avail b @ replicate k False" by (subst (2) avail_split) (simp add: R(4))
      finally show ?thesis .
    qed
    moreover have "same_rest b ?b" "readBitPos ?b = ?r" using S by (simp_all add: same_rest_def)
    ultimately show ?thesis by blast
  qed
qed

lemma get_bytes_avail:
  assumes "shape b" "8 * n \<le> length (avail b)"
  shows "\<exists>xs b' k. get_bytes n b = Some (xs, b') \<and> length xs = n \<and> shape b' \<and> same_rest b b' \<and>
    readBitPos b' = readBitPos b \<and> bits_of xs @ avail b' = avail b @ replicate k False"
  using assms
proof (induction n arbitrary: b)
  case 0
  have "bits_of [] @ avail b = avail b @ replicate 0 False" by simp
  with 0 show ?case unfolding get_bytes.simps same_rest_def by (intro exI conjI) (assumption | simp)+
next
  case (Suc n)
  then have "8 \<le> length (avail b)" by simp
  from get_byte_avail [OF Suc.prems(1) this] obtain x b1 k1 where 1: "get_byte b = Some (x, b1)" "shape b1"
    "same_rest b b1" "readBitPos b1 = readBitPos b" "bits8 x @ avail b1 = avail b @ replicate k1 False" by blast
  have "8 * n \<le> length (avail b1)" using Suc.prems(2) arg_cong [OF 1(5), of length] by simp
  from Suc.IH [OF 1(2) this] obtain xs b2 k2 where 2: "get_bytes n b1 = Some (xs, b2)" "length xs = n" "shape b2"
    "same_rest b1 b2" "readBitPos b2 = readBitPos b1" "bits_of xs @ avail b2 = avail b1 @ replicate k2 False" by blast
  have "bits_of (x # xs) @ avail b2 = avail b @ replicate (k1 + k2) False"
    using 1(5) 2(6) by (simp add: replicate_add)
  moreover have "get_bytes (Suc n) b = Some (x # xs, b2)" using 1 2 by simp
  moreover have "length (x # xs) = Suc n" using 2 by simp
  ultimately show ?case using 1 2 same_rest_trans [OF 1(3) 2(4)] by fastforce
qed

text \<open>The positions of reading before and after differ by what was read, modulo bytes.\<close>

lemma get_extra_avail:
  assumes "shape b" "0 < e" "e < 8" "e \<le> length (avail b)"
  shows "\<exists>x b' k. get_extra e b = Some (x, b') \<and> shape b' \<and> same_rest b b' \<and>
    readBitPos b' mod 8 = (readBitPos b + e) mod 8 \<and>
    bits8 x = take e (bits8 x) @ replicate (8 - e) False \<and>
    take e (bits8 x) @ avail b' = avail b @ replicate k False"
proof -
  let ?r = "readBitPos b"
  have r: "1 \<le> ?r" "?r \<le> 8" using assms(1) by (simp_all add: shape_def)
  show ?thesis
  proof (cases "e \<le> 8 - ?r")
    case True
    let ?x = "MaskBits (readChar b) e"
    let ?b = "b\<lparr>readChar := push_bit e (readChar b), readBitPos := ?r + e\<rparr>"
    have x: "bits8 ?x = take e (bits8 (readChar b)) @ replicate (8 - e) False" using assms(2,3) by (simp add: bits8_mask)
    have q: "bits8 (push_bit e (readChar b)) = drop e (bits8 (readChar b)) @ replicate e False"
      using assms(3) by (simp add: bits8_push_bit)
    have "drop (8 - (?r + e)) (drop e (bits8 (readChar b)) @ replicate e False) = replicate (?r + e) False"
      using True r assms(1) by (simp add: shape_def replicate_add)
    then have "shape ?b" using assms(1) True r by (simp add: shape_def q)
    moreover have "take e (bits8 ?x) @ avail ?b = avail b @ replicate 0 False"
    proof -
      let ?X = "bits8 (readChar b)" and ?R = "bits_of (stream b) @ take (8 - writeBitPos b) (bits8 (writeChar b))"
      have "e + (8 - ?r - e) = 8 - ?r" using True by simp
      with take_add [of e "8 - ?r - e" ?X] have "take (8 - ?r) ?X = take e ?X @ take (8 - ?r - e) (drop e ?X)"
        by (simp only:)
      moreover have "avail ?b = take (8 - ?r - e) (drop e ?X) @ ?R"
      proof -
        have "8 - (?r + e) - (8 - e) = 0" by simp
        then show ?thesis by (simp add: avail_def q)
      qed
      moreover have "take e (bits8 ?x) = take e ?X" using assms(3) by (simp add: x)
      moreover have "avail b = take (8 - ?r) ?X @ ?R" by (simp add: avail_def)
      ultimately show ?thesis by (simp only: append_assoc append_Nil2 replicate_0)
    qed
    moreover have "get_extra e b = Some (?x, ?b)" using True by (simp add: get_extra_def)
    moreover have "bits8 ?x = take e (bits8 ?x) @ replicate (8 - e) False" using assms(3) by (simp add: x)
    moreover have "same_rest b ?b" "readBitPos ?b mod 8 = (?r + e) mod 8" by (simp_all add: same_rest_def)
    ultimately show ?thesis by blast
  next
    case False
    let ?e = "e - (8 - ?r)"
    from False assms(4) have "8 - ?r < length (avail b)" by simp
    from ReadByte_avail [OF assms(1) this] obtain c b1 k where R: "ReadByte b = Some (c, b1)"
      "b1 = b\<lparr>stream := stream b1, writeChar := writeChar b1, writeBitPos := writeBitPos b1\<rparr>" "shape b1"
      "bits8 c @ drop (8 - ?r) (avail b1) = drop (8 - ?r) (avail b) @ replicate k False" by blast
    from R(2) have S: "readBitPos b1 = ?r" "readChar b1 = readChar b" "same_rest b b1"
      by (cases b; cases b1; simp add: same_rest_def)+
    let ?t = "if ?r \<noteq> 8 then drop_bit (8 - ?r) (MaskBits c ?e) else MaskBits c ?e"
    let ?x = "readChar b OR ?t"
    let ?b = "b1\<lparr>readChar := push_bit ?e c, readBitPos := ?e\<rparr>"
    have e: "0 < ?e" "?e \<le> 8" "8 - ?r + ?e = e" "8 - e \<le> 8" using False assms(3) by linarith+
    have t: "?t = drop_bit (8 - ?r) (MaskBits c ?e)" by simp
    have "bits8 ?t = replicate (8 - ?r) False @ take ?e (bits8 c) @ replicate (8 - e) False"
    proof -
      have "?r - ?e = 8 - e" "?e \<le> ?r" using e r assms(3) by linarith+
      with bits8_shifted_mask [of ?e ?r c] e(1) r show ?thesis unfolding t by simp
    qed
    moreover have "bits8 (readChar b) = take (8 - ?r) (bits8 (readChar b)) @
        replicate (8 - length (take (8 - ?r) (bits8 (readChar b)))) False"
      using shape_char(2) [OF assms(1)] r by simp
    ultimately have x: "bits8 ?x = take (8 - ?r) (bits8 (readChar b)) @ take ?e (bits8 c) @ replicate (8 - e) False"
      using r by (intro bits8_join) simp_all
    have xe: "take e (bits8 ?x) = take (8 - ?r) (bits8 (readChar b)) @ take ?e (bits8 c)"
      using e by (simp add: x)
    have q: "bits8 (push_bit ?e c) = drop ?e (bits8 c) @ replicate ?e False" using e by (simp add: bits8_push_bit)
    have "shape ?b" using R(3) e by (simp add: shape_def q)
    moreover have "get_extra e b = Some (?x, ?b)" using False R(1) by (simp add: get_extra_def Let_def)
    moreover have "take e (bits8 ?x) @ avail ?b = avail b @ replicate k False"
    proof -
      have "avail ?b = drop ?e (bits8 c) @ drop (8 - ?r) (avail b1)"
        using S e by (simp add: avail_def q drop_avail)
      then have "take e (bits8 ?x) @ avail ?b = take (8 - ?r) (bits8 (readChar b)) @ bits8 c @ drop (8 - ?r) (avail b1)"
        using append_take_drop_id [of ?e "bits8 c"] by (simp add: xe)
      also have "\<dots> = avail b @ replicate k False" by (subst (2) avail_split) (simp add: R(4))
      finally show ?thesis .
    qed
    moreover have "bits8 ?x = take e (bits8 ?x) @ replicate (8 - e) False" unfolding xe using x by simp
    moreover have "readBitPos ?b mod 8 = (?r + e) mod 8"
    proof -
      have "?e + 8 = ?r + e" using e r by linarith
      then have "(?r + e) mod 8 = ?e mod 8" by (metis mod_add_self2)
      then show ?thesis by simp
    qed
    moreover have "same_rest b ?b" using S by (simp add: same_rest_def)
    ultimately show ?thesis by blast
  qed
qed

text \<open>Reading so many bits takes them from the front of what is there.\<close>

lemma length_content: "ok b \<Longrightarrow> length (content b) = unat (ulBitsLeft b)"
  by (simp add: content_def ok_def)

lemma take_content:
  "n \<le> unat (ulBitsLeft b) \<Longrightarrow> take n (content b) = take n (avail b)"
  by (simp add: content_def min_absorb1)

lemma content_after:
  assumes "ok b" "shape b'" "n \<le> unat (ulBitsLeft b)" "ulBitsLeft b' = ulBitsLeft b - of_nat n"
    "xs @ avail b' = avail b @ replicate k False" "length xs = n"
  shows "ok b' \<and> content b' = drop n (content b)"
proof -
  have n: "n < 2 ^ 64" using assms(3) unsigned_less [of "ulBitsLeft b", where ?'a = nat] by simp
  then have "of_nat n \<le> ulBitsLeft b" using assms(3) by (simp add: word_le_nat_alt unat_of_nat)
  with n have u: "unat (ulBitsLeft b') = unat (ulBitsLeft b) - n"
    unfolding assms(4) by (simp add: unat_sub unat_of_nat)
  have a: "avail b' = drop n (avail b @ replicate k False)"
    unfolding assms(5) [symmetric] using assms(6) by simp
  have l: "unat (ulBitsLeft b) \<le> length (avail b)" using assms(1) by (simp add: ok_def)
  then have "ok b'" using assms(2,3) by (simp add: ok_def u a)
  moreover have "content b' = drop n (content b)"
    using l assms(3) by (simp add: content_def u a drop_take)
  ultimately show ?thesis ..
qed

lemma GetBits_spec:
  assumes "ok b" "n \<le> length (content b)"
  shows "\<exists>xs b'. GetBits n b = Some (xs @ [0], b') \<and> length xs = (n + 7) div 8 \<and> ok b' \<and> bAlign b' = bAlign b \<and>
    readBitPos b' mod 8 = (readBitPos b + n) mod 8 \<and> content b' = drop n (content b) \<and>
    bits_of xs = take n (content b) @ replicate (8 * length xs - n) False"
proof -
  let ?q = "n div 8" and ?e = "n mod 8"
  have s: "shape b" "unat (ulBitsLeft b) \<le> length (avail b)" using assms(1) by (simp_all add: ok_def)
  have n: "n \<le> unat (ulBitsLeft b)" using assms length_content [OF assms(1)] by simp
  have nn: "n = 8 * ?q + ?e" by presburger
  then have "8 * ?q \<le> length (avail b)" using n s(2) by linarith
  from get_bytes_avail [OF s(1) this] obtain xs b1 k where 1: "get_bytes ?q b = Some (xs, b1)" "length xs = ?q"
    "shape b1" "same_rest b b1" "readBitPos b1 = readBitPos b" "bits_of xs @ avail b1 = avail b @ replicate k False"
    by blast
  note tc = take_content [OF n]
  show ?thesis
  proof (cases "?e = 0")
    case True
    let ?b = "b1\<lparr>ulBitsLeft := ulBitsLeft b1 - of_nat n\<rparr>"
    have "GetBits n b = Some (xs @ [0], ?b)" using n 1 True by (simp add: GetBits_def)
    moreover have "shape ?b" using 1(3) by (simp add: shape_def)
    moreover have "bits_of xs @ avail ?b = avail b @ replicate k False" using 1(6) by (simp add: avail_def)
    moreover have l: "length (bits_of xs) = n" using 1(2) nn True by simp
    moreover have "ulBitsLeft ?b = ulBitsLeft b - of_nat n" using 1(4) by (simp add: same_rest_def)
    ultimately have c: "GetBits n b = Some (xs @ [0], ?b)" "ok ?b \<and> content ?b = drop n (content b)"
      using content_after [OF assms(1) _ n] by blast+
    have "take n (avail b) = take n (avail b @ replicate k False)" using n s(2) by simp
    also have "\<dots> = bits_of xs" unfolding 1(6) [symmetric] using l by simp
    finally have t: "bits_of xs = take n (content b) @ replicate (8 * length xs - n) False"
      using l by (simp add: tc)
    have "length xs = (n + 7) div 8" using 1(2) True by presburger
    moreover have "readBitPos ?b mod 8 = (readBitPos b + n) mod 8" using 1(5) True by (simp add: mod_add_eq [symmetric])
    moreover have "bAlign ?b = bAlign b" using 1(4) by (simp add: same_rest_def)
    ultimately show ?thesis using c t by blast
  next
    case False
    have "8 * ?q + length (avail b1) = length (avail b) + k" using arg_cong [OF 1(6), of length] 1(2) by simp
    with n s(2) nn have el: "?e \<le> length (avail b1)" by linarith
    have "0 < ?e" "?e < 8" using False by simp_all
    from get_extra_avail [OF 1(3) this el] obtain y b2 j where 2: "get_extra ?e b1 = Some (y, b2)" "shape b2"
      "same_rest b1 b2" "readBitPos b2 mod 8 = (readBitPos b1 + ?e) mod 8"
      "bits8 y = take ?e (bits8 y) @ replicate (8 - ?e) False"
      "take ?e (bits8 y) @ avail b2 = avail b1 @ replicate j False" by blast
    let ?b = "b2\<lparr>ulBitsLeft := ulBitsLeft b2 - of_nat n\<rparr>"
    let ?t = "bits_of xs @ take ?e (bits8 y)"
    have lt: "length ?t = n" using 1(2) nn by (simp add: min_absorb1)
    have g: "GetBits n b = Some ((xs @ [y]) @ [0], ?b)" using n 1 2 False by (simp add: GetBits_def)
    have all: "?t @ avail ?b = avail b @ replicate (k + j) False"
    proof -
      have "avail ?b = avail b2" by (simp add: avail_def)
      then have "?t @ avail ?b = (bits_of xs @ avail b1) @ replicate j False" using 2(6) by simp
      then show ?thesis unfolding 1(6) by (simp add: replicate_add)
    qed
    have "shape ?b" using 2(2) by (simp add: shape_def)
    moreover have "ulBitsLeft ?b = ulBitsLeft b - of_nat n" using 1(4) 2(3) by (simp add: same_rest_def)
    ultimately have c: "ok ?b \<and> content ?b = drop n (content b)"
      using content_after [OF assms(1) _ n _ all lt] by blast
    have "take n (avail b) = take n (avail b @ replicate (k + j) False)" using n s(2) by simp
    also have "\<dots> = ?t" unfolding all [symmetric] using lt by (rule take_prefix)
    finally have tn: "take n (avail b) = ?t" .
    have "bits_of xs @ bits8 y = bits_of xs @ take ?e (bits8 y) @ replicate (8 - ?e) False"
      using 2(5) by (rule arg_cong)
    then have "bits_of (xs @ [y]) = ?t @ replicate (8 - ?e) False"
      by (simp only: bits_of_simps append_assoc append_Nil2)
    moreover have "8 * length (xs @ [y]) - n = 8 - ?e"
    proof -
      have "8 * length (xs @ [y]) = 8 * ?q + 8" using 1(2) by simp
      then show ?thesis using nn \<open>?e < 8\<close> by linarith
    qed
    ultimately have t: "bits_of (xs @ [y]) = take n (content b) @ replicate (8 * length (xs @ [y]) - n) False"
      by (simp only: tc tn)
    have "length (xs @ [y]) = (n + 7) div 8" using 1(2) False by simp presburger
    moreover have "readBitPos ?b mod 8 = (readBitPos b + n) mod 8"
      using 1(5) 2(4) by (simp add: mod_add_right_eq)
    moreover have "bAlign ?b = bAlign b" using 1(4) 2(3) by (simp add: same_rest_def)
    ultimately show ?thesis using c t g by blast
  qed
qed

text \<open>One byte and one bit are read as \<open>GetBits\<close> does.\<close>

lemma GetByte_get_byte:
  assumes "shape b" "unat (ulBitsLeft b) \<ge> 8"
  shows "GetByte b = map_option (\<lambda>(x, b'). (x, b'\<lparr>ulBitsLeft := ulBitsLeft b' - 8\<rparr>)) (get_byte b)"
proof -
  have r: "1 \<le> readBitPos b" "readBitPos b \<le> 8" using assms(1) by (simp_all add: shape_def)
  have "drop_bit (8 - readBitPos b) (MaskBits c (readBitPos b)) = drop_bit (8 - readBitPos b) c" for c
    using r by (simp add: bits8_drop_bit bits8_mask flip: bits8_inject)
  moreover have "\<not> ulBitsLeft b < 8" using assms(2) by (simp add: word_less_nat_alt)
  ultimately show ?thesis
    by (simp add: GetByte_def get_byte_def split: option.split)
qed

lemma GetByte_spec:
  assumes "ok b" "8 \<le> length (content b)"
  shows "\<exists>x b'. GetByte b = Some (x, b') \<and> ok b' \<and> bAlign b' = bAlign b \<and> readBitPos b' = readBitPos b \<and>
    bits8 x = take 8 (content b) \<and> content b' = drop 8 (content b)"
proof -
  have s: "shape b" "unat (ulBitsLeft b) \<le> length (avail b)" using assms(1) by (simp_all add: ok_def)
  have n: "8 \<le> unat (ulBitsLeft b)" using assms length_content [OF assms(1)] by simp
  then have "8 \<le> length (avail b)" using s(2) by linarith
  from get_byte_avail [OF s(1) this] obtain x b1 k where 1: "get_byte b = Some (x, b1)" "shape b1"
    "same_rest b b1" "readBitPos b1 = readBitPos b" "bits8 x @ avail b1 = avail b @ replicate k False" by blast
  let ?b = "b1\<lparr>ulBitsLeft := ulBitsLeft b1 - 8\<rparr>"
  have g: "GetByte b = Some (x, ?b)" using GetByte_get_byte [OF s(1) n] 1 by simp
  have "shape ?b" "bits8 x @ avail ?b = avail b @ replicate k False" "ulBitsLeft ?b = ulBitsLeft b - of_nat 8"
    using 1 by (simp_all add: shape_def avail_def same_rest_def)
  from content_after [OF assms(1) this(1) n this(3,2)] have c: "ok ?b \<and> content ?b = drop 8 (content b)" by simp
  have "take 8 (avail b) = take 8 (avail b @ replicate k False)" using n s(2) by simp
  also have "\<dots> = bits8 x" unfolding 1(5) [symmetric] by simp
  finally have "bits8 x = take 8 (content b)" using take_content [OF n] by simp
  moreover have "bAlign ?b = bAlign b" "readBitPos ?b = readBitPos b" using 1 by (simp_all add: same_rest_def)
  ultimately show ?thesis using g c by blast
qed

lemma top_bit: "(w AND 0x80 \<noteq> 0) = bit w 7" for w :: byte
proof -
  have "(w AND 2 ^ 7 \<noteq> 0) = bit w 7" by (simp only: and_exp_eq_0_iff_not_bit not_not)
  then show ?thesis by simp
qed

lemma GetBit_get_extra:
  assumes "shape b" "0 < unat (ulBitsLeft b)"
  shows "GetBit b = map_option (\<lambda>(x, b'). (bit x 7, b'\<lparr>ulBitsLeft := ulBitsLeft b' - 1\<rparr>)) (get_extra 1 b)"
proof -
  have r: "1 \<le> readBitPos b" "readBitPos b \<le> 8" using assms(1) by (simp_all add: shape_def)
  have l: "ulBitsLeft b \<noteq> 0" using assms(2) by auto
  have m: "bit (MaskBits c 1) 7 = bit c 7" for c by (simp add: MaskBits_def bit_simps)
  show ?thesis
  proof (cases "readBitPos b = 8")
    case True
    then have "bits8 (readChar b) = bits8 0" using assms(1) by (simp add: shape_def)
    then have "readChar b = 0" by (rule bits8_inject [THEN iffD1])
    with True l m show ?thesis
      by (cases "ReadByte b") (auto simp: GetBit_def get_extra_def top_bit Let_def)
  next
    case False
    with r have "1 \<le> 8 - readBitPos b" by linarith
    with False l m show ?thesis by (simp add: GetBit_def get_extra_def top_bit)
  qed
qed

lemma GetBit_spec:
  assumes "ok b" "content b \<noteq> []"
  shows "\<exists>b'. GetBit b = Some (hd (content b), b') \<and> ok b' \<and> bAlign b' = bAlign b \<and>
    readBitPos b' mod 8 = (readBitPos b + 1) mod 8 \<and> content b' = tl (content b)"
proof -
  have s: "shape b" "unat (ulBitsLeft b) \<le> length (avail b)" using assms(1) by (simp_all add: ok_def)
  have n: "1 \<le> unat (ulBitsLeft b)" using assms length_content [OF assms(1)] by (cases "content b") simp_all
  then have "1 \<le> length (avail b)" using s(2) by linarith
  from get_extra_avail [OF s(1) _ _ this] obtain x b1 k where 1: "get_extra 1 b = Some (x, b1)" "shape b1"
    "same_rest b b1" "readBitPos b1 mod 8 = (readBitPos b + 1) mod 8"
    "take 1 (bits8 x) @ avail b1 = avail b @ replicate k False" by fastforce
  let ?b = "b1\<lparr>ulBitsLeft := ulBitsLeft b1 - 1\<rparr>"
  have h: "take 1 (bits8 x) = [bit x 7]" by (simp add: bits8_def upt_rec)
  have g: "GetBit b = Some (bit x 7, ?b)" using GetBit_get_extra [OF s(1)] n 1 by simp
  have "[bit x 7] @ avail ?b = avail b @ replicate k False"
    using 1(5) unfolding h by (simp add: avail_def)
  moreover have "shape ?b" "ulBitsLeft ?b = ulBitsLeft b - of_nat 1"
    using 1(2,3) by (simp_all add: shape_def same_rest_def)
  ultimately have "shape ?b" "[bit x 7] @ avail ?b = avail b @ replicate k False" "ulBitsLeft ?b = ulBitsLeft b - of_nat 1"
    by blast+
  from content_after [OF assms(1) this(1) n this(3,2)] have c: "ok ?b" "content ?b = drop 1 (content b)" by simp_all
  have "take 1 (avail b) = take 1 (avail b @ replicate k False)" using n s(2) by simp
  also have "\<dots> = [bit x 7]" unfolding 1(5) [symmetric] h by simp
  finally have "[bit x 7] = take 1 (content b)" using take_content [OF n] by simp
  then have "bit x 7 = hd (content b)" using assms(2) by (cases "content b") simp_all
  moreover have "bAlign ?b = bAlign b" "readBitPos ?b mod 8 = (readBitPos b + 1) mod 8"
    using 1(3,4) by (simp_all add: same_rest_def)
  moreover have "content ?b = tl (content b)" using c(2) by (simp add: drop_Suc)
  ultimately show ?thesis using g c(1) by (intro exI [of _ ?b]) simp
qed

lemma get_bools_spec:
  "ok b \<Longrightarrow> n \<le> length (content b) \<Longrightarrow>
   \<exists>b'. get_bools n b = Some (take n (content b), b') \<and> ok b' \<and> bAlign b' = bAlign b \<and>
     readBitPos b' mod 8 = (readBitPos b + n) mod 8 \<and> content b' = drop n (content b)"
proof (induction n arbitrary: b)
  case (Suc n)
  then have "content b \<noteq> []" by auto
  then obtain x xs where c: "content b = x # xs" by (cases "content b") simp_all
  from GetBit_spec [OF Suc.prems(1)] c obtain b1 where 1: "GetBit b = Some (x, b1)" "ok b1" "bAlign b1 = bAlign b"
    "readBitPos b1 mod 8 = (readBitPos b + 1) mod 8" "content b1 = xs" by auto
  from Suc.IH [OF 1(2)] Suc.prems(2) c 1(5) obtain b2 where 2: "get_bools n b1 = Some (take n xs, b2)" "ok b2"
    "bAlign b2 = bAlign b1" "readBitPos b2 mod 8 = (readBitPos b1 + n) mod 8" "content b2 = drop n xs" by auto
  have "readBitPos b2 mod 8 = (readBitPos b + Suc n) mod 8"
    using 2(4) 1(4) by (metis add.assoc mod_add_left_eq plus_1_eq_Suc)
  with 1 2 c show ?case by simp
qed simp

text \<open>Alignment pads with zero bits, and skips to the end of the byte.\<close>

lemma PutBits_position:
  "shape b \<Longrightarrow> PutBits seg n b = (k, b') \<Longrightarrow> bAlign b' = bAlign b \<and> (writeBitPos b' + n) mod 8 = writeBitPos b mod 8"
proof -
  assume s: "shape b" and p: "PutBits seg n b = (k, b')"
  let ?b1 = "foldl (\<lambda>b x. put_byte x b) b (take (n div 8) seg)"
  have 1: "bAlign (foldl (\<lambda>b x. put_byte x b) c xs) = bAlign c \<and> writeBitPos (foldl (\<lambda>b x. put_byte x b) c xs) = writeBitPos c" for xs c
    by (induction xs arbitrary: c) (simp_all add: put_byte_def)
  have w: "writeBitPos b \<le> 8" using s by (simp add: shape_def)
  have m: "(k + n) mod 8 = (k + n mod 8) mod 8" for k by (simp add: mod_add_right_eq)
  show ?thesis
  proof (cases "n mod 8 = 0")
    case True
    then have "b' = ?b1" using p by (auto simp: PutBits_def Let_def)
    with 1 True show ?thesis unfolding m by simp
  next
    case False
    let ?e = "n mod 8"
    have q: "(writeBitPos (put_extra x ?e c) + ?e) mod 8 = writeBitPos c mod 8 \<and> bAlign (put_extra x ?e c) = bAlign c"
      if "writeBitPos c \<le> 8" for x c
    proof -
      consider "?e = writeBitPos c" | "?e < writeBitPos c" | "writeBitPos c < ?e" by linarith
      then show ?thesis
      proof cases
        case 3
        then have "8 - (?e - writeBitPos c) + ?e = writeBitPos c + 8" by (simp add: less_imp_le)
        with 3 show ?thesis by (simp add: put_extra_def Let_def)
      qed (simp_all add: put_extra_def Let_def)
    qed
    have "b' = put_extra (seg ! (n div 8)) ?e ?b1" using p False by (auto simp: PutBits_def Let_def)
    with q [of ?b1 "seg ! (n div 8)"] 1 w show ?thesis unfolding m by simp
  qed
qed

lemma OctetAlignWrite_spec:
  assumes "ready b" "unat (ulBitsLeft b) + 8 < 2 ^ 64"
  shows "\<exists>k b'. OctetAlignWrite b = (k, b') \<and> ready b' \<and> bAlign b' = bAlign b \<and>
    k = (if bAlign b then writeBitPos b mod 8 else 0) \<and>
    (if bAlign b then writeBitPos b' = 8 else writeBitPos b' = writeBitPos b) \<and>
    content b' = content b @ replicate k False"
proof (cases "bAlign b \<and> writeBitPos b < 8")
  case True
  let ?p = "writeBitPos b"
  let ?b = "b\<lparr>stream := stream b @ [writeChar b], ulNumBits := ulNumBits b + of_nat ?p,
              ulBitsLeft := ulBitsLeft b + of_nat ?p, writeChar := 0, writeBitPos := 8\<rparr>"
  from assms(1) have s: "shape b" "unat (ulBitsLeft b) = length (avail b)" by (simp_all add: ready_def)
  have a: "avail ?b = avail b @ replicate ?p False"
    using shape_char(1) [OF s(1)] by (simp add: avail_def)
  have "unat (ulBitsLeft b) + ?p < 2 ^ 64" using assms(2) True by linarith
  from unat_add_less [OF this] have "ready ?b" using s a by (simp add: ready_def shape_def)
  moreover have "content ?b = content b @ replicate ?p False"
    using ready_content [OF calculation] ready_content [OF assms(1)] a by simp
  moreover have "OctetAlignWrite b = (?p, ?b)" using True by (simp add: OctetAlignWrite_def)
  ultimately show ?thesis using True by (intro exI [of _ ?p] exI [of _ ?b]) simp
next
  case False
  then have "OctetAlignWrite b = (0, b)" by (auto simp: OctetAlignWrite_def)
  moreover have "bAlign b \<Longrightarrow> writeBitPos b = 8" using False assms(1) by (auto simp: ready_def shape_def)
  ultimately show ?thesis using assms(1) by auto
qed

lemma OctetAlignRead_spec:
  assumes "ok b" "bAlign b \<Longrightarrow> 8 - readBitPos b \<le> length (content b)"
  shows "\<exists>k b'. OctetAlignRead b = (k, b') \<and> ok b' \<and> bAlign b' = bAlign b \<and>
    k = (if bAlign b then 8 - readBitPos b else 0) \<and>
    (if bAlign b then readBitPos b' = 8 else readBitPos b' = readBitPos b) \<and>
    content b' = drop k (content b)"
proof (cases "bAlign b")
  case True
  let ?k = "8 - readBitPos b"
  let ?b = "b\<lparr>ulBitsLeft := ulBitsLeft b - of_nat ?k, readBitPos := 8, readChar := 0\<rparr>"
  have s: "shape b" using assms(1) by (simp add: ok_def)
  have n: "?k \<le> unat (ulBitsLeft b)" using assms(2) [OF True] length_content [OF assms(1)] by simp
  have "shape ?b" using s by (simp add: shape_def)
  moreover have "take ?k (bits8 (readChar b)) @ avail ?b = avail b @ replicate 0 False" by (simp add: avail_def)
  ultimately have "ok ?b \<and> content ?b = drop ?k (content b)"
    using content_after [OF assms(1) _ n, of ?b "take ?k (bits8 (readChar b))" 0] by simp
  then show ?thesis using True by (simp add: OctetAlignRead_def)
qed (use assms(1) in \<open>simp add: OctetAlignRead_def\<close>)

text \<open>Three bits are written, two read and five written; of the six that are left the last five
  are lost, because reading took the incomplete byte for a whole one.\<close>

definition interleaved :: "(byte list \<times> BufBits) option" where
  "interleaved =
     (case GetBits 2 (snd (PutBits [0xE0] 3 (AsnBufBits False))) of
        None \<Rightarrow> None
      | Some (xs, b) \<Rightarrow> GetBits 6 (snd (PutBits [0xF8] 5 b)))"

lemma interleaved_lost: "map_option fst interleaved = Some [0x80, 0]"
  by (simp add: interleaved_def PutBits_def put_extra_def AsnBufBits_def GetBits_def get_extra_def ReadByte_def
      MaskBits_def Let_def)

subsection \<open>Appending and comparing buffers\<close>

text \<open>
  \<open>AppendTo\<close> reads whole bytes with \<open>ReadByte\<close> and the bits that are left with \<open>GetBits\<close>; an
  exception ends it silently.  What it puts for the left bits is the variable \<open>ch\<close>, the last whole
  byte, and not what it read; \<open>ch\<close> has no initial value and is an argument here.  The count is an
  \<open>int\<close>; when it is negative nothing is put, for \<open>GetBits\<close> refuses it.  At the end the stream of the
  source, but nothing else of it, is as before.
\<close>

fun append_bytes :: "nat \<Rightarrow> byte \<Rightarrow> BufBits \<Rightarrow> BufBits \<Rightarrow> byte \<times> BufBits \<times> BufBits \<times> bool" where
  "append_bytes 0 ch b out = (ch, b, out, True)"
| "append_bytes (Suc n) ch b out =
     (case ReadByte b of
        None \<Rightarrow> (ch, b, out, False)
      | Some (c, b1) \<Rightarrow> append_bytes n c b1 (snd (PutBits [c] 8 out)))"

definition AppendTo :: "byte \<Rightarrow> BufBits \<Rightarrow> BufBits \<Rightarrow> BufBits \<times> BufBits" where
  "AppendTo ch b bufBitsOut =
     (let iThisCount = nat (sint (ucast (ulBitsLeft b) :: 32 word));
          (ch1, b1, out1, go) = append_bytes (iThisCount div 8) ch b bufBitsOut;
          iLeft = iThisCount - 8 * (iThisCount div 8);
          (b2, out2) =
            (if go \<and> iLeft \<noteq> 0
             then (case GetBits iLeft b1 of
                     None \<Rightarrow> (b1, out1)
                   | Some (p_ch, b2) \<Rightarrow> (b2, snd (PutBits [ch1] iLeft out1)))
             else (b1, out1))
      in (b2\<lparr>stream := stream b\<rparr>, out2))"

text \<open>\<open>operator<\<close> compares copies of the buffers byte by byte; \<open>ReadByte\<close> takes at most two bytes
  more than the stream has.\<close>

definition rank :: "BufBits \<Rightarrow> nat" where
  "rank b = length (stream b) + (if writeBitPos b < 8 then 1 else 0) + (if ulBitsLeft b > 0 then 1 else 0)"

lemma ReadByte_rank: "ReadByte b = Some (c, b') \<Longrightarrow> rank b' < rank b"
  by (auto simp: ReadByte_def rank_def split: list.splits if_splits)

function less_loop :: "bool \<Rightarrow> BufBits \<Rightarrow> BufBits \<Rightarrow> bool" where
  "less_loop firstTime b1 b2 =
     (case (ReadByte b1, ReadByte b2) of
        (None, None) \<Rightarrow> \<not> firstTime
      | (Some _, None) \<Rightarrow> False
      | (None, Some _) \<Rightarrow> True
      | (Some (ch1, c1), Some (ch2, c2)) \<Rightarrow>
          if ch1 > ch2 then False else if ch1 < ch2 then True else less_loop False c1 c2)"
  by auto
termination
  by (relation "measure (\<lambda>(_, b1, _). rank b1)") (auto dest!: sym [of "Some _"] simp: ReadByte_rank)

definition less_BufBits :: "BufBits \<Rightarrow> BufBits \<Rightarrow> bool" where
  "less_BufBits b rhs = less_loop True b rhs"

declare less_loop.simps [simp del]

text \<open>A buffer of which nothing was read appends its whole bytes, and for the bits that are left the
  first bits of its last whole byte.\<close>

lemma append_bytes_stream:
  "ready out \<Longrightarrow> length (content out) + 8 * length (stream b) < 2 ^ 64 \<Longrightarrow>
   \<exists>out'. append_bytes (length (stream b)) ch b out = (last (ch # stream b), b\<lparr>stream := []\<rparr>, out', True) \<and>
     ready out' \<and> content out' = content out @ bits_of (stream b)"
proof (induction "stream b" arbitrary: b ch out)
  case Nil
  then show ?case by (simp add: eq_commute [of "[]"])
next
  case (Cons c cs)
  have l: "unat (ulBitsLeft out) + 8 < 2 ^ 64"
    using Cons.prems Cons.hyps(2) [symmetric] length_content [OF ready_ok] by simp
  from PutBits_spec [OF Cons.prems(1) _ l, of "[c]"] obtain o1 where
    o1: "PutBits [c] 8 out = (8, o1)" "ready o1" "content o1 = content out @ bits8 c" by auto
  have r: "ReadByte b = Some (c, b\<lparr>stream := cs\<rparr>)" using Cons.hyps(2) [symmetric] by (simp add: ReadByte_def)
  from Cons.hyps(1) [of "b\<lparr>stream := cs\<rparr>" o1 c] o1 Cons.prems Cons.hyps(2) [symmetric] obtain o2 where
    "append_bytes (length cs) c (b\<lparr>stream := cs\<rparr>) o1 = (last (c # cs), b\<lparr>stream := []\<rparr>, o2, True)"
    "ready o2" "content o2 = content o1 @ bits_of cs" by auto
  with o1 r Cons.hyps(2) [symmetric] show ?case by simp
qed

lemma int_count: "unat w < 2 ^ 31 \<Longrightarrow> nat (sint (ucast w :: 32 word)) = unat w" for w :: "64 word"
proof -
  assume w: "unat w < 2 ^ 31"
  then have u: "unat (ucast w :: 32 word) = unat w" by (simp add: unsigned_ucast_eq take_bit_nat_eq_self)
  then have "0 \<le> sint (ucast w :: 32 word)" using sint_neg_iff [of "ucast w"] w by linarith
  then show ?thesis using u sint_nonneg [of "ucast w"] by simp
qed

lemma AppendTo_spec:
  assumes "ready b" "readBitPos b = 8" "ready out" "length (content out) + length (content b) < 2 ^ 64"
    "length (content b) < 2 ^ 31"
  shows "\<exists>b' out'. AppendTo ch b out = (b', out') \<and> stream b' = stream b \<and> ready out' \<and>
    content out' = content out @ bits_of (stream b) @ take (8 - writeBitPos b) (bits8 (last (ch # stream b)))"
proof -
  let ?e = "8 - writeBitPos b"
  let ?b = "b\<lparr>stream := []\<rparr>"
  have s: "shape b" "unat (ulBitsLeft b) = length (avail b)" using assms(1) by (simp_all add: ready_def)
  then have w: "1 \<le> writeBitPos b" "writeBitPos b \<le> 8" by (simp_all add: shape_def)
  have n: "unat (ulBitsLeft b) = 8 * length (stream b) + ?e" using s(2) assms(2) by (simp add: length_avail)
  then have c: "length (content b) = 8 * length (stream b) + ?e" using length_content [OF ready_ok [OF assms(1)]] by simp
  have i: "nat (sint (ucast (ulBitsLeft b) :: 32 word)) = 8 * length (stream b) + ?e"
    using int_count [of "ulBitsLeft b"] assms(5) c n by simp
  have "length (content out) + 8 * length (stream b) < 2 ^ 64" using assms(4) c by simp
  from append_bytes_stream [OF assms(3) this] obtain o1 where
    o1: "append_bytes (length (stream b)) ch b out = (last (ch # stream b), ?b, o1, True)" "ready o1"
    "content o1 = content out @ bits_of (stream b)" by blast
  have d: "(8 * length (stream b) + ?e) div 8 = length (stream b)" using w by simp
  show ?thesis
  proof (cases "writeBitPos b = 8")
    case True
    with o1 show ?thesis by (simp add: AppendTo_def i)
  next
    case False
    have l: "unat (ulBitsLeft o1) + ?e < 2 ^ 64"
      using length_content [OF ready_ok [OF o1(2)]] o1(3) assms(4) c by simp
    from PutBits_spec [OF o1(2) _ l, of "[last (ch # stream b)]"] obtain o2 where
      o2: "PutBits [last (ch # stream b)] ?e o1 = (?e, o2)" "ready o2"
      "content o2 = content o1 @ take ?e (bits8 (last (ch # stream b)))" by auto
    have "ReadByte ?b = Some (writeChar b, ?b\<lparr>writeBitPos := 8, writeChar := 0\<rparr>)"
      using False w by (simp add: ReadByte_def)
    then have "\<exists>b2. get_extra ?e ?b = Some b2" using False w assms(2) by (simp add: get_extra_def Let_def)
    moreover have "?e div 8 = 0" "?e mod 8 = ?e" "0 < ?e" using False w by simp_all
    moreover have "\<not> unat (ulBitsLeft ?b) < ?e" using n by simp
    ultimately obtain p b2 where g: "GetBits ?e ?b = Some (p, b2)" by (fastforce simp: GetBits_def)
    have "8 * length (stream b) + ?e - 8 * length (stream b) = ?e" "?e \<noteq> 0" using False w by simp_all
    with o1 o2 g show ?thesis unfolding AppendTo_def i Let_def d by simp
  qed
qed

text \<open>Every buffer that holds something is smaller than itself.\<close>

lemma less_loop_refl: "less_loop first b b = (\<not> first \<or> ReadByte b \<noteq> None)"
proof (induction "rank b" arbitrary: b first rule: less_induct)
  case less
  show ?case
  proof (cases "ReadByte b")
    case None
    then show ?thesis by (simp add: less_loop.simps [of first])
  next
    case (Some p)
    then obtain c b' where p: "ReadByte b = Some (c, b')" by (cases p) auto
    from less [OF ReadByte_rank [OF this], of False] p show ?thesis by (simp add: less_loop.simps [of first])
  qed
qed

lemma less_BufBits_refl:
  "less_BufBits b b \<longleftrightarrow> stream b \<noteq> [] \<or> writeBitPos b < 8 \<or> ulBitsLeft b > 0"
  by (auto simp: less_BufBits_def less_loop_refl ReadByte_def split: list.split)

end
