(* ===== verification/Per_Codec.thy ===== *)
theory Per_Codec
  imports Per_Buf
begin

section \<open>PER codecs of lengths, BOOLEAN, OCTET STRING and tags\<close>

text \<open>
  The packed encoding of the C++ runtime.  A writer appends bits to an \<open>AsnBufBits\<close> and returns
  their number; a reader takes bits and adds their number to \<open>bitsDecoded\<close>.  Both may throw, which is
  \<open>Inl\<close>; a reader that never returns is \<open>None\<close>.  \<open>AsnLen\<close> is \<open>unsigned long\<close>; numbers of bits are
  \<open>nat\<close> here, for no buffer holds \<open>2 ^ 64\<close> bits.  \<open>emits\<close> and \<open>gets\<close> say which bits a writer appends
  and a reader takes, at a given position within a byte; the locale \<open>per_item\<close> is what an encoder and
  a decoder owe each other, and shows that sequences of values come back.
\<close>

datatype per_error = BufferException | RESTRICTED_TYPE_ERROR | INTEGER_ERROR | INVALID_TAG | ConstraintException

type_synonym writer = "BufBits \<Rightarrow> per_error + nat \<times> BufBits"

type_synonym 'a reader = "BufBits \<Rightarrow> (per_error + 'a \<times> BufBits) option"

definition skip :: writer where
  "skip b = Inr (0, b)"

definition also_put :: "writer \<Rightarrow> writer \<Rightarrow> writer" where
  "also_put f g b =
     (case f b of Inl e \<Rightarrow> Inl e
      | Inr (m, b1) \<Rightarrow> (case g b1 of Inl e \<Rightarrow> Inl e | Inr (n, b2) \<Rightarrow> Inr (m + n, b2)))"

fun puts :: "writer list \<Rightarrow> writer" where
  "puts [] = skip"
| "puts (f # fs) = also_put f (puts fs)"

definition put_bits :: "byte list \<Rightarrow> nat \<Rightarrow> writer" where
  "put_bits seg n b = Inr (PutBits seg n b)"

definition align_write :: writer where
  "align_write b = Inr (OctetAlignWrite b)"

definition bindR :: "'a reader \<Rightarrow> ('a \<Rightarrow> 'b reader) \<Rightarrow> 'b reader" where
  "bindR m f b =
     (case m b of None \<Rightarrow> None | Some (Inl e) \<Rightarrow> Some (Inl e) | Some (Inr (x, b')) \<Rightarrow> f x b')"

definition returnR :: "'a \<Rightarrow> 'a reader" where
  "returnR x b = Some (Inr (x, b))"

definition failR :: "per_error \<Rightarrow> 'a reader" where
  "failR e b = Some (Inl e)"

definition get_bits :: "nat \<Rightarrow> byte list reader" where
  "get_bits n b = Some (case GetBits n b of None \<Rightarrow> Inl BufferException | Some r \<Rightarrow> Inr r)"

definition get_byteR :: "byte reader" where
  "get_byteR b = Some (case GetByte b of None \<Rightarrow> Inl BufferException | Some r \<Rightarrow> Inr r)"

definition align_read :: "nat reader" where
  "align_read b = Some (Inr (OctetAlignRead b))"

lemma bindR_mono [partial_function_mono]:
  fixes g :: "('i \<Rightarrow> 'o option) \<Rightarrow> 'x \<Rightarrow> 'y reader"
  assumes "\<And>x b. mono_option (\<lambda>f. g f x b)"
  shows "mono_option (\<lambda>f. bindR m (\<lambda>x. g f x) b)"
proof -
  consider "m b = None" | e where "m b = Some (Inl e)" | x b' where "m b = Some (Inr (x, b'))"
    by (cases "m b") (auto, metis sum.exhaust surj_pair)
  then show ?thesis using assms by cases (simp_all add: bindR_def monotone_def flat_ord_def)
qed

subsection \<open>What is written and what is read\<close>

text \<open>The position of the next bit in its byte, and the bits an alignment skips there.\<close>

definition wpos :: "BufBits \<Rightarrow> nat" where
  "wpos b = (8 - writeBitPos b) mod 8"

definition rpos :: "BufBits \<Rightarrow> nat" where
  "rpos b = readBitPos b mod 8"

definition pad :: "bool \<Rightarrow> nat \<Rightarrow> nat" where
  "pad al q = (if al then (8 - q) mod 8 else 0)"

definition emits :: "writer \<Rightarrow> bool \<Rightarrow> nat \<Rightarrow> bool list \<Rightarrow> bool" where
  "emits f al q xs \<longleftrightarrow>
     (\<forall>b. ready b \<longrightarrow> bAlign b = al \<longrightarrow> wpos b = q \<longrightarrow> length (content b) + length xs + 8 < 2 ^ 64 \<longrightarrow>
       (\<exists>b'. f b = Inr (length xs, b') \<and> ready b' \<and> bAlign b' = al \<and> wpos b' = (q + length xs) mod 8 \<and>
          rpos b' = rpos b \<and> content b' = content b @ xs))"

definition gets :: "'a reader \<Rightarrow> bool \<Rightarrow> nat \<Rightarrow> bool list \<Rightarrow> 'a \<Rightarrow> bool" where
  "gets f al q xs v \<longleftrightarrow>
     (\<forall>b rest. ok b \<longrightarrow> bAlign b = al \<longrightarrow> rpos b = q \<longrightarrow> content b = xs @ rest \<longrightarrow>
       (\<exists>b'. f b = Some (Inr (v, b')) \<and> ok b' \<and> bAlign b' = al \<and> rpos b' = (q + length xs) mod 8 \<and>
          content b' = rest))"

lemma emitsI:
  "(\<And>b. ready b \<Longrightarrow> bAlign b = al \<Longrightarrow> wpos b = q \<Longrightarrow> length (content b) + length xs + 8 < 2 ^ 64 \<Longrightarrow>
     \<exists>b'. f b = Inr (length xs, b') \<and> ready b' \<and> bAlign b' = al \<and> wpos b' = (q + length xs) mod 8 \<and>
       rpos b' = rpos b \<and> content b' = content b @ xs) \<Longrightarrow> emits f al q xs"
  unfolding emits_def by blast

lemma emitsD:
  assumes "emits f al q xs" "ready b" "bAlign b = al" "wpos b = q" "length (content b) + length xs + 8 < 2 ^ 64"
  obtains b' where "f b = Inr (length xs, b')" "ready b'" "bAlign b' = al" "wpos b' = (q + length xs) mod 8"
    "rpos b' = rpos b" "content b' = content b @ xs"
  using assms unfolding emits_def by blast

lemma getsI:
  "(\<And>b rest. ok b \<Longrightarrow> bAlign b = al \<Longrightarrow> rpos b = q \<Longrightarrow> content b = xs @ rest \<Longrightarrow>
     \<exists>b'. f b = Some (Inr (v, b')) \<and> ok b' \<and> bAlign b' = al \<and> rpos b' = (q + length xs) mod 8 \<and>
       content b' = rest) \<Longrightarrow> gets f al q xs v"
  unfolding gets_def by blast

lemma getsD:
  assumes "gets f al q xs v" "ok b" "bAlign b = al" "rpos b = q" "content b = xs @ rest"
  obtains b' where "f b = Some (Inr (v, b'))" "ok b'" "bAlign b' = al" "rpos b' = (q + length xs) mod 8"
    "content b' = rest"
  using assms unfolding gets_def by blast

lemma mod_8_add: "((q + m) mod 8 + n) mod 8 = (q + (m + n)) mod 8" for q :: nat
  by (simp add: mod_add_left_eq add.assoc)

lemma emits_skip: "q < 8 \<Longrightarrow> emits skip al q []"
  by (rule emitsI) (simp add: skip_def)

lemma emits_also_put:
  assumes "emits f al q xs" "emits g al ((q + length xs) mod 8) ys"
  shows "emits (also_put f g) al q (xs @ ys)"
proof (rule emitsI)
  fix b
  assume b: "ready b" "bAlign b = al" "wpos b = q" "length (content b) + length (xs @ ys) + 8 < 2 ^ 64"
  then have "length (content b) + length xs + 8 < 2 ^ 64" by simp
  from emitsD [OF assms(1) b(1-3) this] obtain b1 where 1: "f b = Inr (length xs, b1)" "ready b1" "bAlign b1 = al"
    "wpos b1 = (q + length xs) mod 8" "rpos b1 = rpos b" "content b1 = content b @ xs" .
  have "length (content b1) + length ys + 8 < 2 ^ 64" using b(4) 1(6) by simp
  from emitsD [OF assms(2) 1(2-4) this] obtain b2 where 2: "g b1 = Inr (length ys, b2)" "ready b2" "bAlign b2 = al"
    "wpos b2 = ((q + length xs) mod 8 + length ys) mod 8" "rpos b2 = rpos b1" "content b2 = content b1 @ ys" .
  from 1 2 show "\<exists>b'. also_put f g b = Inr (length (xs @ ys), b') \<and> ready b' \<and> bAlign b' = al \<and>
      wpos b' = (q + length (xs @ ys)) mod 8 \<and> rpos b' = rpos b \<and> content b' = content b @ xs @ ys"
    by (simp add: also_put_def mod_8_add)
qed

lemma gets_bindR:
  assumes "gets m al q xs x" "gets (f x) al ((q + length xs) mod 8) ys v"
  shows "gets (bindR m f) al q (xs @ ys) v"
proof (rule getsI)
  fix b rest
  assume b: "ok b" "bAlign b = al" "rpos b = q" "content b = (xs @ ys) @ rest"
  then have "content b = xs @ ys @ rest" by simp
  from getsD [OF assms(1) b(1-3) this] obtain b1 where 1: "m b = Some (Inr (x, b1))" "ok b1" "bAlign b1 = al"
    "rpos b1 = (q + length xs) mod 8" "content b1 = ys @ rest" .
  from getsD [OF assms(2) 1(2-5)] obtain b2 where 2: "f x b1 = Some (Inr (v, b2))" "ok b2" "bAlign b2 = al"
    "rpos b2 = ((q + length xs) mod 8 + length ys) mod 8" "content b2 = rest" .
  from 1 2 show "\<exists>b'. bindR m f b = Some (Inr (v, b')) \<and> ok b' \<and> bAlign b' = al \<and>
      rpos b' = (q + length (xs @ ys)) mod 8 \<and> content b' = rest"
    by (simp add: bindR_def mod_8_add)
qed

lemma gets_returnR: "q < 8 \<Longrightarrow> gets (returnR x) al q [] x"
  by (rule getsI) (simp add: returnR_def)

subsection \<open>The operations of the buffer\<close>

lemma pos_put:
  fixes w w' n :: nat
  assumes "(w' + n) mod 8 = w mod 8" "w \<le> 8" "w' \<le> 8"
  shows "(8 - w') mod 8 = ((8 - w) mod 8 + n) mod 8"
proof -
  have "(int w' + int n) mod 8 = int w mod 8" using assms(1) by (metis of_nat_add of_nat_mod of_nat_numeral)
  then have "((8 - int w) + int n) mod 8 = (8 - int w') mod 8" unfolding mod_eq_dvd_iff by (simp add: algebra_simps)
  then have "int (((8 - w) + n) mod 8) = int ((8 - w') mod 8)"
    using assms(2,3) by (simp add: of_nat_mod of_nat_diff algebra_simps)
  then show ?thesis by (simp add: mod_add_left_eq)
qed

lemma pos_read: "r \<le> 8 \<Longrightarrow> 1 \<le> r \<Longrightarrow> (8 - r mod 8) mod 8 = 8 - r" for r :: nat
  by (cases "r = 8") simp_all

lemma pos_pad: "q < 8 \<Longrightarrow> (q + (8 - q) mod 8) mod 8 = 0" for q :: nat
  by (cases "q = 0") simp_all

lemma pos_write: "1 \<le> w \<Longrightarrow> w \<le> 8 \<Longrightarrow> (8 - (8 - w) mod 8) mod 8 = w mod 8" for w :: nat
  by (cases "w = 8") simp_all

lemma PutBits_readBitPos: "PutBits seg n b = (k, b') \<Longrightarrow> readBitPos b' = readBitPos b"
proof -
  have "readBitPos (foldl (\<lambda>b x. put_byte x b) b xs) = readBitPos b" for xs
    by (induction xs arbitrary: b) (simp_all add: put_byte_def)
  then show "PutBits seg n b = (k, b') \<Longrightarrow> readBitPos b' = readBitPos b"
    by (auto simp: PutBits_def put_extra_def Let_def)
qed

lemma OctetAlignWrite_readBitPos: "OctetAlignWrite b = (k, b') \<Longrightarrow> readBitPos b' = readBitPos b"
  by (auto simp: OctetAlignWrite_def split: if_splits)

lemma emits_put_bits:
  assumes "n \<le> 8 * length seg" "q < 8"
  shows "emits (put_bits seg n) al q (take n (bits_of seg))"
proof (rule emitsI)
  fix b
  assume b: "ready b" "bAlign b = al" "wpos b = q" "length (content b) + length (take n (bits_of seg)) + 8 < 2 ^ 64"
  have n: "length (take n (bits_of seg)) = n" using assms(1) by simp
  have "unat (ulBitsLeft b) + n < 2 ^ 64" using b(4) n length_content [OF ready_ok [OF b(1)]] by simp
  from PutBits_spec [OF b(1) assms(1) this] obtain b' where p: "PutBits seg n b = (n, b')" "ready b'"
    "content b' = content b @ take n (bits_of seg)" by blast
  have s: "shape b" "shape b'" using b(1) p(2) by (simp_all add: ready_def)
  from PutBits_position [OF s(1) p(1)] have a: "bAlign b' = bAlign b" "(writeBitPos b' + n) mod 8 = writeBitPos b mod 8" by simp_all
  have "wpos b' = (wpos b + n) mod 8"
  proof -
    have "writeBitPos b \<le> 8" "writeBitPos b' \<le> 8" using s by (simp_all add: shape_def)
    then show ?thesis using pos_put [OF a(2)] by (simp add: wpos_def)
  qed
  with a p n b show "\<exists>b'. put_bits seg n b = Inr (length (take n (bits_of seg)), b') \<and> ready b' \<and> bAlign b' = al \<and>
      wpos b' = (q + length (take n (bits_of seg))) mod 8 \<and> rpos b' = rpos b \<and> content b' = content b @ take n (bits_of seg)"
    using PutBits_readBitPos [OF p(1)] by (simp add: put_bits_def rpos_def)
qed

lemma emits_align: 
  assumes "q < 8"
  shows "emits align_write al q (replicate (pad al q) False)"
proof (rule emitsI)
  fix b
  assume b: "ready b" "bAlign b = al" "wpos b = q" "length (content b) + length (replicate (pad al q) False) + 8 < 2 ^ 64"
  have "unat (ulBitsLeft b) + 8 < 2 ^ 64" using b(4) length_content [OF ready_ok [OF b(1)]] by simp
  from OctetAlignWrite_spec [OF b(1) this] obtain k b' where p: "OctetAlignWrite b = (k, b')" "ready b'"
    "bAlign b' = bAlign b" "k = (if bAlign b then writeBitPos b mod 8 else 0)"
    "if bAlign b then writeBitPos b' = 8 else writeBitPos b' = writeBitPos b"
    "content b' = content b @ replicate k False" by blast
  have w: "1 \<le> writeBitPos b" "writeBitPos b \<le> 8" using b(1) by (simp_all add: ready_def shape_def)
  have "k = pad al q \<and> wpos b' = (q + pad al q) mod 8"
  proof (cases al)
    case True
    then have "wpos b' = 0" "k = writeBitPos b mod 8" using p(4,5) b(2) by (simp_all add: wpos_def)
    with True pos_pad [OF assms] pos_write [OF w] b(3) show ?thesis by (simp add: pad_def wpos_def)
  next
    case False
    with p(4,5) b(2,3) assms show ?thesis by (simp add: pad_def wpos_def)
  qed
  with p b show "\<exists>b'. align_write b = Inr (length (replicate (pad al q) False), b') \<and> ready b' \<and> bAlign b' = al \<and>
      wpos b' = (q + length (replicate (pad al q) False)) mod 8 \<and> rpos b' = rpos b \<and> content b' = content b @ replicate (pad al q) False"
    using OctetAlignWrite_readBitPos [OF p(1)] by (simp add: align_write_def rpos_def)
qed

lemma bits_of_inject: "length xs = length ys \<Longrightarrow> bits_of xs = bits_of ys \<Longrightarrow> xs = ys"
proof (induction xs ys rule: list_induct2)
  case (Cons x xs y ys)
  then have "bits8 x = bits8 y" "bits_of xs = bits_of ys"
    using append_eq_append_conv [of "bits8 x" "bits8 y"] by auto
  with Cons.IH show ?case by (simp add: bits8_inject)
qed simp

lemma gets_bits:
  assumes "bits_of ys = xs @ replicate (8 * length ys - n) False" "length ys = (n + 7) div 8" "length xs = n"
  shows "gets (get_bits n) al q xs (ys @ [0])"
proof (rule getsI)
  fix b rest
  assume b: "ok b" "bAlign b = al" "rpos b = q" "content b = xs @ rest"
  then have "n \<le> length (content b)" using assms(3) by simp
  from GetBits_spec [OF b(1) this] obtain zs b' where g: "GetBits n b = Some (zs @ [0], b')" "length zs = (n + 7) div 8"
    "ok b'" "bAlign b' = bAlign b" "readBitPos b' mod 8 = (readBitPos b + n) mod 8" "content b' = drop n (content b)"
    "bits_of zs = take n (content b) @ replicate (8 * length zs - n) False" by blast
  have "bits_of zs = bits_of ys" using g(2,7) assms b(4) by simp
  then have "zs = ys" using g(2) assms(2) by (intro bits_of_inject) simp_all
  moreover have "(readBitPos b + n) mod 8 = (q + n) mod 8" using b(3) by (simp add: rpos_def mod_add_left_eq flip: b(3))
  ultimately show "\<exists>b'. get_bits n b = Some (Inr (ys @ [0], b')) \<and> ok b' \<and> bAlign b' = al \<and>
      rpos b' = (q + length xs) mod 8 \<and> content b' = rest"
    using g b assms(3) by (simp add: get_bits_def rpos_def)
qed

lemma gets_bytes: "gets (get_bits (8 * length ys)) al q (bits_of ys) (ys @ [0])"
  by (rule gets_bits) simp_all

lemma gets_byte: "gets (get_bits 8) al q (bits8 x) [x, 0]"
  using gets_bytes [of "[x]"] by simp

lemma gets_byteR: "gets get_byteR al q (bits8 x) x"
proof (rule getsI)
  fix b rest
  assume b: "ok b" "bAlign b = al" "rpos b = q" "content b = bits8 x @ rest"
  then have "8 \<le> length (content b)" by simp
  from GetByte_spec [OF b(1) this] obtain y b' where g: "GetByte b = Some (y, b')" "ok b'" "bAlign b' = bAlign b"
    "readBitPos b' = readBitPos b" "bits8 y = take 8 (content b)" "content b' = drop 8 (content b)" by blast
  then have "y = x" using b(4) by (simp add: bits8_inject)
  with g b show "\<exists>b'. get_byteR b = Some (Inr (x, b')) \<and> ok b' \<and> bAlign b' = al \<and>
      rpos b' = (q + length (bits8 x)) mod 8 \<and> content b' = rest"
    by (auto simp: get_byteR_def rpos_def)
qed

lemma gets_align:
  assumes "q < 8"
  shows "gets align_read al q (replicate (pad al q) False) (pad al q)"
proof (rule getsI)
  fix b rest
  assume b: "ok b" "bAlign b = al" "rpos b = q" "content b = replicate (pad al q) False @ rest"
  have r: "1 \<le> readBitPos b" "readBitPos b \<le> 8" using b(1) by (simp_all add: ok_def shape_def)
  have k: "8 - readBitPos b = pad al q" if "bAlign b"
    using that pos_read [OF r(2,1)] b(2,3) by (simp add: pad_def rpos_def)
  have "bAlign b \<Longrightarrow> 8 - readBitPos b \<le> length (content b)" using k b(4) by simp
  from OctetAlignRead_spec [OF b(1) this] obtain b' where g: "OctetAlignRead b = (pad al q, b')" "ok b'"
    "bAlign b' = bAlign b" "if bAlign b then readBitPos b' = 8 else readBitPos b' = readBitPos b"
    "content b' = drop (pad al q) (content b)"
    using k b(2) by (auto simp: pad_def split: if_splits)
  have "rpos b' = (q + pad al q) mod 8"
    using g(4) b(2,3) assms pos_pad [OF assms] by (simp add: pad_def rpos_def split: if_splits)
  with g b show "\<exists>b'. align_read b = Some (Inr (pad al q, b')) \<and> ok b' \<and> bAlign b' = al \<and>
      rpos b' = (q + length (replicate (pad al q) False)) mod 8 \<and> content b' = rest"
    by (simp add: align_read_def)
qed

subsection \<open>What an encoder and a decoder owe each other\<close>

text \<open>
  \<open>lay al q x\<close> are the bits of \<open>x\<close> in an aligned or unaligned buffer at position \<open>q\<close> of a byte.
  The encoder writes them and the decoder, before whatever follows, reads them and gives \<open>x\<close> and
  their number.  A value outside \<open>valid\<close> is not for this codec.
\<close>

fun put_all :: "('a \<Rightarrow> writer) \<Rightarrow> 'a list \<Rightarrow> writer" where
  "put_all enc [] = skip"
| "put_all enc (x # xs) = also_put (enc x) (put_all enc xs)"

fun get_all :: "('a \<times> nat) reader \<Rightarrow> nat \<Rightarrow> ('a list \<times> nat) reader" where
  "get_all dc 0 = returnR ([], 0)"
| "get_all dc (Suc n) = bindR dc (\<lambda>(x, k). bindR (get_all dc n) (\<lambda>(xs, m). returnR (x # xs, k + m)))"

fun lay_all :: "(bool \<Rightarrow> nat \<Rightarrow> 'a \<Rightarrow> bool list) \<Rightarrow> bool \<Rightarrow> nat \<Rightarrow> 'a list \<Rightarrow> bool list" where
  "lay_all lay al q [] = []"
| "lay_all lay al q (x # xs) = lay al q x @ lay_all lay al ((q + length (lay al q x)) mod 8) xs"

lemma also_put_Inr:
  "also_put f g b = Inr (n, b') \<longleftrightarrow>
     (\<exists>k m b1. f b = Inr (k, b1) \<and> g b1 = Inr (m, b') \<and> n = k + m)"
  by (auto simp: also_put_def split: sum.splits)

text \<open>\<open>wpos\<close> of what was written first is \<open>rpos\<close> of what is read first.\<close>

locale per_item =
  fixes enc :: "'a \<Rightarrow> writer"
    and dc :: "('a \<times> nat) reader"
    and lay :: "bool \<Rightarrow> nat \<Rightarrow> 'a \<Rightarrow> bool list"
    and valid :: "'a \<Rightarrow> bool"
  assumes enc_emits: "valid x \<Longrightarrow> q < 8 \<Longrightarrow> emits (enc x) al q (lay al q x)"
    and dc_gets: "valid x \<Longrightarrow> q < 8 \<Longrightarrow> gets dc al q (lay al q x) (x, length (lay al q x))"
begin

lemma emits_all: "\<forall>x\<in>set xs. valid x \<Longrightarrow> q < 8 \<Longrightarrow> emits (put_all enc xs) al q (lay_all lay al q xs)"
  by (induction xs arbitrary: q) (auto intro!: emits_skip emits_also_put enc_emits)

lemma gets_all:
  "\<forall>x\<in>set xs. valid x \<Longrightarrow> q < 8 \<Longrightarrow>
   gets (get_all dc (length xs)) al q (lay_all lay al q xs) (xs, length (lay_all lay al q xs))"
proof (induction xs arbitrary: q)
  case (Cons x xs)
  let ?l = "lay al q x"
  let ?q = "(q + length ?l) mod 8"
  have "gets (get_all dc (length xs)) al ?q (lay_all lay al ?q xs) (xs, length (lay_all lay al ?q xs))"
    using Cons by simp
  then have "gets (bindR (get_all dc (length xs)) (\<lambda>(ys, m). returnR (x # ys, length ?l + m))) al ?q (lay_all lay al ?q xs @ [])
      (x # xs, length ?l + length (lay_all lay al ?q xs))"
    by (rule gets_bindR) (simp add: gets_returnR)
  with gets_bindR [OF dc_gets [of x q al], of "\<lambda>(x, k). bindR (get_all dc (length xs)) (\<lambda>(xs, m). returnR (x # xs, k + m))"] Cons.prems
  show ?case by simp
qed (simp add: gets_returnR)

lemma round_trip:
  assumes "\<forall>x\<in>set xs. valid x" "length (lay_all lay al 0 xs) + 8 < 2 ^ 64"
  shows "\<exists>n b b'. put_all enc xs (AsnBufBits al) = Inr (n, b) \<and>
    get_all dc (length xs) b = Some (Inr ((xs, n), b')) \<and> content b' = []"
proof -
  have w: "wpos (AsnBufBits al) = 0" "bAlign (AsnBufBits al) = al" by (simp_all add: wpos_def AsnBufBits_def)
  from assms(2) have "length (content (AsnBufBits al)) + length (lay_all lay al 0 xs) + 8 < 2 ^ 64"
    by (simp add: ready_AsnBufBits)
  from emitsD [OF emits_all [OF assms(1)] ready_AsnBufBits(1) w(2,1) this] obtain b where
    b: "put_all enc xs (AsnBufBits al) = Inr (length (lay_all lay al 0 xs), b)" "ready b" "bAlign b = al"
    "rpos b = rpos (AsnBufBits al)" "content b = lay_all lay al 0 xs @ []" by (auto simp: ready_AsnBufBits)
  have "rpos b = 0" using b(4) by (simp add: rpos_def AsnBufBits_def)
  from getsD [OF gets_all [OF assms(1)] ready_ok [OF b(2)] b(3) this b(5)] obtain b' where
    "get_all dc (length xs) b = Some (Inr ((xs, length (lay_all lay al 0 xs)), b'))" "content b' = []" by auto
  with b(1) show ?thesis by blast
qed

end

subsection \<open>BOOLEAN (\<open>asn-bool.cpp\<close>)\<close>

definition AsnBool_PEnc :: "bool \<Rightarrow> writer" where
  "AsnBool_PEnc v b = Inr (1, snd (PutBits [if v then 0x80 else 0] 1 b))"

definition AsnBool_PDec :: "(bool \<times> nat) reader" where
  "AsnBool_PDec = bindR (get_bits 1) (\<lambda>cBool. returnR (cBool ! 0 AND 0x80 = 0x80, 1))"

lemma bits8_top: "bits8 (if v then 0x80 else 0) = v # replicate 7 False"
proof -
  have "bits8 0x80 = True # replicate 7 False" by code_simp
  then show ?thesis by (simp add: numeral_eq_Suc)
qed

lemma PutBits_fst: "fst (PutBits seg n b) = n"
  by (simp add: PutBits_def Let_def)

lemma AsnBool_PEnc_put: "AsnBool_PEnc v = put_bits [if v then 0x80 else 0] 1"
  by (rule ext) (simp add: AsnBool_PEnc_def put_bits_def PutBits_fst prod_eq_iff)

interpretation per_bool: per_item AsnBool_PEnc AsnBool_PDec "\<lambda>_ _ v. [v]" "\<lambda>_. True"
proof
  fix v :: bool and q :: nat and al :: bool
  assume q: "q < 8"
  let ?c = "if v then 0x80 else 0 :: byte"
  have t: "take 1 (bits_of [?c]) = [v]" using bits8_top [of v] by simp
  show "emits (AsnBool_PEnc v) al q [v]"
    using emits_put_bits [of 1 "[?c]" q al] q t by (simp add: AsnBool_PEnc_put del: bits_of_simps)
  have "gets (get_bits 1) al q [v] ([?c] @ [0])"
    by (rule gets_bits) (use bits8_top [of v] in simp_all)
  moreover have "gets (returnR (([?c] @ [0]) ! 0 AND 0x80 = 0x80, 1)) al ((q + length [v]) mod 8) [] (v, length [v])"
    by (simp add: gets_returnR)
  ultimately show "gets AsnBool_PDec al q [v] (v, length [v])"
    unfolding AsnBool_PDec_def using gets_bindR [of "get_bits 1" al q "[v]"] by fastforce
qed

subsection \<open>Length determinants (\<open>asn-len.cpp\<close>)\<close>

definition l_16k :: nat where
  "l_16k = 16384"

definition PEncDefLenTo127 :: "nat \<Rightarrow> writer" where
  "PEncDefLenTo127 len b = Inr (8, snd (PutBits [of_nat len] 8 b))"

definition PEncLen_16kFragment :: "nat \<Rightarrow> writer" where
  "PEncLen_16kFragment len b = Inr (8, snd (PutBits [0xC0 OR of_nat len] 8 b))"

definition PEncLen_1to16k :: "nat \<Rightarrow> writer" where
  "PEncLen_1to16k len b =
     (let b1 = snd (PutBits [of_nat (drop_bit 8 len) OR 0x80] 8 b)
      in Inr (16, snd (PutBits [of_nat len] 8 b1)))"

lemma PutBits_pair: "PutBits seg n b = (n, snd (PutBits seg n b))"
  by (simp add: PutBits_fst prod_eq_iff)

lemma PEncDefLenTo127_put: "PEncDefLenTo127 len = put_bits [of_nat len] 8"
  by (rule ext) (simp add: PEncDefLenTo127_def put_bits_def PutBits_pair [symmetric])

lemma PEncLen_16kFragment_put: "PEncLen_16kFragment len = put_bits [0xC0 OR of_nat len] 8"
  by (rule ext) (simp add: PEncLen_16kFragment_def put_bits_def PutBits_pair [symmetric])

lemma PEncLen_1to16k_put:
  "PEncLen_1to16k len = also_put (put_bits [of_nat (drop_bit 8 len) OR 0x80] 8) (put_bits [of_nat len] 8)"
  by (rule ext) (simp add: PEncLen_1to16k_def also_put_def put_bits_def PutBits_fst Let_def case_prod_beta)

subsection \<open>Values of any size (\<open>PERGeneral\<close>, \<open>AsnOcts::EncodeGeneral\<close> and \<open>DecodeGeneral\<close>)\<close>

text \<open>
  \<open>PERGeneral\<close> and \<open>AsnOcts\<close> have the same code twice, but for how the content of a part is written
  and read: element by element with \<open>Interpret\<close> and \<open>Deterpret\<close>, or all at once with \<open>PutBits\<close> and
  \<open>GetBits\<close>.  \<open>w s n\<close> writes the first \<open>n\<close> elements of \<open>s\<close>; \<open>rdf\<close> and \<open>rdt\<close> read a part in the loop
  and the last part, with the alignment before it, and give the number of bits they count.
  A part is a length determinant and its content, each after an alignment.
\<close>

definition put_part :: "(byte list \<Rightarrow> nat \<Rightarrow> writer) \<Rightarrow> writer \<Rightarrow> byte list \<Rightarrow> nat \<Rightarrow> writer" where
  "put_part w len s n = puts [align_write, len, align_write, w s n]"

text \<open>\<open>&m_str[offset]\<close> is what \<open>m_str\<close> has from \<open>offset\<close> on.\<close>

fun put_64k :: "(byte list \<Rightarrow> nat \<Rightarrow> writer) \<Rightarrow> nat \<Rightarrow> byte list \<Rightarrow> writer" where
  "put_64k w 0 s = skip"
| "put_64k w (Suc n) s =
     also_put (put_part w (PEncLen_16kFragment 4) s (l_16k * 4)) (put_64k w n (drop (l_16k * 4) s))"

definition put_rest :: "(byte list \<Rightarrow> nat \<Rightarrow> writer) \<Rightarrow> byte list \<Rightarrow> writer" where
  "put_rest w s =
     (if length s < 128 then put_part w (PEncDefLenTo127 (length s)) s (length s)
      else if length s < l_16k then put_part w (PEncLen_1to16k (length s)) s (length s)
      else skip)"

definition general_encode :: "(byte list \<Rightarrow> nat \<Rightarrow> writer) \<Rightarrow> byte list \<Rightarrow> writer" where
  "general_encode w m_str =
     (if length m_str \<ge> l_16k then
        (let l_64kFrag = l_16k * 4;
             n64 = length m_str div l_64kFrag;
             s1 = drop (n64 * l_64kFrag) m_str;
             count = length s1 div l_16k;
             s2 = drop (count * l_16k) s1
         in puts [put_64k w n64 m_str,
                  if count \<noteq> 0 then put_part w (PEncLen_16kFragment count) s1 (count * l_16k) else skip,
                  if s2 = [] then also_put align_write (put_bits [0] 8) else put_rest w s2])
      else put_rest w m_str)"

partial_function (option) general_loop ::
  "(nat \<Rightarrow> (byte list \<times> nat) reader) \<Rightarrow> byte list \<Rightarrow> nat \<Rightarrow> (byte \<times> byte list \<times> nat) reader" where
  "general_loop rdf m_str bitsDecoded b =
     bindR (get_bits 8) (\<lambda>seg b.
       if seg ! 0 AND 0xC0 = 0xC0 then
         (let templen = unat (seg ! 0 AND 0x3F) * l_16k
          in bindR (rdf templen) (\<lambda>x. bindR align_read (\<lambda>k b.
               general_loop rdf (m_str @ fst x) (bitsDecoded + 8 + snd x + k) b)) b)
       else returnR (seg ! 0, m_str, bitsDecoded + 8) b) b"

definition general_end ::
  "(nat \<Rightarrow> (byte list \<times> nat) reader) \<Rightarrow> (byte \<times> byte list \<times> nat) \<Rightarrow> (byte list \<times> nat) reader" where
  "general_end rdt = (\<lambda>(h, m_str, n).
       if h AND 0xC0 = 0x80 then
         bindR (get_bits 8) (\<lambda>seg.
           let templen = push_bit 8 (unat (h AND 0x3F)) OR unat (seg ! 0)
           in bindR (rdt templen) (\<lambda>x. returnR (m_str @ fst x, n + 8 + snd x)))
       else if h AND 0x80 = 0 then
         bindR (rdt (unat (h AND 0x7F))) (\<lambda>x. returnR (m_str @ fst x, n + snd x))
       else returnR (m_str, n))"

definition general_decode ::
  "(nat \<Rightarrow> (byte list \<times> nat) reader) \<Rightarrow> (nat \<Rightarrow> (byte list \<times> nat) reader) \<Rightarrow> (byte list \<times> nat) reader" where
  "general_decode rdf rdt =
     bindR align_read (\<lambda>k0. bindR (general_loop rdf [] k0) (general_end rdt))"

text \<open>\<open>AsnOcts\<close>: the alignment before a part in the loop is not counted.\<close>

definition octs_part :: "nat \<Rightarrow> (byte list \<times> nat) reader" where
  "octs_part templen =
     bindR align_read (\<lambda>_. bindR (get_bits (templen * 8)) (\<lambda>s. returnR (take templen s, templen * 8)))"

definition octs_last :: "nat \<Rightarrow> (byte list \<times> nat) reader" where
  "octs_last templen =
     bindR align_read (\<lambda>k. bindR (get_bits (templen * 8)) (\<lambda>s. returnR (take templen s, k + templen * 8)))"

definition EncodeGeneral :: "byte list \<Rightarrow> writer" where
  "EncodeGeneral m_str = general_encode (\<lambda>s n. put_bits s (n * 8)) m_str"

definition DecodeGeneral :: "(byte list \<times> nat) reader" where
  "DecodeGeneral = general_decode octs_part octs_last"

text \<open>\<open>PERGeneral\<close>, with the \<open>Interpret\<close> and \<open>Deterpret\<close> of \<open>AsnInt\<close>: a byte each.\<close>

definition Interpret :: "byte \<Rightarrow> writer" where
  "Interpret c = put_bits [c] 8"

definition Deterpret :: "(byte \<times> nat) reader" where
  "Deterpret = bindR (get_bits 8) (\<lambda>seg. returnR (seg ! 0, 8))"

definition int_part :: "nat \<Rightarrow> (byte list \<times> nat) reader" where
  "int_part templen =
     bindR align_read (\<lambda>k. bindR (get_all Deterpret templen) (\<lambda>x. returnR (fst x, k + snd x)))"

definition PERGeneral_Encode :: "byte list \<Rightarrow> writer" where
  "PERGeneral_Encode m_bytes = general_encode (\<lambda>s n. put_all Interpret (take n s)) m_bytes"

definition PERGeneral_Decode :: "(byte list \<times> nat) reader" where
  "PERGeneral_Decode = general_decode int_part int_part"

text \<open>The general length of X.691: parts of at most four times 16384 bytes, and a last one of fewer than 16384.\<close>

function general :: "byte list \<Rightarrow> byte list" where
  "general s =
     (if length s < 128 then of_nat (length s) # s
      else if length s < 16384 then (of_nat (length s div 256) OR 0x80) # of_nat (length s) # s
      else (let k = min 4 (length s div 16384)
            in (0xC0 OR of_nat k) # take (k * 16384) s @ general (drop (k * 16384) s)))"
  by auto
termination
  by (relation "measure length") auto

declare general.simps [simp del]

definition general_bits :: "bool \<Rightarrow> nat \<Rightarrow> byte list \<Rightarrow> bool list" where
  "general_bits al q s = replicate (pad al q) False @ bits_of (general s)"

lemma general_nonempty [simp]: "general s \<noteq> []"
  by (subst general.simps) (simp add: Let_def)

text \<open>What starts with an alignment and goes on with whole bytes.\<close>

definition chunk :: "writer \<Rightarrow> bool \<Rightarrow> byte list \<Rightarrow> bool" where
  "chunk f al bs \<longleftrightarrow> (\<forall>q<8. emits f al q (if bs = [] then [] else replicate (pad al q) False @ bits_of bs))"

lemma pad_settled: "q < 8 \<Longrightarrow> pad al ((q + (pad al q + 8 * n)) mod 8) = 0"
proof -
  assume q: "q < 8"
  have "(q + (pad al q + 8 * n)) mod 8 = (q + pad al q) mod 8" by (metis add.assoc mod_mult_self2)
  then show ?thesis using pos_pad [OF q] by (simp add: pad_def)
qed

lemma chunk_skip: "chunk skip al []"
  by (simp add: chunk_def emits_skip)

lemma chunk_also_put:
  assumes "chunk f al xs" "chunk g al ys"
  shows "chunk (also_put f g) al (xs @ ys)"
proof (unfold chunk_def, intro allI impI)
  fix q :: nat
  assume q: "q < 8"
  let ?l = "\<lambda>q bs. if bs = [] then [] else replicate (pad al q) False @ bits_of bs"
  have "emits (also_put f g) al q (?l q xs @ ?l ((q + length (?l q xs)) mod 8) ys)"
    by (rule emits_also_put) (use assms q in \<open>auto simp: chunk_def\<close>)
  moreover have "?l q xs @ ?l ((q + length (?l q xs)) mod 8) ys = ?l q (xs @ ys)"
    using pad_settled [OF q, of al "length xs"] q by auto
  ultimately show "emits (also_put f g) al q (?l q (xs @ ys))" by simp
qed

lemma chunk_align_byte:
  assumes "\<And>q. q < 8 \<Longrightarrow> emits f al q (bits_of h)" "h \<noteq> []"
  shows "chunk (also_put align_write f) al h"
  using emits_also_put [OF emits_align assms(1)] assms(2) by (simp add: chunk_def)

lemma emits_byte: "q < 8 \<Longrightarrow> emits (put_bits [x] 8) al q (bits_of [x])"
  using emits_put_bits [of 8 "[x]" q al] by simp

fun frags :: "nat \<Rightarrow> byte list \<Rightarrow> byte list" where
  "frags 0 s = []"
| "frags (Suc n) s = (0xC0 OR 4) # take (l_16k * 4) s @ frags n (drop (l_16k * 4) s)"

lemma general_frags: "n * (l_16k * 4) \<le> length s \<Longrightarrow> general s = frags n s @ general (drop (n * (l_16k * 4)) s)"
proof (induction n arbitrary: s)
  case (Suc n)
  have l: "65536 \<le> length s" using Suc.prems by (simp add: l_16k_def)
  then have "min 4 (length s div 16384) = 4" by simp
  then have "general s = (0xC0 OR of_nat 4) # take 65536 s @ general (drop 65536 s)"
    using l by (simp add: general.simps [of s] Let_def)
  moreover have "general (drop 65536 s) = frags n (drop 65536 s) @ general (drop (n * (l_16k * 4)) (drop 65536 s))"
    by (rule Suc.IH) (use Suc.prems in \<open>simp add: l_16k_def\<close>)
  ultimately show ?case by (simp add: l_16k_def add.commute)
qed simp

text \<open>Header bytes.\<close>

lemma header_masks: "(0xC0 :: byte) = 2 ^ 7 OR 2 ^ 6" "(0x80 :: byte) = 2 ^ 7" "(0x3F :: byte) = mask 6" "(0x7F :: byte) = mask 7"
  by (simp_all add: mask_eq_exp_minus_1)

lemma header_bits:
  "bit (0xC0 :: byte) i \<longleftrightarrow> i = 7 \<or> i = 6" "bit (0x80 :: byte) i \<longleftrightarrow> i = 7"
  "bit (0x3F :: byte) i \<longleftrightarrow> i < 6" "bit (0x7F :: byte) i \<longleftrightarrow> i < 7"
  unfolding header_masks by (simp_all only: bit_or_iff bit_exp_iff bit_mask_iff) auto

lemma small_bits: "unat (w :: byte) < 2 ^ k \<Longrightarrow> bit w i \<Longrightarrow> i < k"
proof -
  assume "unat w < 2 ^ k" "bit w i"
  then have "take_bit k (unat w) = unat w" "bit (unat w) i" by (simp_all add: take_bit_nat_eq_self bit_unsigned_iff)
  then show "i < k" by (metis bit_take_bit_iff)
qed

lemma header_127:
  assumes "n < 128"
  shows "(of_nat n :: byte) AND 0xC0 \<noteq> 0xC0" "(of_nat n :: byte) AND 0xC0 \<noteq> 0x80" "(of_nat n :: byte) AND 0x80 = 0"
    "unat ((of_nat n :: byte) AND 0x7F) = n"
proof -
  have u: "unat (of_nat n :: byte) = n" using assms by (simp add: unat_of_nat)
  have b: "\<not> bit (of_nat n :: byte) 7" using small_bits [of "of_nat n" 7 7] u assms by auto
  have "\<not> bit ((of_nat n :: byte) AND 0xC0) 7" using b by (simp add: bit_and_iff)
  moreover have "bit (0xC0 :: byte) 7" "bit (0x80 :: byte) 7" by (simp_all add: header_bits)
  ultimately show "(of_nat n :: byte) AND 0xC0 \<noteq> 0xC0" "(of_nat n :: byte) AND 0xC0 \<noteq> 0x80" by metis+
  show "(of_nat n :: byte) AND 0x80 = 0"
    by (rule bit_word_eqI) (use b in \<open>auto simp: bit_and_iff header_bits simp del: bit_numeral_word_iff\<close>)
  have "(of_nat n :: byte) AND 0x7F = of_nat n"
    by (rule bit_word_eqI) (use small_bits [of "of_nat n" 7] u assms in \<open>auto simp: bit_and_iff header_bits simp del: bit_numeral_word_iff\<close>)
  then show "unat ((of_nat n :: byte) AND 0x7F) = n" using u by simp
qed

lemma header_16k:
  assumes "v < 64"
  shows "((of_nat v :: byte) OR 0x80) AND 0xC0 = 0x80" "unat (((of_nat v :: byte) OR 0x80) AND 0x3F) = v"
proof -
  have u: "unat (of_nat v :: byte) = v" using assms by (simp add: unat_of_nat)
  have b: "bit (of_nat v :: byte) i \<Longrightarrow> i < 6" for i using small_bits [of "of_nat v" 6 i] u assms by simp
  show "((of_nat v :: byte) OR 0x80) AND 0xC0 = 0x80"
    by (rule bit_word_eqI) (use b in \<open>auto simp: bit_and_iff bit_or_iff header_bits simp del: bit_numeral_word_iff\<close>)
  have "((of_nat v :: byte) OR 0x80) AND 0x3F = of_nat v"
    by (rule bit_word_eqI) (use b in \<open>auto simp: bit_and_iff bit_or_iff header_bits simp del: bit_numeral_word_iff\<close>)
  then show "unat (((of_nat v :: byte) OR 0x80) AND 0x3F) = v" using u by simp
qed

lemma header_fragment:
  assumes "k < 64"
  shows "(0xC0 OR of_nat k :: byte) AND 0xC0 = 0xC0" "unat ((0xC0 OR of_nat k :: byte) AND 0x3F) = k"
proof -
  have u: "unat (of_nat k :: byte) = k" using assms by (simp add: unat_of_nat)
  have b: "bit (of_nat k :: byte) i \<Longrightarrow> i < 6" for i using small_bits [of "of_nat k" 6 i] u assms by simp
  show "(0xC0 OR of_nat k :: byte) AND 0xC0 = 0xC0"
    by (rule bit_word_eqI) (auto simp: bit_or_iff bit_and_iff)
  have "(0xC0 OR of_nat k :: byte) AND 0x3F = of_nat k"
    by (rule bit_word_eqI) (use b in \<open>auto simp: bit_and_iff bit_or_iff header_bits simp del: bit_numeral_word_iff\<close>)
  then show "unat ((0xC0 OR of_nat k :: byte) AND 0x3F) = k" using u by simp
qed

lemma length_or: "n < 16384 \<Longrightarrow> push_bit 8 (n div 256) OR unat (of_nat n :: byte) = n"
proof -
  have "push_bit 8 (drop_bit 8 n) OR take_bit 8 n = n"
    by (rule bit_eqI) (auto simp: bit_simps)
  then show ?thesis by (simp add: drop_bit_eq_div take_bit_eq_mod unat_of_nat)
qed

lemma bindR_assoc: "bindR (bindR m f) g = bindR m (\<lambda>x. bindR (f x) g)"
  by (rule ext) (auto simp: bindR_def split: option.split sum.split)

lemma bindR_returnR: "bindR (returnR x) f = f x"
  by (rule ext) (simp add: bindR_def returnR_def)

text \<open>The loop, with what comes after it.\<close>

definition loop_then ::
  "(nat \<Rightarrow> (byte list \<times> nat) reader) \<Rightarrow> ((byte \<times> byte list \<times> nat) \<Rightarrow> 'a reader) \<Rightarrow> byte list \<Rightarrow> nat \<Rightarrow> 'a reader" where
  "loop_then rdf c m n = bindR (general_loop rdf m n) c"

lemma loop_then_unfold:
  "loop_then rdf c m n =
     bindR (get_bits 8) (\<lambda>seg.
       if seg ! 0 AND 0xC0 = 0xC0 then
         (let templen = unat (seg ! 0 AND 0x3F) * l_16k
          in bindR (rdf templen) (\<lambda>x. bindR align_read (\<lambda>k.
               loop_then rdf c (m @ fst x) (n + 8 + snd x + k))))
       else c (seg ! 0, m, n + 8))"
proof -
  have "general_loop rdf m n = bindR (get_bits 8) (\<lambda>seg.
       if seg ! 0 AND 0xC0 = 0xC0 then
         (let templen = unat (seg ! 0 AND 0x3F) * l_16k
          in bindR (rdf templen) (\<lambda>x. bindR align_read (\<lambda>k.
               general_loop rdf (m @ fst x) (n + 8 + snd x + k))))
       else returnR (seg ! 0, m, n + 8))"
    by (rule ext, subst general_loop.simps, rule arg_cong [where f = "\<lambda>f. bindR (get_bits 8) f _"], intro ext)
      (simp add: Let_def)
  then show ?thesis
    unfolding loop_then_def by (simp add: bindR_assoc bindR_returnR Let_def if_distrib [of "\<lambda>f. bindR f c"] cong: if_cong)
qed

text \<open>In an aligned buffer whole bytes leave the position where it is.\<close>

lemma gets_aligned: "q < 8 \<Longrightarrow> pad al q = 0 \<Longrightarrow> gets align_read al q [] 0"
  using gets_align [of q al] by simp

lemma gets_then:
  assumes "gets m al q (bits_of xs) x" "q < 8" "gets (f x) al q ys v"
  shows "gets (bindR m f) al q (bits_of xs @ ys) v"
proof (rule gets_bindR [OF assms(1)])
  have "(q + length (bits_of xs)) mod 8 = q" using assms(2) by simp
  then show "gets (f x) al ((q + length (bits_of xs)) mod 8) ys v" using assms(3) by simp
qed

lemma gets_byte_of: "gets (get_bits 8) al q (bits_of [x]) [x, 0]"
  using gets_byte by simp

text \<open>How the content is written and read does not matter, as long as it is these bits.\<close>

locale general_content =
  fixes w :: "byte list \<Rightarrow> nat \<Rightarrow> writer"
    and rdf rdt :: "nat \<Rightarrow> (byte list \<times> nat) reader"
  assumes w_emits: "q < 8 \<Longrightarrow> n \<le> length s \<Longrightarrow> emits (w s n) al q (bits_of (take n s))"
    and rdf_gets: "q < 8 \<Longrightarrow> pad al q = 0 \<Longrightarrow> gets (rdf (length s)) al q (bits_of s) (s, length s * 8)"
    and rdt_gets: "q < 8 \<Longrightarrow> pad al q = 0 \<Longrightarrow> gets (rdt (length s)) al q (bits_of s) (s, length s * 8)"
begin

lemma chunk_part:
  assumes "\<And>q. q < 8 \<Longrightarrow> emits len al q (bits_of h)" "h \<noteq> []" "n \<le> length s"
  shows "chunk (put_part w len s n) al (h @ take n s)"
proof (unfold chunk_def, intro allI impI)
  fix q :: nat
  assume q: "q < 8"
  let ?q = "(q + (pad al q + 8 * length h)) mod 8"
  have 0: "pad al ?q = 0" using pad_settled [OF q] by simp
  have 1: "emits align_write al ?q []" using emits_align [of ?q al] 0 by simp
  have 2: "emits (w s n) al ?q (bits_of (take n s))" by (rule w_emits) (use assms(3) in simp_all)
  have 3: "emits (puts [w s n]) al ?q (bits_of (take n s))"
    using emits_also_put [OF 2 emits_skip] by simp
  have 4: "emits (puts [align_write, w s n]) al ?q (bits_of (take n s))"
    using emits_also_put [OF 1, of "puts [w s n]"] 3 by simp
  have e2: "((q + pad al q) mod 8 + 8 * length h) mod 8 = ?q" by (rule mod_8_add)
  have "emits (also_put len (puts [align_write, w s n])) al ((q + pad al q) mod 8)
      (bits_of h @ bits_of (take n s))"
    by (rule emits_also_put [OF assms(1)]) (simp, use 4 e2 in \<open>simp only: length_bits_of\<close>)
  then have "emits (put_part w len s n) al q (replicate (pad al q) False @ bits_of h @ bits_of (take n s))"
    using emits_also_put [OF emits_align [OF q]] unfolding put_part_def by simp
  then show "emits (put_part w len s n) al q
      (if h @ take n s = [] then [] else replicate (pad al q) False @ bits_of (h @ take n s))"
    using assms(2) by simp
qed

lemma chunk_fragment:
  "n = k * l_16k \<Longrightarrow> n \<le> length s \<Longrightarrow> chunk (put_part w (PEncLen_16kFragment k) s n) al ((0xC0 OR of_nat k) # take n s)"
  using chunk_part [of "PEncLen_16kFragment k" al "[0xC0 OR of_nat k]" n s] emits_byte
  by (simp add: PEncLen_16kFragment_put del: bits_of_simps)

lemma chunk_rest:
  assumes "length s < l_16k"
  shows "chunk (put_rest w s) al (general s)"
proof (cases "length s < 128")
  case True
  then have "general s = [of_nat (length s)] @ take (length s) s" by (simp add: general.simps [of s])
  with True chunk_part [of "PEncDefLenTo127 (length s)" al "[of_nat (length s)]" "length s" s] emits_byte
  show ?thesis by (simp add: PEncDefLenTo127_put put_rest_def del: bits_of_simps)
next
  case False
  let ?h = "of_nat (length s div 256) OR 0x80 :: byte" and ?l = "of_nat (length s) :: byte"
  have "drop_bit 8 (length s) = length s div 256" by (simp add: drop_bit_eq_div)
  then have "emits (PEncLen_1to16k (length s)) al q (bits_of [?h, ?l])" if "q < 8" for q
    using emits_also_put [OF emits_byte [OF that, of ?h al] emits_byte [of _ ?l al]] by (simp add: PEncLen_1to16k_put)
  moreover have "general s = [?h, ?l] @ take (length s) s" using False assms by (simp add: general.simps [of s] l_16k_def)
  ultimately show ?thesis
    using False assms chunk_part [of "PEncLen_1to16k (length s)" al "[?h, ?l]" "length s" s]
    by (simp add: put_rest_def del: bits_of_simps)
qed

lemma chunk_64k: "n * (l_16k * 4) \<le> length s \<Longrightarrow> chunk (put_64k w n s) al (frags n s)"
proof (induction n arbitrary: s)
  case (Suc n)
  have "chunk (put_part w (PEncLen_16kFragment 4) s (l_16k * 4)) al ((0xC0 OR of_nat 4) # take (l_16k * 4) s)"
    by (rule chunk_fragment) (use Suc.prems in simp_all)
  moreover have "chunk (put_64k w n (drop (l_16k * 4) s)) al (frags n (drop (l_16k * 4) s))"
    by (rule Suc.IH) (use Suc.prems in simp)
  ultimately show ?case using chunk_also_put by fastforce
qed (simp add: chunk_skip)

lemma chunk_general_encode: "chunk (general_encode w m_str) al (general m_str)"
proof (cases "length m_str < l_16k")
  case True
  then show ?thesis using chunk_rest by (simp add: general_encode_def)
next
  case False
  define n where "n = length m_str div (l_16k * 4)"
  define s1 where "s1 = drop (n * (l_16k * 4)) m_str"
  define k where "k = length s1 div l_16k"
  define s2 where "s2 = drop (k * l_16k) s1"
  have n: "n * (l_16k * 4) \<le> length m_str" by (simp add: n_def)
  have "length s1 = length m_str mod (l_16k * 4)" by (simp add: s1_def n_def minus_div_mult_eq_mod)
  then have k4: "k < 4" unfolding k_def by (simp add: l_16k_def)
  have "length s2 = length s1 mod l_16k" by (simp add: s2_def k_def minus_div_mult_eq_mod)
  then have l2: "length s2 < l_16k" by (simp add: l_16k_def)
  let ?f1 = "if k \<noteq> 0 then put_part w (PEncLen_16kFragment k) s1 (k * l_16k) else skip"
  let ?f2 = "if s2 = [] then also_put align_write (put_bits [0] 8) else put_rest w s2"
  let ?b1 = "if k \<noteq> 0 then (0xC0 OR of_nat k) # take (k * l_16k) s1 else []"
  have c1: "chunk ?f1 al ?b1" using chunk_fragment [of "k * l_16k" k s1 al] chunk_skip by (simp add: k_def)
  have g0: "general [] = [0]" by (simp add: general.simps)
  have c2: "chunk ?f2 al (general s2)"
    using chunk_rest [OF l2] chunk_align_byte [of "put_bits [0] 8" al "[0]"] emits_byte g0 by (simp del: bits_of_simps)
  have "chunk (puts [put_64k w n m_str, ?f1, ?f2]) al (frags n m_str @ ?b1 @ general s2 @ [])"
    unfolding puts.simps by (intro chunk_also_put chunk_64k [OF n] c1 c2 chunk_skip)
  moreover have "general s1 = ?b1 @ general s2"
  proof (cases "k = 0")
    case False
    then have "16384 \<le> length s1" by (simp add: k_def l_16k_def div_eq_0_iff)
    moreover have "min 4 (length s1 div 16384) = k" using k4 by (simp add: k_def l_16k_def)
    ultimately show ?thesis using False by (simp add: general.simps [of s1] s2_def l_16k_def Let_def)
  qed (simp add: s2_def)
  ultimately have "chunk (puts [put_64k w n m_str, ?f1, ?f2]) al (general m_str)"
    using general_frags [OF n] by (simp add: s1_def)
  moreover have "general_encode w m_str = puts [put_64k w n m_str, ?f1, ?f2]"
    unfolding general_encode_def Let_def s2_def k_def s1_def n_def using False by (simp only: not_less if_True)
  ultimately show ?thesis by (simp only:)
qed

lemma gets_fragment:
  assumes "q < 8" "pad al q = 0" "length s = k * l_16k" "k < 64"
    "gets (loop_then rdf c (m @ s) (n + 8 + length s * 8)) al q ys v"
  shows "gets (loop_then rdf c m n) al q (bits_of ([0xC0 OR of_nat k] @ s) @ ys) v"
proof -
  let ?h = "0xC0 OR of_nat k :: byte"
  have a: "gets align_read al q (bits_of []) 0" using gets_aligned assms by simp
  let ?f2 = "\<lambda>j. loop_then rdf c (m @ s) (n + 8 + length s * 8 + j)"
  let ?f1 = "\<lambda>x. bindR align_read (\<lambda>j. loop_then rdf c (m @ fst x) (n + 8 + snd x + j))"
  have "gets (?f2 0) al q ys v" using assms(5) by simp
  from gets_then [OF a assms(1), of ?f2, OF this]
  have "gets (?f1 (s, length s * 8)) al q ys v" by simp
  from gets_then [OF rdf_gets [OF assms(1,2)] assms(1), of ?f1, OF this]
  have "gets (bindR (rdf (length s)) ?f1) al q (bits_of s @ ys) v" .
  moreover have "unat (?h AND 0x3F) * l_16k = length s" "?h AND 0xC0 = 0xC0"
    using header_fragment [OF assms(4)] assms(3) by simp_all
  ultimately have "gets (loop_then rdf c m n) al q (bits_of [?h] @ bits_of s @ ys) v"
    by (subst loop_then_unfold) (rule gets_then [OF gets_byte_of assms(1)], simp add: Let_def)
  then show ?thesis by simp
qed

lemma gets_last:
  assumes "q < 8" "pad al q = 0"
  shows "gets (bindR (rdt (length s)) (\<lambda>x. returnR (m @ fst x, j + snd x))) al q (bits_of s) (m @ s, j + length s * 8)"
  using gets_then [OF rdt_gets [OF assms, of s] assms(1), of "\<lambda>x. returnR (m @ fst x, j + snd x)" "[]"] assms(1)
  by (simp add: gets_returnR)

lemma gets_loop:
  "q < 8 \<Longrightarrow> pad al q = 0 \<Longrightarrow>
   gets (loop_then rdf (general_end rdt) m n) al q (bits_of (general s)) (m @ s, n + 8 * length (general s))"
proof (induction s arbitrary: m n rule: general.induct)
  case (1 s)
  consider "length s < 128" | "128 \<le> length s" "length s < 16384" | "16384 \<le> length s" by linarith
  then show ?case
  proof cases
    case 1
    let ?h = "of_nat (length s) :: byte"
    have g: "general s = [?h] @ s" using 1 by (simp add: general.simps [of s])
    have "gets (general_end rdt (?h, m, n + 8)) al q (bits_of s) (m @ s, n + 8 + length s * 8)"
      using gets_last [OF "1.prems", of s m "n + 8"] header_127 [OF 1] by (simp add: general_end_def)
    moreover have "n + 8 + length s * 8 = n + 8 * length (general s)" by (simp add: g)
    ultimately show ?thesis
      unfolding g bits_of_simps(3)
      by (subst loop_then_unfold, intro gets_then [OF gets_byte_of "1.prems"(1)]) (use header_127 [OF 1] g in simp)
  next
    case 2
    let ?h = "of_nat (length s div 256) OR 0x80 :: byte" and ?l = "of_nat (length s) :: byte"
    have g: "general s = [?h] @ [?l] @ s" using 2 by (simp add: general.simps [of s])
    have v: "length s div 256 < 64" using 2 by simp
    have e: "general_end rdt (?h, m, n + 8) = bindR (get_bits 8) (\<lambda>seg.
           let templen = push_bit 8 (length s div 256) OR unat (seg ! 0)
           in bindR (rdt templen) (\<lambda>x. returnR (m @ fst x, n + 8 + 8 + snd x)))"
      using header_16k [OF v] by (simp add: general_end_def)
    have "gets (general_end rdt (?h, m, n + 8)) al q (bits_of [?l] @ bits_of s) (m @ s, n + 8 + 8 + length s * 8)"
      unfolding e by (intro gets_then [OF gets_byte_of "1.prems"(1)])
        (use gets_last [OF "1.prems", of s m "n + 8 + 8"] length_or [OF 2(2)] in \<open>simp add: Let_def\<close>)
    moreover have "n + 8 + 8 + length s * 8 = n + 8 * length (general s)" by (simp add: g)
    moreover have "?h AND 0xC0 \<noteq> 0xC0" using header_16k(1) [OF v] by simp
    ultimately show ?thesis
      unfolding g bits_of_simps(3)
      by (subst loop_then_unfold, intro gets_then [OF gets_byte_of "1.prems"(1)]) (use g in \<open>simp add: algebra_simps\<close>)
  next
    case 3
    let ?k = "min 4 (length s div 16384)"
    let ?h = "0xC0 OR of_nat ?k :: byte"
    let ?s = "take (?k * 16384) s" and ?r = "drop (?k * 16384) s"
    have g: "general s = [?h] @ ?s @ general ?r" using 3 by (simp add: general.simps [of s] Let_def)
    have k: "?k < 64" by simp
    have "?k * 16384 \<le> length s"
      by (rule order_trans [OF mult_le_mono1 [OF min.cobounded2] div_times_less_eq_dividend])
    then have l: "length ?s = ?k * l_16k" unfolding l_16k_def by simp
    have "gets (loop_then rdf (general_end rdt) (m @ ?s) (n + 8 + length ?s * 8)) al q (bits_of (general ?r))
        ((m @ ?s) @ ?r, n + 8 + length ?s * 8 + 8 * length (general ?r))"
      by (rule "1.IH") (use 3 "1.prems" in simp_all)
    from gets_fragment [OF "1.prems" l k this]
    have "gets (loop_then rdf (general_end rdt) m n) al q (bits_of ([?h] @ ?s @ general ?r))
        ((m @ ?s) @ ?r, n + 8 + length ?s * 8 + 8 * length (general ?r))" by simp
    moreover have "n + 8 + length ?s * 8 + 8 * length (general ?r) = n + 8 * length (general s)"
      unfolding g by (simp only: length_append) simp
    moreover have "(m @ ?s) @ ?r = m @ s" by simp
    ultimately show ?thesis unfolding g by (simp only:)
  qed
qed

lemma gets_general_decode:
  assumes "q < 8"
  shows "gets (general_decode rdf rdt) al q (general_bits al q s) (s, length (general_bits al q s))"
proof -
  let ?q = "(q + length (replicate (pad al q) False)) mod 8"
  have "pad al ?q = 0" using pad_settled [OF assms, of al 0] by simp
  from gets_loop [OF _ this, of "[]" "pad al q" s]
  have "gets (loop_then rdf (general_end rdt) [] (pad al q)) al ?q (bits_of (general s)) (s, pad al q + 8 * length (general s))"
    by simp
  with gets_bindR [OF gets_align [OF assms], of "\<lambda>k0. loop_then rdf (general_end rdt) [] k0" al] show ?thesis
    by (simp add: general_decode_def loop_then_def general_bits_def)
qed

lemma emits_general_encode: "q < 8 \<Longrightarrow> emits (general_encode w s) al q (general_bits al q s)"
  using chunk_general_encode [of s al] by (simp add: chunk_def general_bits_def)

end

lemma emits_put_bytes:
  assumes "q < 8" "n \<le> length s"
  shows "emits (put_bits s (n * 8)) al q (bits_of (take n s))"
proof -
  have e: "take (n * 8) (bits_of s) = bits_of (take n s)" using take_bits_of [of n s] by (simp only: mult.commute)
  show ?thesis using emits_put_bits [of "n * 8" s q al] assms unfolding e by simp
qed

lemma gets_octs_part:
  assumes "q < 8" "pad al q = 0"
  shows "gets (octs_part (length s)) al q (bits_of s) (s, length s * 8)" "gets (octs_last (length s)) al q (bits_of s) (s, length s * 8)"
proof -
  have a: "gets align_read al q (bits_of []) 0" using gets_aligned assms by simp
  have b: "gets (get_bits (length s * 8)) al q (bits_of s) (s @ [0])"
    using gets_bytes [of s al q] by (simp only: mult.commute)
  have c: "gets (bindR (get_bits (length s * 8)) (\<lambda>t. returnR (take (length s) t, k + length s * 8))) al q
      (bits_of s) (s, k + length s * 8)" for k
    using gets_then [OF b assms(1), of "\<lambda>t. returnR (take (length s) t, k + length s * 8)" "[]"] assms(1)
    by (simp add: gets_returnR)
  show "gets (octs_part (length s)) al q (bits_of s) (s, length s * 8)"
    using gets_then [OF a assms(1), of "\<lambda>_. bindR (get_bits (length s * 8)) (\<lambda>t. returnR (take (length s) t, length s * 8))"]
      c [of 0] by (simp add: octs_part_def)
  show "gets (octs_last (length s)) al q (bits_of s) (s, length s * 8)"
    using gets_then [OF a assms(1), of "\<lambda>k. bindR (get_bits (length s * 8)) (\<lambda>t. returnR (take (length s) t, k + length s * 8))"]
      c [of 0] by (simp add: octs_last_def)
qed

interpretation octs_content: general_content "\<lambda>s n. put_bits s (n * 8)" octs_part octs_last
  by unfold_locales (simp_all add: emits_put_bytes gets_octs_part)

interpretation per_octs: per_item EncodeGeneral DecodeGeneral general_bits "\<lambda>_. True"
  by unfold_locales
    (simp_all add: EncodeGeneral_def DecodeGeneral_def octs_content.emits_general_encode octs_content.gets_general_decode)

text \<open>The bytes of an \<open>AsnInt\<close>, one after the other.\<close>

lemma emits_Interpret: "q < 8 \<Longrightarrow> emits (put_all Interpret s) al q (bits_of s)"
proof (induction s)
  case (Cons x s)
  have "emits (Interpret x) al q (bits_of [x])" unfolding Interpret_def by (rule emits_byte [OF Cons.prems])
  from emits_also_put [OF this, of "put_all Interpret s" "bits_of s"] Cons show ?case by simp
qed (simp add: emits_skip)

lemma gets_Deterpret: "q < 8 \<Longrightarrow> gets (get_all Deterpret (length s)) al q (bits_of s) (s, length s * 8)"
proof (induction s)
  case (Cons x s)
  have d: "gets Deterpret al q (bits_of [x]) (x, 8)"
    unfolding Deterpret_def using gets_then [OF gets_byte_of [of al q x] Cons.prems, of "\<lambda>seg. returnR (seg ! 0, 8 :: nat)" "[]"] Cons.prems
    by (simp add: gets_returnR)
  have "gets (bindR (get_all Deterpret (length s)) (\<lambda>(xs, m). returnR (x # xs, 8 + m))) al q (bits_of s @ []) (x # s, 8 + length s * 8)"
    by (rule gets_then [OF Cons.IH [OF Cons.prems] Cons.prems]) (simp add: gets_returnR Cons.prems)
  with gets_then [OF d Cons.prems, of "\<lambda>(x, k). bindR (get_all Deterpret (length s)) (\<lambda>(xs, m). returnR (x # xs, k + m))"]
  show ?case by simp
qed (simp add: gets_returnR)

lemma gets_int_part:
  assumes "q < 8" "pad al q = 0"
  shows "gets (int_part (length s)) al q (bits_of s) (s, length s * 8)"
proof -
  have a: "gets align_read al q (bits_of []) 0" using gets_aligned assms by simp
  have "gets (bindR (get_all Deterpret (length s)) (\<lambda>x. returnR (fst x, 0 + snd x))) al q (bits_of s @ []) (s, length s * 8)"
    by (rule gets_then [OF gets_Deterpret [OF assms(1)] assms(1)]) (simp add: gets_returnR assms)
  with gets_then [OF a assms(1), of "\<lambda>k. bindR (get_all Deterpret (length s)) (\<lambda>x. returnR (fst x, k + snd x))"]
  show ?thesis by (simp add: int_part_def)
qed

interpretation int_content: general_content "\<lambda>s n. put_all Interpret (take n s)" int_part int_part
  by unfold_locales (simp_all add: emits_Interpret gets_int_part)

interpretation per_bytes: per_item PERGeneral_Encode PERGeneral_Decode general_bits "\<lambda>_. True"
  by unfold_locales
    (simp_all add: PERGeneral_Encode_def PERGeneral_Decode_def int_content.emits_general_encode int_content.gets_general_decode)

end
