(* ===== verification/Per_Constr.thy ===== *)
theory Per_Constr
  imports Per_Codec
begin

section \<open>PER codecs with constraints (\<open>asn-octs.cpp\<close>, \<open>asn-int.cpp\<close>)\<close>

text \<open>
  Values with a size or a value constraint: the number that remains free is written with as few
  bits as its range needs.  Bounds are kept at the widths of the code, \<open>unsigned long\<close> (64 bits) in the
  constraint and \<open>int\<close> in the codec.  The theory shows that what is encoded is decoded again, for the
  ranges for which this is so, and what is lost beyond them.
\<close>

subsection \<open>Numbers in a given number of bits\<close>

definition nat_bits :: "nat \<Rightarrow> nat \<Rightarrow> bool list" where
  "nat_bits k n = map (\<lambda>i. bit n (k - 1 - i)) [0..<k]"

lemma length_nat_bits [simp]: "length (nat_bits k n) = k"
  by (simp add: nat_bits_def)

lemma nat_bits_0 [simp]: "nat_bits 0 n = []"
  by (simp add: nat_bits_def)

lemma bits8_nat_bits:
  assumes "k \<le> 8"
  shows "bits8 (push_bit (8 - k) (of_nat n)) = nat_bits k n @ replicate (8 - k) False"
proof (rule nth_equalityI)
  fix i
  assume i: "i < length (bits8 (push_bit (8 - k) (of_nat n :: byte)))"
  show "bits8 (push_bit (8 - k) (of_nat n)) ! i = (nat_bits k n @ replicate (8 - k) False) ! i"
  proof (cases "i < k")
    case True
    then have "8 - k \<le> 7 - i" "7 - i - (8 - k) = k - Suc i" "7 - i < 8" "k - Suc i < 8" using assms by auto
    with True i assms show ?thesis by (simp add: nth_append nat_bits_def bit_push_bit_iff bit_of_nat_iff)
  next
    case False
    then have "\<not> 8 - k \<le> 7 - i" "i - k < 8 - k" using i by auto
    with False i assms show ?thesis by (simp add: nth_append bit_push_bit_iff)
  qed
qed (use assms in simp)

lemma bits8_of_nat: "bits8 (of_nat n) = nat_bits 8 n"
  using bits8_nat_bits [of 8 n] by simp

lemma nat_bits_split: "nat_bits (8 + j) n = bits8 (of_nat (drop_bit j n)) @ nat_bits j n"
  unfolding bits8_of_nat
proof (rule nth_equalityI)
  fix i
  assume i: "i < length (nat_bits (8 + j) n)"
  show "nat_bits (8 + j) n ! i = (nat_bits 8 (drop_bit j n) @ nat_bits j n) ! i"
  proof (cases "i < 8")
    case True
    then have "j + (7 - i) = 7 + j - i" by simp
    with True show ?thesis by (simp add: nat_bits_def nth_append bit_drop_bit_eq)
  next
    case False
    then have "7 + j - i = j - 1 - (i - 8)" by simp
    with False i show ?thesis by (simp add: nat_bits_def nth_append)
  qed
qed simp

lemma unshift: "k \<le> 8 \<Longrightarrow> unat (drop_bit (8 - k) (push_bit (8 - k) (of_nat n) :: byte)) = take_bit k n"
proof -
  assume k: "k \<le> 8"
  have "drop_bit (8 - k) (push_bit (8 - k) (of_nat n) :: byte) = take_bit k (of_nat n)"
    by (rule bit_word_eqI) (use k in \<open>auto simp: bit_drop_bit_eq bit_push_bit_iff bit_take_bit_iff\<close>)
  moreover have "unat (of_nat n :: byte) = take_bit 8 n" by (simp add: take_bit_eq_mod unat_of_nat)
  ultimately show ?thesis using k by (simp add: unsigned_take_bit_eq min_absorb1)
qed

lemma join_bits: "push_bit j (drop_bit j n) OR take_bit j n = n" for n :: nat
  by (rule bit_eqI) (auto simp: bit_simps)

text \<open>Of fewer than eight bits.\<close>

lemma emits_small: "k < 8 \<Longrightarrow> q < 8 \<Longrightarrow> emits (put_bits [push_bit (8 - k) (of_nat n)] k) al q (nat_bits k n)"
  using emits_put_bits [of k "[push_bit (8 - k) (of_nat n)]" q al] bits8_nat_bits [of k n] by simp

lemma gets_small:
  assumes "k < 8"
  shows "\<exists>y. gets (get_bits k) al q (nat_bits k n) y \<and> (0 < k \<longrightarrow> unat (drop_bit (8 - k) (y ! 0)) = take_bit k n)"
proof (cases "k = 0")
  case True
  then show ?thesis using gets_bits [of "[]" "[]" 0 al q] by auto
next
  case False
  then have "gets (get_bits k) al q (nat_bits k n) ([push_bit (8 - k) (of_nat n)] @ [0])"
    using assms bits8_nat_bits [of k n] by (intro gets_bits) simp_all
  with unshift [of k n] assms show ?thesis by (intro exI [of _ "[push_bit (8 - k) (of_nat n), 0]"]) simp
qed

text \<open>
  The loop that counts the bits a number below the range needs.  In the code it computes
  \<open>1 << minBitsNeeded\<close> with \<open>int\<close>; for ranges above \<open>2 ^ 31\<close>, which it is not meant for, that is undefined.
\<close>

function min_bits :: "int \<Rightarrow> nat \<Rightarrow> nat" where
  "min_bits tempRange minBitsNeeded =
     (if tempRange > 0 then min_bits (tempRange - 2 ^ minBitsNeeded) (minBitsNeeded + 1) else minBitsNeeded)"
  by auto
termination
  by (relation "measure (\<lambda>(t, _). nat t)") auto

declare min_bits.simps [simp del]

lemma min_bits_enough: "t \<le> 2 ^ min_bits t k - 2 ^ k \<and> k \<le> min_bits t k"
proof (induction t k rule: min_bits.induct)
  case (1 t k)
  then show ?case by (cases "t > 0") (simp_all add: min_bits.simps [of t])
qed

lemma min_bits_least: "0 < t \<Longrightarrow> 2 ^ (min_bits t k - 1) - 2 ^ k < t \<and> k < min_bits t k"
proof (induction t k rule: min_bits.induct)
  case (1 t k)
  show ?case
  proof (cases "t - 2 ^ k > 0")
    case True
    with 1 show ?thesis by (simp add: min_bits.simps [of t])
  next
    case False
    then have "min_bits (t - 2 ^ k) (k + 1) = k + 1" by (simp add: min_bits.simps)
    with 1(2) show ?thesis by (simp add: min_bits.simps [of t])
  qed
qed

lemma min_bits_range: "int n < 2 ^ min_bits t 0" if "int n \<le> t"
proof -
  have "t < 2 ^ min_bits t 0" using min_bits_enough [of t 0] by simp
  with that show ?thesis by linarith
qed

lemma min_bits_le:
  assumes "t < 2 ^ m"
  shows "min_bits t 0 \<le> m"
proof (cases "0 < t")
  case True
  from min_bits_least [OF this, of 0] have "(2 :: int) ^ (min_bits t 0 - 1) - 1 < t" by simp
  with assms have "(2 :: int) ^ (min_bits t 0 - 1) < 2 ^ m" by linarith
  then have "min_bits t 0 - 1 < m" by (simp add: power_strict_increasing_iff)
  then show ?thesis by simp
qed (simp add: min_bits.simps)

subsection \<open>OCTET STRING with a size constraint\<close>

record SizeConstraint =
  lowerBound :: "64 word"
  upperBound :: "64 word"
  upperBoundExists :: int

fun FindSizeConstraintBounds :: "SizeConstraint list \<Rightarrow> 32 word \<Rightarrow> 32 word \<Rightarrow> 32 word \<times> 32 word" where
  "FindSizeConstraintBounds [] iSCLowerBound iSCUpperBound = (iSCLowerBound, iSCUpperBound)"
| "FindSizeConstraintBounds (c # cs) iSCLowerBound iSCUpperBound =
     (let u1 = if ucast iSCUpperBound < lowerBound c then ucast (lowerBound c) else iSCUpperBound;
          u2 = if upperBoundExists c = 1 \<and> ucast u1 < upperBound c then ucast (upperBound c) else u1;
          l1 = if ucast iSCLowerBound > lowerBound c then ucast (lowerBound c) else iSCLowerBound
      in FindSizeConstraintBounds cs l1 u2)"

text \<open>The bounds that both codecs start with, and the range, which has the type \<open>int\<close>.\<close>

definition size_bounds :: "SizeConstraint list \<Rightarrow> 32 word \<times> 32 word" where
  "size_bounds cs = (let l = ucast (lowerBound (hd cs)) in FindSizeConstraintBounds cs l l)"

definition SizeRange :: "32 word \<times> 32 word \<Rightarrow> int" where
  "SizeRange lu = sint (snd lu - fst lu + 1)"

definition align_small_write :: "32 word \<Rightarrow> writer" where
  "align_small_write u b = (if sint u \<le> 2 \<and> bAlign b then align_write b else skip b)"

definition align_small_read :: "32 word \<Rightarrow> nat reader" where
  "align_small_read u b = (if sint u \<le> 2 \<and> bAlign b then align_read b else returnR 0 b)"

definition EncodeWithSizeConstraint :: "SizeConstraint list \<Rightarrow> byte list \<Rightarrow> writer" where
  "EncodeWithSizeConstraint cs m_str =
     (let (l, u) = size_bounds cs;
          minBitsNeeded = min_bits (SizeRange (l, u) - 1) 0;
          len = int (length m_str);
          bytes = minBitsNeeded div 8; bits = minBitsNeeded mod 8;
          size = len - sint l
      in if len < sint l \<or> len > sint u then (\<lambda>b. Inl RESTRICTED_TYPE_ERROR)
         else puts
           [if SizeRange (l, u) > 1
            then puts [align_small_write u,
                       if bytes > 0 then put_bits [of_int (drop_bit bits size)] 8 else skip,
                       put_bits [push_bit (8 - bits) (of_int size)] bits]
            else skip,
            if sint u > 0 then puts [align_small_write u, put_bits m_str (length m_str * 8)] else skip])"

text \<open>\<open>GetBits\<close> takes the number of bits as \<open>unsigned long\<close>.\<close>

definition DecodeWithSizeConstraint :: "SizeConstraint list \<Rightarrow> (byte list \<times> nat) reader" where
  "DecodeWithSizeConstraint cs =
     (let (l, u) = size_bounds cs;
          minBitsNeeded = min_bits (SizeRange (l, u) - 1) 0;
          bytes = minBitsNeeded div 8; bits = minBitsNeeded mod 8
      in bindR
           (if SizeRange (l, u) > 1 then
              bindR (align_small_read u) (\<lambda>k.
              bindR (if bytes > 0 then bindR (get_bits 8) (\<lambda>p. returnR (unat (p ! 0), 8)) else returnR (0, 0)) (\<lambda>(d, k1).
              bindR (get_bits bits) (\<lambda>p.
              returnR (if bits > 0 then push_bit bits d OR unat (drop_bit (8 - bits) (p ! 0)) else d, k + k1 + bits))))
            else returnR (0, 0)) (\<lambda>(d, n).
         let decodeSize = int d + sint l
         in if decodeSize > sint u then failR RESTRICTED_TYPE_ERROR
            else if sint u > 0 then
              bindR (align_small_read u) (\<lambda>k.
              bindR (get_bits (unat (of_int (decodeSize * 8) :: 64 word))) (\<lambda>seg.
              returnR (take (nat decodeSize) seg, n + k + nat (decodeSize * 8))))
            else returnR ([], n)))"

definition AsnOcts_PEnc :: "SizeConstraint list \<Rightarrow> byte list \<Rightarrow> writer" where
  "AsnOcts_PEnc cs m_str = (if cs = [] then EncodeGeneral m_str else EncodeWithSizeConstraint cs m_str)"

definition AsnOcts_PDec :: "SizeConstraint list \<Rightarrow> (byte list \<times> nat) reader" where
  "AsnOcts_PDec cs = (if cs = [] then DecodeGeneral else DecodeWithSizeConstraint cs)"

text \<open>A value for which the codec works: its size is within the bounds, and the range of sizes needs
  at most fifteen bits.\<close>

definition fits :: "SizeConstraint list \<Rightarrow> byte list \<Rightarrow> bool" where
  "fits cs s \<longleftrightarrow> (let (l, u) = size_bounds cs in
     0 \<le> sint l \<and> sint l \<le> int (length s) \<and> int (length s) \<le> sint u \<and> sint u - sint l < 2 ^ 15 \<and> length s < 2 ^ 32)"

definition small_pad :: "32 word \<Rightarrow> bool \<Rightarrow> nat \<Rightarrow> nat" where
  "small_pad u al q = (if sint u \<le> 2 then pad al q else 0)"

definition sized_bits :: "SizeConstraint list \<Rightarrow> bool \<Rightarrow> nat \<Rightarrow> byte list \<Rightarrow> bool list" where
  "sized_bits cs al q s =
     (let (l, u) = size_bounds cs;
          k = min_bits (sint u - sint l) 0;
          p = if l \<noteq> u then small_pad u al q else 0;
          num = replicate p False @ nat_bits k (length s - nat (sint l))
      in num @ (if 0 < sint u then replicate (small_pad u al ((q + length num) mod 8)) False else []) @ bits_of s)"

lemma emits_align_small: "q < 8 \<Longrightarrow> emits (align_small_write u) al q (replicate (small_pad u al q) False)"
proof -
  assume q: "q < 8"
  show ?thesis
  proof (cases "sint u \<le> 2 \<and> al")
    case True
    with emits_align [OF q, of al] show ?thesis unfolding emits_def align_small_write_def small_pad_def by simp
  next
    case False
    then have "small_pad u al q = 0" by (auto simp: small_pad_def pad_def)
    with False emits_skip [OF q, of al] show ?thesis unfolding emits_def align_small_write_def by auto
  qed
qed

lemma gets_align_small: "q < 8 \<Longrightarrow> gets (align_small_read u) al q (replicate (small_pad u al q) False) (small_pad u al q)"
proof -
  assume q: "q < 8"
  show ?thesis
  proof (cases "sint u \<le> 2 \<and> al")
    case True
    with gets_align [OF q, of al] show ?thesis unfolding gets_def align_small_read_def small_pad_def by simp
  next
    case False
    then have "small_pad u al q = 0" by (auto simp: small_pad_def pad_def)
    with False gets_returnR [OF q, of 0 al] show ?thesis unfolding gets_def align_small_read_def by auto
  qed
qed

text \<open>The number of bytes above the lowest, in up to fifteen bits.\<close>

lemma emits_number:
  assumes "k < 16" "q < 8"
  shows "emits (also_put (if k div 8 > 0 then put_bits [of_nat (drop_bit (k mod 8) n)] 8 else skip)
    (put_bits [push_bit (8 - k mod 8) (of_nat n)] (k mod 8))) al q (nat_bits k n)"
proof (cases "k < 8")
  case True
  then show ?thesis
    using emits_also_put [OF emits_skip [OF assms(2), of al] , of "put_bits [push_bit (8 - k) (of_nat n)] k" "nat_bits k n"]
      emits_small [OF True assms(2)] assms(2) by simp
next
  case False
  then have "k div 8 = 1" using assms(1) by simp
  with div_mult_mod_eq [of k 8] have k: "k div 8 = 1" "k = 8 + k mod 8" by linarith+
  have "emits (put_bits [of_nat (drop_bit (k mod 8) n)] 8) al q (bits_of [of_nat (drop_bit (k mod 8) n)])"
    by (rule emits_byte [OF assms(2)])
  from emits_also_put [OF this, of "put_bits [push_bit (8 - k mod 8) (of_nat n)] (k mod 8)" "nat_bits (k mod 8) n"]
    emits_small [of "k mod 8"] nat_bits_split [of "k mod 8" n] k assms(2) show ?thesis by simp
qed

lemma gets_number:
  assumes "k < 16" "q < 8" "n < 2 ^ k"
  shows "gets (bindR (if k div 8 > 0 then bindR (get_bits 8) (\<lambda>p. returnR (unat (p ! 0), 8)) else returnR (0, 0)) (\<lambda>(d, k1).
    bindR (get_bits (k mod 8)) (\<lambda>p.
    returnR (if k mod 8 > 0 then push_bit (k mod 8) d OR unat (drop_bit (8 - k mod 8) (p ! 0)) else d, j + k1 + k mod 8))))
    al q (nat_bits k n) (n, j + k)"
proof -
  have small: "gets (bindR (get_bits r) (\<lambda>p. returnR (if r > 0 then push_bit r d OR unat (drop_bit (8 - r) (p ! 0)) else d, i + r)))
      al q (nat_bits r n) (push_bit r d OR take_bit r n, i + r)" if "r < 8" for r d and i :: nat
  proof -
    from gets_small [OF that, of al q n] obtain y where
      y: "gets (get_bits r) al q (nat_bits r n) y" "0 < r \<longrightarrow> unat (drop_bit (8 - r) (y ! 0)) = take_bit r n" by blast
    have "gets (returnR (if r > 0 then push_bit r d OR unat (drop_bit (8 - r) (y ! 0)) else d, i + r)) al
        ((q + length (nat_bits r n)) mod 8) [] (push_bit r d OR take_bit r n, i + r)"
      using y(2) by (cases "r = 0") (simp_all add: gets_returnR)
    from gets_bindR [OF y(1), of "\<lambda>p. returnR (if r > 0 then push_bit r d OR unat (drop_bit (8 - r) (p ! 0)) else d, i + r)", OF this]
    show ?thesis by simp
  qed
  show ?thesis
  proof (cases "k < 8")
    case True
    then have "take_bit k n = n" using assms(3) by (simp add: take_bit_nat_eq_self)
    moreover have m: "k mod 8 = k" "k div 8 = 0" using True by simp_all
    ultimately show ?thesis unfolding m using small [OF True, of 0 j] by (simp add: bindR_returnR)
  next
    case False
    then have "k div 8 = 1" using assms(1) by simp
    with div_mult_mod_eq [of k 8] have k: "k div 8 = 1" "8 + k mod 8 = k" by linarith+
    let ?r = "k mod 8"
    have "n < 256 * 2 ^ ?r" using assms(3) k(2) power_add [of "2 :: nat" 8 ?r] by simp
    then have "drop_bit ?r n < 256" by (simp add: drop_bit_eq_div less_mult_imp_div_less)
    then have "unat (of_nat (drop_bit ?r n) :: byte) = drop_bit ?r n" by (simp add: unat_of_nat)
    then have "gets (bindR (get_bits 8) (\<lambda>p. returnR (unat (p ! 0), 8 :: nat))) al q
        (bits_of [of_nat (drop_bit ?r n)] @ []) (drop_bit ?r n, 8)"
      by (intro gets_then [OF gets_byte_of assms(2)]) (simp add: gets_returnR assms(2))
    then have "gets (bindR (get_bits 8) (\<lambda>p. returnR (unat (p ! 0), 8 :: nat))) al q
        (bits_of [of_nat (drop_bit ?r n)]) (drop_bit ?r n, 8)" by simp
    note * = gets_then [OF this assms(2), of "\<lambda>(d, k1). bindR (get_bits ?r) (\<lambda>p.
        returnR (if ?r > 0 then push_bit ?r d OR unat (drop_bit (8 - ?r) (p ! 0)) else d, j + k1 + ?r))"]
      small [of ?r "drop_bit ?r n" "j + 8"] nat_bits_split [of ?r n] k
    have "j + 8 + ?r = j + k" using k(2) by simp
    with * show ?thesis by (simp add: join_bits)
  qed
qed

lemma also_put_skip: "also_put f skip = f"
  by (rule ext) (simp add: also_put_def skip_def split: sum.split)

lemma sint_of_int_32: "sint (word_of_int x :: 32 word) = signed_take_bit 31 x"
  by (simp add: signed_of_int)

text \<open>What \<open>fits\<close> says of the number that is written.\<close>

lemma fits_number:
  assumes "fits cs s" "size_bounds cs = (l, u)"
  defines "k \<equiv> min_bits (SizeRange (l, u) - 1) 0" and "n \<equiv> length s - nat (sint l)"
  shows "int (length s) - sint l = int n" "SizeRange (l, u) - 1 = sint u - sint l" "k < 16" "n < 2 ^ k"
    "\<not> (int (length s) < sint l \<or> sint u < int (length s))" "int n + sint l = int (length s)"
    "SizeRange (l, u) > 1 \<longleftrightarrow> l \<noteq> u"
proof -
  have f: "0 \<le> sint l" "sint l \<le> int (length s)" "int (length s) \<le> sint u" "sint u - sint l < 2 ^ 15"
    using assms(1,2) by (simp_all add: fits_def)
  then show n: "int (length s) - sint l = int n" "int n + sint l = int (length s)" by (simp_all add: n_def)
  show "\<not> (int (length s) < sint l \<or> sint u < int (length s))" using f by simp
  have "u - l + 1 = word_of_int (sint u - sint l + 1)" by simp
  then have "sint (u - l + 1) = signed_take_bit 31 (sint u - sint l + 1)" by (simp only: sint_of_int_32)
  also have "\<dots> = sint u - sint l + 1" using f by (intro signed_take_bit_int_eq_self) simp_all
  finally show R: "SizeRange (l, u) - 1 = sint u - sint l" by (simp add: SizeRange_def)
  have "k \<le> 15" unfolding k_def R by (rule min_bits_le [OF f(4)])
  then show "k < 16" by simp
  show "n < 2 ^ k" unfolding k_def R using min_bits_range [of n "sint u - sint l"] n f by simp
  have "SizeRange (l, u) > 1 \<longleftrightarrow> sint l < sint u" using R by linarith
  also have "\<dots> \<longleftrightarrow> sint l \<noteq> sint u" using f by linarith
  also have "\<dots> \<longleftrightarrow> l \<noteq> u"
  proof -
    have w: "word_of_int (sint x) = x" for x :: "32 word" by simp
    show ?thesis by (metis w)
  qed
  finally show "SizeRange (l, u) > 1 \<longleftrightarrow> l \<noteq> u" .
qed

lemma emits_sized:
  assumes "fits cs s" "q < 8"
  shows "emits (EncodeWithSizeConstraint cs s) al q (sized_bits cs al q s)"
proof -
  obtain l u where b: "size_bounds cs = (l, u)" by (cases "size_bounds cs")
  let ?k = "min_bits (SizeRange (l, u) - 1) 0" and ?n = "length s - nat (sint l)"
  note N = fits_number [OF assms(1) b]
  define num where "num = replicate (if l \<noteq> u then small_pad u al q else 0) False @ nat_bits ?k ?n"
  let ?q = "(q + length num) mod 8"
  let ?w1 = "if SizeRange (l, u) > 1
            then puts [align_small_write u,
                       if ?k div 8 > 0 then put_bits [of_int (drop_bit (?k mod 8) (int (length s) - sint l))] 8 else skip,
                       put_bits [push_bit (8 - ?k mod 8) (of_int (int (length s) - sint l))] (?k mod 8)]
            else skip"
  let ?w2 = "if sint u > 0 then puts [align_small_write u, put_bits s (length s * 8)] else skip"
  have e: "EncodeWithSizeConstraint cs s = puts [?w1, ?w2]"
    unfolding EncodeWithSizeConstraint_def b using N(5) by (simp add: Let_def)
  have 1: "emits ?w1 al q num"
  proof (cases "l = u")
    case True
    then have "num = []" using N(2) by (simp add: num_def min_bits.simps)
    with True N(7) emits_skip assms(2) show ?thesis by simp
  next
    case False
    let ?p = "replicate (small_pad u al q) False"
    have q: "(q + length ?p) mod 8 < 8" by simp
    have "emits (puts [if ?k div 8 > 0 then put_bits [of_nat (drop_bit (?k mod 8) ?n)] 8 else skip,
        put_bits [push_bit (8 - ?k mod 8) (of_nat ?n)] (?k mod 8)]) al ((q + length ?p) mod 8) (nat_bits ?k ?n)"
      using emits_number [OF N(3) q, of ?n al] by (simp only: puts.simps also_put_skip)
    from emits_also_put [OF emits_align_small [OF assms(2)] this]
    have "emits (puts [align_small_write u, if ?k div 8 > 0 then put_bits [of_nat (drop_bit (?k mod 8) ?n)] 8 else skip,
        put_bits [push_bit (8 - ?k mod 8) (of_nat ?n)] (?k mod 8)]) al q num"
      using False by (simp only: puts.simps num_def if_True not_False_eq_True)
    moreover have "of_int (drop_bit (?k mod 8) (int (length s) - sint l)) = (of_nat (drop_bit (?k mod 8) ?n) :: byte)"
      "of_int (int (length s) - sint l) = (of_nat ?n :: byte)"
      unfolding N(1) by (simp_all only: drop_bit_of_nat of_int_of_nat_eq)
    ultimately show ?thesis using N(7) False by (simp only: if_True not_False_eq_True)
  qed
  have 2: "emits ?w2 al ?q ((if 0 < sint u then replicate (small_pad u al ?q) False else []) @ bits_of s)"
  proof (cases "0 < sint u")
    case True
    let ?r = "(?q + length (replicate (small_pad u al ?q) False)) mod 8"
    have "emits (put_bits s (length s * 8)) al ?r (bits_of s)" using emits_put_bytes [of ?r "length s" s al] by simp
    then have "emits (puts [put_bits s (length s * 8)]) al ?r (bits_of s)" by (simp add: also_put_skip)
    from emits_also_put [OF emits_align_small [of ?q u al] this] True show ?thesis by simp
  next
    case False
    then have "int (length s) \<le> 0" using N(5) by linarith
    then have "s = []" by simp
    with False show ?thesis by (simp add: emits_skip)
  qed
  from emits_also_put [OF 1 2] have "emits (puts [?w1, ?w2]) al q
      (num @ (if 0 < sint u then replicate (small_pad u al ?q) False else []) @ bits_of s)"
    by (simp only: puts.simps also_put_skip)
  moreover have "sized_bits cs al q s = num @ (if 0 < sint u then replicate (small_pad u al ?q) False else []) @ bits_of s"
    using N(2) by (simp add: sized_bits_def b num_def Let_def)
  ultimately show ?thesis unfolding e by (simp only:)
qed

lemma gets_sized:
  assumes "fits cs s" "q < 8"
  shows "gets (DecodeWithSizeConstraint cs) al q (sized_bits cs al q s) (s, length (sized_bits cs al q s))"
proof -
  obtain l u where b: "size_bounds cs = (l, u)" by (cases "size_bounds cs")
  let ?k = "min_bits (SizeRange (l, u) - 1) 0" and ?n = "length s - nat (sint l)"
  note N = fits_number [OF assms(1) b]
  have len: "length s < 2 ^ 32" using assms(1) by (simp add: fits_def b)
  define p where "p = (if l \<noteq> u then small_pad u al q else 0)"
  define num where "num = replicate p False @ nat_bits ?k ?n"
  let ?q = "(q + length num) mod 8"
  let ?r1 = "if SizeRange (l, u) > 1 then
      bindR (align_small_read u) (\<lambda>k.
      bindR (if ?k div 8 > 0 then bindR (get_bits 8) (\<lambda>p. returnR (unat (p ! 0), 8)) else returnR (0, 0)) (\<lambda>(d, k1).
      bindR (get_bits (?k mod 8)) (\<lambda>p.
      returnR (if ?k mod 8 > 0 then push_bit (?k mod 8) d OR unat (drop_bit (8 - ?k mod 8) (p ! 0)) else d, k + k1 + ?k mod 8))))
    else returnR (0, 0)"
  let ?r2 = "\<lambda>(d, n). let decodeSize = int d + sint l
         in if decodeSize > sint u then failR RESTRICTED_TYPE_ERROR
            else if sint u > 0 then
              bindR (align_small_read u) (\<lambda>k.
              bindR (get_bits (unat (of_int (decodeSize * 8) :: 64 word))) (\<lambda>seg.
              returnR (take (nat decodeSize) seg, n + k + nat (decodeSize * 8))))
            else returnR ([], n)"
  have e: "DecodeWithSizeConstraint cs = bindR ?r1 ?r2"
    by (simp add: DecodeWithSizeConstraint_def b Let_def)
  have 1: "gets ?r1 al q num (?n, length num)"
  proof (cases "l = u")
    case True
    then have "?k = 0" using N(2) by (simp add: min_bits.simps)
    with True N(4,7) gets_returnR [OF assms(2), of "(0, 0)" al] show ?thesis by (simp add: num_def p_def)
  next
    case False
    let ?p = "replicate (small_pad u al q) False"
    have q: "(q + length ?p) mod 8 < 8" by simp
    let ?g = "\<lambda>k. bindR (if ?k div 8 > 0 then bindR (get_bits 8) (\<lambda>p. returnR (unat (p ! 0), 8)) else returnR (0, 0)) (\<lambda>(d, k1).
      bindR (get_bits (?k mod 8)) (\<lambda>p.
      returnR (if ?k mod 8 > 0 then push_bit (?k mod 8) d OR unat (drop_bit (8 - ?k mod 8) (p ! 0)) else d, k + k1 + ?k mod 8)))"
    have "gets (?g (small_pad u al q)) al ((q + length ?p) mod 8) (nat_bits ?k ?n) (?n, small_pad u al q + ?k)"
      by (rule gets_number [OF N(3) q N(4)])
    from gets_bindR [OF gets_align_small [OF assms(2)], of ?g, OF this]
    have "gets (bindR (align_small_read u) ?g) al q (?p @ nat_bits ?k ?n) (?n, small_pad u al q + ?k)" .
    moreover have "num = ?p @ nat_bits ?k ?n" "length num = small_pad u al q + ?k" using False by (simp_all add: num_def p_def)
    ultimately show ?thesis using N(7) False by (simp only: if_True not_False_eq_True)
  qed
  have 2: "gets (?r2 (?n, length num)) al ?q ((if 0 < sint u then replicate (small_pad u al ?q) False else []) @ bits_of s)
      (s, length num + (if 0 < sint u then small_pad u al ?q else 0) + length s * 8)"
  proof (cases "0 < sint u")
    case True
    let ?z = "replicate (small_pad u al ?q) False"
    let ?r = "(?q + length ?z) mod 8"
    let ?c = "\<lambda>k. bindR (get_bits (length s * 8)) (\<lambda>seg. returnR (take (length s) seg, length num + k + length s * 8))"
    have g: "gets (get_bits (length s * 8)) al ?r (bits_of s) (s @ [0])"
      using gets_bytes [of s al ?r] by (simp only: mult.commute)
    have "gets (?c k) al ?r (bits_of s @ []) (s, length num + k + length s * 8)" for k
      by (rule gets_then [OF g]) (simp_all add: gets_returnR)
    then have "gets (?c (small_pad u al ?q)) al ?r (bits_of s) (s, length num + small_pad u al ?q + length s * 8)" by simp
    with gets_bindR [OF gets_align_small [of ?q u al], of ?c]
    have "gets (bindR (align_small_read u) ?c) al ?q (?z @ bits_of s) (s, length num + small_pad u al ?q + length s * 8)" by simp
    moreover have "(word_of_int (int (length s) * 8) :: 64 word) = of_nat (length s * 8)" by simp
    moreover have "unat (of_nat (length s * 8) :: 64 word) = length s * 8" unfolding unat_of_nat using len by simp
    moreover have "nat (int (length s) * 8) = length s * 8" by simp
    ultimately show ?thesis using True N(5) by (simp only: N(6) Let_def prod.case if_True if_False not_less, simp)
  next
    case False
    then have "int (length s) \<le> 0" using N(5) by linarith
    then have "s = []" by simp
    with False N(5,6) show ?thesis by (simp add: Let_def gets_returnR)
  qed
  have "gets (DecodeWithSizeConstraint cs) al q
      (num @ (if 0 < sint u then replicate (small_pad u al ?q) False else []) @ bits_of s)
      (s, length num + (if 0 < sint u then small_pad u al ?q else 0) + length s * 8)"
    unfolding e using gets_bindR [OF 1, of ?r2, OF 2] by assumption
  moreover have "sized_bits cs al q s = num @ (if 0 < sint u then replicate (small_pad u al ?q) False else []) @ bits_of s"
    using N(2) by (simp add: sized_bits_def b num_def p_def Let_def)
  ultimately show ?thesis by (cases "0 < sint u") (simp_all add: algebra_simps)
qed

interpretation per_sized: per_item "EncodeWithSizeConstraint cs" "DecodeWithSizeConstraint cs" "sized_bits cs" "fits cs" for cs
  by unfold_locales (simp_all add: emits_sized gets_sized)

text \<open>Both forms.\<close>

definition octs_bits :: "SizeConstraint list \<Rightarrow> bool \<Rightarrow> nat \<Rightarrow> byte list \<Rightarrow> bool list" where
  "octs_bits cs al q s = (if cs = [] then general_bits al q s else sized_bits cs al q s)"

interpretation asn_octs: per_item "AsnOcts_PEnc cs" "AsnOcts_PDec cs" "octs_bits cs" "\<lambda>s. cs = [] \<or> fits cs s" for cs
  by unfold_locales
    (auto simp: AsnOcts_PEnc_def AsnOcts_PDec_def octs_bits_def per_octs.enc_emits per_octs.dc_gets emits_sized gets_sized)

subsection \<open>Sizes for which the codec does not work\<close>

text \<open>Without an upper bound the size must be the greatest lower bound: \<open>SIZE (1..MAX)\<close> refuses two
  octets.\<close>

lemma open_size_refused:
  assumes "cs = [\<lparr>lowerBound = 1, upperBound = m, upperBoundExists = 0\<rparr>]" "1 < length s"
  shows "AsnOcts_PEnc cs s b = Inl RESTRICTED_TYPE_ERROR"
  using assms by (simp add: AsnOcts_PEnc_def EncodeWithSizeConstraint_def size_bounds_def Let_def)

text \<open>With a range of sixteen bits only the last eight of the size are written.\<close>

lemma wide_size_lost:
  assumes "size_bounds cs = (0, 65535)" "length s \<le> 65535"
  shows "EncodeWithSizeConstraint cs s =
    puts [puts [skip, put_bits [of_nat (length s)] 8, put_bits [0] 0], puts [skip, put_bits s (length s * 8)]]"
proof -
  have k: "min_bits 65535 0 = 16" by code_simp
  have a: "align_small_write 65535 = skip" by (rule ext) (simp add: align_small_write_def)
  show ?thesis
    using assms by (simp add: EncodeWithSizeConstraint_def k a Let_def SizeRange_def)
qed

end
