(* ===== verification/Per_Int.thy ===== *)
theory Per_Int
  imports Cpp_Int Per_Constr
begin

section \<open>PER of INTEGER (\<open>AsnInt::PEnc\<close> and \<open>PDec\<close>)\<close>

text \<open>
  An INTEGER with value ranges: without any, its octets with a length; with bounds on both sides, the
  distance from the lower bound in as few bits as the range needs; with a lower bound only, the octets
  of the distance.  Bounds are \<open>long\<close> in the ranges and \<open>int\<close> in the codec.  Ranges wider than
  \<open>2 ^ 31\<close> are outside the theorems, for the code computes distances with \<open>int\<close>.
\<close>

subsection \<open>Bounds\<close>

record ValueRange =
  vrLower :: "64 word"
  vrUpper :: "64 word"
  vrUpperExists :: int

fun range_loop :: "ValueRange list \<Rightarrow> 32 word \<Rightarrow> 32 word \<Rightarrow> int \<Rightarrow> 32 word \<times> 32 word \<times> int" where
  "range_loop [] l u f = (l, u, f)"
| "range_loop (r # rs) l u f =
     (let l1 = if sint l > sint (vrLower r) then ucast (vrLower r) else l;
          u1 = if sint u < sint (vrLower r) then ucast (vrLower r) else u
      in if vrUpperExists r = 1
         then range_loop rs l1 (if sint u1 < sint (vrUpper r) then ucast (vrUpper r) else u1) 1
         else range_loop rs l1 u1 f)"

definition value_bounds :: "ValueRange list \<Rightarrow> 32 word \<times> 32 word \<times> int" where
  "value_bounds rs =
     (let l = ucast (vrLower (hd rs));
          (l, u, f) = range_loop rs l l (vrUpperExists (hd rs))
      in (l, u, if sint u > sint l then 1 else f))"

definition in_range :: "32 word \<Rightarrow> ValueRange \<Rightarrow> bool" where
  "in_range v r =
     (if vrUpperExists r = 1 then \<not> (sint v < sint (vrLower r) \<or> sint v > sint (vrUpper r))
      else if vrUpperExists r = 2 then sint v = sint (vrLower r)
      else if vrUpperExists r = 0 then \<not> sint v < sint (vrLower r)
      else True)"

text \<open>\<open>None\<close>: the exception; otherwise whether the check fails.\<close>

definition checkConstraints :: "ValueRange list \<Rightarrow> byte list \<Rightarrow> bool option" where
  "checkConstraints rs m_bytes =
     (if length m_bytes > 4 \<and> rs \<noteq> [] then None
      else if rs \<noteq> [] then
        (case TryGetInt m_bytes of None \<Rightarrow> None | Some v \<Rightarrow> Some (\<not> list_ex (in_range v) rs))
      else Some False)"

subsection \<open>Encoders\<close>

definition strip_zero :: "byte list \<Rightarrow> byte list" where
  "strip_zero bs = (case bs of x # y # ys \<Rightarrow> if x = 0 then y # ys else bs | _ \<Rightarrow> bs)"

text \<open>\<open>minBitsNeeded\<close> bits of which the last ones are those of the octets.\<close>

definition put_offset :: "nat \<Rightarrow> byte list \<Rightarrow> writer" where
  "put_offset minBitsNeeded t =
     (let m = length t * 8;
          k = if minBitsNeeded > m then m else minBitsNeeded;
          oddBits = k mod 8
      in puts
        [if minBitsNeeded > m then put_bits [0, 0, 0, 0] (minBitsNeeded - m) else skip,
         if oddBits = 0 then put_bits t m
         else puts [put_bits [push_bit (8 - oddBits) (hd t)] oddBits,
                    if length t > 1 then put_bits (tl t) ((length t - 1) * 8) else skip]])"

text \<open>The length, in a number of bits that is two to four for ranges of the code, and the octets.\<close>

definition length_bits :: "nat \<Rightarrow> nat" where
  "length_bits minBitsNeeded =
     (let k = minBitsNeeded div 8; k = (if k mod 8 \<noteq> 0 then k + 1 else k) in k - 1)"

definition put_long :: "nat \<Rightarrow> byte list \<Rightarrow> writer" where
  "put_long minBitsNeeded t =
     (let k = length_bits minBitsNeeded;
          t2 = strip_zero (the (SetInt (of_nat (length t - 1))));
          k' = if k > length t * 8 then length t2 * 8 else k;
          oddBits = k' mod 8
      in puts
        [if k > length t * 8 then put_bits [0, 0, 0, 0] (k - length t2 * 8) else skip,
         if oddBits = 0 then put_bits t2 (length t2 * 8)
         else puts [put_bits [push_bit (8 - oddBits) (hd t2)] oddBits,
                    if length t2 > 1 then put_bits (tl t2) ((length t2 - 1) * 8) else skip],
         put_bits t (length t * 8)])"

definition PEncFullyConstrained :: "int \<Rightarrow> int \<Rightarrow> byte list \<Rightarrow> writer" where
  "PEncFullyConstrained lowerB upperB m_bytes =
     (case TryGetInt m_bytes of
        None \<Rightarrow> (\<lambda>b. Inl INTEGER_ERROR)
      | Some tempval \<Rightarrow>
          if sint tempval < lowerB \<or> sint tempval > upperB then (\<lambda>b. Inl INTEGER_ERROR)
          else
            (let range = upperB - lowerB + 1;
                 t = strip_zero (the (SetInt (of_int (sint tempval - lowerB))));
                 k = min_bits (range - 1) 0
             in if length t > 4 then (\<lambda>b. Inl INTEGER_ERROR)
                else if range = 1 then skip
                else (\<lambda>b.
                  if bAlign b then
                    (if range \<le> 255 then put_bits [push_bit (8 - k) (hd t)] k
                     else if range = 256 then puts [align_write, put_bits [hd t] 8]
                     else if range < 65536 then
                       puts [align_write, if length t < 2 then put_bits [0] 8 else skip, put_bits t (length t * 8)]
                     else put_long k t) b
                  else put_offset k t b)))"

definition PEncSemiConstrained :: "int \<Rightarrow> byte list \<Rightarrow> writer" where
  "PEncSemiConstrained lowerB m_bytes =
     (case TryGetInt m_bytes of
        None \<Rightarrow> (\<lambda>b. Inl INTEGER_ERROR)
      | Some tempval \<Rightarrow>
          (let t = strip_zero (the (SetInt (of_int (sint tempval - lowerB))))
           in if length t > 4 then (\<lambda>b. Inl INTEGER_ERROR) else PERGeneral_Encode t))"

definition AsnInt_PEnc :: "ValueRange list \<Rightarrow> byte list \<Rightarrow> writer" where
  "AsnInt_PEnc rs m_bytes =
     (if checkConstraints rs m_bytes \<noteq> Some False then (\<lambda>b. Inl ConstraintException)
      else if rs = [] then PERGeneral_Encode m_bytes
      else
        (let (l, u, f) = value_bounds rs
         in if f = 1 then (if l \<noteq> u then PEncFullyConstrained (sint l) (sint u) m_bytes else skip)
            else if length rs = 1 \<and> vrUpperExists (hd rs) = 2 then
              (if TryGetInt m_bytes \<noteq> Some l then (\<lambda>b. Inl INTEGER_ERROR) else skip)
            else PEncSemiConstrained (sint l) m_bytes))"

subsection \<open>Decoders\<close>

definition join :: "byte list \<Rightarrow> nat" where
  "join bs = foldl (\<lambda>r b. push_bit 8 r OR unat b) 0 bs"

text \<open>The loop that moves the bits of an array to its end; it goes from the last byte to the first, so
  that the byte before is still as it was.\<close>

fun shift_right :: "nat \<Rightarrow> byte \<Rightarrow> byte list \<Rightarrow> byte list" where
  "shift_right oddBits p [] = []"
| "shift_right oddBits p (x # xs) = (drop_bit (8 - oddBits) x OR push_bit oddBits p) # shift_right oddBits x xs"

definition get_offset :: "nat \<Rightarrow> (nat \<times> nat) reader" where
  "get_offset minBitsNeeded =
     bindR (get_bits minBitsNeeded) (\<lambda>seg.
       let numBytes = minBitsNeeded div 8; oddBits = minBitsNeeded mod 8
       in returnR (if oddBits = 0 then join (take numBytes seg)
                   else join (shift_right oddBits 0 (take (numBytes + 1) seg)), minBitsNeeded))"

definition get_long :: "nat \<Rightarrow> (nat \<times> nat) reader" where
  "get_long minBitsNeeded =
     (let k = length_bits minBitsNeeded
      in bindR (get_bits k) (\<lambda>seg.
           let numBytes = unat (drop_bit (8 - k mod 8) (seg ! 0)) + 1
           in if numBytes > 4 then failR INTEGER_ERROR
              else bindR (get_bits (numBytes * 8)) (\<lambda>seg. returnR (join (take numBytes seg), k + numBytes * 8))))"

definition PDecFullyConstrained :: "int \<Rightarrow> int \<Rightarrow> (byte list \<times> nat) reader" where
  "PDecFullyConstrained lowerB upperB =
     (let range = upperB - lowerB + 1;
          k = min_bits (range - 1) 0
      in bindR
           (if range = 1 then returnR (0, 0)
            else (\<lambda>b.
              if bAlign b then
                (if range \<le> 255 then
                   bindR (get_bits k) (\<lambda>seg. returnR (unat (drop_bit (8 - k) (seg ! 0)), k))
                 else if range = 256 then
                   bindR align_read (\<lambda>j. bindR (get_bits 8) (\<lambda>seg. returnR (unat (seg ! 0), j + 8)))
                 else if range < 65536 then
                   bindR align_read (\<lambda>j. bindR (get_bits 16) (\<lambda>seg.
                     returnR (push_bit 8 (unat (seg ! 0)) OR unat (seg ! 1), j + 16)))
                 else get_long k) b
              else get_offset k b))
           (\<lambda>(l_intval, n). returnR (the (SetInt (of_int (int l_intval + lowerB))), n)))"

definition PDecSemiConstrained :: "int \<Rightarrow> (byte list \<times> nat) reader" where
  "PDecSemiConstrained lowerB =
     bindR (get_bits 8) (\<lambda>seg.
       let m_len = unat (seg ! 0)
       in if m_len > 4 then failR INTEGER_ERROR
          else bindR (get_bits (m_len * 8)) (\<lambda>seg.
            case storeDERInteger (take m_len seg) True of
              None \<Rightarrow> failR INTEGER_ERROR
            | Some bs \<Rightarrow>
                (case TryGetInt bs of
                   None \<Rightarrow> failR INTEGER_ERROR
                 | Some v \<Rightarrow> returnR (the (SetInt (of_int (sint v + lowerB))), 8 + m_len * 8))))"

definition AsnInt_PDec :: "ValueRange list \<Rightarrow> (byte list \<times> nat) reader" where
  "AsnInt_PDec rs =
     (if rs = [] then PERGeneral_Decode
      else
        (let (l, u, f) = value_bounds rs
         in if f = 1 then (if l \<noteq> u then PDecFullyConstrained (sint l) (sint u) else returnR ([], 0))
            else if length rs = 1 \<and> vrUpperExists (hd rs) = 2 then returnR (the (SetInt l), 0)
            else PDecSemiConstrained (sint l)))"

subsection \<open>Octets and bits of a number\<close>

lemma nat_bits_add: "nat_bits (i + j) n = nat_bits i (drop_bit j n) @ nat_bits j n"
proof (rule nth_equalityI)
  fix p
  assume p: "p < length (nat_bits (i + j) n)"
  show "nat_bits (i + j) n ! p = (nat_bits i (drop_bit j n) @ nat_bits j n) ! p"
  proof (cases "p < i")
    case True
    then have "j + (i - Suc p) = i + j - Suc p" by simp
    with True show ?thesis by (simp add: nat_bits_def nth_append bit_drop_bit_eq)
  next
    case False
    then have "i + j - Suc p = j - Suc (p - i)" "p - i < j" using p by auto
    with False p show ?thesis by (simp add: nat_bits_def nth_append)
  qed
qed simp

lemma nat_bits_mod: "nat_bits j (n + c * 2 ^ j) = nat_bits j n"
proof (rule nth_equalityI)
  fix i
  assume "i < length (nat_bits j (n + c * 2 ^ j))"
  then have "bit (take_bit j (n + c * 2 ^ j)) (j - 1 - i) = bit (take_bit j n) (j - 1 - i)"
    by (simp add: take_bit_eq_mod)
  then show "nat_bits j (n + c * 2 ^ j) ! i = nat_bits j n ! i"
    using \<open>i < _\<close> by (simp add: nat_bits_def bit_take_bit_iff)
qed simp

lemma nat_bits_zero: "nat_bits k 0 = replicate k False"
  by (rule nth_equalityI) (simp_all add: nat_bits_def)

lemma nat_bits_leading: "n < 2 ^ j \<Longrightarrow> nat_bits (i + j) n = replicate i False @ nat_bits j n"
  by (simp add: nat_bits_add drop_bit_eq_div nat_bits_zero)

lemma nat_bits_trailing: "nat_bits (k + e) (push_bit e n) = nat_bits k n @ replicate e False"
proof -
  have "nat_bits e (push_bit e n) = replicate e False"
    using nat_bits_mod [of e 0 n] by (simp add: push_bit_eq_mult nat_bits_zero)
  then show ?thesis by (simp add: nat_bits_add drop_bit_push_bit)
qed

lemma bits_of_be_val: "bits_of xs = nat_bits (8 * length xs) (be_val xs)"
proof (induction xs)
  case (Cons x xs)
  let ?j = "8 * length xs"
  have K: "(256 :: nat) ^ length xs = 2 ^ ?j" by (simp add: power_mult)
  have v: "be_val (x # xs) = be_val xs + unat x * 2 ^ ?j" by (simp add: K)
  have "be_val xs < 2 ^ ?j" using be_val_bound [of xs] by (simp only: K)
  then have "drop_bit ?j (be_val (x # xs)) = unat x" unfolding v by (simp add: drop_bit_eq_div)
  moreover have "bits8 x = nat_bits 8 (unat x)" using bits8_of_nat [of "unat x"] by simp
  moreover have "nat_bits ?j (be_val (x # xs)) = nat_bits ?j (be_val xs)" unfolding v by (rule nat_bits_mod)
  ultimately show ?case using nat_bits_add [of 8 ?j "be_val (x # xs)"] Cons by simp
qed simp

fun nbytes :: "nat \<Rightarrow> nat \<Rightarrow> byte list" where
  "nbytes 0 n = []"
| "nbytes (Suc m) n = of_nat (n div 256 ^ m) # nbytes m n"

lemma length_nbytes [simp]: "length (nbytes m n) = m"
  by (induction m) simp_all

lemma be_val_nbytes: "be_val (nbytes m n) = n mod 256 ^ m"
proof (induction m)
  case (Suc m)
  have "n mod (256 ^ m * 256) = 256 ^ m * (n div 256 ^ m mod 256) + n mod 256 ^ m" by (rule mod_mult2_eq)
  with Suc show ?case by (simp add: unat_of_nat mult.commute)
qed simp

lemma bits_of_nbytes: "n < 256 ^ m \<Longrightarrow> bits_of (nbytes m n) = nat_bits (8 * m) n"
  using bits_of_be_val [of "nbytes m n"] by (simp add: be_val_nbytes)

lemma join_be_val: "join bs = be_val bs"
proof -
  have step: "push_bit 8 r OR unat (b :: byte) = r * 256 + unat b" for r :: nat and b
  proof -
    have "unat b < 256" using unsigned_less [of b, where ?'a = nat] by simp
    then have "drop_bit 8 (r * 256 + unat b) = r" "take_bit 8 (r * 256 + unat b) = unat b"
      by (simp_all add: drop_bit_eq_div take_bit_eq_mod)
    then show ?thesis using join_bits [of 8 "r * 256 + unat b"] by simp
  qed
  have "foldl (\<lambda>r b. push_bit 8 r OR unat b) r bs = r * 256 ^ length bs + be_val bs" for r
    by (induction bs arbitrary: r) (simp_all add: step algebra_simps)
  then show ?thesis by (simp add: join_def)
qed

lemma length_shift_right [simp]: "length (shift_right r p xs) = length xs"
  by (induction xs arbitrary: p) simp_all

lemma be_val_shift_right:
  assumes "0 < r" "r < 8"
  shows "be_val (shift_right r p xs) = ((unat p mod 2 ^ (8 - r)) * 256 ^ length xs + be_val xs) div 2 ^ (8 - r)"
proof (induction xs arbitrary: p)
  case Nil
  then show ?case by simp
next
  case (Cons x xs)
  let ?E = "2 ^ (8 - r) :: nat" and ?K = "256 ^ length xs :: nat"
  have E: "2 ^ r * ?E = 256" using assms by (simp flip: power_add)
  have b: "unat x < 256" using unsigned_less [of x, where ?'a = nat] by simp
  have h: "unat (drop_bit (8 - r) x OR push_bit r p) = unat p mod ?E * 2 ^ r + unat x div ?E"
  proof -
    have "unat (push_bit r p) = push_bit r (take_bit (8 - r) (unat p))"
      using assms by (simp add: unsigned_push_bit_eq take_bit_push_bit)
    then have "unat (push_bit r p) = push_bit r (unat p mod ?E)" by (simp only: take_bit_eq_mod)
    moreover have "unat (drop_bit (8 - r) x) = unat x div ?E"
      unfolding unat_drop_bit_eq by (rule drop_bit_eq_div)
    ultimately have "unat (drop_bit (8 - r) x OR push_bit r p) = push_bit r (unat p mod ?E) OR unat x div ?E"
      by (simp only: unsigned_or_eq or.commute)
    also have "\<dots> = unat p mod ?E * 2 ^ r + unat x div ?E"
    proof -
      let ?n = "unat p mod ?E * 2 ^ r + unat x div ?E"
      have "unat x div ?E < 2 ^ r" using b E by (simp add: less_mult_imp_div_less)
      then have "drop_bit r ?n = unat p mod ?E" "take_bit r ?n = unat x div ?E"
        by (simp_all add: drop_bit_eq_div take_bit_eq_mod)
      then show ?thesis using join_bits [of r ?n] by simp
    qed
    finally show ?thesis .
  qed
  have "(unat p mod ?E * 256 ^ length (x # xs) + be_val (x # xs)) div ?E
      = (?E * ((unat p mod ?E * 2 ^ r + unat x div ?E) * ?K) + (unat x mod ?E * ?K + be_val xs)) div ?E"
  proof -
    have "unat p mod ?E * (256 * ?K) = ?E * (unat p mod ?E * 2 ^ r * ?K)" unfolding E [symmetric] by simp
    moreover have "unat x * ?K = (unat x div ?E * ?E + unat x mod ?E) * ?K" by (simp only: div_mult_mod_eq)
    then have "unat x * ?K = ?E * (unat x div ?E * ?K) + unat x mod ?E * ?K" by (simp only: algebra_simps)
    ultimately have "unat p mod ?E * 256 ^ length (x # xs) + be_val (x # xs)
        = ?E * ((unat p mod ?E * 2 ^ r + unat x div ?E) * ?K) + (unat x mod ?E * ?K + be_val xs)"
      by (simp add: algebra_simps)
    then show ?thesis by (rule arg_cong)
  qed
  also have "\<dots> = (unat p mod ?E * 2 ^ r + unat x div ?E) * ?K + (unat x mod ?E * ?K + be_val xs) div ?E"
    by simp
  also have "\<dots> = be_val (shift_right r p (x # xs))" using Cons by (simp add: h)
  finally show ?case by (rule sym)
qed

subsection \<open>The distance from the lower bound\<close>

text \<open>Its octets, without the zero that a positive number may start with.\<close>

definition offset_bytes :: "nat \<Rightarrow> byte list \<Rightarrow> bool" where
  "offset_bytes n t \<longleftrightarrow> be_val t = n \<and> t \<noteq> [] \<and> length t \<le> 4 \<and> (length t > 1 \<longrightarrow> 256 ^ (length t - 1) \<le> n)"

lemma offset_bytesD:
  assumes "offset_bytes n t"
  shows "be_val t = n" "t \<noteq> []" "length t \<le> 4" "bits_of t = nat_bits (8 * length t) n" "n < 256 ^ length t"
  using assms bits_of_be_val [of t] be_val_bound [of t] by (auto simp: offset_bytes_def)

lemma offset_bytes_strip:
  assumes "0 \<le> sint d"
  shows "offset_bytes (nat (sint d)) (strip_zero (int_bytes d))"
proof -
  have m: "minimal (int_bytes d)" by (rule minimal_int_bytes)
  define n where "n = nat (sint d)"
  have "int (be_val (int_bytes d)) = sint d" using twos_nonneg [of "int_bytes d"] twos_int_bytes [of d] assms by simp
  then have v: "be_val (int_bytes d) = n" unfolding n_def by (metis nat_int)
  have l: "length (int_bytes d) \<le> 4" using length_int_bytes [of d] by simp
  have big: "256 ^ length ys \<le> be_val (x # ys)" if "x \<noteq> 0" for x :: byte and ys
  proof -
    have "1 \<le> unat x" using that by (simp add: unat_gt_0 Suc_leI)
    then have "1 * 256 ^ length ys \<le> unat x * 256 ^ length ys" by (rule mult_le_mono1)
    also have "\<dots> \<le> be_val (x # ys)" by simp
    finally show ?thesis by simp
  qed
  have "offset_bytes n (strip_zero (int_bytes d))"
  proof -
    consider (more) x y ys where "int_bytes d = x # y # ys" | (none) "int_bytes d = []" | (one) x where "int_bytes d = [x]"
      by (cases "int_bytes d" rule: drop_zeros.cases) auto
    then show ?thesis
  proof cases
    case (more x y ys)
    show ?thesis
    proof (cases "x = 0")
      case True
      then have "y \<noteq> 0" using m more unfolding minimal_def by auto
      with big [of y ys] True more v l show ?thesis by (auto simp: offset_bytes_def strip_zero_def)
    next
      case False
      with big [of x "y # ys"] more v l show ?thesis by (auto simp: offset_bytes_def strip_zero_def)
    qed
  next
    case none
    with m show ?thesis by (simp add: minimal_def)
  next
    case (one x)
    with v l show ?thesis by (auto simp: offset_bytes_def strip_zero_def)
  qed
  qed
  then show ?thesis by (simp only: n_def)
qed

lemma skip_also_put: "also_put skip f = f"
  by (rule ext) (simp add: also_put_def skip_def split: sum.split)

text \<open>\<open>k\<close> bits hold the distance; they end with its octets, or in the first of them.\<close>

lemma emits_put_offset:
  assumes "offset_bytes n t" "n < 2 ^ k" "0 < k" "k \<le> 32" "q < 8"
  shows "emits (put_offset k t) al q (nat_bits k n)"
proof -
  let ?m = "length t * 8"
  note T = offset_bytesD [OF assms(1)]
  have K: "(256 :: nat) ^ j = 2 ^ (8 * j)" for j by (simp add: power_mult)
  have bits: "emits (put_bits t ?m) al r (nat_bits (8 * length t) n)" if "r < 8" for r
    using emits_put_bytes [OF that, of "length t" t al] T(4) by simp
  consider "k > ?m" | "k = ?m" | "k < ?m" by linarith
  then show ?thesis
  proof cases
    case 1
    have z: "take (k - ?m) (bits_of [0, 0, 0, 0]) = replicate (k - ?m) False"
    proof -
      have "bits_of [0, 0, 0, 0] = replicate 32 False" by (simp add: numeral_eq_Suc)
      with assms(4) show ?thesis by simp
    qed
    have "emits (put_bits [0, 0, 0, 0] (k - ?m)) al q (replicate (k - ?m) False)"
      using emits_put_bits [of "k - ?m" "[0, 0, 0, 0]" q al] assms(4,5) unfolding z by simp
    from emits_also_put [OF this bits]
    have "emits (also_put (put_bits [0, 0, 0, 0] (k - ?m)) (put_bits t ?m)) al q
        (replicate (k - ?m) False @ nat_bits (8 * length t) n)" by simp
    moreover have "nat_bits k n = replicate (k - ?m) False @ nat_bits (8 * length t) n"
      using nat_bits_leading [of n "8 * length t" "k - ?m"] T(5) 1 by (simp add: K mult.commute)
    ultimately show ?thesis using 1 by (simp add: put_offset_def Let_def also_put_skip)
  next
    case 2
    with bits [OF assms(5)] show ?thesis
      using emits_also_put [OF emits_skip [OF assms(5)], of "put_bits t ?m"] assms(5)
      by (simp add: put_offset_def Let_def also_put_skip mult.commute)
  next
    case 3
    obtain x xs where t: "t = x # xs" using T(2) by (cases t) auto
    let ?j = "8 * length xs" and ?o = "k mod 8"
    have "?j < k"
    proof (cases "xs = []")
      case False
      then have "256 ^ length xs \<le> n" using assms(1) t by (simp add: offset_bytes_def)
      then have "(2 :: nat) ^ ?j < 2 ^ k" using assms(2) unfolding K by linarith
      then show ?thesis by (simp add: power_strict_increasing_iff)
    qed (use assms(3) in simp)
    moreover have "k < ?j + 8" using 3 t by simp
    moreover have "?o = (k - ?j) mod 8" using \<open>?j < k\<close> mod_add_right_eq [of "k - ?j" ?j 8] by simp
    ultimately have k: "?o = k - ?j" "0 < ?o" "?o < 8" "k = ?o + ?j" by simp_all
    have x: "drop_bit ?j n = unat x"
    proof -
      have "n = unat x * 2 ^ ?j + be_val xs" "be_val xs < 2 ^ ?j"
        using T(1) t be_val_bound [of xs] by (simp_all add: K)
      then show ?thesis by (simp add: drop_bit_eq_div)
    qed
    have xs: "nat_bits ?j n = bits_of xs"
    proof -
      have "n = be_val xs + unat x * 2 ^ ?j" using T(1) t by (simp add: K)
      then show ?thesis using bits_of_be_val [of xs] nat_bits_mod [of ?j "be_val xs" "unat x"] by simp
    qed
    have 1: "emits (put_bits [push_bit (8 - ?o) x] ?o) al q (nat_bits ?o (unat x))"
      using emits_small [OF k(3) assms(5), of "unat x" al] by simp
    have 2: "emits (if xs \<noteq> [] then put_bits xs (length xs * 8) else skip) al ((q + ?o) mod 8) (bits_of xs)"
      using emits_put_bytes [of "(q + ?o) mod 8" "length xs" xs al] by (simp add: emits_skip)
    have "nat_bits k n = nat_bits ?o (unat x) @ bits_of xs"
      using nat_bits_add [of ?o ?j n] k(4) unfolding x xs by metis
    moreover have "emits (also_put (put_bits [push_bit (8 - ?o) x] ?o) (if xs \<noteq> [] then put_bits xs (length xs * 8) else skip)) al q
        (nat_bits ?o (unat x) @ bits_of xs)"
      using emits_also_put [OF 1] 2 by simp
    moreover have "put_offset k t =
        also_put (put_bits [push_bit (8 - ?o) x] ?o) (if xs \<noteq> [] then put_bits xs (length xs * 8) else skip)"
    proof -
      have "\<not> k > ?m" "?o \<noteq> 0" "hd t = x" "tl t = xs" "length t - 1 = length xs" "length t > 1 \<longleftrightarrow> xs \<noteq> []"
        using 3 k(2) t by simp_all
      then show ?thesis by (simp only: put_offset_def Let_def if_False puts.simps also_put_skip skip_also_put)
    qed
    ultimately show ?thesis by (simp only:)
  qed
qed

subsection \<open>Both bounds\<close>

definition octets :: "nat \<Rightarrow> nat" where
  "octets n = length (strip_zero (int_bytes (of_nat n)))"

definition constr_bits :: "int \<Rightarrow> int \<Rightarrow> bool \<Rightarrow> nat \<Rightarrow> byte list \<Rightarrow> bool list" where
  "constr_bits l u al q bs =
     (let n = nat (twos bs - l); range = u - l + 1; k = min_bits (range - 1) 0; p = replicate (pad al q) False
      in if \<not> al \<or> range \<le> 255 then nat_bits k n
         else if range = 256 then p @ nat_bits 8 n
         else if range < 65536 then p @ nat_bits 16 n
         else nat_bits (k div 8) (octets n - 1) @ nat_bits (8 * octets n) n)"

definition int_ok :: "int \<Rightarrow> int \<Rightarrow> byte list \<Rightarrow> bool" where
  "int_ok l u bs \<longleftrightarrow>
     l < u \<and> u - l < 2 ^ 31 \<and> - (2 ^ 31) \<le> l \<and> u < 2 ^ 31 \<and> l \<le> twos bs \<and> twos bs \<le> u \<and> bs = int_bytes (of_int (twos bs))"

lemma sint_word_32: "- (2 ^ 31) \<le> x \<Longrightarrow> x < 2 ^ 31 \<Longrightarrow> sint (word_of_int x :: 32 word) = x"
  unfolding sint_of_int_32 by (rule signed_take_bit_int_eq_self) simp_all

lemma sint_nat_32: "n < 2 ^ 31 \<Longrightarrow> sint (of_nat n :: 32 word) = int n"
proof -
  assume "n < 2 ^ 31"
  then have "int n < 2 ^ 31" by (metis of_nat_less_iff of_nat_numeral of_nat_power)
  then have "sint (word_of_int (int n) :: 32 word) = int n" by (intro sint_word_32) simp_all
  then show ?thesis by (metis of_int_of_nat_eq)
qed

text \<open>What both directions use of a value in range.\<close>

lemma int_ok_offset:
  assumes "int_ok l u bs"
  defines "n \<equiv> nat (twos bs - l)" and "k \<equiv> min_bits (u - l) 0"
  shows "TryGetInt bs = Some (of_int (twos bs))" "sint (of_int (twos bs) :: 32 word) = twos bs"
    "strip_zero (the (SetInt (of_int (twos bs - l)))) = strip_zero (int_bytes (of_nat n))"
    "offset_bytes n (strip_zero (int_bytes (of_nat n)))"
    "n < 2 ^ k" "0 < k" "k \<le> 31" "int n = twos bs - l" "int n \<le> u - l"
    "the (SetInt (of_int (int n + l))) = bs"
proof -
  have a: "l < u" "u - l < 2 ^ 31" "- (2 ^ 31) \<le> l" "u < 2 ^ 31" "l \<le> twos bs" "twos bs \<le> u" "bs = int_bytes (of_int (twos bs))"
    using assms(1) unfolding int_ok_def by blast+
  show "TryGetInt bs = Some (of_int (twos bs))" using TryGetInt_int_bytes a(7) by metis
  show "sint (of_int (twos bs) :: 32 word) = twos bs"
    by (rule sint_word_32) (use a in linarith)+
  show n: "int n = twos bs - l" "int n \<le> u - l" using a(5,6) by (simp_all add: n_def)
  then have w: "(of_int (twos bs - l) :: 32 word) = of_nat n" by (metis of_int_of_nat_eq)
  show "strip_zero (the (SetInt (of_int (twos bs - l)))) = strip_zero (int_bytes (of_nat n))"
    unfolding w SetInt_int_bytes by simp
  have "int n < 2 ^ 31" using n(2) a(2) by linarith
  then have "n < 2 ^ 31" by (metis of_nat_less_iff of_nat_numeral of_nat_power)
  then have "sint (of_nat n :: 32 word) = int n" by (rule sint_nat_32)
  then have "offset_bytes (nat (int n)) (strip_zero (int_bytes (of_nat n)))"
    using offset_bytes_strip [of "of_nat n"] by simp
  then show "offset_bytes n (strip_zero (int_bytes (of_nat n)))" by simp
  show "n < 2 ^ k" unfolding k_def using min_bits_range [OF n(2)] by (metis of_nat_less_iff of_nat_numeral of_nat_power)
  show "0 < k" unfolding k_def using min_bits_least [of "u - l" 0] a(1) by simp
  show "k \<le> 31" unfolding k_def by (rule min_bits_le [OF a(2)])
  show "the (SetInt (of_int (int n + l))) = bs" using a(7) n(1) by (simp add: SetInt_int_bytes)
qed

lemma emits_if_aligned:
  "(al \<Longrightarrow> emits f al q xs) \<Longrightarrow> (\<not> al \<Longrightarrow> emits g al q xs) \<Longrightarrow> emits (\<lambda>b. if bAlign b then f b else g b) al q xs"
  unfolding Per_Codec.emits_def by (cases al) auto

lemma gets_if_aligned:
  "(al \<Longrightarrow> gets f al q xs v) \<Longrightarrow> (\<not> al \<Longrightarrow> gets g al q xs v) \<Longrightarrow> gets (\<lambda>b. if bAlign b then f b else g b) al q xs v"
  unfolding gets_def by (cases al) auto

lemma emits_few: "k \<le> 8 \<Longrightarrow> q < 8 \<Longrightarrow> emits (put_bits [push_bit (8 - k) (of_nat n)] k) al q (nat_bits k n)"
  using emits_put_bits [of k "[push_bit (8 - k) (of_nat n)]" q al] bits8_nat_bits [of k n] by simp

lemma gets_few:
  assumes "0 < k" "k \<le> 8"
  shows "gets (get_bits k) al q (nat_bits k n) [push_bit (8 - k) (of_nat n), 0]"
proof -
  have "(k + 7) div 8 = 1" using assms by (simp add: div_nat_eqI)
  then have "gets (get_bits k) al q (nat_bits k n) ([push_bit (8 - k) (of_nat n)] @ [0])"
    by (intro gets_bits) (simp_all add: bits8_nat_bits assms)
  then show ?thesis by simp
qed

lemma offset_bytes_1: "offset_bytes n t \<Longrightarrow> n < 256 \<Longrightarrow> t = [of_nat n]"
proof -
  assume o: "offset_bytes n t" and n: "n < 256"
  have "\<not> length t > 1"
  proof
    assume l: "length t > 1"
    then have "256 ^ (length t - 1) \<le> n" using o by (simp add: offset_bytes_def)
    moreover have "(256 :: nat) ^ 1 \<le> 256 ^ (length t - 1)" using l by (intro power_increasing) simp_all
    ultimately show False using n by simp
  qed
  then obtain x where "t = [x]" using o by (cases t) (auto simp: offset_bytes_def)
  with o show ?thesis by (auto simp: offset_bytes_def)
qed

lemma offset_bytes_length: "offset_bytes n t \<Longrightarrow> n < 256 ^ m \<Longrightarrow> 0 < m \<Longrightarrow> length t \<le> m"
proof (rule ccontr)
  assume o: "offset_bytes n t" "n < 256 ^ m" "0 < m" "\<not> length t \<le> m"
  then have "256 ^ (length t - 1) \<le> n" by (simp add: offset_bytes_def)
  moreover have "(256 :: nat) ^ m \<le> 256 ^ (length t - 1)" using o(4) by (intro power_increasing) simp_all
  ultimately show False using o(2) by linarith
qed

lemma emits_put_long:
  assumes "offset_bytes n t" "16 \<le> k" "k \<le> 31" "q < 8"
  shows "emits (put_long k t) al q (nat_bits (k div 8) (length t - 1) @ nat_bits (8 * length t) n)"
proof -
  let ?L = "k div 8"
  note T = offset_bytesD [OF assms(1)]
  have L: "?L = 2 \<or> ?L = 3" using assms(2,3) by auto
  then have lb: "length_bits k = ?L" by (auto simp: length_bits_def)
  have len: "1 \<le> length t" "length t \<le> 4" using T(2,3) by (cases t; simp)+
  have t2: "strip_zero (the (SetInt (of_nat (length t - 1)))) = [of_nat (length t - 1)]"
  proof -
    have "sint (of_nat (length t - 1) :: 32 word) = int (length t - 1)" by (rule sint_nat_32) (use len in simp)
    then have "offset_bytes (length t - 1) (strip_zero (int_bytes (of_nat (length t - 1))))"
      using offset_bytes_strip [of "of_nat (length t - 1)"] by simp
    then show ?thesis using offset_bytes_1 [of "length t - 1"] len by (simp add: SetInt_int_bytes)
  qed
  have c: "\<not> ?L > length t * 8" "?L mod 8 \<noteq> 0" "?L mod 8 = ?L" "?L \<le> 8" using L len by auto
  have "put_long k t = also_put (put_bits [push_bit (8 - ?L) (of_nat (length t - 1))] ?L) (put_bits t (length t * 8))"
    unfolding put_long_def lb t2 Let_def using c by (simp add: also_put_skip skip_also_put)
  moreover have "emits (put_bits t (length t * 8)) al ((q + ?L) mod 8) (nat_bits (8 * length t) n)"
    using emits_put_bytes [of "(q + ?L) mod 8" "length t" t al] T(4) by simp
  ultimately show ?thesis using emits_also_put [OF emits_few [OF c(4) assms(4)]] by simp
qed

lemma min_bits_ge: "2 ^ j - 1 \<le> t \<Longrightarrow> 0 < j \<Longrightarrow> j \<le> min_bits t 0"
proof -
  assume a: "2 ^ j - 1 \<le> t" "0 < j"
  have "(2 :: int) ^ 1 \<le> 2 ^ j" using a(2) by (intro power_increasing) simp_all
  moreover have "t < 2 ^ min_bits t 0" using min_bits_enough [of t 0] by simp
  ultimately have "(2 :: int) ^ j \<le> 2 ^ min_bits t 0" using a(1) by linarith
  then show ?thesis by (simp add: power_increasing_iff)
qed

lemma emits_constrained:
  assumes "int_ok l u bs" "q < 8"
  shows "emits (PEncFullyConstrained l u bs) al q (constr_bits l u al q bs)"
proof -
  define n where "n = nat (twos bs - l)"
  define k where "k = min_bits (u - l) 0"
  define t where "t = strip_zero (int_bytes (of_nat n))"
  note O = int_ok_offset [OF assms(1), folded n_def k_def, folded t_def]
  note T = offset_bytesD [OF O(4)]
  have a: "l < u" "l \<le> twos bs" "twos bs \<le> u" using assms(1) by (simp_all add: int_ok_def)
  let ?al = "if u - l + 1 \<le> 255 then put_bits [push_bit (8 - k) (hd t)] k
     else if u - l + 1 = 256 then puts [align_write, put_bits [hd t] 8]
     else if u - l + 1 < 65536 then
       puts [align_write, if length t < 2 then put_bits [0] 8 else skip, put_bits t (length t * 8)]
     else put_long k t"
  have r: "min_bits (u - l + 1 - 1) 0 = k" by (simp add: k_def)
  have e: "PEncFullyConstrained l u bs = (\<lambda>b. if bAlign b then ?al b else put_offset k t b)"
    unfolding PEncFullyConstrained_def O(1) option.case O(2,3) Let_def r using a T(3) by simp
  let ?p = "replicate (pad al q) False"
  let ?q = "(q + length ?p) mod 8"
  have c: "constr_bits l u al q bs =
     (if \<not> al \<or> u - l + 1 \<le> 255 then nat_bits k n
      else if u - l + 1 = 256 then ?p @ nat_bits 8 n
      else if u - l + 1 < 65536 then ?p @ nat_bits 16 n
      else nat_bits (k div 8) (length t - 1) @ nat_bits (8 * length t) n)"
    unfolding constr_bits_def Let_def r octets_def n_def t_def by (rule refl)
  have bytes: "emits (put_bits t (length t * 8)) al r (nat_bits (8 * length t) n)" if "r < 8" for r
    using emits_put_bytes [OF that, of "length t" t al] T(4) by simp
  have al: "emits ?al al q (constr_bits l u al q bs)" if "al"
  proof -
    consider "u - l + 1 \<le> 255" | "u - l + 1 = 256" | "256 < u - l + 1" "u - l + 1 < 65536" | "65536 \<le> u - l + 1" by linarith
    then show ?thesis
    proof cases
      case 1
      have "n < 256" using O(9) 1 by linarith
      then have "hd t = of_nat n" using offset_bytes_1 [OF O(4)] by simp
      moreover have "k \<le> 8" unfolding k_def by (rule min_bits_le) (use 1 in simp)
      ultimately show ?thesis using emits_few [of k q n al] 1 assms(2)
        unfolding c by simp
    next
      case 2
      have "n < 256" using O(9) 2 by linarith
      then have t: "t = [of_nat n]" using offset_bytes_1 [OF O(4)] by simp
      have "emits (put_bits [hd t] 8) al ?q (nat_bits 8 n)" using emits_few [of 8 ?q n al] t by simp
      from emits_also_put [OF emits_align [OF assms(2)] this] 2 that show ?thesis
        unfolding c by (simp add: also_put_skip)
    next
      case 3
      have "n < 256 ^ 2" using O(9) 3(2) by simp
      then have len: "length t \<le> 2" using offset_bytes_length [OF O(4)] by simp
      have "emits (puts [if length t < 2 then put_bits [0] 8 else skip, put_bits t (length t * 8)]) al ?q (nat_bits 16 n)"
      proof (cases "length t < 2")
        case True
        then have l1: "length t = 1" using T(2) by (cases t) auto
        have z: "emits (put_bits [0] 8) al ?q (replicate 8 False)" using emits_byte [of ?q 0 al] by simp
        have "nat_bits 16 n = replicate 8 False @ nat_bits (8 * length t) n"
          using nat_bits_leading [of n 8 8] T(5) l1 by simp
        with emits_also_put [OF z bytes] True show ?thesis by (simp add: also_put_skip)
      next
        case False
        then have "length t = 2" using len by simp
        with False bytes [of ?q] show ?thesis by (simp add: also_put_skip skip_also_put)
      qed
      from emits_also_put [OF emits_align [OF assms(2)] this] 3 that show ?thesis
        unfolding c by simp
    next
      case 4
      have "16 \<le> k" unfolding k_def by (rule min_bits_ge) (use 4 in simp_all)
      from emits_put_long [OF O(4) this O(7) assms(2), of al] 4 that show ?thesis
        unfolding c by simp
    qed
  qed
  have un: "emits (put_offset k t) al q (constr_bits l u al q bs)" if "\<not> al"
    using emits_put_offset [OF O(4,5,6) _ assms(2)] O(7) that unfolding c by simp
  show ?thesis unfolding e by (rule emits_if_aligned [OF al un])
qed

subsection \<open>Reading what was written\<close>

lemma gets_nat_bits:
  assumes "n < 2 ^ k"
  defines "m \<equiv> (k + 7) div 8"
  shows "gets (get_bits k) al q (nat_bits k n) (nbytes m (push_bit (8 * m - k) n) @ [0])"
proof (rule gets_bits)
  let ?e = "8 * m - k"
  have e: "k + ?e = 8 * m" unfolding m_def by simp
  have "push_bit ?e n < 2 ^ k * 2 ^ ?e" using assms(1) by (simp add: push_bit_eq_mult)
  also have "\<dots> = 2 ^ (8 * m)" by (simp only: e flip: power_add)
  also have "\<dots> = 256 ^ m" by (simp add: power_mult)
  finally have "bits_of (nbytes m (push_bit ?e n)) = nat_bits (k + ?e) (push_bit ?e n)"
    unfolding e by (rule bits_of_nbytes)
  then show "bits_of (nbytes m (push_bit ?e n)) =
      nat_bits k n @ replicate (8 * length (nbytes m (push_bit ?e n)) - k) False"
    by (simp add: nat_bits_trailing)
qed (simp_all add: m_def)

lemma gets_get_offset:
  assumes "n < 2 ^ k" "q < 8"
  shows "gets (get_offset k) al q (nat_bits k n) (n, k)"
proof -
  let ?m = "(k + 7) div 8" and ?o = "k mod 8"
  let ?seg = "nbytes ?m (push_bit (8 * ?m - k) n) @ [0]"
  have d: "k = 8 * (k div 8) + ?o" by simp
  have "(if ?o = 0 then join (take (k div 8) ?seg) else join (shift_right ?o 0 (take (k div 8 + 1) ?seg))) = n"
  proof (cases "?o = 0")
    case True
    then have m: "?m = k div 8" "8 * ?m - k = 0" by auto
    have "(2 :: nat) ^ k = 2 ^ (8 * (k div 8))" using True by (intro arg_cong [where f = "power 2"]) auto
    then have "n < 256 ^ (k div 8)" using assms(1) by (simp only: power_mult) simp
    with True m show ?thesis by (simp add: join_be_val be_val_nbytes)
  next
    case False
    then have o: "0 < ?o" "?o < 8" by simp_all
    have "(8 * c + r + 7) div 8 = c + 1" if "0 < r" "r < 8" for c r :: nat
      by (rule div_nat_eqI) (use that in simp_all)
    from this [OF o, of "k div 8"] have m: "?m = k div 8 + 1" by (simp only: flip: d)
    have "8 * c + r + (8 - r) = 8 * (c + 1)" if "r < 8" for c r :: nat using that by simp
    from this [OF o(2), of "k div 8"] have s: "k + (8 - ?o) = 8 * ?m" unfolding m by (simp only: flip: d)
    then have e: "8 * ?m - k = 8 - ?o" by (metis add_diff_cancel_left')
    let ?E = "2 ^ (8 - ?o) :: nat"
    have "(2 :: nat) ^ k * ?E = 2 ^ (8 * ?m)" by (simp only: s flip: power_add)
    also have "\<dots> = 256 ^ ?m" by (simp add: power_mult)
    finally have "n * ?E < 256 ^ ?m" using assms(1) by (metis mult_less_mono1 zero_less_numeral zero_less_power)
    then have "be_val (nbytes ?m (push_bit (8 - ?o) n)) = n * ?E" by (simp add: be_val_nbytes push_bit_eq_mult)
    moreover have "be_val (shift_right ?o 0 xs) = be_val xs div ?E" for xs
      using be_val_shift_right [of ?o 0 xs] False by simp
    ultimately have "join (shift_right ?o 0 (nbytes ?m (push_bit (8 - ?o) n))) = n" by (simp add: join_be_val)
    moreover have "take (k div 8 + 1) ?seg = nbytes ?m (push_bit (8 - ?o) n)" unfolding e unfolding m by simp
    ultimately show ?thesis using False by simp
  qed
  then have "gets (get_offset k) al q (nat_bits k n @ []) (n, k)"
    unfolding get_offset_def Let_def
    by (intro gets_bindR [OF gets_nat_bits [OF assms(1)]]) (simp add: gets_returnR)
  then show ?thesis by simp
qed

lemma few_value:
  assumes "n < 2 ^ k" "k \<le> 8"
  shows "unat (drop_bit (8 - k) (push_bit (8 - k) (of_nat n :: byte))) = n"
proof -
  let ?E = "2 ^ (8 - k) :: nat"
  have K: "2 ^ k * ?E = 256" using assms(2) by (simp flip: power_add)
  have "n * ?E < 2 ^ k * ?E" using assms(1) by simp
  then have b: "n * ?E < 256" by (simp only: K)
  have "push_bit (8 - k) (of_nat n :: byte) = of_nat (n * ?E)" by (simp add: push_bit_eq_mult)
  moreover have "unat (of_nat (n * ?E) :: byte) = n * ?E" using b by (simp add: unat_of_nat del: of_nat_mult)
  ultimately have "unat (push_bit (8 - k) (of_nat n :: byte)) = n * ?E" by (simp only:)
  then show ?thesis unfolding unat_drop_bit_eq by (simp add: drop_bit_eq_div)
qed

lemma gets_get_long:
  assumes "offset_bytes n t" "16 \<le> k" "k \<le> 31" "q < 8"
  shows "gets (get_long k) al q (nat_bits (k div 8) (length t - 1) @ nat_bits (8 * length t) n) (n, k div 8 + 8 * length t)"
proof -
  let ?L = "k div 8"
  note T = offset_bytesD [OF assms(1)]
  have L: "?L = 2 \<or> ?L = 3" using assms(2,3) by auto
  then have lb: "length_bits k = ?L" by (auto simp: length_bits_def)
  have len: "1 \<le> length t" "length t \<le> 4" using T(2,3) by (cases t; simp)+
  have "length t - 1 < 2 ^ ?L" using L len by auto
  then have v: "unat (drop_bit (8 - ?L mod 8) ([push_bit (8 - ?L) (of_nat (length t - 1)) :: byte, 0] ! 0)) + 1 = length t"
    using few_value [of "length t - 1" ?L] L len by auto
  have "gets (get_bits (length t * 8)) al ((q + ?L) mod 8) (bits_of t) (t @ [0])"
    using gets_bytes [of t] by (simp add: mult.commute)
  then have "gets (bindR (get_bits (length t * 8)) (\<lambda>seg. returnR (join (take (length t) seg), ?L + length t * 8))) al
      ((q + ?L) mod 8) (bits_of t @ []) (n, ?L + 8 * length t)"
    by (rule gets_bindR) (simp add: gets_returnR join_be_val T(1) mult.commute)
  then have r: "gets (bindR (get_bits (length t * 8)) (\<lambda>seg. returnR (join (take (length t) seg), ?L + length t * 8))) al
      ((q + length (nat_bits ?L (length t - 1))) mod 8) (nat_bits (8 * length t) n) (n, ?L + 8 * length t)"
    by (simp add: T(4))
  show ?thesis
    unfolding get_long_def lb Let_def
  proof (rule gets_bindR [OF gets_few])
    show "0 < ?L" "?L \<le> 8" using L by auto
    have "\<not> length t > 4" using len by simp
    then show "gets (if unat (drop_bit (8 - ?L mod 8) ([push_bit (8 - ?L) (of_nat (length t - 1)) :: byte, 0] ! 0)) + 1 > 4
        then failR INTEGER_ERROR
        else bindR (get_bits ((unat (drop_bit (8 - ?L mod 8) ([push_bit (8 - ?L) (of_nat (length t - 1)) :: byte, 0] ! 0)) + 1) * 8))
          (\<lambda>seg. returnR (join (take (unat (drop_bit (8 - ?L mod 8) ([push_bit (8 - ?L) (of_nat (length t - 1)) :: byte, 0] ! 0)) + 1) seg),
            ?L + (unat (drop_bit (8 - ?L mod 8) ([push_bit (8 - ?L) (of_nat (length t - 1)) :: byte, 0] ! 0)) + 1) * 8)))
        al ((q + length (nat_bits ?L (length t - 1))) mod 8) (nat_bits (8 * length t) n) (n, ?L + 8 * length t)"
      unfolding v by (simp only: if_False r)
  qed
qed

lemma gets_few_value: "0 < k \<Longrightarrow> k \<le> 8 \<Longrightarrow> n < 2 ^ k \<Longrightarrow> q < 8 \<Longrightarrow>
    gets (bindR (get_bits k) (\<lambda>seg. returnR (unat (drop_bit (8 - k) (seg ! 0)), k))) al q (nat_bits k n) (n, k)"
  using gets_bindR [OF gets_few [of k al q n], of "\<lambda>seg. returnR (unat (drop_bit (8 - k) (seg ! 0)), k)" "[]" "(n, k)"]
  by (simp add: few_value gets_returnR)

lemma gets_octet_value:
  assumes "n < 256"
  shows "gets (bindR (get_bits 8) (\<lambda>seg. returnR (unat (seg ! 0), j + 8))) al q (nat_bits 8 n) (n, j + 8)"
  using gets_bindR [OF gets_few [of 8 al q n], of "\<lambda>seg. returnR (unat (seg ! 0), j + 8)" "[]" "(n, j + 8)"] assms
  by (simp add: unat_of_nat gets_returnR)

lemma gets_two_octets_value:
  assumes "n < 65536"
  shows "gets (bindR (get_bits 16) (\<lambda>seg. returnR (push_bit 8 (unat (seg ! 0)) OR unat (seg ! 1), j + 16))) al q
    (nat_bits 16 n) (n, j + 16)"
proof -
  have two: "nbytes 2 n = [of_nat (n div 256), of_nat n]" by (simp add: numeral_2_eq_2)
  have "gets (get_bits 16) al q (nat_bits 16 n) [of_nat (n div 256), of_nat n, 0]"
    using gets_nat_bits [of n 16 al q] assms by (simp add: two)
  moreover have "push_bit 8 (unat (of_nat (n div 256) :: byte)) OR unat (of_nat n :: byte) = n"
    using join_be_val [of "nbytes 2 n"] be_val_nbytes [of 2 n] assms unfolding two by (simp add: join_def)
  ultimately show ?thesis
    using gets_bindR [of "get_bits 16" al q "nat_bits 16 n" "[of_nat (n div 256), of_nat n, 0]"
        "\<lambda>seg. returnR (push_bit 8 (unat (seg ! 0)) OR unat (seg ! 1), j + 16)" "[]" "(n, j + 16)"]
    by (simp add: gets_returnR)
qed

lemma gets_constrained:
  assumes "int_ok l u bs" "q < 8"
  shows "gets (PDecFullyConstrained l u) al q (constr_bits l u al q bs) (bs, length (constr_bits l u al q bs))"
proof -
  define n where "n = nat (twos bs - l)"
  define k where "k = min_bits (u - l) 0"
  define t where "t = strip_zero (int_bytes (of_nat n))"
  note O = int_ok_offset [OF assms(1), folded n_def k_def, folded t_def]
  let ?p = "replicate (pad al q) False"
  let ?bits = "constr_bits l u al q bs"
  let ?al = "if u - l + 1 \<le> 255 then
       bindR (get_bits k) (\<lambda>seg. returnR (unat (drop_bit (8 - k) (seg ! 0)), k))
     else if u - l + 1 = 256 then
       bindR align_read (\<lambda>j. bindR (get_bits 8) (\<lambda>seg. returnR (unat (seg ! 0), j + 8)))
     else if u - l + 1 < 65536 then
       bindR align_read (\<lambda>j. bindR (get_bits 16) (\<lambda>seg.
         returnR (push_bit 8 (unat (seg ! 0)) OR unat (seg ! 1), j + 16)))
     else get_long k"
  have r: "min_bits (u - l + 1 - 1) 0 = k" by (simp add: k_def)
  have c: "?bits =
     (if \<not> al \<or> u - l + 1 \<le> 255 then nat_bits k n
      else if u - l + 1 = 256 then ?p @ nat_bits 8 n
      else if u - l + 1 < 65536 then ?p @ nat_bits 16 n
      else nat_bits (k div 8) (length t - 1) @ nat_bits (8 * length t) n)"
    unfolding constr_bits_def Let_def r octets_def n_def t_def by (rule refl)
  have al: "gets ?al al q ?bits (n, length ?bits)" if "al"
  proof -
    consider "u - l + 1 \<le> 255" | "u - l + 1 = 256" | "256 < u - l + 1" "u - l + 1 < 65536" | "65536 \<le> u - l + 1" by linarith
    then show ?thesis
    proof cases
      case 1
      have "k \<le> 8" unfolding k_def by (rule min_bits_le) (use 1 in simp)
      with gets_few_value [OF O(6) _ O(5) assms(2), of al] 1 show ?thesis unfolding c by simp
    next
      case 2
      have "n < 256" using O(9) 2 by linarith
      from gets_bindR [OF gets_align [OF assms(2)], OF gets_octet_value [OF this]] 2 that
      show ?thesis unfolding c by simp
    next
      case 3
      have "n < 65536" using O(9) 3 by linarith
      from gets_bindR [OF gets_align [OF assms(2)], OF gets_two_octets_value [OF this]] 3 that
      show ?thesis unfolding c by simp
    next
      case 4
      have "16 \<le> k" unfolding k_def by (rule min_bits_ge) (use 4 in simp_all)
      from gets_get_long [OF O(4) this O(7) assms(2), of al] 4 that show ?thesis unfolding c by simp
    qed
  qed
  have un: "gets (get_offset k) al q ?bits (n, length ?bits)" if "\<not> al"
    using gets_get_offset [OF O(5) assms(2), of al] that unfolding c by simp
  have l: "u - l + 1 \<noteq> 1" using assms(1) by (simp add: int_ok_def)
  have "gets (PDecFullyConstrained l u) al q (?bits @ []) (bs, length ?bits)"
    unfolding PDecFullyConstrained_def Let_def r if_not_P [OF l]
    by (rule gets_bindR [OF gets_if_aligned [OF al un]]) (simp_all add: O(10) gets_returnR del: of_int_add)
  then show ?thesis by simp
qed

interpretation per_int: per_item "PEncFullyConstrained l u" "PDecFullyConstrained l u" "constr_bits l u" "int_ok l u" for l u
  by unfold_locales (simp_all add: emits_constrained gets_constrained)

subsection \<open>Every form but the half bounded\<close>

definition int_valid :: "ValueRange list \<Rightarrow> byte list \<Rightarrow> bool" where
  "int_valid rs bs \<longleftrightarrow> rs = [] \<or> checkConstraints rs bs = Some False \<and>
     (case value_bounds rs of (l, u, f) \<Rightarrow> f = 1 \<and> int_ok (sint l) (sint u) bs)"

definition int_bits :: "ValueRange list \<Rightarrow> bool \<Rightarrow> nat \<Rightarrow> byte list \<Rightarrow> bool list" where
  "int_bits rs al q bs = (if rs = [] then general_bits al q bs
     else case value_bounds rs of (l, u, f) \<Rightarrow> constr_bits (sint l) (sint u) al q bs)"

lemma int_valid_codec:
  assumes "int_valid rs bs" "rs \<noteq> []" "value_bounds rs = (l, u, f)"
  shows "AsnInt_PEnc rs bs = PEncFullyConstrained (sint l) (sint u) bs"
    "AsnInt_PDec rs = PDecFullyConstrained (sint l) (sint u)" "int_ok (sint l) (sint u) bs"
proof -
  have v: "checkConstraints rs bs = Some False" "f = 1" "int_ok (sint l) (sint u) bs"
    using assms by (simp_all add: int_valid_def)
  then have "l \<noteq> u" by (auto simp: int_ok_def)
  with v assms show "AsnInt_PEnc rs bs = PEncFullyConstrained (sint l) (sint u) bs"
    "AsnInt_PDec rs = PDecFullyConstrained (sint l) (sint u)" "int_ok (sint l) (sint u) bs"
    by (simp_all add: AsnInt_PEnc_def AsnInt_PDec_def)
qed

interpretation asn_int: per_item "AsnInt_PEnc rs" "AsnInt_PDec rs" "int_bits rs" "int_valid rs" for rs
proof unfold_locales
  fix x and q :: nat and al
  assume x: "int_valid rs x" "q < 8"
  obtain l u f where b: "value_bounds rs = (l, u, f)" by (cases "value_bounds rs")
  show "emits (AsnInt_PEnc rs x) al q (int_bits rs al q x)"
  proof (cases "rs = []")
    case True
    then show ?thesis using per_bytes.enc_emits x(2) by (simp add: AsnInt_PEnc_def checkConstraints_def int_bits_def)
  next
    case False
    then show ?thesis using int_valid_codec [OF x(1) False b] per_int.enc_emits x(2) by (simp add: int_bits_def b)
  qed
  show "gets (AsnInt_PDec rs) al q (int_bits rs al q x) (x, length (int_bits rs al q x))"
  proof (cases "rs = []")
    case True
    then show ?thesis using per_bytes.dc_gets x(2) by (simp add: AsnInt_PDec_def int_bits_def)
  next
    case False
    then show ?thesis using int_valid_codec [OF x(1) False b] per_int.dc_gets x(2) by (simp add: int_bits_def b)
  qed
qed

subsection \<open>A range of one value\<close>

text \<open>Encoded in no bits, and decoded to no octets, which is not that value.\<close>

lemma one_value_lost:
  assumes "rs \<noteq> []" "value_bounds rs = (l, l, 1)"
  shows "AsnInt_PDec rs = returnR ([], 0)" "checkConstraints rs (int_bytes l) = Some False \<Longrightarrow> AsnInt_PEnc rs (int_bytes l) = skip"
    "int_bytes l \<noteq> []"
  using assms minimal_int_bytes [of l] by (auto simp: AsnInt_PDec_def AsnInt_PEnc_def minimal_def)

text \<open>With a lower bound only, the encoder aligns the buffer before the length and the decoder does not:
  after a BOOLEAN the value 5 comes back as 0.\<close>

lemma half_bounded_lost:
  "map_sum id (\<lambda>(n, b). map_option (map_sum id (fst \<circ> fst))
      (bindR AsnBool_PDec (\<lambda>_. PDecSemiConstrained 0) b))
    (puts [AsnBool_PEnc True, PEncSemiConstrained 0 [5]] (AsnBufBits True))
   = Inr (Some (Inr [0]))"
  by code_simp

end
