(* ===== verification/Per_Props.thy ===== *)
theory Per_Props
  imports Per_Int
begin

section \<open>Claims about PER\<close>

text \<open>What the bit buffer, the codecs of OCTET STRING and INTEGER and the values \<open>AsnInt\<close> do
  together.\<close>

text \<open>C34: an \<open>AsnBufBits\<close> is a queue of bits.  On a buffer that was written only, \<open>PutBits\<close> appends
  the first \<open>n\<close> bits of the segment and nothing else; \<open>GetBits\<close> then takes the oldest \<open>m\<close> bits,
  returned in whole octets that are filled up with zeros, and leaves the rest in order.\<close>

theorem per_buffer_queue:
  assumes "ready b" "n \<le> 8 * length seg" "unat (ulBitsLeft b) + n < 2 ^ 64" "m \<le> length (content b) + n"
  shows "\<exists>b1 xs b2. PutBits seg n b = (n, b1) \<and> content b1 = content b @ take n (bits_of seg) \<and>
    GetBits m b1 = Some (xs @ [0], b2) \<and> length xs = (m + 7) div 8 \<and>
    bits_of xs = take m (content b1) @ replicate (8 * length xs - m) False \<and> content b2 = drop m (content b1)"
proof -
  obtain b1 where p: "PutBits seg n b = (n, b1)" "ready b1" "content b1 = content b @ take n (bits_of seg)"
    using PutBits_spec [OF assms(1-3)] by blast
  have "m \<le> length (content b1)" using assms(2,4) p(3) by simp
  with GetBits_spec [OF ready_ok [OF p(2)]] p show ?thesis by blast
qed

lemma per_buffer_queue_witness:
  "\<exists>b1 xs b2. PutBits [0xA5, 0xC0] 10 (AsnBufBits True) = (10, b1) \<and>
    content b1 = content (AsnBufBits True) @ take 10 (bits_of [0xA5, 0xC0]) \<and>
    GetBits 3 b1 = Some (xs @ [0], b2) \<and> length xs = (3 + 7) div 8 \<and>
    bits_of xs = take 3 (content b1) @ replicate (8 * length xs - 3) False \<and> content b2 = drop 3 (content b1)"
  by (rule per_buffer_queue) (simp_all add: ready_AsnBufBits, simp add: AsnBufBits_def)









text \<open>C37: \<open>AppendTo\<close>, with which the members of a SET OF are put behind each other.  The whole octets
  arrive; the bits after them are the first bits of the last whole octet (or of a variable that was
  never set), not those of the source.  So the buffer arrives as it is if and only if the two agree.\<close>

theorem per_append:
  assumes "ready b" "readBitPos b = 8" "ready out" "length (content out) + length (content b) < 2 ^ 64"
    "length (content b) < 2 ^ 31"
  shows "\<exists>b' out'. AppendTo ch b out = (b', out') \<and>
    content out' = content out @ bits_of (stream b) @ take (8 - writeBitPos b) (bits8 (last (ch # stream b))) \<and>
    (content out' = content out @ content b \<longleftrightarrow>
     take (8 - writeBitPos b) (bits8 (last (ch # stream b))) = take (8 - writeBitPos b) (bits8 (writeChar b)))"
proof -
  obtain b' out' where a: "AppendTo ch b out = (b', out')"
    "content out' = content out @ bits_of (stream b) @ take (8 - writeBitPos b) (bits8 (last (ch # stream b)))"
    using AppendTo_spec [OF assms] by blast
  have "content b = bits_of (stream b) @ take (8 - writeBitPos b) (bits8 (writeChar b))"
    using assms(1,2) ready_content [OF assms(1)] by (simp add: avail_def)
  with a show ?thesis by (simp add: append_eq_append_conv)
qed

definition three_bits :: BufBits where
  "three_bits = snd (PutBits [0xA0] 3 (AsnBufBits False))"

lemma three_bits: "ready three_bits" "readBitPos three_bits = 8" "content three_bits = [True, False, True]"
proof -
  have "unat (ulBitsLeft (AsnBufBits False)) + 3 < 2 ^ 64" by (simp add: AsnBufBits_def)
  from PutBits_spec [OF ready_AsnBufBits(1) _ this, of "[0xA0]"] obtain b' where
    b: "PutBits [0xA0] 3 (AsnBufBits False) = (3, b')" "ready b'"
    "content b' = content (AsnBufBits False) @ take 3 (bits_of [0xA0])" by auto
  moreover have "take 3 (bits_of [0xA0]) = [True, False, True]" by code_simp
  ultimately show "ready three_bits" "content three_bits = [True, False, True]"
    by (simp_all add: three_bits_def ready_AsnBufBits)
  show "readBitPos three_bits = 8" using PutBits_readBitPos [OF b(1)] b(1) by (simp add: three_bits_def AsnBufBits_def)
qed

lemma per_append_witness:
  "\<exists>b' out'. AppendTo 0 three_bits (AsnBufBits False) = (b', out') \<and>
    content out' = content (AsnBufBits False) @ bits_of (stream three_bits) @
      take (8 - writeBitPos three_bits) (bits8 (last (0 # stream three_bits))) \<and>
    (content out' = content (AsnBufBits False) @ content three_bits \<longleftrightarrow>
     take (8 - writeBitPos three_bits) (bits8 (last (0 # stream three_bits)))
       = take (8 - writeBitPos three_bits) (bits8 (writeChar three_bits)))"
  by (rule per_append) (simp_all add: three_bits ready_AsnBufBits)

text \<open>C38: the two runtimes agree on INTEGER.  Setting an \<open>AsnInt\<close> of the C++ runtime to an \<open>int\<close> never
  throws and stores the content octets that the C runtime encodes for it, from which \<open>GetInt\<close> gives the
  number back; an \<open>AsnInt\<close> set to any \<open>long long\<close> holds the least octets for it and gives it back.\<close>

theorem cxx_integers:
  "SetInt d = Some (int_bytes d) \<and> TryGetInt (int_bytes d) = Some d \<and>
   (\<exists>bs. SetInt64 v = Some bs \<and> minimal bs \<and> TryGetInt64 bs = Some v)"
  using SetInt_int_bytes TryGetInt_int_bytes Set_Get_Int64 by blast

end
