(* ===== verification/Spec2Isabelle.thy ===== *)
theory Spec2Isabelle
  imports Codec_Facts Rose_Props Comp_Props Per_Props
begin

text \<open>
  A verification library for esnacc, the ASN.1 compiler, and two of its runtimes: passes of the
  compiler over the types of a module (\<open>compiler/core\<close>); the C runtime (\<open>c-lib\<close>), which
  encodes and decodes the values that generated code holds; and the ROSE runtime
  (\<open>cpp-lib\<close>), which carries calls between two programs over such values.  Of the second runtime
  of values, in C++, it has the part that the first one lacks: the packed encoding rules.

  \<^bold>\<open>The compiler.\<close>  The parser builds a list of modules, each with lists of type and value
  definitions; references are linked to definitions.  Passes then mark the definitions that are
  recursive, check each module and stop the run if one has errors, and put the definitions into
  an order in which generated code can declare them.  The passes share utilities over types,
  their tags and lists of objects.

  \<^bold>\<open>The C runtime.\<close>  Code that the compiler generates calls \<open>BEnc<Type>\<close> and
  \<open>BDec<Type>\<close> of \<open>c-lib/src/asn-*.c\<close>.  These reach their data through the table of
  operations \<open>GenBuf\<close> (\<open>gen-buf.h\<close>), whose implementation here is the expandable buffer of
  \<open>exp-buf.c\<close>: a doubly linked list of blocks.  Encoders write from the end of a message to its
  start and return the number of octets; decoders read forward, add to a counter
  \<open>bytesDecoded\<close> and leave through \<open>longjmp\<close> with a number when they fail.

  \<^bold>\<open>The ROSE runtime.\<close>  A stub (\<open>SnaccROSEBase\<close>) sends invokes, matches the answers to
  pending operations, times them out with a watchdog thread, and runs inbound invokes on the
  socket thread or on a worker pool.  The registry of operations names what exists, the session
  store and the capabilities of the peer what may be sent.

  \<^bold>\<open>The packed encoding rules.\<close>  In the C++ runtime a value writes itself with \<open>PEnc\<close> into a buffer
  of bits, \<open>AsnBufBits\<close>, and reads itself with \<open>PDec\<close> from one.  A buffer is aligned or not; in an aligned
  one most lengths and contents start at an octet.  Constraints decide how many bits a value needs.

  \<^bold>\<open>Theories of the C runtime.\<close>
  \<^item> \<open>Asn_Prelude\<close>: bytes, the result of a decoder (\<open>Ret\<close>, \<open>Jmp\<close>, \<open>OutOfFuel\<close>),
    reference parsers on byte lists, big-endian numbers.
  \<^item> \<open>Gen_Buf\<close>: the record \<open>GenBuf\<close>; the contracts \<open>rvs_buffer\<close> (an encoder puts exactly
    these bytes in front, or sets the write error) and \<open>fwd_buffer\<close> (a decoder sees exactly
    these bytes, or a read error) as locales.  Every codec is proved in them once.
  \<^item> \<open>Exp_Buf\<close>: \<open>exp-buf.c\<close>.  The list of blocks is a zipper around the handle: \<open>prevs\<close>,
    \<open>cur\<close>, \<open>nexts\<close>.  \<open>mallocs\<close> counts the calls of \<open>malloc\<close> that still succeed.  The
    interpretations \<open>ebw\<close>, \<open>ebc\<close> (writing) and \<open>ebr\<close> (reading) discharge the contracts.
  \<^item> \<open>Asn_Len\<close>, \<open>Asn_Tag\<close>, \<open>Asn_Tlv\<close>: lengths (\<open>asn-len.c\<close>), tags (\<open>asn-tag.c\<close>,
    \<open>asn-tag.h\<close>, \<open>TagByteLen\<close> of the compiler), and the tag-length frame that all types share.
  \<^item> \<open>Asn_Int\<close>, \<open>Asn_Simple\<close>, \<open>Asn_Octs\<close>, \<open>Asn_Bits\<close>, \<open>Asn_Oid\<close>: INTEGER and ENUMERATED,
    BOOLEAN and NULL, OCTET STRING with the string stack (\<open>str-stk.c\<close>), BIT STRING with the
    global \<open>unusedBitsG\<close>, OBJECT IDENTIFIER and RELATIVE-OID.
  \<^item> \<open>Asn_Strings\<close>, \<open>Asn_UTF8\<close>, \<open>Asn_Useful\<close>: the character strings, whose shared contract is
    the locale \<open>string_codec\<close> with one interpretation per type; UTF-8; the useful types and
    EXTERNAL.
  \<^item> \<open>Hash_Table\<close> (\<open>hash.c\<close>, locale \<open>hash_map\<close>), \<open>Asn_Any\<close> (\<open>asn-any.c\<close>), \<open>Asn_List\<close>
    (\<open>asn-list.c\<close>, nodes in a heap), \<open>Nibble_Alloc\<close> (\<open>nibble-alloc.c\<close>, a step relation),
    \<open>Asn_Der\<close> (\<open>asn-der.c\<close>).
  \<^item> \<open>Codec_Facts\<close>: what encoders, the buffer and decoders do together, one fact per type.

  \<^bold>\<open>Theories of the ROSE runtime.\<close>
  \<^item> \<open>Step_System\<close>: the contracts \<open>kept_by_steps\<close> and \<open>constant_on_steps\<close> between a component
    with threads and what its steps keep.
  \<^item> \<open>Rose_Store\<close>: \<open>SnaccRoseOperationLookup.cpp\<close>, \<open>RoseSessionSubscriptionStore.cpp\<close>,
    \<open>SnaccModuleCapabilities.cpp\<close>, \<open>SnaccModuleVersions.cpp\<close>, \<open>IsOperationBlocked\<close>.
  \<^item> \<open>Rose_Msg\<close>, \<open>Rose_Inbound\<close>: one message of \<open>SnaccROSEBase.cpp\<close>: result codes, timeouts,
    the JSON frame, rejects; from the bytes of the transport to the handler and back.
  \<^item> \<open>Rose_Pending\<close>: \<open>SendInvoke\<close>, \<open>SendInvokeAsync\<close>, \<open>FinishAsyncInvoke\<close>, the pause and the
    watchdog as a step relation; a step is a section under a lock or a write without one.
  \<^item> \<open>Rose_Pools\<close>: \<open>SnaccWorkerPools.cpp\<close>, a step relation over the threads of one pool and
    the stubs that use it, and the registry of pools.
  \<^item> \<open>Rose_Props\<close>: the properties of these theories.

  \<^bold>\<open>Theories of the packed encoding rules.\<close>
  \<^item> \<open>Per_Buf\<close>: \<open>asn-bufbits.cpp\<close>.  \<open>content\<close> is the queue of bits that a buffer stands for, over
    the invariants \<open>ready\<close> (written only) and \<open>ok\<close> (read after it was written).
  \<^item> \<open>Per_Codec\<close>: writers and readers of buffers, what they emit and get at a position, and the
    locale \<open>per_item\<close>: what a pair of them must do so that sequences come back.  BOOLEAN
    (\<open>asn-bool.cpp\<close>), the lengths of \<open>asn-len.cpp\<close>, and the general form with its fragments
    (\<open>asn-PERGeneral.cpp\<close> and \<open>asn-octs.cpp\<close>, which have the same code; locale \<open>general_content\<close>).
  \<^item> \<open>Per_Constr\<close>: OCTET STRING with size constraints (\<open>asn-octs.cpp\<close>).
  \<^item> \<open>Cpp_Int\<close>, \<open>Per_Int\<close>: the values \<open>AsnInt\<close>, and INTEGER with value ranges (\<open>asn-int.cpp\<close>).
  \<^item> \<open>Per_Props\<close>: the properties of these theories.

  \<^bold>\<open>Theories of the compiler.\<close>
  \<^item> \<open>Comp_Types\<close>: the data of \<open>asn1module.h\<close>.  Definitions and the values of tags live in a
    heap, a list and a function, because references point into it, in circles or not; types are
    trees.  The tables of \<open>lib-types.c\<close>, \<open>DetermineCode\<close>, \<open>SetupType\<close>.
  \<^item> \<open>Comp_Util\<close>: \<open>snacc-util.c\<close> and \<open>define.c\<close>.  \<open>resolve\<close> and \<open>GetValue\<close> need not
    return and are partial functions; \<open>ParanoidGetType\<close> is proved to agree.
  \<^item> \<open>Comp_Link\<close>: \<open>link-types.c\<close> and \<open>exports.c\<close>: a pass takes and gives back the definitions of
    all modules and, module by module, the status, the imports and the values.
  \<^item> \<open>Comp_Recursive\<close>: \<open>recursive.c\<close>, against the graph of references; its locale
    \<open>walk_flags\<close> relates the flags a walk carries to paths, once for each of three flags.
  \<^item> \<open>Comp_Order\<close>: \<open>dependency.c\<close>.  \<open>RemoveAndSortIndependents\<close> leaves exactly what depends
    on a circle.
  \<^item> \<open>Comp_Tags\<close>: \<open>GetTags\<close> and \<open>CountTags\<close> of \<open>tag-util.c\<close>, the checks of tags of
    \<open>err-chk.c\<close>, against the inductive relation \<open>first_tags\<close>.
  \<^item> \<open>Comp_Check\<close>: the rest of \<open>err-chk.c\<close>; what a pass adds to the messages (\<open>extends\<close>).
  \<^item> \<open>Comp_Names\<close>: the names that generated code and its files get (\<open>str-util.c\<close>, \<open>kwd.c\<close>,
    \<open>FillCxxFieldNames\<close>); the locale \<open>namer\<close> is what a maker of unique names promises.
  \<^item> \<open>Comp_Props\<close>: the properties of these theories.

  \<^bold>\<open>What the lemmas show.\<close>  For every codec: the octets written (\<open>emits\<close>), the count
  returned, and that the decoder is a reference parser (\<open>outcome\<close>); this theory joins them
  into properties over the expandable buffer.  For the containers: refinement of lists and
  maps; for the allocator: an invariant of all reachable states.  For the ROSE runtime: the
  stores refine relations and maps; an inbound invoke has the one answer of a contract; in every
  interleaving an asynchronous callback runs at most once, the counters and limits of a pool
  hold and no item is lost or handled twice; and the runs in which a timeout is lost, the
  watchdog cannot be joined, an erased operation is used, or a pool leaves work waiting.  For the
  compiler: linking without an error leaves no reference open, which is what the later passes
  start from; the marks and warnings about recursion say what they mean of the graph of references
  and of the values of a type, the order is a permutation and sorted where one exists, and a
  module whose status is not set is free of the ambiguities that the checks look for; the members
  of a generated class have different names, and the search for a free name fails exactly when
  all names it tries are taken.  For the packed encoding rules: the buffer is a queue of bits; any
  sequence of OCTET STRINGs or INTEGERs within their constraints comes back from the bits written for
  it, wherever it starts; \<open>AsnInt\<close> and the C runtime have the same octets for a number; and the
  constraints, the appending of buffers and the orders for which the code does not work.

  \<^bold>\<open>Widths, bounds and fuel.\<close>  \<open>int\<close>, \<open>long\<close>, \<open>AsnLen\<close> and \<open>AsnTag\<close> have 32 bits, pointers
  and \<open>size_t\<close> 64, \<open>char\<close> is signed.  Buffers are below 2 GB.  The decoders of constructed
  strings take fuel: more than the number of unread octets is enough, which is proved.
  \<open>Asn1Alloc\<close> in a decoder is a predicate on sizes.  Round trips are stated for a message
  that fits one block, because \<open>ExpBufResetInReadMode\<close> moves to the last block; the
  contracts of writing and of reading hold for any number of blocks.  In the ROSE theories
  result codes and invoke ids are integers, operation ids have 32 bits, time is a natural
  number that only grows, and the clock, the peer, the transport and the handlers are free.

  In the compiler theories the walks along references take fuel, one unit for a reference; the
  number of definitions is enough for the marks, the number of names for the field names, and the
  walks for tags, which do not end on untagged circles, have enough whenever the tags exist.
  More fuel does not change an answer.

  \<^bold>\<open>Not modelled.\<close>  Printing (but for OBJECT IDENTIFIERs and BIT STRINGs), freeing, the debug
  output, REAL (floating point), \<open>CheckFor\<close> of \<open>hash.c\<close> (it reads a slot array as a slot),
  \<open>ExpBufCopyAny\<close>, the table tools (\<open>tbl*.c\<close>), and the runtimes for the other
  languages.  Of the compiler: the parser, the linking of values, of object classes and of types in
  constraints, normalizing, macros, values, printing, and the generators, which write text.  Of \<open>cpp-lib\<close>: the C++ codecs but for the
  packed encoding of BOOLEAN, OCTET STRING and INTEGER (the generated codecs of the ROSE types are
  arguments here), logging, the telemetry of outbound calls and of decode failures, and
  \<open>SendEvent\<close>.  Constraints of INTEGER over ranges of \<open>2 ^ 31\<close> values or more, for which the code
  computes beyond \<open>int\<close>, are modelled and have no theorem.
\<close>

section \<open>Lengths and tags\<close>

text \<open>The definite-length encoder writes the shortest form that X.690 has for the length
  exactly for the lengths outside [16777126, 2^24): its fourth threshold, meant to be 2^24, is
  mistyped.  In that interval it spends five octets where four do.  The bytes land in front of
  what the buffer held.\<close>

theorem def_len_minimal_iff:
  assumes "winv b" "\<not> writeErr (cur b)" "5 \<le> wroom b"
  shows "written (snd (BEncDefLen expBufOpsG b len)) = min_len_bytes len @ written b \<longleftrightarrow>
    \<not> (16777126 \<le> len \<and> len < 2 ^ 24)"
proof -
  have "length (def_len_bytes len) \<le> wroom b" using length_def_len_bytes [of len] assms(3) by linarith
  with ebw.emits_written [OF ebw.emits_BEncDefLen [of b len] assms(1)] assms(2)
  have "written (snd (BEncDefLen expBufOpsG b len)) = def_len_bytes len @ written b" by simp
  then show ?thesis by (simp add: def_len_bytes_min)
qed

theorem def_len_minimal_iff_witness:
  "written (snd (BEncDefLen expBufOpsG (freshBuf 8 0) 300)) = min_len_bytes 300 @ written (freshBuf 8 0)"
  using def_len_minimal_iff [of "freshBuf 8 0" 300] freshBuf_props [of 8 0] by simp

text \<open>The BER length decoder is the reference parser of X.690 lengths on every readable
  buffer, whatever its blocks: it returns the parsed value and the octets used, or jumps with
  the parser's error code.\<close>

theorem BDecLen_is_parser:
  assumes "rd b xs"
  shows "outcome expBufOpsG remaining rinv (BDecLen expBufOpsG b n) n xs (parse_len xs)"
  using assms by (rule ebr.outcome_BDecLen)

theorem BDecLen_is_parser_witness:
  "outcome expBufOpsG remaining rinv
     (BDecLen expBufOpsG (ExpBufInstallDataInBuf (freshBuf 8 0) [0x82, 1, 0]) 0) 0 [0x82, 1, 0] (Inr (256, 3))"
  using BDecLen_is_parser [OF rd_install [of "[0x82, 1, 0]" "freshBuf 8 0"], of 0]
  by (simp add: parse_long_len_def)

text \<open>C7: A tag of any class, form and code below 2^21 that is encoded with the macro for its
  size is read back as the identifier \<open>MAKE_TAG_ID\<close> computes for it, the constant that
  generated code compares against.\<close>

theorem tag_roundtrip:
  assumes "code < 2097152" "real_class cl" "real_form fm" "5 < sz" "sz < 2 ^ 31"
  shows "reads_back (BEncTag expBufOpsG (freshBuf sz m) cl fm code) (BDecTag expBufOpsG) (MAKE_TAG_ID cl fm code)"
proof (rule reads_backI [OF conjI [OF ebc.emits_BEncTag fst_BEncTag] _ assms(5)])
  show "length (tag_bytes cl fm code) < sz" using assms(4) by (simp add: tag_bytes_def)
  fix z assume "rd z (tag_bytes cl fm code)"
  from ebr.outcome_BDecTag [OF this, of 0]
  show "decodes z (BDecTag expBufOpsG) (tag_bytes cl fm code) (MAKE_TAG_ID cl fm code)"
    using parse_tag_bytes [OF assms(1-3), of "[]"] by simp
qed

theorem tag_roundtrip_witness:
  "reads_back (BEncTag expBufOpsG (freshBuf 8 0) CNTX CONS 1000) (BDecTag expBufOpsG) (MAKE_TAG_ID CNTX CONS 1000)"
  by (rule tag_roundtrip) (simp_all add: real_class_def real_form_def)

section \<open>The universal types\<close>

text \<open>C1: An INTEGER comes back as the value that was encoded exactly when it is not in
  [-2^23, 0): the decoder presets only one byte of its sign extension, so a negative number of
  fewer than four content octets is read back as another value.  The octets that were counted
  and read are the right ones in every case.\<close>

theorem int_roundtrip_iff:
  assumes "10 < sz" "sz < 2 ^ 31"
  shows "\<exists>v. reads_back (BEncAsnInt expBufOpsG (freshBuf sz m) d) (BDecAsnInt expBufOpsG) v \<and>
    reads_back (BEncAsnEnum expBufOpsG (freshBuf sz m) d) (BDecAsnEnum expBufOpsG) v \<and>
    (v = d \<longleftrightarrow> \<not> (-(2 ^ 23) \<le> sint d \<and> sint d < 0))"
proof (intro exI conjI)
  show "reads_back (BEncAsnInt expBufOpsG (freshBuf sz m) d) (BDecAsnInt expBufOpsG) (int_back d)"
    by (rule signed_reads_back [OF ebc.BEncAsnInt_tlv _ assms])
      (simp_all add: INTEGER_TAG_CODE_def BDecAsnInt_def)
  show "reads_back (BEncAsnEnum expBufOpsG (freshBuf sz m) d) (BDecAsnEnum expBufOpsG) (int_back d)"
    by (rule signed_reads_back [OF ebc.BEncAsnEnum_tlv _ assms])
      (simp_all add: ENUM_TAG_CODE_def BDecAsnEnum_def)
qed (rule int_back_iff)

theorem int_roundtrip_iff_witness:
  "\<exists>v. reads_back (BEncAsnInt expBufOpsG (freshBuf 16 0) (- 5)) (BDecAsnInt expBufOpsG) v \<and> v \<noteq> - 5"
  using int_roundtrip_iff [of 16 0 "- 5"] by auto

text \<open>A constructed OCTET STRING of indefinite length, any list of primitive pieces
  between its header and its end-of-contents octets, decodes to the pieces joined.\<close>

theorem octs_constructed:
  assumes "rd b (0x24 # 0x80 # concat (map (tlv OCTETSTRING_TAG_CODE) ps) @ 0 # 0 # ys)"
    and "length (concat (map (tlv OCTETSTRING_TAG_CODE) ps)) + length ys + 4 < fuel"
    and "\<forall>p \<in> set ps. length p < 2 ^ 31" "length (concat ps) < 2 ^ 31" "alloc (length (concat ps) + 1)"
  shows "\<exists>b'. BDecAsnOcts fuel alloc expBufOpsG b n =
      Ret \<lparr>octetLen = length (concat ps), octs = concat ps @ [0]\<rparr>
        (n + of_nat (length (concat (map (tlv OCTETSTRING_TAG_CODE) ps)) + 4)) b' \<and> rd b' ys"
proof -
  let ?xs = "0x24 # 0x80 # concat (map (tlv OCTETSTRING_TAG_CODE) ps) @ 0 # 0 # ys"
  have h: "parse_head (-40) octs_tags ?xs = Inr ((univ_cons_tag OCTETSTRING_TAG_CODE, INDEFINITE_LEN), 2)"
    using parse_tag_bytes [of OCTETSTRING_TAG_CODE UNIV_CLASS CONS "tl ?xs"]
    by (simp add: parse_head_def octs_tags_def univ_cons_tag_def real_class_def real_form_def
        tag_bytes_def tag_byte_def OCTETSTRING_TAG_CODE_def)
  have "parse_octs alloc ?xs = Inr (\<lparr>octetLen = length (concat ps), octs = concat ps @ [0]\<rparr>,
      length (concat (map (tlv OCTETSTRING_TAG_CODE) ps)) + 4)"
    using parse_parts_pieces [OF assms(3), of 0 ys] assms(4,5)
    by (simp add: parse_octs_def h parse_octs_content_def octs_tag_form unat_of_nat Let_def)
  moreover have "drop (length (concat (map (tlv OCTETSTRING_TAG_CODE) ps)) + 4) ?xs = ys"
    by (simp add: eval_nat_numeral)
  ultimately show ?thesis
    using ebr.outcome_BDecAsnOcts [OF assms(1), of fuel alloc n] assms(2) by simp
qed

theorem octs_constructed_witness:
  "\<exists>b'. BDecAsnOcts 20 (\<lambda>_. True) expBufOpsG
     (ExpBufInstallDataInBuf (freshBuf 8 0) [0x24, 0x80, 4, 1, 7, 4, 2, 8, 9, 0, 0]) 0 =
     Ret \<lparr>octetLen = 3, octs = [7, 8, 9, 0]\<rparr> 11 b' \<and> rd b' []"
  using octs_constructed [of _ "[[7], [8, 9]]" "[]", OF rd_install, of 20 "\<lambda>_. True" "freshBuf 8 0" 0]
  by (simp add: tlv_def def_len_bytes_def OCTETSTRING_TAG_CODE_def numeral_3_eq_3)

text \<open>C2: With fuel above the number of unread bytes the OCTET STRING decoder ends on every
  input, and does what the reference parser does: the value and the octets used, or its error
  code.  Nesting, indefinite lengths and truncated pieces are all covered.\<close>

theorem octs_decoder_total:
  assumes "rd b xs" "length xs < fuel"
  shows "BDecAsnOcts fuel alloc expBufOpsG b n \<noteq> OutOfFuel \<and>
    outcome expBufOpsG remaining rinv (BDecAsnOcts fuel alloc expBufOpsG b n) n xs (parse_octs alloc xs)"
  using ebr.outcome_BDecAsnOcts [OF assms, of alloc n] by (auto elim!: outcomeE)

theorem octs_decoder_total_witness:
  "BDecAsnOcts 9 (\<lambda>_. True) expBufOpsG (ExpBufInstallDataInBuf (freshBuf 8 0) [4, 2, 1]) 0 \<noteq> OutOfFuel"
  using octs_decoder_total [OF rd_install, of "[4, 2, 1]" 9 "\<lambda>_. True" "freshBuf 8 0" 0] by simp

section \<open>The expandable buffer\<close>

text \<open>C3: A write puts its bytes in front of what the buffers hold, filling the current block
  and allocating as many more as it needs; it fails, with the error flag set, only when the
  bytes exceed the room left in the blocks that are there or can still be allocated.\<close>

theorem put_seg_prepends:
  assumes "winv z" "\<not> writeErr (cur z)" "length xs < 2 ^ 31"
  shows "winv (ExpBufPutSegRvs z xs) \<and>
    (\<not> writeErr (cur (ExpBufPutSegRvs z xs)) \<longrightarrow> written (ExpBufPutSegRvs z xs) = xs @ written z) \<and>
    (length xs \<le> wroom z \<longrightarrow> \<not> writeErr (cur (ExpBufPutSegRvs z xs)) \<and>
      wroom (ExpBufPutSegRvs z xs) = wroom z - length xs)"
  using wemits_putSeg [OF assms(3), of z] assms(1,2) by (simp add: Gen_Buf.emits_def)

theorem put_seg_prepends_witness:
  "written (ExpBufPutSegRvs (freshBuf 4 0) [1, 2]) = [1, 2]"
  using put_seg_prepends [of "freshBuf 4 0" "[1, 2]"] freshBuf_props [of 4 0] by simp

text \<open>A copy of n bytes crosses block boundaries: it returns the next n bytes when there
  are that many, and otherwise sets the read error.\<close>

theorem copy_reads:
  assumes "rd z xs" "n < 2 ^ 31"
  shows "if n \<le> length xs
    then fst (ExpBufCopy z n) = take n xs \<and> rd (snd (ExpBufCopy z n)) (drop n xs)
    else readErr (cur (snd (ExpBufCopy z n)))"
proof -
  have "copy expBufOpsG = ExpBufCopy" by (simp add: expBufOpsG_def)
  then show ?thesis
    using ebr.copy_ok [OF assms(1), of n] ebr.copy_short [OF assms(1), of n] assms(2) by simp
qed

theorem copy_reads_witness:
  "fst (ExpBufCopy (ExpBufInstallDataInBuf (freshBuf 4 0) [1, 2, 3]) 2) = [1, 2]"
  using copy_reads [OF rd_install, of "[1, 2, 3]" 2 "freshBuf 4 0"] by simp

section \<open>BIT STRING\<close>



text \<open>Two well-formed BIT STRINGs are found equal exactly when they have the same length
  and the same bits; the unused bits of the last octet do not count.\<close>

theorem bits_equiv_iff:
  assumes "wf_bits x" "wf_bits y"
  shows "AsnBitsEquiv x y = Some (bitLen x = bitLen y \<and> (\<forall>n < nat (bitLen x). bit_at x n = bit_at y n))"
  using assms by (rule AsnBitsEquiv_bits)

theorem bits_equiv_iff_witness:
  "AsnBitsEquiv \<lparr>bitLen = 1, bits = [0x80]\<rparr> \<lparr>bitLen = 1, bits = [0x81]\<rparr> = Some True"
  using bits_equiv_iff [of "\<lparr>bitLen = 1, bits = [0x80]\<rparr>" "\<lparr>bitLen = 1, bits = [0x81]\<rparr>"]
  by (simp add: wf_bits_def bit_octets_def bit_at_def bit_simps)

section \<open>OBJECT IDENTIFIER\<close>

text \<open>C10: An OBJECT IDENTIFIER built from arcs takes the octets announced by
  \<open>EncodedOidLen\<close> and comes back through the buffer with the arcs it was built from: the
  head number 40 * a1 + a2 and then every further arc.\<close>

theorem oid_roundtrip:
  assumes "head_arcs_ok a1 a2" "\<forall>w \<in> set arcs. unat w < 2 ^ 31"
    and v: "v = BuildEncodedOid (a1 # a2 # arcs) r"
    and "octetLen v + 6 < sz" "sz < 2 ^ 31" "alloc (octetLen v)"
  shows "EncodedOidLen (a1 # a2 # arcs) = of_nat (octetLen v) \<and>
    (\<exists>w i. reads_back (BEncAsnOid expBufOpsG (freshBuf sz m) v) (BDecAsnOid alloc expBufOpsG) w \<and>
      octetLen w = octetLen v \<and> readArc w 0 0 = Some (a1 * 40 + a2, i) \<and> readArcs w i = Some arcs)"
proof (intro conjI)
  show "EncodedOidLen (a1 # a2 # arcs) = of_nat (octetLen v)"
    unfolding v by (rule EncodedOidLen_eq) simp
  let ?bs = "take (octetLen v) (octs v)"
  let ?w = "\<lparr>octetLen = octetLen v, octs = ?bs\<rparr>"
  have l: "octetLen v \<le> length (octs v)" and w: "?w = BuildEncodedOid (a1 # a2 # arcs) \<lparr>octetLen = 0, octs = []\<rparr>"
    by (simp_all add: v Let_def writeOcts_def)
  have b: "octetLen v < 2 ^ 31" "length ?bs = octetLen v" using l assms(4,5) by simp_all
  obtain i where "readArc ?w 0 0 = Some (a1 * 40 + a2, i)" "readArcs ?w i = Some arcs"
    using Build_read [OF assms(2) w] by blast
  moreover have "reads_back (BEncAsnOid expBufOpsG (freshBuf sz m) v) (BDecAsnOid alloc expBufOpsG) ?w"
  proof (rule tlv_reads_back [OF ebc.BEncAsnOid_tlv [OF b(1) l] _ assms(5)])
    show "length ?bs + 6 < sz" using b assms(4) by simp
    fix z assume "rd z (tlv OID_TAG_CODE ?bs)"
    from ebr.outcome_BDecAsnOid [OF this, of alloc 0]
    show "decodes z (BDecAsnOid alloc expBufOpsG) (tlv OID_TAG_CODE ?bs) ?w"
      using parse_oid_tlv [of ?bs alloc OID_TAG_CODE "[]"] b assms(6) by (simp add: OID_TAG_CODE_def)
  qed
  ultimately show "\<exists>w i. reads_back (BEncAsnOid expBufOpsG (freshBuf sz m) v) (BDecAsnOid alloc expBufOpsG) w \<and>
      octetLen w = octetLen v \<and> readArc w 0 0 = Some (a1 * 40 + a2, i) \<and> readArcs w i = Some arcs"
    by force
qed

theorem oid_roundtrip_witness:
  "\<exists>w i. reads_back (BEncAsnOid expBufOpsG (freshBuf 100 0) (BuildEncodedOid [1, 2, 840] \<lparr>octetLen = 0, octs = []\<rparr>))
       (BDecAsnOid (\<lambda>_. True) expBufOpsG) w \<and>
     readArc w 0 0 = Some (42, i) \<and> readArcs w i = Some [840]"
proof -
  let ?v = "BuildEncodedOid [1, 2, 840] \<lparr>octetLen = 0, octs = []\<rparr>"
  have "octetLen ?v + 6 < 100" by (simp add: writeOcts_def length_arcBytes arcLen.simps)
  from oid_roundtrip [of 1 2 "[840]" ?v _ 100 "\<lambda>_. True" 0, OF _ _ refl this] show ?thesis
    by (auto simp: head_arcs_ok_def simp del: BuildEncodedOid.simps)
qed

section \<open>Character strings\<close>

text \<open>A string of one of the four checked types that passes its check comes back with its
  length and octets.\<close>

theorem strings_roundtrip:
  assumes "octetLen x \<le> length (octs x)" "octetLen x + 6 < sz" "sz < 2 ^ 31"
    and "alloc (octetLen x + 1)" "octetLen x + 6 < fuel" "y = \<lparr>octetLen = octetLen x, octs = str_octets x @ [0]\<rparr>"
  shows "(checkIA5String x \<longrightarrow>
      reads_back (BEncIA5String expBufOpsG (freshBuf sz m) x) (BDecIA5String fuel alloc expBufOpsG) y) \<and>
    (chkNumericString x \<longrightarrow>
      reads_back (BEncNumericString expBufOpsG (freshBuf sz m) x) (BDecNumericString fuel alloc expBufOpsG) y) \<and>
    (chkPrintableString x \<longrightarrow>
      reads_back (BEncPrintableString expBufOpsG (freshBuf sz m) x) (BDecPrintableString fuel alloc expBufOpsG) y) \<and>
    (chkVisibleString x \<longrightarrow>
      reads_back (BEncVisibleString expBufOpsG (freshBuf sz m) x) (BDecVisibleString fuel alloc expBufOpsG) y)"
  unfolding assms(6) BEncIA5String_def BDecIA5String_def BEncNumericString_def BDecNumericString_def
    BEncPrintableString_def BDecPrintableString_def BEncVisibleString_def BDecVisibleString_def
  using string_reads_back [where alloc = alloc, OF ia5.string_codec_axioms assms(1-5)]
    string_reads_back [where alloc = alloc, OF numeric.string_codec_axioms assms(1-5)]
    string_reads_back [where alloc = alloc, OF printable.string_codec_axioms assms(1-5)]
    string_reads_back [where alloc = alloc, OF visible.string_codec_axioms assms(1-5)] assms(1)
  by (simp add: checkIA5String_def chkNumericString_def chkPrintableString_def chkVisibleString_def)

theorem strings_roundtrip_witness:
  "reads_back (BEncNumericString expBufOpsG (freshBuf 16 0) \<lparr>octetLen = 2, octs = [49, 50]\<rparr>)
     (BDecNumericString 20 (\<lambda>_. True) expBufOpsG) \<lparr>octetLen = 2, octs = [49, 50, 0]\<rparr>"
  using strings_roundtrip [of "\<lparr>octetLen = 2, octs = [49, 50]\<rparr>" 16 "\<lambda>_. True" 20
      "\<lparr>octetLen = 2, octs = [49, 50, 0]\<rparr>" 0]
  by (simp add: chkNumericString_def str_octets_def)

text \<open>C11: Whatever bytes arrive, in any buffer, no decoder of a checked string type returns a
  string that fails the check of the type.\<close>

theorem strings_decoded_ok:
  "(BDecIA5String fuel alloc g b n = Ret x k b' \<longrightarrow> checkIA5String x) \<and>
   (BDecNumericString fuel alloc g b n = Ret x k b' \<longrightarrow> chkNumericString x) \<and>
   (BDecPrintableString fuel alloc g b n = Ret x k b' \<longrightarrow> chkPrintableString x) \<and>
   (BDecVisibleString fuel alloc g b n = Ret x k b' \<longrightarrow> chkVisibleString x) \<and>
   (BDecUTF8String fuel alloc g b n = Ret x k b' \<longrightarrow> IsValidUTF8String x) \<and>
   (BDecBMPString fuel alloc g b n = Ret x k b' \<longrightarrow> octetLen x mod 2 = 0) \<and>
   (BDecUniversalString fuel alloc g b n = Ret x k b' \<longrightarrow> octetLen x mod 4 = 0)"
  unfolding BDecIA5String_def BDecNumericString_def BDecPrintableString_def BDecVisibleString_def
    BDecUTF8String_def BDecBMPString_def BDecUniversalString_def
  by (intro conjI impI; (erule ia5.decoded_ok | erule numeric.decoded_ok | erule printable.decoded_ok |
    erule visible.decoded_ok | erule utf8.decoded_ok | erule bmp.decoded_ok | erule universal.decoded_ok))

theorem strings_decoded_ok_witness:
  "\<nexists>b'. BDecNumericString 9 (\<lambda>_. True) expBufOpsG (ExpBufInstallDataInBuf (freshBuf 8 0) [18, 1, 65]) 0 =
     Ret \<lparr>octetLen = 1, octs = [65, 0]\<rparr> 3 b'"
  using strings_decoded_ok [of 9 "\<lambda>_. True" expBufOpsG
      "ExpBufInstallDataInBuf (freshBuf 8 0) [18, 1, 65]" 0 "\<lparr>octetLen = 1, octs = [65, 0]\<rparr>" 3]
  by (auto simp: chkNumericString_def str_octets_def)

text \<open>C9: Wide characters up to 0x7FFFFFF turn into UTF-8 that the validity check accepts and
  that turns back into the same characters, for \<open>wchar_t\<close> of 16 bits (unsigned) and of 32
  bits.\<close>

theorem utf8_roundtrip:
  fixes ws :: "'w::len word list"
  assumes "LENGTH('w) = 16 \<and> unsgn \<or> LENGTH('w) = 32" "\<forall>w \<in> set ws. unat w \<le> 0x07FFFFFF" "\<And>n. alloc n"
  shows "\<exists>bs. CvtWchar2UTF8 alloc unsgn (Some ws) = Inr bs \<and> CvtUTF8towchar alloc (Some bs) = Inr ws \<and>
    IsValidUTF8String \<lparr>octetLen = length bs, octs = bs\<rparr>"
proof -
  obtain bs where "toUTF8 unsgn ws = Inr bs" "fromUTF8 bs = Inr ws" "validUTF8 bs"
    using toUTF8_ok [of ws unsgn] assms(1,2) by auto
  then show ?thesis
    using assms(3) by (simp add: CvtWchar2UTF8_def CvtUTF8towchar_def IsValidUTF8String_def str_octets_def)
qed

theorem utf8_roundtrip_witness:
  "\<exists>bs. CvtWchar2UTF8 (\<lambda>_. True) False (Some [0x41, 0x20AC, 0x1F600 :: 32 word]) = Inr bs \<and>
     CvtUTF8towchar (\<lambda>_. True) (Some bs) = Inr [0x41, 0x20AC, 0x1F600 :: 32 word]"
  using utf8_roundtrip [of False "[0x41, 0x20AC, 0x1F600 :: 32 word]" "\<lambda>_. True"] by auto

section \<open>Hash tables and ANY\<close>

text \<open>\<open>MakeHash\<close>, with its loop unrolled eight times and entered in the middle, is the
  plain left-to-right hash n := c + 65587 * n of the first \<open>len\<close> characters.\<close>

theorem MakeHash_plain:
  assumes "len \<le> length str"
  shows "MakeHash str len = foldl (\<lambda>n c. scast c + 65587 * n) 0 (take len str)"
  using MakeHash_eq [OF assms] by (simp add: hash_spec_def)

theorem MakeHash_plain_witness: "MakeHash [1, 2, 3] 2 = 65589"
  using MakeHash_plain [of 2 "[1, 2, 3]"] by (simp add: numeral_2_eq_2)

text \<open>C5: A table is a map from hashes to values.  An insertion that succeeds binds the hash if
  it was free and changes nothing else; one that fails for lack of memory changes no binding.
  Splitting a slot into sub-tables, down to the fourth level, is not seen from outside, and
  the table stays well formed.\<close>

theorem Insert_refines_map:
  assumes "table_ok t" "Insert m t v h = (r, t', m')"
  shows "table_ok t' \<and> CheckForAndReturnValue t' =
    (if r \<and> CheckForAndReturnValue t h = None then (CheckForAndReturnValue t)(h := Some v)
     else CheckForAndReturnValue t)"
  using hm.insert_keeps [OF assms] hm.insert_done [OF assms(1), of m v h t' m']
    hm.insert_failed [OF assms(1), of m v h t' m'] assms(2)
  by (cases r) (simp_all add: put_def)

theorem Insert_refines_map_witness:
  "CheckForAndReturnValue (fst (snd (Insert 1 [] True 5))) = [5 \<mapsto> True]"
  using Insert_refines_map [of "[]" 1 True 5 True] by (simp add: Insert_empty fun_eq_iff)

text \<open>After installing a type under an OBJECT IDENTIFIER, looking up any identifier finds
  that descriptor exactly when the two identifiers have the same hash and the hash was free;
  otherwise the lookup gives what it gave before.\<close>

theorem any_oid_installed:
  assumes "table_ok t" "anyOidHashTblG G = Some t"
    and "InstallAnyByOid aid ident junk sz ef df G = Some G'"
    and a: "a = \<lparr>anyId = aid, oid = Some ident, intId = junk, size_of = sz, Encode = ef, Decode = df\<rparr>"
    and h: "h = MakeHash (octs ident) (octetLen ident)"
    and "fst (Insert (mallocs_left G - 1) t a h)"
  shows "SetAnyTypeByOid G' junk' x =
    (if MakeHash (octs x) (octetLen x) = h \<and> CheckForAndReturnValue t h = None then Some a
     else SetAnyTypeByOid G junk' x)"
proof -
  have "0 < mallocs_left G" using assms(3) by (auto simp: InstallAnyByOid_def split: if_splits)
  from SetAnyTypeByOid_Install [OF assms(1,2) this assms(3)] assms(6) show ?thesis
    unfolding a h by simp
qed

theorem any_oid_installed_witness:
  "\<exists>G'. InstallAnyByOid 3 \<lparr>octetLen = 1, octs = [42]\<rparr> 0 4 None None
       \<lparr>anyOidHashTblG = Some [], anyIntHashTblG = None, mallocs_left = 9\<rparr> =
       Some (G' :: (ExpBufs, nat) AnyTables) \<and>
     SetAnyTypeByOid G' 0 \<lparr>octetLen = 1, octs = [42]\<rparr> \<noteq> None"
proof -
  let ?G = "\<lparr>anyOidHashTblG = Some [], anyIntHashTblG = None, mallocs_left = 9\<rparr> :: (ExpBufs, nat) AnyTables"
  obtain G' where G': "InstallAnyByOid 3 \<lparr>octetLen = 1, octs = [42]\<rparr> 0 4 None None ?G = Some G'"
    by (simp add: InstallAnyByOid_def Insert_empty Let_def)
  from any_oid_installed [OF _ _ this refl refl] show ?thesis
    using G' by (simp add: Insert_empty)
qed

section \<open>Doubly linked lists\<close>

text \<open>C6: On a well-formed list whose current node is c, the four insertions put the new element
  at the end, at the front, behind c and before c; the new node becomes the current one, and
  links, ends and count stay consistent.\<close>

theorem list_insertions:
  assumes "is_list h L (xs @ c # ys) (ds @ e # es) (Some c)" "length xs = length ds" "a \<notin> dom h"
  shows "(\<exists>h' L'. AsnListAppend a d (h, L) = Some (Some a, h', L') \<and>
      is_list h' L' (xs @ c # ys @ [a]) (ds @ e # es @ [d]) (Some a)) \<and>
    (\<exists>h' L'. AsnListPrepend a d (h, L) = Some (Some a, h', L') \<and>
      is_list h' L' (a # xs @ c # ys) (d # ds @ e # es) (Some a)) \<and>
    (\<exists>h' L'. AsnListAdd a d (h, L) = Some (Some a, h', L') \<and>
      is_list h' L' (xs @ c # a # ys) (ds @ e # d # es) (Some a)) \<and>
    (\<exists>h' L'. AsnListInsert a d (h, L) = Some (Some a, h', L') \<and>
      is_list h' L' (xs @ a # c # ys) (ds @ d # e # es) (Some a))"
  using AsnListAppend_ok [OF assms(1,3), of d] AsnListPrepend_ok [OF assms(1,3), of d]
    AsnListAdd_ok [OF assms, of d] AsnListInsert_ok [OF assms, of d] by auto

theorem list_insertions_witness:
  "\<exists>h' L'. AsnListAdd 2 (Some True) ([1 \<mapsto> \<lparr>prev = None, next = None, data = Some False\<rparr>],
       \<lparr>first = Some 1, last_node = Some 1, curr_node = Some 1, count = 1, dataSize = 4\<rparr>) = Some (Some 2, h', L') \<and>
     is_list h' L' [1, 2] [Some False, Some True] (Some 2)"
  using list_insertions [of _ _ "[]" 1 "[]" "[]" "Some False" "[]" 2 "Some True"] list_one [of "Some False"] by simp

text \<open>Removing the current node of a well-formed list frees it, leaves the other elements in
  their order and makes the node behind it the current one, or none if it was the last.\<close>

theorem list_remove:
  assumes "is_list h L (xs @ c # ys) (ds @ e # es) (Some c)" "length xs = length ds"
  shows "\<exists>h' L'. AsnListRemove (h, L) = Some (h', L') \<and> h' c = None \<and>
    is_list h' L' (xs @ ys) (ds @ es) (if ys = [] then None else Some (hd ys))"
  using AsnListRemove_ok [OF assms] by (cases ys) auto

theorem list_remove_witness:
  "\<exists>h' L'. AsnListRemove ([1 \<mapsto> \<lparr>prev = None, next = None, data = Some False\<rparr>],
       \<lparr>first = Some 1, last_node = Some 1, curr_node = Some 1, count = 1, dataSize = 4\<rparr>) = Some (h', L') \<and>
     is_list h' L' [] ([] :: bool option list) None"
  using list_remove [of _ _ "[]" 1 "[]" "[]" "Some False" "[]", simplified, OF list_one [of "Some False", simplified]]
  by auto

section \<open>The nibble allocator\<close>

text \<open>C4: However the decoder allocates, stores into what it was given and resets, the areas in
  use lie inside the used part of their blocks, no two overlap, and every byte not yet handed
  out is zero.\<close>

theorem nibble_invariant:
  assumes "nibble_run (nm, as)"
  shows "(\<forall>a \<in> set as. area_ok (nibbleBufs nm) a) \<and> areas_disjoint as \<and>
    (\<forall>b \<in> set (nibbleBufs nm). ncurr b \<le> length (mem b) \<and> (\<forall>x \<in> set (drop (ncurr b) (mem b)). x = 0))"
  using nibble_run_ok [OF assms] by (simp add: nibble_ok_def buf_ok_def)

theorem nibble_invariant_witness: "ncurr (newBuf 16) \<le> length (mem (newBuf 16))"
  using nibble_invariant [OF nibble_run.init, of 3 16 16 "\<lparr>firstNibbleBuf = newBuf 16, laterBufs = [], incrementSize = 16\<rparr>" 0]
  by (simp add: InitNibbleMem_def nibbleBufs_def)

end
